(* ===== verification/Prelude.thy ===== *)
theory Prelude
  imports Complex_Main "HOL-Library.Word" "HOL-Library.AList" "HOL-Library.Sublist"
    "HOL-Library.Multiset"
begin

text \<open>
  Shared ground of the development: how Go values are represented, the lemma collections,
  and the generic lemmas on maps, saturating counters and strings that the component
  theories use.

  \<^item> a Go \<^verbatim>\<open>map[K]V\<close> is an association list whose keys are distinct (\<open>gomap_ok\<close>). The list
    order is the iteration order, which Go leaves unspecified: a theorem about an arbitrary
    list covers every order;
  \<^item> \<^verbatim>\<open>time.Time\<close> and \<^verbatim>\<open>time.Duration\<close> are integers counting nanoseconds; the zero time is
    \<open>zero_time\<close>; an operation that reads the clock takes its readings as arguments;
  \<^item> \<^verbatim>\<open>uint32\<close> and \<^verbatim>\<open>uint64\<close> are words; \<^verbatim>\<open>int\<close> is \<open>int\<close> where a guard keeps it in range;
  \<^item> \<^verbatim>\<open>float64\<close> values are exact rationals: rounding is not modelled;
  \<^item> a Go string is its list of bytes.
\<close>

named_theorems op_defs \<open>definitions of the operations of the components\<close>
named_theorems inv_defs \<open>definitions of the invariants of the components\<close>

type_synonym ('k, 'v) gomap = "('k \<times> 'v) list"
type_synonym u32 = "32 word"
type_synonym u64 = "64 word"
type_synonym time = int
type_synonym duration = int

subsection \<open>Time\<close>

definition zero_time :: time where
  "zero_time = -62135596800000000000"

definition nanosecond :: duration where "nanosecond = 1"
definition millisecond :: duration where "millisecond = 1000000"
definition second :: duration where "second = 1000000000"
definition minute :: duration where "minute = 60000000000"

lemmas unit_defs = nanosecond_def millisecond_def second_def minute_def

subsection \<open>Go maps\<close>

abbreviation gomap_ok :: "('k, 'v) gomap \<Rightarrow> bool" where
  "gomap_ok m \<equiv> distinct (map fst m)"

abbreviation put :: "'k \<Rightarrow> 'v \<Rightarrow> ('k, 'v) gomap \<Rightarrow> ('k, 'v) gomap" where
  "put k v m \<equiv> AList.update k v m"

abbreviation del :: "'k \<Rightarrow> ('k, 'v) gomap \<Rightarrow> ('k, 'v) gomap" where
  "del k m \<equiv> AList.delete k m"

text \<open>The value of \<^verbatim>\<open>m[k]\<close> with the zero value for a missing key.\<close>

definition get_or :: "'v \<Rightarrow> ('k, 'v) gomap \<Rightarrow> 'k \<Rightarrow> 'v" where
  "get_or z m k = (case map_of m k of None \<Rightarrow> z | Some v \<Rightarrow> v)"

lemma map_of_put: "map_of (put k v m) k' = (if k' = k then Some v else map_of m k')"
  by (simp add: update_conv')

lemma map_of_del: "map_of (del k m) k' = (if k' = k then None else map_of m k')"
  by (auto simp: delete_conv' restrict_map_def)

lemma get_or_put [simp]: "get_or z (put k v m) k' = (if k' = k then v else get_or z m k')"
  by (simp add: get_or_def map_of_put)

lemma get_or_del [simp]: "get_or z (del k m) k' = (if k' = k then z else get_or z m k')"
  by (simp add: get_or_def map_of_del)

lemma get_or_Nil [simp]: "get_or z [] k = z"
  by (simp add: get_or_def)

lemma gomap_ok_put [simp, intro]: "gomap_ok m \<Longrightarrow> gomap_ok (put k v m)"
  by (rule distinct_update)

lemma gomap_ok_del [simp, intro]: "gomap_ok m \<Longrightarrow> gomap_ok (del k m)"
  by (rule distinct_delete)

lemma length_put: "length (put k v m) = (if k \<in> fst ` set m then length m else Suc (length m))"
  by (induction m) auto

lemma length_put_old [simp]: "map_of m k = Some c \<Longrightarrow> length (put k v m) = length m"
  by (auto simp: length_put dest!: map_of_SomeD intro: rev_image_eqI)

lemma length_put_new [simp]: "map_of m k = None \<Longrightarrow> length (put k v m) = Suc (length m)"
  by (auto simp: length_put map_of_eq_None_iff)

lemma length_put_le: "length (put k v m) \<le> Suc (length m)"
  by (simp add: length_put)

lemma length_del_le: "length (del k m) \<le> length m"
  by (rule length_delete_le)

lemma length_del_mem: "gomap_ok m \<Longrightarrow> map_of m k = Some c \<Longrightarrow> Suc (length (del k m)) = length m"
proof (induction m)
  case (Cons a m)
  obtain k' v where a: "a = (k', v)" by force
  show ?case
  proof (cases "k' = k")
    case True
    with Cons.prems a have "k \<notin> fst ` set m" by simp
    then have "del k m = m" by simp
    with True a show ?thesis by simp
  next
    case False
    with Cons a show ?thesis by simp
  qed
qed simp

lemma keys_del: "fst ` set (del k m) = fst ` set m - {k}"
proof -
  have "set (map fst (del k m)) = set (removeAll k (map fst m))" by (simp only: AList.delete_keys)
  then show ?thesis by auto
qed

lemma keys_put: "fst ` set (put k v m) = insert k (fst ` set m)"
  by (induction m) auto

lemma gomap_mem_iff: "gomap_ok m \<Longrightarrow> (k, v) \<in> set m \<longleftrightarrow> map_of m k = Some v"
  by simp

lemma set_del_subset: "set (del k m) \<subseteq> set m"
  by (auto simp: AList.delete_eq)

text \<open>Another iteration order of the same map.\<close>

lemma gomap_permute:
  assumes "mset m = mset m'" and "gomap_ok m'"
  shows "gomap_ok m" and "map_of m = map_of m'"
proof -
  have "mset (map fst m) = mset (map fst m')" using assms(1) by simp
  then show ok: "gomap_ok m" using assms(2) by (metis mset_eq_imp_distinct_iff)
  show "map_of m = map_of m'"
    using assms ok mset_eq_setD [OF assms(1)] by (simp add: map_of_inject_set)
qed

text \<open>Every entry of a map satisfies a predicate: the shape of the component invariants.\<close>

definition all_entries :: "('k \<Rightarrow> 'v \<Rightarrow> bool) \<Rightarrow> ('k, 'v) gomap \<Rightarrow> bool" where
  "all_entries P m \<longleftrightarrow> (\<forall>k v. map_of m k = Some v \<longrightarrow> P k v)"

lemma all_entries_Nil [simp]: "all_entries P []"
  by (simp add: all_entries_def)

lemma all_entries_put [intro]: "all_entries P m \<Longrightarrow> P k v \<Longrightarrow> all_entries P (put k v m)"
  by (simp add: all_entries_def map_of_put)

lemma all_entries_del [simp, intro]: "all_entries P m \<Longrightarrow> all_entries P (del k m)"
  by (simp add: all_entries_def map_of_del)

lemma all_entriesD: "all_entries P m \<Longrightarrow> map_of m k = Some v \<Longrightarrow> P k v"
  by (simp add: all_entries_def)

lemma all_entries_mono: "all_entries P m \<Longrightarrow> (\<And>k v. P k v \<Longrightarrow> Q k v) \<Longrightarrow> all_entries Q m"
  by (auto simp: all_entries_def)

text \<open>The sum of a measure over the values of a map, as entries come and go.\<close>

definition sum_values :: "('v \<Rightarrow> int) \<Rightarrow> ('k, 'v) gomap \<Rightarrow> int" where
  "sum_values f m = sum_list (map (\<lambda>(k, v). f v) m)"

lemma sum_values_Nil [simp]: "sum_values f [] = 0"
  by (simp add: sum_values_def)

lemma sum_values_put:
  "sum_values f (put k v m) = sum_values f m + f v - (case map_of m k of None \<Rightarrow> 0 | Some u \<Rightarrow> f u)"
  by (induction m) (auto simp: sum_values_def split: option.splits)

lemma sum_values_del:
  "gomap_ok m \<Longrightarrow> sum_values f (del k m) = sum_values f m - (case map_of m k of None \<Rightarrow> 0 | Some u \<Rightarrow> f u)"
proof (induction m)
  case (Cons a m)
  obtain k' v where a: "a = (k', v)" by force
  show ?case
  proof (cases "k' = k")
    case True
    with Cons.prems a have "k \<notin> fst ` set m" by simp
    then have "del k m = m" by simp
    with True a show ?thesis by (simp add: sum_values_def)
  next
    case False
    with Cons a show ?thesis by (auto simp: sum_values_def split: option.splits)
  qed
qed simp

subsection \<open>The contract of a keyed store\<close>

text \<open>
  The registries of the program (circuits, backoff levels, rate-limit buckets, account
  pools) rely on one contract of the map they are built on: a lookup returns the last value
  written, a deletion removes exactly its key.
\<close>

locale keyed_store =
  fixes look :: "'m \<Rightarrow> 'k \<Rightarrow> 'v option"
    and ins :: "'k \<Rightarrow> 'v \<Rightarrow> 'm \<Rightarrow> 'm"
    and rmv :: "'k \<Rightarrow> 'm \<Rightarrow> 'm"
    and valid :: "'m \<Rightarrow> bool"
  assumes look_ins: "look (ins k v m) k' = (if k' = k then Some v else look m k')"
    and look_rmv: "look (rmv k m) k' = (if k' = k then None else look m k')"
    and valid_ins: "valid m \<Longrightarrow> valid (ins k v m)"
    and valid_rmv: "valid m \<Longrightarrow> valid (rmv k m)"
begin

lemma frame_fold_rmv: "k \<notin> set ks \<Longrightarrow> look (fold rmv ks m) k = look m k"
  by (induction ks arbitrary: m) (auto simp: look_rmv)

lemma fold_rmv_gone: "k \<in> set ks \<Longrightarrow> look (fold rmv ks m) k = None"
proof (induction ks arbitrary: m)
  case (Cons a ks)
  then show ?case
    by (cases "k \<in> set ks") (auto simp: frame_fold_rmv look_rmv)
qed simp

lemma fold_rmv_eq: "look (fold rmv ks m) k = (if k \<in> set ks then None else look m k)"
  by (simp add: frame_fold_rmv fold_rmv_gone)

lemma fold_rmv_valid: "valid m \<Longrightarrow> valid (fold rmv ks m)"
  by (induction ks arbitrary: m) (auto simp: valid_rmv)

lemma read_own_write: "look (ins k v m) k = Some v"
  by (simp add: look_ins)

lemma ins_frame: "k' \<noteq> k \<Longrightarrow> look (ins k v m) k' = look m k'"
  by (simp add: look_ins)

end

interpretation gm: keyed_store map_of AList.update AList.delete gomap_ok
  by unfold_locales (auto simp: map_of_put map_of_del)

subsection \<open>Machines and their invariants\<close>

text \<open>
  A component is a state with operations; an invariant that every operation keeps holds
  after any sequence of operations. The run of a list of operations and that fact are
  stated once.
\<close>

fun run_ops :: "('s \<Rightarrow> 'o \<Rightarrow> 's) \<Rightarrow> 's \<Rightarrow> 'o list \<Rightarrow> 's" where
  "run_ops st s [] = s"
| "run_ops st s (x # xs) = run_ops st (st s x) xs"

lemma run_ops_append: "run_ops st s (xs @ ys) = run_ops st (run_ops st s xs) ys"
  by (induction xs arbitrary: s) auto

locale machine =
  fixes st :: "'s \<Rightarrow> 'o \<Rightarrow> 's"
    and I :: "'s \<Rightarrow> bool"
  assumes step_inv: "I s \<Longrightarrow> I (st s x)"
begin

lemma run_inv: "I s \<Longrightarrow> I (run_ops st s xs)"
  by (induction xs arbitrary: s) (auto intro: step_inv)

lemma run_measure_mono:
  fixes f :: "'s \<Rightarrow> 'v::preorder"
  assumes "\<And>s x. I s \<Longrightarrow> f s \<le> f (st s x)" and "I s"
  shows "f s \<le> f (run_ops st s xs)"
  using assms(2)
proof (induction xs arbitrary: s)
  case (Cons x xs)
  from Cons.prems have "f s \<le> f (st s x)" by (rule assms(1))
  also have "\<dots> \<le> f (run_ops st (st s x) xs)"
    using Cons.prems by (blast intro: Cons.IH step_inv)
  finally show ?case by simp
qed simp

end

subsection \<open>Saturating 32-bit counters\<close>

definition max_u32 :: u32 where
  "max_u32 = - 1"

lemma unat_max_u32 [simp]: "unat max_u32 = 4294967295"
  by (simp add: max_u32_def unsigned_minus_1_eq_mask mask_eq_exp_minus_1)

lemma le_max_u32 [simp]: "(w :: u32) \<le> max_u32"
  by (simp add: max_u32_def)

subsection \<open>Strings\<close>

text \<open>\<^verbatim>\<open>strings.HasPrefix\<close>, \<^verbatim>\<open>strings.HasSuffix\<close>, \<^verbatim>\<open>strings.Contains\<close>.\<close>

definition has_prefix :: "string \<Rightarrow> string \<Rightarrow> bool" where
  "has_prefix s p \<longleftrightarrow> take (length p) s = p"

definition has_suffix :: "string \<Rightarrow> string \<Rightarrow> bool" where
  "has_suffix s p \<longleftrightarrow> has_prefix (rev s) (rev p)"

fun str_contains :: "string \<Rightarrow> string \<Rightarrow> bool" where
  "str_contains [] p = (p = [])"
| "str_contains (c # s) p = (has_prefix (c # s) p \<or> str_contains s p)"

lemma has_prefix_iff: "has_prefix s p \<longleftrightarrow> prefix p s"
  by (metis has_prefix_def append_eq_conv_conj append_take_drop_id prefix_def)

lemma has_suffix_iff: "has_suffix s p \<longleftrightarrow> suffix p s"
  by (simp add: has_suffix_def has_prefix_iff suffix_to_prefix)

lemma str_contains_iff: "str_contains s p \<longleftrightarrow> sublist p s"
  by (induction s) (auto simp: has_prefix_iff sublist_Cons_right)

definition contains_any :: "string \<Rightarrow> string list \<Rightarrow> bool" where
  "contains_any s ps \<longleftrightarrow> list_ex (str_contains s) ps"

lemma contains_any_iff: "contains_any s ps \<longleftrightarrow> (\<exists>p \<in> set ps. sublist p s)"
  by (simp add: contains_any_def list_ex_iff str_contains_iff)

text \<open>\<^verbatim>\<open>strings.Split\<close> at a one-byte separator.\<close>

fun split_on :: "char \<Rightarrow> string \<Rightarrow> string list" where
  "split_on d [] = [[]]"
| "split_on d (c # s) =
     (if c = d then [] # split_on d s
      else case split_on d s of [] \<Rightarrow> [[c]] | p # ps \<Rightarrow> (c # p) # ps)"

text \<open>\<^verbatim>\<open>strings.Index\<close>: the offset of the first occurrence.\<close>

fun str_index :: "string \<Rightarrow> string \<Rightarrow> nat option" where
  "str_index [] p = (if p = [] then Some 0 else None)"
| "str_index (c # s) p =
     (if has_prefix (c # s) p then Some 0 else map_option Suc (str_index s p))"

lemma str_index_Some:
  "str_index s p = Some i \<Longrightarrow> i + length p \<le> length s \<and> take (length p) (drop i s) = p
     \<and> (\<forall>j < i. take (length p) (drop j s) \<noteq> p)"
proof (induction s p arbitrary: i rule: str_index.induct)
  case (2 c s p)
  show ?case
  proof (cases "has_prefix (c # s) p")
    case True
    then have "i = 0" using "2.prems" by simp
    moreover have "length p \<le> length (c # s)"
      using True by (metis has_prefix_iff prefix_length_le)
    ultimately show ?thesis using True by (simp add: has_prefix_def)
  next
    case False
    then obtain i' where i': "str_index s p = Some i'" "i = Suc i'" using "2.prems" by auto
    note IH = "2.IH" [OF False i'(1)]
    have "take (length p) (drop j (c # s)) \<noteq> p" if "j < i" for j
      using that IH False i'(2) by (cases j) (auto simp: has_prefix_def)
    with IH i'(2) show ?thesis by auto
  qed
qed (auto split: if_splits)

lemma str_index_None: "str_index s p = None \<longleftrightarrow> (\<forall>j \<le> length s. take (length p) (drop j s) \<noteq> p)"
proof (induction s p rule: str_index.induct)
  case (2 c s p)
  have "(\<forall>j \<le> length (c # s). take (length p) (drop j (c # s)) \<noteq> p)
      \<longleftrightarrow> \<not> has_prefix (c # s) p \<and> (\<forall>j \<le> length s. take (length p) (drop j s) \<noteq> p)"
    by (auto simp: has_prefix_def )
      (metis Suc_le_mono drop_Suc_Cons le0 drop_0 not0_implies_Suc)+
  with 2 show ?case by simp
qed simp

text \<open>
  \<^verbatim>\<open>strings.ToLower\<close> as an ASCII needle sees it: ASCII letters are folded, and so are the two
  non-ASCII runes whose lower case is ASCII (U+0130 to \<open>i\<close>, U+212A to \<open>k\<close>). The other
  non-ASCII runes fold to non-ASCII bytes, here left unchanged.
\<close>

abbreviation byte :: "char \<Rightarrow> nat" where
  "byte c \<equiv> of_char c"

definition ascii_lower :: "char \<Rightarrow> char" where
  "ascii_lower c = (if 65 \<le> byte c \<and> byte c \<le> 90 then char_of (byte c + 32) else c)"

fun to_lower :: "string \<Rightarrow> string" where
  "to_lower [] = []"
| "to_lower (c # s) =
    (if byte c = 196 \<and> map byte (take 1 s) = [176] then CHR ''i'' # to_lower (drop 1 s)
     else if byte c = 226 \<and> map byte (take 2 s) = [132, 170] then CHR ''k'' # to_lower (drop 2 s)
     else ascii_lower c # to_lower s)"

text \<open>
  The width of the first rune of a non-empty byte string, as \<^verbatim>\<open>utf8.DecodeRuneInString\<close>
  counts it: an invalid encoding has width 1.
\<close>

definition in_range :: "nat \<Rightarrow> nat \<Rightarrow> nat \<Rightarrow> bool" where
  "in_range lo hi b \<longleftrightarrow> lo \<le> b \<and> b \<le> hi"

definition rune_width :: "string \<Rightarrow> nat" where
  "rune_width s = (case map byte s of
     [] \<Rightarrow> 0
   | b # bs \<Rightarrow>
      (let cont = (\<lambda>i. i < length bs \<and> in_range 128 191 (bs ! i));
           snd_in = (\<lambda>lo hi. bs \<noteq> [] \<and> in_range lo hi (bs ! 0))
       in if in_range 194 223 b \<and> cont 0 then 2
          else if b = 224 \<and> snd_in 160 191 \<and> cont 1 then 3
          else if b = 237 \<and> snd_in 128 159 \<and> cont 1 then 3
          else if in_range 225 239 b \<and> b \<noteq> 237 \<and> cont 0 \<and> cont 1 then 3
          else if b = 240 \<and> snd_in 144 191 \<and> cont 1 \<and> cont 2 then 4
          else if b = 244 \<and> snd_in 128 143 \<and> cont 1 \<and> cont 2 then 4
          else if in_range 241 243 b \<and> cont 0 \<and> cont 1 \<and> cont 2 then 4
          else 1))"

lemma rune_width_pos: "s \<noteq> [] \<Longrightarrow> 0 < rune_width s"
  by (cases s) (auto simp: rune_width_def Let_def)

text \<open>The runes of a string, each as its bytes.\<close>

function runes :: "string \<Rightarrow> string list" where
  "runes s = (if s = [] then [] else take (rune_width s) s # runes (drop (rune_width s) s))"
  by pat_completeness auto
termination
  by (relation "measure length") (auto dest: rune_width_pos intro: diff_less)

declare runes.simps [simp del]

lemma runes_Nil [simp]: "runes [] = []"
  by (simp add: runes.simps)

lemma concat_runes [simp]: "concat (runes s) = s"
proof (induction s rule: runes.induct)
  case (1 s)
  then show ?case by (cases "s = []") (simp_all add: runes.simps [of s])
qed

definition rune_count :: "string \<Rightarrow> nat" where
  "rune_count s = length (runes s)"

end
