(* ===== verification/Backoff.thy ===== *)
theory Backoff
  imports Prelude
begin

text \<open>
  internal/resilience/backoff.go: the exponential cooldown and the per-key level tracker.
  The random draw of \<^verbatim>\<open>rand.Float64()\<close> is an argument \<open>r\<close> with \<open>0 \<le> r < 1\<close>. The optional
  \<^verbatim>\<open>onIncrement\<close> callback is the flag \<open>bt_has_callback\<close>; \<open>bt_increment\<close> returns the call it
  stands for. A nil tracker does not occur in the breaker and is not modelled.
\<close>

definition auth_cooldown :: duration where "auth_cooldown = 2 * minute"
definition server_cooldown :: duration where "server_cooldown = 1 * second"
definition unknown_cooldown :: duration where "unknown_cooldown = 30 * second"
definition model_not_found_cooldown :: duration where "model_not_found_cooldown = 60 * second"
definition rate_limit_base_ms :: int where "rate_limit_base_ms = 500"
definition quota_base_ms :: int where "quota_base_ms = 60000"
definition capacity_base_ms :: int where "capacity_base_ms = 30000"
definition max_backoff_level :: int where "max_backoff_level = 15"
definition backoff_jitter_range :: rat where "backoff_jitter_range = 1 / 10"

lemmas backoff_consts = auth_cooldown_def server_cooldown_def unknown_cooldown_def
  model_not_found_cooldown_def rate_limit_base_ms_def quota_base_ms_def capacity_base_ms_def
  max_backoff_level_def backoff_jitter_range_def

subsection \<open>Exponential cooldown\<close>

definition clamp_level :: "int \<Rightarrow> int" where
  "clamp_level level =
     (let level = (if level > max_backoff_level then max_backoff_level else level)
      in if level < 0 then 0 else level)"

definition compute_exponential_backoff :: "int \<Rightarrow> int \<Rightarrow> duration" where
  "compute_exponential_backoff level base_ms =
     (let ms = base_ms * 2 ^ nat (clamp_level level);
          max_duration = (2 ^ 63 - 1) div millisecond;
          ms = (if ms \<ge> max_duration then max_duration - 1 else ms)
      in ms * millisecond)"

definition compute_exponential_backoff_with_jitter :: "rat \<Rightarrow> int \<Rightarrow> int \<Rightarrow> duration" where
  "compute_exponential_backoff_with_jitter r level base_ms =
     (let cooldown = rat_of_int (compute_exponential_backoff level base_ms);
          jitter = cooldown * (backoff_jitter_range / 2) * (2 * r - 1);
          jittered = cooldown + jitter;
          jittered = (if jittered < 0 then 0 else jittered)
      in \<lfloor>jittered\<rfloor>)"

lemma clamp_level_bounds: "0 \<le> clamp_level l" "clamp_level l \<le> max_backoff_level"
  by (auto simp: clamp_level_def Let_def max_backoff_level_def)

lemma clamp_level_id: "0 \<le> l \<Longrightarrow> l \<le> max_backoff_level \<Longrightarrow> clamp_level l = l"
  by (auto simp: clamp_level_def Let_def)

lemma clamp_level_mono: "a \<le> b \<Longrightarrow> clamp_level a \<le> clamp_level b"
  by (auto simp: clamp_level_def Let_def max_backoff_level_def)

lemma compute_exponential_backoff_nonneg:
  "0 \<le> base \<Longrightarrow> 0 \<le> compute_exponential_backoff l base"
  by (simp add: compute_exponential_backoff_def Let_def millisecond_def)

lemma compute_exponential_backoff_fits:
  "compute_exponential_backoff l base < 2 ^ 63"
  by (simp add: compute_exponential_backoff_def Let_def millisecond_def)

lemma compute_exponential_backoff_mono:
  assumes "0 \<le> base" and "a \<le> b"
  shows "compute_exponential_backoff a base \<le> compute_exponential_backoff b base"
proof -
  have "nat (clamp_level a) \<le> nat (clamp_level b)"
    using clamp_level_mono [OF assms(2)] by simp
  then have "(2::int) ^ nat (clamp_level a) \<le> 2 ^ nat (clamp_level b)" by simp
  then have "base * 2 ^ nat (clamp_level a) \<le> base * 2 ^ nat (clamp_level b)"
    using assms(1) by (rule mult_left_mono)
  then show ?thesis
    by (simp add: compute_exponential_backoff_def Let_def millisecond_def)
qed

text \<open>Below the overflow cap the cooldown is exactly the base times two to the level.\<close>

lemma compute_exponential_backoff_exact:
  assumes "0 \<le> l" "l \<le> max_backoff_level" "base \<le> 60000"
  shows "compute_exponential_backoff l base = base * 2 ^ nat l * millisecond"
proof -
  have "nat l \<le> 15" using assms(1,2) by (simp add: max_backoff_level_def)
  then have p: "(2::int) ^ nat l \<le> 2 ^ 15" by (rule power_increasing) simp
  have "base * 2 ^ nat l \<le> 60000 * 2 ^ nat l" using assms(3) by (simp add: mult_right_mono)
  also have "\<dots> \<le> 60000 * 2 ^ 15" using p by simp
  finally have "base * 2 ^ nat l < 9223372036854" by simp
  then show ?thesis
    using assms by (simp add: compute_exponential_backoff_def Let_def clamp_level_id millisecond_def)
qed

text \<open>The jittered cooldown stays within five percent of the plain one, up to truncation.\<close>

lemma jitter_nonneg: "0 \<le> compute_exponential_backoff_with_jitter r l base"
  by (simp add: compute_exponential_backoff_with_jitter_def Let_def)

lemma jitter_bounds:
  fixes l base :: int and r :: rat
  assumes "0 \<le> base" "0 \<le> r" "r < 1"
  defines "c \<equiv> compute_exponential_backoff l base"
    and "j \<equiv> compute_exponential_backoff_with_jitter r l base"
  shows "19 * c < 20 * (j + 1)" "20 * j \<le> 21 * c"
proof -
  let ?c = "rat_of_int c"
  let ?x = "?c + ?c * (1 / 20) * (2 * r - 1)"
  have c0: "0 \<le> ?c" using assms(1) by (simp add: c_def compute_exponential_backoff_nonneg)
  have lo: "?c * (19 / 20) \<le> ?x"
    using mult_nonneg_nonneg [OF c0 assms(2)] by (simp add: field_simps)
  have hi: "?x \<le> ?c * (21 / 20)"
    using mult_left_mono [OF less_imp_le [OF assms(3)] c0] by (simp add: field_simps)
  have "0 \<le> ?x" using lo c0 by linarith
  then have j: "j = \<lfloor>?x\<rfloor>"
    by (simp add: j_def c_def compute_exponential_backoff_with_jitter_def Let_def
        backoff_jitter_range_def)
  have "?x < rat_of_int j + 1" unfolding j by linarith
  with lo have "rat_of_int (19 * c) < rat_of_int (20 * (j + 1))" by simp
  then show "19 * c < 20 * (j + 1)" by (simp only: of_int_less_iff)
  have "rat_of_int j \<le> ?x" unfolding j by linarith
  with hi have "rat_of_int (20 * j) \<le> rat_of_int (21 * c)" by simp
  then show "20 * j \<le> 21 * c" by (simp only: of_int_le_iff)
qed

subsection \<open>The level tracker\<close>

record tracker =
  bt_levels :: "(string, int) gomap"
  bt_has_callback :: bool

definition new_backoff_tracker :: tracker where
  "new_backoff_tracker = \<lparr>bt_levels = [], bt_has_callback = False\<rparr>"

definition new_backoff_tracker_with_callback :: "bool \<Rightarrow> tracker" where
  "new_backoff_tracker_with_callback cb = \<lparr>bt_levels = [], bt_has_callback = cb\<rparr>"

definition get_level :: "tracker \<Rightarrow> string \<Rightarrow> int" where
  "get_level bt model = get_or 0 (bt_levels bt) model"

text \<open>The new level and, when a callback is installed, its argument pair.\<close>

definition bt_increment :: "tracker \<Rightarrow> string \<Rightarrow> tracker \<times> int \<times> (string \<times> int) option" where
  "bt_increment bt model =
     (let l = get_or 0 (bt_levels bt) model + 1;
          l = (if l > max_backoff_level then max_backoff_level else l)
      in (bt\<lparr>bt_levels := put model l (bt_levels bt)\<rparr>, l,
          if bt_has_callback bt then Some (model, l) else None))"

definition bt_reset :: "tracker \<Rightarrow> string \<Rightarrow> tracker" where
  "bt_reset bt model = bt\<lparr>bt_levels := del model (bt_levels bt)\<rparr>"

definition tracker_ok :: "tracker \<Rightarrow> bool" where
  "tracker_ok bt \<longleftrightarrow> gomap_ok (bt_levels bt)
     \<and> all_entries (\<lambda>_ l. 0 \<le> l \<and> l \<le> max_backoff_level) (bt_levels bt)"

subsection \<open>The contract the breaker relies on\<close>

locale level_tracker =
  fixes get :: "'t \<Rightarrow> 'k \<Rightarrow> int"
    and inc :: "'t \<Rightarrow> 'k \<Rightarrow> 't"
    and rst :: "'t \<Rightarrow> 'k \<Rightarrow> 't"
    and ok :: "'t \<Rightarrow> bool"
    and cap :: int
  assumes get_inc: "get (inc t k) k' = (if k' = k then min cap (get t k + 1) else get t k')"
    and get_rst: "get (rst t k) k' = (if k' = k then 0 else get t k')"
    and ok_inc: "ok t \<Longrightarrow> ok (inc t k)"
    and ok_rst: "ok t \<Longrightarrow> ok (rst t k)"
    and get_range: "ok t \<Longrightarrow> 0 \<le> get t k \<and> get t k \<le> cap"
begin

lemma get_inc_pow: "ok t \<Longrightarrow> get (((\<lambda>t. inc t k) ^^ n) t) k = min cap (get t k + int n)"
proof (induction n)
  case 0
  then show ?case using get_range [of t k] by simp
next
  case (Suc n)
  then show ?case by (auto simp: get_inc)
qed

lemma saturates: "ok t \<Longrightarrow> nat cap \<le> n \<Longrightarrow> get (((\<lambda>t. inc t k) ^^ n) t) k = cap"
  using get_range [of t k] by (auto simp: get_inc_pow)

lemma inc_mono: "ok t \<Longrightarrow> get t k' \<le> get (inc t k) k'"
  using get_range [of t k'] by (auto simp: get_inc)

end

lemma tracker_ok_new [simp]: "tracker_ok new_backoff_tracker"
  by (simp add: tracker_ok_def new_backoff_tracker_def)

lemma tracker_ok_new_cb [simp]: "tracker_ok (new_backoff_tracker_with_callback b)"
  by (simp add: tracker_ok_def new_backoff_tracker_with_callback_def)

lemma tracker_ok_level: "tracker_ok bt \<Longrightarrow> 0 \<le> get_level bt k \<and> get_level bt k \<le> max_backoff_level"
  by (auto simp: tracker_ok_def get_level_def get_or_def all_entries_def max_backoff_level_def
      split: option.split)

lemma tracker_ok_increment [simp]: "tracker_ok bt \<Longrightarrow> tracker_ok (fst (bt_increment bt k))"
  using tracker_ok_level [of bt k]
  by (auto simp: tracker_ok_def bt_increment_def Let_def get_level_def max_backoff_level_def
      intro!: all_entries_put)

lemma tracker_ok_reset [simp]: "tracker_ok bt \<Longrightarrow> tracker_ok (bt_reset bt k)"
  by (auto simp: tracker_ok_def bt_reset_def)

lemma get_level_increment:
  "get_level (fst (bt_increment bt k)) k' =
     (if k' = k then min max_backoff_level (get_level bt k + 1) else get_level bt k')"
  by (simp add: get_level_def bt_increment_def Let_def)

lemma get_level_reset: "get_level (bt_reset bt k) k' = (if k' = k then 0 else get_level bt k')"
  by (simp add: get_level_def bt_reset_def)

interpretation bt: level_tracker get_level "\<lambda>t k. fst (bt_increment t k)" bt_reset
    tracker_ok max_backoff_level
  by unfold_locales (simp_all add: get_level_increment get_level_reset tracker_ok_level)

lemma bt_increment_level: "fst (snd (bt_increment bt k)) = get_level (fst (bt_increment bt k)) k"
  by (simp add: bt_increment_def Let_def get_level_def)

end
