(* ===== verification/ErrorText.thy ===== *)
theory ErrorText
  imports Prelude
begin

text \<open>
  internal/util/errors.go: the phrase tests that classify an upstream error body. The Go
  functions compute over \<^verbatim>\<open>strings.ToLower\<close> of the body; \<open>to_lower\<close> is its model for ASCII
  needles (see \<^verbatim>\<open>Prelude\<close>), and every phrase here is ASCII.
\<close>

definition rate_limit_indicators :: "string list" where
  "rate_limit_indicators =
    [''rate limit'', ''rate_limit'', ''too many requests'', ''quota'', ''tokens per minute'',
     ''requests per minute'']"

definition model_not_found_indicators :: "string list" where
  "model_not_found_indicators =
    [''model_not_found'', ''not_found_error'', ''unknown_model'', ''unavailable_model'',
     ''model not found'', ''model does not exist'', ''model doesn't exist'',
     ''unknown model:'', ''no such model'', ''model is not available'', ''model not available'',
     ''model has been deprecated'', ''deprecated model'']"

definition quota_wording :: "string list" where
  "quota_wording = [''quota'', ''insufficient'']"

definition overload_indicators :: "string list" where
  "overload_indicators =
    [''at capacity'', ''capacity exceeded'', ''capacity is full'', ''overloaded'',
     ''overloaded_error'', ''overload_error'']"

definition context_length_patterns :: "string list" where
  "context_length_patterns =
    [''context length is only '', ''context window exceeds limit'', ''context length exceeded'',
     ''context_length_exceeded'', ''exceeded model token limit'',
     ''exceeds the available context size'', ''prompt exceeds the length limit'',
     ''exceeds the maximum number of tokens'', ''input is too long'',
     ''input length exceeds context length'', ''max_context_length'',
     ''maximum context length is '', ''maximum prompt length is '',
     ''model_context_window_exceeded'', ''prompt exceeds maximum context length'',
     ''prompt is too long'', ''prompt too long'', ''reduce the length of the messages'',
     ''this model's maximum context length'', ''tokens in request more than max tokens allowed'',
     ''too large for model with '', ''too many input tokens'', ''too many tokens'']"

definition is_context_length_error :: "int \<Rightarrow> string \<Rightarrow> bool" where
  "is_context_length_error status body =
     (if status \<noteq> 400 \<and> status \<noteq> 413 \<and> status \<noteq> 422 then False
      else let lower = to_lower body
           in if contains_any lower rate_limit_indicators then False
              else contains_any lower context_length_patterns)"

definition is_model_not_found_message :: "string \<Rightarrow> bool" where
  "is_model_not_found_message body =
     (if body = [] then False
      else let lower = to_lower body
           in if contains_any lower quota_wording then False
              else if is_context_length_error 400 lower then False
              else contains_any lower model_not_found_indicators)"

definition is_model_not_found_status :: "int \<Rightarrow> string \<Rightarrow> bool" where
  "is_model_not_found_status status body =
     (if status = 404 then True
      else if status = 400 \<or> status = 422 then is_model_not_found_message body
      else False)"

definition is_overload_message :: "string \<Rightarrow> bool" where
  "is_overload_message text' =
     (if text' = [] then False else contains_any (to_lower text') overload_indicators)"

subsection \<open>Vetoes and idempotence of the folding\<close>

lemma byte_ascii_lower: "byte (ascii_lower c) = (if 65 \<le> byte c \<and> byte c \<le> 90 then byte c + 32 else byte c)"
  by (auto simp: ascii_lower_def)

lemma ascii_lower_idem [simp]: "ascii_lower (ascii_lower c) = ascii_lower c"
  by (auto simp: ascii_lower_def)

text \<open>
  Folding does not create a lead byte in front of a continuation byte, so folding twice is
  folding once: the code folds an already folded body in \<^verbatim>\<open>IsModelNotFoundMessage\<close>.
\<close>

lemma to_lower_head:
  assumes "map byte (take 1 (to_lower s)) = [b]" and "128 \<le> b"
  shows "map byte (take 1 s) = [b] \<and> tl (to_lower s) = to_lower (tl s)"
  using assms by (cases s) (auto simp: byte_ascii_lower split: if_splits)

lemma to_lower_head2:
  assumes "map byte (take 2 (to_lower s)) = [b, d]" and "128 \<le> b" "128 \<le> d"
  shows "map byte (take 2 s) = [b, d]"
  using assms
  by (cases s; cases "tl s") (auto simp: byte_ascii_lower numeral_2_eq_2 split: if_splits)

lemma to_lower_idem [simp]: "to_lower (to_lower s) = to_lower s"
proof (induction s rule: to_lower.induct)
  case (2 c s)
  show ?case
  proof (cases "byte c = 196 \<and> map byte (take 1 s) = [176]
      \<or> byte c = 226 \<and> map byte (take 2 s) = [132, 170]")
    case True
    with "2.IH"(1,2) show ?thesis by (auto simp: ascii_lower_def)
  next
    case False
    then have "\<not> (byte c = 196 \<and> map byte (take 1 (to_lower s)) = [176])"
      and "\<not> (byte c = 226 \<and> map byte (take 2 (to_lower s)) = [132, 170])"
      using to_lower_head [of s 176] to_lower_head2 [of s 132 170] by auto
    with False "2.IH"(3) show ?thesis by (auto simp: byte_ascii_lower)
  qed
qed simp

lemma context_length_vetoed:
  "contains_any (to_lower body) rate_limit_indicators \<Longrightarrow> \<not> is_context_length_error status body"
  by (simp add: is_context_length_error_def Let_def)

lemma model_not_found_vetoed:
  "contains_any (to_lower body) quota_wording \<Longrightarrow> \<not> is_model_not_found_message body"
  by (simp add: is_model_not_found_message_def Let_def)

text \<open>The two body classes never overlap: a context-length body is not a missing model.\<close>

lemma context_length_not_model_not_found:
  "is_context_length_error status body \<Longrightarrow> \<not> is_model_not_found_message body"
  by (auto simp: is_context_length_error_def is_model_not_found_message_def Let_def split: if_splits)

lemma model_not_found_status_range:
  "is_model_not_found_status status body \<Longrightarrow> status \<in> {400, 404, 422}"
  by (auto simp: is_model_not_found_status_def split: if_splits)

lemma context_length_status_range:
  "is_context_length_error status body \<Longrightarrow> status \<in> {400, 413, 422}"
  by (auto simp: is_context_length_error_def split: if_splits)

end
