(* ===== verification/Classifier.thy ===== *)
theory Classifier
  imports Backoff ErrorText
begin

text \<open>
  internal/resilience/classifier.go: the error class, cooldown, model lock and backoff
  decision for an upstream failure. The random draw that the jitter takes is the first
  argument. \<open>NoClass\<close> is the zero value of the Go string type \<^verbatim>\<open>ErrorClass\<close>.
\<close>

datatype error_class = NoClass | Auth | Rate | Quota | Capacity | Server | ContextLimit
  | ModelNotFound | UnknownClass

record cooldown_decision =
  class_of :: error_class
  should_lock :: bool
  dec_cooldown :: duration
  increment_backoff :: bool

definition classify_http_error :: "rat \<Rightarrow> int \<Rightarrow> string \<Rightarrow> int \<Rightarrow> cooldown_decision" where
  "classify_http_error r status body backoff_level =
     (let lower = to_lower body in
      if is_model_not_found_status status body then
        \<lparr>class_of = ModelNotFound, should_lock = True,
         dec_cooldown = model_not_found_cooldown, increment_backoff = False\<rparr>
      else if status = 401 \<or> status = 403 then
        \<lparr>class_of = Auth, should_lock = True,
         dec_cooldown = auth_cooldown, increment_backoff = False\<rparr>
      else if status = 429 then
        \<lparr>class_of = Rate, should_lock = True,
         dec_cooldown = compute_exponential_backoff_with_jitter r backoff_level rate_limit_base_ms,
         increment_backoff = True\<rparr>
      else if status = 400 \<or> status = 402 then
        (if str_contains lower ''quota'' \<or> str_contains lower ''insufficient'' then
           \<lparr>class_of = Quota, should_lock = True,
            dec_cooldown = compute_exponential_backoff_with_jitter r backoff_level quota_base_ms,
            increment_backoff = True\<rparr>
         else if is_context_length_error status body then
           \<lparr>class_of = ContextLimit, should_lock = False, dec_cooldown = 0,
            increment_backoff = False\<rparr>
         else
           \<lparr>class_of = UnknownClass, should_lock = False, dec_cooldown = 5 * second,
            increment_backoff = False\<rparr>)
      else if status = 413 \<or> status = 422 then
        (if is_context_length_error status body then
           \<lparr>class_of = ContextLimit, should_lock = False, dec_cooldown = 0,
            increment_backoff = False\<rparr>
         else
           \<lparr>class_of = UnknownClass, should_lock = False, dec_cooldown = 5 * second,
            increment_backoff = False\<rparr>)
      else if status \<ge> 500 then
        (if is_overload_message lower then
           \<lparr>class_of = Capacity, should_lock = True,
            dec_cooldown = compute_exponential_backoff_with_jitter r backoff_level capacity_base_ms,
            increment_backoff = True\<rparr>
         else
           \<lparr>class_of = Server, should_lock = True, dec_cooldown = server_cooldown,
            increment_backoff = False\<rparr>)
      else
        \<lparr>class_of = UnknownClass, should_lock = True, dec_cooldown = unknown_cooldown,
         increment_backoff = False\<rparr>)"

text \<open>The classes that back off exponentially.\<close>

definition backoff_class :: "error_class \<Rightarrow> bool" where
  "backoff_class c \<longleftrightarrow> c = Rate \<or> c = Quota \<or> c = Capacity"

lemma quota_str_iff:
  "str_contains s ''quota'' \<or> str_contains s ''insufficient'' \<longleftrightarrow> contains_any s quota_wording"
  by (simp add: contains_any_def quota_wording_def)

lemma classify_not_empty: "class_of (classify_http_error r st body l) \<noteq> NoClass"
  by (simp add: classify_http_error_def Let_def)

lemma classify_increment_iff:
  "increment_backoff (classify_http_error r st body l)
     \<longleftrightarrow> backoff_class (class_of (classify_http_error r st body l))"
  by (simp add: classify_http_error_def Let_def backoff_class_def)

lemma classify_increment_locks:
  "increment_backoff (classify_http_error r st body l) \<Longrightarrow> should_lock (classify_http_error r st body l)"
  by (auto simp: classify_http_error_def Let_def split: if_splits)

lemma classify_cooldown_nonneg: "0 \<le> dec_cooldown (classify_http_error r st body l)"
  by (simp add: classify_http_error_def Let_def jitter_nonneg backoff_consts unit_defs)

lemma classify_client_error_never_locks:
  assumes "st \<in> {400, 402, 413, 422}"
    and "\<not> should_lock (classify_http_error r st body l)"
  shows "class_of (classify_http_error r st body l) \<in> {ContextLimit, UnknownClass}"
  using assms by (auto simp: classify_http_error_def Let_def split: if_splits)

lemma classify_context_limit_iff:
  "class_of (classify_http_error r st body l) = ContextLimit \<longleftrightarrow>
     is_context_length_error st body
       \<and> \<not> (st = 400 \<and> contains_any (to_lower body) quota_wording)"
  using context_length_not_model_not_found [of st body] context_length_status_range [of st body]
  by (auto simp: classify_http_error_def Let_def is_model_not_found_status_def
      quota_str_iff [symmetric] split: if_splits)

text \<open>The class is a function of the status and the body alone: neither level nor draw matter.\<close>

lemma classify_class_indep:
  "class_of (classify_http_error r st body l) = class_of (classify_http_error r' st body l')"
  by (simp add: classify_http_error_def Let_def)

end
