(* ===== verification/CircuitBreaker.thy ===== *)
theory CircuitBreaker
  imports Classifier
begin

text \<open>
  internal/resilience/circuitbreaker.go: the registry of per-key circuits with its three-state
  machine, the model locks, and the eviction that bounds it. Every exported method runs under
  one mutex, so each is one atomic operation of the model.

  An operation that reads the clock gets its readings as a \<open>clock\<close>: \<open>t_get\<close> is the reading of
  \<^verbatim>\<open>getOrCreate\<close>, \<open>t_now\<close> that of the method itself, \<open>t_set\<close> that of \<^verbatim>\<open>setState\<close>. The installed
  callbacks are flags; the calls they receive are appended to \<open>events\<close>. The classifier is a
  field of the struct and a field of the record; \<^verbatim>\<open>NewCircuitBreaker\<close> installs
  \<open>classify_http_error\<close>.
\<close>

subsection \<open>State\<close>

datatype cstate = Closed | Open | HalfOpen

fun state_string :: "cstate \<Rightarrow> string" where
  "state_string Closed = ''closed''"
| "state_string Open = ''open''"
| "state_string HalfOpen = ''half_open''"

record counts =
  requests :: u32
  total_successes :: u32
  total_failures :: u32
  consecutive_successes :: u32
  consecutive_failures :: u32

definition zero_counts :: counts where
  "zero_counts = \<lparr>requests = 0, total_successes = 0, total_failures = 0,
     consecutive_successes = 0, consecutive_failures = 0\<rparr>"

record circuit =
  c_state :: cstate
  generation :: u64
  c_counts :: counts
  expiry :: time
  half_open_inflight :: u32
  last_change :: time
  last_used :: time
  last_error_class :: error_class
  last_error_body :: string
  last_error_status :: int

datatype cb_event = StateChange string cstate cstate | StateMetric string string string
  | BackoffIncrement string int

record breaker =
  circuits :: "(string, circuit) gomap"
  failure_threshold :: u32
  success_threshold :: u32
  threshold_lookup :: "(string \<Rightarrow> int \<times> int) option"
  half_open_max_requests :: u32
  cooldown :: duration
  has_on_state_change :: bool
  has_on_state_change_metric :: bool
  model_locks :: "(string, time) gomap"
  backoff :: tracker
  classifier :: "rat \<Rightarrow> int \<Rightarrow> string \<Rightarrow> int \<Rightarrow> cooldown_decision"
  min_quota_cooldown :: duration
  max_circuits :: int
  idle_ttl :: duration
  evictions :: u64
  events :: "cb_event list"

record clock =
  t_get :: time
  t_now :: time
  t_set :: time

subsection \<open>Counters and thresholds\<close>

definition inc_u32 :: "u32 \<Rightarrow> u32" where
  "inc_u32 v = (if v = max_u32 then v else v + 1)"

definition clamp_threshold :: "int \<Rightarrow> u32" where
  "clamp_threshold v = (if v \<ge> 2 ^ 32 - 1 then max_u32 else word_of_int v)"

definition thresholds_for :: "breaker \<Rightarrow> string \<Rightarrow> u32 \<times> u32" where
  "thresholds_for cb key = (case threshold_lookup cb of
     Some fn \<Rightarrow>
       (let (f, s) = fn key in
        (if f > 0 then clamp_threshold f else failure_threshold cb,
         if s > 0 then clamp_threshold s else success_threshold cb))
   | None \<Rightarrow> (failure_threshold cb, success_threshold cb))"

definition default_max_circuits :: int where "default_max_circuits = 1024"
definition default_circuit_idle_ttl :: duration where "default_circuit_idle_ttl = 10 * minute"

text \<open>\<^verbatim>\<open>uint32(failureThreshold)\<close> truncates to 32 bits.\<close>

definition new_circuit_breaker :: "int \<Rightarrow> int \<Rightarrow> u32 \<Rightarrow> duration \<Rightarrow> bool \<Rightarrow> breaker" where
  "new_circuit_breaker ft st hom cd on_change =
     (let ft = (if ft \<le> 0 then 5 else ft);
          st = (if st \<le> 0 then 1 else st);
          hom = (if hom = 0 then 3 else hom);
          cd = (if cd \<le> 0 then 60 * second else cd)
      in \<lparr>circuits = [], failure_threshold = word_of_int ft, success_threshold = word_of_int st,
          threshold_lookup = None, half_open_max_requests = hom, cooldown = cd,
          has_on_state_change = on_change, has_on_state_change_metric = False,
          model_locks = [], backoff = new_backoff_tracker, classifier = classify_http_error,
          min_quota_cooldown = 0, max_circuits = default_max_circuits,
          idle_ttl = default_circuit_idle_ttl, evictions = 0, events = []\<rparr>)"

definition set_threshold_lookup :: "(string \<Rightarrow> int \<times> int) option \<Rightarrow> breaker \<Rightarrow> breaker" where
  "set_threshold_lookup fn cb = cb\<lparr>threshold_lookup := fn\<rparr>"

definition set_registry_limits :: "int \<Rightarrow> duration \<Rightarrow> breaker \<Rightarrow> breaker" where
  "set_registry_limits mx ttl cb =
     (let cb = (if mx > 0 then cb\<lparr>max_circuits := mx\<rparr> else cb)
      in if ttl > 0 then cb\<lparr>idle_ttl := ttl\<rparr> else cb)"

definition registry_stats :: "breaker \<Rightarrow> int \<times> u64" where
  "registry_stats cb = (int (length (circuits cb)), evictions cb)"

definition set_min_quota_cooldown :: "duration \<Rightarrow> breaker \<Rightarrow> breaker" where
  "set_min_quota_cooldown d cb = cb\<lparr>min_quota_cooldown := (if d < 0 then 0 else d)\<rparr>"

definition set_backoff_increment_callback :: "bool \<Rightarrow> breaker \<Rightarrow> breaker" where
  "set_backoff_increment_callback fn cb = cb\<lparr>backoff := new_backoff_tracker_with_callback fn\<rparr>"

definition set_state_change_metric_callback :: "bool \<Rightarrow> breaker \<Rightarrow> breaker" where
  "set_state_change_metric_callback fn cb = cb\<lparr>has_on_state_change_metric := fn\<rparr>"

subsection \<open>Eviction\<close>

definition prune_expired_locks :: "time \<Rightarrow> breaker \<Rightarrow> breaker" where
  "prune_expired_locks now cb =
     cb\<lparr>model_locks := filter (\<lambda>(key, until). \<not> now > until) (model_locks cb)\<rparr>"

text \<open>
  The first pass walks the circuits in iteration order. It deletes the Closed circuits idle
  beyond the TTL and remembers the least recently used of the other Closed ones; as in the
  code, the empty key stands for "none yet".
\<close>

fun evict_pass1 ::
  "time \<Rightarrow> (string \<times> circuit) list \<Rightarrow> string \<Rightarrow> time \<Rightarrow> breaker \<Rightarrow> string \<times> breaker" where
  "evict_pass1 now [] oldest_key oldest_use cb = (oldest_key, cb)"
| "evict_pass1 now ((key, c) # es) oldest_key oldest_use cb =
     (if c_state c \<noteq> Closed \<or> half_open_inflight c \<noteq> 0 then
        evict_pass1 now es oldest_key oldest_use cb
      else if now - last_used c > idle_ttl cb then
        evict_pass1 now es oldest_key oldest_use
          (cb\<lparr>circuits := del key (circuits cb), evictions := evictions cb + 1,
              backoff := bt_reset (backoff cb) key, model_locks := del key (model_locks cb)\<rparr>)
      else if oldest_key = [] \<or> last_used c < oldest_use then
        evict_pass1 now es key (last_used c) cb
      else evict_pass1 now es oldest_key oldest_use cb)"

definition evict_for_capacity :: "time \<Rightarrow> breaker \<Rightarrow> breaker" where
  "evict_for_capacity now cb =
     (if int (length (circuits cb)) < max_circuits cb then cb
      else
        let cb = prune_expired_locks now cb;
            (oldest_key, cb) = evict_pass1 now (circuits cb) [] zero_time cb
        in if int (length (circuits cb)) < max_circuits cb then cb
           else if oldest_key \<noteq> [] then
             cb\<lparr>circuits := del oldest_key (circuits cb), evictions := evictions cb + 1,
                backoff := bt_reset (backoff cb) oldest_key\<rparr>
           else cb)"

definition new_circuit :: "time \<Rightarrow> circuit" where
  "new_circuit now = \<lparr>c_state = Closed, generation = 1, c_counts = zero_counts,
     expiry = zero_time, half_open_inflight = 0, last_change = zero_time, last_used = now,
     last_error_class = NoClass, last_error_body = [], last_error_status = 0\<rparr>"

text \<open>The circuit returned is the one the registry holds under the key.\<close>

definition get_or_create :: "time \<Rightarrow> string \<Rightarrow> breaker \<Rightarrow> circuit \<times> breaker" where
  "get_or_create now key cb =
     (let cb = evict_for_capacity now cb;
          c = (case map_of (circuits cb) key of
                 None \<Rightarrow> new_circuit now
               | Some c \<Rightarrow> c\<lparr>last_used := now\<rparr>)
      in (c, cb\<lparr>circuits := put key c (circuits cb)\<rparr>))"

subsection \<open>Transitions\<close>

definition set_state :: "time \<Rightarrow> string \<Rightarrow> cstate \<Rightarrow> circuit \<Rightarrow> breaker \<Rightarrow> circuit \<times> breaker" where
  "set_state now key new_state c cb =
     (if c_state c = new_state then (c, cb)
      else
        (c\<lparr>c_state := new_state, generation := generation c + 1, c_counts := zero_counts,
           half_open_inflight := 0, last_change := now,
           expiry := (case new_state of
              Closed \<Rightarrow> zero_time | Open \<Rightarrow> now + cooldown cb | HalfOpen \<Rightarrow> zero_time)\<rparr>,
         cb\<lparr>events := events cb
            @ (if has_on_state_change cb then [StateChange key (c_state c) new_state] else [])
            @ (if has_on_state_change_metric cb
               then [StateMetric key (state_string (c_state c)) (state_string new_state)]
               else [])\<rparr>))"

definition store :: "string \<Rightarrow> circuit \<Rightarrow> breaker \<Rightarrow> breaker" where
  "store key c cb = cb\<lparr>circuits := put key c (circuits cb)\<rparr>"

definition count_request :: "circuit \<Rightarrow> circuit" where
  "count_request c = c\<lparr>c_counts := (c_counts c)\<lparr>requests := inc_u32 (requests (c_counts c))\<rparr>\<rparr>"

definition count_inflight :: "circuit \<Rightarrow> circuit" where
  "count_inflight c = c\<lparr>half_open_inflight := inc_u32 (half_open_inflight c)\<rparr>"

definition release_inflight :: "circuit \<Rightarrow> circuit" where
  "release_inflight c = (if half_open_inflight c > 0
     then c\<lparr>half_open_inflight := half_open_inflight c - 1\<rparr> else c)"

definition count_failure :: "circuit \<Rightarrow> circuit" where
  "count_failure c =
     (let k = c_counts c in
      c\<lparr>c_counts := k\<lparr>requests := inc_u32 (requests k), total_failures := inc_u32 (total_failures k),
         consecutive_failures := inc_u32 (consecutive_failures k), consecutive_successes := 0\<rparr>\<rparr>)"

definition count_success :: "circuit \<Rightarrow> circuit" where
  "count_success c =
     (let k = c_counts c in
      c\<lparr>c_counts := k\<lparr>requests := inc_u32 (requests k), total_successes := inc_u32 (total_successes k),
         consecutive_successes := inc_u32 (consecutive_successes k), consecutive_failures := 0\<rparr>\<rparr>)"

definition allow :: "clock \<Rightarrow> string \<Rightarrow> breaker \<Rightarrow> bool \<times> breaker" where
  "allow t key cb =
     (let (c, cb) = get_or_create (t_get t) key cb; now = t_now t in
      case c_state c of
        Closed \<Rightarrow> (True, store key ((count_request c)\<lparr>last_change := now\<rparr>) cb)
      | Open \<Rightarrow>
          (if now > expiry c then
             (let (c, cb) = set_state (t_set t) key HalfOpen c cb
              in (True, store key ((count_inflight (count_request c))\<lparr>last_change := now\<rparr>) cb))
           else (False, cb))
      | HalfOpen \<Rightarrow>
          (if half_open_inflight c \<ge> half_open_max_requests cb then (False, cb)
           else (True, store key ((count_inflight (count_request c))\<lparr>last_change := now\<rparr>) cb)))"

definition record_failure :: "clock \<Rightarrow> string \<Rightarrow> duration list \<Rightarrow> breaker \<Rightarrow> breaker" where
  "record_failure t key cooldown_override cb =
     (let (c, cb) = get_or_create (t_get t) key cb; now = t_now t;
          cd = (case cooldown_override of
                  d # _ \<Rightarrow> if d > 0 then d else cooldown cb | [] \<Rightarrow> cooldown cb)
      in case c_state c of
        Closed \<Rightarrow>
          (let c = (count_failure c)\<lparr>last_change := now\<rparr> in
           if consecutive_failures (c_counts c) \<ge> fst (thresholds_for cb key) then
             (let (c, cb) = set_state (t_set t) key Open c cb
              in store key (c\<lparr>expiry := now + cd\<rparr>) cb)
           else store key c cb)
      | HalfOpen \<Rightarrow>
          (let (c, cb) = set_state (t_set t) key Open c cb
           in store key (c\<lparr>expiry := now + cd, last_change := now\<rparr>) cb)
      | Open \<Rightarrow>
          (if now + cd > expiry c then store key (c\<lparr>expiry := now + cd\<rparr>) cb else cb))"

definition record_opaque_failure :: "clock \<Rightarrow> string \<Rightarrow> breaker \<Rightarrow> breaker" where
  "record_opaque_failure t key cb =
     (if key = [] then cb
      else let (c, cb) = get_or_create (t_get t) key cb in
        if c_state c = HalfOpen then store key (release_inflight c) cb
        else if c_state c \<noteq> Closed then cb
        else store key ((count_request c)\<lparr>last_change := t_now t\<rparr>) cb)"

subsection \<open>Failures with a status: classification and model locks\<close>

definition apply_quota_floor :: "breaker \<Rightarrow> cooldown_decision \<Rightarrow> duration" where
  "apply_quota_floor cb d =
     (if class_of d \<noteq> Quota \<or> min_quota_cooldown cb \<le> 0 \<or> dec_cooldown d \<ge> min_quota_cooldown cb
      then dec_cooldown d else min_quota_cooldown cb)"

definition apply_model_lock :: "string \<Rightarrow> cooldown_decision \<Rightarrow> time \<Rightarrow> breaker \<Rightarrow> breaker" where
  "apply_model_lock key d now cb =
     (if \<not> should_lock d then cb
      else
        let until = now + dec_cooldown d;
            cb = (if until > get_or zero_time (model_locks cb) key
                  then cb\<lparr>model_locks := put key until (model_locks cb)\<rparr> else cb)
        in if increment_backoff d then
             (let (bt, _, callback) = bt_increment (backoff cb) key in
              cb\<lparr>backoff := bt, events := events cb @
                  (case callback of Some (k, l) \<Rightarrow> [BackoffIncrement k l] | None \<Rightarrow> [])\<rparr>)
           else cb)"

text \<open>At most \<open>n\<close> runes, with \<open>...\<close> appended when something was cut.\<close>

definition truncate_runes :: "string \<Rightarrow> nat \<Rightarrow> string" where
  "truncate_runes s n =
     (if rune_count s \<le> n then s else concat (take n (runes s)) @ ''...'')"

definition record_failure_with_status ::
  "clock \<Rightarrow> rat \<Rightarrow> string \<Rightarrow> int \<Rightarrow> string \<Rightarrow> breaker \<Rightarrow> cooldown_decision \<times> breaker" where
  "record_failure_with_status t r key status body cb =
     (let (c, cb) = get_or_create (t_get t) key cb; now = t_now t;
          d = classifier cb r status body (get_level (backoff cb) key);
          d = d\<lparr>dec_cooldown := apply_quota_floor cb d\<rparr>;
          cb = apply_model_lock key d now cb;
          c = c\<lparr>last_error_class := class_of d, last_error_body := truncate_runes body 200,
                last_error_status := status\<rparr>
      in (d, case c_state c of
        Closed \<Rightarrow>
          (let c = (count_failure c)\<lparr>last_change := now\<rparr> in
           if consecutive_failures (c_counts c) \<ge> fst (thresholds_for cb key) then
             (let (c, cb) = set_state (t_set t) key Open c cb in store key c cb)
           else store key c cb)
      | HalfOpen \<Rightarrow> (let (c, cb) = set_state (t_set t) key Open c cb in store key c cb)
      | Open \<Rightarrow>
          store key (if now + dec_cooldown d > expiry c
                     then c\<lparr>expiry := now + dec_cooldown d\<rparr> else c) cb))"

subsection \<open>Successes\<close>

text \<open>
  \<^verbatim>\<open>RecordSuccess\<close> and \<^verbatim>\<open>RecordSuccessWithModel\<close> have the same body but for the key whose lock
  and backoff are cleared; \<open>lock_key\<close> is that key.
\<close>

definition record_success_clearing :: "clock \<Rightarrow> string \<Rightarrow> string \<Rightarrow> breaker \<Rightarrow> breaker" where
  "record_success_clearing t key lock_key cb =
     (let (c, cb) = get_or_create (t_get t) key cb; now = t_now t in
      case c_state c of
        Closed \<Rightarrow> store key ((count_success c)\<lparr>last_change := now\<rparr>) cb
      | HalfOpen \<Rightarrow>
          (let c = release_inflight (count_success c) in
           if consecutive_successes (c_counts c) \<ge> snd (thresholds_for cb key) then
             (let (c, cb) = set_state (t_set t) key Closed c cb in
              store key c (cb\<lparr>backoff := bt_reset (backoff cb) lock_key,
                              model_locks := del lock_key (model_locks cb)\<rparr>))
           else store key (c\<lparr>last_change := now\<rparr>) cb)
      | Open \<Rightarrow> cb)"

definition record_success :: "clock \<Rightarrow> string \<Rightarrow> breaker \<Rightarrow> breaker" where
  "record_success t key cb = record_success_clearing t key key cb"

definition record_success_with_model :: "clock \<Rightarrow> string \<Rightarrow> string \<Rightarrow> breaker \<Rightarrow> breaker" where
  "record_success_with_model t key model cb = record_success_clearing t key model cb"

definition release_half_open :: "string \<Rightarrow> breaker \<Rightarrow> breaker" where
  "release_half_open key cb = (case map_of (circuits cb) key of
     None \<Rightarrow> cb
   | Some c \<Rightarrow>
       (if c_state c \<noteq> HalfOpen \<or> half_open_inflight c = 0 then cb
        else store key (c\<lparr>half_open_inflight := half_open_inflight c - 1\<rparr>) cb))"

subsection \<open>Manual opening, queries\<close>

definition force_open :: "clock \<Rightarrow> string \<Rightarrow> duration \<Rightarrow> breaker \<Rightarrow> breaker" where
  "force_open t key cd cb =
     (if key = [] \<or> cd \<le> 0 then cb
      else
        let (c, cb) = get_or_create (t_get t) key cb; now = t_now t;
            prev_expiry = expiry c;
            (c, cb) = set_state (t_set t) key Open c cb;
            new_expiry = now + cd
        in if now < prev_expiry \<and> prev_expiry > new_expiry then store key c cb
           else store key (c\<lparr>expiry := new_expiry\<rparr>) cb)"

definition peek :: "clock \<Rightarrow> string \<Rightarrow> breaker \<Rightarrow> bool \<times> breaker" where
  "peek t key cb =
     (let (c, cb) = get_or_create (t_get t) key cb in
      (case c_state c of
         Closed \<Rightarrow> True
       | Open \<Rightarrow> t_now t > expiry c
       | HalfOpen \<Rightarrow> half_open_inflight c < half_open_max_requests cb, cb))"

definition effective_state :: "time \<Rightarrow> circuit \<Rightarrow> cstate" where
  "effective_state now c = (if c_state c = Open \<and> now > expiry c then HalfOpen else c_state c)"

definition state_of :: "time \<Rightarrow> string \<Rightarrow> breaker \<Rightarrow> cstate" where
  "state_of now key cb = (case map_of (circuits cb) key of
     None \<Rightarrow> Closed | Some c \<Rightarrow> effective_state now c)"

definition active_count :: "time \<Rightarrow> breaker \<Rightarrow> nat" where
  "active_count now cb =
     length (filter (\<lambda>(key, c). c_state c = Open \<and> now < expiry c) (circuits cb))"

definition snapshot :: "time \<Rightarrow> breaker \<Rightarrow> (string, string) gomap" where
  "snapshot now cb = map (\<lambda>(key, c). (key, state_string (effective_state now c))) (circuits cb)"

definition is_model_locked :: "time \<Rightarrow> string \<Rightarrow> breaker \<Rightarrow> bool" where
  "is_model_locked now model cb = (case map_of (model_locks cb) model of
     None \<Rightarrow> False | Some until \<Rightarrow> now < until)"

definition get_model_lock_until :: "string \<Rightarrow> breaker \<Rightarrow> time" where
  "get_model_lock_until model cb = get_or zero_time (model_locks cb) model"

definition unlock_model :: "string \<Rightarrow> breaker \<Rightarrow> breaker" where
  "unlock_model model cb =
     (if model = [] then cb
      else cb\<lparr>model_locks := del model (model_locks cb), backoff := bt_reset (backoff cb) model\<rparr>)"

definition get_backoff_level :: "string \<Rightarrow> breaker \<Rightarrow> int" where
  "get_backoff_level model cb = get_level (backoff cb) model"

text \<open>
  \<^verbatim>\<open>SnapshotDetailed\<close> builds JSON maps; the model keeps their values, with the instants before
  their RFC3339 formatting (\<open>None\<close> for the empty string of a zero expiry).
\<close>

record circuit_detail =
  cd_state :: string
  cd_failure_count :: u32
  cd_success_count :: u32
  cd_expiry :: "time option"
  cd_last_error :: string
  cd_last_error_status :: int

record breaker_detail =
  bd_circuits :: "(string, circuit_detail) gomap"
  bd_model_locks :: "(string, time) gomap"
  bd_backoff_levels :: "(string, int) gomap"
  bd_registry_size :: nat
  bd_registry_evictions :: u64

definition circuit_detail_of :: "time \<Rightarrow> circuit \<Rightarrow> circuit_detail" where
  "circuit_detail_of now c =
     \<lparr>cd_state = state_string (effective_state now c),
      cd_failure_count = consecutive_failures (c_counts c),
      cd_success_count = consecutive_successes (c_counts c),
      cd_expiry = (if expiry c = zero_time then None else Some (expiry c)),
      cd_last_error = last_error_body c, cd_last_error_status = last_error_status c\<rparr>"

definition snapshot_detailed :: "time \<Rightarrow> breaker \<Rightarrow> breaker_detail" where
  "snapshot_detailed now cb =
     \<lparr>bd_circuits = map (\<lambda>(key, c). (key, circuit_detail_of now c)) (circuits cb),
      bd_model_locks = filter (\<lambda>(model, until). now < until) (model_locks cb),
      bd_backoff_levels = bt_levels (backoff cb),
      bd_registry_size = length (circuits cb), bd_registry_evictions = evictions cb\<rparr>"

subsection \<open>The operations as steps\<close>

text \<open>
  One constructor per mutating method; \<open>OpOrder\<close> is the runtime choosing another iteration
  order for the circuit map, so that a run covers every order at every step.
\<close>

datatype cb_op = OpAllow clock string
  | OpFailure clock string "duration list"
  | OpOpaque clock string
  | OpFailureStatus clock rat string int string
  | OpSuccess clock string
  | OpSuccessModel clock string string
  | OpRelease string
  | OpForce clock string duration
  | OpPeek clock string
  | OpUnlock string
  | OpLimits int duration
  | OpQuotaFloor duration
  | OpOrder "(string \<times> circuit) list"

fun cb_step :: "breaker \<Rightarrow> cb_op \<Rightarrow> breaker" where
  "cb_step cb (OpAllow t key) = snd (allow t key cb)"
| "cb_step cb (OpFailure t key ov) = record_failure t key ov cb"
| "cb_step cb (OpOpaque t key) = record_opaque_failure t key cb"
| "cb_step cb (OpFailureStatus t r key status body) =
     snd (record_failure_with_status t r key status body cb)"
| "cb_step cb (OpSuccess t key) = record_success t key cb"
| "cb_step cb (OpSuccessModel t key model) = record_success_with_model t key model cb"
| "cb_step cb (OpRelease key) = release_half_open key cb"
| "cb_step cb (OpForce t key cd) = force_open t key cd cb"
| "cb_step cb (OpPeek t key) = snd (peek t key cb)"
| "cb_step cb (OpUnlock model) = unlock_model model cb"
| "cb_step cb (OpLimits mx ttl) = set_registry_limits mx ttl cb"
| "cb_step cb (OpQuotaFloor d) = set_min_quota_cooldown d cb"
| "cb_step cb (OpOrder m) = (if mset m = mset (circuits cb) then cb\<lparr>circuits := m\<rparr> else cb)"

end
