(* ===== verification/Breaker_Invariant.thy ===== *)
theory Breaker_Invariant
  imports CircuitBreaker
begin

text \<open>
  The invariant of the circuit registry and its preservation by every operation; what
  eviction keeps; the log of state-change callbacks as a faithful record of each circuit.
\<close>

subsection \<open>The invariant\<close>

definition circuit_ok :: "breaker \<Rightarrow> string \<Rightarrow> circuit \<Rightarrow> bool" where
  "circuit_ok cb key c = (case c_state c of
     Closed \<Rightarrow> half_open_inflight c = 0 \<and> expiry c = zero_time
       \<and> consecutive_failures (c_counts c) < fst (thresholds_for cb key)
   | Open \<Rightarrow> half_open_inflight c = 0
   | HalfOpen \<Rightarrow> half_open_inflight c \<le> half_open_max_requests cb
       \<and> consecutive_successes (c_counts c) < snd (thresholds_for cb key))"

definition params_ok :: "breaker \<Rightarrow> bool" where
  "params_ok cb \<longleftrightarrow> 0 < failure_threshold cb \<and> 0 < success_threshold cb
     \<and> 0 < half_open_max_requests cb \<and> 0 < cooldown cb \<and> 0 < max_circuits cb
     \<and> 0 < idle_ttl cb \<and> 0 \<le> min_quota_cooldown cb"

definition breaker_ok :: "breaker \<Rightarrow> bool" where
  "breaker_ok cb \<longleftrightarrow> params_ok cb \<and> gomap_ok (circuits cb) \<and> gomap_ok (model_locks cb)
     \<and> all_entries (circuit_ok cb) (circuits cb) \<and> tracker_ok (backoff cb)"

text \<open>The state of a key as a caller sees it without the clock: absent means Closed.\<close>

definition cur_state :: "string \<Rightarrow> breaker \<Rightarrow> cstate" where
  "cur_state key cb = (case map_of (circuits cb) key of None \<Rightarrow> Closed | Some c \<Rightarrow> c_state c)"

text \<open>
  Replaying the state-change callbacks for one key: each must start in the state where the
  one before ended, and be one of the four transitions of the machine.
\<close>

fun legal_transition :: "cstate \<Rightarrow> cstate \<Rightarrow> bool" where
  "legal_transition Closed Open = True"
| "legal_transition Open HalfOpen = True"
| "legal_transition HalfOpen Open = True"
| "legal_transition HalfOpen Closed = True"
| "legal_transition _ _ = False"

fun replay :: "string \<Rightarrow> cstate \<Rightarrow> cb_event list \<Rightarrow> cstate option" where
  "replay key s [] = Some s"
| "replay key s (StateChange k f g # es) =
     (if k \<noteq> key then replay key s es
      else if f = s \<and> legal_transition f g then replay key g es
      else None)"
| "replay key s (_ # es) = replay key s es"

definition log_ok :: "breaker \<Rightarrow> bool" where
  "log_ok cb \<longleftrightarrow> has_on_state_change cb \<longrightarrow>
     (\<forall>key. replay key Closed (events cb) = Some (cur_state key cb))"

lemma replay_append:
  "replay key s (es @ fs) = (case replay key s es of None \<Rightarrow> None | Some s' \<Rightarrow> replay key s' fs)"
  by (induction key s es rule: replay.induct) auto

subsection \<open>Fields an operation does not touch\<close>

lemma thresholds_for_frame [simp]:
  "thresholds_for (cb\<lparr>circuits := m\<rparr>) = thresholds_for cb"
  "thresholds_for (cb\<lparr>evictions := n\<rparr>) = thresholds_for cb"
  "thresholds_for (cb\<lparr>backoff := b\<rparr>) = thresholds_for cb"
  "thresholds_for (cb\<lparr>model_locks := l\<rparr>) = thresholds_for cb"
  "thresholds_for (cb\<lparr>events := e\<rparr>) = thresholds_for cb"
  "thresholds_for (cb\<lparr>max_circuits := i\<rparr>) = thresholds_for cb"
  "thresholds_for (cb\<lparr>idle_ttl := d\<rparr>) = thresholds_for cb"
  "thresholds_for (cb\<lparr>min_quota_cooldown := d\<rparr>) = thresholds_for cb"
  by (simp_all add: fun_eq_iff thresholds_for_def split: option.split prod.split)

lemma circuit_ok_frame [simp]:
  "circuit_ok (cb\<lparr>circuits := m\<rparr>) = circuit_ok cb"
  "circuit_ok (cb\<lparr>evictions := n\<rparr>) = circuit_ok cb"
  "circuit_ok (cb\<lparr>backoff := b\<rparr>) = circuit_ok cb"
  "circuit_ok (cb\<lparr>model_locks := l\<rparr>) = circuit_ok cb"
  "circuit_ok (cb\<lparr>events := e\<rparr>) = circuit_ok cb"
  "circuit_ok (cb\<lparr>max_circuits := i\<rparr>) = circuit_ok cb"
  "circuit_ok (cb\<lparr>idle_ttl := d\<rparr>) = circuit_ok cb"
  "circuit_ok (cb\<lparr>min_quota_cooldown := d\<rparr>) = circuit_ok cb"
  by (simp_all add: fun_eq_iff circuit_ok_def split: cstate.split)

lemma clamp_threshold_pos:
  assumes "0 < v"
  shows "0 < clamp_threshold v"
proof (cases "v \<ge> 2 ^ 32 - 1")
  case False
  then have "uint (word_of_int v :: u32) = v"
    using assms by (simp add: uint_word_of_int)
  with False assms show ?thesis
    by (simp add: clamp_threshold_def word_less_def)
qed (simp add: clamp_threshold_def max_u32_def word_gt_0)

lemma thresholds_pos:
  assumes "params_ok cb"
  shows "0 < fst (thresholds_for cb key)" "0 < snd (thresholds_for cb key)"
  using assms clamp_threshold_pos
  by (auto simp: thresholds_for_def params_ok_def split: option.split prod.split)

lemma circuit_ok_last_used [simp]: "circuit_ok cb k (c\<lparr>last_used := x\<rparr>) = circuit_ok cb k c"
  by (simp add: circuit_ok_def split: cstate.split)

lemma circuit_ok_last_change [simp]: "circuit_ok cb k (c\<lparr>last_change := x\<rparr>) = circuit_ok cb k c"
  by (simp add: circuit_ok_def split: cstate.split)

lemma circuit_ok_new: "params_ok cb \<Longrightarrow> circuit_ok cb k (new_circuit now)"
  by (simp add: circuit_ok_def new_circuit_def zero_counts_def thresholds_pos)

subsection \<open>Eviction\<close>

text \<open>What eviction changes: it removes Closed circuits, locks and levels, and nothing else.\<close>

definition core :: "breaker \<Rightarrow> breaker" where
  "core cb = cb\<lparr>circuits := [], evictions := 0, backoff := new_backoff_tracker, model_locks := []\<rparr>"

definition evicts_to :: "breaker \<Rightarrow> breaker \<Rightarrow> bool" where
  "evicts_to cb cb' \<longleftrightarrow> core cb' = core cb
     \<and> (gomap_ok (circuits cb) \<longrightarrow> gomap_ok (circuits cb'))
     \<and> (gomap_ok (model_locks cb) \<longrightarrow> gomap_ok (model_locks cb'))
     \<and> (tracker_ok (backoff cb) \<longrightarrow> tracker_ok (backoff cb'))
     \<and> length (circuits cb') \<le> length (circuits cb)
     \<and> (\<forall>k c. map_of (circuits cb') k = Some c \<longrightarrow> map_of (circuits cb) k = Some c)"

lemma core_fields:
  assumes "core a = core b"
  shows "failure_threshold a = failure_threshold b" "success_threshold a = success_threshold b"
    "threshold_lookup a = threshold_lookup b"
    "half_open_max_requests a = half_open_max_requests b" "cooldown a = cooldown b"
    "has_on_state_change a = has_on_state_change b"
    "has_on_state_change_metric a = has_on_state_change_metric b"
    "classifier a = classifier b" "min_quota_cooldown a = min_quota_cooldown b"
    "max_circuits a = max_circuits b" "idle_ttl a = idle_ttl b" "events a = events b"
  using assms by (cases a; cases b; simp add: core_def)+

lemma core_thresholds: "core a = core b \<Longrightarrow> thresholds_for a = thresholds_for b"
  by (simp add: fun_eq_iff thresholds_for_def core_fields [of a b] split: option.split prod.split)

lemma core_circuit_ok: "core a = core b \<Longrightarrow> circuit_ok a = circuit_ok b"
  by (simp add: fun_eq_iff circuit_ok_def core_thresholds [of a b] core_fields [of a b]
      split: cstate.split)

lemma core_params: "core a = core b \<Longrightarrow> params_ok a = params_ok b"
  by (simp add: params_ok_def core_fields [of a b])

lemma evicts_to_refl: "evicts_to cb cb"
  by (simp add: evicts_to_def)

lemma evicts_to_trans: "evicts_to a b \<Longrightarrow> evicts_to b c \<Longrightarrow> evicts_to a c"
  by (auto simp: evicts_to_def)

lemma evicts_to_drop:
  "evicts_to cb (cb\<lparr>circuits := del k (circuits cb), evictions := n, backoff := bt_reset (backoff cb) k,
      model_locks := del k' (model_locks cb)\<rparr>)"
  by (auto simp: evicts_to_def core_def map_of_del length_delete_le split: if_splits)

lemma evicts_to_drop_lru:
  "evicts_to cb (cb\<lparr>circuits := del k (circuits cb), evictions := n, backoff := bt_reset (backoff cb) k\<rparr>)"
  by (auto simp: evicts_to_def core_def map_of_del length_delete_le split: if_splits)

lemma evicts_to_prune: "evicts_to cb (prune_expired_locks now cb)"
  by (auto simp: evicts_to_def core_def prune_expired_locks_def distinct_map_filter)

lemma evict_pass1_evicts: "evicts_to cb (snd (evict_pass1 now es ok ou cb))"
proof (induction now es ok ou cb rule: evict_pass1.induct)
  case (2 now key c es ok ou cb)
  then show ?case
    by (auto intro: evicts_to_trans [OF evicts_to_drop])
qed (simp add: evicts_to_refl)

lemma evict_for_capacity_evicts: "evicts_to cb (evict_for_capacity now cb)"
proof -
  let ?p = "prune_expired_locks now cb"
  let ?r = "evict_pass1 now (circuits ?p) [] zero_time ?p"
  have e: "evicts_to cb (snd ?r)"
    by (rule evicts_to_trans [OF evicts_to_prune evict_pass1_evicts])
  then show ?thesis
    by (auto simp: evict_for_capacity_def Let_def split_beta evicts_to_refl
        intro: evicts_to_trans [OF e evicts_to_drop_lru])
qed

text \<open>Eviction never takes a circuit that is not Closed.\<close>

lemma evict_pass1_keeps:
  "\<forall>(k', c) \<in> set es. k' = k \<longrightarrow> c_state c \<noteq> Closed \<Longrightarrow>
     map_of (circuits (snd (evict_pass1 now es ok ou cb))) k = map_of (circuits cb) k"
  by (induction now es ok ou cb rule: evict_pass1.induct) (auto simp: map_of_del)

lemma evict_pass1_oldest:
  "fst (evict_pass1 now es ok ou cb) = ok
     \<or> (\<exists>c. (fst (evict_pass1 now es ok ou cb), c) \<in> set es \<and> c_state c = Closed)"
  by (induction now es ok ou cb rule: evict_pass1.induct) auto

lemma evict_keeps_tripped:
  assumes ok: "gomap_ok (circuits cb)" and c: "map_of (circuits cb) k = Some c"
    and st: "c_state c \<noteq> Closed"
  shows "map_of (circuits (evict_for_capacity now cb)) k = Some c"
proof -
  let ?p = "prune_expired_locks now cb"
  have p: "circuits ?p = circuits cb" by (simp add: prune_expired_locks_def)
  let ?r = "evict_pass1 now (circuits cb) [] zero_time ?p"
  have only: "\<forall>(k', c') \<in> set (circuits cb). k' = k \<longrightarrow> c_state c' \<noteq> Closed"
    using ok c st by (auto dest: eq_key_imp_eq_value)
  have r: "map_of (circuits (snd ?r)) k = Some c"
    using evict_pass1_keeps [OF only, of now "[]" zero_time ?p] c p by simp
  have "fst ?r \<noteq> [] \<Longrightarrow> fst ?r \<noteq> k"
    using evict_pass1_oldest [of now "circuits cb" "[]" zero_time ?p] only by auto
  then show ?thesis
    using r c by (auto simp: evict_for_capacity_def Let_def split_beta p map_of_del)
qed

text \<open>The state of every key is unchanged, since absent and evicted keys count as Closed.\<close>

lemma evict_cur_state:
  assumes "gomap_ok (circuits cb)"
  shows "cur_state k (evict_for_capacity now cb) = cur_state k cb"
proof (cases "map_of (circuits cb) k")
  case None
  then have "map_of (circuits (evict_for_capacity now cb)) k = None"
    using evict_for_capacity_evicts [of cb now] by (cases "map_of (circuits (evict_for_capacity now cb)) k")
      (auto simp: evicts_to_def)
  with None show ?thesis by (simp add: cur_state_def)
next
  case (Some c)
  show ?thesis
  proof (cases "c_state c = Closed")
    case True
    then show ?thesis
      using evict_for_capacity_evicts [of cb now] Some
      by (auto simp: cur_state_def evicts_to_def split: option.split)
  next
    case False
    then show ?thesis
      using evict_keeps_tripped [OF assms Some] Some by (simp add: cur_state_def)
  qed
qed

lemma evicts_to_ok: "evicts_to cb cb' \<Longrightarrow> breaker_ok cb \<Longrightarrow> breaker_ok cb'"
  using core_circuit_ok [of cb' cb] core_params [of cb' cb]
  by (auto simp: evicts_to_def breaker_ok_def all_entries_def)

subsection \<open>Looking up or creating a circuit\<close>

definition same_config :: "breaker \<Rightarrow> breaker \<Rightarrow> bool" where
  "same_config cb cb' \<longleftrightarrow> thresholds_for cb' = thresholds_for cb
     \<and> half_open_max_requests cb' = half_open_max_requests cb \<and> cooldown cb' = cooldown cb
     \<and> has_on_state_change cb' = has_on_state_change cb \<and> classifier cb' = classifier cb
     \<and> max_circuits cb' = max_circuits cb \<and> min_quota_cooldown cb' = min_quota_cooldown cb"

lemma get_or_create_same_config: "same_config cb (snd (get_or_create now key cb))"
  using core_fields [of "evict_for_capacity now cb" cb] core_thresholds [of "evict_for_capacity now cb" cb]
    evict_for_capacity_evicts [of cb now]
  by (simp add: same_config_def get_or_create_def Let_def evicts_to_def)

lemma get_or_create_events [simp]: "events (snd (get_or_create now key cb)) = events cb"
  using core_fields [of "evict_for_capacity now cb" cb] evict_for_capacity_evicts [of cb now]
  by (simp add: get_or_create_def Let_def evicts_to_def)

lemma get_or_create_stored:
  "map_of (circuits (snd (get_or_create now key cb))) key = Some (fst (get_or_create now key cb))"
  by (simp add: get_or_create_def Let_def map_of_put)

lemma get_or_create_ok:
  assumes "breaker_ok cb"
  shows "breaker_ok (snd (get_or_create now key cb))"
    and "circuit_ok (snd (get_or_create now key cb)) key (fst (get_or_create now key cb))"
proof -
  let ?e = "evict_for_capacity now cb"
  let ?c = "case map_of (circuits ?e) key of None \<Rightarrow> new_circuit now | Some c \<Rightarrow> c\<lparr>last_used := now\<rparr>"
  have e: "breaker_ok ?e"
    using evicts_to_ok [OF evict_for_capacity_evicts assms] .
  have c: "circuit_ok ?e key ?c"
    using e by (auto simp: breaker_ok_def circuit_ok_new all_entries_def split: option.split)
  show "breaker_ok (snd (get_or_create now key cb))"
    using e c by (auto simp: get_or_create_def Let_def breaker_ok_def params_ok_def)
  show "circuit_ok (snd (get_or_create now key cb)) key (fst (get_or_create now key cb))"
    using c by (simp add: get_or_create_def Let_def)
qed

lemma get_or_create_cur_state:
  assumes "gomap_ok (circuits cb)"
  shows "cur_state k (snd (get_or_create now key cb)) = cur_state k cb"
    and "c_state (fst (get_or_create now key cb)) = cur_state key cb"
proof -
  let ?e = "evict_for_capacity now cb"
  have e: "cur_state k ?e = cur_state k cb" for k by (rule evict_cur_state [OF assms])
  have g: "c_state (fst (get_or_create now key cb)) = cur_state key ?e"
    by (simp add: get_or_create_def Let_def cur_state_def new_circuit_def split: option.split)
  then show "c_state (fst (get_or_create now key cb)) = cur_state key cb" by (simp add: e)
  show "cur_state k (snd (get_or_create now key cb)) = cur_state k cb"
  proof (cases "k = key")
    case True
    have "cur_state key (snd (get_or_create now key cb)) = c_state (fst (get_or_create now key cb))"
      by (simp add: cur_state_def get_or_create_stored)
    then show ?thesis using True g e by simp
  next
    case False
    then have "cur_state k (snd (get_or_create now key cb)) = cur_state k ?e"
      by (simp add: get_or_create_def Let_def cur_state_def map_of_put)
    then show ?thesis by (simp add: e)
  qed
qed

text \<open>A tripped circuit is found with its fields as they were, except \<open>last_used\<close>.\<close>

lemma get_or_create_tripped:
  assumes "gomap_ok (circuits cb)" "map_of (circuits cb) key = Some c" "c_state c \<noteq> Closed"
  shows "fst (get_or_create now key cb) = c\<lparr>last_used := now\<rparr>"
  using evict_keeps_tripped [OF assms, of now] by (simp add: get_or_create_def Let_def)

lemma get_or_create_other:
  assumes "gomap_ok (circuits cb)" "map_of (circuits cb) k = Some c" "c_state c \<noteq> Closed" "k \<noteq> key"
  shows "map_of (circuits (snd (get_or_create now key cb))) k = Some c"
  using evict_keeps_tripped [OF assms(1-3), of now] assms(4)
  by (simp add: get_or_create_def Let_def map_of_put)

subsection \<open>Saturating counters\<close>

lemma inc_u32_le: "v < w \<Longrightarrow> inc_u32 v \<le> w"
  by (auto simp: inc_u32_def inc_le)

lemma unat_inc_u32: "unat (inc_u32 v) = min 4294967295 (unat v + 1)"
proof (cases "v = max_u32")
  case False
  then have "v < max_u32" by (simp add: order_less_le)
  then have "unat v < 4294967295" by (simp add: word_less_nat_alt)
  then show ?thesis using False by (simp add: inc_u32_def unat_word_ariths)
qed (simp add: inc_u32_def)

lemma inc_u32_pos: "0 < inc_u32 v"
  by (simp add: word_less_nat_alt unat_inc_u32)

lemma inc_u32_mono: "v \<le> inc_u32 v"
  using unsigned_less [of v, where 'a = nat] by (simp add: word_le_nat_alt unat_inc_u32)

lemma dec_u32_le: "0 < v \<Longrightarrow> v \<le> w \<Longrightarrow> v - 1 \<le> (w :: u32)"
  by unat_arith

subsection \<open>Storing a circuit back\<close>

definition breaker_inv :: "breaker \<Rightarrow> bool" where
  "breaker_inv cb \<longleftrightarrow> breaker_ok cb \<and> log_ok cb"

text \<open>The circuit in hand is well formed and is the registry's, as far as its state goes.\<close>

definition held :: "breaker \<Rightarrow> string \<Rightarrow> circuit \<Rightarrow> bool" where
  "held cb key c \<longleftrightarrow> breaker_inv cb \<and> circuit_ok cb key c \<and> c_state c = cur_state key cb"

lemma cur_state_frame [simp]:
  "cur_state k (cb\<lparr>evictions := n\<rparr>) = cur_state k cb"
  "cur_state k (cb\<lparr>backoff := b\<rparr>) = cur_state k cb"
  "cur_state k (cb\<lparr>model_locks := l\<rparr>) = cur_state k cb"
  "cur_state k (cb\<lparr>events := e\<rparr>) = cur_state k cb"
  "cur_state k (cb\<lparr>max_circuits := i\<rparr>) = cur_state k cb"
  "cur_state k (cb\<lparr>idle_ttl := d\<rparr>) = cur_state k cb"
  "cur_state k (cb\<lparr>min_quota_cooldown := d\<rparr>) = cur_state k cb"
  by (simp_all add: cur_state_def)

lemma cur_state_store [simp]: "cur_state k' (store k c cb) = (if k' = k then c_state c else cur_state k' cb)"
  by (simp add: cur_state_def store_def map_of_put)

lemma breaker_ok_store: "breaker_ok cb \<Longrightarrow> circuit_ok cb k c \<Longrightarrow> breaker_ok (store k c cb)"
  by (auto simp: breaker_ok_def params_ok_def store_def)

lemma log_ok_store: "log_ok cb \<Longrightarrow> c_state c = cur_state k cb \<Longrightarrow> log_ok (store k c cb)"
  by (auto simp: log_ok_def) (simp_all add: store_def)

lemma breaker_inv_backoff: "breaker_inv cb \<Longrightarrow> tracker_ok b \<Longrightarrow> breaker_inv (cb\<lparr>backoff := b\<rparr>)"
  by (auto simp: breaker_inv_def breaker_ok_def params_ok_def log_ok_def)

lemma breaker_inv_locks: "breaker_inv cb \<Longrightarrow> gomap_ok l \<Longrightarrow> breaker_inv (cb\<lparr>model_locks := l\<rparr>)"
  by (auto simp: breaker_inv_def breaker_ok_def params_ok_def log_ok_def)

lemma breaker_invD:
  "breaker_inv cb \<Longrightarrow> params_ok cb \<and> gomap_ok (circuits cb) \<and> gomap_ok (model_locks cb) \<and> tracker_ok (backoff cb)"
  by (simp add: breaker_inv_def breaker_ok_def)

lemma get_or_create_held:
  assumes "breaker_inv cb"
  shows "held (snd (get_or_create now key cb)) key (fst (get_or_create now key cb))"
proof -
  have ok: "breaker_ok cb" and log: "log_ok cb" using assms by (auto simp: breaker_inv_def)
  have d: "gomap_ok (circuits cb)" using ok by (simp add: breaker_ok_def)
  show ?thesis
    using get_or_create_ok [OF ok] log get_or_create_same_config [of cb now key]
    by (auto simp: held_def breaker_inv_def log_ok_def get_or_create_cur_state [OF d] same_config_def)
qed

lemma held_store:
  "held cb key c \<Longrightarrow> circuit_ok cb key c' \<Longrightarrow> c_state c' = c_state c \<Longrightarrow> breaker_inv (store key c' cb)"
  by (auto simp: held_def breaker_inv_def intro: breaker_ok_store log_ok_store)

lemma held_inv: "held cb key c \<Longrightarrow> breaker_inv cb"
  by (simp add: held_def)

lemma held_switch:
  assumes h: "held cb key c0" and c: "c_state c = c_state c0"
    and "legal_transition (c_state c0) s" "c_state c' = s" "circuit_ok cb key c'"
  shows "breaker_inv (store key c' (snd (set_state now key s c cb)))"
proof -
  let ?cb = "snd (set_state now key s c cb)"
  have ne: "c_state c \<noteq> s" using assms(2,3) by (cases "c_state c0"; cases s) auto
  have "breaker_ok ?cb"
    using h ne by (auto simp: held_def breaker_inv_def breaker_ok_def params_ok_def set_state_def)
  moreover have "circuit_ok ?cb key c'"
    using assms(5) ne by (simp add: set_state_def)
  ultimately have ok: "breaker_ok (store key c' ?cb)" by (rule breaker_ok_store)
  have "log_ok (store key c' ?cb)"
    using assms ne
    by (auto simp: held_def breaker_inv_def log_ok_def)
      (auto simp: store_def set_state_def replay_append split: if_splits)
  with ok show ?thesis by (simp add: breaker_inv_def)
qed

lemma set_state_fst:
  "c_state c \<noteq> s \<Longrightarrow> fst (set_state now key s c cb) =
     c\<lparr>c_state := s, generation := generation c + 1, c_counts := zero_counts,
       half_open_inflight := 0, last_change := now,
       expiry := (case s of Closed \<Rightarrow> zero_time | Open \<Rightarrow> now + cooldown cb | HalfOpen \<Rightarrow> zero_time)\<rparr>"
  by (simp add: set_state_def)

lemma set_state_snd_frame [simp]:
  "circuits (snd (set_state now key s c cb)) = circuits cb"
  "model_locks (snd (set_state now key s c cb)) = model_locks cb"
  "backoff (snd (set_state now key s c cb)) = backoff cb"
  "half_open_max_requests (snd (set_state now key s c cb)) = half_open_max_requests cb"
  "thresholds_for (snd (set_state now key s c cb)) = thresholds_for cb"
  by (simp_all add: set_state_def)

subsection \<open>Every operation keeps the invariant\<close>

lemmas count_defs = count_request_def count_inflight_def count_failure_def count_success_def
  release_inflight_def zero_counts_def Let_def

lemma allow_inv: "breaker_inv cb \<Longrightarrow> breaker_inv (snd (allow t key cb))"
proof -
  assume inv: "breaker_inv cb"
  obtain c cb1 where g: "get_or_create (t_get t) key cb = (c, cb1)" by force
  have h: "held cb1 key c" using get_or_create_held [OF inv, of "t_get t" key] g by simp
  note ok = h [unfolded held_def]
  have p: "params_ok cb1" using ok by (simp add: breaker_inv_def breaker_ok_def)
  show ?thesis
  proof (cases "c_state c")
    case Closed
    then show ?thesis
      using g ok by (auto simp: allow_def circuit_ok_def count_defs intro!: held_store [OF h])
  next
    case Open
    then show ?thesis
      using g ok p thresholds_pos [OF p]
      by (auto simp: allow_def circuit_ok_def count_defs split_beta set_state_fst params_ok_def
          intro!: held_switch [OF h] inc_u32_le)
  next
    case HalfOpen
    then show ?thesis
      using g ok by (auto simp: allow_def circuit_ok_def count_defs intro!: held_store [OF h] inc_u32_le)
  qed
qed

lemma record_failure_inv: "breaker_inv cb \<Longrightarrow> breaker_inv (record_failure t key ov cb)"
proof -
  assume inv: "breaker_inv cb"
  obtain c cb1 where g: "get_or_create (t_get t) key cb = (c, cb1)" by force
  have h: "held cb1 key c" using get_or_create_held [OF inv, of "t_get t" key] g by simp
  note ok = h [unfolded held_def]
  show ?thesis
  proof (cases "c_state c")
    case Closed
    then show ?thesis
      using g ok
      by (auto simp: record_failure_def Let_def circuit_ok_def split_beta set_state_fst count_failure_def
          intro!: held_switch [OF h] held_store [OF h])
  next
    case Open
    then show ?thesis
      using g ok by (auto simp: record_failure_def Let_def circuit_ok_def intro!: held_store [OF h])
  next
    case HalfOpen
    then show ?thesis
      using g ok
      by (auto simp: record_failure_def Let_def circuit_ok_def split_beta set_state_fst
          intro!: held_switch [OF h])
  qed
qed

lemma record_opaque_failure_inv: "breaker_inv cb \<Longrightarrow> breaker_inv (record_opaque_failure t key cb)"
proof -
  assume inv: "breaker_inv cb"
  obtain c cb1 where g: "get_or_create (t_get t) key cb = (c, cb1)" by force
  have h: "held cb1 key c" using get_or_create_held [OF inv, of "t_get t" key] g by simp
  note ok = h [unfolded held_def]
  show ?thesis
    using g ok inv
    by (cases "c_state c")
      (auto simp: record_opaque_failure_def Let_def circuit_ok_def count_request_def release_inflight_def
        intro!: held_store [OF h] dec_u32_le)
qed

lemma apply_model_lock_frame [simp]:
  "circuits (apply_model_lock key d now cb) = circuits cb"
  "thresholds_for (apply_model_lock key d now cb) = thresholds_for cb"
  "half_open_max_requests (apply_model_lock key d now cb) = half_open_max_requests cb"
  "cooldown (apply_model_lock key d now cb) = cooldown cb"
  "has_on_state_change (apply_model_lock key d now cb) = has_on_state_change cb"
  "circuit_ok (apply_model_lock key d now cb) = circuit_ok cb"
  "cur_state k (apply_model_lock key d now cb) = cur_state k cb"
  "params_ok (apply_model_lock key d now cb) = params_ok cb"
  by (simp_all add: apply_model_lock_def Let_def params_ok_def split_beta)

lemma apply_model_lock_replay [simp]:
  "replay k s (events (apply_model_lock key d now cb)) = replay k s (events cb)"
  by (simp add: apply_model_lock_def Let_def split_beta replay_append split: option.split)

lemma apply_model_lock_inv: "breaker_inv cb \<Longrightarrow> breaker_inv (apply_model_lock key d now cb)"
proof -
  assume inv: "breaker_inv cb"
  have "gomap_ok (model_locks (apply_model_lock key d now cb))"
    and "tracker_ok (backoff (apply_model_lock key d now cb))"
    using breaker_invD [OF inv] by (simp_all add: apply_model_lock_def Let_def split_beta)
  with inv show ?thesis by (simp add: breaker_inv_def breaker_ok_def log_ok_def)
qed

lemma apply_model_lock_held: "held cb key c \<Longrightarrow> held (apply_model_lock k d now cb) key c"
  by (simp add: held_def apply_model_lock_inv)

lemma record_failure_with_status_inv:
  "breaker_inv cb \<Longrightarrow> breaker_inv (snd (record_failure_with_status t r key status body cb))"
proof -
  assume inv: "breaker_inv cb"
  obtain c cb1 where g: "get_or_create (t_get t) key cb = (c, cb1)" by force
  have h: "held cb1 key c" using get_or_create_held [OF inv, of "t_get t" key] g by simp
  note h2 = apply_model_lock_held [OF h]
  note ok = h [unfolded held_def]
  show ?thesis
    using g ok
    by (cases "c_state c")
      (auto simp: record_failure_with_status_def Let_def circuit_ok_def split_beta set_state_fst
        count_failure_def intro!: held_store [OF h2] held_switch [OF h2])
qed

lemma breaker_upd_swap:
  "(cb :: breaker)\<lparr>backoff := b, model_locks := l, circuits := m\<rparr>
     = cb\<lparr>circuits := m, backoff := b, model_locks := l\<rparr>"
  by simp

lemma record_success_clearing_inv: "breaker_inv cb \<Longrightarrow> breaker_inv (record_success_clearing t key k cb)"
proof -
  assume inv: "breaker_inv cb"
  obtain c cb1 where g: "get_or_create (t_get t) key cb = (c, cb1)" by force
  have h: "held cb1 key c" using get_or_create_held [OF inv, of "t_get t" key] g by simp
  note ok = h [unfolded held_def]
  have p: "params_ok cb1" using ok breaker_invD by blast
  show ?thesis
  proof (cases "c_state c")
    case Closed
    then show ?thesis
      using g ok thresholds_pos [OF p]
      by (auto simp: record_success_clearing_def circuit_ok_def count_success_def Let_def
          intro!: held_store [OF h])
  next
    case Open
    then show ?thesis using g held_inv [OF h] by (simp add: record_success_clearing_def)
  next
    case HalfOpen
    let ?c = "release_inflight (count_success c)"
    have st: "c_state ?c = HalfOpen" using HalfOpen by (simp add: count_defs)
    show ?thesis
    proof (cases "consecutive_successes (c_counts ?c) \<ge> snd (thresholds_for cb1 key)")
      case True
      let ?s = "set_state (t_set t) key Closed ?c cb1"
      have "breaker_inv (store key (fst ?s) (snd ?s))"
        using HalfOpen st thresholds_pos [OF p]
        by (auto simp: circuit_ok_def set_state_fst zero_counts_def intro!: held_switch [OF h])
      then have "breaker_inv ((store key (fst ?s) (snd ?s))\<lparr>backoff := bt_reset (backoff cb1) k,
          model_locks := del k (model_locks cb1)\<rparr>)"
        using breaker_invD [OF held_inv [OF h]]
        by (intro breaker_inv_locks breaker_inv_backoff) auto
      with True HalfOpen show ?thesis
        using g by (simp add: record_success_clearing_def Let_def split_beta store_def breaker_upd_swap)
    next
      case False
      with HalfOpen show ?thesis
        using g ok
        by (auto simp: record_success_clearing_def Let_def circuit_ok_def count_success_def
            release_inflight_def intro!: held_store [OF h] dec_u32_le)
    qed
  qed
qed

lemma release_half_open_inv: "breaker_inv cb \<Longrightarrow> breaker_inv (release_half_open key cb)"
proof (cases "map_of (circuits cb) key")
  case (Some c)
  assume inv: "breaker_inv cb"
  then have h: "held cb key c"
    using Some by (simp add: held_def breaker_inv_def breaker_ok_def cur_state_def all_entries_def)
  then show ?thesis
    using Some inv
    by (auto simp: release_half_open_def held_def circuit_ok_def word_gt_0 intro!: held_store [OF h] dec_u32_le)
qed (simp add: release_half_open_def)

lemma force_open_inv: "breaker_inv cb \<Longrightarrow> breaker_inv (force_open t key cd cb)"
proof -
  assume inv: "breaker_inv cb"
  obtain c cb1 where g: "get_or_create (t_get t) key cb = (c, cb1)" by force
  have h: "held cb1 key c" using get_or_create_held [OF inv, of "t_get t" key] g by simp
  note ok = h [unfolded held_def]
  show ?thesis
  proof (cases "c_state c = Open")
    case True
    then show ?thesis
      using g ok inv
      by (auto simp: force_open_def Let_def set_state_def circuit_ok_def intro!: held_store [OF h])
  next
    case False
    then have "legal_transition (c_state c) Open" by (cases "c_state c") auto
    with False show ?thesis
      using g inv
      by (auto simp: force_open_def Let_def split_beta set_state_fst circuit_ok_def
          intro!: held_switch [OF h])
  qed
qed

lemma peek_inv: "breaker_inv cb \<Longrightarrow> breaker_inv (snd (peek t key cb))"
  using held_inv [OF get_or_create_held, of cb "t_get t" key] by (simp add: peek_def split_beta)

lemma unlock_model_inv: "breaker_inv cb \<Longrightarrow> breaker_inv (unlock_model model cb)"
  using breaker_inv_backoff [OF breaker_inv_locks, of cb "del model (model_locks cb)"] breaker_invD [of cb]
  by (simp add: unlock_model_def)

lemma set_registry_limits_inv: "breaker_inv cb \<Longrightarrow> breaker_inv (set_registry_limits mx ttl cb)"
  by (auto simp: set_registry_limits_def Let_def breaker_inv_def breaker_ok_def params_ok_def log_ok_def)

lemma set_min_quota_cooldown_inv: "breaker_inv cb \<Longrightarrow> breaker_inv (set_min_quota_cooldown d cb)"
  by (auto simp: set_min_quota_cooldown_def breaker_inv_def breaker_ok_def params_ok_def log_ok_def)

lemma reorder_inv:
  assumes inv: "breaker_inv cb" and m: "mset m = mset (circuits cb)"
  shows "breaker_inv (cb\<lparr>circuits := m\<rparr>)"
proof -
  have d: "gomap_ok (circuits cb)" using breaker_invD [OF inv] by simp
  have d': "gomap_ok m" and eq: "map_of m = map_of (circuits cb)"
    using gomap_permute [OF m d] by auto
  show ?thesis
    using inv d' by (simp add: breaker_inv_def breaker_ok_def params_ok_def log_ok_def cur_state_def
        all_entries_def eq)
qed

lemma cb_step_inv: "breaker_inv cb \<Longrightarrow> breaker_inv (cb_step cb x)"
  by (cases x)
    (simp_all add: allow_inv record_failure_inv record_opaque_failure_inv
      record_failure_with_status_inv record_success_def record_success_with_model_def
      record_success_clearing_inv release_half_open_inv force_open_inv peek_inv unlock_model_inv
      set_registry_limits_inv set_min_quota_cooldown_inv reorder_inv)

interpretation breaker: machine cb_step breaker_inv
  by unfold_locales (rule cb_step_inv)

text \<open>A breaker built with thresholds that fit 32 bits starts in the invariant.\<close>

lemma new_circuit_breaker_inv:
  assumes "ft < 2 ^ 32" "st < 2 ^ 32"
  shows "breaker_inv (new_circuit_breaker ft st hom cd oc)"
proof -
  have pos: "0 < (word_of_int v :: u32)" if "0 < v" "v < 2 ^ 32" for v
    using that by (simp add: word_less_def uint_word_of_int)
  show ?thesis
    using assms pos
    by (auto simp: new_circuit_breaker_def Let_def breaker_inv_def breaker_ok_def params_ok_def
        log_ok_def cur_state_def unit_defs default_max_circuits_def default_circuit_idle_ttl_def
        word_gt_0)
qed

end
