(* ===== verification/Breaker_Props.thy ===== *)
theory Breaker_Props
  imports Breaker_Invariant
begin

text \<open>
  The properties of the circuit breaker: well-formedness over any run, the callback log, the
  gate in each state, deadlines and locks that only extend, tripping at exactly the threshold,
  and what the bound of the registry costs.
\<close>

subsection \<open>Facts about single operations\<close>

lemma store_circuits [simp]: "map_of (circuits (store k c cb)) k' = (if k' = k then Some c else map_of (circuits cb) k')"
  by (simp add: store_def map_of_put)

text \<open>An operation on one key leaves the circuit of another as \<^verbatim>\<open>getOrCreate\<close> leaves it.\<close>

lemma op_other:
  assumes "key \<noteq> k"
  shows "map_of (circuits (snd (allow t key cb))) k
           = map_of (circuits (snd (get_or_create (t_get t) key cb))) k"
    and "map_of (circuits (record_failure t key ov cb)) k
           = map_of (circuits (snd (get_or_create (t_get t) key cb))) k"
    and "map_of (circuits (snd (record_failure_with_status t r key status body cb))) k
           = map_of (circuits (snd (get_or_create (t_get t) key cb))) k"
    and "map_of (circuits (record_success_clearing t key lk cb)) k
           = map_of (circuits (snd (get_or_create (t_get t) key cb))) k"
    and "map_of (circuits (snd (peek t key cb))) k
           = map_of (circuits (snd (get_or_create (t_get t) key cb))) k"
    and "map_of (circuits (release_half_open key cb)) k = map_of (circuits cb) k"
  using assms
  by (simp_all add: allow_def record_failure_def record_failure_with_status_def peek_def
      record_success_clearing_def release_half_open_def Let_def split_beta split: cstate.split option.split)

lemma op_other_guarded:
  assumes "key \<noteq> k" "gomap_ok (circuits cb)" "map_of (circuits cb) k = Some c" "c_state c \<noteq> Closed"
  shows "map_of (circuits (record_opaque_failure t key cb)) k = Some c"
    and "map_of (circuits (force_open t key cd cb)) k = Some c"
  using assms get_or_create_other [OF assms(2-4), of key "t_get t"]
  by (auto simp: record_opaque_failure_def force_open_def Let_def split_beta)

text \<open>What one operation does to an Open circuit: it stays, or becomes HalfOpen, or extends.\<close>

definition open_extends :: "circuit \<Rightarrow> circuit \<Rightarrow> bool" where
  "open_extends c c' \<longleftrightarrow> c_state c' = HalfOpen \<or> (c_state c' = Open \<and> expiry c \<le> expiry c')"

lemma open_extends_refl: "c_state c = Open \<Longrightarrow> open_extends c c"
  by (simp add: open_extends_def)

fun op_key :: "cb_op \<Rightarrow> string option" where
  "op_key (OpAllow t key) = Some key"
| "op_key (OpFailure t key ov) = Some key"
| "op_key (OpOpaque t key) = Some key"
| "op_key (OpFailureStatus t r key status body) = Some key"
| "op_key (OpSuccess t key) = Some key"
| "op_key (OpSuccessModel t key model) = Some key"
| "op_key (OpRelease key) = Some key"
| "op_key (OpForce t key cd) = Some key"
| "op_key (OpPeek t key) = Some key"
| "op_key _ = None"

text \<open>A circuit that is not Closed is left alone by every operation on another key.\<close>

lemma step_other:
  assumes d: "gomap_ok (circuits cb)" and k: "map_of (circuits cb) k = Some c"
    and ne: "c_state c \<noteq> Closed" and x: "op_key x \<noteq> Some k"
  shows "map_of (circuits (cb_step cb x)) k = Some c"
proof -
  have other: "map_of (circuits (snd (get_or_create now key cb))) k = Some c" if "key \<noteq> k" for now key
    using get_or_create_other [OF d k ne] that by simp
  show ?thesis
  proof (cases x)
    case (OpOrder m)
    then show ?thesis
      using k gomap_permute [OF _ d, of m] by (cases "mset m = mset (circuits cb)") auto
  qed (use k x other op_other_guarded [OF _ d k ne] in \<open>auto simp: op_other record_success_def
      record_success_with_model_def unlock_model_def set_registry_limits_def
      set_min_quota_cooldown_def Let_def\<close>)
qed

lemma step_open_extends:
  assumes inv: "breaker_inv cb" and k: "map_of (circuits cb) k = Some c" and o: "c_state c = Open"
  shows "\<exists>c'. map_of (circuits (cb_step cb x)) k = Some c' \<and> open_extends c c'"
proof -
  have d: "gomap_ok (circuits cb)" using breaker_invD [OF inv] by simp
  have ne: "c_state c \<noteq> Closed" using o by simp
  note own = get_or_create_tripped [OF d k ne]
  note stored = get_or_create_stored [of _ k cb, unfolded own]
  note ext = open_extends_def o
  show ?thesis
  proof (cases "op_key x = Some k")
    case False
    then show ?thesis using step_other [OF d k ne] o by (simp add: open_extends_refl)
  next
    case key: True
    show ?thesis
    proof (cases x)
      case (OpFailureStatus t r key status body)
      then show ?thesis
        using key by (auto simp: own ext record_failure_with_status_def split_beta Let_def)
    next
      case (OpForce t key' cd)
      then show ?thesis
        using key k by (auto simp: own ext force_open_def split_beta Let_def set_state_def)
    qed (use key k stored in \<open>auto simp: own ext allow_def record_failure_def record_opaque_failure_def
        record_success_def record_success_with_model_def record_success_clearing_def
        release_half_open_def peek_def set_state_fst count_defs split_beta\<close>)
  qed
qed

subsection \<open>Runs of one operation\<close>

fun allow_run :: "clock list \<Rightarrow> string \<Rightarrow> breaker \<Rightarrow> bool list \<times> breaker" where
  "allow_run [] key cb = ([], cb)"
| "allow_run (t # ts) key cb =
     (let (b, cb) = allow t key cb; (bs, cb) = allow_run ts key cb in (b # bs, cb))"

definition fail_run :: "clock list \<Rightarrow> string \<Rightarrow> breaker \<Rightarrow> breaker" where
  "fail_run ts key cb = foldl (\<lambda>cb t. record_failure t key [] cb) cb ts"

lemma allow_half_open:
  assumes "gomap_ok (circuits cb)" "map_of (circuits cb) key = Some c" "c_state c = HalfOpen"
  shows "fst (allow t key cb) \<longleftrightarrow> half_open_inflight c < half_open_max_requests cb"
    and "\<exists>c'. map_of (circuits (snd (allow t key cb))) key = Some c' \<and> c_state c' = HalfOpen
      \<and> half_open_inflight c' = (if half_open_inflight c < half_open_max_requests cb
          then inc_u32 (half_open_inflight c) else half_open_inflight c)"
    and "half_open_max_requests (snd (allow t key cb)) = half_open_max_requests cb"
  using assms get_or_create_tripped [OF assms(1,2), of "t_get t"]
    get_or_create_same_config [of cb "t_get t" key] get_or_create_stored [of "t_get t" key cb]
  by (auto simp: allow_def split_beta same_config_def count_defs store_def not_le map_of_put)

lemma allow_run_half_open:
  assumes "breaker_inv cb" "map_of (circuits cb) key = Some c" "c_state c = HalfOpen"
  shows "length (filter (\<lambda>b. b) (fst (allow_run ts key cb)))
    = min (length ts) (unat (half_open_max_requests cb) - unat (half_open_inflight c))"
  using assms
proof (induction ts arbitrary: cb c)
  case (Cons t ts)
  have d: "gomap_ok (circuits cb)" using breaker_invD [OF Cons.prems(1)] by simp
  note a = allow_half_open [OF d Cons.prems(2,3), of t]
  obtain c' where c': "map_of (circuits (snd (allow t key cb))) key = Some c'" "c_state c' = HalfOpen"
    "half_open_inflight c' = (if half_open_inflight c < half_open_max_requests cb
          then inc_u32 (half_open_inflight c) else half_open_inflight c)"
    using a(2) by blast
  note IH = Cons.IH [OF allow_inv [OF Cons.prems(1)] c'(1,2)]
  have i: "half_open_inflight c < half_open_max_requests cb \<Longrightarrow>
      unat (inc_u32 (half_open_inflight c)) = Suc (unat (half_open_inflight c))"
    using unsigned_less [of "half_open_max_requests cb", where 'a = nat]
    by (simp add: unat_inc_u32 word_less_nat_alt)
  have eq: "length (filter (\<lambda>b. b) (fst (allow_run (t # ts) key cb)))
      = (if fst (allow t key cb) then 1 else 0)
        + length (filter (\<lambda>b. b) (fst (allow_run ts key (snd (allow t key cb)))))"
    by (simp add: split_beta Let_def)
  show ?case
    unfolding eq using IH a(1,3) c'(3) i by (auto simp: word_less_nat_alt)
qed simp

text \<open>Without a full registry nothing is evicted.\<close>

lemma no_evict: "int (length (circuits cb)) < max_circuits cb \<Longrightarrow> evict_for_capacity now cb = cb"
  by (simp add: evict_for_capacity_def)

lemma record_failure_closed_step:
  assumes room: "int (length (circuits cb)) < max_circuits cb"
    and st: "cur_state key cb = Closed"
  defines "n \<equiv> (case map_of (circuits cb) key of None \<Rightarrow> 0 | Some c \<Rightarrow> consecutive_failures (c_counts c))"
  shows "\<exists>c'. map_of (circuits (record_failure t key ov cb)) key = Some c'
      \<and> (if fst (thresholds_for cb key) \<le> inc_u32 n then c_state c' = Open
         else c_state c' = Closed \<and> consecutive_failures (c_counts c') = inc_u32 n)"
    and "max_circuits (record_failure t key ov cb) = max_circuits cb"
    and "thresholds_for (record_failure t key ov cb) = thresholds_for cb"
    and "length (circuits (record_failure t key ov cb)) =
      (if map_of (circuits cb) key = None then Suc (length (circuits cb)) else length (circuits cb))"
proof -
  let ?c = "case map_of (circuits cb) key of None \<Rightarrow> new_circuit (t_get t) | Some c \<Rightarrow> c\<lparr>last_used := t_get t\<rparr>"
  have g: "get_or_create (t_get t) key cb = (?c, cb\<lparr>circuits := put key ?c (circuits cb)\<rparr>)"
    by (simp add: get_or_create_def Let_def no_evict [OF room])
  have cl: "c_state ?c = Closed" "consecutive_failures (c_counts ?c) = n"
    using st by (auto simp: cur_state_def n_def new_circuit_def zero_counts_def split: option.splits)
  show "\<exists>c'. map_of (circuits (record_failure t key ov cb)) key = Some c'
      \<and> (if fst (thresholds_for cb key) \<le> inc_u32 n then c_state c' = Open
         else c_state c' = Closed \<and> consecutive_failures (c_counts c') = inc_u32 n)"
    "max_circuits (record_failure t key ov cb) = max_circuits cb"
    "thresholds_for (record_failure t key ov cb) = thresholds_for cb"
    "length (circuits (record_failure t key ov cb)) =
      (if map_of (circuits cb) key = None then Suc (length (circuits cb)) else length (circuits cb))"
    using cl
    by (auto simp: record_failure_def g Let_def split_beta set_state_def store_def map_of_put
        count_failure_def length_put map_of_eq_None_iff)
qed

text \<open>Fewer failures than the threshold leave a fresh circuit Closed and counted; the last one trips it.\<close>

lemma fail_run_counts:
  assumes "map_of (circuits cb) key = None" "int (length (circuits cb)) + 1 < max_circuits cb"
    and "length ts < unat (fst (thresholds_for cb key))"
  shows "cur_state key (fail_run ts key cb) = Closed
    \<and> (case map_of (circuits (fail_run ts key cb)) key of None \<Rightarrow> ts = []
        | Some c \<Rightarrow> unat (consecutive_failures (c_counts c)) = length ts)
    \<and> int (length (circuits (fail_run ts key cb))) < max_circuits (fail_run ts key cb)
    \<and> thresholds_for (fail_run ts key cb) = thresholds_for cb
    \<and> (map_of (circuits (fail_run ts key cb)) key = None \<longrightarrow> ts = [])"
  using assms(3)
proof (induction ts rule: rev_induct)
  case Nil
  then show ?case using assms by (simp add: fail_run_def cur_state_def)
next
  case (snoc t ts)
  let ?cb = "fail_run ts key cb"
  have run: "fail_run (ts @ [t]) key cb = record_failure t key [] ?cb" by (simp add: fail_run_def)
  have IH: "cur_state key ?cb = Closed" "int (length (circuits ?cb)) < max_circuits ?cb"
    "thresholds_for ?cb = thresholds_for cb"
    "case map_of (circuits ?cb) key of None \<Rightarrow> ts = []
        | Some c \<Rightarrow> unat (consecutive_failures (c_counts c)) = length ts"
    "map_of (circuits ?cb) key = None \<longrightarrow> ts = []"
    using snoc by auto
  note s = record_failure_closed_step [OF IH(2,1), of t "[]"]
  let ?n = "case map_of (circuits ?cb) key of None \<Rightarrow> 0 | Some c \<Rightarrow> consecutive_failures (c_counts c)"
  have n: "unat ?n = length ts" using IH(4) by (auto split: option.splits)
  then have n1: "unat (inc_u32 ?n) = Suc (length ts)"
    using snoc.prems unsigned_less [of "fst (thresholds_for cb key)", where 'a = nat]
    by (simp add: unat_inc_u32)
  have "\<not> fst (thresholds_for ?cb key) \<le> inc_u32 ?n"
    using n1 snoc.prems IH(3) by (simp add: word_le_nat_alt)
  with s(1) obtain c' where c': "map_of (circuits (record_failure t key [] ?cb)) key = Some c'"
    "c_state c' = Closed" "consecutive_failures (c_counts c') = inc_u32 ?n" by auto
  have "ts = [] \<Longrightarrow> ?cb = cb" by (simp add: fail_run_def)
  then have "int (length (circuits (record_failure t key [] ?cb))) < max_circuits (record_failure t key [] ?cb)"
    using s(2,4) IH(2,5) assms(2) by auto
  with c' n1 s(3) IH(3) show ?case by (simp add: run cur_state_def)
qed

lemma fail_run_trips:
  assumes "breaker_inv cb" "map_of (circuits cb) key = None"
    "int (length (circuits cb)) + 1 < max_circuits cb"
    and "length ts = unat (fst (thresholds_for cb key))"
  shows "cur_state key (fail_run ts key cb) = Open"
proof -
  have "0 < fst (thresholds_for cb key)" using thresholds_pos breaker_invD [OF assms(1)] by blast
  then have "0 < length ts" using assms(4) by (simp add: word_less_nat_alt)
  then obtain us t where ts: "ts = us @ [t]" by (metis length_greater_0_conv rev_exhaust)
  let ?cb = "fail_run us key cb"
  have l: "length us < unat (fst (thresholds_for cb key))" using assms(4) ts by simp
  note c = fail_run_counts [OF assms(2,3) l]
  have room: "int (length (circuits ?cb)) < max_circuits ?cb" and st: "cur_state key ?cb = Closed"
    using c by auto
  let ?n = "case map_of (circuits ?cb) key of None \<Rightarrow> 0 | Some c \<Rightarrow> consecutive_failures (c_counts c)"
  have n: "unat ?n = length us" using c by (auto split: option.splits)
  then have "unat (inc_u32 ?n) = Suc (length us)"
    using l unsigned_less [of "fst (thresholds_for cb key)", where 'a = nat] by (simp add: unat_inc_u32)
  then have "fst (thresholds_for ?cb key) \<le> inc_u32 ?n"
    using c assms(4) ts by (simp add: word_le_nat_alt)
  with record_failure_closed_step(1) [OF room st, of t "[]"] show ?thesis
    by (auto simp: ts fail_run_def cur_state_def)
qed

subsection \<open>The least recently used circuit\<close>

lemma evict_pass1_lru_kept:
  assumes "ok \<noteq> []"
    and "\<forall>(k, c) \<in> set es. c_state c = Closed \<longrightarrow> now - last_used c \<le> idle_ttl cb \<and> ou < last_used c"
  shows "evict_pass1 now es ok ou cb = (ok, cb)"
  using assms by (induction now es ok ou cb rule: evict_pass1.induct) auto

lemma evict_pass1_lru:
  assumes "distinct (map fst es)" "(key, c) \<in> set es" "c_state c = Closed" "half_open_inflight c = 0"
    and "key \<noteq> []" "ok = [] \<or> last_used c < ou"
    and "\<forall>(k', c') \<in> set es. c_state c' = Closed \<longrightarrow> now - last_used c' \<le> idle_ttl cb
      \<and> (k' \<noteq> key \<longrightarrow> last_used c < last_used c')"
  shows "evict_pass1 now es ok ou cb = (key, cb)"
  using assms
proof (induction now es ok ou cb rule: evict_pass1.induct)
  case (2 now k1 c1 es ok ou cb)
  show ?case
  proof (cases "k1 = key")
    case True
    then have c1: "c1 = c" and notin: "key \<notin> fst ` set es"
      using "2.prems"(1,2) by (auto intro: rev_image_eqI)
    have rest: "\<forall>(k, c') \<in> set es. c_state c' = Closed \<longrightarrow>
        now - last_used c' \<le> idle_ttl cb \<and> last_used c < last_used c'"
      using "2.prems"(7) notin by (force intro: rev_image_eqI)
    show ?thesis
      using "2.prems"(3-7) True c1 evict_pass1_lru_kept [OF \<open>key \<noteq> []\<close> rest] by auto
  next
    case False
    then have m: "(key, c) \<in> set es" using "2.prems"(2) by auto
    have c1: "c_state c1 = Closed \<Longrightarrow> now - last_used c1 \<le> idle_ttl cb \<and> last_used c < last_used c1"
      using "2.prems"(7) False by auto
    show ?thesis
      using "2.IH" "2.prems" m c1 by auto
  qed
qed simp

text \<open>At the cap, looking up the least recently used circuit evicts that very circuit.\<close>

lemma get_or_create_full_lru:
  assumes inv: "breaker_inv cb" and full: "int (length (circuits cb)) = max_circuits cb"
    and c: "map_of (circuits cb) key = Some c" and cl: "c_state c = Closed" and k: "key \<noteq> []"
    and lru: "\<forall>(k', c') \<in> set (circuits cb). c_state c' = Closed \<longrightarrow> now - last_used c' \<le> idle_ttl cb
      \<and> (k' \<noteq> key \<longrightarrow> last_used c < last_used c')"
  shows "fst (get_or_create now key cb) = new_circuit now"
proof -
  let ?p = "prune_expired_locks now cb"
  have p: "circuits ?p = circuits cb" "idle_ttl ?p = idle_ttl cb" "max_circuits ?p = max_circuits cb"
    by (simp_all add: prune_expired_locks_def)
  have d: "gomap_ok (circuits cb)" using breaker_invD [OF inv] by simp
  have "circuit_ok cb key c"
    using inv c by (simp add: breaker_inv_def breaker_ok_def all_entries_def)
  then have "half_open_inflight c = 0" using cl by (simp add: circuit_ok_def)
  then have e: "evict_pass1 now (circuits cb) [] zero_time ?p = (key, ?p)"
    using d c cl k lru by (intro evict_pass1_lru) (auto simp: p)
  have "map_of (circuits (evict_for_capacity now cb)) key = None"
    using full k by (simp add: evict_for_capacity_def Let_def p e map_of_del)
  then show ?thesis by (simp add: get_or_create_def Let_def)
qed

subsection \<open>Model locks\<close>

lemma apply_model_lock_until:
  "get_model_lock_until m (apply_model_lock key d now cb) =
     (if should_lock d \<and> m = key then max (now + dec_cooldown d) (get_model_lock_until m cb)
      else get_model_lock_until m cb)"
  by (simp add: apply_model_lock_def get_model_lock_until_def Let_def split_beta max_def)

lemma store_locks [simp]: "model_locks (store k c cb) = model_locks cb"
  by (simp add: store_def)

lemma get_model_lock_until_frame [simp]:
  "get_model_lock_until m (store k c cb) = get_model_lock_until m cb"
  "get_model_lock_until m (snd (set_state now k s c cb)) = get_model_lock_until m cb"
  by (simp_all add: get_model_lock_until_def)

lemma record_failure_with_status_locks:
  fixes t r key status body cb
  defines "res \<equiv> record_failure_with_status t r key status body cb"
  assumes "int (length (circuits cb)) < max_circuits cb"
  shows "get_model_lock_until m (snd res) =
     (if should_lock (fst res) \<and> m = key
      then max (t_now t + dec_cooldown (fst res)) (get_model_lock_until m cb)
      else get_model_lock_until m cb)"
proof -
  have g: "model_locks (snd (get_or_create now key cb)) = model_locks cb" for now
    by (simp add: get_or_create_def Let_def no_evict [OF assms(2)])
  have l: "get_model_lock_until m (snd (get_or_create now key cb)) = get_model_lock_until m cb" for now m
    by (simp add: get_model_lock_until_def g)
  show ?thesis
    unfolding res_def
    by (auto simp: record_failure_with_status_def Let_def split_beta apply_model_lock_until l
        split: cstate.split)
qed

subsection \<open>Properties\<close>

text \<open>Concrete values for the witnesses: a clock at second \<open>n\<close>, a breaker that trips at two failures.\<close>

definition at_second :: "int \<Rightarrow> clock" where
  "at_second n = \<lparr>t_get = n * second, t_now = n * second, t_set = n * second\<rparr>"

definition example_breaker :: breaker where
  "example_breaker = new_circuit_breaker 2 1 1 (60 * second) True"

definition example_tripped :: breaker where
  "example_tripped = fail_run [at_second 1, at_second 2] ''k'' example_breaker"

definition example_probing :: breaker where
  "example_probing = cb_step example_tripped (OpAllow (at_second 100) ''k'')"

lemma example_inv: "breaker_inv example_breaker"
  by (simp add: example_breaker_def new_circuit_breaker_inv)

lemma fail_run_inv: "breaker_inv cb \<Longrightarrow> breaker_inv (fail_run ts key cb)"
  unfolding fail_run_def by (induction ts arbitrary: cb) (auto intro: record_failure_inv)

lemma example_tripped_inv: "breaker_inv example_tripped"
  by (simp add: example_tripped_def fail_run_inv example_inv)

lemma example_probing_inv: "breaker_inv example_probing"
  by (simp only: example_probing_def cb_step_inv example_tripped_inv)



text \<open>
  C12: The state-change callbacks tell the truth. Replaying the calls that \<^verbatim>\<open>onStateChange\<close>
  received for a key, from Closed, never meets an illegal transition or a gap, and ends in the
  state the registry holds for the key (an absent key counting as Closed): eviction never
  silently drops a circuit that is Open or HalfOpen.
\<close>

theorem callback_log_replays:
  assumes "ft < 2 ^ 32" and "st < 2 ^ 32"
  shows "replay key Closed (events (run_ops cb_step (new_circuit_breaker ft st hom cd True) xs))
    = Some (cur_state key (run_ops cb_step (new_circuit_breaker ft st hom cd True) xs))"
proof -
  let ?cb = "run_ops cb_step (new_circuit_breaker ft st hom cd True) xs"
  have keep: "has_on_state_change (cb_step cb x) = has_on_state_change cb" for cb x
    using get_or_create_same_config
    by (cases x) (auto simp: same_config_def allow_def record_failure_def record_opaque_failure_def
      record_failure_with_status_def record_success_def record_success_with_model_def
      record_success_clearing_def release_half_open_def force_open_def peek_def unlock_model_def
      set_registry_limits_def set_min_quota_cooldown_def set_state_def store_def Let_def split_beta
      split: cstate.split option.split)
  have "has_on_state_change (run_ops cb_step cb xs) = has_on_state_change cb" for cb
    by (induction xs arbitrary: cb) (auto simp: keep)
  then have "has_on_state_change ?cb" by (simp add: new_circuit_breaker_def Let_def)
  then show ?thesis
    using breaker.run_inv [OF new_circuit_breaker_inv [OF assms]]
    by (simp add: breaker_inv_def log_ok_def)
qed

theorem callback_log_replays_witness:
  "replay ''k'' Closed (events (run_ops cb_step (new_circuit_breaker 2 1 1 (60 * second) True)
      [OpFailure (at_second 1) ''k'' [], OpFailure (at_second 2) ''k'' []]))
    = Some (cur_state ''k'' (run_ops cb_step (new_circuit_breaker 2 1 1 (60 * second) True)
      [OpFailure (at_second 1) ''k'' [], OpFailure (at_second 2) ''k'' []]))"
  by (rule callback_log_replays) simp_all

text \<open>
  C13: A fresh circuit trips at exactly its failure threshold. Starting from a registry with
  room and without the key, any number of consecutive \<^verbatim>\<open>RecordFailure\<close> calls below the
  threshold leaves the circuit Closed, and the threshold-th call opens it.
\<close>

theorem trips_exactly_at_threshold:
  assumes "breaker_inv cb" and "map_of (circuits cb) key = None"
    and "int (length (circuits cb)) + 1 < max_circuits cb"
    and "length ts \<le> unat (fst (thresholds_for cb key))"
  shows "cur_state key (fail_run ts key cb)
    = (if length ts < unat (fst (thresholds_for cb key)) then Closed else Open)"
  using fail_run_counts [OF assms(2,3), of ts] fail_run_trips [OF assms(1-3), of ts] assms(4) by auto

theorem trips_exactly_at_threshold_witness:
  "cur_state ''k'' (fail_run [at_second 1] ''k'' example_breaker) = Closed
    \<and> cur_state ''k'' (fail_run [at_second 1, at_second 2] ''k'' example_breaker) = Open"
proof -
  have h: "map_of (circuits example_breaker) ''k'' = None"
    "int (length (circuits example_breaker)) + 1 < max_circuits example_breaker"
    "unat (fst (thresholds_for example_breaker ''k'')) = 2" by code_simp+
  show ?thesis
    using trips_exactly_at_threshold [OF example_inv h(1,2), of "[at_second 1]"]
      trips_exactly_at_threshold [OF example_inv h(1,2), of "[at_second 1, at_second 2]"] h(3)
    by simp
qed

text \<open>
  C14: A HalfOpen circuit admits exactly the probes it has room for: of any number of \<^verbatim>\<open>Allow\<close>
  calls in a row, at any times, as many return true as \<^verbatim>\<open>halfOpenMaxRequests\<close> exceeds the
  probes in flight, and no more.
\<close>

theorem half_open_admits_exactly:
  assumes "breaker_inv cb" and "map_of (circuits cb) key = Some c" and "c_state c = HalfOpen"
  shows "length (filter (\<lambda>b. b) (fst (allow_run ts key cb)))
    = min (length ts) (unat (half_open_max_requests cb) - unat (half_open_inflight c))"
  using assms by (rule allow_run_half_open)

theorem half_open_admits_exactly_witness:
  "length (filter (\<lambda>b. b) (fst (allow_run [at_second 101, at_second 102] ''k'' example_probing))) = 0"
proof -
  have h: "map_option (\<lambda>c. (c_state c, half_open_inflight c)) (map_of (circuits example_probing) ''k'')
      = Some (HalfOpen, 1)" "half_open_max_requests example_probing = 1" by code_simp+
  then obtain c where "map_of (circuits example_probing) ''k'' = Some c" "c_state c = HalfOpen"
    "half_open_inflight c = 1" by auto
  then show ?thesis
    using half_open_admits_exactly [OF example_probing_inv, of "''k''" c "[at_second 101, at_second 102]"] h(2)
    by simp
qed

text \<open>
  Deadlines only extend. Whatever operation runs next, on whatever key, a circuit that is
  Open is still in the registry afterwards, and it is either HalfOpen or still Open with a
  deadline no earlier than before.
\<close>

theorem open_deadline_only_extends:
  assumes "breaker_inv cb" and "map_of (circuits cb) key = Some c" and "c_state c = Open"
  shows "\<exists>c'. map_of (circuits (cb_step cb x)) key = Some c'
    \<and> (c_state c' = HalfOpen \<or> (c_state c' = Open \<and> expiry c \<le> expiry c'))"
  using step_open_extends [OF assms] by (simp add: open_extends_def)

theorem open_deadline_only_extends_witness:
  "\<exists>c c'. map_of (circuits example_tripped) ''k'' = Some c
    \<and> map_of (circuits (cb_step example_tripped (OpForce (at_second 3) ''k'' (1 * second)))) ''k'' = Some c'
    \<and> (c_state c' = HalfOpen \<or> (c_state c' = Open \<and> expiry c \<le> expiry c'))"
proof -
  have "map_option c_state (map_of (circuits example_tripped) ''k'') = Some Open" by code_simp
  then obtain c where c: "map_of (circuits example_tripped) ''k'' = Some c" "c_state c = Open" by auto
  show ?thesis
    using open_deadline_only_extends [OF example_tripped_inv c] c(1) by blast
qed

text \<open>
  \<^verbatim>\<open>Peek\<close> answers what \<^verbatim>\<open>Allow\<close> would answer at the same clock readings, in every state of
  the registry, and changes the state of no key.
\<close>

theorem peek_agrees_with_allow:
  "fst (peek t key cb) = fst (allow t key cb)
    \<and> (gomap_ok (circuits cb) \<longrightarrow> cur_state k (snd (peek t key cb)) = cur_state k cb)"
  by (auto simp: peek_def allow_def split_beta Let_def not_le get_or_create_cur_state split: cstate.split)

theorem peek_agrees_with_allow_witness:
  "fst (peek (at_second 3) ''k'' example_tripped) = fst (allow (at_second 3) ''k'' example_tripped)
    \<and> cur_state ''k'' (snd (peek (at_second 3) ''k'' example_tripped)) = cur_state ''k'' example_tripped"
  using peek_agrees_with_allow [of "at_second 3" "''k''" example_tripped "''k''"]
    breaker_invD [OF example_tripped_inv] by simp

text \<open>
  Model locks only extend. While the registry has room, a failure recorded with a status
  never moves any model's lock earlier; when the decision locks, the key is locked at every
  instant before the end of the cooldown it returns, and no other model's lock changes.
\<close>

theorem model_lock_only_extends:
  assumes "int (length (circuits cb)) < max_circuits cb"
    and "record_failure_with_status t r key status body cb = (d, cb')"
  shows "get_model_lock_until m cb \<le> get_model_lock_until m cb'
    \<and> (m \<noteq> key \<longrightarrow> get_model_lock_until m cb' = get_model_lock_until m cb)
    \<and> (should_lock d \<longrightarrow> zero_time \<le> u \<longrightarrow> u < t_now t + dec_cooldown d \<longrightarrow> is_model_locked u key cb')"
proof -
  note l = record_failure_with_status_locks [OF assms(1), of _ t r key status body,
      unfolded assms(2) fst_conv snd_conv]
  have "is_model_locked u key cb'" if "should_lock d" "zero_time \<le> u" "u < t_now t + dec_cooldown d"
  proof -
    have "u < get_model_lock_until key cb'" using that by (simp add: l)
    with that(2) show ?thesis
      by (simp add: get_model_lock_until_def is_model_locked_def get_or_def split: option.splits)
  qed
  then show ?thesis by (simp add: l)
qed

theorem model_lock_only_extends_witness:
  "is_model_locked (30 * second) ''k''
    (snd (record_failure_with_status (at_second 3) 0 ''k'' 401 ''denied'' example_breaker))"
proof -
  have h: "int (length (circuits example_breaker)) < max_circuits example_breaker"
    "should_lock (fst (record_failure_with_status (at_second 3) 0 ''k'' 401 ''denied'' example_breaker))"
    "zero_time \<le> 30 * second"
    "30 * second < t_now (at_second 3)
      + dec_cooldown (fst (record_failure_with_status (at_second 3) 0 ''k'' 401 ''denied'' example_breaker))"
    by code_simp+
  show ?thesis
    using model_lock_only_extends [OF h(1) prod.collapse [symmetric], of "''k''" "at_second 3" 0 "''k''"
        401 "''denied''" "30 * second"] h(2-4)
    by blast
qed

text \<open>
  What the bound of the registry costs. With the registry at its cap and no circuit idle
  past the TTL, a \<^verbatim>\<open>RecordFailure\<close> for the least recently used Closed circuit evicts that
  circuit before counting: although the key is present and no room is needed, its failure
  history is lost and the failure counts as the first, so with a threshold above one it does
  not trip, however many failures came before.
\<close>

theorem full_registry_forgets_lru:
  assumes "breaker_inv cb" and "int (length (circuits cb)) = max_circuits cb"
    and "map_of (circuits cb) key = Some c" and "c_state c = Closed" and "key \<noteq> []"
    and "\<forall>(k', c') \<in> set (circuits cb). c_state c' = Closed \<longrightarrow>
      t_get t - last_used c' \<le> idle_ttl cb \<and> (k' \<noteq> key \<longrightarrow> last_used c < last_used c')"
    and "1 < fst (thresholds_for cb key)"
  shows "\<exists>c'. map_of (circuits (record_failure t key ov cb)) key = Some c' \<and> c_state c' = Closed
    \<and> consecutive_failures (c_counts c') = 1"
proof -
  obtain c1 cb1 where g: "get_or_create (t_get t) key cb = (c1, cb1)" by force
  have c1: "c1 = new_circuit (t_get t)" using get_or_create_full_lru [OF assms(1-6)] g by simp
  have "thresholds_for cb1 = thresholds_for cb"
    using get_or_create_same_config [of cb "t_get t" key] g by (simp add: same_config_def)
  moreover have "inc_u32 0 = 1" by (simp add: inc_u32_def max_u32_def)
  moreover have "(fst (thresholds_for cb key) \<le> 1) = False" using assms(7) by (simp only: not_le [symmetric])
  ultimately show ?thesis
    by (simp del: not_le add: record_failure_def g c1 new_circuit_def zero_counts_def count_failure_def Let_def)
qed

text \<open>Two keys in a registry of two, used in turn: no number of failures opens either.\<close>

definition crowded :: breaker where
  "crowded = cb_step (fail_run [at_second 1] ''a'' (set_registry_limits 2 0 example_breaker))
     (OpFailure (at_second 2) ''b'' [])"

theorem full_registry_forgets_lru_witness:
  "\<exists>c'. map_of (circuits (record_failure (at_second 3) ''a'' [] crowded)) ''a'' = Some c'
    \<and> c_state c' = Closed \<and> consecutive_failures (c_counts c') = 1"
proof -
  have inv: "breaker_inv crowded"
    by (simp only: crowded_def cb_step_inv fail_run_inv set_registry_limits_inv example_inv)
  have h: "int (length (circuits crowded)) = max_circuits crowded"
    "map_option (\<lambda>c. (c_state c, last_used c, consecutive_failures (c_counts c)))
       (map_of (circuits crowded) ''a'') = Some (Closed, 1000000000, 1)"
    "map (\<lambda>(k, c). (k, last_used c)) (circuits crowded) = [(''a'', 1000000000), (''b'', 2000000000)]"
    "t_get (at_second 3) = 3000000000" "idle_ttl crowded = 600000000000"
    "1 < fst (thresholds_for crowded ''a'')" by code_simp+
  obtain c where c: "map_of (circuits crowded) ''a'' = Some c" "c_state c = Closed" "last_used c = 1000000000"
    using h(2) by auto
  obtain x y where xy: "circuits crowded = [(''a'', x), (''b'', y)]"
    "last_used x = 1000000000" "last_used y = 2000000000" using h(3) by auto
  show ?thesis
    by (rule full_registry_forgets_lru [OF inv h(1) c(1,2) _ _ h(6)])
      (use c xy h(4,5) in auto)
qed

end
