(* ===== verification/RateLimit.thy ===== *)
theory RateLimit
  imports Prelude
begin

text \<open>
  internal/infra/ratelimit.go: token buckets per provider (or upstream host) for requests and
  tokens per minute, and the registry that bounds them. Each bucket is read and written under
  its own mutex and the registry under another, so \<open>check_detailed\<close> is a bucket lookup followed
  by a bucket update. Bucket levels are exact rationals (the code: \<^verbatim>\<open>float64\<close>). The host part of
  a URL is \<^verbatim>\<open>net/url\<close>'s, a parameter \<open>host_of\<close>: \<open>None\<close> when parsing fails.
\<close>

subsection \<open>State\<close>

record rl_bucket =
  rpm_bucket :: rat
  tpm_bucket :: rat
  b_max_rpm :: int
  b_max_tpm :: int
  last_refill :: time

record provider_limits =
  pl_max_rpm :: int
  pl_max_tpm :: int

record rate_limiter =
  rl_limits :: "(string, rl_bucket) gomap"
  provider_limits_map :: "(string, provider_limits) gomap"
  rl_max_rpm :: int
  rl_max_tpm :: int
  max_hosts :: int

record rl_rejection =
  dimension :: string
  rej_limit :: int
  bucket_left :: rat
  token_count :: int

definition max_rate_limit_hosts :: int where "max_rate_limit_hosts = 100"
definition stale_host_threshold :: duration where "stale_host_threshold = 5 * minute"

definition no_rejection :: rl_rejection where
  "no_rejection = \<lparr>dimension = [], rej_limit = 0, bucket_left = 0, token_count = 0\<rparr>"

definition new_rate_limiter :: "int \<Rightarrow> int \<Rightarrow> rate_limiter" where
  "new_rate_limiter max_rpm max_tpm = \<lparr>rl_limits = [], provider_limits_map = [],
     rl_max_rpm = max_rpm, rl_max_tpm = max_tpm, max_hosts = max_rate_limit_hosts\<rparr>"

subsection \<open>One bucket\<close>

definition seconds_since :: "time \<Rightarrow> rl_bucket \<Rightarrow> rat" where
  "seconds_since now b = rat_of_int (now - last_refill b) / 1000000000"

definition refill :: "time \<Rightarrow> rl_bucket \<Rightarrow> rl_bucket" where
  "refill now b =
     (let elapsed = seconds_since now b;
          b = (if b_max_rpm b > 0
               then b\<lparr>rpm_bucket := min (rat_of_int (b_max_rpm b))
                        (rpm_bucket b + elapsed * rat_of_int (b_max_rpm b) / 60)\<rparr> else b)
      in if b_max_tpm b > 0
         then b\<lparr>tpm_bucket := min (rat_of_int (b_max_tpm b))
                  (tpm_bucket b + elapsed * rat_of_int (b_max_tpm b) / 60)\<rparr> else b)"

definition bucket_check :: "time \<Rightarrow> int \<Rightarrow> rl_bucket \<Rightarrow> bool \<times> rl_rejection \<times> rl_bucket" where
  "bucket_check now tokens b =
     (let b = refill now b in
      if b_max_rpm b > 0 \<and> rpm_bucket b < 1 then
        (False, \<lparr>dimension = ''rpm'', rej_limit = b_max_rpm b, bucket_left = rpm_bucket b,
                 token_count = tokens\<rparr>, b)
      else if b_max_tpm b > 0 \<and> tpm_bucket b < rat_of_int tokens
              \<and> rat_of_int tokens < rat_of_int (b_max_tpm b) then
        (False, \<lparr>dimension = ''tpm'', rej_limit = b_max_tpm b, bucket_left = tpm_bucket b,
                 token_count = tokens\<rparr>, b)
      else
        let b = (if b_max_rpm b > 0 then b\<lparr>rpm_bucket := rpm_bucket b - 1\<rparr> else b);
            b = (if b_max_tpm b > 0
                 then b\<lparr>tpm_bucket := max 0 (tpm_bucket b - rat_of_int tokens)\<rparr> else b)
        in (True, no_rejection, b\<lparr>last_refill := now\<rparr>))"

subsection \<open>The registry\<close>

definition bucket_key :: "(string \<Rightarrow> string option) \<Rightarrow> string \<Rightarrow> string \<Rightarrow> string" where
  "bucket_key host_of provider url =
     (if provider \<noteq> [] then provider
      else case host_of url of
        Some h \<Rightarrow> (if h \<noteq> [] then h else url)
      | None \<Rightarrow> url)"

definition effective_limits :: "rate_limiter \<Rightarrow> string \<Rightarrow> int \<times> int" where
  "effective_limits rl host = (case map_of (provider_limits_map rl) host of
     Some pl \<Rightarrow> (max 0 (pl_max_rpm pl), max 0 (pl_max_tpm pl))
   | None \<Rightarrow> (rl_max_rpm rl, rl_max_tpm rl))"

definition evict_stale :: "time \<Rightarrow> rate_limiter \<Rightarrow> rate_limiter" where
  "evict_stale now rl =
     rl\<lparr>rl_limits := filter (\<lambda>(host, l). \<not> now - last_refill l > stale_host_threshold) (rl_limits rl)\<rparr>"

definition new_bucket :: "time \<Rightarrow> int \<Rightarrow> int \<Rightarrow> rl_bucket" where
  "new_bucket now rpm tpm = \<lparr>rpm_bucket = rat_of_int rpm, tpm_bucket = rat_of_int tpm,
     b_max_rpm = rpm, b_max_tpm = tpm, last_refill = now\<rparr>"

text \<open>\<open>t_evict\<close> is the clock reading of the eviction, \<open>t_create\<close> that of a new bucket.\<close>

definition get_or_create_bucket ::
  "time \<Rightarrow> time \<Rightarrow> string \<Rightarrow> rate_limiter \<Rightarrow> rl_bucket option \<times> rate_limiter" where
  "get_or_create_bucket t_evict t_create host rl = (case map_of (rl_limits rl) host of
     Some l \<Rightarrow> (Some l, rl)
   | None \<Rightarrow>
       (let rl = (if int (length (rl_limits rl)) \<ge> max_hosts rl then evict_stale t_evict rl else rl)
        in if int (length (rl_limits rl)) \<ge> max_hosts rl then (None, rl)
           else
             let (rpm, tpm) = effective_limits rl host; l = new_bucket t_create rpm tpm
             in (Some l, rl\<lparr>rl_limits := put host l (rl_limits rl)\<rparr>)))"

definition check_detailed :: "(string \<Rightarrow> string option) \<Rightarrow> time \<Rightarrow> time \<Rightarrow> time \<Rightarrow> string \<Rightarrow> string
  \<Rightarrow> int \<Rightarrow> rate_limiter \<Rightarrow> bool \<times> rl_rejection \<times> rate_limiter" where
  "check_detailed host_of t_evict t_create now provider url tokens rl =
     (let host = bucket_key host_of provider url in
      case get_or_create_bucket t_evict t_create host rl of
        (None, rl) \<Rightarrow>
          (False, \<lparr>dimension = ''bucket_capacity'', rej_limit = 0, bucket_left = 0,
                   token_count = tokens\<rparr>, rl)
      | (Some l, rl) \<Rightarrow>
          (let (ok, rej, l) = bucket_check now tokens l
           in (ok, rej, rl\<lparr>rl_limits := put host l (rl_limits rl)\<rparr>)))"

definition rl_check :: "(string \<Rightarrow> string option) \<Rightarrow> time \<Rightarrow> time \<Rightarrow> time \<Rightarrow> string \<Rightarrow> string
  \<Rightarrow> int \<Rightarrow> rate_limiter \<Rightarrow> bool \<times> rate_limiter" where
  "rl_check host_of t_evict t_create now provider url tokens rl =
     (let (ok, _, rl) = check_detailed host_of t_evict t_create now provider url tokens rl in (ok, rl))"

definition set_provider_limits :: "string \<Rightarrow> provider_limits \<Rightarrow> rate_limiter \<Rightarrow> rate_limiter" where
  "set_provider_limits provider limits rl =
     (let limits = \<lparr>pl_max_rpm = max 0 (pl_max_rpm limits), pl_max_tpm = max 0 (pl_max_tpm limits)\<rparr>;
          rl = rl\<lparr>provider_limits_map := put provider limits (provider_limits_map rl)\<rparr>
      in case map_of (rl_limits rl) provider of
           None \<Rightarrow> rl
         | Some l \<Rightarrow> rl\<lparr>rl_limits := put provider
             (l\<lparr>b_max_rpm := pl_max_rpm limits, b_max_tpm := pl_max_tpm limits\<rparr>) (rl_limits rl)\<rparr>)"

definition rl_snapshot :: "rate_limiter \<Rightarrow> (string, rat \<times> rat) gomap" where
  "rl_snapshot rl = map (\<lambda>(host, l). (host, (rpm_bucket l, tpm_bucket l))) (rl_limits rl)"

subsection \<open>Bucket lemmas\<close>

definition bucket_ok :: "rl_bucket \<Rightarrow> bool" where
  "bucket_ok b \<longleftrightarrow> (b_max_rpm b > 0 \<longrightarrow> 0 \<le> rpm_bucket b) \<and> (b_max_tpm b > 0 \<longrightarrow> 0 \<le> tpm_bucket b)"

lemma refill_frame [simp]:
  "b_max_rpm (refill now b) = b_max_rpm b" "b_max_tpm (refill now b) = b_max_tpm b"
  "last_refill (refill now b) = last_refill b"
  by (simp_all add: refill_def Let_def)

lemma refill_rpm: "b_max_rpm b > 0 \<Longrightarrow> rpm_bucket (refill now b) =
    min (rat_of_int (b_max_rpm b)) (rpm_bucket b + seconds_since now b * rat_of_int (b_max_rpm b) / 60)"
  by (simp add: refill_def Let_def)

lemma refill_tpm: "b_max_tpm b > 0 \<Longrightarrow> tpm_bucket (refill now b) =
    min (rat_of_int (b_max_tpm b)) (tpm_bucket b + seconds_since now b * rat_of_int (b_max_tpm b) / 60)"
  by (simp add: refill_def Let_def seconds_since_def)

lemma seconds_since_nonneg: "last_refill b \<le> now \<Longrightarrow> 0 \<le> seconds_since now b"
  by (simp add: seconds_since_def)

lemma bucket_ok_refill: "bucket_ok b \<Longrightarrow> last_refill b \<le> now \<Longrightarrow> bucket_ok (refill now b)"
  using seconds_since_nonneg [of b now]
  by (auto simp: bucket_ok_def refill_rpm refill_tpm)

lemma bucket_check_ok:
  "bucket_ok b \<Longrightarrow> last_refill b \<le> now \<Longrightarrow> bucket_ok (snd (snd (bucket_check now n b)))"
  using bucket_ok_refill [of b now]
  by (auto simp: bucket_check_def Let_def bucket_ok_def)

lemma bucket_check_frame:
  "b_max_rpm (snd (snd (bucket_check now n b))) = b_max_rpm b"
  "b_max_tpm (snd (snd (bucket_check now n b))) = b_max_tpm b"
  by (simp_all add: bucket_check_def Let_def)

text \<open>An admission takes one request and restarts the refill clock; a rejection does neither.\<close>

lemma bucket_check_admit:
  assumes "fst (bucket_check now n b)" "b_max_rpm b > 0"
  shows "last_refill (snd (snd (bucket_check now n b))) = now"
    and "rpm_bucket (snd (snd (bucket_check now n b))) = rpm_bucket (refill now b) - 1"
    and "1 \<le> rpm_bucket (refill now b)"
  using assms by (auto simp: bucket_check_def Let_def split: if_splits)

lemma bucket_check_reject:
  assumes "\<not> fst (bucket_check now n b)"
  shows "snd (snd (bucket_check now n b)) = refill now b"
  using assms by (auto simp: bucket_check_def Let_def split: if_splits)

text \<open>A run of checks on one bucket: the instants with the token estimates.\<close>

fun check_run :: "(time \<times> int) list \<Rightarrow> rl_bucket \<Rightarrow> bool list \<times> rl_bucket" where
  "check_run [] b = ([], b)"
| "check_run ((now, n) # xs) b =
     (let (ok, _, b) = bucket_check now n b; (oks, b) = check_run xs b in (ok # oks, b))"

fun times_from :: "time \<Rightarrow> (time \<times> int) list \<Rightarrow> bool" where
  "times_from t [] = True"
| "times_from t ((now, n) # xs) = (t \<le> now \<and> times_from now xs)"

definition last_time :: "time \<Rightarrow> (time \<times> int) list \<Rightarrow> time" where
  "last_time t xs = (if xs = [] then t else fst (last xs))"

lemma all_admitted_bound:
  assumes "b_max_rpm b > 0" "bucket_ok b" "times_from (last_refill b) xs"
    and "\<forall>ok \<in> set (fst (check_run xs b)). ok"
  shows "rat_of_nat (length xs)
    \<le> rpm_bucket b + seconds_since (last_time (last_refill b) xs) b * rat_of_int (b_max_rpm b) / 60"
  using assms
proof (induction xs arbitrary: b)
  case Nil
  then show ?case by (simp add: last_time_def seconds_since_def bucket_ok_def)
next
  case (Cons x xs)
  obtain now n where x: "x = (now, n)" by force
  let ?r = "bucket_check now n b" and ?b = "snd (snd (bucket_check now n b))"
  have adm: "fst ?r" and rest: "\<forall>ok \<in> set (fst (check_run xs ?b)). ok"
    using Cons.prems(4) by (auto simp: x split_beta Let_def)
  have t: "last_refill b \<le> now" "times_from now xs" using Cons.prems(3) by (auto simp: x)
  note a = bucket_check_admit [OF adm Cons.prems(1)]
  have ok: "bucket_ok ?b" by (rule bucket_check_ok [OF Cons.prems(2) t(1)])
  have m: "b_max_rpm ?b = b_max_rpm b" by (rule bucket_check_frame)
  have IH: "rat_of_nat (length xs)
      \<le> rpm_bucket ?b + seconds_since (last_time now xs) ?b * rat_of_int (b_max_rpm b) / 60"
    using Cons.IH [of ?b] Cons.prems(1) ok m t(2) rest by (simp add: a(1))
  have last: "last_time (last_refill b) (x # xs) = last_time now xs"
    by (simp add: last_time_def x)
  have "rpm_bucket ?b \<le> rpm_bucket b + seconds_since now b * rat_of_int (b_max_rpm b) / 60 - 1"
    using a(2) Cons.prems(1) by (simp add: refill_rpm)
  moreover have "seconds_since (last_time now xs) ?b + seconds_since now b
      = seconds_since (last_time now xs) b"
    by (simp add: seconds_since_def a(1) field_simps)
  then have "seconds_since now b * rat_of_int (b_max_rpm b) / 60
      + seconds_since (last_time now xs) ?b * rat_of_int (b_max_rpm b) / 60
      = seconds_since (last_time now xs) b * rat_of_int (b_max_rpm b) / 60"
    by (metis add.commute add_divide_distrib distrib_right)
  ultimately show ?case using IH by (simp add: last)
qed

subsection \<open>The registry is bounded\<close>

definition limiter_ok :: "rate_limiter \<Rightarrow> bool" where
  "limiter_ok rl \<longleftrightarrow> gomap_ok (rl_limits rl) \<and> int (length (rl_limits rl)) \<le> max_hosts rl"

lemma evict_stale_ok: "limiter_ok rl \<Longrightarrow> limiter_ok (evict_stale now rl)"
  by (auto simp: limiter_ok_def evict_stale_def distinct_map_filter
      intro: order_trans [OF of_nat_mono [OF length_filter_le]])

lemma get_or_create_bucket_ok:
  "limiter_ok rl \<Longrightarrow> limiter_ok (snd (get_or_create_bucket te tc host rl))"
  using evict_stale_ok [of rl te]
  by (auto simp: get_or_create_bucket_def Let_def limiter_ok_def length_put split_beta
      split: option.split)

lemma get_or_create_bucket_stored:
  "get_or_create_bucket te tc host rl = (Some l, rl') \<Longrightarrow> map_of (rl_limits rl') host = Some l"
  by (auto simp: get_or_create_bucket_def Let_def map_of_put split_beta split: option.splits if_splits)

lemma check_detailed_ok:
  assumes "limiter_ok rl"
  shows "limiter_ok (snd (snd (check_detailed h te tc now p u n rl)))"
proof -
  let ?host = "bucket_key h p u"
  obtain o' rl' where g: "get_or_create_bucket te tc ?host rl = (o', rl')" by force
  have ok: "limiter_ok rl'" using get_or_create_bucket_ok [OF assms, of te tc ?host] g by simp
  show ?thesis
  proof (cases o')
    case None
    then show ?thesis using g ok by (simp add: check_detailed_def)
  next
    case (Some l)
    then have "map_of (rl_limits rl') ?host = Some l" using g get_or_create_bucket_stored by blast
    then show ?thesis using g ok Some by (simp add: check_detailed_def limiter_ok_def split_beta)
  qed
qed

lemma set_provider_limits_ok: "limiter_ok rl \<Longrightarrow> limiter_ok (set_provider_limits p l rl)"
  by (auto simp: set_provider_limits_def Let_def limiter_ok_def split: option.split)

datatype rl_op = RlCheck time time time string string int | RlSet string provider_limits

fun rl_step :: "(string \<Rightarrow> string option) \<Rightarrow> rate_limiter \<Rightarrow> rl_op \<Rightarrow> rate_limiter" where
  "rl_step h rl (RlCheck te tc now p u n) = snd (snd (check_detailed h te tc now p u n rl))"
| "rl_step h rl (RlSet p l) = set_provider_limits p l rl"

interpretation limiter: machine "rl_step h" limiter_ok for h
  by unfold_locales (metis rl_step.simps check_detailed_ok set_provider_limits_ok rl_op.exhaust)

lemma new_rate_limiter_ok: "limiter_ok (new_rate_limiter a b)"
  by (simp add: limiter_ok_def new_rate_limiter_def max_rate_limit_hosts_def)

lemma max_hosts_step: "max_hosts (rl_step h rl x) = max_hosts rl"
  by (cases x) (auto simp: check_detailed_def get_or_create_bucket_def set_provider_limits_def
      evict_stale_def Let_def split_beta split: option.split)

subsection \<open>Properties\<close>

text \<open>
  C21: Requests admitted back to back on one bucket respect the token-bucket law: at most the
  initial level plus the requests per minute earned between the last refill and the last
  admission. This holds for runs in which every check was admitted.
\<close>

theorem admitted_burst_bound:
  assumes "b_max_rpm b > 0" and "0 \<le> rpm_bucket b" and "b_max_tpm b > 0 \<longrightarrow> 0 \<le> tpm_bucket b"
    and "times_from (last_refill b) xs" and "list_all (\<lambda>ok. ok) (fst (check_run xs b))"
  shows "rat_of_nat (length xs)
    \<le> rpm_bucket b + seconds_since (last_time (last_refill b) xs) b * rat_of_int (b_max_rpm b) / 60"
  using all_admitted_bound [of b xs] assms by (simp add: bucket_ok_def list_all_iff)

theorem admitted_burst_bound_witness:
  "rat_of_nat 2 \<le> rpm_bucket (new_bucket 0 60 0)
    + seconds_since (1 * second) (new_bucket 0 60 0) * rat_of_int (b_max_rpm (new_bucket 0 60 0)) / 60"
  using admitted_burst_bound [of "new_bucket 0 60 0" "[(0, 5), (1 * second, 5)]"]
  by (simp add: new_bucket_def bucket_check_def refill_def seconds_since_def second_def Let_def
      no_rejection_def last_time_def)

text \<open>
  A rejected check credits the bucket without restarting its refill clock, so the same
  elapsed time is credited again at the next check: after a rejection at \<open>t1\<close>, a check at \<open>t2\<close>
  finds (up to the cap) what a single check at \<open>t2\<close> would have found plus everything earned
  until \<open>t1\<close>. Polling a limited provider admits more than its limit.
\<close>

theorem rejection_credits_twice:
  assumes "b_max_rpm b > 0" and "\<not> fst (bucket_check t1 n b)"
  shows "rpm_bucket (refill t2 (snd (snd (bucket_check t1 n b))))
    = min (rat_of_int (b_max_rpm b))
        (min (rat_of_int (b_max_rpm b)) (rpm_bucket b + seconds_since t1 b * rat_of_int (b_max_rpm b) / 60)
          + seconds_since t2 b * rat_of_int (b_max_rpm b) / 60)"
  using assms by (simp add: bucket_check_reject refill_rpm seconds_since_def)

text \<open>
  At 60 requests per minute an empty bucket earns one request per second. Checked only at 0.6
  seconds it rejects; checked at 0.5 and again at 0.6 seconds, it admits.
\<close>

theorem rejection_credits_twice_witness:
  "\<not> fst (bucket_check 600000000 0 ((new_bucket 0 60 0)\<lparr>rpm_bucket := 0\<rparr>))
    \<and> \<not> fst (bucket_check 500000000 0 ((new_bucket 0 60 0)\<lparr>rpm_bucket := 0\<rparr>))
    \<and> fst (bucket_check 600000000 0 (snd (snd (bucket_check 500000000 0 ((new_bucket 0 60 0)\<lparr>rpm_bucket := 0\<rparr>)))))"
proof -
  let ?b = "(new_bucket 0 60 0)\<lparr>rpm_bucket := 0\<rparr>"
  let ?b2 = "snd (snd (bucket_check 500000000 0 ?b))"
  have r: "\<not> fst (bucket_check 500000000 0 ?b)" "\<not> fst (bucket_check 600000000 0 ?b)" "b_max_rpm ?b > 0"
    "seconds_since 500000000 ?b = 1/2" "seconds_since 600000000 ?b = 6/10"
    by (simp_all add: new_bucket_def bucket_check_def refill_def seconds_since_def Let_def)
  have "rpm_bucket (refill 600000000 ?b2) = 11 / 10"
    using rejection_credits_twice [OF r(3,1), of 600000000] r(4,5) by (simp add: new_bucket_def)
  moreover have "b_max_tpm ?b2 = 0" using bucket_check_frame(2) [of 500000000 0 ?b] by (simp add: new_bucket_def)
  ultimately have "fst (bucket_check 600000000 0 ?b2)"
    by (simp add: bucket_check_def Let_def)
  with r show ?thesis by simp
qed

text \<open>
  The registry of buckets never exceeds its cap of 100 hosts, whatever checks and limit
  changes run.
\<close>

theorem rate_limiter_bounded:
  "int (length (rl_limits (run_ops (rl_step h) (new_rate_limiter rpm tpm) xs))) \<le> max_rate_limit_hosts"
proof -
  have "max_hosts (run_ops (rl_step h) rl xs) = max_hosts rl" for rl
    by (induction xs arbitrary: rl) (auto simp: max_hosts_step)
  then have "max_hosts (run_ops (rl_step h) (new_rate_limiter rpm tpm) xs) = max_rate_limit_hosts"
    by (simp add: new_rate_limiter_def)
  then show ?thesis
    using limiter.run_inv [OF new_rate_limiter_ok, of h rpm tpm xs] by (simp add: limiter_ok_def)
qed

end
