(* ===== verification/Concurrency.thy ===== *)
theory Concurrency
  imports Prelude
begin

text \<open>
  internal/infra/concurrency.go: the per-key semaphores. A slot is a buffered channel, here a
  capacity and a token count; slots are shared objects, so the registry maps a key to a slot
  identity and the slots live in a store.

  Part one translates the registry operations as they run under the write lock. Part two is the
  interleaving: \<^verbatim>\<open>Acquire\<close> looks a slot up, sends a token into it without holding the lock,
  and only then checks that the slot is still the registered one; evictions may run between any
  two of these. The steps of all threads form a relation, and the limit is an invariant of it.
\<close>

subsection \<open>The registry under the lock\<close>

record conc_slot =
  slot_cap :: nat
  slot_tokens :: nat
  slot_last_used :: time

definition concurrency_idle_threshold :: duration where
  "concurrency_idle_threshold = 5 * minute"

definition max_concurrency_keys :: nat where
  "max_concurrency_keys = 100"

text \<open>The oldest empty slot, as the second loop of the eviction finds it; the initial bound is \<^verbatim>\<open>math.MaxInt64\<close>.\<close>

fun oldest_empty :: "(string \<times> conc_slot) list \<Rightarrow> time \<Rightarrow> string option \<Rightarrow> string option" where
  "oldest_empty [] oldest found = found"
| "oldest_empty ((k, s) # es) oldest found =
     (if slot_tokens s > 0 then oldest_empty es oldest found
      else if slot_last_used s < oldest then oldest_empty es (slot_last_used s) (Some k)
      else oldest_empty es oldest found)"

definition evict_concurrency_slots :: "time \<Rightarrow> (string, conc_slot) gomap \<Rightarrow> (string, conc_slot) gomap" where
  "evict_concurrency_slots now slots =
     (let slots = filter (\<lambda>(k, s). \<not> (slot_tokens s = 0
                     \<and> now - slot_last_used s > concurrency_idle_threshold)) slots
      in if length slots < max_concurrency_keys then slots
         else case oldest_empty slots (2 ^ 63 - 1) None of
                Some k \<Rightarrow> del k slots
              | None \<Rightarrow> slots)"

definition get_or_create_slot ::
  "time \<Rightarrow> time \<Rightarrow> string \<Rightarrow> nat \<Rightarrow> (string, conc_slot) gomap \<Rightarrow> conc_slot \<times> (string, conc_slot) gomap" where
  "get_or_create_slot t_evict t_new key limit slots = (case map_of slots key of
     Some s \<Rightarrow> (s, slots)
   | None \<Rightarrow>
       (let slots = (if length slots \<ge> max_concurrency_keys
                     then evict_concurrency_slots t_evict slots else slots);
            s = \<lparr>slot_cap = limit, slot_tokens = 0, slot_last_used = t_new\<rparr>
        in (s, put key s slots)))"

definition conc_inflight :: "string \<Rightarrow> (string, conc_slot) gomap \<Rightarrow> nat" where
  "conc_inflight key slots = (case map_of slots key of None \<Rightarrow> 0 | Some s \<Rightarrow> slot_tokens s)"

definition conc_snapshot :: "(string, conc_slot) gomap \<Rightarrow> (string, nat) gomap" where
  "conc_snapshot slots = map (\<lambda>(k, s). (k, slot_tokens s)) slots"

lemma oldest_empty_is_empty:
  "oldest_empty es ou f = Some k \<Longrightarrow> f = Some k \<or> (\<exists>s. (k, s) \<in> set es \<and> slot_tokens s = 0)"
  by (induction es ou f rule: oldest_empty.induct) (auto split: if_splits)

text \<open>Eviction takes empty slots only, whatever their age.\<close>

lemma evict_keeps_inflight:
  assumes "gomap_ok slots" "map_of slots k = Some s" "slot_tokens s > 0"
  shows "map_of (evict_concurrency_slots now slots) k = Some s"
proof -
  let ?live = "\<lambda>(k, s). \<not> (slot_tokens s = 0 \<and> now - slot_last_used s > concurrency_idle_threshold)"
  let ?f = "filter ?live slots"
  have d: "gomap_ok ?f" using assms(1) by (simp add: distinct_map_filter)
  have m: "map_of ?f k = Some s" using assms d by (simp add: split_beta)
  have "k' \<noteq> k" if "oldest_empty ?f (2 ^ 63 - 1) None = Some k'" for k'
    using oldest_empty_is_empty [OF that] m d assms(3) by (auto dest: eq_key_imp_eq_value)
  then show ?thesis
    using m by (auto simp: evict_concurrency_slots_def Let_def map_of_del split: option.split)
qed

text \<open>A present key keeps its slot and the capacity it was created with.\<close>

lemma get_or_create_slot_present:
  "map_of slots key = Some s \<Longrightarrow> get_or_create_slot te tn key limit slots = (s, slots)"
  by (simp add: get_or_create_slot_def)

subsection \<open>Interleaved acquires\<close>

text \<open>
  Where a thread is in \<^verbatim>\<open>Acquire\<close>: about to look the slot up; in possession of a slot it has
  not been granted; granted a token there but not yet verified; holding a verified slot. The
  thread in \<open>Evicting\<close> holds the write lock and has found the listed keys empty.
\<close>

datatype pc = Idle
  | Want string nat
  | Evicting string nat "string set"
  | Got string nat nat
  | Granted string nat nat
  | Holding string nat

record conc_state =
  registered :: "string \<Rightarrow> nat option"
  capacity :: "nat \<Rightarrow> nat"
  tokens :: "nat \<Rightarrow> nat"
  next_id :: nat
  pcs :: "nat \<Rightarrow> pc"

definition conc_init :: conc_state where
  "conc_init = \<lparr>registered = (\<lambda>_. None), capacity = (\<lambda>_. 0), tokens = (\<lambda>_. 0), next_id = 0,
     pcs = (\<lambda>_. Idle)\<rparr>"

text \<open>The thread that holds the write lock, if any.\<close>

fun is_evicting :: "pc \<Rightarrow> bool" where
  "is_evicting (Evicting key limit doomed) = True"
| "is_evicting _ = False"

definition unlocked :: "conc_state \<Rightarrow> bool" where
  "unlocked s \<longleftrightarrow> (\<forall>t. \<not> is_evicting (pcs s t))"

definition goto :: "nat \<Rightarrow> pc \<Rightarrow> conc_state \<Rightarrow> conc_state" where
  "goto t p s = s\<lparr>pcs := (pcs s)(t := p)\<rparr>"

text \<open>
  The steps. Sends and receives on a channel (\<open>send\<close>, \<open>drain\<close>, \<open>release\<close>) need no lock. A read
  of the registry (\<open>find\<close>, \<open>verify\<close>, \<open>drain\<close>) is under the read lock, so not while some thread
  evicts. The evicting thread observes a slot empty and deletes it in two steps, with grants of
  other threads in between; it may observe and delete any number of slots, which covers both
  passes of \<open>evict_concurrency_slots\<close>.
\<close>

inductive conc_step :: "conc_state \<Rightarrow> conc_state \<Rightarrow> bool" where
  start: "pcs s t = Idle \<Longrightarrow> limit > 0 \<Longrightarrow> conc_step s (goto t (Want key limit) s)"
| find: "pcs s t = Want key limit \<Longrightarrow> unlocked s \<Longrightarrow> registered s key = Some i \<Longrightarrow>
    conc_step s (goto t (Got key limit i) s)"
| lock: "pcs s t = Want key limit \<Longrightarrow> unlocked s \<Longrightarrow> registered s key = None \<Longrightarrow>
    conc_step s (goto t (Evicting key limit {}) s)"
| observe: "pcs s t = Evicting key limit doomed \<Longrightarrow> registered s k = Some i \<Longrightarrow> tokens s i = 0 \<Longrightarrow>
    conc_step s (goto t (Evicting key limit (insert k doomed)) s)"
| delete: "pcs s t = Evicting key limit doomed \<Longrightarrow> k \<in> doomed \<Longrightarrow>
    conc_step s (s\<lparr>registered := (registered s)(k := None)\<rparr>)"
| create: "pcs s t = Evicting key limit doomed \<Longrightarrow>
    conc_step s (goto t (Got key limit (next_id s))
      (s\<lparr>registered := (registered s)(key := Some (next_id s)),
         capacity := (capacity s)(next_id s := limit),
         tokens := (tokens s)(next_id s := 0), next_id := Suc (next_id s)\<rparr>))"
| send: "pcs s t = Got key limit i \<Longrightarrow> tokens s i < capacity s i \<Longrightarrow>
    conc_step s (goto t (Granted key limit i) (s\<lparr>tokens := (tokens s)(i := Suc (tokens s i))\<rparr>))"
| cancel: "pcs s t = Got key limit i \<Longrightarrow> conc_step s (goto t Idle s)"
| verify: "pcs s t = Granted key limit i \<Longrightarrow> unlocked s \<Longrightarrow> registered s key = Some i \<Longrightarrow>
    conc_step s (goto t (Holding key i) s)"
| drain: "pcs s t = Granted key limit i \<Longrightarrow> unlocked s \<Longrightarrow> registered s key \<noteq> Some i \<Longrightarrow>
    conc_step s (goto t (Want key limit) (s\<lparr>tokens := (tokens s)(i := tokens s i - 1)\<rparr>))"
| release: "pcs s t = Holding key i \<Longrightarrow>
    conc_step s (goto t Idle (s\<lparr>tokens := (tokens s)(i := tokens s i - 1)\<rparr>))"

inductive conc_reachable :: "conc_state \<Rightarrow> bool" where
  init: "conc_reachable conc_init"
| step: "conc_reachable s \<Longrightarrow> conc_step s s' \<Longrightarrow> conc_reachable s'"

subsection \<open>The invariant\<close>

fun has_token :: "nat \<Rightarrow> pc \<Rightarrow> bool" where
  "has_token i (Granted key limit j) = (j = i)"
| "has_token i (Holding key j) = (j = i)"
| "has_token i _ = False"

fun refers :: "pc \<Rightarrow> nat option" where
  "refers (Got key limit j) = Some j"
| "refers (Granted key limit j) = Some j"
| "refers (Holding key j) = Some j"
| "refers _ = None"

definition token_set :: "conc_state \<Rightarrow> nat \<Rightarrow> nat set" where
  "token_set s i = {t. has_token i (pcs s t)}"

text \<open>The threads that were granted the key and have not released it.\<close>

definition holders :: "conc_state \<Rightarrow> string \<Rightarrow> nat set" where
  "holders s key = {t. \<exists>i. pcs s t = Holding key i}"

text \<open>
  A slot's token count is the number of threads with a token in it, within its capacity; slot
  identities in use were allocated; a verified holder's slot is registered under its key, and
  is not among the slots the evicting thread may delete unless it was observed empty since.
\<close>

definition tokens_inv :: "conc_state \<Rightarrow> bool" where
  "tokens_inv s \<longleftrightarrow>
     (\<forall>i. finite (token_set s i) \<and> tokens s i = card (token_set s i)
       \<and> card (token_set s i) \<le> capacity s i)"

definition ids_inv :: "conc_state \<Rightarrow> bool" where
  "ids_inv s \<longleftrightarrow> (\<forall>t i. refers (pcs s t) = Some i \<longrightarrow> i < next_id s)
     \<and> (\<forall>k i. registered s k = Some i \<longrightarrow> i < next_id s)"

definition lock_inv :: "conc_state \<Rightarrow> bool" where
  "lock_inv s \<longleftrightarrow> (\<forall>t u. is_evicting (pcs s t) \<longrightarrow> is_evicting (pcs s u) \<longrightarrow> t = u)"

definition holding_inv :: "conc_state \<Rightarrow> bool" where
  "holding_inv s \<longleftrightarrow> (\<forall>t key i. pcs s t = Holding key i \<longrightarrow> registered s key = Some i)
     \<and> (\<forall>t key limit doomed. pcs s t = Evicting key limit doomed \<longrightarrow>
          registered s key = None \<and> (\<forall>k \<in> doomed. \<forall>u i. pcs s u \<noteq> Holding k i))"

definition conc_inv :: "conc_state \<Rightarrow> bool" where
  "conc_inv s \<longleftrightarrow> tokens_inv s \<and> ids_inv s \<and> lock_inv s \<and> holding_inv s"

lemma token_set_goto:
  "token_set (goto t p s) i = (if has_token i p then insert t (token_set s i) else token_set s i - {t})"
  by (auto simp: token_set_def goto_def)

lemma token_set_frame [simp]:
  "token_set (s\<lparr>registered := r\<rparr>) i = token_set s i"
  "token_set (s\<lparr>tokens := k\<rparr>) i = token_set s i"
  "token_set (s\<lparr>capacity := k\<rparr>) i = token_set s i"
  "token_set (s\<lparr>next_id := n\<rparr>) i = token_set s i"
  by (simp_all add: token_set_def)

lemma goto_fields [simp]:
  "registered (goto t p s) = registered s" "capacity (goto t p s) = capacity s"
  "tokens (goto t p s) = tokens s" "next_id (goto t p s) = next_id s"
  "pcs (goto t p s) = (pcs s)(t := p)"
  by (simp_all add: goto_def)

lemma has_token_refers: "has_token i p \<Longrightarrow> refers p = Some i"
  by (cases p) auto

lemma conc_inv_init: "conc_inv conc_init"
  by (simp add: conc_inv_def tokens_inv_def ids_inv_def lock_inv_def holding_inv_def conc_init_def
      token_set_def)

lemma token_set_mem: "has_token i (pcs s t) \<Longrightarrow> t \<in> token_set s i"
  by (simp add: token_set_def)

lemma token_set_notin: "\<not> has_token i (pcs s t) \<Longrightarrow> t \<notin> token_set s i"
  by (simp add: token_set_def)

lemma tokens_invD:
  "tokens_inv s \<Longrightarrow> finite (token_set s i) \<and> tokens s i = card (token_set s i) \<and> card (token_set s i) \<le> capacity s i"
  by (simp add: tokens_inv_def)

text \<open>A move that neither takes nor gives a token.\<close>

lemma tokens_inv_move:
  "tokens_inv s \<Longrightarrow> (\<And>i. has_token i p = has_token i (pcs s t)) \<Longrightarrow> tokens_inv (goto t p s)"
  unfolding tokens_inv_def token_set_goto
  by (auto simp: token_set_mem token_set_notin insert_absorb)

lemma tokens_inv_take:
  assumes "tokens_inv s" "tokens s i < capacity s i" "\<And>j. \<not> has_token j (pcs s t)"
    and "\<And>j. has_token j p \<longleftrightarrow> j = i"
  shows "tokens_inv (goto t p (s\<lparr>tokens := (tokens s)(i := Suc (tokens s i))\<rparr>))"
  unfolding tokens_inv_def token_set_goto
  using assms token_set_notin [OF assms(3)] by (auto simp: tokens_inv_def)

lemma tokens_inv_give:
  assumes "tokens_inv s" "\<And>j. has_token j (pcs s t) \<longleftrightarrow> j = i" "\<And>j. \<not> has_token j p"
  shows "tokens_inv (goto t p (s\<lparr>tokens := (tokens s)(i := tokens s i - 1)\<rparr>))"
proof -
  have "t \<in> token_set s i" and "\<And>j. j \<noteq> i \<Longrightarrow> t \<notin> token_set s j"
    using assms(2) by (auto simp: token_set_def)
  moreover have "card (token_set s i) - Suc 0 \<le> capacity s i"
    using tokens_invD [OF assms(1), of i] by linarith
  ultimately show ?thesis
    unfolding tokens_inv_def token_set_goto
    using assms(3) tokens_invD [OF assms(1)] by (auto simp: card_Diff_singleton)
qed

lemma tokens_inv_create:
  assumes "tokens_inv s" "ids_inv s" "\<And>j. \<not> has_token j (pcs s t)" "\<And>j. \<not> has_token j p"
  shows "tokens_inv (goto t p (s\<lparr>registered := r, capacity := (capacity s)(next_id s := l),
     tokens := (tokens s)(next_id s := 0), next_id := n\<rparr>))"
proof -
  have "token_set s (next_id s) = {}"
    using assms(2) has_token_refers by (fastforce simp: ids_inv_def token_set_def)
  then show ?thesis
    unfolding tokens_inv_def token_set_goto
    using assms(4) token_set_notin [OF assms(3)] tokens_invD [OF assms(1)] by auto
qed

lemma step_tokens_inv: "conc_step s s' \<Longrightarrow> tokens_inv s \<Longrightarrow> ids_inv s \<Longrightarrow> tokens_inv s'"
proof (induction rule: conc_step.induct)
  case (delete s t key limit doomed k)
  then show ?case by (simp add: tokens_inv_def)
next
  case (create s t key limit doomed)
  then show ?case by (intro tokens_inv_create) auto
next
  case (send s t key limit i)
  then show ?case by (intro tokens_inv_take) auto
next
  case (drain s t key limit i)
  then show ?case by (intro tokens_inv_give) auto
next
  case (release s t key i)
  then show ?case by (intro tokens_inv_give) auto
qed (auto intro!: tokens_inv_move)

lemma step_ids_inv: "conc_step s s' \<Longrightarrow> ids_inv s \<Longrightarrow> ids_inv s'"
  by (induction rule: conc_step.induct)
    (auto simp: ids_inv_def less_Suc_eq split: if_splits, (metis refers.simps)+)

lemma step_lock_inv: "conc_step s s' \<Longrightarrow> lock_inv s \<Longrightarrow> lock_inv s'"
  by (induction rule: conc_step.induct) (auto simp: lock_inv_def unlocked_def)

lemma is_evicting_iff: "is_evicting p \<longleftrightarrow> (\<exists>key limit doomed. p = Evicting key limit doomed)"
  by (cases p) auto

lemma step_holding_inv:
  assumes "conc_step s s'" "tokens_inv s" "lock_inv s" "holding_inv s"
  shows "holding_inv s'"
  using assms
proof (induction rule: conc_step.induct)
  case (observe s t key limit doomed k i)
  have "pcs s u \<noteq> Holding k j" for u j
  proof
    assume u: "pcs s u = Holding k j"
    then have "j = i" using observe.prems(3) observe.hyps(2) by (auto simp: holding_inv_def)
    then have "u \<in> token_set s i" using u by (simp add: token_set_def)
    then show False using tokens_invD [OF observe.prems(1), of i] observe.hyps(3) by auto
  qed
  then show ?case using observe by (auto simp: holding_inv_def)
next
  case (delete s t key limit doomed k)
  then show ?case by (auto simp: holding_inv_def)
next
  case (create s t key limit doomed)
  have "registered s key = None"
    using create by (simp add: holding_inv_def)
  then have "pcs s u \<noteq> Holding key j" for u j
    using create.prems(3) by (fastforce simp: holding_inv_def)
  moreover have "u = t" if "pcs s u = Evicting k' l d" for u k' l d
    using create.prems(2) create.hyps that by (auto simp: lock_inv_def is_evicting_iff)
  ultimately show ?case using create.prems(3) by (auto simp: holding_inv_def)
next
  case (verify s t key limit i)
  then show ?case by (auto simp: holding_inv_def unlocked_def is_evicting_iff)
next
  case (lock s t key limit)
  then show ?case by (auto simp: holding_inv_def unlocked_def is_evicting_iff)
qed (auto simp: holding_inv_def)

lemma conc_step_inv: "conc_step s s' \<Longrightarrow> conc_inv s \<Longrightarrow> conc_inv s'"
  by (simp add: conc_inv_def step_tokens_inv step_ids_inv step_lock_inv step_holding_inv)

lemma conc_reachable_inv: "conc_reachable s \<Longrightarrow> conc_inv s"
  by (induction rule: conc_reachable.induct) (auto intro: conc_inv_init conc_step_inv)

inductive_cases conc_stepE: "conc_step s s'"

subsection \<open>Properties\<close>

lemma holders_token_set:
  assumes "holding_inv s" "registered s key = Some i"
  shows "holders s key \<subseteq> token_set s i"
  using assms by (force simp: holders_def holding_inv_def token_set_def)

text \<open>
  C22: The concurrency limit holds under every interleaving. In every reachable state, the
  threads that were granted a key and have not released it are at most the capacity of the
  slot registered for the key, and there is none when no slot is registered: no eviction, race
  on the lookup or late grant lets more through.
\<close>

theorem concurrency_limit_respected:
  assumes "conc_reachable s"
  shows "(case registered s key of None \<Rightarrow> holders s key = {}
    | Some i \<Rightarrow> finite (holders s key) \<and> card (holders s key) \<le> capacity s i)"
proof -
  have inv: "tokens_inv s" "holding_inv s" using conc_reachable_inv [OF assms] by (auto simp: conc_inv_def)
  show ?thesis
  proof (cases "registered s key")
    case None
    then show ?thesis using inv(2) by (force simp: holders_def holding_inv_def)
  next
    case (Some i)
    have "finite (token_set s i)" "card (token_set s i) \<le> capacity s i"
      using tokens_invD [OF inv(1), of i] by auto
    then show ?thesis
      using holders_token_set [OF inv(2) Some] Some by (auto intro: finite_subset card_mono le_trans)
  qed
qed

text \<open>One thread acquires a key of limit one: start, lock, create, send, verify.\<close>

definition example_holding :: conc_state where
  "example_holding = \<lparr>registered = (\<lambda>_. None)(''k'' \<mapsto> 0), capacity = (\<lambda>_. 0)(0 := 1),
     tokens = (\<lambda>_. 0)(0 := 1), next_id = 1, pcs = (\<lambda>_. Idle)(0 := Holding ''k'' 0)\<rparr>"

lemma example_holding_reachable: "conc_reachable example_holding"
proof -
  let ?s1 = "goto 0 (Want ''k'' 1) conc_init"
  let ?s2 = "goto 0 (Evicting ''k'' 1 {}) ?s1"
  let ?s3 = "goto 0 (Got ''k'' 1 0) (?s2\<lparr>registered := (\<lambda>_. None)(''k'' \<mapsto> 0), capacity := (\<lambda>_. 0)(0 := 1),
     tokens := (\<lambda>_. 0)(0 := 0), next_id := 1\<rparr>)"
  let ?s4 = "goto 0 (Granted ''k'' 1 0) (?s3\<lparr>tokens := (tokens ?s3)(0 := Suc (tokens ?s3 0))\<rparr>)"
  have "conc_reachable ?s1"
    by (rule conc_reachable.step [OF conc_reachable.init conc_step.start]) (simp_all add: conc_init_def)
  then have "conc_reachable ?s2"
    by (rule conc_reachable.step [OF _ conc_step.lock]) (simp_all add: conc_init_def unlocked_def)
  then have "conc_reachable ?s3"
    by (rule conc_reachable.step)
      (use conc_step.create [of ?s2 0 "''k''" 1 "{}"] in \<open>simp add: conc_init_def\<close>)
  then have "conc_reachable ?s4"
    by (rule conc_reachable.step [OF _ conc_step.send]) (simp_all add: conc_init_def)
  then have "conc_reachable (goto 0 (Holding ''k'' 0) ?s4)"
    by (rule conc_reachable.step [OF _ conc_step.verify]) (simp_all add: conc_init_def unlocked_def)
  moreover have "goto 0 (Holding ''k'' 0) ?s4 = example_holding"
    by (simp add: example_holding_def goto_def conc_init_def)
  ultimately show ?thesis by simp
qed

theorem concurrency_limit_respected_witness:
  "holders example_holding ''k'' = {0} \<and> card (holders example_holding ''k'') \<le> 1"
  using concurrency_limit_respected [OF example_holding_reachable, of "''k''"]
  by (auto simp: example_holding_def holders_def)

text \<open>
  A key keeps the capacity it was created with: once a slot is registered, an acquire with
  another limit gets the same slot at the old capacity and leaves the registry as it was, so a
  changed limit takes effect only after the slot was evicted. The comment on the type says
  that it takes effect on the next acquire.
\<close>

lemma limit_fixed_at_creation:
  assumes "map_of slots key = Some s"
  shows "get_or_create_slot te tn key limit slots = (s, slots)
    \<and> slot_cap (fst (get_or_create_slot te tn key limit slots)) = slot_cap s"
  using get_or_create_slot_present [OF assms] by simp

end
