(* ===== verification/AccountPool.thy ===== *)
theory AccountPool
  imports Prelude
begin

text \<open>
  internal/auth/pool.go, internal/auth/errors.go and the account type of
  config/provider_account_types.go: the accounts of one provider, their health gates, the
  weighted least-recently-used selection on virtual clocks, and how errors bench an account or
  one of its models.

  The pool's accounts are pointers shared with no one else, so the model is a list updated in
  place. A nil map reads as the empty one. Each method runs under the pool's mutex; clock
  readings are arguments. A negative shift count is a run-time panic in Go, so the error
  classification returns \<open>None\<close> there.
\<close>

subsection \<open>Accounts\<close>

datatype account_status = AccActive | AccError | AccDisabled | AccOther string

record account =
  acc_id :: string
  weight :: int
  credential :: string
  status :: account_status
  rate_limited_until :: time
  last_error :: "(int \<times> string \<times> time) option"
  lru_clock :: time
  acc_model_locks :: "(string, time) gomap"
  model_backoff_levels :: "(string, int) gomap"
  backoff_level :: int

record pool =
  accounts :: "account list"
  last_picked :: int

datatype select_error = NoAvailable | NotFound | Inactive | Cooling | ModelLocked

definition weight_tick :: duration where "weight_tick = second"

definition effective_weight :: "account \<Rightarrow> int" where
  "effective_weight a = (if weight a < 1 then 1 else weight a)"

definition clamp_virtual_clock :: "time \<Rightarrow> account \<Rightarrow> account" where
  "clamp_virtual_clock now a =
     (if lru_clock a < now - weight_tick then a\<lparr>lru_clock := now - weight_tick\<rparr> else a)"

definition pick_tick :: "account \<Rightarrow> duration" where
  "pick_tick a = (let tick = weight_tick div effective_weight a in if tick \<le> 0 then nanosecond else tick)"

definition advance_virtual_clock :: "account \<Rightarrow> account" where
  "advance_virtual_clock a = a\<lparr>lru_clock := lru_clock a + pick_tick a\<rparr>"

definition renormalize_virtual_clocks :: "time \<Rightarrow> time \<Rightarrow> account list \<Rightarrow> account list" where
  "renormalize_virtual_clocks min_available now accs =
     (let shift = min_available - (now - weight_tick) in
      if shift > 0 then map (\<lambda>a. a\<lparr>lru_clock := lru_clock a - shift\<rparr>) accs else accs)"

definition new_account_pool :: "account list \<Rightarrow> pool" where
  "new_account_pool accs = \<lparr>accounts = accs, last_picked = -1\<rparr>"

subsection \<open>Selection\<close>

definition acc_model_locked :: "account \<Rightarrow> string \<Rightarrow> time \<Rightarrow> bool" where
  "acc_model_locked a model now = (case map_of (acc_model_locks a) model of
     None \<Rightarrow> False | Some until \<Rightarrow> now < until)"

text \<open>The health gates of one account; \<open>exclude\<close> is the set of excluded identifiers.\<close>

definition healthy :: "string \<Rightarrow> time \<Rightarrow> (string \<Rightarrow> bool) \<Rightarrow> account \<Rightarrow> bool" where
  "healthy model now exclude a =
     (if exclude (acc_id a) then False
      else if status a \<noteq> AccActive then False
      else if now < rate_limited_until a then False
      else if acc_model_locked a model now then False
      else True)"

definition availability_mask ::
  "string \<Rightarrow> time \<Rightarrow> (string \<Rightarrow> bool) \<Rightarrow> account list \<Rightarrow> bool list \<times> account list" where
  "availability_mask model now exclude accs =
     (map (healthy model now exclude) accs,
      map (\<lambda>a. if healthy model now exclude a then clamp_virtual_clock now a else a) accs)"

definition rotation_start :: "pool \<Rightarrow> nat" where
  "rotation_start p =
     (if last_picked p \<ge> 0 \<and> last_picked p < int (length (accounts p))
      then (nat (last_picked p) + 1) mod length (accounts p) else 0)"

fun min_scan :: "account list \<Rightarrow> bool list \<Rightarrow> nat list \<Rightarrow> nat option \<Rightarrow> nat option" where
  "min_scan accs avail [] sel = sel"
| "min_scan accs avail (idx # idxs) sel =
     (if \<not> avail ! idx then min_scan accs avail idxs sel
      else case sel of
        None \<Rightarrow> min_scan accs avail idxs (Some idx)
      | Some j \<Rightarrow>
          (if lru_clock (accs ! idx) < lru_clock (accs ! j) then min_scan accs avail idxs (Some idx)
           else min_scan accs avail idxs sel))"

fun min_clock :: "(bool \<times> account) list \<Rightarrow> time \<Rightarrow> time" where
  "min_clock [] m = m"
| "min_clock ((av, a) # xs) m = (if av \<and> lru_clock a < m then min_clock xs (lru_clock a) else min_clock xs m)"

definition select_account_excluding ::
  "time \<Rightarrow> string \<Rightarrow> (string \<Rightarrow> bool) \<Rightarrow> pool \<Rightarrow> (select_error + string \<times> string) \<times> pool" where
  "select_account_excluding now model exclude p =
     (let (avail, accs) = availability_mask model now exclude (accounts p);
          n = length accs;
          order = map (\<lambda>off. (rotation_start p + off) mod n) [0..<n]
      in case min_scan accs avail order None of
           None \<Rightarrow> (Inl NoAvailable, p\<lparr>accounts := accs\<rparr>)
         | Some i \<Rightarrow>
             (let accs = accs[i := advance_virtual_clock (accs ! i)];
                  m = min_clock (zip avail accs) (lru_clock (accs ! i))
              in (Inr (acc_id (accs ! i), credential (accs ! i)),
                  p\<lparr>accounts := renormalize_virtual_clocks m now accs, last_picked := int i\<rparr>)))"

definition select_account :: "time \<Rightarrow> string \<Rightarrow> pool \<Rightarrow> (select_error + string \<times> string) \<times> pool" where
  "select_account now model p = select_account_excluding now model (\<lambda>_. False) p"

fun find_account :: "string \<Rightarrow> account list \<Rightarrow> account option" where
  "find_account i [] = None"
| "find_account i (a # as) = (if acc_id a = i then Some a else find_account i as)"

text \<open>Writing through the pointer that \<^verbatim>\<open>findAccount\<close> returned: the first account with the ID changes.\<close>

fun update_account :: "string \<Rightarrow> (account \<Rightarrow> account) \<Rightarrow> account list \<Rightarrow> account list" where
  "update_account i f [] = []"
| "update_account i f (a # as) = (if acc_id a = i then f a # as else a # update_account i f as)"

definition select_account_by_id ::
  "time \<Rightarrow> string \<Rightarrow> string \<Rightarrow> pool \<Rightarrow> (select_error + string \<times> string) \<times> pool" where
  "select_account_by_id now i model p = (case find_account i (accounts p) of
     None \<Rightarrow> (Inl NotFound, p)
   | Some a \<Rightarrow>
       (if status a \<noteq> AccActive then (Inl Inactive, p)
        else if now < rate_limited_until a then (Inl Cooling, p)
        else if acc_model_locked a model now then (Inl ModelLocked, p)
        else (Inr (acc_id a, credential a),
          if now > lru_clock a
          then p\<lparr>accounts := update_account i (\<lambda>a. a\<lparr>lru_clock := now\<rparr>) (accounts p)\<rparr> else p)))"

subsection \<open>Error classification\<close>

definition rate_limit_base_cooldown_ms :: int where "rate_limit_base_cooldown_ms = 1000"
definition server_error_cooldown_ms :: int where "server_error_cooldown_ms = 5000"
definition auth_error_cooldown_ms :: int where "auth_error_cooldown_ms = 300000"
definition acc_max_backoff_level :: int where "acc_max_backoff_level = 5"

record error_decision =
  should_fallback :: bool
  cooldown_ms :: int
  new_backoff_level :: int

definition classify_error :: "int \<Rightarrow> string \<Rightarrow> int \<Rightarrow> error_decision option" where
  "classify_error st message level =
     (let msg = to_lower message in
      if st = 429 then
        (let new_level = (if level + 1 > acc_max_backoff_level then acc_max_backoff_level else level + 1)
         in if new_level - 1 < 0 then None
            else
              let cooldown = rate_limit_base_cooldown_ms * 2 ^ nat (new_level - 1);
                  cooldown = (if str_contains msg ''insufficient_quota'' \<or> str_contains msg ''billing''
                                 \<or> str_contains msg ''payment'' then auth_error_cooldown_ms else cooldown)
              in Some \<lparr>should_fallback = True, cooldown_ms = cooldown, new_backoff_level = new_level\<rparr>)
      else if st \<ge> 500 then
        Some \<lparr>should_fallback = True, cooldown_ms = server_error_cooldown_ms, new_backoff_level = level\<rparr>
      else if st = 401 \<or> st = 403 then
        Some \<lparr>should_fallback = True, cooldown_ms = auth_error_cooldown_ms, new_backoff_level = level\<rparr>
      else Some \<lparr>should_fallback = False, cooldown_ms = 0, new_backoff_level = level\<rparr>)"

definition is_identifier_byte :: "char \<Rightarrow> bool" where
  "is_identifier_byte c \<longleftrightarrow> c = CHR ''_'' \<or> (97 \<le> byte c \<and> byte c \<le> 122)
     \<or> (65 \<le> byte c \<and> byte c \<le> 90) \<or> (48 \<le> byte c \<and> byte c \<le> 57)"

function contains_token_from :: "string \<Rightarrow> string \<Rightarrow> nat \<Rightarrow> bool" where
  "contains_token_from s tok i =
     (if tok = [] \<or> length s < i + length tok then False
      else case str_index (drop i s) tok of
        None \<Rightarrow> False
      | Some idx \<Rightarrow>
          (let pos = i + idx;
               before = (pos = 0 \<or> \<not> is_identifier_byte (s ! (pos - 1)));
               after = (pos + length tok = length s \<or> \<not> is_identifier_byte (s ! (pos + length tok)))
           in if before \<and> after then True else contains_token_from s tok (pos + 1)))"
  by pat_completeness auto
termination
  by (relation "measure (\<lambda>(s, tok, i). Suc (length s) - i)") auto

declare contains_token_from.simps [simp del]

definition contains_token :: "string \<Rightarrow> string \<Rightarrow> bool" where
  "contains_token s tok = contains_token_from s tok 0"

definition is_model_scoped_quota_signal :: "string \<Rightarrow> string \<Rightarrow> bool" where
  "is_model_scoped_quota_signal message model =
     (let msg = to_lower message in
      if str_contains msg ''per-model'' \<or> str_contains msg ''permodel'' then True
      else if contains_token msg ''model_name'' then True
      else if \<not> (str_contains msg ''quota'' \<or> str_contains msg ''limit''
                  \<or> str_contains msg ''rate'' \<or> str_contains msg ''requests'') then False
      else if str_contains msg ''\"model\":'' then True
      else contains_token msg (to_lower model))"

subsection \<open>Errors and successes\<close>

definition apply_model_scope :: "time \<Rightarrow> string \<Rightarrow> error_decision \<Rightarrow> account \<Rightarrow> account" where
  "apply_model_scope now model d a =
     a\<lparr>acc_model_locks := put model (now + cooldown_ms d * millisecond) (acc_model_locks a),
       model_backoff_levels := put model (new_backoff_level d) (model_backoff_levels a)\<rparr>"

text \<open>The account after an error; \<open>t_rec\<close> stamps the record, \<open>t_cool\<close> starts the cooldown.\<close>

definition account_error ::
  "time \<Rightarrow> time \<Rightarrow> string \<Rightarrow> int \<Rightarrow> string \<Rightarrow> account \<Rightarrow> account option" where
  "account_error t_rec t_cool model st message a =
     (let a = a\<lparr>last_error := Some (st, message, t_rec)\<rparr>;
          scoped = (model \<noteq> [] \<and> st = 429 \<and> is_model_scoped_quota_signal message model);
          level = (if scoped then get_or 0 (model_backoff_levels a) model else backoff_level a)
      in case classify_error st message level of
           None \<Rightarrow> None
         | Some d \<Rightarrow>
             (if \<not> should_fallback d then Some a
              else if scoped then Some (apply_model_scope t_cool model d a)
              else
                let a = a\<lparr>backoff_level := new_backoff_level d\<rparr>;
                    a = (if cooldown_ms d > 0
                         then a\<lparr>rate_limited_until := t_cool + cooldown_ms d * millisecond\<rparr> else a)
                in Some (a\<lparr>status := AccError\<rparr>)))"

definition apply_error_for_model ::
  "time \<Rightarrow> time \<Rightarrow> string \<Rightarrow> string \<Rightarrow> int \<Rightarrow> string \<Rightarrow> pool \<Rightarrow> pool option" where
  "apply_error_for_model t_rec t_cool i model st message p = (case find_account i (accounts p) of
     None \<Rightarrow> Some p
   | Some a \<Rightarrow>
       map_option (\<lambda>a'. p\<lparr>accounts := update_account i (\<lambda>_. a') (accounts p)\<rparr>)
         (account_error t_rec t_cool model st message a))"

definition apply_error :: "time \<Rightarrow> time \<Rightarrow> string \<Rightarrow> int \<Rightarrow> string \<Rightarrow> pool \<Rightarrow> pool option" where
  "apply_error t_rec t_cool i st message p = apply_error_for_model t_rec t_cool i [] st message p"

definition account_success :: "account \<Rightarrow> account" where
  "account_success a =
     (let a = a\<lparr>backoff_level := 0, rate_limited_until := zero_time\<rparr>
      in if status a = AccError then a\<lparr>status := AccActive\<rparr> else a)"

definition report_success :: "string \<Rightarrow> pool \<Rightarrow> pool" where
  "report_success i p = p\<lparr>accounts := update_account i account_success (accounts p)\<rparr>"

definition account_snapshot :: "string \<Rightarrow> pool \<Rightarrow> account option" where
  "account_snapshot i p = find_account i (accounts p)"

definition lock_model :: "string \<Rightarrow> string \<Rightarrow> time \<Rightarrow> pool \<Rightarrow> unit + pool" where
  "lock_model i model until p = (case find_account i (accounts p) of
     None \<Rightarrow> Inl ()
   | Some a \<Rightarrow> Inr (p\<lparr>accounts := update_account i
       (\<lambda>a. a\<lparr>acc_model_locks := put model until (acc_model_locks a)\<rparr>) (accounts p)\<rparr>))"

definition drop_expired :: "time \<Rightarrow> account \<Rightarrow> account" where
  "drop_expired now a =
     (let expired = map fst (filter (\<lambda>(model, until). now > until) (acc_model_locks a))
      in a\<lparr>acc_model_locks := fold del expired (acc_model_locks a),
           model_backoff_levels := fold del expired (model_backoff_levels a)\<rparr>)"

definition expired_locks :: "time \<Rightarrow> pool \<Rightarrow> nat \<times> pool" where
  "expired_locks now p =
     (sum_list (map (\<lambda>a. length (filter (\<lambda>(model, until). now > until) (acc_model_locks a))) (accounts p)),
      p\<lparr>accounts := map (drop_expired now) (accounts p)\<rparr>)"

definition list_account_ids :: "pool \<Rightarrow> string list" where
  "list_account_ids p = map acc_id (accounts p)"

subsection \<open>The operations as steps\<close>

datatype pool_op = PSelect time string "string list"
  | PSelectById time string string
  | PError time time string string int string
  | PSuccess string
  | PLock string string time
  | PExpire time

text \<open>A panic leaves the pool as it was: the step is the identity there.\<close>

fun pool_step :: "pool \<Rightarrow> pool_op \<Rightarrow> pool" where
  "pool_step p (PSelect now model excl) = snd (select_account_excluding now model (\<lambda>i. i \<in> set excl) p)"
| "pool_step p (PSelectById now i model) = snd (select_account_by_id now i model p)"
| "pool_step p (PError t1 t2 i model st msg) =
     (case apply_error_for_model t1 t2 i model st msg p of None \<Rightarrow> p | Some p' \<Rightarrow> p')"
| "pool_step p (PSuccess i) = report_success i p"
| "pool_step p (PLock i model until) = (case lock_model i model until p of Inl _ \<Rightarrow> p | Inr p' \<Rightarrow> p')"
| "pool_step p (PExpire now) = snd (expired_locks now p)"

end
