(* ===== verification/Pool_Selection.thy ===== *)
theory Pool_Selection
  imports AccountPool
begin

text \<open>
  The weighted least-recently-used selection of internal/auth/pool.go: what one selection does
  to the virtual clocks, the weighted fairness of a burst, and the round robin that spaced
  traffic gets whatever the weights are.
\<close>

subsection \<open>The scan\<close>

lemma min_scan_Some:
  "min_scan accs avail idxs sel = Some k \<Longrightarrow>
     (k \<in> set idxs \<and> avail ! k \<or> sel = Some k)
     \<and> (\<forall>j \<in> set idxs. avail ! j \<longrightarrow> lru_clock (accs ! k) \<le> lru_clock (accs ! j))
     \<and> (\<forall>j. sel = Some j \<longrightarrow> lru_clock (accs ! k) \<le> lru_clock (accs ! j))"
proof (induction accs avail idxs sel rule: min_scan.induct)
  case (2 accs avail idx idxs sel)
  then show ?case
    by (cases sel) (force split: if_splits)+
qed simp

lemma min_scan_None:
  "min_scan accs avail idxs sel = None \<longleftrightarrow> sel = None \<and> (\<forall>j \<in> set idxs. \<not> avail ! j)"
  by (induction accs avail idxs sel rule: min_scan.induct) (auto split: option.splits)

text \<open>Ties go to the first index of the scan order.\<close>

lemma min_scan_tie:
  assumes "\<forall>j \<in> set idxs. lru_clock (accs ! j) = c" and "lru_clock (accs ! k) = c"
  shows "min_scan accs avail idxs (Some k) = Some k"
  using assms by (induction idxs) auto

lemma min_clock_le: "min_clock xs m \<le> m"
  by (induction xs m rule: min_clock.induct) auto

lemma min_clock_lower: "(True, a) \<in> set xs \<Longrightarrow> min_clock xs m \<le> lru_clock a"
proof (induction xs m rule: min_clock.induct)
  case (2 av b xs m)
  then show ?case
    using min_clock_le [of xs "lru_clock b"] min_clock_le [of xs m] by (auto split: if_splits)
qed simp

lemma min_clock_attained: "min_clock xs m = m \<or> (\<exists>a. (True, a) \<in> set xs \<and> min_clock xs m = lru_clock a)"
  by (induction xs m rule: min_clock.induct) (auto split: if_splits)

lemma rotation_start_less: "accounts p \<noteq> [] \<Longrightarrow> rotation_start p < length (accounts p)"
  by (simp add: rotation_start_def)

text \<open>The rotated scan visits every index.\<close>

lemma scan_order_set:
  assumes "n \<noteq> 0"
  shows "set (map (\<lambda>off. (s + off) mod n) [0..<n]) = {..<n}"
proof (intro set_eqI iffI)
  fix j assume "j \<in> {..<n}"
  then have j: "j < n" by simp
  define off where "off = (j + (n - s mod n)) mod n"
  have "s mod n < n" using assms by simp
  have "(s + off) mod n = (s mod n + (j + (n - s mod n))) mod n"
    unfolding off_def by (simp add: mod_add_left_eq mod_add_right_eq)
  also have "s mod n + (j + (n - s mod n)) = j + n" using \<open>s mod n < n\<close> by simp
  also have "(j + n) mod n = j" using j by simp
  finally have "(s + off) mod n = j" .
  moreover have "off < n" using assms by (simp add: off_def)
  ultimately show "j \<in> set (map (\<lambda>off. (s + off) mod n) [0..<n])" by force
qed (use assms in auto)

subsection \<open>One selection\<close>

text \<open>The clock of an account as the selection at \<open>now\<close> sees it.\<close>

definition seen_clock :: "string \<Rightarrow> time \<Rightarrow> (string \<Rightarrow> bool) \<Rightarrow> account \<Rightarrow> time" where
  "seen_clock model now exclude a =
     (if healthy model now exclude a then max (lru_clock a) (now - weight_tick) else lru_clock a)"

lemma pick_tick_pos: "0 < pick_tick a"
  by (simp add: pick_tick_def Let_def nanosecond_def)

lemma pick_tick_le: "pick_tick a \<le> weight_tick"
proof -
  have "weight_tick div effective_weight a \<le> weight_tick div 1"
    by (rule zdiv_mono2) (auto simp: weight_tick_def second_def effective_weight_def)
  then show ?thesis by (simp add: pick_tick_def Let_def weight_tick_def second_def nanosecond_def)
qed

lemma account_update_id [simp]: "a\<lparr>lru_clock := lru_clock a\<rparr> = a"
  by simp

lemma clamp_eq:
  "(if healthy model now ex a then clamp_virtual_clock now a else a)
     = a\<lparr>lru_clock := seen_clock model now ex a\<rparr>"
  by (simp add: clamp_virtual_clock_def seen_clock_def max_def)

lemma availability_mask_eq:
  "availability_mask model now ex accs =
     (map (healthy model now ex) accs, map (\<lambda>a. a\<lparr>lru_clock := seen_clock model now ex a\<rparr>) accs)"
  by (simp only: availability_mask_def clamp_eq)

lemma update_clock_simps [simp]:
  "pick_tick (a\<lparr>lru_clock := t\<rparr>) = pick_tick a"
  "effective_weight (a\<lparr>lru_clock := t\<rparr>) = effective_weight a"
  "healthy model now ex (a\<lparr>lru_clock := t\<rparr>) = healthy model now ex a"
  by (simp_all add: pick_tick_def effective_weight_def healthy_def acc_model_locked_def)

lemma renormalize_eq:
  "\<exists>s \<ge> 0. renormalize_virtual_clocks m now accs = map (\<lambda>a. a\<lparr>lru_clock := lru_clock a - s\<rparr>) accs
     \<and> s = max 0 (m - (now - weight_tick))"
  by (auto simp: renormalize_virtual_clocks_def Let_def max_def intro: exI [of _ 0])

text \<open>The state after a selection that picks index \<open>k\<close> and shifts the clocks by \<open>s\<close>.\<close>

definition picked_accounts ::
  "string \<Rightarrow> time \<Rightarrow> (string \<Rightarrow> bool) \<Rightarrow> account list \<Rightarrow> nat \<Rightarrow> duration \<Rightarrow> account list" where
  "picked_accounts model now ex accs k s =
     map (\<lambda>j. (accs ! j)\<lparr>lru_clock := seen_clock model now ex (accs ! j)
       + (if j = k then pick_tick (accs ! j) else 0) - s\<rparr>) [0..<length accs]"

lemma length_picked [simp]: "length (picked_accounts model now ex accs k s) = length accs"
  by (simp add: picked_accounts_def)

lemma nth_picked:
  "j < length accs \<Longrightarrow> picked_accounts model now ex accs k s ! j =
     (accs ! j)\<lparr>lru_clock := seen_clock model now ex (accs ! j)
       + (if j = k then pick_tick (accs ! j) else 0) - s\<rparr>"
  by (simp add: picked_accounts_def)

lemma select_cases:
  assumes sel: "select_account_excluding now model ex p = (r, p')"
  obtains (none) "r = Inl NoAvailable" "\<forall>a \<in> set (accounts p). \<not> healthy model now ex a" "p' = p"
  | (picked) k s where "k < length (accounts p)" "healthy model now ex (accounts p ! k)"
      "min_scan (map (\<lambda>a. a\<lparr>lru_clock := seen_clock model now ex a\<rparr>) (accounts p))
         (map (healthy model now ex) (accounts p))
         (map (\<lambda>off. (rotation_start p + off) mod length (accounts p)) [0..<length (accounts p)]) None
       = Some k"
      "\<And>j. j < length (accounts p) \<Longrightarrow> healthy model now ex (accounts p ! j) \<Longrightarrow>
         seen_clock model now ex (accounts p ! k) \<le> seen_clock model now ex (accounts p ! j)"
      "r = Inr (acc_id (accounts p ! k), credential (accounts p ! k))"
      "p' = p\<lparr>accounts := picked_accounts model now ex (accounts p) k s, last_picked := int k\<rparr>"
      "0 \<le> s"
      "\<And>j. j < length (accounts p) \<Longrightarrow> healthy model now ex (accounts p ! j) \<Longrightarrow>
         now - weight_tick \<le> lru_clock (accounts p' ! j)"
      "\<exists>j < length (accounts p). healthy model now ex (accounts p ! j)
         \<and> lru_clock (accounts p' ! j) = now - weight_tick"
proof -
  let ?A = "accounts p" and ?n = "length (accounts p)"
  let ?av = "map (healthy model now ex) ?A"
  let ?cl = "map (\<lambda>a. a\<lparr>lru_clock := seen_clock model now ex a\<rparr>) ?A"
  let ?ord = "map (\<lambda>off. (rotation_start p + off) mod ?n) [0..<?n]"
  let ?fl = "now - weight_tick"
  show thesis
  proof (cases "min_scan ?cl ?av ?ord None")
    case None
    have "\<not> healthy model now ex a" if "a \<in> set ?A" for a
    proof -
      from that obtain j where j: "j < ?n" "a = ?A ! j" by (auto simp: in_set_conv_nth)
      then have "?n \<noteq> 0" by linarith
      from j(1) have "j \<in> set ?ord" unfolding scan_order_set [OF \<open>?n \<noteq> 0\<close>] by simp
      then have "\<not> ?av ! j" using None unfolding min_scan_None by blast
      then show ?thesis using j by simp
    qed
    then have un: "\<forall>a \<in> set ?A. \<not> healthy model now ex a" by blast
    then have cl: "?cl = ?A" by (simp add: seen_clock_def map_idI)
    have "select_account_excluding now model ex p = (Inl NoAvailable, p\<lparr>accounts := ?cl\<rparr>)"
      using None by (simp add: select_account_excluding_def availability_mask_eq Let_def)
    then have "r = Inl NoAvailable" "p' = p" using sel unfolding cl by simp_all
    then show thesis using un by (intro none) simp_all
  next
    case (Some k)
    then have "?n \<noteq> 0" by (auto simp: min_scan_None)
    note ord = scan_order_set [OF this, of "rotation_start p"]
    note scan = min_scan_Some [OF Some, unfolded ord]
    then have k: "k < ?n" "?av ! k" by auto
    have least: "seen_clock model now ex (?A ! k) \<le> seen_clock model now ex (?A ! j)"
      if "j < ?n" "healthy model now ex (?A ! j)" for j
      using scan that k by auto
    let ?ad = "?cl[k := advance_virtual_clock (?cl ! k)]"
    let ?m = "min_clock (zip ?av ?ad) (lru_clock (?ad ! k))"
    obtain s where s: "0 \<le> s" "s = max 0 (?m - ?fl)"
      "renormalize_virtual_clocks ?m now ?ad = map (\<lambda>a. a\<lparr>lru_clock := lru_clock a - s\<rparr>) ?ad"
      using renormalize_eq [of ?m now ?ad] by blast
    have adj: "?ad ! j = (?A ! j)\<lparr>lru_clock := seen_clock model now ex (?A ! j)
        + (if j = k then pick_tick (?A ! j) else 0)\<rparr>" if "j < ?n" for j
      using that k by (simp add: nth_list_update advance_virtual_clock_def)
    have pa: "map (\<lambda>a. a\<lparr>lru_clock := lru_clock a - s\<rparr>) ?ad = picked_accounts model now ex ?A k s"
      by (rule nth_equalityI) (auto simp: picked_accounts_def adj simp del: list_update_same_conv)
    have "select_account_excluding now model ex p = (Inr (acc_id (?ad ! k), credential (?ad ! k)),
        p\<lparr>accounts := renormalize_virtual_clocks ?m now ?ad, last_picked := int k\<rparr>)"
      using Some by (simp add: select_account_excluding_def availability_mask_eq Let_def)
    then have "(r, p') = (Inr (acc_id (?ad ! k), credential (?ad ! k)),
        p\<lparr>accounts := picked_accounts model now ex ?A k s, last_picked := int k\<rparr>)"
      by (simp only: sel s(3) pa)
    then have sel': "r = Inr (acc_id (?A ! k), credential (?A ! k))"
      "p' = p\<lparr>accounts := picked_accounts model now ex ?A k s, last_picked := int k\<rparr>"
      unfolding adj [OF k(1)] by simp_all
    have mem: "(True, ?ad ! j) \<in> set (zip ?av ?ad)" if "j < ?n" "healthy model now ex (?A ! j)" for j
      unfolding in_set_zip using that by (intro exI [of _ j]) simp
    have fl: "?fl \<le> lru_clock (?ad ! j)" if "j < ?n" "healthy model now ex (?A ! j)" for j
    proof -
      have "?fl \<le> seen_clock model now ex (?A ! j)" using that(2) by (simp add: seen_clock_def)
      then show ?thesis using pick_tick_pos [of "?A ! j"] unfolding adj [OF that(1)] by auto
    qed
    have att: "\<exists>j < ?n. healthy model now ex (?A ! j) \<and> ?m = lru_clock (?ad ! j)"
      using min_clock_attained [of "zip ?av ?ad" "lru_clock (?ad ! k)"]
    proof
      assume "?m = lru_clock (?ad ! k)" then show ?thesis using k by auto
    next
      assume "\<exists>a. (True, a) \<in> set (zip ?av ?ad) \<and> ?m = lru_clock a"
      then obtain j where "j < ?n" "?av ! j" "?m = lru_clock (?ad ! j)"
        by (auto simp: in_set_zip)
      then show ?thesis by auto
    qed
    have mfl: "?fl \<le> ?m" using att fl by auto
    have new: "lru_clock (accounts p' ! j) = lru_clock (?ad ! j) - s" if "j < ?n" for j
      using that sel'(2) adj [OF that] by (simp add: nth_picked)
    have low: "?fl \<le> lru_clock (accounts p' ! j)" if "j < ?n" "healthy model now ex (?A ! j)" for j
      using new [OF that(1)] min_clock_lower [OF mem [OF that], of "lru_clock (?ad ! k)"] s(2) mfl by simp
    have hit: "\<exists>j < ?n. healthy model now ex (?A ! j) \<and> lru_clock (accounts p' ! j) = ?fl"
      using att new s(2) mfl by auto
    show thesis
      using picked [OF k(1) _ Some least sel' s(1) low hit] k by simp
  qed
qed


subsection \<open>Traffic\<close>

text \<open>The account IDs that serve requests for a model arriving at the given instants.\<close>

fun serve :: "string \<Rightarrow> pool \<Rightarrow> time list \<Rightarrow> string list \<times> pool" where
  "serve model p [] = ([], p)"
| "serve model p (now # nows) =
     (let (r, p') = select_account now model p;
          (ids, p'') = serve model p' nows
      in ((case r of Inl _ \<Rightarrow> ids | Inr (i, c) \<Rightarrow> i # ids), p''))"

abbreviation no_exclusion :: "string \<Rightarrow> bool" where
  "no_exclusion \<equiv> \<lambda>_. False"

text \<open>
  The accounts' clocks are a common base plus the picks each account has had, and no account
  is more than one of its own ticks ahead of another.
\<close>

definition paced :: "string \<Rightarrow> time \<Rightarrow> pool \<Rightarrow> (nat \<Rightarrow> nat) \<Rightarrow> bool" where
  "paced model now p cnt \<longleftrightarrow>
     (\<forall>a \<in> set (accounts p). healthy model now no_exclusion a)
     \<and> (\<exists>base. \<forall>j < length (accounts p).
          seen_clock model now no_exclusion (accounts p ! j) = base + int (cnt j) * pick_tick (accounts p ! j))
     \<and> (\<forall>j < length (accounts p). \<forall>k < length (accounts p).
          int (cnt j) * pick_tick (accounts p ! j)
            \<le> int (cnt k) * pick_tick (accounts p ! k) + pick_tick (accounts p ! j))"

lemma picked_static:
  assumes "p' = p\<lparr>accounts := picked_accounts model now ex (accounts p) k s, last_picked := int k\<rparr>"
  shows "map acc_id (accounts p') = map acc_id (accounts p)"
    and "map pick_tick (accounts p') = map pick_tick (accounts p)"
    and "(\<forall>a \<in> set (accounts p'). healthy m t e a) \<longleftrightarrow> (\<forall>a \<in> set (accounts p). healthy m t e a)"
    and "length (accounts p') = length (accounts p)"
  using assms by (auto simp: all_set_conv_all_nth nth_picked intro!: nth_equalityI)

lemma paced_step:
  assumes pc: "paced model now p cnt" and ne: "accounts p \<noteq> []"
    and sel: "select_account now model p = (r, p')"
  obtains k c where "k < length (accounts p)" "r = Inr (acc_id (accounts p ! k), c)"
    "paced model now p' (cnt(k := Suc (cnt k)))"
    "map acc_id (accounts p') = map acc_id (accounts p)"
    "map pick_tick (accounts p') = map pick_tick (accounts p)"
proof -
  let ?A = "accounts p" and ?n = "length (accounts p)"
  have ok: "\<forall>a \<in> set ?A. healthy model now no_exclusion a"
    and gap: "\<And>i j. i < ?n \<Longrightarrow> j < ?n \<Longrightarrow>
      int (cnt i) * pick_tick (?A ! i) \<le> int (cnt j) * pick_tick (?A ! j) + pick_tick (?A ! i)"
    using pc by (auto simp: paced_def)
  obtain base where base: "\<And>j. j < ?n \<Longrightarrow>
      seen_clock model now no_exclusion (?A ! j) = base + int (cnt j) * pick_tick (?A ! j)"
    using pc by (auto simp: paced_def)
  have h: "healthy model now no_exclusion (?A ! j)" if "j < ?n" for j
    using ok that by simp
  show thesis
    using sel unfolding select_account_def
  proof (cases rule: select_cases)
    case none
    then show ?thesis using ok ne by (cases ?A) auto
  next
    case (picked k s)
    note st = picked_static [OF picked(6)]
    have tick: "pick_tick (accounts p' ! j) = pick_tick (?A ! j)" if "j < ?n" for j
      using that picked(6) by (simp add: nth_picked)
    have low: "int (cnt k) * pick_tick (?A ! k) \<le> int (cnt j) * pick_tick (?A ! j)" if "j < ?n" for j
      using picked(4) [OF that h [OF that]] base [OF that] base [OF picked(1)] by simp
    have seen: "seen_clock model now no_exclusion (accounts p' ! j)
        = (base - s) + int ((cnt(k := Suc (cnt k))) j) * pick_tick (accounts p' ! j)" if "j < ?n" for j
    proof -
      have "healthy model now no_exclusion (accounts p' ! j)"
        using that h [OF that] picked(6) by (simp add: nth_picked)
      then have "seen_clock model now no_exclusion (accounts p' ! j) = lru_clock (accounts p' ! j)"
        using picked(8) [OF that h [OF that]] by (simp add: seen_clock_def)
      also have "\<dots> = base + int (cnt j) * pick_tick (?A ! j) + (if j = k then pick_tick (?A ! j) else 0) - s"
        using that base [OF that] picked(6) by (simp add: nth_picked)
      finally show ?thesis by (simp add: tick [OF that] algebra_simps)
    qed
    have gap': "int ((cnt(k := Suc (cnt k))) i) * pick_tick (accounts p' ! i)
        \<le> int ((cnt(k := Suc (cnt k))) j) * pick_tick (accounts p' ! j) + pick_tick (accounts p' ! i)"
      if ij: "i < ?n" "j < ?n" for i j
      using gap [OF ij] low [OF ij(2)] pick_tick_pos [of "?A ! j"] pick_tick_pos [of "?A ! i"] tick [OF ij(1)] tick [OF ij(2)]
      by (auto simp: algebra_simps)
    have "paced model now p' (cnt(k := Suc (cnt k)))"
      unfolding paced_def st(4) using st(3) ok seen gap' by blast
    then show ?thesis using that picked(1,5) st(1,2) by blast
  qed
qed

lemma paced_burst:
  "paced model now p cnt \<Longrightarrow> accounts p \<noteq> [] \<Longrightarrow> distinct (map acc_id (accounts p)) \<Longrightarrow>
   paced model now (snd (serve model p (replicate n now)))
     (\<lambda>j. cnt j + count_list (fst (serve model p (replicate n now))) (map acc_id (accounts p) ! j))
   \<and> map acc_id (accounts (snd (serve model p (replicate n now)))) = map acc_id (accounts p)
   \<and> map pick_tick (accounts (snd (serve model p (replicate n now)))) = map pick_tick (accounts p)"
proof (induction n arbitrary: p cnt)
  case (Suc n)
  obtain r p' where sel: "select_account now model p = (r, p')" by force
  obtain k c where k: "k < length (accounts p)" "r = Inr (acc_id (accounts p ! k), c)"
    "paced model now p' (cnt(k := Suc (cnt k)))"
    "map acc_id (accounts p') = map acc_id (accounts p)"
    "map pick_tick (accounts p') = map pick_tick (accounts p)"
    using paced_step [OF Suc.prems(1,2) sel] by blast
  obtain ids p'' where run: "serve model p' (replicate n now) = (ids, p'')" by force
  have ne: "accounts p' \<noteq> []" using k(4) Suc.prems(2) by (metis map_is_Nil_conv)
  note IH = Suc.IH [OF k(3) ne, unfolded k(4,5) run fst_conv snd_conv, OF Suc.prems(3)]
  have len: "length (accounts p'') = length (accounts p)" using IH map_eq_imp_length_eq by blast
  have "(cnt(k := Suc (cnt k))) j + count_list ids (map acc_id (accounts p) ! j)
      = cnt j + count_list (acc_id (accounts p ! k) # ids) (map acc_id (accounts p) ! j)"
    if "j < length (accounts p)" for j
    using that k(1) nth_eq_iff_index_eq [OF Suc.prems(3), of j k] by auto
  then have "paced model now p''
      (\<lambda>j. cnt j + count_list (acc_id (accounts p ! k) # ids) (map acc_id (accounts p) ! j))"
    using conjunct1 [OF IH] unfolding paced_def len by simp
  then show ?case using IH run sel k(2) by simp
qed auto

text \<open>
  C24: weighted fairness under load. When a burst of requests arrives at one instant and every
  account is healthy for the model and starts from at most the recency floor, the service two
  accounts have received, counted in virtual time (picks times the account's tick of
  1s/weight), never differs by more than one tick of the account that is ahead: the picks are
  proportional to the weights, whatever the burst's length and the weights.
\<close>

theorem burst_weighted_fairness:
  assumes healthy: "\<forall>a \<in> set (accounts p). healthy model now no_exclusion a"
    and idle: "\<forall>a \<in> set (accounts p). lru_clock a \<le> now - weight_tick"
    and ids: "distinct (map acc_id (accounts p))"
    and a: "a \<in> set (accounts p)" and b: "b \<in> set (accounts p)"
    and run: "serve model p (replicate n now) = (served, p')"
  shows "int (count_list served (acc_id a)) * pick_tick a
     \<le> int (count_list served (acc_id b)) * pick_tick b + pick_tick a"
proof -
  have "paced model now p (\<lambda>_. 0)"
    unfolding paced_def using healthy idle pick_tick_pos
    by (auto simp: seen_clock_def max_def less_imp_le intro!: exI [of _ "now - weight_tick"] antisym)
  moreover have ne: "accounts p \<noteq> []" using a by (cases "accounts p") auto
  ultimately have "paced model now p (\<lambda>_. 0)" "accounts p \<noteq> []" by blast+
  from paced_burst [OF this ids, of n] run
  have pc: "paced model now p' (\<lambda>j. count_list served (map acc_id (accounts p) ! j))"
    and st: "map pick_tick (accounts p') = map pick_tick (accounts p)" by auto
  obtain i j where ij: "i < length (accounts p)" "a = accounts p ! i" "j < length (accounts p)" "b = accounts p ! j"
    using a b by (auto simp: in_set_conv_nth)
  have len: "length (accounts p') = length (accounts p)" using st map_eq_imp_length_eq by blast
  have tick: "pick_tick (accounts p' ! l) = pick_tick (accounts p ! l)" if "l < length (accounts p)" for l
    using arg_cong [OF st, of "\<lambda>xs. xs ! l"] that len by simp
  show ?thesis using pc ij tick by (auto simp: paced_def len)
qed

subsection \<open>Spaced traffic\<close>

text \<open>Requests at least one \<open>weight_tick\<close> (a second) apart.\<close>

fun spaced :: "time \<Rightarrow> time list \<Rightarrow> bool" where
  "spaced t [] = True"
| "spaced t (x # xs) = (t + weight_tick \<le> x \<and> spaced x xs)"

lemma idle_pick:
  assumes ok: "\<forall>a \<in> set (accounts p). healthy model now no_exclusion a"
    and idle: "\<forall>a \<in> set (accounts p). lru_clock a \<le> now - weight_tick" and ne: "accounts p \<noteq> []"
    and sel: "select_account now model p = (r, p')"
  shows "(\<exists>c. r = Inr (acc_id (accounts p ! rotation_start p), c))
    \<and> last_picked p' = int (rotation_start p)
    \<and> (\<forall>a \<in> set (accounts p'). lru_clock a \<le> now)
    \<and> map acc_id (accounts p') = map acc_id (accounts p)
    \<and> (\<forall>m t e. (\<forall>a \<in> set (accounts p'). healthy m t e a) \<longleftrightarrow> (\<forall>a \<in> set (accounts p). healthy m t e a))"
proof -
  let ?A = "accounts p" and ?n = "length (accounts p)"
  let ?cl = "map (\<lambda>a. a\<lparr>lru_clock := seen_clock model now no_exclusion a\<rparr>) ?A"
  have seen: "seen_clock model now no_exclusion (?A ! j) = now - weight_tick" if "j < ?n" for j
    using that ok idle by (auto simp: seen_clock_def max_def intro: antisym)
  have st: "rotation_start p < ?n" using ne by (rule rotation_start_less)
  show ?thesis
    using sel unfolding select_account_def
  proof (cases rule: select_cases)
    case none
    then show ?thesis using ok ne by (cases ?A) auto
  next
    case (picked k s)
    have "[0..<?n] = 0 # [1..<?n]" using ne by (simp add: upt_conv_Cons)
    then have ord: "map (\<lambda>off. (rotation_start p + off) mod ?n) [0..<?n]
        = rotation_start p # map (\<lambda>off. (rotation_start p + off) mod ?n) [1..<?n]" using st by simp
    have av: "map (healthy model now no_exclusion) ?A ! rotation_start p" using st ok by simp
    have "min_scan ?cl (map (healthy model now no_exclusion) ?A)
        (map (\<lambda>off. (rotation_start p + off) mod ?n) [1..<?n]) (Some (rotation_start p)) = Some (rotation_start p)"
      by (rule min_scan_tie [where c = "now - weight_tick"]) (use ne st seen in auto)
    then have k: "k = rotation_start p"
      using picked(3) av unfolding ord by simp
    have "lru_clock a \<le> now" if "a \<in> set (accounts p')" for a
    proof -
      from that picked(6) obtain j where j: "j < ?n" "a = accounts p' ! j" by (auto simp: in_set_conv_nth)
      then show ?thesis
        using seen [OF j(1)] picked(6,7) pick_tick_le [of "?A ! j"] pick_tick_pos [of "?A ! j"]
        by (auto simp: nth_picked weight_tick_def second_def)
    qed
    then show ?thesis
      using k picked(5,6) picked_static [OF picked(6)] by auto
  qed
qed

lemma serve_spaced:
  "\<lbrakk>\<forall>now \<in> set nows. \<forall>a \<in> set (accounts p). healthy model now no_exclusion a;
    \<forall>a \<in> set (accounts p). lru_clock a \<le> t; spaced t nows; accounts p \<noteq> []\<rbrakk> \<Longrightarrow>
   fst (serve model p nows) =
     map (\<lambda>i. map acc_id (accounts p) ! ((rotation_start p + i) mod length (accounts p))) [0..<length nows]"
proof (induction nows arbitrary: p t)
  case (Cons now nows)
  obtain r p' where sel: "select_account now model p = (r, p')" by force
  have "\<forall>a \<in> set (accounts p). healthy model now no_exclusion a" using Cons.prems(1) by simp
  moreover have "\<forall>a \<in> set (accounts p). lru_clock a \<le> now - weight_tick" using Cons.prems(2,3) by fastforce
  ultimately obtain c where r: "r = Inr (acc_id (accounts p ! rotation_start p), c)"
    and lp: "last_picked p' = int (rotation_start p)"
    and clk: "\<forall>a \<in> set (accounts p'). lru_clock a \<le> now"
    and ids: "map acc_id (accounts p') = map acc_id (accounts p)"
    and hl: "\<And>m t e. (\<forall>a \<in> set (accounts p'). healthy m t e a) \<longleftrightarrow> (\<forall>a \<in> set (accounts p). healthy m t e a)"
    using idle_pick [OF _ _ Cons.prems(4) sel] by blast
  have len: "length (accounts p') = length (accounts p)" using ids map_eq_imp_length_eq by blast
  have st: "rotation_start p < length (accounts p)" using Cons.prems(4) by (rule rotation_start_less)
  have ne: "accounts p' \<noteq> []" using len Cons.prems(4) by auto
  have st': "rotation_start p' = (rotation_start p + 1) mod length (accounts p)"
    using lp st len by (simp add: rotation_start_def [of p'])
  have IH: "fst (serve model p' nows) =
      map (\<lambda>i. map acc_id (accounts p) ! ((rotation_start p + Suc i) mod length (accounts p))) [0..<length nows]"
    using Cons.IH [of p' now] Cons.prems hl clk ids len st' ne by (auto simp: mod_add_left_eq)
  obtain xs p'' where run: "serve model p' nows = (xs, p'')" by force
  have "[0..<length (now # nows)] = 0 # map Suc [0..<length nows]"
    by (simp add: upt_conv_Cons map_Suc_upt del: upt_Suc)
  then show ?case using IH run sel r st by (simp add: comp_def)
qed simp

text \<open>
  Spaced traffic is plain round robin. On a fresh pool whose accounts stay healthy, when
  consecutive requests come at least a second apart, request number \<open>i\<close> is served by account
  \<open>i mod n\<close>: the lag clamp lifts every clock to the same floor before each pick, so all of
  them tie and the rotated scan alone decides. The configured weights play no part.
\<close>

theorem spaced_traffic_ignores_weights:
  assumes "\<forall>now \<in> set nows. \<forall>a \<in> set accs. healthy model now no_exclusion a"
    and "\<forall>a \<in> set accs. lru_clock a \<le> t" and "spaced t nows" and "accs \<noteq> []"
  shows "fst (serve model (new_account_pool accs) nows) =
     map (\<lambda>i. acc_id (accs ! (i mod length accs))) [0..<length nows]"
  using serve_spaced [of nows "new_account_pool accs" model t] assms
  by (simp add: new_account_pool_def rotation_start_def)

text \<open>
  C23: a selection without an error answers the identity and credential of an account that
  passes every health gate and whose clock, as clamped to the recency floor, is least among
  the accounts that pass; it leaves the least clock of those accounts exactly at the floor
  and changes nothing of any account but its clock. It fails exactly when no account passes,
  and then the pool is unchanged.
\<close>

theorem selection_takes_least_recent:
  assumes "select_account_excluding now model ex p = (r, p')"
  shows "case r of
      Inl e \<Rightarrow> e = NoAvailable \<and> p' = p \<and> (\<forall>a \<in> set (accounts p). \<not> healthy model now ex a)
    | Inr (i, c) \<Rightarrow> \<exists>k < length (accounts p).
        i = acc_id (accounts p ! k) \<and> c = credential (accounts p ! k) \<and> last_picked p' = int k
        \<and> healthy model now ex (accounts p ! k)
        \<and> (\<forall>a \<in> set (accounts p). healthy model now ex a \<longrightarrow>
             max (lru_clock (accounts p ! k)) (now - weight_tick) \<le> max (lru_clock a) (now - weight_tick))
        \<and> Min (lru_clock ` {a \<in> set (accounts p'). healthy model now ex a}) = now - weight_tick
        \<and> map (\<lambda>a. a\<lparr>lru_clock := 0\<rparr>) (accounts p') = map (\<lambda>a. a\<lparr>lru_clock := 0\<rparr>) (accounts p)"
  using assms
proof (cases rule: select_cases)
  case (picked k s)
  let ?A = "accounts p" and ?n = "length (accounts p)"
  have acc: "accounts p' ! j = (?A ! j)\<lparr>lru_clock := lru_clock (accounts p' ! j)\<rparr>" if "j < ?n" for j
    using that picked(6) by (simp add: nth_picked)
  then have hl: "healthy model now ex (accounts p' ! j) = healthy model now ex (?A ! j)" if "j < ?n" for j
    using that by (metis update_clock_simps(3))
  have len: "length (accounts p') = ?n" using picked(6) by simp
  have least: "max (lru_clock (?A ! k)) (now - weight_tick) \<le> max (lru_clock a) (now - weight_tick)"
    if "a \<in> set ?A" "healthy model now ex a" for a
  proof -
    from that(1) obtain j where "j < ?n" "a = ?A ! j" by (auto simp: in_set_conv_nth)
    then show ?thesis using picked(2) picked(4) [of j] that(2) by (simp add: seen_clock_def)
  qed
  have "Min (lru_clock ` {a \<in> set (accounts p'). healthy model now ex a}) = now - weight_tick"
  proof (rule Min_eqI)
    fix y assume "y \<in> lru_clock ` {a \<in> set (accounts p'). healthy model now ex a}"
    then show "now - weight_tick \<le> y" using picked(8) hl len by (auto simp: in_set_conv_nth)
  next
    obtain j where "j < ?n" "healthy model now ex (?A ! j)" "lru_clock (accounts p' ! j) = now - weight_tick"
      using picked(9) by blast
    then show "now - weight_tick \<in> lru_clock ` {a \<in> set (accounts p'). healthy model now ex a}"
      using hl len by (intro rev_image_eqI [of "accounts p' ! j"]) auto
  qed simp
  moreover have "map (\<lambda>a. a\<lparr>lru_clock := 0\<rparr>) (accounts p') = map (\<lambda>a. a\<lparr>lru_clock := 0\<rparr>) ?A"
    using picked(6) by (intro nth_equalityI) (simp_all add: nth_picked)
  ultimately show ?thesis using picked(1,2,5,6) least by auto
qed simp

subsection \<open>Concrete pools\<close>

definition acct :: "string \<Rightarrow> int \<Rightarrow> account" where
  "acct i w = \<lparr>acc_id = i, weight = w, credential = ''k'', status = AccActive,
     rate_limited_until = zero_time, last_error = None, lru_clock = zero_time,
     acc_model_locks = [], model_backoff_levels = [], backoff_level = 0\<rparr>"

definition pool_3_1 :: pool where
  "pool_3_1 = new_account_pool [acct ''a'' 3, acct ''b'' 1]"

lemma burst_of_8: "fst (serve ''m'' pool_3_1 (replicate 8 0)) = [''a'', ''b'', ''a'', ''a'', ''a'', ''b'', ''a'', ''a'']"
  by code_simp

theorem burst_weighted_fairness_witness:
  "int (count_list (fst (serve ''m'' pool_3_1 (replicate 8 0))) ''a'') * pick_tick (acct ''a'' 3)
     \<le> int (count_list (fst (serve ''m'' pool_3_1 (replicate 8 0))) ''b'') * pick_tick (acct ''b'' 1)
       + pick_tick (acct ''a'' 3)"
proof -
  have "\<forall>a \<in> set (accounts pool_3_1). healthy ''m'' 0 no_exclusion a" by code_simp
  moreover have "\<forall>a \<in> set (accounts pool_3_1). lru_clock a \<le> 0 - weight_tick" by code_simp
  moreover have "distinct (map acc_id (accounts pool_3_1))" by code_simp
  moreover have "acct ''a'' 3 \<in> set (accounts pool_3_1)" "acct ''b'' 1 \<in> set (accounts pool_3_1)"
    by (simp_all add: pool_3_1_def new_account_pool_def)
  ultimately show ?thesis
    using burst_weighted_fairness [of pool_3_1 "''m''" 0 "acct ''a'' 3" "acct ''b'' 1" 8, OF _ _ _ _ _ prod.collapse [symmetric]]
    by (simp add: acct_def)
qed

theorem spaced_traffic_ignores_weights_witness:
  "fst (serve ''m'' (new_account_pool [acct ''a'' 9, acct ''b'' 1]) [second, 2 * second, 3 * second, 4 * second])
     = [''a'', ''b'', ''a'', ''b'']"
proof -
  let ?accs = "[acct ''a'' 9, acct ''b'' 1]" and ?ts = "[second, 2 * second, 3 * second, 4 * second]"
  have h: "\<forall>now \<in> set ?ts. \<forall>a \<in> set ?accs. healthy ''m'' now no_exclusion a" by code_simp
  have c: "\<forall>a \<in> set ?accs. lru_clock a \<le> 0" by code_simp
  have sp: "spaced 0 ?ts" by code_simp
  have e: "map (\<lambda>i. acc_id (?accs ! (i mod length ?accs))) [0..<length ?ts] = [''a'', ''b'', ''a'', ''b'']"
    by code_simp
  show ?thesis
    by (rule trans [OF spaced_traffic_ignores_weights [OF h c sp] e]) simp
qed

theorem selection_takes_least_recent_witness:
  "\<exists>k < length (accounts pool_3_1). acc_id (accounts pool_3_1 ! k) = ''b''
     \<and> healthy ''m'' 0 (\<lambda>i. i = ''a'') (accounts pool_3_1 ! k)"
proof -
  have "fst (select_account_excluding 0 ''m'' (\<lambda>i. i = ''a'') pool_3_1) = Inr (''b'', ''k'')" by code_simp
  then show ?thesis
    using selection_takes_least_recent [OF prod.collapse [symmetric], of 0 "''m''" "\<lambda>i. i = ''a''" pool_3_1]
    by auto
qed

end
