(* ===== verification/Pool_Errors.thy ===== *)
theory Pool_Errors
  imports Pool_Selection
begin

text \<open>
  How errors bench an account or one of its models (internal/auth/pool.go and
  internal/auth/errors.go): the whole-token search that recognises a model-scoped quota
  signal, the isolation of a model-scoped error, the bounds of the cooldowns, and what brings
  a benched account back.
\<close>

subsection \<open>The whole-token search\<close>

text \<open>An occurrence of \<open>tok\<close> at \<open>pos\<close> with non-identifier bytes, or the ends, on both sides.\<close>

definition token_at :: "string \<Rightarrow> string \<Rightarrow> nat \<Rightarrow> bool" where
  "token_at s tok pos \<longleftrightarrow> pos + length tok \<le> length s \<and> take (length tok) (drop pos s) = tok
     \<and> (pos = 0 \<or> \<not> is_identifier_byte (s ! (pos - 1)))
     \<and> (pos + length tok = length s \<or> \<not> is_identifier_byte (s ! (pos + length tok)))"

lemma contains_token_from_iff:
  "tok \<noteq> [] \<Longrightarrow> contains_token_from s tok i \<longleftrightarrow> (\<exists>pos \<ge> i. token_at s tok pos)"
proof (induction s tok i rule: contains_token_from.induct)
  case (1 s tok i)
  show ?case
  proof (cases "length s < i + length tok")
    case True
    then show ?thesis by (auto simp: contains_token_from.simps [of s] token_at_def)
  next
    case False
    show ?thesis
    proof (cases "str_index (drop i s) tok")
      case None
      have "\<not> token_at s tok pos" if "i \<le> pos" for pos
      proof
        assume at: "token_at s tok pos"
        then have "take (length tok) (drop (pos - i) (drop i s)) = tok" "pos - i \<le> length (drop i s)"
          using that by (auto simp: token_at_def)
        then show False using None unfolding str_index_None by blast
      qed
      then show ?thesis using None by (auto simp: contains_token_from.simps [of s])
    next
      case (Some idx)
      note idx = str_index_Some [OF Some]
      have first: "\<not> token_at s tok pos" if "i \<le> pos" "pos < i + idx" for pos
        using idx that by (auto simp: token_at_def dest!: spec [of _ "pos - i"])
      have here: "token_at s tok (i + idx) \<longleftrightarrow>
          (i + idx = 0 \<or> \<not> is_identifier_byte (s ! (i + idx - 1)))
          \<and> (i + idx + length tok = length s \<or> \<not> is_identifier_byte (s ! (i + idx + length tok)))"
        using idx False by (auto simp: token_at_def add.commute)
      have step: "contains_token_from s tok i \<longleftrightarrow>
          token_at s tok (i + idx) \<or> contains_token_from s tok (Suc (i + idx))"
        using "1.prems" False Some unfolding here
        by (subst contains_token_from.simps) (auto simp: Let_def)
      show ?thesis
      proof (cases "token_at s tok (i + idx)")
        case True
        then show ?thesis unfolding step using le_add1 by blast
      next
        case nt: False
        have "contains_token_from s tok (Suc (i + idx)) \<longleftrightarrow> (\<exists>pos \<ge> Suc (i + idx). token_at s tok pos)"
          using "1.IH" [OF _ Some refl refl refl] "1.prems" False nt unfolding here by simp
        moreover have "Suc (i + idx) \<le> pos" if "i \<le> pos" "token_at s tok pos" for pos
          using first [OF that(1)] nt that(2) by (cases pos "i + idx" rule: linorder_cases) auto
        moreover have "i \<le> pos" if "Suc (i + idx) \<le> pos" for pos using that by simp
        ultimately show ?thesis unfolding step using nt by blast
      qed
    qed
  qed
qed

text \<open>
  The token search is exact. \<open>contains_token s tok\<close> holds if and only if the token is not
  empty and occurs somewhere in the string delimited on both sides by a non-identifier byte or
  an end of the string; skipping from one failed occurrence to the next never misses one.
\<close>

theorem contains_token_spec:
  "contains_token s tok \<longleftrightarrow> tok \<noteq> [] \<and>
     (\<exists>a b. s = a @ tok @ b \<and> (a = [] \<or> \<not> is_identifier_byte (last a))
       \<and> (b = [] \<or> \<not> is_identifier_byte (hd b)))"
proof (cases "tok = []")
  case True
  then show ?thesis by (simp add: contains_token_def contains_token_from.simps)
next
  case False
  have "(\<exists>pos \<ge> 0. token_at s tok pos) \<longleftrightarrow>
     (\<exists>a b. s = a @ tok @ b \<and> (a = [] \<or> \<not> is_identifier_byte (last a))
       \<and> (b = [] \<or> \<not> is_identifier_byte (hd b)))" (is "?l \<longleftrightarrow> ?r")
  proof
    assume ?l
    then obtain pos where pos: "token_at s tok pos" by blast
    let ?a = "take pos s" and ?b = "drop (pos + length tok) s"
    have "s = ?a @ tok @ ?b"
      using pos unfolding token_at_def by (metis add.commute append_take_drop_id drop_drop)
    moreover have "?a = [] \<or> \<not> is_identifier_byte (last ?a)"
      using pos by (auto simp: token_at_def last_conv_nth)
    moreover have "?b = [] \<or> \<not> is_identifier_byte (hd ?b)"
      using pos by (auto simp: token_at_def hd_drop_conv_nth)
    ultimately show ?r by blast
  next
    assume ?r
    then obtain a b where ab: "s = a @ tok @ b" "a = [] \<or> \<not> is_identifier_byte (last a)"
      "b = [] \<or> \<not> is_identifier_byte (hd b)" by blast
    have "token_at s tok (length a)"
      using ab by (cases b) (auto simp: token_at_def nth_append last_conv_nth)
    then show ?l by blast
  qed
  with False show ?thesis by (simp add: contains_token_def contains_token_from_iff)
qed

theorem contains_token_spec_witness:
  "contains_token ''quota of gpt-5, gpt'' ''gpt-5'' \<and> \<not> contains_token ''model_names'' ''model_name''"
proof -
  have "\<exists>a b. ''quota of gpt-5, gpt'' = a @ ''gpt-5'' @ b \<and> (a = [] \<or> \<not> is_identifier_byte (last a))
      \<and> (b = [] \<or> \<not> is_identifier_byte (hd b))"
    by (rule exI [of _ "''quota of ''"], rule exI [of _ "'', gpt''"]) code_simp
  then have "contains_token ''quota of gpt-5, gpt'' ''gpt-5''" by (simp add: contains_token_spec)
  moreover have "\<not> contains_token ''model_names'' ''model_name''" by code_simp
  ultimately show ?thesis by blast
qed

subsection \<open>Finding and updating an account\<close>

lemma find_update:
  "find_account i accs = Some a \<Longrightarrow> acc_id (f a) = i \<Longrightarrow>
     find_account j (update_account i f accs) = (if j = i then Some (f a) else find_account j accs)"
  by (induction accs) (auto split: if_splits)

lemma find_update_other: "(\<And>a. acc_id (f a) = acc_id a) \<Longrightarrow> j \<noteq> i \<Longrightarrow>
     find_account j (update_account i f accs) = find_account j accs"
  by (induction accs) auto

lemma find_acc_id: "find_account i accs = Some a \<Longrightarrow> acc_id a = i"
  by (induction accs) (auto split: if_splits)

lemma find_account_mem: "find_account i accs = Some a \<Longrightarrow> a \<in> set accs"
  by (induction accs) (auto split: if_splits)

lemma find_account_distinct:
  "distinct (map acc_id accs) \<Longrightarrow> a \<in> set accs \<Longrightarrow> find_account (acc_id a) accs = Some a"
  by (induction accs) auto

lemma update_ids: "(\<And>a. a \<in> set accs \<Longrightarrow> acc_id (f a) = acc_id a) \<Longrightarrow>
    map acc_id (update_account i f accs) = map acc_id accs"
  by (induction accs) auto

lemma update_set: "a \<in> set (update_account i f accs) \<Longrightarrow>
    a \<in> set accs \<or> (\<exists>b. find_account i accs = Some b \<and> a = f b)"
  by (induction accs) (auto split: if_splits)

lemma update_skip: "find_account i accs = None \<Longrightarrow> update_account i f accs = accs"
  by (induction accs) (auto split: if_splits)

subsection \<open>Cooldowns and levels\<close>

text \<open>The levels the account or a model of it has reached; \<open>maxBackoffLevel\<close> caps them.\<close>

definition levels_ok :: "account \<Rightarrow> bool" where
  "levels_ok a \<longleftrightarrow> 0 \<le> backoff_level a \<and> backoff_level a \<le> acc_max_backoff_level
     \<and> all_entries (\<lambda>m l. 0 \<le> l \<and> l \<le> acc_max_backoff_level) (model_backoff_levels a)"

definition pool_levels_ok :: "pool \<Rightarrow> bool" where
  "pool_levels_ok p \<longleftrightarrow> (\<forall>a \<in> set (accounts p). levels_ok a)"

lemma levels_ok_simps [simp]:
  "levels_ok (a\<lparr>lru_clock := t\<rparr>) = levels_ok a"
  "levels_ok (a\<lparr>last_error := e\<rparr>) = levels_ok a"
  "levels_ok (a\<lparr>status := s\<rparr>) = levels_ok a"
  "levels_ok (a\<lparr>rate_limited_until := t\<rparr>) = levels_ok a"
  "levels_ok (a\<lparr>acc_model_locks := ls\<rparr>) = levels_ok a"
  by (simp_all add: levels_ok_def)

lemma level_in_range:
  assumes "levels_ok a"
  shows "0 \<le> get_or 0 (model_backoff_levels a) m" "get_or 0 (model_backoff_levels a) m \<le> acc_max_backoff_level"
    "0 \<le> backoff_level a" "backoff_level a \<le> acc_max_backoff_level"
  using assms by (auto simp: levels_ok_def get_or_def acc_max_backoff_level_def dest: all_entriesD split: option.splits)

lemma classify_error_range:
  assumes "0 \<le> l" and "l \<le> acc_max_backoff_level" and "classify_error st msg l = Some d"
  shows "0 \<le> new_backoff_level d \<and> new_backoff_level d \<le> acc_max_backoff_level"
  using assms by (auto simp: classify_error_def acc_max_backoff_level_def Let_def split: if_splits)

lemma classify_429:
  assumes "0 \<le> l"
  shows "classify_error 429 msg l = Some \<lparr>should_fallback = True,
     cooldown_ms = (if contains_any (to_lower msg) [''insufficient_quota'', ''billing'', ''payment'']
       then 300000 else 1000 * 2 ^ nat (min (l + 1) acc_max_backoff_level - 1)),
     new_backoff_level = min (l + 1) acc_max_backoff_level\<rparr>"
  using assms
  by (simp add: classify_error_def acc_max_backoff_level_def Let_def contains_any_def min_def
      rate_limit_base_cooldown_ms_def auth_error_cooldown_ms_def)

lemma scoped_error:
  assumes "0 \<le> get_or 0 (model_backoff_levels a) model"
    and "model \<noteq> [] \<and> st = 429 \<and> is_model_scoped_quota_signal msg model"
  shows "account_error t1 t2 model st msg a = Some
    (let lv' = min (get_or 0 (model_backoff_levels a) model + 1) acc_max_backoff_level;
         cool = (if contains_any (to_lower msg) [''insufficient_quota'', ''billing'', ''payment'']
                 then 300 * second else 2 ^ nat (lv' - 1) * second)
     in a\<lparr>last_error := Some (st, msg, t1), acc_model_locks := put model (t2 + cool) (acc_model_locks a),
          model_backoff_levels := put model lv' (model_backoff_levels a)\<rparr>)"
proof -
  have u: "300000 * millisecond = 300 * second" "1000 * n * millisecond = n * second" for n
    by (simp_all add: unit_defs)
  show ?thesis
    using assms
    by (simp add: account_error_def classify_429 apply_model_scope_def Let_def u if_distribR if_distrib
        del: get_or_put cong: if_cong)
qed

lemma unscoped_error:
  assumes "\<not> (model \<noteq> [] \<and> st = 429 \<and> is_model_scoped_quota_signal msg model)"
  shows "account_error t1 t2 model st msg a =
    (case classify_error st msg (backoff_level a) of None \<Rightarrow> None
     | Some d \<Rightarrow> Some (if should_fallback d then
           a\<lparr>last_error := Some (st, msg, t1), backoff_level := new_backoff_level d, status := AccError,
             rate_limited_until := (if cooldown_ms d > 0 then t2 + cooldown_ms d * millisecond
                else rate_limited_until a)\<rparr>
         else a\<lparr>last_error := Some (st, msg, t1)\<rparr>))"
  unfolding account_error_def if_not_P [OF assms] Let_def
  by (auto split: option.split)

lemma fallback_status:
  assumes "0 \<le> l" and "classify_error st msg l = Some d"
  shows "should_fallback d \<longleftrightarrow> st = 429 \<or> st \<ge> 500 \<or> st = 401 \<or> st = 403"
    and "should_fallback d \<Longrightarrow> 0 < cooldown_ms d"
    and "cooldown_ms d \<le> 300000"
proof -
  have pw: "(2::int) ^ nat (min (l + 1) acc_max_backoff_level - 1) \<le> 2 ^ 4"
    by (intro power_increasing) (auto simp: acc_max_backoff_level_def)
  consider "st = 429" | "st \<noteq> 429" by blast
  then have "(should_fallback d \<longleftrightarrow> st = 429 \<or> st \<ge> 500 \<or> st = 401 \<or> st = 403)
      \<and> (should_fallback d \<longrightarrow> 0 < cooldown_ms d) \<and> cooldown_ms d \<le> 300000"
  proof cases
    case 1
    with assms pw show ?thesis by (auto simp: classify_429)
  next
    case 2
    with assms show ?thesis
      by (auto simp: classify_error_def auth_error_cooldown_ms_def server_error_cooldown_ms_def split: if_splits)
  qed
  then show "should_fallback d \<longleftrightarrow> st = 429 \<or> st \<ge> 500 \<or> st = 401 \<or> st = 403"
    and "should_fallback d \<Longrightarrow> 0 < cooldown_ms d" and "cooldown_ms d \<le> 300000" by blast+
qed

lemma classify_error_total: "0 \<le> l \<Longrightarrow> classify_error st msg l \<noteq> None"
  by (auto simp: classify_error_def acc_max_backoff_level_def Let_def)

lemma account_error_levels:
  assumes ok: "levels_ok a"
  shows "\<exists>a'. account_error t1 t2 model st msg a = Some a' \<and> levels_ok a'"
proof (cases "model \<noteq> [] \<and> st = 429 \<and> is_model_scoped_quota_signal msg model")
  case True
  show ?thesis
    unfolding scoped_error [OF level_in_range(1) [OF ok] True]
    using ok level_in_range [OF ok] by (auto simp: levels_ok_def Let_def acc_max_backoff_level_def min_def)
next
  case False
  have l: "0 \<le> backoff_level a" "backoff_level a \<le> acc_max_backoff_level" using level_in_range [OF ok] by auto
  obtain d where d: "classify_error st msg (backoff_level a) = Some d" using classify_error_total [OF l(1)] by blast
  show ?thesis
    unfolding unscoped_error [OF False] d using ok classify_error_range [OF l d] by (auto simp: levels_ok_def)
qed

lemma account_success_levels: "levels_ok a \<Longrightarrow> levels_ok (account_success a)"
  by (simp add: account_success_def levels_ok_def acc_max_backoff_level_def Let_def)

lemma all_entries_fold_del: "all_entries P m \<Longrightarrow> all_entries P (fold del ks m)"
  by (induction ks arbitrary: m) auto

lemma drop_expired_levels: "levels_ok a \<Longrightarrow> levels_ok (drop_expired now a)"
  by (simp add: drop_expired_def levels_ok_def all_entries_fold_del Let_def)

lemma account_error_id: "account_error t1 t2 model st msg a = Some a' \<Longrightarrow> acc_id a' = acc_id a"
  by (auto simp: account_error_def apply_model_scope_def Let_def split: option.splits if_splits)

text \<open>What a step does to one account.\<close>

inductive touches :: "pool_op \<Rightarrow> account \<Rightarrow> account \<Rightarrow> bool" where
  keep: "touches x a a"
| clock: "touches x a (a\<lparr>lru_clock := t\<rparr>)"
| fail: "account_error t1 t2 model st msg a = Some a' \<Longrightarrow>
    touches (PError t1 t2 (acc_id a) model st msg) a a'"
| success: "touches (PSuccess (acc_id a)) a (account_success a)"
| lock: "touches (PLock (acc_id a) model until) a (a\<lparr>acc_model_locks := put model until (acc_model_locks a)\<rparr>)"
| expire: "touches (PExpire now) a (drop_expired now a)"

text \<open>Every account of the pool after a step comes from one before it by the step's own change.\<close>

lemma select_touches:
  assumes "b \<in> set (accounts (snd (select_account_excluding now model ex p)))"
  shows "\<exists>a \<in> set (accounts p). touches x a b"
proof -
  obtain r p' where sel: "select_account_excluding now model ex p = (r, p')" by force
  show ?thesis
  proof (cases rule: select_cases [OF sel])
    case 1
    then show ?thesis using assms sel by (auto intro: keep)
  next
    case (2 k s)
    then obtain j where "j < length (accounts p)" "b = accounts p' ! j"
      using assms sel by (auto simp: in_set_conv_nth)
    then show ?thesis using 2(6) by (auto simp: nth_picked intro!: bexI [of _ "accounts p ! j"] clock)
  qed
qed

lemma pool_step_touches:
  assumes "b \<in> set (accounts (pool_step p x))"
  shows "\<exists>a \<in> set (accounts p). touches x a b"
proof (cases x)
  case (PSelect now model excl)
  with assms select_touches show ?thesis by simp
next
  case (PSelectById now i model)
  with assms show ?thesis
    by (auto simp: select_account_by_id_def split: option.splits if_splits
        dest!: update_set find_account_mem intro: keep clock)
next
  case (PError t1 t2 i model st msg)
  show ?thesis
  proof (cases "find_account i (accounts p)")
    case None
    then show ?thesis using assms PError by (auto simp: apply_error_for_model_def intro: keep)
  next
    case (Some a)
    note mem = find_account_mem [OF Some] and aid = find_acc_id [OF Some]
    show ?thesis
    proof (cases "account_error t1 t2 model st msg a")
      case None
      then show ?thesis using assms PError Some by (auto simp: apply_error_for_model_def intro: keep)
    next
      case (Some a')
      then have "b \<in> set (update_account i (\<lambda>_. a') (accounts p))"
        using assms PError \<open>find_account i (accounts p) = _\<close> by (simp add: apply_error_for_model_def)
      then have "b \<in> set (accounts p) \<or> b = a'" by (auto dest: update_set)
      then show ?thesis using fail [OF Some] mem unfolding PError aid [symmetric] by (blast intro: keep)
    qed
  qed
next
  case (PSuccess i)
  with assms have "b \<in> set (accounts p) \<or> (\<exists>a. find_account i (accounts p) = Some a \<and> b = account_success a)"
    by (auto simp: report_success_def dest: update_set)
  then show ?thesis
    unfolding PSuccess by (auto intro: keep success dest: find_account_mem find_acc_id)
next
  case (PLock i model until)
  then show ?thesis
  proof (cases "find_account i (accounts p)")
    case None
    then show ?thesis using assms PLock by (auto simp: lock_model_def intro: keep)
  next
    case (Some a)
    then have "b \<in> set (accounts p) \<or> b = a\<lparr>acc_model_locks := put model until (acc_model_locks a)\<rparr>"
      using assms PLock by (auto simp: lock_model_def dest: update_set)
    then show ?thesis
      using find_account_mem [OF Some] find_acc_id [OF Some] lock [of a model until]
      unfolding PLock by (auto intro: keep)
  qed
next
  case (PExpire now)
  with assms show ?thesis by (auto simp: expired_locks_def intro: expire)
qed

lemma touches_levels: "touches x a b \<Longrightarrow> levels_ok a \<Longrightarrow> levels_ok b"
proof (induction rule: touches.induct)
  case (fail t1 t2 model st msg a a')
  then show ?case using account_error_levels [OF fail(2), of t1 t2 model st msg] by auto
qed (auto simp: account_success_levels drop_expired_levels)

interpretation pool: machine pool_step pool_levels_ok
proof
  fix p x assume ok: "pool_levels_ok p"
  show "pool_levels_ok (pool_step p x)"
    unfolding pool_levels_ok_def
  proof
    fix b assume "b \<in> set (accounts (pool_step p x))"
    then obtain a where "a \<in> set (accounts p)" "touches x a b" using pool_step_touches by blast
    then show "levels_ok b" using ok touches_levels by (auto simp: pool_levels_ok_def)
  qed
qed

subsection \<open>What brings an account back\<close>

lemma touches_benched:
  assumes "touches x a b" and "acc_id a = i \<longrightarrow> status a = AccError" and "x \<noteq> PSuccess i"
  shows "acc_id b = i \<longrightarrow> status b = AccError"
  using assms
proof (induction rule: touches.induct)
  case (fail t1 t2 model st msg a a')
  then show ?case
    by (auto simp: account_error_def apply_model_scope_def Let_def split: option.splits if_splits)
next
  case (success a)
  then show ?case by (simp add: account_success_def Let_def)
qed (auto simp: drop_expired_def Let_def)

definition benched :: "string \<Rightarrow> pool \<Rightarrow> bool" where
  "benched i p \<longleftrightarrow> (\<forall>a \<in> set (accounts p). acc_id a = i \<longrightarrow> status a = AccError)"

lemma benched_run: "benched i p \<Longrightarrow> PSuccess i \<notin> set ops \<Longrightarrow> benched i (run_ops pool_step p ops)"
proof (induction ops arbitrary: p)
  case (Cons x ops)
  have "benched i (pool_step p x)"
    unfolding benched_def
  proof
    fix b assume "b \<in> set (accounts (pool_step p x))"
    then obtain a where "a \<in> set (accounts p)" "touches x a b" using pool_step_touches by blast
    then show "acc_id b = i \<longrightarrow> status b = AccError"
      using Cons.prems touches_benched [of x a b i] by (auto simp: benched_def)
  qed
  with Cons show ?case by simp
qed simp

lemma benched_select:
  assumes "benched i p"
  shows "fst (select_account_excluding now model ex p) \<noteq> Inr (i, c)"
    and "fst (select_account_by_id now i model p) \<noteq> Inr (i, c)"
proof -
  show "fst (select_account_excluding now model ex p) \<noteq> Inr (i, c)"
  proof
    obtain r p' where sel: "select_account_excluding now model ex p = (r, p')" by force
    assume "fst (select_account_excluding now model ex p) = Inr (i, c)"
    then have r: "r = Inr (i, c)" using sel by simp
    show False
    proof (cases rule: select_cases [OF sel])
      case 1
      then show ?thesis using r by simp
    next
      case (2 k s)
      then have "acc_id (accounts p ! k) = i" "status (accounts p ! k) = AccActive"
        using r by (auto simp: healthy_def split: if_splits)
      then show ?thesis using assms 2(1) by (auto simp: benched_def)
    qed
  qed
  show "fst (select_account_by_id now i model p) \<noteq> Inr (i, c)"
    using assms find_account_mem [of i "accounts p"] find_acc_id [of i "accounts p"]
    by (auto simp: select_account_by_id_def benched_def split: option.splits)
qed

text \<open>
  An error bench outlives its cooldown. Once the accounts with some ID are in the Error
  status, no operation other than a reported success for that very ID makes them selectable
  again: whatever selections, errors, locks and lock expiries follow, and at whatever later
  instant, neither the least-recently-used selection nor the selection by ID ever answers that
  account, although the cooldown the error set (\<open>rate_limited_until\<close>) has long passed. And a
  success can only be reported for an account that a selection answered.
\<close>

theorem error_bench_outlives_cooldown:
  assumes "\<forall>a \<in> set (accounts p). acc_id a = i \<longrightarrow> status a = AccError"
    and "PSuccess i \<notin> set ops"
  shows "fst (select_account_excluding now model ex (run_ops pool_step p ops)) \<noteq> Inr (i, c)
    \<and> fst (select_account_by_id now i model (run_ops pool_step p ops)) \<noteq> Inr (i, c)"
  using benched_select [OF benched_run [of i p ops]] assms by (simp add: benched_def)

theorem error_bench_outlives_cooldown_witness:
  "fst (select_account_excluding (1000 * minute) ''m'' no_exclusion
     (run_ops pool_step pool_3_1
       [PError 0 0 ''b'' [] 500 ''oops'', PError 0 0 ''a'' [] 500 ''oops'', PExpire (999 * minute)])) \<noteq> Inr (''a'', ''k'')"
  (is "fst (select_account_excluding _ _ _ (run_ops _ _ [?x, ?y, ?z])) \<noteq> _")
proof -
  let ?p = "run_ops pool_step pool_3_1 [?x, ?y]"
  have "\<forall>a \<in> set (accounts ?p). acc_id a = ''a'' \<longrightarrow> status a = AccError" by code_simp
  moreover have "PSuccess ''a'' \<notin> set [?z]" by simp
  ultimately show ?thesis
    using error_bench_outlives_cooldown [of ?p "''a''" "[?z]" "1000 * minute" "''m''" no_exclusion "''k''"]
    by (simp del: pool_step.simps)
qed

subsection \<open>The scope of an error\<close>

text \<open>
  Error scope. In any pool whose levels are in range, reporting an upstream error for an
  account never panics. When the error is a model-scoped 429 it locks exactly that model
  for \<open>2 ^ level\<close> seconds (300 s for a billing body), raises that model's own level by one up
  to the cap, and leaves the account's status, cooldown and level and its other models'
  availability as they were. Any other 429, 401, 403 or 5xx takes the whole account out and
  leaves its model locks alone; any other status only records the error.
\<close>

theorem error_scope:
  assumes ok: "levels_ok a"
  shows "\<exists>a'. account_error t1 t2 model st msg a = Some a' \<and> last_error a' = Some (st, msg, t1) \<and>
    (if model \<noteq> [] \<and> st = 429 \<and> is_model_scoped_quota_signal msg model then
       (let lv = get_or 0 (model_backoff_levels a) model;
            lv' = min (lv + 1) acc_max_backoff_level;
            cool = (if contains_any (to_lower msg) [''insufficient_quota'', ''billing'', ''payment'']
                    then 300 * second else 2 ^ nat (lv' - 1) * second)
        in map_of (acc_model_locks a') model = Some (t2 + cool)
           \<and> get_or 0 (model_backoff_levels a') model = lv'
           \<and> status a' = status a \<and> backoff_level a' = backoff_level a
           \<and> (\<forall>other now ex. other \<noteq> model \<longrightarrow> healthy other now ex a' = healthy other now ex a))
     else if st = 429 \<or> st \<ge> 500 \<or> st = 401 \<or> st = 403 then
       status a' = AccError \<and> t2 < rate_limited_until a' \<and> rate_limited_until a' \<le> t2 + 300 * second
       \<and> acc_model_locks a' = acc_model_locks a
     else a' = a\<lparr>last_error := Some (st, msg, t1)\<rparr>)"
proof (cases "model \<noteq> [] \<and> st = 429 \<and> is_model_scoped_quota_signal msg model")
  case True
  have lv: "0 \<le> get_or 0 (model_backoff_levels a) model" using level_in_range [OF ok] by blast
  show ?thesis
    unfolding scoped_error [OF lv True] using True
    by (simp add: Let_def map_of_put healthy_def acc_model_locked_def)
next
  case False
  have lv: "0 \<le> backoff_level a" using level_in_range [OF ok] by blast
  then obtain d where d: "classify_error st msg (backoff_level a) = Some d"
    using classify_error_total by blast
  have "should_fallback d \<Longrightarrow> 0 < cooldown_ms d * millisecond"
    "cooldown_ms d * millisecond \<le> 300 * second"
    using fallback_status(2,3) [OF lv d] by (simp_all add: unit_defs)
  then show ?thesis
    unfolding unscoped_error [OF False] d using fallback_status [OF lv d] False by auto
qed

theorem error_scope_witness:
  "map_option (\<lambda>a'. map_of (acc_model_locks a') ''m'')
     (account_error 0 0 ''m'' 429 ''rate limit: model_name m'' (acct ''a'' 1)) = Some (Some second)"
proof -
  have ok: "levels_ok (acct ''a'' 1)" by (simp add: levels_ok_def acct_def acc_max_backoff_level_def)
  have sc: "is_model_scoped_quota_signal ''rate limit: model_name m'' ''m''" by code_simp
  have nb: "\<not> contains_any (to_lower ''rate limit: model_name m'') [''insufficient_quota'', ''billing'', ''payment'']"
    by code_simp
  have l0: "get_or 0 (model_backoff_levels (acct ''a'' 1)) ''m'' = 0" by (simp add: acct_def)
  show ?thesis
    using error_scope [OF ok, of 0 0 "''m''" 429 "''rate limit: model_name m''"] sc nb
    by (auto simp: Let_def l0 acc_max_backoff_level_def)
qed

text \<open>
  No report panics. From a fresh pool whose stored levels are within the cap, no sequence
  of operations leads to a state in which reporting an error would shift by a negative count,
  and the levels stay within the cap.
\<close>

theorem reports_never_panic:
  assumes "pool_levels_ok p"
  shows "pool_levels_ok (run_ops pool_step p ops)
    \<and> apply_error_for_model t1 t2 i model st msg (run_ops pool_step p ops) \<noteq> None"
proof
  show ok: "pool_levels_ok (run_ops pool_step p ops)" using assms by (rule pool.run_inv)
  show "apply_error_for_model t1 t2 i model st msg (run_ops pool_step p ops) \<noteq> None"
  proof (cases "find_account i (accounts (run_ops pool_step p ops))")
    case (Some a)
    then have "levels_ok a" using ok find_account_mem by (auto simp: pool_levels_ok_def)
    then show ?thesis using Some account_error_levels [of a t1 t2 model st msg] by (auto simp: apply_error_for_model_def)
  qed (simp add: apply_error_for_model_def)
qed

theorem reports_never_panic_witness:
  "apply_error_for_model 0 0 ''a'' [] 429 [] (run_ops pool_step pool_3_1 [PError 0 0 ''a'' [] 429 []]) \<noteq> None"
proof -
  have "pool_levels_ok pool_3_1"
    by (simp add: pool_levels_ok_def pool_3_1_def new_account_pool_def levels_ok_def acct_def acc_max_backoff_level_def)
  then show ?thesis by (rule conjunct2 [OF reports_never_panic])
qed

end
