(* ===== verification/KeyLimits.thy ===== *)
theory KeyLimits
  imports Prelude
begin

text \<open>
  internal/auth/keylimits.go: the per-key request limit on a fixed one-minute window, the
  per-key daily token budget and the per-provider daily budget with priority tiers.

  The UTC day stamp \<^verbatim>\<open>2006-01-02\<close> is the day number; the empty stamp of a fresh record is
  \<open>None\<close>. Every operation takes its one clock reading as an argument.
\<close>

record key_usage =
  rpm_window_start :: time
  rpm_count :: int
  key_day :: "int option"
  key_tokens :: int

record provider_usage =
  prov_day :: "int option"
  prov_tokens :: int

record usage_tracker =
  ut_keys :: "(string, key_usage) gomap"
  ut_prov :: "(string, provider_usage) gomap"

definition new_key_usage_tracker :: usage_tracker where
  "new_key_usage_tracker = \<lparr>ut_keys = [], ut_prov = []\<rparr>"

definition day_stamp :: "time \<Rightarrow> int" where
  "day_stamp now = now div (24 * 60 * minute)"

definition empty_key_usage :: key_usage where
  "empty_key_usage = \<lparr>rpm_window_start = zero_time, rpm_count = 0, key_day = None, key_tokens = 0\<rparr>"

definition empty_provider_usage :: provider_usage where
  "empty_provider_usage = \<lparr>prov_day = None, prov_tokens = 0\<rparr>"

definition roll_day :: "time \<Rightarrow> key_usage \<Rightarrow> key_usage" where
  "roll_day now u =
     (if key_day u \<noteq> Some (day_stamp now) then u\<lparr>key_day := Some (day_stamp now), key_tokens := 0\<rparr> else u)"

definition allow_request :: "time \<Rightarrow> string \<Rightarrow> int \<Rightarrow> usage_tracker \<Rightarrow> bool \<times> usage_tracker" where
  "allow_request now key max_rpm t =
     (if max_rpm \<le> 0 then (True, t)
      else
        let u = roll_day now (get_or empty_key_usage (ut_keys t) key);
            u = (if now - rpm_window_start u \<ge> minute then u\<lparr>rpm_window_start := now, rpm_count := 0\<rparr> else u)
        in if rpm_count u \<ge> max_rpm then (False, t\<lparr>ut_keys := put key u (ut_keys t)\<rparr>)
           else (True, t\<lparr>ut_keys := put key (u\<lparr>rpm_count := rpm_count u + 1\<rparr>) (ut_keys t)\<rparr>))"

definition charge_key_tokens :: "time \<Rightarrow> string \<Rightarrow> int \<Rightarrow> int \<Rightarrow> usage_tracker \<Rightarrow> bool \<times> usage_tracker" where
  "charge_key_tokens now key budget tokens t =
     (if budget \<le> 0 \<or> tokens \<le> 0 then (True, t)
      else
        let u = roll_day now (get_or empty_key_usage (ut_keys t) key)
        in if key_tokens u + tokens > budget then (False, t\<lparr>ut_keys := put key u (ut_keys t)\<rparr>)
           else (True, t\<lparr>ut_keys := put key (u\<lparr>key_tokens := key_tokens u + tokens\<rparr>) (ut_keys t)\<rparr>))"

definition allow_provider_tokens ::
  "time \<Rightarrow> string \<Rightarrow> string \<Rightarrow> int \<Rightarrow> int \<Rightarrow> usage_tracker \<Rightarrow> bool \<times> usage_tracker" where
  "allow_provider_tokens now prov tier budget tokens t =
     (if budget \<le> 0 \<or> tokens \<le> 0 then (True, t)
      else
        let u = get_or empty_provider_usage (ut_prov t) prov;
            u = (if prov_day u \<noteq> Some (day_stamp now)
                 then u\<lparr>prov_day := Some (day_stamp now), prov_tokens := 0\<rparr> else u)
        in if prov_tokens u + tokens > budget \<and> tier \<noteq> ''always''
           then (False, t\<lparr>ut_prov := put prov u (ut_prov t)\<rparr>)
           else (True, t\<lparr>ut_prov := put prov (u\<lparr>prov_tokens := prov_tokens u + tokens\<rparr>) (ut_prov t)\<rparr>))"

text \<open>\<^verbatim>\<open>Snapshot\<close>: per key (requests, tokens of today), per provider tokens of today.\<close>

definition usage_snapshot :: "time \<Rightarrow> usage_tracker \<Rightarrow> (string, int \<times> int) gomap \<times> (string, int) gomap" where
  "usage_snapshot now t =
     (map (\<lambda>(name, u). (name, rpm_count u, if key_day u \<noteq> Some (day_stamp now) then 0 else key_tokens u)) (ut_keys t),
      map (\<lambda>(name, u). (name, if prov_day u \<noteq> Some (day_stamp now) then 0 else prov_tokens u)) (ut_prov t))"

subsection \<open>Runs\<close>

datatype usage_op = UAllow time string int
  | UCharge time string int int
  | UProvider time string string int int

fun usage_do :: "usage_tracker \<Rightarrow> usage_op \<Rightarrow> bool \<times> usage_tracker" where
  "usage_do t (UAllow now key m) = allow_request now key m t"
| "usage_do t (UCharge now key budget tokens) = charge_key_tokens now key budget tokens t"
| "usage_do t (UProvider now prov tier budget tokens) = allow_provider_tokens now prov tier budget tokens t"

definition usage_step :: "usage_tracker \<Rightarrow> usage_op \<Rightarrow> usage_tracker" where
  "usage_step t x = snd (usage_do t x)"

text \<open>The weight of the accepted operations of a run: \<open>w\<close> gives each operation's weight.\<close>

fun accepted :: "(usage_op \<Rightarrow> int) \<Rightarrow> usage_tracker \<Rightarrow> usage_op list \<Rightarrow> int" where
  "accepted w t [] = 0"
| "accepted w t (x # xs) = (if fst (usage_do t x) then w x else 0) + accepted w (usage_step t x) xs"

text \<open>No count or sum is negative.\<close>

definition usage_ok :: "usage_tracker \<Rightarrow> bool" where
  "usage_ok t \<longleftrightarrow> all_entries (\<lambda>k u. 0 \<le> rpm_count u \<and> 0 \<le> key_tokens u) (ut_keys t)
     \<and> all_entries (\<lambda>k u. 0 \<le> prov_tokens u) (ut_prov t)"

lemma usage_ok_new: "usage_ok new_key_usage_tracker"
  by (simp add: usage_ok_def new_key_usage_tracker_def)

lemma usage_okD:
  assumes "usage_ok t"
  shows "0 \<le> rpm_count (get_or empty_key_usage (ut_keys t) k)"
    and "0 \<le> key_tokens (get_or empty_key_usage (ut_keys t) k)"
    and "0 \<le> prov_tokens (get_or empty_provider_usage (ut_prov t) p)"
  using assms by (auto simp: usage_ok_def get_or_def empty_key_usage_def empty_provider_usage_def
      dest: all_entriesD split: option.splits)

lemma roll_day_simps [simp]:
  "rpm_count (roll_day now u) = rpm_count u"
  "rpm_window_start (roll_day now u) = rpm_window_start u"
  "key_tokens (roll_day now u) = (if key_day u = Some (day_stamp now) then key_tokens u else 0)"
  "key_day (roll_day now u) = Some (day_stamp now)"
  by (simp_all add: roll_day_def)

lemma usage_step_inv: "usage_ok t \<Longrightarrow> usage_ok (usage_step t x)"
  using usage_okD [of t]
  by (cases x) (auto simp: usage_step_def allow_request_def charge_key_tokens_def allow_provider_tokens_def
      Let_def usage_ok_def intro!: all_entries_put)

interpretation usage: machine usage_step usage_ok
  by unfold_locales (rule usage_step_inv)

subsection \<open>The request limit\<close>

text \<open>The requests of key \<open>k\<close>.\<close>

fun request_of :: "string \<Rightarrow> usage_op \<Rightarrow> int" where
  "request_of k (UAllow now key m) = (if key = k then 1 else 0)"
| "request_of k _ = 0"

text \<open>Each request of key \<open>k\<close> comes at an instant of \<open>[s, s + 1min)\<close> with a limit of at most \<open>m\<close>.\<close>

fun in_minute :: "string \<Rightarrow> time \<Rightarrow> int \<Rightarrow> usage_op \<Rightarrow> bool" where
  "in_minute k s m (UAllow now key r) = (key = k \<longrightarrow> s \<le> now \<and> now < s + minute \<and> 0 < r \<and> r \<le> m)"
| "in_minute k s m _ = True"

abbreviation usage_of :: "usage_tracker \<Rightarrow> string \<Rightarrow> key_usage" where
  "usage_of t k \<equiv> get_or empty_key_usage (ut_keys t) k"

text \<open>What remains of the limit: the open window's room, and a whole further window if one can still open.\<close>

definition rpm_room :: "string \<Rightarrow> time \<Rightarrow> int \<Rightarrow> usage_tracker \<Rightarrow> int" where
  "rpm_room k s m t = max 0 (m - rpm_count (usage_of t k)) + (if s \<le> rpm_window_start (usage_of t k) then 0 else m)"

lemma rpm_room_step:
  assumes "usage_ok t" and "in_minute k s m x" and "0 \<le> m"
  shows "(if fst (usage_do t x) then request_of k x else 0) + rpm_room k s m (usage_step t x) \<le> rpm_room k s m t"
proof (cases x)
  case (UAllow now key r)
  have c: "0 \<le> rpm_count (usage_of t k)" using usage_okD [OF assms(1)] by blast
  show ?thesis
  proof (cases "key = k")
    case True
    then show ?thesis
      using UAllow assms(2,3) c
      by (auto simp: rpm_room_def usage_step_def allow_request_def Let_def unit_defs)
  next
    case False
    then show ?thesis
      using UAllow by (simp add: rpm_room_def usage_step_def allow_request_def Let_def)
  qed
next
  case (UCharge now key budget tokens)
  then show ?thesis by (auto simp: rpm_room_def usage_step_def charge_key_tokens_def Let_def)
next
  case (UProvider now prov tier budget tokens)
  then show ?thesis by (auto simp: rpm_room_def usage_step_def allow_provider_tokens_def Let_def)
qed

lemma rpm_room_run:
  "usage_ok t \<Longrightarrow> \<forall>x \<in> set xs. in_minute k s m x \<Longrightarrow> 0 \<le> m \<Longrightarrow> accepted (request_of k) t xs \<le> rpm_room k s m t"
proof (induction xs arbitrary: t)
  case Nil
  then show ?case by (simp add: rpm_room_def)
next
  case (Cons x xs)
  have "accepted (request_of k) (usage_step t x) xs \<le> rpm_room k s m (usage_step t x)"
    using Cons.prems by (intro Cons.IH) (auto intro: usage_step_inv)
  with rpm_room_step [OF Cons.prems(1), of k s m x] Cons.prems show ?case by simp
qed

text \<open>
  C26: the request limit bounds bursts. In any run of operations of the tracker on any keys and
  providers, the number of requests of one key that are admitted within any span of a minute
  is at most twice the limit in force (the fixed window can be used up on both sides of its
  boundary, and never more), whatever the other operations are.
\<close>

theorem request_limit_bounds_any_minute:
  assumes "\<forall>x \<in> set xs. in_minute k s m x" and "0 \<le> m"
  shows "accepted (request_of k) (run_ops usage_step new_key_usage_tracker before) xs \<le> 2 * m"
proof -
  let ?t = "run_ops usage_step new_key_usage_tracker before"
  have ok: "usage_ok ?t" by (intro usage.run_inv usage_ok_new)
  from rpm_room_run [OF ok assms]
  have "accepted (request_of k) ?t xs \<le> rpm_room k s m ?t" .
  also have "\<dots> \<le> 2 * m" using usage_okD(1) [OF ok, of k] assms(2) by (simp add: rpm_room_def)
  finally show ?thesis .
qed

text \<open>The bound is reached across a window boundary.\<close>

theorem request_limit_bounds_any_minute_witness:
  "accepted (request_of ''k'')
     (run_ops usage_step new_key_usage_tracker [UAllow 0 ''k'' 3])
     [UAllow (59 * second) ''k'' 3, UAllow (59 * second) ''k'' 3, UAllow (59 * second) ''k'' 3,
      UAllow (61 * second) ''k'' 3, UAllow (61 * second) ''k'' 3, UAllow (61 * second) ''k'' 3,
      UAllow (61 * second) ''k'' 3] \<le> 2 * 3"
  by (rule request_limit_bounds_any_minute [where s = "59 * second"]) (simp_all add: unit_defs)

subsection \<open>The daily budgets\<close>

fun charge_of :: "string \<Rightarrow> usage_op \<Rightarrow> int" where
  "charge_of k (UCharge now key budget tokens) = (if key = k then max 0 tokens else 0)"
| "charge_of k _ = 0"

text \<open>Each charge to key \<open>k\<close> is made on day \<open>d\<close> under a budget between 1 and \<open>b\<close>; so are its requests.\<close>

fun on_day :: "string \<Rightarrow> int \<Rightarrow> int \<Rightarrow> usage_op \<Rightarrow> bool" where
  "on_day k d b (UCharge now key budget tokens) = (key = k \<longrightarrow> day_stamp now = d \<and> 0 < budget \<and> budget \<le> b)"
| "on_day k d b (UAllow now key m) = (key = k \<longrightarrow> day_stamp now = d)"
| "on_day k d b _ = True"

definition token_room :: "string \<Rightarrow> int \<Rightarrow> int \<Rightarrow> usage_tracker \<Rightarrow> int" where
  "token_room k d b t =
     max 0 (b - (if key_day (usage_of t k) = Some d then key_tokens (usage_of t k) else 0))"

lemma token_room_step:
  assumes "usage_ok t" and "on_day k d b x" and "0 \<le> b"
  shows "(if fst (usage_do t x) then charge_of k x else 0) + token_room k d b (usage_step t x) \<le> token_room k d b t"
proof (cases x)
  case (UAllow now key r)
  then show ?thesis
    using assms by (auto simp: token_room_def usage_step_def allow_request_def Let_def)
next
  case (UCharge now key budget tokens)
  have c: "0 \<le> key_tokens (usage_of t k)" using usage_okD [OF assms(1)] by blast
  show ?thesis
    using UCharge assms(2,3) c
    by (auto simp: token_room_def usage_step_def charge_key_tokens_def Let_def)
next
  case (UProvider now prov tier budget tokens)
  then show ?thesis by (auto simp: token_room_def usage_step_def allow_provider_tokens_def Let_def)
qed

lemma token_room_run:
  "usage_ok t \<Longrightarrow> \<forall>x \<in> set xs. on_day k d b x \<Longrightarrow> 0 \<le> b \<Longrightarrow> accepted (charge_of k) t xs \<le> token_room k d b t"
proof (induction xs arbitrary: t)
  case Nil
  then show ?case by (simp add: token_room_def)
next
  case (Cons x xs)
  have "accepted (charge_of k) (usage_step t x) xs \<le> token_room k d b (usage_step t x)"
    using Cons.prems by (intro Cons.IH) (auto intro: usage_step_inv)
  with token_room_step [OF Cons.prems(1), of k d b x] Cons.prems show ?case by simp
qed



text \<open>The tokens a provider has used on the day of \<open>now\<close>.\<close>

definition provider_used :: "usage_tracker \<Rightarrow> string \<Rightarrow> time \<Rightarrow> int" where
  "provider_used t p now =
     (let u = get_or empty_provider_usage (ut_prov t) p in if prov_day u = Some (day_stamp now) then prov_tokens u else 0)"

text \<open>
  Provider tiers. For a positive budget and charge, the tier \<open>always\<close> is served whatever
  is left and its tokens are counted even into exhaustion; every other tier, the empty string
  among them, is served exactly when the charge fits the day's remaining budget, and a refused
  charge counts nothing. No other provider's usage changes.
\<close>

theorem provider_tier_semantics:
  assumes "0 < budget" and "0 < tokens"
  shows "fst (allow_provider_tokens now p tier budget tokens t) =
       (tier = ''always'' \<or> provider_used t p now + tokens \<le> budget)
     \<and> provider_used (snd (allow_provider_tokens now p tier budget tokens t)) q now =
       provider_used t q now
         + (if q = p \<and> fst (allow_provider_tokens now p tier budget tokens t) then tokens else 0)"
  using assms by (auto simp: allow_provider_tokens_def provider_used_def Let_def)

theorem provider_tier_semantics_witness:
  "\<not> fst (allow_provider_tokens 0 ''p'' [] 10 11 new_key_usage_tracker)
     \<and> fst (allow_provider_tokens 0 ''p'' ''always'' 10 11 new_key_usage_tracker)"
  using provider_tier_semantics [of 10 11 0 "''p''" "[]" new_key_usage_tracker "''p''"]
    provider_tier_semantics [of 10 11 0 "''p''" "''always''" new_key_usage_tracker "''p''"]
  by (simp add: provider_used_def new_key_usage_tracker_def empty_provider_usage_def)

end
