(* ===== verification/Rbac.thy ===== *)
theory Rbac
  imports Prelude
begin

text \<open>
  internal/auth/rbac.go: what an API key may do. A nil key is \<open>None\<close>; a permission value other
  than a boolean is \<open>None\<close>. The role table is data, as in the source.
\<close>

datatype permission = PermissionChat | PermissionModels | PermissionEmbed | PermissionMetrics
  | PermissionAdmin | PermissionBYOK

record api_key =
  roles :: "string list"
  allowed_agents :: "string list"
  allowed_endpoints :: "string list"
  allowed_tools :: "string list"
  permissions :: "(string, bool option) gomap"

definition role_permissions :: "(string, permission list) gomap" where
  "role_permissions =
    [(''admin'', [PermissionChat, PermissionModels, PermissionEmbed, PermissionMetrics, PermissionAdmin, PermissionBYOK]),
     (''user'', [PermissionChat, PermissionModels, PermissionEmbed]),
     (''read-only'', [PermissionModels, PermissionMetrics])]"

definition has_permission :: "string \<Rightarrow> permission \<Rightarrow> bool" where
  "has_permission role perm = (case map_of role_permissions role of
     None \<Rightarrow> False | Some perms \<Rightarrow> List.member perms perm)"

definition key_may_byok :: "api_key option \<Rightarrow> bool" where
  "key_may_byok k = (case k of None \<Rightarrow> False | Some k \<Rightarrow>
     (if list_ex (\<lambda>r. has_permission r PermissionBYOK) (roles k) then True
      else case map_of (permissions k) ''byok'' of
        None \<Rightarrow> False
      | Some v \<Rightarrow> (case v of None \<Rightarrow> False | Some allowed \<Rightarrow> allowed)))"

definition roles_recognized :: "api_key option \<Rightarrow> bool" where
  "roles_recognized k = (case k of None \<Rightarrow> False | Some k \<Rightarrow>
     (if roles k = [] then False
      else list_all (\<lambda>r. map_of role_permissions r \<noteq> None) (roles k)))"

definition has_admin_role :: "api_key \<Rightarrow> bool" where
  "has_admin_role k = list_ex (\<lambda>r. r = ''admin'') (roles k)"

definition authorize_agent :: "api_key option \<Rightarrow> string \<Rightarrow> bool" where
  "authorize_agent key agent = (case key of None \<Rightarrow> False | Some k \<Rightarrow>
     (if \<not> roles_recognized key then False
      else if has_admin_role k then True
      else if allowed_agents k = [] then True
      else List.member (allowed_agents k) agent))"

definition canonical_chat_request :: "string \<Rightarrow> string \<Rightarrow> string option" where
  "canonical_chat_request meth path =
     (if meth \<noteq> ''POST'' then None
      else if path = ''/v1/chat/completions'' \<or> path = ''/v1/messages''
      then Some ''POST /v1/chat/completions'' else None)"

definition matches_allowed_endpoints :: "string list \<Rightarrow> string \<Rightarrow> string \<Rightarrow> bool" where
  "matches_allowed_endpoints allowed meth path =
     (let requested = meth @ '' '' @ path in
      if List.member allowed requested then True
      else case canonical_chat_request meth path of
        Some canonical \<Rightarrow> (if canonical \<noteq> requested then List.member allowed canonical else False)
      | None \<Rightarrow> False)"

definition authorize_mcp_tool :: "api_key option \<Rightarrow> string \<Rightarrow> string \<Rightarrow> bool" where
  "authorize_mcp_tool key server tool = (case key of None \<Rightarrow> False | Some k \<Rightarrow>
     (if \<not> roles_recognized key then False
      else if has_admin_role k then True
      else if allowed_tools k = [] then True
      else
        let namespaced = server @ ''__'' @ tool; wildcard = server @ ''__*''
        in list_ex (\<lambda>allowed. if allowed = namespaced \<or> allowed = wildcard then True
             else \<not> str_contains allowed ''__'' \<and> allowed = tool) (allowed_tools k)))"

definition mcp_grant_touches_server :: "api_key option \<Rightarrow> string \<Rightarrow> bool" where
  "mcp_grant_touches_server key server = (case key of None \<Rightarrow> False | Some k \<Rightarrow>
     (if \<not> roles_recognized key then False
      else if has_admin_role k then True
      else if allowed_tools k = [] then True
      else
        let prefix = server @ ''__''
        in list_ex (\<lambda>allowed. if \<not> str_contains allowed ''__'' then True else has_prefix allowed prefix)
             (allowed_tools k)))"

text \<open>The loop over the roles at the end of \<^verbatim>\<open>AuthorizeEndpoint\<close>.\<close>

fun read_only_gate :: "string list \<Rightarrow> string \<Rightarrow> string \<Rightarrow> bool" where
  "read_only_gate [] meth path = True"
| "read_only_gate (r # rs) meth path =
     (if r = ''read-only'' then
        (if meth \<noteq> ''GET'' then False
         else if path = ''/healthz'' \<or> path = ''/statsz'' \<or> path = ''/metrics'' \<or> path = ''/v1/models''
         then read_only_gate rs meth path else False)
      else read_only_gate rs meth path)"

definition authorize_endpoint :: "api_key option \<Rightarrow> string \<Rightarrow> string \<Rightarrow> bool" where
  "authorize_endpoint key meth path = (case key of None \<Rightarrow> False | Some k \<Rightarrow>
     (if \<not> roles_recognized key then False
      else if has_admin_role k then True
      else if allowed_endpoints k \<noteq> [] then matches_allowed_endpoints (allowed_endpoints k) meth path
      else read_only_gate (roles k) meth path))"

subsection \<open>Fail closed\<close>

lemma read_only_gate_iff:
  "read_only_gate rs meth path \<longleftrightarrow> (''read-only'' \<in> set rs \<longrightarrow>
     meth = ''GET'' \<and> path \<in> {''/healthz'', ''/statsz'', ''/metrics'', ''/v1/models''})"
  by (induction rs) auto

lemma roles_recognized_iff:
  "roles_recognized (Some k) \<longleftrightarrow> roles k \<noteq> [] \<and> set (roles k) \<subseteq> {''admin'', ''user'', ''read-only''}"
  by (auto simp: roles_recognized_def role_permissions_def list_all_iff split: if_splits)

lemma has_admin_role_iff: "has_admin_role k \<longleftrightarrow> ''admin'' \<in> set (roles k)"
  by (auto simp: has_admin_role_def list_ex_iff)

text \<open>
  C28: fail closed. Whatever a key's lists say, it is authorised for an agent, an endpoint or an
  MCP tool only if the key is present, has at least one role and every one of its roles is a
  known one.
\<close>

theorem authorization_fails_closed:
  assumes "authorize_agent key agent \<or> authorize_endpoint key meth path \<or> authorize_mcp_tool key server tool"
  shows "\<exists>k. key = Some k \<and> roles k \<noteq> [] \<and> set (roles k) \<subseteq> {''admin'', ''user'', ''read-only''}"
  using assms
  by (cases key) (auto simp: authorize_agent_def authorize_endpoint_def authorize_mcp_tool_def
      roles_recognized_iff [symmetric] split: if_splits)

definition tool_key :: api_key where
  "tool_key = \<lparr>roles = [''user''], allowed_agents = [], allowed_endpoints = [''POST /v1/chat/completions''],
     allowed_tools = [''files__read'', ''search''], permissions = []\<rparr>"

theorem authorization_fails_closed_witness: "roles tool_key \<noteq> []"
proof -
  have "authorize_agent (Some tool_key) ''a''" by code_simp
  then show ?thesis using authorization_fails_closed [of "Some tool_key" "''a''"] by auto
qed

text \<open>
  Endpoint authority of a key without the admin role. With explicit endpoints exactly the
  listed \<open>METHOD PATH\<close> pairs pass, and the canonical chat entry also covers the messages route
  but not the other way round; without them a read-only key reaches only GET on the four
  monitoring surfaces, even when it also has the user role.
\<close>

theorem endpoint_authority:
  assumes "roles_recognized (Some k)" and "''admin'' \<notin> set (roles k)"
  shows "authorize_endpoint (Some k) meth path =
    (if allowed_endpoints k \<noteq> [] then
       meth @ '' '' @ path \<in> set (allowed_endpoints k)
       \<or> (meth = ''POST'' \<and> path = ''/v1/messages'' \<and> ''POST /v1/chat/completions'' \<in> set (allowed_endpoints k))
     else ''read-only'' \<in> set (roles k) \<longrightarrow>
       meth = ''GET'' \<and> path \<in> {''/healthz'', ''/statsz'', ''/metrics'', ''/v1/models''})"
  using assms
  by (auto simp: authorize_endpoint_def has_admin_role_iff matches_allowed_endpoints_def
      canonical_chat_request_def read_only_gate_iff Let_def)

theorem endpoint_authority_witness:
  "authorize_endpoint (Some tool_key) ''POST'' ''/v1/messages''
     \<and> \<not> authorize_endpoint (Some (tool_key\<lparr>allowed_endpoints := [''POST /v1/messages'']\<rparr>)) ''POST'' ''/v1/chat/completions''"
proof -
  have r: "roles_recognized (Some tool_key)" "''admin'' \<notin> set (roles tool_key)" by code_simp+
  have r': "roles_recognized (Some (tool_key\<lparr>allowed_endpoints := [''POST /v1/messages'']\<rparr>))"
    "''admin'' \<notin> set (roles (tool_key\<lparr>allowed_endpoints := [''POST /v1/messages'']\<rparr>))" by code_simp+
  show ?thesis
    unfolding endpoint_authority [OF r] endpoint_authority [OF r'] by (simp add: tool_key_def)
qed

subsection \<open>MCP tools\<close>

lemma double_underscore: "str_contains (s @ ''__'' @ t) ''__''"
  by (auto simp: str_contains_iff sublist_def)

text \<open>
  The server reachability test is sound and the tool grant is exact. A key may invoke a
  tool only if \<open>mcp_grant_touches_server\<close> holds of the tool's server, so a server whose health
  is skipped is one whose tools the key cannot call; and for a recognised non-admin key with a
  grant, the tool is allowed exactly by the namespaced name, the server wildcard, or the bare
  name where that name itself has no double underscore.
\<close>

theorem tool_grant_within_reach:
  assumes "authorize_mcp_tool key server tool"
  shows "mcp_grant_touches_server key server
    \<and> (\<forall>k. key = Some k \<and> ''admin'' \<notin> set (roles k) \<and> allowed_tools k \<noteq> [] \<longrightarrow>
         server @ ''__'' @ tool \<in> set (allowed_tools k) \<or> server @ ''__*'' \<in> set (allowed_tools k)
         \<or> tool \<in> set (allowed_tools k) \<and> \<not> sublist ''__'' tool)"
proof -
  obtain k where k: "key = Some k" "roles_recognized key"
    using assms by (auto simp: authorize_mcp_tool_def split: option.splits if_splits)
  have p: "has_prefix (server @ ''__'' @ tool) (server @ ''__'')" "has_prefix (server @ ''__*'') (server @ ''__'')"
    by (auto simp: has_prefix_iff)
  show ?thesis
    using assms k p
    by (auto simp: authorize_mcp_tool_def mcp_grant_touches_server_def has_admin_role_iff Let_def
        list_ex_iff str_contains_iff [symmetric] split: if_splits)
qed

theorem tool_grant_within_reach_witness:
  "mcp_grant_touches_server (Some tool_key) ''files''"
proof -
  have "authorize_mcp_tool (Some tool_key) ''files'' ''read''" by code_simp
  then show ?thesis by (rule conjunct1 [OF tool_grant_within_reach])
qed

end
