(* ===== verification/EmbedIndex.thy ===== *)
theory EmbedIndex
  imports Prelude
begin

text \<open>
  internal/infra/embed_index.go: the linear vector index behind the semantic cache. A
  \<^verbatim>\<open>float32\<close> vector is a list of reals and the cosine is the exact real: rounding is not
  modelled. The index's own mutex makes each operation atomic.
\<close>

record embed_index =
  idx_entries :: "(string \<times> real list) list"
  idx_max :: int

definition new_embed_index :: "int \<Rightarrow> embed_index" where
  "new_embed_index max_entries =
     \<lparr>idx_entries = [], idx_max = (if max_entries \<le> 0 then 10000 else max_entries)\<rparr>"

fun dot_norms :: "real list \<Rightarrow> real list \<Rightarrow> real \<times> real \<times> real \<Rightarrow> real \<times> real \<times> real" where
  "dot_norms (a # as) (b # bs) (d, na, nb) = dot_norms as bs (d + a * b, na + a * a, nb + b * b)"
| "dot_norms _ _ acc = acc"

definition cosine_similarity :: "real list \<Rightarrow> real list \<Rightarrow> real" where
  "cosine_similarity a b =
     (if length a \<noteq> length b then 0
      else let (dot, norm_a, norm_b) = dot_norms a b (0, 0, 0)
           in if norm_a = 0 \<or> norm_b = 0 then 0 else dot / (sqrt norm_a * sqrt norm_b))"

definition idx_has :: "string \<Rightarrow> embed_index \<Rightarrow> bool" where
  "idx_has key idx = list_ex (\<lambda>(k, v). k = key) (idx_entries idx)"

fun search_from :: "real list \<Rightarrow> real \<Rightarrow> (string \<times> real list) list \<Rightarrow> string \<times> real \<Rightarrow> string \<times> real" where
  "search_from vec threshold [] best = best"
| "search_from vec threshold ((key, emb) # es) (best_key, best_score) =
     (if length emb \<noteq> length vec then search_from vec threshold es (best_key, best_score)
      else let score = cosine_similarity vec emb
           in if score \<ge> threshold \<and> score > best_score then search_from vec threshold es (key, score)
              else search_from vec threshold es (best_key, best_score))"

definition idx_search :: "real list \<Rightarrow> real \<Rightarrow> embed_index \<Rightarrow> (string \<times> real) option" where
  "idx_search vec threshold idx =
     (let (best_key, best_score) = search_from vec threshold (idx_entries idx) ([], 0)
      in if best_key = [] then None else Some (best_key, best_score))"

definition idx_insert :: "string \<Rightarrow> real list \<Rightarrow> embed_index \<Rightarrow> (bool \<times> bool) \<times> embed_index" where
  "idx_insert key vec idx =
     (if key = [] \<or> vec = [] then ((False, False), idx)
      else if length vec > 8192 then ((False, False), idx)
      else
        let evicted = int (length (idx_entries idx)) \<ge> idx_max idx;
            es = (if evicted then tl (idx_entries idx) else idx_entries idx)
        in ((True, evicted), idx\<lparr>idx_entries := es @ [(key, vec)]\<rparr>))"

fun remove_first :: "string \<Rightarrow> (string \<times> real list) list \<Rightarrow> (string \<times> real list) list" where
  "remove_first key [] = []"
| "remove_first key ((k, v) # es) = (if k = key then es else (k, v) # remove_first key es)"

definition idx_remove :: "string \<Rightarrow> embed_index \<Rightarrow> embed_index" where
  "idx_remove key idx = (if key = [] then idx else idx\<lparr>idx_entries := remove_first key (idx_entries idx)\<rparr>)"

definition idx_len :: "embed_index \<Rightarrow> nat" where
  "idx_len idx = length (idx_entries idx)"

abbreviation idx_keys :: "embed_index \<Rightarrow> string set" where
  "idx_keys idx \<equiv> fst ` set (idx_entries idx)"

subsection \<open>The entries\<close>

definition index_wf :: "embed_index \<Rightarrow> bool" where
  "index_wf idx \<longleftrightarrow> distinct (map fst (idx_entries idx)) \<and> int (length (idx_entries idx)) \<le> idx_max idx
     \<and> 0 < idx_max idx \<and> [] \<notin> idx_keys idx"

lemma index_wf_new: "index_wf (new_embed_index n)"
  by (simp add: index_wf_def new_embed_index_def)

lemma idx_has_iff: "idx_has key idx \<longleftrightarrow> key \<in> idx_keys idx"
  by (force simp: idx_has_def list_ex_iff)

lemma remove_first_set: "distinct (map fst es) \<Longrightarrow> set (remove_first key es) = {(k, v) \<in> set es. k \<noteq> key}"
  by (induction key es rule: remove_first.induct) force+

lemma remove_first_keys: "distinct (map fst es) \<Longrightarrow> fst ` set (remove_first key es) = fst ` set es - {key}"
  by (force simp: remove_first_set)

lemma remove_first_distinct: "distinct (map fst es) \<Longrightarrow> distinct (map fst (remove_first key es))"
  by (induction key es rule: remove_first.induct) (auto simp: remove_first_set)

lemma remove_first_length:
  "length (remove_first key es) + (if key \<in> fst ` set es then 1 else 0) = length es"
  by (induction key es rule: remove_first.induct) (force split: if_splits)+

lemma remove_first_length_le: "length (remove_first key es) \<le> length es"
  using remove_first_length [of key es] by linarith

lemma idx_remove_wf: "index_wf idx \<Longrightarrow> index_wf (idx_remove key idx)"
  using remove_first_length_le [of key "idx_entries idx"]
  by (auto simp: index_wf_def idx_remove_def remove_first_distinct remove_first_keys)

lemma idx_remove_keys: "index_wf idx \<Longrightarrow> idx_keys (idx_remove key idx) = idx_keys idx - {key}"
  by (auto simp: index_wf_def idx_remove_def remove_first_keys)

lemma idx_remove_len:
  "index_wf idx \<Longrightarrow> key \<in> idx_keys idx \<Longrightarrow> int (idx_len (idx_remove key idx)) = int (idx_len idx) - 1"
  using remove_first_length [of key "idx_entries idx"]
  by (cases "key = []") (simp_all add: index_wf_def idx_remove_def idx_len_def split: if_splits)

lemma idx_remove_max [simp]: "idx_max (idx_remove key idx) = idx_max idx"
  by (simp add: idx_remove_def)

lemma idx_insert_max [simp]: "idx_max (snd (idx_insert key vec idx)) = idx_max idx"
  by (simp add: idx_insert_def Let_def)

lemma idx_insert_wf: "index_wf idx \<Longrightarrow> key \<notin> idx_keys idx \<Longrightarrow> index_wf (snd (idx_insert key vec idx))"
  by (cases "idx_entries idx") (auto simp: index_wf_def idx_insert_def Let_def)

lemma idx_insert_keys: "idx_keys (snd (idx_insert key vec idx)) \<subseteq> insert key (idx_keys idx)"
  by (cases "idx_entries idx") (auto simp: idx_insert_def Let_def)

text \<open>Insertion reports the change of the length exactly.\<close>

lemma idx_insert_len:
  assumes "index_wf idx" and "idx_insert key vec idx = ((stored, evicted), idx')"
  shows "int (idx_len idx') = int (idx_len idx) + (if stored then 1 - (if evicted then 1 else 0) else 0)"
  using assms by (cases "idx_entries idx") (auto simp: index_wf_def idx_insert_def idx_len_def Let_def split: if_splits)

subsection \<open>Search\<close>

lemma search_from_best:
  assumes "search_from vec th es (k0, s0) = (k, s)" and "0 \<le> s0"
  shows "s0 \<le> s" and "(k, s) = (k0, s0) \<or>
      (\<exists>emb. (k, emb) \<in> set es \<and> length emb = length vec \<and> s = cosine_similarity vec emb \<and> th \<le> s \<and> 0 < s)"
    and "\<forall>(k', emb) \<in> set es. length emb = length vec \<longrightarrow> th \<le> cosine_similarity vec emb \<longrightarrow>
      cosine_similarity vec emb \<le> s"
proof -
  have "s0 \<le> s \<and> ((k, s) = (k0, s0) \<or>
      (\<exists>emb. (k, emb) \<in> set es \<and> length emb = length vec \<and> s = cosine_similarity vec emb \<and> th \<le> s \<and> 0 < s))
    \<and> (\<forall>(k', emb) \<in> set es. length emb = length vec \<longrightarrow> th \<le> cosine_similarity vec emb \<longrightarrow>
      cosine_similarity vec emb \<le> s)"
    using assms
  proof (induction vec th es "(k0, s0)" arbitrary: k0 s0 rule: search_from.induct)
    case (2 vec th key emb es k0 s0)
    let ?sc = "cosine_similarity vec emb"
    consider "length emb \<noteq> length vec" | "length emb = length vec" "th \<le> ?sc" "s0 < ?sc"
      | "length emb = length vec" "\<not> (th \<le> ?sc \<and> s0 < ?sc)" by blast
    then show ?case
    proof cases
      case 1
      then show ?thesis using "2.hyps"(1) "2.prems" by auto
    next
      case 2
      then have "search_from vec th es (key, ?sc) = (k, s)" "0 \<le> ?sc" using "2.prems" by auto
      then show ?thesis using "2.hyps"(2) 2 "2.prems" by fastforce
    next
      case 3
      then have "search_from vec th es (k0, s0) = (k, s)" using "2.prems" by auto
      then show ?thesis using "2.hyps"(3) 3 "2.prems" by fastforce
    qed
  qed simp
  then show "s0 \<le> s" and "(k, s) = (k0, s0) \<or>
      (\<exists>emb. (k, emb) \<in> set es \<and> length emb = length vec \<and> s = cosine_similarity vec emb \<and> th \<le> s \<and> 0 < s)"
    and "\<forall>(k', emb) \<in> set es. length emb = length vec \<longrightarrow> th \<le> cosine_similarity vec emb \<longrightarrow>
      cosine_similarity vec emb \<le> s" by blast+
qed

lemma idx_search_key:
  assumes "idx_search vec th idx = Some (k, s)"
  shows "k \<in> idx_keys idx"
proof -
  obtain k' s' where r: "search_from vec th (idx_entries idx) ([], 0) = (k', s')" by force
  have "k' = k" "k \<noteq> []" using assms r by (auto simp: idx_search_def split: if_splits)
  then show ?thesis using search_from_best(2) [OF r] by force
qed

end
