(* ===== verification/ResponseCache.thy ===== *)
theory ResponseCache
  imports EmbedIndex
begin

text \<open>
  internal/infra/response_cache.go: the response cache with its recency list, its time to live
  and the similarity index per namespace.

  The recency list is the list of its elements' keys, front first: an element is created for an
  absent key and removed with its entry, so keys stand for elements (the invariant proves them
  distinct). Metrics and logging are left out; the incrementally tracked entry count that feeds
  the gauge is kept. \<^verbatim>\<open>sha256.Sum256\<close> and \<^verbatim>\<open>json.Marshal\<close> are the arguments \<open>sha\<close> and
  \<open>marshal\<close> of the fingerprint.
\<close>

subsection \<open>Fingerprints\<close>

definition cacheable_fields :: "string list" where
  "cacheable_fields = [''model'', ''messages'', ''temperature'', ''top_p'', ''max_tokens'', ''tools'',
     ''tool_choice'', ''response_format'', ''stop'', ''stream'']"

definition hex_digit :: "nat \<Rightarrow> char" where
  "hex_digit n = ''0123456789abcdef'' ! n"

definition hex_encode :: "string \<Rightarrow> string" where
  "hex_encode s = concat (map (\<lambda>c. [hex_digit (byte c div 16), hex_digit (byte c mod 16)]) s)"

fun canonical_payload :: "string list \<Rightarrow> (string, 'v) gomap \<Rightarrow> (string, 'v) gomap" where
  "canonical_payload [] payload = []"
| "canonical_payload (f # fs) payload =
     (case map_of payload f of None \<Rightarrow> canonical_payload fs payload
      | Some v \<Rightarrow> (f, v) # canonical_payload fs payload)"

definition fingerprint_payload_scoped ::
  "(string \<Rightarrow> string) \<Rightarrow> ((string, 'v) gomap \<Rightarrow> string option) \<Rightarrow> (string, 'v) gomap \<Rightarrow> string \<Rightarrow> string \<Rightarrow> string" where
  "fingerprint_payload_scoped sha marshal payload auth_token policy_scope =
     (case marshal (canonical_payload cacheable_fields payload) of
        None \<Rightarrow> []
      | Some data \<Rightarrow>
          (let payload_hash = sha data in
           if auth_token = [] then
             (if policy_scope \<noteq> [] then [] else ''p:'' @ hex_encode payload_hash)
           else
             let namespace = sha (sha auth_token @ sha policy_scope)
             in ''auth:'' @ hex_encode namespace @ '':'' @ hex_encode payload_hash))"

subsection \<open>The cache\<close>

record cache_entry =
  ce_data :: string
  expire_at :: time
  ce_embedding :: "real list option"
  ce_model :: string
  ce_stream :: bool

record response_cache =
  rc_items :: "(string, cache_entry) gomap"
  rc_order :: "string list"
  rc_max_size :: int
  rc_max_bytes :: int
  rc_ttl :: duration
  semantic_enabled :: bool
  similarity_threshold :: real
  has_embedder :: bool
  sem_idx :: "(string, embed_index) gomap"
  semantic_entries :: int

definition semantic_index_max_entries :: int where
  "semantic_index_max_entries = 256"

definition new_response_cache :: "int \<Rightarrow> int \<Rightarrow> duration \<Rightarrow> bool \<Rightarrow> real \<Rightarrow> bool \<Rightarrow> response_cache" where
  "new_response_cache max_size max_bytes ttl semantic threshold embedder =
     \<lparr>rc_items = [], rc_order = [],
      rc_max_size = (if max_size \<le> 0 then 512 else max_size),
      rc_max_bytes = (if max_bytes \<le> 0 then 1048576 else max_bytes),
      rc_ttl = (if ttl \<le> 0 then 60 * minute else ttl),
      semantic_enabled = semantic,
      similarity_threshold = (if threshold \<le> 0 then 9 / 10 else threshold),
      has_embedder = embedder, sem_idx = [], semantic_entries = 0\<rparr>"

abbreviation unit_separator :: char where
  "unit_separator \<equiv> char_of (31 :: nat)"

definition semantic_namespace :: "string \<Rightarrow> string \<Rightarrow> string" where
  "semantic_namespace key model =
     (if \<not> has_prefix key ''auth:'' then ''p'' @ [unit_separator] @ model
      else
        let rest = drop 5 key; segment = takeWhile (\<lambda>c. c \<noteq> CHR '':'') rest
        in if CHR '':'' \<notin> set rest \<or> segment = [] then [unit_separator] @ model
           else segment @ [unit_separator] @ model)"

definition semantic_index_for :: "string \<Rightarrow> response_cache \<Rightarrow> embed_index \<times> response_cache" where
  "semantic_index_for ns c = (case map_of (sem_idx c) ns of
     Some idx \<Rightarrow> (idx, c)
   | None \<Rightarrow> (let idx = new_embed_index semantic_index_max_entries in (idx, c\<lparr>sem_idx := put ns idx (sem_idx c)\<rparr>)))"

definition drop_semantic_key :: "string \<Rightarrow> string \<Rightarrow> response_cache \<Rightarrow> response_cache" where
  "drop_semantic_key key ns c = (case map_of (sem_idx c) ns of
     None \<Rightarrow> c
   | Some idx \<Rightarrow>
      (let (idx, c) =
         (if idx_has key idx
          then (idx_remove key idx,
                c\<lparr>sem_idx := put ns (idx_remove key idx) (sem_idx c), semantic_entries := semantic_entries c - 1\<rparr>)
          else (idx, c))
       in if idx_len idx = 0 then c\<lparr>sem_idx := del ns (sem_idx c)\<rparr> else c))"

text \<open>
  \<^verbatim>\<open>Lookup\<close>: the answer is the data and the kind of hit. \<open>embed_result\<close> is the result of the embedding
  callback: \<open>None\<close> for a nil callback, \<open>Some None\<close> for its error. Lookups change no state.
\<close>

datatype hit_kind = Exact | Semantic

definition lookup_semantic ::
  "time \<Rightarrow> string \<Rightarrow> string \<Rightarrow> bool \<Rightarrow> real list option option \<Rightarrow> response_cache \<Rightarrow> string option" where
  "lookup_semantic now key model stream embed_result c = (case embed_result of
     None \<Rightarrow> None
   | Some r \<Rightarrow> (case r of None \<Rightarrow> None
     | Some vec \<Rightarrow> (case map_of (sem_idx c) (semantic_namespace key model) of None \<Rightarrow> None
       | Some idx \<Rightarrow> (case idx_search vec (similarity_threshold c) idx of None \<Rightarrow> None
         | Some (cached_key, similarity) \<Rightarrow> (case map_of (rc_items c) cached_key of None \<Rightarrow> None
           | Some e \<Rightarrow>
              (if ce_model e = model \<and> ce_stream e = stream \<and> \<not> now > expire_at e
               then Some (ce_data e) else None))))))"

definition cache_lookup ::
  "time \<Rightarrow> time \<Rightarrow> string \<Rightarrow> string \<Rightarrow> bool \<Rightarrow> real list option option \<Rightarrow> response_cache \<Rightarrow> (string \<times> hit_kind) option" where
  "cache_lookup now now_sem key model stream embed_result c =
     (if key = [] then None
      else
        let semantic =
          (if semantic_enabled c \<and> has_embedder c
           then map_option (\<lambda>d. (d, Semantic)) (lookup_semantic now_sem key model stream embed_result c) else None)
        in case map_of (rc_items c) key of
             Some e \<Rightarrow> (if \<not> now > expire_at e then Some (ce_data e, Exact) else semantic)
           | None \<Rightarrow> semantic)"

subsection \<open>Eviction\<close>

text \<open>Removing one list element and its entry, with its vector.\<close>

definition evict_key :: "string \<Rightarrow> response_cache \<Rightarrow> response_cache" where
  "evict_key key c =
     (let c = (case map_of (rc_items c) key of
                 None \<Rightarrow> c
               | Some e \<Rightarrow>
                   (if ce_embedding e \<noteq> None then drop_semantic_key key (semantic_namespace key (ce_model e)) c else c))
      in c\<lparr>rc_order := remove1 key (rc_order c), rc_items := del key (rc_items c)\<rparr>)"

text \<open>The walk from the back of the list; the second argument is the rest of the walk.\<close>

fun evict_expired_walk :: "time \<Rightarrow> string list \<Rightarrow> response_cache \<Rightarrow> nat \<times> response_cache" where
  "evict_expired_walk now [] c = (0, c)"
| "evict_expired_walk now (key # ks) c =
     (case map_of (rc_items c) key of
        Some e \<Rightarrow>
          (if now > expire_at e
           then let (n, c) = evict_expired_walk now ks (evict_key key c) in (Suc n, c)
           else evict_expired_walk now ks c)
      | None \<Rightarrow> evict_expired_walk now ks c)"

definition evict_expired :: "time \<Rightarrow> response_cache \<Rightarrow> nat \<times> response_cache" where
  "evict_expired now c = evict_expired_walk now (rev (rc_order c)) c"

lemma drop_semantic_key_frame [simp]:
  "rc_order (drop_semantic_key k ns c) = rc_order c"
  "rc_items (drop_semantic_key k ns c) = rc_items c"
  "rc_max_size (drop_semantic_key k ns c) = rc_max_size c"
  "rc_max_bytes (drop_semantic_key k ns c) = rc_max_bytes c"
  "rc_ttl (drop_semantic_key k ns c) = rc_ttl c"
  "semantic_enabled (drop_semantic_key k ns c) = semantic_enabled c"
  "similarity_threshold (drop_semantic_key k ns c) = similarity_threshold c"
  "has_embedder (drop_semantic_key k ns c) = has_embedder c"
  by (simp_all add: drop_semantic_key_def Let_def split: option.split)

lemma evict_key_frame [simp]:
  "rc_order (evict_key k c) = remove1 k (rc_order c)"
  "rc_items (evict_key k c) = del k (rc_items c)"
  "rc_max_size (evict_key k c) = rc_max_size c"
  "rc_max_bytes (evict_key k c) = rc_max_bytes c"
  "rc_ttl (evict_key k c) = rc_ttl c"
  "semantic_enabled (evict_key k c) = semantic_enabled c"
  "similarity_threshold (evict_key k c) = similarity_threshold c"
  "has_embedder (evict_key k c) = has_embedder c"
  by (simp_all add: evict_key_def Let_def split: option.split)

function evict_overflow :: "response_cache \<Rightarrow> nat \<times> response_cache" where
  "evict_overflow c =
     (if int (length (rc_items c)) \<ge> rc_max_size c \<and> rc_order c \<noteq> []
      then let (n, c) = evict_overflow (evict_key (last (rc_order c)) c) in (Suc n, c)
      else (0, c))"
  by pat_completeness auto
termination
  by (relation "measure (\<lambda>c. length (rc_order c))") (auto simp: length_remove1)

declare evict_overflow.simps [simp del]

definition evict :: "time \<Rightarrow> response_cache \<Rightarrow> response_cache" where
  "evict now c = snd (evict_overflow (snd (evict_expired now c)))"

subsection \<open>Storing\<close>

definition sync_semantic_index :: "string \<Rightarrow> string \<Rightarrow> real list option \<Rightarrow> response_cache \<Rightarrow> response_cache" where
  "sync_semantic_index key model embedding c =
     (let ns = semantic_namespace key model in
      case embedding of
        None \<Rightarrow> drop_semantic_key key ns c
      | Some vec \<Rightarrow>
          (if vec = [] then drop_semantic_key key ns c
           else
             let (idx, c) = semantic_index_for ns c;
                 (idx, n) = (if idx_has key idx then (idx_remove key idx, semantic_entries c - 1)
                             else (idx, semantic_entries c));
                 ((stored, evicted), idx) = idx_insert key vec idx;
                 n = (if stored then (if evicted then n + 1 - 1 else n + 1) else n)
             in c\<lparr>sem_idx := put ns idx (sem_idx c), semantic_entries := n\<rparr>))"

definition store_entry :: "time \<Rightarrow> string \<Rightarrow> bool \<Rightarrow> string \<Rightarrow> real list option \<Rightarrow> response_cache \<Rightarrow> cache_entry" where
  "store_entry now model stream data embedding c =
     \<lparr>ce_data = data, expire_at = now + rc_ttl c, ce_embedding = embedding, ce_model = model, ce_stream = stream\<rparr>"

definition cache_store ::
  "time \<Rightarrow> time \<Rightarrow> string \<Rightarrow> string \<Rightarrow> bool \<Rightarrow> string \<Rightarrow> real list option \<Rightarrow> response_cache \<Rightarrow> response_cache" where
  "cache_store now_evict now key model stream data embedding c =
     (if key = [] \<or> data = [] then c
      else if int (length data) > rc_max_bytes c then c
      else
        let e = store_entry now model stream data embedding c;
            c = (case map_of (rc_items c) key of
              Some existing \<Rightarrow>
                (let c = c\<lparr>rc_items := put key e (rc_items c), rc_order := key # remove1 key (rc_order c)\<rparr>
                 in if semantic_enabled c \<and> ce_model existing \<noteq> model
                    then drop_semantic_key key (semantic_namespace key (ce_model existing)) c else c)
            | None \<Rightarrow>
                (let c = (if int (length (rc_items c)) \<ge> rc_max_size c then evict now_evict c else c)
                 in c\<lparr>rc_order := key # rc_order c, rc_items := put key e (rc_items c)\<rparr>))
        in if semantic_enabled c then sync_semantic_index key model embedding c else c)"

definition cache_len :: "response_cache \<Rightarrow> nat" where
  "cache_len c = length (rc_items c)"

datatype cache_op = CStore time time string string bool string "real list option" | CSweep time

fun cache_step :: "response_cache \<Rightarrow> cache_op \<Rightarrow> response_cache" where
  "cache_step c (CStore t1 t2 key model stream data emb) = cache_store t1 t2 key model stream data emb c"
| "cache_step c (CSweep now) = evict now c"

end
