(* ===== verification/Cache_Invariant.thy ===== *)
theory Cache_Invariant
  imports ResponseCache
begin

text \<open>
  The invariant of the response cache: the recency list and the entries agree, sizes are
  bounded, the similarity indexes hold only vectors of live entries of their own namespace, and
  the tracked vector count is exact. Every store and every sweep keeps it.
\<close>

definition entry_ok :: "response_cache \<Rightarrow> string \<Rightarrow> cache_entry \<Rightarrow> bool" where
  "entry_ok c k e \<longleftrightarrow> k \<noteq> [] \<and> ce_data e \<noteq> [] \<and> int (length (ce_data e)) \<le> rc_max_bytes c"

definition core_ok :: "response_cache \<Rightarrow> bool" where
  "core_ok c \<longleftrightarrow> gomap_ok (rc_items c) \<and> distinct (rc_order c) \<and> set (rc_order c) = fst ` set (rc_items c)
     \<and> 0 < rc_max_size c \<and> all_entries (entry_ok c) (rc_items c)"

definition sem_ok :: "response_cache \<Rightarrow> bool" where
  "sem_ok c \<longleftrightarrow> gomap_ok (sem_idx c)
     \<and> all_entries (\<lambda>ns idx. index_wf idx \<and> idx_max idx = semantic_index_max_entries) (sem_idx c)
     \<and> semantic_entries c = sum_values (\<lambda>idx. int (idx_len idx)) (sem_idx c)
     \<and> (\<not> semantic_enabled c \<longrightarrow> sem_idx c = [])"

text \<open>Every vector of the index of a namespace satisfies \<open>P\<close>.\<close>

definition indexed :: "(string \<Rightarrow> string \<Rightarrow> bool) \<Rightarrow> response_cache \<Rightarrow> bool" where
  "indexed P c \<longleftrightarrow> (\<forall>ns idx k. map_of (sem_idx c) ns = Some idx \<longrightarrow> k \<in> idx_keys idx \<longrightarrow> P k ns)"

definition live_in :: "response_cache \<Rightarrow> string \<Rightarrow> string \<Rightarrow> bool" where
  "live_in c k ns \<longleftrightarrow> (\<exists>e. map_of (rc_items c) k = Some e \<and> semantic_namespace k (ce_model e) = ns
     \<and> ce_embedding e \<noteq> None)"

definition cache_ok :: "response_cache \<Rightarrow> bool" where
  "cache_ok c \<longleftrightarrow> core_ok c \<and> sem_ok c \<and> indexed (live_in c) c"

definition cache_wf :: "response_cache \<Rightarrow> bool" where
  "cache_wf c \<longleftrightarrow> cache_ok c \<and> int (length (rc_items c)) \<le> rc_max_size c"

lemma indexedI: "(\<And>ns idx k. map_of (sem_idx c) ns = Some idx \<Longrightarrow> k \<in> idx_keys idx \<Longrightarrow> P k ns) \<Longrightarrow> indexed P c"
  by (auto simp: indexed_def)

lemma indexedD: "indexed P c \<Longrightarrow> map_of (sem_idx c) ns = Some idx \<Longrightarrow> k \<in> idx_keys idx \<Longrightarrow> P k ns"
  by (auto simp: indexed_def)

lemma indexed_mono: "indexed P c \<Longrightarrow> (\<And>k ns. P k ns \<Longrightarrow> Q k ns) \<Longrightarrow> indexed Q c"
  by (auto simp: indexed_def)

lemma sem_okD:
  assumes "sem_ok c" and "map_of (sem_idx c) ns = Some idx"
  shows "index_wf idx" and "idx_max idx = semantic_index_max_entries"
  using assms by (auto simp: sem_ok_def dest: all_entriesD)

subsection \<open>Dropping and syncing a vector\<close>

text \<open>The index of the namespace after a drop.\<close>

lemma drop_lookup:
  assumes "sem_ok c"
  shows "map_of (sem_idx (drop_semantic_key key ns c)) n =
    (case map_of (sem_idx c) ns of None \<Rightarrow> map_of (sem_idx c) n
     | Some idx \<Rightarrow>
        (if n = ns then (if idx_len (idx_remove key idx) = 0 then None else Some (idx_remove key idx))
         else map_of (sem_idx c) n))"
proof (cases "map_of (sem_idx c) ns")
  case (Some idx)
  have "idx_remove key idx = idx" if "key \<notin> idx_keys idx"
  proof -
    have "remove_first key es = es" if "key \<notin> fst ` set es" for es
      using that by (induction key es rule: remove_first.induct) auto
    with that show ?thesis by (simp add: idx_remove_def)
  qed
  then show ?thesis
    using Some by (auto simp: drop_semantic_key_def Let_def idx_has_iff map_of_put map_of_del)
qed (simp add: drop_semantic_key_def)

lemma drop_indexed:
  assumes "sem_ok c" and "indexed P c"
  shows "indexed (\<lambda>k n. P k n \<and> \<not> (k = key \<and> n = ns)) (drop_semantic_key key ns c)"
proof (rule indexedI)
  fix n idx k
  assume m: "map_of (sem_idx (drop_semantic_key key ns c)) n = Some idx" and k: "k \<in> idx_keys idx"
  show "P k n \<and> \<not> (k = key \<and> n = ns)"
  proof (cases "map_of (sem_idx c) ns")
    case None
    then have "map_of (sem_idx c) n = Some idx" "n \<noteq> ns" using m unfolding drop_lookup [OF assms(1)] by auto
    then show ?thesis using indexedD [OF assms(2)] k by auto
  next
    case (Some i)
    show ?thesis
    proof (cases "n = ns")
      case True
      then have "idx = idx_remove key i"
        using m Some unfolding drop_lookup [OF assms(1)] by (auto split: if_splits)
      then have "k \<in> idx_keys i" "k \<noteq> key" using k idx_remove_keys [OF sem_okD(1) [OF assms(1) Some]] by auto
      then show ?thesis using indexedD [OF assms(2) Some] True by auto
    next
      case False
      then have "map_of (sem_idx c) n = Some idx" using m Some unfolding drop_lookup [OF assms(1)] by auto
      then show ?thesis using indexedD [OF assms(2)] k False by auto
    qed
  qed
qed

lemma drop_sem_ok:
  assumes ok: "sem_ok c"
  shows "sem_ok (drop_semantic_key key ns c)"
proof (cases "map_of (sem_idx c) ns")
  case None
  then show ?thesis using ok by (simp add: drop_semantic_key_def)
next
  case (Some idx)
  note wf = sem_okD [OF ok Some]
  let ?f = "\<lambda>idx. int (idx_len idx)"
  have g: "gomap_ok (sem_idx c)" "semantic_entries c = sum_values ?f (sem_idx c)"
    "all_entries (\<lambda>ns idx. index_wf idx \<and> idx_max idx = semantic_index_max_entries) (sem_idx c)"
    "semantic_enabled c" using ok Some by (auto simp: sem_ok_def)
  show ?thesis
  proof (cases "idx_has key idx")
    case True
    then have len: "?f (idx_remove key idx) = ?f idx - 1"
      using wf(1) by (simp add: idx_has_iff idx_remove_len)
    show ?thesis
      using True Some g wf len
      by (auto simp: drop_semantic_key_def Let_def sem_ok_def sum_values_put sum_values_del map_of_put
          idx_remove_wf intro!: all_entries_put all_entries_del)
  next
    case False
    then show ?thesis
      using Some g wf
      by (auto simp: drop_semantic_key_def Let_def sem_ok_def sum_values_del intro!: all_entries_del)
  qed
qed

lemma sync_frame [simp]:
  "rc_order (sync_semantic_index k m emb c) = rc_order c"
  "rc_items (sync_semantic_index k m emb c) = rc_items c"
  "rc_max_size (sync_semantic_index k m emb c) = rc_max_size c"
  "rc_max_bytes (sync_semantic_index k m emb c) = rc_max_bytes c"
  "rc_ttl (sync_semantic_index k m emb c) = rc_ttl c"
  "semantic_enabled (sync_semantic_index k m emb c) = semantic_enabled c"
  "similarity_threshold (sync_semantic_index k m emb c) = similarity_threshold c"
  "has_embedder (sync_semantic_index k m emb c) = has_embedder c"
  by (simp_all add: sync_semantic_index_def semantic_index_for_def Let_def split_beta split: option.split)

text \<open>Syncing with a vector, in one equation: the namespace's index loses the key's old vector and gains the new one.\<close>

definition resynced :: "string \<Rightarrow> real list \<Rightarrow> embed_index \<Rightarrow> embed_index" where
  "resynced key vec idx = snd (idx_insert key vec (if idx_has key idx then idx_remove key idx else idx))"

definition index_at :: "string \<Rightarrow> response_cache \<Rightarrow> embed_index" where
  "index_at ns c = get_or (new_embed_index semantic_index_max_entries) (sem_idx c) ns"

lemma sync_eq:
  assumes wf: "index_wf (index_at (semantic_namespace key model) c)" and ne: "vec \<noteq> []"
  shows "sem_idx (sync_semantic_index key model (Some vec) c) =
      put (semantic_namespace key model) (resynced key vec (index_at (semantic_namespace key model) c))
        (case map_of (sem_idx c) (semantic_namespace key model) of
           None \<Rightarrow> put (semantic_namespace key model) (new_embed_index semantic_index_max_entries) (sem_idx c)
         | Some idx \<Rightarrow> sem_idx c)" (is ?A)
    and "semantic_entries (sync_semantic_index key model (Some vec) c) =
      semantic_entries c + int (idx_len (resynced key vec (index_at (semantic_namespace key model) c)))
        - int (idx_len (index_at (semantic_namespace key model) c))" (is ?B)
proof -
  let ?ns = "semantic_namespace key model"
  let ?i = "index_at ?ns c"
  let ?j = "if idx_has key ?i then idx_remove key ?i else ?i"
  have for_eq: "semantic_index_for ?ns c = (?i, c\<lparr>sem_idx := (case map_of (sem_idx c) ?ns of
           None \<Rightarrow> put ?ns (new_embed_index semantic_index_max_entries) (sem_idx c) | Some idx \<Rightarrow> sem_idx c)\<rparr>)"
    by (simp add: semantic_index_for_def index_at_def get_or_def Let_def split: option.split)
  obtain st ev i' where ins: "idx_insert key vec ?j = ((st, ev), i')" by (metis surj_pair)
  have r: "resynced key vec ?i = i'" by (simp add: resynced_def ins)
  have wj: "index_wf ?j" using wf by (simp add: idx_remove_wf)
  have lj: "int (idx_len ?j) = int (idx_len ?i) - (if idx_has key ?i then 1 else 0)"
    using wf by (simp add: idx_has_iff idx_remove_len)
  note li = idx_insert_len [OF wj ins]
  have "sync_semantic_index key model (Some vec) c = c\<lparr>
      sem_idx := put ?ns i' (case map_of (sem_idx c) ?ns of
           None \<Rightarrow> put ?ns (new_embed_index semantic_index_max_entries) (sem_idx c) | Some idx \<Rightarrow> sem_idx c),
      semantic_entries := semantic_entries c - (if idx_has key ?i then 1 else 0)
        + (if st then 1 - (if ev then 1 else 0) else 0)\<rparr>"
  proof (cases "idx_has key ?i")
    case True
    then have "idx_insert key vec (idx_remove key ?i) = ((st, ev), i')" using ins by simp
    then show ?thesis using ne True by (simp add: sync_semantic_index_def Let_def for_eq)
  next
    case False
    then have "idx_insert key vec ?i = ((st, ev), i')" using ins by simp
    then show ?thesis using ne False by (simp add: sync_semantic_index_def Let_def for_eq)
  qed
  then show ?A ?B using lj li by (simp_all add: r)
qed

lemma index_at_wf: "sem_ok c \<Longrightarrow> index_wf (index_at ns c) \<and> idx_max (index_at ns c) = semantic_index_max_entries"
  using index_wf_new [of semantic_index_max_entries] sem_okD [of c ns]
  by (cases "map_of (sem_idx c) ns")
    (simp_all add: index_at_def get_or_def new_embed_index_def semantic_index_max_entries_def)

lemma resynced_wf: "index_wf idx \<Longrightarrow> index_wf (resynced key vec idx)"
  using idx_remove_wf [of idx key] idx_remove_keys [of idx key]
  by (cases "idx_has key idx") (simp_all add: resynced_def idx_insert_wf idx_has_iff del: image_set)

lemma resynced_max [simp]: "idx_max (resynced key vec idx) = idx_max idx"
  by (simp add: resynced_def)

lemma resynced_keys: "idx_keys (resynced key vec idx) \<subseteq> insert key (idx_keys idx)"
proof -
  have "idx_keys (idx_remove key idx) \<subseteq> idx_keys idx"
  proof -
    have "set (remove_first key es) \<subseteq> set es" for es :: "(string \<times> real list) list"
      by (induction key es rule: remove_first.induct) auto
    then show ?thesis by (auto simp: idx_remove_def)
  qed
  then have "insert key (idx_keys (idx_remove key idx)) \<subseteq> insert key (idx_keys idx)" by (rule insert_mono)
  with idx_insert_keys [of key vec "idx_remove key idx"]
  have "idx_keys (snd (idx_insert key vec (idx_remove key idx))) \<subseteq> insert key (idx_keys idx)" by (rule order_trans)
  with idx_insert_keys [of key vec idx] show ?thesis by (simp add: resynced_def)
qed

lemma sync_sem_ok:
  assumes ok: "sem_ok c" and en: "semantic_enabled c"
  shows "sem_ok (sync_semantic_index key model emb c)"
proof (cases "emb = None \<or> emb = Some []")
  case True
  then have "sync_semantic_index key model emb c = drop_semantic_key key (semantic_namespace key model) c"
    by (auto simp: sync_semantic_index_def)
  then show ?thesis using drop_sem_ok [OF ok] by simp
next
  case False
  then obtain vec where v: "emb = Some vec" "vec \<noteq> []" by auto
  note wf = index_at_wf [OF ok, of "semantic_namespace key model"]
  note eq = sync_eq [OF conjunct1 [OF wf] v(2)]
  have z: "idx_len (new_embed_index n) = 0" for n by (simp add: idx_len_def new_embed_index_def)
  have m: "idx_max (new_embed_index semantic_index_max_entries) = semantic_index_max_entries"
    by (simp add: new_embed_index_def semantic_index_max_entries_def)
  have g: "gomap_ok (sem_idx c)" "semantic_entries c = sum_values (\<lambda>idx. int (idx_len idx)) (sem_idx c)"
    "all_entries (\<lambda>ns idx. index_wf idx \<and> idx_max idx = semantic_index_max_entries) (sem_idx c)"
    using ok by (auto simp: sem_ok_def)
  let ?ns = "semantic_namespace key model"
  let ?b = "case map_of (sem_idx c) ?ns of None \<Rightarrow> put ?ns (new_embed_index semantic_index_max_entries) (sem_idx c)
      | Some idx \<Rightarrow> sem_idx c"
  have b: "gomap_ok ?b" "sum_values (\<lambda>idx. int (idx_len idx)) ?b = semantic_entries c"
    "all_entries (\<lambda>ns idx. index_wf idx \<and> idx_max idx = semantic_index_max_entries) ?b"
    "map_of ?b ?ns = Some (index_at ?ns c)"
    using g all_entries_put [OF g(3), of "new_embed_index semantic_index_max_entries" ?ns]
    by (cases "map_of (sem_idx c) ?ns";
        simp add: sum_values_put z m index_wf_new index_at_def get_or_def map_of_put
          del: map_of_eq_Some_iff)+
  show ?thesis
    unfolding sem_ok_def v(1) eq sync_frame sum_values_put b(2) b(4)
    using b en wf resynced_wf [OF conjunct1 [OF wf], of key vec]
    by (simp add: all_entries_put del: map_of_eq_None_iff)
qed

lemma sync_indexed:
  assumes ok: "sem_ok c" and ix: "indexed P c"
  shows "indexed (\<lambda>k n. (P k n \<and> \<not> (k = key \<and> n = semantic_namespace key model))
      \<or> (k = key \<and> n = semantic_namespace key model \<and> (\<exists>v. emb = Some v \<and> v \<noteq> [])))
    (sync_semantic_index key model emb c)"
proof (cases "emb = None \<or> emb = Some []")
  case True
  then have eq: "sync_semantic_index key model emb c = drop_semantic_key key (semantic_namespace key model) c"
    by (auto simp: sync_semantic_index_def)
  show ?thesis unfolding eq by (rule indexed_mono [OF drop_indexed [OF ok ix]]) blast
next
  case False
  then obtain vec where v: "emb = Some vec" "vec \<noteq> []" by auto
  let ?ns = "semantic_namespace key model"
  note wf = index_at_wf [OF ok, of ?ns]
  note eq = sync_eq [OF conjunct1 [OF wf] v(2)]
  show ?thesis
  proof (rule indexedI)
    fix n idx k
    assume m: "map_of (sem_idx (sync_semantic_index key model emb c)) n = Some idx" and k: "k \<in> idx_keys idx"
    show "(P k n \<and> \<not> (k = key \<and> n = ?ns)) \<or> (k = key \<and> n = ?ns \<and> (\<exists>v. emb = Some v \<and> v \<noteq> []))"
    proof (cases "n = ?ns")
      case True
      then have "idx = resynced key vec (index_at ?ns c)" using m by (simp add: v(1) eq map_of_put)
      then have "k = key \<or> k \<in> idx_keys (index_at ?ns c)" using k resynced_keys [of key vec "index_at ?ns c"] by blast
      moreover have "P k ?ns" if "k \<in> idx_keys (index_at ?ns c)"
        using that indexedD [OF ix]
        by (auto simp: index_at_def get_or_def new_embed_index_def split: option.splits)
      ultimately show ?thesis using v True by auto
    next
      case False
      then have "map_of (sem_idx c) n = Some idx"
        using m by (simp add: v(1) eq map_of_put split: option.splits)
      then show ?thesis using indexedD [OF ix] k False by auto
    qed
  qed
qed

subsection \<open>Eviction\<close>

lemma evict_key_ok:
  assumes ok: "cache_ok c"
  shows "cache_ok (evict_key key c)"
proof -
  let ?c = "evict_key key c"
  have core: "core_ok c" and sem: "sem_ok c" and ix: "indexed (live_in c) c" using ok by (auto simp: cache_ok_def)
  have "core_ok ?c"
    using core by (simp add: core_ok_def entry_ok_def [abs_def] gomap_ok_del keys_del del: image_set)
  moreover have "sem_ok ?c"
    using drop_sem_ok [OF sem] sem
    by (auto simp: evict_key_def Let_def sem_ok_def split: option.split)
  moreover have "indexed (live_in ?c) ?c"
  proof (rule indexedI)
    fix ns idx k
    assume m: "map_of (sem_idx ?c) ns = Some idx" and k: "k \<in> idx_keys idx"
    have "live_in c k ns \<and> k \<noteq> key"
    proof (cases "\<exists>e. map_of (rc_items c) key = Some e \<and> ce_embedding e \<noteq> None")
      case True
      then obtain e where e: "map_of (rc_items c) key = Some e" "ce_embedding e \<noteq> None" by blast
      then have "sem_idx ?c = sem_idx (drop_semantic_key key (semantic_namespace key (ce_model e)) c)"
        by (simp add: evict_key_def)
      then have "live_in c k ns \<and> \<not> (k = key \<and> ns = semantic_namespace key (ce_model e))"
        using indexedD [OF drop_indexed [OF sem ix]] m k by simp
      then show ?thesis using e by (auto simp: live_in_def)
    next
      case False
      then have "sem_idx ?c = sem_idx c" by (auto simp: evict_key_def Let_def split: option.split)
      then have "live_in c k ns" using indexedD [OF ix] m k by simp
      then show ?thesis using False by (auto simp: live_in_def)
    qed
    then show "live_in ?c k ns" by (auto simp: live_in_def map_of_del)
  qed
  ultimately show ?thesis by (simp add: cache_ok_def)
qed

lemma evict_key_length: "length (rc_items (evict_key key c)) \<le> length (rc_items c)"
  by (simp add: length_delete_le)

text \<open>What both eviction loops keep.\<close>

lemma evict_expired_walk_ok:
  "cache_ok c \<Longrightarrow> cache_ok (snd (evict_expired_walk now ks c))"
  by (induction now ks c rule: evict_expired_walk.induct) (auto simp: evict_key_ok split: option.split prod.split)

lemma evict_expired_walk_frame:
  "rc_max_size (snd (evict_expired_walk now ks c)) = rc_max_size c
   \<and> rc_max_bytes (snd (evict_expired_walk now ks c)) = rc_max_bytes c
   \<and> rc_ttl (snd (evict_expired_walk now ks c)) = rc_ttl c
   \<and> semantic_enabled (snd (evict_expired_walk now ks c)) = semantic_enabled c
   \<and> length (rc_items (snd (evict_expired_walk now ks c))) \<le> length (rc_items c)"
proof (induction now ks c rule: evict_expired_walk.induct)
  case (2 now key ks c)
  show ?case
  proof (cases "map_of (rc_items c) key")
    case None
    then show ?thesis using "2.IH"(1) by simp
  next
    case (Some e)
    then show ?thesis
      using "2.IH"(2) [OF Some] "2.IH"(3) [OF Some] evict_key_length [of key c]
      by (cases "now > expire_at e") (simp_all add: split_beta)
  qed
qed simp

lemma evict_overflow_go:
  "rc_max_size c \<le> int (length (rc_items c)) \<Longrightarrow> rc_order c \<noteq> [] \<Longrightarrow>
     snd (evict_overflow c) = snd (evict_overflow (evict_key (last (rc_order c)) c))"
  by (simp add: evict_overflow.simps [of c] split_beta)

lemma evict_overflow_stop:
  "\<not> (rc_max_size c \<le> int (length (rc_items c)) \<and> rc_order c \<noteq> []) \<Longrightarrow> snd (evict_overflow c) = c"
  by (simp add: evict_overflow.simps [of c] del: of_nat_le_iff) (auto simp: evict_overflow.simps [of c])

lemma evict_overflow_ok: "cache_ok c \<Longrightarrow> cache_ok (snd (evict_overflow c))"
proof (induction c rule: evict_overflow.induct)
  case (1 c)
  then show ?case
    by (cases "rc_max_size c \<le> int (length (rc_items c)) \<and> rc_order c \<noteq> []")
      (simp_all only: evict_overflow_go evict_overflow_stop evict_key_ok simp_thms)
qed

lemma evict_overflow_frame:
  "rc_max_size (snd (evict_overflow c)) = rc_max_size c
   \<and> rc_max_bytes (snd (evict_overflow c)) = rc_max_bytes c
   \<and> rc_ttl (snd (evict_overflow c)) = rc_ttl c
   \<and> semantic_enabled (snd (evict_overflow c)) = semantic_enabled c"
proof (induction c rule: evict_overflow.induct)
  case (1 c)
  show ?case
  proof (cases "rc_max_size c \<le> int (length (rc_items c)) \<and> rc_order c \<noteq> []")
    case True
    then show ?thesis using "1.IH" [OF True] by (simp add: evict_overflow_go)
  next
    case False
    show ?thesis unfolding evict_overflow_stop [OF False] by simp
  qed
qed

lemma core_order_length: "core_ok c \<Longrightarrow> length (rc_order c) = length (rc_items c)"
  by (metis core_ok_def distinct_card length_map list.set_map)

lemma evict_overflow_small:
  "cache_ok c \<Longrightarrow> int (length (rc_items (snd (evict_overflow c)))) < rc_max_size c"
proof (induction c rule: evict_overflow.induct)
  case (1 c)
  show ?case
  proof (cases "rc_max_size c \<le> int (length (rc_items c)) \<and> rc_order c \<noteq> []")
    case True
    then show ?thesis
      using "1.IH" [OF True evict_key_ok [OF "1.prems"]] by (simp add: evict_overflow_go)
  next
    case False
    have "rc_order c = [] \<Longrightarrow> length (rc_items c) = 0" "0 < rc_max_size c"
      using "1.prems" core_order_length [of c] by (auto simp: cache_ok_def core_ok_def)
    then show ?thesis
      using False unfolding evict_overflow_stop [OF False] by linarith
  qed
qed

lemma evict_ok: "cache_ok c \<Longrightarrow> cache_ok (evict now c)"
  by (simp add: evict_def evict_expired_def evict_overflow_ok evict_expired_walk_ok)

lemma evict_small: "cache_ok c \<Longrightarrow> int (length (rc_items (evict now c))) < rc_max_size c"
  using evict_overflow_small [OF evict_expired_walk_ok] evict_expired_walk_frame
  by (simp add: evict_def evict_expired_def)

lemma evict_frame [simp]:
  "rc_max_size (evict now c) = rc_max_size c"
  "rc_max_bytes (evict now c) = rc_max_bytes c"
  "rc_ttl (evict now c) = rc_ttl c"
  "semantic_enabled (evict now c) = semantic_enabled c"
  by (simp_all add: evict_def evict_expired_def evict_overflow_frame evict_expired_walk_frame)

subsection \<open>Storing\<close>

lemma semantic_namespace_inj: "semantic_namespace k m = semantic_namespace k m' \<longleftrightarrow> m = m'"
  by (simp add: semantic_namespace_def Let_def)

text \<open>The cache just before the semantic index is synced.\<close>

definition store_core ::
  "time \<Rightarrow> time \<Rightarrow> string \<Rightarrow> string \<Rightarrow> bool \<Rightarrow> string \<Rightarrow> real list option \<Rightarrow> response_cache \<Rightarrow> response_cache" where
  "store_core t1 t2 key model stream data embedding c =
     (let e = store_entry t2 model stream data embedding c in
      case map_of (rc_items c) key of
        Some existing \<Rightarrow>
          (let c = c\<lparr>rc_items := put key e (rc_items c), rc_order := key # remove1 key (rc_order c)\<rparr>
           in if semantic_enabled c \<and> ce_model existing \<noteq> model
              then drop_semantic_key key (semantic_namespace key (ce_model existing)) c else c)
      | None \<Rightarrow>
          (let c = (if int (length (rc_items c)) \<ge> rc_max_size c then evict t1 c else c)
           in c\<lparr>rc_order := key # rc_order c, rc_items := put key e (rc_items c)\<rparr>))"

lemma cache_store_eq:
  "cache_store t1 t2 key model stream data emb c =
     (if key = [] \<or> data = [] \<or> int (length data) > rc_max_bytes c then c
      else let c = store_core t1 t2 key model stream data emb c
           in if semantic_enabled c then sync_semantic_index key model emb c else c)"
  by (simp add: cache_store_def store_core_def Let_def)

lemma sem_ok_items [simp]:
  "sem_ok (c\<lparr>rc_items := m\<rparr>) = sem_ok c" "sem_ok (c\<lparr>rc_order := o'\<rparr>) = sem_ok c"
  "indexed P (c\<lparr>rc_items := m\<rparr>) = indexed P c" "indexed P (c\<lparr>rc_order := o'\<rparr>) = indexed P c"
  by (simp_all add: sem_ok_def indexed_def)

lemma core_ok_put:
  assumes "core_ok c" and "entry_ok c key e"
  shows "core_ok (c\<lparr>rc_items := put key e (rc_items c), rc_order := key # remove1 key (rc_order c)\<rparr>)"
  using assms by (auto simp: core_ok_def entry_ok_def [abs_def] keys_put all_entries_put simp del: image_set)

lemma put_fits: "int (length m) < n \<Longrightarrow> int (length (put k v m)) \<le> n"
  using length_put_le [of k v m] by linarith

lemma remove1_absent: "core_ok c \<Longrightarrow> map_of (rc_items c) key = None \<Longrightarrow> remove1 key (rc_order c) = rc_order c"
  by (rule remove1_idem) (auto simp: core_ok_def map_of_eq_None_iff)

lemma evict_expired_walk_absent:
  "map_of (rc_items c) key = None \<Longrightarrow> map_of (rc_items (snd (evict_expired_walk now ks c))) key = None"
  by (induction now ks c rule: evict_expired_walk.induct) (auto simp: map_of_del split: option.split prod.split)

lemma evict_overflow_absent:
  "map_of (rc_items c) key = None \<Longrightarrow> map_of (rc_items (snd (evict_overflow c))) key = None"
proof (induction c rule: evict_overflow.induct)
  case (1 c)
  then show ?case by (subst evict_overflow.simps) (auto simp: map_of_del split: prod.split)
qed

lemma evict_absent: "map_of (rc_items c) key = None \<Longrightarrow> map_of (rc_items (evict now c)) key = None"
  by (simp add: evict_def evict_expired_def evict_overflow_absent evict_expired_walk_absent)

lemma store_core_ok:
  assumes wf: "cache_wf c" and e: "key \<noteq> []" "data \<noteq> []" "int (length data) \<le> rc_max_bytes c"
    and c'_def: "c' = store_core t1 t2 key model stream data emb c"
  shows "core_ok c'" "sem_ok c'" "int (length (rc_items c')) \<le> rc_max_size c'"
    "indexed (\<lambda>k ns. live_in c' k ns \<or> k = key \<and> ns = semantic_namespace key model) c'"
    "map_of (rc_items c') key = Some (store_entry t2 model stream data emb c)"
    "semantic_enabled c' = semantic_enabled c"
proof -
  have core: "core_ok c" and sem: "sem_ok c" and ix: "indexed (live_in c) c" and ok: "cache_ok c"
    and len: "int (length (rc_items c)) \<le> rc_max_size c"
    using wf by (auto simp: cache_wf_def cache_ok_def)
  let ?e = "store_entry t2 model stream data emb c"
  have eok: "entry_ok c0 key ?e" if "rc_max_bytes c0 = rc_max_bytes c" for c0
    using e that by (simp add: entry_ok_def store_entry_def)
  have "core_ok c' \<and> sem_ok c' \<and> int (length (rc_items c')) \<le> rc_max_size c'
    \<and> indexed (\<lambda>k ns. live_in c' k ns \<or> k = key \<and> ns = semantic_namespace key model) c'
    \<and> map_of (rc_items c') key = Some ?e \<and> semantic_enabled c' = semantic_enabled c"
  proof (cases "map_of (rc_items c) key")
    case (Some ex)
    let ?c = "c\<lparr>rc_items := put key ?e (rc_items c), rc_order := key # remove1 key (rc_order c)\<rparr>"
    let ?old = "semantic_namespace key (ce_model ex)"
    have c': "c' = (if semantic_enabled c \<and> ce_model ex \<noteq> model then drop_semantic_key key ?old ?c else ?c)"
      using Some by (simp add: c'_def store_core_def Let_def)
    have core': "core_ok ?c" by (rule core_ok_put [OF core eok]) simp
    have sem': "sem_ok ?c" using sem by simp
    have ix': "indexed (live_in c) ?c" using ix by simp
    have still: "live_in ?c k ns \<or> k = key \<and> ns = ?old" if "live_in c k ns" for k ns
      using that Some by (auto simp: live_in_def map_of_put)
    have live: "live_in (drop_semantic_key key ?old ?c) = live_in ?c" by (simp add: live_in_def fun_eq_iff)
    have core_d: "core_ok (drop_semantic_key key ?old ?c)"
      using core' by (simp add: core_ok_def entry_ok_def [abs_def])
    have "indexed (\<lambda>k ns. live_in c' k ns \<or> k = key \<and> ns = semantic_namespace key model) c'"
    proof (cases "semantic_enabled c \<and> ce_model ex \<noteq> model")
      case True
      then show ?thesis
        unfolding c' if_P [OF True] live
        by (intro indexed_mono [OF drop_indexed [OF sem' ix']]) (use still in blast)
    next
      case False
      show ?thesis
      proof (cases "semantic_enabled c")
        case True
        then have "ce_model ex = model" using False by simp
        then show ?thesis
          unfolding c' if_not_P [OF False] by (intro indexed_mono [OF ix']) (use still in blast)
      next
        case no: False
        then have "sem_idx c' = []" using sem unfolding c' if_not_P [OF False] by (simp add: sem_ok_def)
        then show ?thesis by (simp add: indexed_def)
      qed
    qed
    then show ?thesis
      using core' core_d sem' drop_sem_ok [OF sem'] len Some unfolding c' by (auto simp: map_of_put)
  next
    case None
    let ?c = "if int (length (rc_items c)) \<ge> rc_max_size c then evict t1 c else c"
    have c': "c' = ?c\<lparr>rc_order := key # rc_order ?c, rc_items := put key ?e (rc_items ?c)\<rparr>"
      using None by (simp add: c'_def store_core_def Let_def)
    have ok': "cache_ok ?c" using ok evict_ok by simp
    have none: "map_of (rc_items ?c) key = None" using None evict_absent by simp
    have fr: "rc_max_size ?c = rc_max_size c" "rc_max_bytes ?c = rc_max_bytes c" "semantic_enabled ?c = semantic_enabled c" by simp_all
    have small: "int (length (rc_items ?c)) < rc_max_size c" using evict_small [OF ok] len by auto
    have core': "core_ok ?c" and sem': "sem_ok ?c" and ix': "indexed (live_in ?c) ?c"
      using ok' unfolding cache_ok_def by blast+
    have "core_ok c'"
      using core_ok_put [OF core' eok [OF fr(2)]] unfolding remove1_absent [OF core' none] c'
      by (simp add: core_ok_def entry_ok_def [abs_def])
    moreover have "sem_ok c'" using sem' unfolding c' sem_ok_items .
    moreover have "indexed (\<lambda>k ns. live_in c' k ns \<or> k = key \<and> ns = semantic_namespace key model) c'"
      unfolding c' sem_ok_items
      by (rule indexed_mono [OF ix']) (use none in \<open>auto simp: live_in_def map_of_put\<close>)
    moreover have "int (length (rc_items c')) \<le> rc_max_size c'"
    proof -
      have "rc_items c' = put key ?e (rc_items ?c)" "rc_max_size c' = rc_max_size ?c" unfolding c' by simp_all
      then show ?thesis using put_fits [OF small, of key ?e] fr(1) by (simp only:)
    qed
    ultimately show ?thesis using fr unfolding c' by (simp add: map_of_put)
  qed
  then show "core_ok c'" "sem_ok c'" "int (length (rc_items c')) \<le> rc_max_size c'"
    "indexed (\<lambda>k ns. live_in c' k ns \<or> k = key \<and> ns = semantic_namespace key model) c'"
    "map_of (rc_items c') key = Some (store_entry t2 model stream data emb c)"
    "semantic_enabled c' = semantic_enabled c" by blast+
qed

lemma cache_store_wf:
  assumes wf: "cache_wf c"
  shows "cache_wf (cache_store t1 t2 key model stream data emb c)"
proof (cases "key = [] \<or> data = [] \<or> int (length data) > rc_max_bytes c")
  case True
  then show ?thesis using wf by (simp add: cache_store_eq)
next
  case False
  let ?c = "store_core t1 t2 key model stream data emb c"
  note sc = store_core_ok [OF wf _ _ _ refl, of key data t1 t2 model stream emb]
  have sc: "core_ok ?c" "sem_ok ?c" "int (length (rc_items ?c)) \<le> rc_max_size ?c"
    "indexed (\<lambda>k ns. live_in ?c k ns \<or> k = key \<and> ns = semantic_namespace key model) ?c"
    "map_of (rc_items ?c) key = Some (store_entry t2 model stream data emb c)"
    using sc False by auto
  have st: "cache_store t1 t2 key model stream data emb c =
      (if semantic_enabled ?c then sync_semantic_index key model emb ?c else ?c)"
    using False by (simp add: cache_store_eq)
  show ?thesis
  proof (cases "semantic_enabled ?c")
    case True
    have core': "core_ok (sync_semantic_index key model emb ?c)"
      using sc(1) by (simp add: core_ok_def entry_ok_def [abs_def])
    have live: "live_in (sync_semantic_index key model emb ?c) = live_in ?c" by (simp add: live_in_def fun_eq_iff)
    have "indexed (live_in (sync_semantic_index key model emb ?c)) (sync_semantic_index key model emb ?c)"
      unfolding live
      by (rule indexed_mono [OF sync_indexed [OF sc(2,4)]]) (use sc(5) in \<open>auto simp: live_in_def store_entry_def\<close>)
    then show ?thesis
      using True core' sync_sem_ok [OF sc(2) True] sc(3) unfolding st by (simp add: cache_wf_def cache_ok_def)
  next
    case False
    then have "sem_idx ?c = []" using sc(2) by (simp add: sem_ok_def)
    then have "indexed (live_in ?c) ?c" by (simp add: indexed_def)
    then show ?thesis using False sc unfolding st by (simp add: cache_wf_def cache_ok_def)
  qed
qed

lemma evict_wf: "cache_wf c \<Longrightarrow> cache_wf (evict now c)"
  using evict_ok [of c now] evict_small [of c now] by (simp add: cache_wf_def)

lemma new_cache_wf: "cache_wf (new_response_cache n b ttl sem th emb)"
  by (simp add: cache_wf_def cache_ok_def core_ok_def sem_ok_def indexed_def new_response_cache_def)

interpretation cache: machine cache_step cache_wf
proof
  show "cache_wf (cache_step c x)" if "cache_wf c" for c x
    using that by (cases x) (auto simp: cache_store_wf evict_wf)
qed

end
