(* ===== verification/Cache_Props.thy ===== *)
theory Cache_Props
  imports Cache_Invariant
begin

text \<open>
  What the response cache of internal/infra/response_cache.go promises: bounded, consistent
  state, exact hits that replay the last store, semantic hits that stay inside the caller's
  namespace, and the order in which entries are evicted.
\<close>

subsection \<open>Evicting only removes\<close>

lemma evict_expired_walk_sub:
  "map_of (rc_items (snd (evict_expired_walk now ks c))) k = Some e \<Longrightarrow> map_of (rc_items c) k = Some e"
proof (induction now ks c rule: evict_expired_walk.induct)
  case (2 now key ks c)
  then show ?case
    by (cases "map_of (rc_items c) key")
      (auto simp: map_of_del split_beta simp del: map_of_eq_Some_iff split: if_splits)
qed simp

lemma evict_overflow_sub:
  "map_of (rc_items (snd (evict_overflow c))) k = Some e \<Longrightarrow> map_of (rc_items c) k = Some e"
proof (induction c rule: evict_overflow.induct)
  case (1 c)
  show ?case
  proof (cases "rc_max_size c \<le> int (length (rc_items c)) \<and> rc_order c \<noteq> []")
    case True
    note go = evict_overflow_go [OF conjunct1 [OF True] conjunct2 [OF True]]
    have "map_of (rc_items (evict_key (last (rc_order c)) c)) k = Some e"
      using "1.IH" [OF True] "1.prems" unfolding go .
    then show ?thesis by (simp add: map_of_del split: if_splits)
  next
    case False
    then show ?thesis using "1.prems" evict_overflow_stop by simp
  qed
qed

lemma evict_sub: "map_of (rc_items (evict now c)) k = Some e \<Longrightarrow> map_of (rc_items c) k = Some e"
  by (auto simp: evict_def evict_expired_def dest!: evict_overflow_sub evict_expired_walk_sub)

lemma store_core_items:
  "map_of (rc_items (store_core t1 t2 key model stream data emb c)) k =
    (if k = key then Some (store_entry t2 model stream data emb c)
     else if map_of (rc_items c) key = None \<and> int (length (rc_items c)) \<ge> rc_max_size c
     then map_of (rc_items (evict t1 c)) k else map_of (rc_items c) k)"
  by (auto simp: store_core_def Let_def map_of_put split: option.split)

lemma cache_store_items:
  assumes "map_of (rc_items (cache_store t1 t2 key model stream data emb c)) k = Some e"
  shows "map_of (rc_items c) k = Some e
    \<or> k = key \<and> e = store_entry t2 model stream data emb c \<and> key \<noteq> [] \<and> data \<noteq> []
      \<and> int (length data) \<le> rc_max_bytes c"
proof (cases "key = [] \<or> data = [] \<or> int (length data) > rc_max_bytes c")
  case True
  then show ?thesis using assms by (simp add: cache_store_eq)
next
  case False
  then have "map_of (rc_items (store_core t1 t2 key model stream data emb c)) k = Some e"
    using assms by (auto simp: cache_store_eq Let_def split: if_splits)
  then show ?thesis using False unfolding store_core_items by (auto dest: evict_sub split: if_splits)
qed

lemma cache_store_frame [simp]:
  "rc_max_bytes (cache_store t1 t2 key model stream data emb c) = rc_max_bytes c"
  "rc_max_size (cache_store t1 t2 key model stream data emb c) = rc_max_size c"
  "rc_ttl (cache_store t1 t2 key model stream data emb c) = rc_ttl c"
  by (simp_all add: cache_store_eq store_core_def Let_def split: option.split)

lemma cache_step_frame [simp]:
  "rc_max_bytes (cache_step c x) = rc_max_bytes c"
  "rc_max_size (cache_step c x) = rc_max_size c"
  "rc_ttl (cache_step c x) = rc_ttl c"
  by (cases x; simp)+

lemma cache_run_frame [simp]:
  "rc_max_bytes (run_ops cache_step c ops) = rc_max_bytes c"
  "rc_max_size (run_ops cache_step c ops) = rc_max_size c"
  "rc_ttl (run_ops cache_step c ops) = rc_ttl c"
  by (induction ops arbitrary: c) simp_all

subsection \<open>Bounds\<close>

text \<open>
  C30: every reachable cache is bounded and consistent. After any sequence of stores and sweeps
  there are at most \<open>maxSize\<close> entries, each with a non-empty response of at most \<open>maxBytes\<close>
  bytes; each namespace index holds at most 256 vectors, every one of them the vector of a
  present entry of that very namespace; and the incrementally tracked count equals the number
  of vectors. So the cache never grows without bound and no vector outlives its entry.
\<close>

theorem cache_run_wf:
  assumes "c = run_ops cache_step (new_response_cache n b ttl sem th emb) ops"
  shows "int (length (rc_items c)) \<le> (if n \<le> 0 then 512 else n)
    \<and> all_entries (\<lambda>k e. ce_data e \<noteq> [] \<and> int (length (ce_data e)) \<le> (if b \<le> 0 then 1048576 else b)) (rc_items c)
    \<and> all_entries (\<lambda>ns idx. length (idx_entries idx) \<le> 256 \<and>
        (\<forall>k \<in> idx_keys idx. \<exists>e. map_of (rc_items c) k = Some e \<and> semantic_namespace k (ce_model e) = ns)) (sem_idx c)
    \<and> semantic_entries c = sum_values (\<lambda>idx. int (length (idx_entries idx))) (sem_idx c)"
proof -
  have wf: "cache_wf c" unfolding assms by (intro cache.run_inv new_cache_wf)
  then have core: "core_ok c" and sem: "sem_ok c" and ix: "indexed (live_in c) c"
    and len: "int (length (rc_items c)) \<le> rc_max_size c" by (auto simp: cache_wf_def cache_ok_def)
  have p: "rc_max_size c = (if n \<le> 0 then 512 else n)" "rc_max_bytes c = (if b \<le> 0 then 1048576 else b)"
    unfolding assms by (simp_all add: new_response_cache_def)
  have "all_entries (\<lambda>k e. ce_data e \<noteq> [] \<and> int (length (ce_data e)) \<le> (if b \<le> 0 then 1048576 else b)) (rc_items c)"
    using core unfolding p(2) [symmetric] by (auto simp: core_ok_def entry_ok_def elim: all_entries_mono)
  moreover have "all_entries (\<lambda>ns idx. length (idx_entries idx) \<le> 256 \<and>
      (\<forall>k \<in> idx_keys idx. \<exists>e. map_of (rc_items c) k = Some e \<and> semantic_namespace k (ce_model e) = ns)) (sem_idx c)"
    unfolding all_entries_def
  proof (intro allI impI conjI ballI)
    fix ns idx assume m: "map_of (sem_idx c) ns = Some idx"
    show "length (idx_entries idx) \<le> 256"
      using sem_okD [OF sem m] by (simp add: index_wf_def semantic_index_max_entries_def)
    show "\<exists>e. map_of (rc_items c) k = Some e \<and> semantic_namespace k (ce_model e) = ns" if "k \<in> idx_keys idx" for k
      using indexedD [OF ix m that] by (auto simp: live_in_def)
  qed
  ultimately show ?thesis using len sem unfolding p(1) by (auto simp: sem_ok_def idx_len_def)
qed

definition two_stores :: "cache_op list" where
  "two_stores = [CStore 0 0 ''auth:a:1'' ''m'' True ''x'' (Some [1, 0]), CStore 1 1 ''auth:b:2'' ''m'' True ''y'' (Some [0, 1])]"

theorem cache_run_wf_witness:
  "int (length (rc_items (run_ops cache_step (new_response_cache 1 9 second True 0 True) two_stores))) \<le> 1"
  using cache_run_wf [OF refl, of 1 9 second True 0 True two_stores] by simp

subsection \<open>Exact hits\<close>

text \<open>The response and its deadline as the last accepted store of each key left them.\<close>

fun last_stores :: "int \<Rightarrow> duration \<Rightarrow> (string \<Rightarrow> (string \<times> time) option) \<Rightarrow> cache_op list \<Rightarrow>
    string \<Rightarrow> (string \<times> time) option" where
  "last_stores b ttl acc [] = acc"
| "last_stores b ttl acc (CStore t1 t2 key model stream data emb # ops) =
     last_stores b ttl
       (if key = [] \<or> data = [] \<or> int (length data) > b then acc else acc(key := Some (data, t2 + ttl))) ops"
| "last_stores b ttl acc (CSweep now # ops) = last_stores b ttl acc ops"

lemma entries_are_last_stores:
  "\<lbrakk>\<forall>k e. map_of (rc_items c) k = Some e \<longrightarrow> acc k = Some (ce_data e, expire_at e)\<rbrakk> \<Longrightarrow>
   map_of (rc_items (run_ops cache_step c ops)) k = Some e \<Longrightarrow>
   last_stores (rc_max_bytes c) (rc_ttl c) acc ops k = Some (ce_data e, expire_at e)"
proof (induction ops arbitrary: c acc)
  case (Cons x ops)
  show ?case
  proof (cases x)
    case (CStore t1 t2 key model stream data emb)
    let ?c = "cache_store t1 t2 key model stream data emb c"
    let ?acc = "if key = [] \<or> data = [] \<or> int (length data) > rc_max_bytes c then acc
      else acc(key := Some (data, t2 + rc_ttl c))"
    have own: "map_of (rc_items ?c) key = Some (store_entry t2 model stream data emb c)"
      if "\<not> (key = [] \<or> data = [] \<or> int (length data) > rc_max_bytes c)"
      using that by (auto simp: cache_store_eq Let_def store_core_items)
    have "\<forall>k e. map_of (rc_items ?c) k = Some e \<longrightarrow> ?acc k = Some (ce_data e, expire_at e)"
    proof (intro allI impI)
      fix k e assume m: "map_of (rc_items ?c) k = Some e"
      show "?acc k = Some (ce_data e, expire_at e)"
      proof (cases "\<not> (key = [] \<or> data = [] \<or> int (length data) > rc_max_bytes c) \<and> k = key")
        case True
        then have "e = store_entry t2 model stream data emb c" using m own by simp
        then show ?thesis using True by (simp add: store_entry_def)
      next
        case False
        then have "map_of (rc_items c) k = Some e" using cache_store_items [OF m] by auto
        then show ?thesis using Cons.prems(1) False by auto
      qed
    qed
    from Cons.IH [OF this] Cons.prems(2) CStore show ?thesis by simp
  next
    case (CSweep now)
    have "\<forall>k e. map_of (rc_items (evict now c)) k = Some e \<longrightarrow> acc k = Some (ce_data e, expire_at e)"
      using Cons.prems(1) evict_sub by blast
    from Cons.IH [OF this] Cons.prems(2) CSweep show ?thesis by simp
  qed
qed simp

text \<open>
  C31: an exact hit replays the last store. Whatever was stored, overwritten, evicted and swept
  before, if a lookup answers an exact hit then its data are those of the most recent accepted
  store under the very same key, and that store is no older than the time to live.
\<close>

theorem exact_hit_replays_last_store:
  assumes "c = run_ops cache_step (new_response_cache n b ttl sem th emb) ops"
    and "cache_lookup now now' key model stream embed_res c = Some (data, Exact)"
  shows "\<exists>deadline. last_stores (rc_max_bytes c) (rc_ttl c) (\<lambda>_. None) ops key = Some (data, deadline)
    \<and> now \<le> deadline"
proof -
  obtain e where e: "map_of (rc_items c) key = Some e" "\<not> expire_at e < now" "data = ce_data e"
    using assms(2) by (auto simp: cache_lookup_def Let_def split: option.splits if_splits)
  have "last_stores (rc_max_bytes c) (rc_ttl c) (\<lambda>_. None) ops key = Some (ce_data e, expire_at e)"
    using entries_are_last_stores [of "new_response_cache n b ttl sem th emb" "\<lambda>_. None" ops key e] e(1)
    unfolding assms(1) by (simp add: new_response_cache_def)
  then show ?thesis using e by auto
qed

theorem exact_hit_replays_last_store_witness:
  "\<exists>deadline. last_stores 9 second (\<lambda>_. None) two_stores ''auth:a:1'' = Some (''x'', deadline) \<and> 5 \<le> deadline"
proof -
  let ?c = "run_ops cache_step (new_response_cache 2 9 second False 0 False) two_stores"
  have "cache_lookup 5 5 ''auth:a:1'' ''m'' True None ?c = Some (''x'', Exact)"
    by (simp add: two_stores_def new_response_cache_def cache_store_def store_entry_def unit_defs cache_lookup_def)
  from exact_hit_replays_last_store [OF refl this]
  show ?thesis by (simp add: new_response_cache_def unit_defs)
qed

subsection \<open>Semantic hits\<close>

lemma namespace_of_auth_key:
  assumes "seg \<noteq> []" and "CHR '':'' \<notin> set seg"
  shows "semantic_namespace (''auth:'' @ seg @ CHR '':'' # h) model = seg @ [unit_separator] @ model"
proof -
  have "takeWhile (\<lambda>c. c \<noteq> CHR '':'') (seg @ CHR '':'' # h) = seg"
    using assms(2) by (subst takeWhile_append2) auto
  then show ?thesis using assms(1) by (simp add: semantic_namespace_def has_prefix_def)
qed

lemma namespace_cases:
  assumes "semantic_namespace key model = seg @ [unit_separator] @ model" and "seg \<noteq> []" and "seg \<noteq> ''p''"
  obtains h where "key = ''auth:'' @ seg @ CHR '':'' # h"
proof -
  let ?rest = "drop 5 key"
  let ?s = "takeWhile (\<lambda>c. c \<noteq> CHR '':'') ?rest"
  have p: "has_prefix key ''auth:''" "CHR '':'' \<in> set ?rest" "?s = seg"
    using assms by (auto simp: semantic_namespace_def Let_def split: if_splits)
  then have "take 5 key = ''auth:''" by (simp add: has_prefix_def eval_nat_numeral)
  then have "key = ''auth:'' @ ?rest" using append_take_drop_id [of 5 key] by simp
  moreover obtain h where "?rest = ?s @ CHR '':'' # h"
  proof -
    have "dropWhile (\<lambda>c. c \<noteq> CHR '':'') ?rest \<noteq> []" using p(2) by (auto simp: dropWhile_eq_Nil_conv)
    then obtain h where "dropWhile (\<lambda>c. c \<noteq> CHR '':'') ?rest = CHR '':'' # h"
      using hd_dropWhile [of "\<lambda>c. c \<noteq> CHR '':''" ?rest] by (metis list.collapse)
    then show thesis using that takeWhile_dropWhile_id [of "\<lambda>c. c \<noteq> CHR '':''" ?rest] by metis
  qed
  ultimately show thesis using that p(3) by metis
qed

text \<open>
  C32: a semantic hit never crosses callers, policies or models. In any reachable cache, a
  semantic hit for a key of an authenticated caller, \<open>auth:SEGMENT:HASH\<close>, is the response
  stored under a key with the same segment, hence the same API key and content policy, for the
  same model and the same response shape, and it has not expired.
\<close>

theorem semantic_hit_is_isolated:
  assumes "c = run_ops cache_step (new_response_cache n b ttl sem th emb) ops"
    and "cache_lookup now now' (''auth:'' @ seg @ CHR '':'' # h) model stream embed_res c = Some (data, Semantic)"
    and "seg \<noteq> []" and "CHR '':'' \<notin> set seg" and "seg \<noteq> ''p''"
  shows "\<exists>h' e. map_of (rc_items c) (''auth:'' @ seg @ CHR '':'' # h') = Some e
    \<and> ce_model e = model \<and> ce_stream e = stream \<and> ce_data e = data \<and> now' \<le> expire_at e"
proof -
  have wf: "cache_wf c" unfolding assms(1) by (intro cache.run_inv new_cache_wf)
  then have ix: "indexed (live_in c) c" by (simp add: cache_wf_def cache_ok_def)
  let ?key = "''auth:'' @ seg @ CHR '':'' # h"
  have "lookup_semantic now' ?key model stream embed_res c = Some data"
    using assms(2) by (auto simp: cache_lookup_def Let_def split: option.splits if_splits)
  then obtain vec idx k s e where
      i: "map_of (sem_idx c) (semantic_namespace ?key model) = Some idx"
      "idx_search vec (similarity_threshold c) idx = Some (k, s)"
    and e: "map_of (rc_items c) k = Some e" "ce_model e = model" "ce_stream e = stream"
      "ce_data e = data" "now' \<le> expire_at e"
    by (auto simp: lookup_semantic_def split: option.splits if_splits prod.splits)
  have "live_in c k (semantic_namespace ?key model)"
    by (rule indexedD [OF ix i(1) idx_search_key [OF i(2)]])
  then have "semantic_namespace k model = seg @ [unit_separator] @ model"
    using e(1,2) namespace_of_auth_key [OF assms(3,4)] by (auto simp: live_in_def)
  then obtain h' where "k = ''auth:'' @ seg @ CHR '':'' # h'" using namespace_cases assms(3,5) by blast
  then show ?thesis using e by auto
qed

theorem semantic_hit_is_isolated_witness:
  "\<exists>h' e. map_of (rc_items (run_ops cache_step (new_response_cache 2 9 second True (1/2) True) two_stores))
      (''auth:'' @ ''a'' @ CHR '':'' # h') = Some e \<and> ce_data e = ''x''"
proof -
  let ?c = "run_ops cache_step (new_response_cache 2 9 second True (1/2) True) two_stores"
  have ns: "semantic_namespace ''auth:a:1'' ''m'' = ''a'' @ [unit_separator] @ ''m''"
    "semantic_namespace ''auth:b:2'' ''m'' = ''b'' @ [unit_separator] @ ''m''"
    "semantic_namespace ''auth:a:9'' ''m'' = ''a'' @ [unit_separator] @ ''m''" by code_simp+
  have cos: "cosine_similarity [1, 0] [1, 0] = 1" by (simp add: cosine_similarity_def)
  have "cache_lookup 5 5 (''auth:'' @ ''a'' @ CHR '':'' # ''9'') ''m'' True (Some (Some [1, 0])) ?c = Some (''x'', Semantic)"
    by (simp add: two_stores_def new_response_cache_def cache_store_def store_entry_def unit_defs
        cache_lookup_def lookup_semantic_def sync_semantic_index_def semantic_index_for_def new_embed_index_def
        semantic_index_max_entries_def ns idx_has_def idx_insert_def idx_search_def cos Let_def)
  from semantic_hit_is_isolated [OF refl this] show ?thesis by auto
qed

subsection \<open>The order of eviction\<close>

text \<open>The keys in the order of their last accepted store, latest first. Lookups leave no trace.\<close>

fun store_order :: "int \<Rightarrow> string list \<Rightarrow> cache_op list \<Rightarrow> string list" where
  "store_order b acc [] = acc"
| "store_order b acc (CStore t1 t2 key model stream data emb # ops) =
     store_order b (if key = [] \<or> data = [] \<or> int (length data) > b then acc else key # removeAll key acc) ops"
| "store_order b acc (CSweep now # ops) = store_order b acc ops"

definition in_store_order :: "string list \<Rightarrow> response_cache \<Rightarrow> bool" where
  "in_store_order acc c \<longleftrightarrow> distinct acc \<and> rc_order c = filter (\<lambda>k. map_of (rc_items c) k \<noteq> None) acc"

lemma evict_key_order: "in_store_order acc c \<Longrightarrow> in_store_order acc (evict_key key c)"
  by (auto simp: in_store_order_def distinct_remove1_removeAll removeAll_filter_not_eq map_of_del
      simp del: map_of_eq_None_iff intro!: filter_cong)

lemma evict_expired_walk_order:
  "in_store_order acc c \<Longrightarrow> in_store_order acc (snd (evict_expired_walk now ks c))"
proof (induction now ks c rule: evict_expired_walk.induct)
  case (2 now key ks c)
  then show ?case by (cases "map_of (rc_items c) key") (auto simp: split_beta evict_key_order)
qed simp

lemma evict_overflow_order: "in_store_order acc c \<Longrightarrow> in_store_order acc (snd (evict_overflow c))"
proof (induction c rule: evict_overflow.induct)
  case (1 c)
  show ?case
  proof (cases "rc_max_size c \<le> int (length (rc_items c)) \<and> rc_order c \<noteq> []")
    case True
    note go = evict_overflow_go [OF conjunct1 [OF True] conjunct2 [OF True]]
    show ?thesis using "1.IH" [OF True evict_key_order [OF "1.prems"]] unfolding go .
  next
    case False
    then show ?thesis using "1.prems" evict_overflow_stop by simp
  qed
qed

lemma evict_order: "in_store_order acc c \<Longrightarrow> in_store_order acc (evict now c)"
  by (simp add: evict_def evict_expired_def evict_overflow_order evict_expired_walk_order)

lemma put_in_store_order:
  assumes "in_store_order acc c"
  shows "in_store_order (key # removeAll key acc)
    (c\<lparr>rc_items := put key e (rc_items c), rc_order := key # remove1 key (rc_order c)\<rparr>)"
proof -
  have "remove1 key (rc_order c) = filter (\<lambda>k. k \<noteq> key \<longrightarrow> map_of (rc_items c) k \<noteq> None) (removeAll key acc)"
    using assms unfolding in_store_order_def
    by (auto simp: distinct_remove1_removeAll removeAll_filter_not_eq simp del: map_of_eq_None_iff intro!: filter_cong)
  then show ?thesis
    using assms by (simp add: in_store_order_def map_of_put distinct_removeAll del: map_of_eq_None_iff)
qed

lemma drop_in_store_order [simp]: "in_store_order acc (drop_semantic_key k ns c) = in_store_order acc c"
  by (simp add: in_store_order_def)

lemma store_core_order:
  assumes "in_store_order acc c"
  shows "in_store_order (key # removeAll key acc) (store_core t1 t2 key model stream data emb c)"
proof (cases "map_of (rc_items c) key")
  case None
  let ?c = "if int (length (rc_items c)) \<ge> rc_max_size c then evict t1 c else c"
  have o: "in_store_order acc ?c" using assms evict_order by simp
  have "map_of (rc_items ?c) key = None" using None evict_absent by simp
  then have "remove1 key (rc_order ?c) = rc_order ?c"
    using o unfolding in_store_order_def by (intro remove1_idem) simp
  with put_in_store_order [OF o, of key "store_entry t2 model stream data emb c"]
  show ?thesis using None by (simp add: in_store_order_def store_core_def Let_def del: map_of_eq_None_iff)
next
  case (Some e)
  with put_in_store_order [OF assms, of key "store_entry t2 model stream data emb c"]
  show ?thesis by (simp add: store_core_def Let_def del: map_of_eq_None_iff)
qed

lemma run_in_store_order:
  "in_store_order acc c \<Longrightarrow> in_store_order (store_order (rc_max_bytes c) acc ops) (run_ops cache_step c ops)"
proof (induction ops arbitrary: acc c)
  case (Cons x ops)
  show ?case
  proof (cases x)
    case (CStore t1 t2 key model stream data emb)
    have "in_store_order (if key = [] \<or> data = [] \<or> int (length data) > rc_max_bytes c then acc else key # removeAll key acc)
        (cache_store t1 t2 key model stream data emb c)"
      using Cons.prems store_core_order [OF Cons.prems, of key t1 t2 model stream data emb]
      by (auto simp: cache_store_eq Let_def in_store_order_def simp del: map_of_eq_None_iff)
    from Cons.IH [OF this] CStore show ?thesis by simp
  next
    case (CSweep now)
    with Cons.IH [OF evict_order [OF Cons.prems, of now]] show ?thesis by simp
  qed
qed simp

lemma evict_expired_walk_live:
  "all_entries (\<lambda>k e. now \<le> expire_at e) (rc_items c) \<Longrightarrow> snd (evict_expired_walk now ks c) = c"
proof (induction ks)
  case (Cons key ks)
  then show ?case by (auto simp: split_beta dest: all_entriesD split: option.split)
qed simp

text \<open>
  Eviction goes by the order of storing, and a full cache loses a live entry at every
  sweep. In a reachable cache the recency list is exactly the present keys, latest accepted
  store first: a hit does not move its entry. When the cache holds \<open>maxSize\<close> entries and none
  has expired, the periodic sweep still removes one, the entry stored longest ago, although
  nothing is waiting for the room.
\<close>

theorem full_sweep_drops_oldest_store:
  assumes "c = run_ops cache_step (new_response_cache n b ttl sem th emb) ops"
    and "int (length (rc_items c)) = rc_max_size c"
    and "all_entries (\<lambda>k e. now \<le> expire_at e) (rc_items c)"
  shows "rc_order c = filter (\<lambda>k. map_of (rc_items c) k \<noteq> None) (store_order (rc_max_bytes c) [] ops)
    \<and> rc_order (evict now c) = butlast (rc_order c)
    \<and> map_of (rc_items (evict now c)) = (map_of (rc_items c))(last (rc_order c) := None)"
proof -
  have wf: "cache_wf c" unfolding assms(1) by (intro cache.run_inv new_cache_wf)
  then have core: "core_ok c" by (simp add: cache_wf_def cache_ok_def)
  have "in_store_order [] (new_response_cache n b ttl sem th emb)"
    by (simp add: in_store_order_def new_response_cache_def)
  from run_in_store_order [OF this, of ops]
  have ord: "rc_order c = filter (\<lambda>k. map_of (rc_items c) k \<noteq> None) (store_order (rc_max_bytes c) [] ops)"
    unfolding assms(1) by (simp add: in_store_order_def del: map_of_eq_None_iff)
  have ne: "rc_order c \<noteq> []" and dis: "distinct (rc_order c)"
    using core core_order_length [OF core] assms(2) by (auto simp: core_ok_def)
  let ?k = "last (rc_order c)"
  have mem: "?k \<in> fst ` set (rc_items c)" using ne core last_in_set [OF ne] by (simp add: core_ok_def del: last_in_set)
  then obtain e where e: "map_of (rc_items c) ?k = Some e"
    using core by (metis core_ok_def map_of_eq_None_iff not_Some_eq)
  have "Suc (length (del ?k (rc_items c))) = length (rc_items c)"
    using core e by (intro length_del_mem) (auto simp: core_ok_def)
  then have "\<not> (rc_max_size (evict_key ?k c) \<le> int (length (rc_items (evict_key ?k c))) \<and> rc_order (evict_key ?k c) \<noteq> [])"
    using assms(2) by simp
  then have ev: "evict now c = evict_key ?k c"
    using evict_overflow_go [of c] evict_overflow_stop [of "evict_key ?k c"] ne assms(2)
      evict_expired_walk_live [OF assms(3)] by (simp add: evict_def evict_expired_def)
  have "remove1 ?k (rc_order c) = butlast (rc_order c)"
    using ne dis by (metis append_butlast_last_id distinct.simps(2) distinct_butlast not_distinct_conv_prefix
        remove1.simps(2) remove1_append remove1_idem rotate1.simps(2) append_Nil2 in_set_butlastD remove1.simps(1))
  then show ?thesis using ord unfolding ev by (auto simp: map_of_del)
qed

theorem full_sweep_drops_oldest_store_witness:
  "rc_order (evict 5 (run_ops cache_step (new_response_cache 2 9 second False 0 False) two_stores)) = [''auth:b:2'']"
proof -
  let ?c = "run_ops cache_step (new_response_cache 2 9 second False 0 False) two_stores"
  have c: "?c = (new_response_cache 2 9 second False 0 False)\<lparr>
      rc_items := [(''auth:a:1'', \<lparr>ce_data = ''x'', expire_at = second, ce_embedding = Some [1, 0], ce_model = ''m'', ce_stream = True\<rparr>),
        (''auth:b:2'', \<lparr>ce_data = ''y'', expire_at = 1 + second, ce_embedding = Some [0, 1], ce_model = ''m'', ce_stream = True\<rparr>)],
      rc_order := [''auth:b:2'', ''auth:a:1'']\<rparr>"
    by (simp add: two_stores_def new_response_cache_def cache_store_def store_entry_def unit_defs)
  have "int (length (rc_items ?c)) = rc_max_size ?c" unfolding c by (simp add: new_response_cache_def)
  moreover have "all_entries (\<lambda>k e. 5 \<le> expire_at e) (rc_items ?c)"
    unfolding c by (simp add: all_entries_def unit_defs)
  ultimately have "rc_order (evict 5 ?c) = butlast (rc_order ?c)"
    using full_sweep_drops_oldest_store [OF refl] by blast
  then show ?thesis unfolding c by simp
qed

end
