(* ===== verification/SessionRouter.thy ===== *)
theory SessionRouter
  imports Prelude
begin

text \<open>
  internal/routing/session.go: the pins that keep a session on one provider, model and account.
  The methods run under one mutex; each clock reading is an argument, and the map's iteration
  order is the order of the list. The metric records are kept as a log of reasons, latest last.
\<close>

record session_state =
  s_provider :: string
  s_model :: string
  s_account :: string
  s_ttl :: duration
  since :: time
  last_seen :: time

record session_router =
  sessions :: "(string, session_state) gomap"
  sr_cap :: int
  sr_ttl :: duration
  sr_log :: "string list"

definition default_session_cap :: int where "default_session_cap = 512"
definition default_session_ttl :: duration where "default_session_ttl = 60 * minute"

definition new_session_router :: "int \<Rightarrow> duration \<Rightarrow> session_router" where
  "new_session_router cap ttl =
     \<lparr>sessions = [], sr_cap = (if cap \<le> 0 then default_session_cap else cap),
      sr_ttl = (if ttl \<le> 0 then default_session_ttl else ttl), sr_log = []\<rparr>"

definition log_reason :: "string \<Rightarrow> session_router \<Rightarrow> session_router" where
  "log_reason reason r = r\<lparr>sr_log := sr_log r @ [reason]\<rparr>"

definition session_key_for_subject ::
  "(string \<Rightarrow> string) \<Rightarrow> string \<Rightarrow> string \<Rightarrow> string \<Rightarrow> string \<Rightarrow> string" where
  "session_key_for_subject hex_sha subject agent system_prompt first_user =
     hex_sha (subject @ [char_of (0 :: nat)] @ agent @ [char_of (0 :: nat)] @ system_prompt
       @ [char_of (0 :: nat)] @ first_user)"

definition short_session_key :: "string \<Rightarrow> string" where
  "short_session_key key = (if length key \<le> 16 then key else take 16 key)"

definition entry_expired :: "session_router \<Rightarrow> session_state \<Rightarrow> time \<Rightarrow> bool" where
  "entry_expired r e now =
     (let ttl = (if s_ttl e \<le> 0 then sr_ttl r else s_ttl e) in now - last_seen e > ttl)"

text \<open>The scan of \<^verbatim>\<open>evictLRU\<close> with its sentinel.\<close>

fun lru_scan :: "(string, session_state) gomap \<Rightarrow> (string \<times> time) option \<Rightarrow> (string \<times> time) option" where
  "lru_scan [] found = found"
| "lru_scan ((k, e) # es) found =
     (case found of
        None \<Rightarrow> lru_scan es (Some (k, last_seen e))
      | Some (oldest_key, oldest) \<Rightarrow>
          (if last_seen e < oldest then lru_scan es (Some (k, last_seen e))
           else lru_scan es (Some (oldest_key, oldest))))"

definition evict_lru :: "session_router \<Rightarrow> session_router" where
  "evict_lru r = (case lru_scan (sessions r) None of
     None \<Rightarrow> r
   | Some (k, _) \<Rightarrow> log_reason ''evicted'' (r\<lparr>sessions := del k (sessions r)\<rparr>))"

definition new_session :: "time \<Rightarrow> string \<Rightarrow> string \<Rightarrow> string \<Rightarrow> duration \<Rightarrow> session_state" where
  "new_session now provider model acc ttl =
     \<lparr>s_provider = provider, s_model = model, s_account = acc, s_ttl = ttl, since = now, last_seen = now\<rparr>"

definition pin :: "time \<Rightarrow> string \<Rightarrow> string \<Rightarrow> string \<Rightarrow> string \<Rightarrow> duration \<Rightarrow> session_router \<Rightarrow> session_router" where
  "pin now key provider model acc ttl r =
     (let ttl = (if ttl \<le> 0 then sr_ttl r else ttl);
          exists = (map_of (sessions r) key \<noteq> None);
          r = (if \<not> exists \<and> int (length (sessions r)) \<ge> sr_cap r then evict_lru r else r);
          r = r\<lparr>sessions := put key (new_session now provider model acc ttl) (sessions r)\<rparr>
      in if \<not> exists then log_reason ''new'' r else r)"

definition session_lookup :: "time \<Rightarrow> string \<Rightarrow> session_router \<Rightarrow> session_state option \<times> session_router" where
  "session_lookup now key r = (case map_of (sessions r) key of
     None \<Rightarrow> (None, r)
   | Some e \<Rightarrow>
       (if entry_expired r e now then (None, log_reason ''expired'' (r\<lparr>sessions := del key (sessions r)\<rparr>))
        else let e = e\<lparr>last_seen := now\<rparr> in (Some e, r\<lparr>sessions := put key e (sessions r)\<rparr>)))"

definition session_peek :: "time \<Rightarrow> string \<Rightarrow> session_router \<Rightarrow> session_state option" where
  "session_peek now key r = (case map_of (sessions r) key of
     None \<Rightarrow> None | Some e \<Rightarrow> (if entry_expired r e now then None else Some e))"

definition promote_if_changed ::
  "time \<Rightarrow> string \<Rightarrow> string \<Rightarrow> string \<Rightarrow> string \<Rightarrow> duration \<Rightarrow> session_router \<Rightarrow> bool \<times> session_router" where
  "promote_if_changed now key provider model acc ttl r =
     (let ttl = (if ttl \<le> 0 then sr_ttl r else ttl);
          promote = (\<lambda>r. (True, log_reason ''failover''
            (r\<lparr>sessions := put key (new_session now provider model acc ttl) (sessions r)\<rparr>)))
      in case map_of (sessions r) key of
           Some e \<Rightarrow>
             (if s_provider e = provider \<and> s_model e = model \<and> s_account e = acc
              then (False, r\<lparr>sessions := put key (e\<lparr>s_ttl := ttl\<rparr>) (sessions r)\<rparr>)
              else promote r)
         | None \<Rightarrow> promote (if int (length (sessions r)) \<ge> sr_cap r then evict_lru r else r))"

definition session_evict :: "string \<Rightarrow> session_router \<Rightarrow> session_router" where
  "session_evict key r = r\<lparr>sessions := del key (sessions r)\<rparr>"

definition session_active :: "time \<Rightarrow> session_router \<Rightarrow> nat \<times> session_router" where
  "session_active now r =
     (let live = filter (\<lambda>(k, e). \<not> entry_expired r e now) (sessions r);
          dead = length (sessions r) - length live
      in (length live, r\<lparr>sessions := live, sr_log := sr_log r @ replicate dead ''expired''\<rparr>))"

datatype session_op = SPin time string string string string duration
  | SLookup time string
  | SPromote time string string string string duration
  | SEvict string
  | SActive time

fun session_step :: "session_router \<Rightarrow> session_op \<Rightarrow> session_router" where
  "session_step r (SPin now key p m a ttl) = pin now key p m a ttl r"
| "session_step r (SLookup now key) = snd (session_lookup now key r)"
| "session_step r (SPromote now key p m a ttl) = snd (promote_if_changed now key p m a ttl r)"
| "session_step r (SEvict key) = session_evict key r"
| "session_step r (SActive now) = snd (session_active now r)"

subsection \<open>The registry invariant\<close>

definition router_ok :: "session_router \<Rightarrow> bool" where
  "router_ok r \<longleftrightarrow> gomap_ok (sessions r) \<and> int (length (sessions r)) \<le> sr_cap r \<and> 0 < sr_cap r"

lemma router_simps [simp]:
  "sessions (log_reason x r) = sessions r" "sr_cap (log_reason x r) = sr_cap r" "sr_ttl (log_reason x r) = sr_ttl r"
  by (simp_all add: log_reason_def)

lemma lru_scan_Some: "\<exists>k o'. lru_scan es (Some f) = Some (k, o')"
  by (induction es "Some f" arbitrary: f rule: lru_scan.induct) (auto split: prod.split)

lemma lru_scan_mem:
  "lru_scan es found = Some (k, o') \<Longrightarrow>
     (found = Some (k, o') \<or> (\<exists>e. (k, e) \<in> set es \<and> last_seen e = o'))
     \<and> (\<forall>(k', e) \<in> set es. o' \<le> last_seen e) \<and> (\<forall>k' p. found = Some (k', p) \<longrightarrow> o' \<le> p)"
proof (induction es arbitrary: found)
  case (Cons x es)
  obtain k1 e where x: "x = (k1, e)" by force
  show ?case
  proof (cases found)
    case None
    then show ?thesis using Cons.IH [of "Some (k1, last_seen e)"] Cons.prems x by auto
  next
    case (Some kp)
    obtain k2 p where kp: "kp = (k2, p)" by force
    show ?thesis
    proof (cases "last_seen e < p")
      case True
      then show ?thesis using Cons.IH [of "Some (k1, last_seen e)"] Cons.prems Some kp x by auto
    next
      case False
      then show ?thesis using Cons.IH [of "Some (k2, p)"] Cons.prems Some kp x by auto
    qed
  qed
qed simp

lemma lru_scan_None: "lru_scan es None = None \<longleftrightarrow> es = []"
proof (cases es)
  case (Cons x xs)
  then show ?thesis using lru_scan_Some [of xs "(fst x, last_seen (snd x))"] by (cases x) auto
qed simp

lemma evict_lru_cases:
  assumes "sessions r \<noteq> []"
  obtains k e where "(k, e) \<in> set (sessions r)" "\<forall>(k', e') \<in> set (sessions r). last_seen e \<le> last_seen e'"
    "sessions (evict_lru r) = del k (sessions r)" "sr_cap (evict_lru r) = sr_cap r" "sr_ttl (evict_lru r) = sr_ttl r"
proof -
  obtain k t where s: "lru_scan (sessions r) None = Some (k, t)"
    using lru_scan_None [of "sessions r"] assms by (cases "lru_scan (sessions r) None") auto
  from lru_scan_mem [OF s] obtain e where "(k, e) \<in> set (sessions r)" "last_seen e = t"
    "\<forall>(k', e') \<in> set (sessions r). t \<le> last_seen e'" by auto
  then show thesis using s by (intro that [of k e]) (auto simp: evict_lru_def)
qed

lemma evict_lru_room:
  assumes "router_ok r" and "sessions r \<noteq> []"
  shows "gomap_ok (sessions (evict_lru r)) \<and> Suc (length (sessions (evict_lru r))) = length (sessions r)
    \<and> sr_cap (evict_lru r) = sr_cap r"
  using assms(2)
proof (cases rule: evict_lru_cases)
  case (1 k e)
  then show ?thesis
    using assms(1) length_del_mem [of "sessions r" k e] by (auto simp: router_ok_def)
qed

lemma put_room:
  assumes "router_ok r" and "map_of (sessions r) key = None"
  defines "r' \<equiv> (if int (length (sessions r)) \<ge> sr_cap r then evict_lru r else r)"
  shows "gomap_ok (sessions r') \<and> int (length (put key e (sessions r'))) \<le> sr_cap r \<and> sr_cap r' = sr_cap r"
proof (cases "int (length (sessions r)) \<ge> sr_cap r")
  case True
  then have "sessions r \<noteq> []" using assms(1) by (auto simp: router_ok_def)
  from evict_lru_room [OF assms(1) this] show ?thesis
    using True assms(1) length_put_le [of key e "sessions (evict_lru r)"] by (auto simp: r'_def router_ok_def)
next
  case False
  then show ?thesis using assms(1) length_put_le [of key e "sessions r"] by (auto simp: r'_def router_ok_def)
qed

lemma filter_fits: "int (length xs) \<le> n \<Longrightarrow> int (length (filter P xs)) \<le> n"
  using length_filter_le [of P xs] by linarith

lemma session_step_inv: "router_ok r \<Longrightarrow> router_ok (session_step r x)"
proof (cases x)
  case (SPin now key p m a ttl)
  assume ok: "router_ok r"
  show ?thesis
  proof (cases "map_of (sessions r) key")
    case None
    then show ?thesis
      using SPin put_room [OF ok None, of "new_session now p m a (if ttl \<le> 0 then sr_ttl r else ttl)"] ok
      by (auto simp: pin_def Let_def router_ok_def)
  next
    case (Some e)
    then show ?thesis using SPin ok by (auto simp: pin_def Let_def router_ok_def)
  qed
next
  case (SLookup now key)
  assume "router_ok r"
  then show ?thesis
    using SLookup length_del_le [of key "sessions r"]
    by (auto simp: session_lookup_def Let_def router_ok_def split: option.split)
next
  case (SPromote now key p m a ttl)
  assume ok: "router_ok r"
  show ?thesis
  proof (cases "map_of (sessions r) key")
    case None
    then show ?thesis
      using SPromote put_room [OF ok None, of "new_session now p m a (if ttl \<le> 0 then sr_ttl r else ttl)"] ok
      by (auto simp: promote_if_changed_def Let_def router_ok_def)
  next
    case (Some e)
    then show ?thesis using SPromote ok by (auto simp: promote_if_changed_def Let_def router_ok_def)
  qed
next
  case (SEvict key)
  assume "router_ok r"
  then show ?thesis using SEvict length_del_le [of key "sessions r"] by (auto simp: session_evict_def router_ok_def)
next
  case (SActive now)
  assume "router_ok r"
  then show ?thesis
    using SActive by (simp add: filter_fits session_active_def Let_def router_ok_def distinct_map_filter)
qed

interpretation sess: machine session_step router_ok
  by unfold_locales (rule session_step_inv)

lemma router_ok_new: "router_ok (new_session_router cap ttl)"
  by (simp add: router_ok_def new_session_router_def default_session_cap_def)

subsection \<open>A pin in use is kept\<close>

text \<open>
  The other keys a run touches, and that it leaves \<open>key\<close> alone, at instants of \<open>(t, t_end]\<close>.
\<close>

fun op_key :: "session_op \<Rightarrow> string option" where
  "op_key (SPin now key p m a ttl) = Some key"
| "op_key (SLookup now key) = Some key"
| "op_key (SPromote now key p m a ttl) = Some key"
| "op_key (SEvict key) = Some key"
| "op_key (SActive now) = None"

fun op_time_in :: "time \<Rightarrow> time \<Rightarrow> session_op \<Rightarrow> bool" where
  "op_time_in t t_end (SPin now key p m a ttl) = (t < now \<and> now \<le> t_end)"
| "op_time_in t t_end (SLookup now key) = (t < now \<and> now \<le> t_end)"
| "op_time_in t t_end (SPromote now key p m a ttl) = (t < now \<and> now \<le> t_end)"
| "op_time_in t t_end (SEvict key) = True"
| "op_time_in t t_end (SActive now) = (now \<le> t_end)"

definition touched :: "session_op list \<Rightarrow> string set" where
  "touched ops = {k. \<exists>x \<in> set ops. op_key x = Some k}"

text \<open>\<open>key\<close> holds \<open>e\<close>, and every other pin seen since lies in \<open>T\<close>.\<close>

definition kept :: "string \<Rightarrow> session_state \<Rightarrow> string set \<Rightarrow> session_router \<Rightarrow> bool" where
  "kept key e T r \<longleftrightarrow> router_ok r \<and> map_of (sessions r) key = Some e
     \<and> (\<forall>k e'. map_of (sessions r) k = Some e' \<longrightarrow> k \<noteq> key \<longrightarrow> k \<in> T \<or> last_seen e' < last_seen e)"

lemma kept_evict:
  assumes kp: "kept key e T r" and full: "sr_cap r \<le> int (length (sessions r))"
    and T: "finite T" "int (card T) < sr_cap r" "k \<in> T" "map_of (sessions r) k = None" "k \<noteq> key"
  shows "map_of (sessions (evict_lru r)) key = Some e
    \<and> (\<forall>k e'. map_of (sessions (evict_lru r)) k = Some e' \<longrightarrow> map_of (sessions r) k = Some e')"
proof -
  have ok: "gomap_ok (sessions r)" and ne: "sessions r \<noteq> []"
    using kp by (auto simp: kept_def router_ok_def)
  let ?K = "fst ` set (sessions r)"
  have card: "card ?K = length (sessions r)" using distinct_card [OF ok] by simp
  have "\<exists>k2 e2. map_of (sessions r) k2 = Some e2 \<and> k2 \<noteq> key \<and> k2 \<notin> T"
  proof (rule ccontr)
    assume "\<not> ?thesis"
    then have "?K \<subseteq> insert key (T - {k})"
      using ok T(4) by (force simp: map_of_eq_None_iff)
    then have "card ?K \<le> card (insert key (T - {k}))" using T(1) by (intro card_mono) auto
    also have "\<dots> \<le> Suc (card (T - {k}))" by (rule card_insert_le_m1) auto
    also have "\<dots> = card T" using T(1,3) by (rule card_Suc_Diff1)
    finally show False using card full T(2) by simp
  qed
  then obtain k2 e2 where k2: "map_of (sessions r) k2 = Some e2" "last_seen e2 < last_seen e"
    using kp by (auto simp: kept_def)
  show ?thesis
    using ne
  proof (cases rule: evict_lru_cases)
    case (1 kx ex)
    have "last_seen ex \<le> last_seen e2" using 1(2) map_of_SomeD [OF k2(1)] by auto
    moreover have "map_of (sessions r) kx = Some ex" using 1(1) ok by simp
    ultimately have "kx \<noteq> key" using kp k2(2) by (auto simp: kept_def)
    then show ?thesis using kp 1(3) by (auto simp: kept_def map_of_del split: if_splits)
  qed
qed

lemma kept_put:
  assumes "kept key e T r" and "map_of m key = Some e"
    and "\<forall>k e'. map_of m k = Some e' \<longrightarrow> map_of (sessions r) k = Some e'"
    and "k' \<in> T" and "k' \<noteq> key" and "sessions r' = put k' x m" and "router_ok r'"
  shows "kept key e T r'"
  using assms by (auto simp: kept_def map_of_put)

lemma kept_step:
  assumes kp: "kept key e T r" and T: "finite T" "int (card T) < sr_cap r"
    and k: "\<And>k. op_key x = Some k \<Longrightarrow> k \<in> T \<and> k \<noteq> key" and tm: "op_time_in (last_seen e) t_end x"
    and live: "\<not> entry_expired r e t_end"
  shows "kept key e T (session_step r x) \<and> sr_cap (session_step r x) = sr_cap r
    \<and> sr_ttl (session_step r x) = sr_ttl r"
proof -
  have ok': "router_ok (session_step r x)" using kp by (auto simp: kept_def intro: session_step_inv)
  have own: "map_of (sessions r) key = Some e" using kp by (simp add: kept_def)
  have id: "\<forall>k e'. map_of (sessions r) k = Some e' \<longrightarrow> map_of (sessions r) k = Some e'" by blast
  have ev: "sr_cap (evict_lru r) = sr_cap r" "sr_ttl (evict_lru r) = sr_ttl r"
    by (simp_all add: evict_lru_def split: option.split)
  have sub: "map_of (sessions (if sr_cap r \<le> int (length (sessions r)) then evict_lru r else r)) key = Some e
      \<and> (\<forall>k e'. map_of (sessions (if sr_cap r \<le> int (length (sessions r)) then evict_lru r else r)) k = Some e'
        \<longrightarrow> map_of (sessions r) k = Some e')" if "k \<in> T" "k \<noteq> key" "map_of (sessions r) k = None" for k
    using kept_evict [OF kp _ T that(1,3,2)] kp by (auto simp: kept_def)
  show ?thesis
  proof (cases x)
    case (SPin now k' p m a ttl)
    then have k': "k' \<in> T" "k' \<noteq> key" using k by auto
    let ?x = "new_session now p m a (if ttl \<le> 0 then sr_ttl r else ttl)"
    have "kept key e T (session_step r x)"
    proof (cases "map_of (sessions r) k'")
      case None
      then have "sessions (session_step r x) = put k' ?x
          (sessions (if sr_cap r \<le> int (length (sessions r)) then evict_lru r else r))"
        using SPin by (simp add: pin_def Let_def)
      then show ?thesis using kept_put [OF kp _ _ k' _ ok'] sub [OF k' None] by blast
    next
      case (Some e')
      then have "sessions (session_step r x) = put k' ?x (sessions r)"
        using SPin by (simp add: pin_def Let_def)
      then show ?thesis using kept_put [OF kp own id k' _ ok'] by blast
    qed
    then show ?thesis using SPin ev by (simp add: pin_def Let_def)
  next
    case (SLookup now k')
    then have k': "k' \<in> T" "k' \<noteq> key" using k by auto
    show ?thesis
    proof (cases "map_of (sessions r) k'")
      case None
      then show ?thesis using SLookup kp by (simp add: session_lookup_def)
    next
      case (Some e')
      show ?thesis
      proof (cases "entry_expired r e' now")
        case True
        then show ?thesis
          using Some SLookup kp ok' k' by (auto simp: kept_def session_lookup_def map_of_del)
      next
        case False
        then have "sessions (session_step r x) = put k' (e'\<lparr>last_seen := now\<rparr>) (sessions r)"
          using Some SLookup by (simp add: session_lookup_def Let_def)
        then have "kept key e T (session_step r x)"
          using kept_put [OF kp own id k' _ ok'] by blast
        then show ?thesis using False Some SLookup by (simp add: session_lookup_def Let_def)
      qed
    qed
  next
    case (SPromote now k' p m a ttl)
    then have k': "k' \<in> T" "k' \<noteq> key" using k by auto
    let ?x = "new_session now p m a (if ttl \<le> 0 then sr_ttl r else ttl)"
    have "kept key e T (session_step r x)"
    proof (cases "map_of (sessions r) k'")
      case None
      then have "sessions (session_step r x) = put k' ?x
          (sessions (if sr_cap r \<le> int (length (sessions r)) then evict_lru r else r))"
        using SPromote by (simp add: promote_if_changed_def Let_def)
      then show ?thesis using kept_put [OF kp _ _ k' _ ok'] sub [OF k' None] by blast
    next
      case (Some e')
      then have "\<exists>y. sessions (session_step r x) = put k' y (sessions r)"
        using SPromote by (auto simp: promote_if_changed_def Let_def)
      then show ?thesis using kept_put [OF kp own id k' _ ok'] by blast
    qed
    then show ?thesis using SPromote ev by (simp add: promote_if_changed_def Let_def split: option.split)
  next
    case (SEvict k')
    then show ?thesis using kp ok' k by (auto simp: kept_def session_evict_def map_of_del)
  next
    case (SActive now)
    have "\<not> entry_expired r e now" using live tm SActive by (auto simp: entry_expired_def Let_def)
    moreover have "gomap_ok (filter (\<lambda>(k, e). \<not> entry_expired r e now) (sessions r))"
      using kp by (simp add: kept_def router_ok_def distinct_map_filter)
    ultimately show ?thesis
      using SActive kp ok' by (auto simp: kept_def session_active_def Let_def router_ok_def)
  qed
qed

lemma kept_run:
  "\<lbrakk>kept key e T r; finite T; int (card T) < sr_cap r; touched ops \<subseteq> T; key \<notin> touched ops;
    \<forall>x \<in> set ops. op_time_in (last_seen e) t_end x; \<not> entry_expired r e t_end\<rbrakk> \<Longrightarrow>
   kept key e T (run_ops session_step r ops) \<and> sr_ttl (run_ops session_step r ops) = sr_ttl r"
proof (induction ops arbitrary: r)
  case (Cons x ops)
  have st: "kept key e T (session_step r x) \<and> sr_cap (session_step r x) = sr_cap r \<and> sr_ttl (session_step r x) = sr_ttl r"
    using Cons.prems by (intro kept_step [where t_end = t_end]) (auto simp: touched_def)
  have "\<not> entry_expired (session_step r x) e t_end"
    using Cons.prems(7) st by (simp add: entry_expired_def Let_def split: if_splits)
  then show ?case using Cons.IH [of "session_step r x"] Cons.prems st by (auto simp: touched_def)
qed simp

text \<open>
  The least-recently-used guarantee of session pins. Take any reachable router and a pin
  whose last use is later than that of every other. As long as fewer than \<open>cap\<close> distinct other
  sessions are pinned, looked up, promoted or evicted after it, in any order and number of
  operations, and its idle time to live has not run out, the session still resolves to the very
  same pin: capacity eviction never takes it, and neither does a sweep of expired pins.
\<close>

theorem recent_pin_is_kept:
  assumes "r = run_ops session_step (new_session_router cap ttl) before"
    and "map_of (sessions r) key = Some e"
    and "\<forall>k e'. map_of (sessions r) k = Some e' \<longrightarrow> k \<noteq> key \<longrightarrow> last_seen e' < last_seen e"
    and "finite (touched ops)" and "int (card (touched ops)) < sr_cap r" and "key \<notin> touched ops"
    and "\<forall>x \<in> set ops. op_time_in (last_seen e) now x" and "\<not> entry_expired r e now"
  shows "session_peek now key (run_ops session_step r ops) = Some e
    \<and> fst (session_lookup now key (run_ops session_step r ops)) = Some (e\<lparr>last_seen := now\<rparr>)"
proof -
  have "router_ok r" unfolding assms(1) by (intro sess.run_inv router_ok_new)
  then have "kept key e (touched ops) r" using assms(2,3) by (auto simp: kept_def)
  from kept_run [OF this assms(4,5) subset_refl assms(6,7,8)]
  have "map_of (sessions (run_ops session_step r ops)) key = Some e"
    "sr_ttl (run_ops session_step r ops) = sr_ttl r" by (auto simp: kept_def)
  then show ?thesis
    using assms(8) by (simp add: session_peek_def session_lookup_def entry_expired_def Let_def split: if_splits)
qed

theorem recent_pin_is_kept_witness:
  "session_peek 9 ''b'' (run_ops session_step
     (run_ops session_step (new_session_router 2 100) [SPin 1 ''a'' ''p'' ''m'' [] 0, SPin 2 ''b'' ''p'' ''m'' [] 0])
     [SPin 5 ''c'' ''p'' ''m'' [] 0, SLookup 6 ''c''])
   = Some (new_session 2 ''p'' ''m'' [] 100)"
proof -
  let ?b = "[SPin 1 ''a'' ''p'' ''m'' [] 0, SPin 2 ''b'' ''p'' ''m'' [] 0]"
  let ?o = "[SPin 5 ''c'' ''p'' ''m'' [] 0, SLookup 6 ''c'']"
  let ?r = "run_ops session_step (new_session_router 2 100) ?b"
  have r: "sessions ?r = [(''a'', new_session 1 ''p'' ''m'' [] 100), (''b'', new_session 2 ''p'' ''m'' [] 100)]"
    "sr_cap ?r = 2" "sr_ttl ?r = 100"
    by (simp_all add: pin_def new_session_router_def)
  have t: "touched ?o = {''c''}" by (auto simp: touched_def)
  show ?thesis
    by (rule conjunct1 [OF recent_pin_is_kept [OF refl]])
      (simp_all only: r t, simp_all add: new_session_def entry_expired_def r(3) [simplified] Let_def)
qed

end
