(* ===== verification/Json.thy ===== *)
theory Json
  imports Prelude
begin

text \<open>
  Decoded JSON, the \<^verbatim>\<open>any\<close> values of a request payload: numbers are \<^verbatim>\<open>float64\<close>, here exact
  rationals; an object is a Go map. The accessors are Go's checked type assertions: the second
  component of \<^verbatim>\<open>x, ok := v.(T)\<close> is the option.
\<close>

datatype json = Null | Bool bool | Num rat | Str string | Arr "json list" | Obj "(string \<times> json) list"

fun as_str :: "json option \<Rightarrow> string option" where
  "as_str (Some (Str s)) = Some s"
| "as_str _ = None"

fun as_arr :: "json option \<Rightarrow> json list option" where
  "as_arr (Some (Arr xs)) = Some xs"
| "as_arr _ = None"

fun as_obj :: "json option \<Rightarrow> (string, json) gomap option" where
  "as_obj (Some (Obj m)) = Some m"
| "as_obj _ = None"

text \<open>\<^verbatim>\<open>s, _ := m[k].(string)\<close>: the empty string when absent or of another type.\<close>

definition str_field :: "(string, json) gomap \<Rightarrow> string \<Rightarrow> string" where
  "str_field m k = (case as_str (map_of m k) of None \<Rightarrow> [] | Some s \<Rightarrow> s)"

text \<open>The values in a document, containers and scalars, keys not counted.\<close>

fun json_nodes :: "json \<Rightarrow> nat" where
  "json_nodes (Obj m) = Suc (sum_list (map (\<lambda>(k, v). json_nodes v) m))"
| "json_nodes (Arr vs) = Suc (sum_list (map json_nodes vs))"
| "json_nodes _ = 1"

lemma json_nodes_pos [simp]: "0 < json_nodes v"
  by (cases v) simp_all

text \<open>The depth of the deepest value (the schema itself is at depth 0).\<close>

fun json_depth :: "json \<Rightarrow> nat" where
  "json_depth (Obj m) = (if m = [] then 0 else Suc (fold max (map (\<lambda>(k, v). json_depth v) m) 0))"
| "json_depth (Arr vs) = (if vs = [] then 0 else Suc (fold max (map json_depth vs) 0))"
| "json_depth _ = 0"

fun json_children :: "json \<Rightarrow> json list" where
  "json_children (Obj m) = map snd m"
| "json_children (Arr vs) = vs"
| "json_children _ = []"

lemma fold_max_le: "fold max ds a \<le> k \<longleftrightarrow> (a :: nat) \<le> k \<and> (\<forall>d \<in> set ds. d \<le> k)"
  by (induction ds arbitrary: a) auto

lemma le_fold_max: "d \<in> set ds \<Longrightarrow> d \<le> fold max ds (a :: nat)"
  using fold_max_le [of ds a "fold max ds a"] by simp

lemma json_depth_children:
  "d + json_depth v \<le> k \<longleftrightarrow>
     (if json_children v = [] then d \<le> k
      else \<forall>c \<in> set (json_children v). Suc d + json_depth c \<le> k)"
proof (cases "json_children v = []")
  case True
  then show ?thesis by (cases v) auto
next
  case False
  then have "json_depth v = Suc (fold max (map json_depth (json_children v)) 0)"
    by (cases v) (auto simp: split_beta' o_def)
  moreover have "fold max (map json_depth (json_children v)) 0 \<le> k - Suc d
      \<longleftrightarrow> (\<forall>c \<in> set (json_children v). json_depth c \<le> k - Suc d)"
    by (simp add: fold_max_le)
  moreover obtain c where "c \<in> set (json_children v)" using False by (cases "json_children v") auto
  ultimately show ?thesis using False
    by (cases "Suc d \<le> k") (fastforce simp: le_diff_conv2)+
qed

end
