(* ===== verification/Affinity.thy ===== *)
theory Affinity
  imports Json
begin

text \<open>
  internal/routing/affinity.go: the leading-turn fingerprint chain of a conversation and the
  bounded store that tells conversations with the same opening turn apart.

  \<^verbatim>\<open>sha256.Sum256\<close> is the argument \<open>sha\<close>; a fingerprint is its byte string. The LRU list is kept
  as the list of its elements' keys, front first: an entry and its list element are created and
  removed together.
\<close>

subsection \<open>Fingerprint chains\<close>

definition affinity_chain_depth :: nat where "affinity_chain_depth = 64"
definition affinity_sample_bytes :: nat where "affinity_sample_bytes = 16 * 1024"
definition affinity_sample_head :: nat where "affinity_sample_head = 4 * 1024"
definition affinity_sample_tail :: nat where "affinity_sample_tail = 4 * 1024"

text \<open>The eight bytes of \<^verbatim>\<open>binary.BigEndian.PutUint64\<close>.\<close>

definition big_endian_64 :: "nat \<Rightarrow> string" where
  "big_endian_64 n = map (\<lambda>i. char_of (n div 256 ^ (7 - i) mod 256)) [0..<8]"

definition sample_bytes :: "string \<Rightarrow> string" where
  "sample_bytes b =
     (if length b \<le> affinity_sample_bytes then b
      else take affinity_sample_head b @ big_endian_64 (length b) @ drop (length b - affinity_sample_tail) b)"

fun content_parts :: "json list \<Rightarrow> string list" where
  "content_parts [] = []"
| "content_parts (raw # cs) =
     (case as_obj (Some raw) of
        None \<Rightarrow> content_parts cs
      | Some part \<Rightarrow>
          (let typ = str_field part ''type''; txt = str_field part ''text''
           in if typ = [] \<and> txt = [] then content_parts cs
              else sample_bytes (typ @ [char_of (0 :: nat)] @ txt) # content_parts cs))"

fun canonical_content_parts :: "json option \<Rightarrow> string list" where
  "canonical_content_parts (Some (Str c)) = (if c = [] then [] else [sample_bytes c])"
| "canonical_content_parts (Some (Arr cs)) = content_parts cs"
| "canonical_content_parts _ = []"

definition turn_fingerprint :: "(string \<Rightarrow> string) \<Rightarrow> (string, json) gomap \<Rightarrow> string" where
  "turn_fingerprint sha msg =
     sha (''nenya-affinity-turn-v1'' @ [char_of (0 :: nat)] @ str_field msg ''role''
       @ concat (map (\<lambda>part. char_of (1 :: nat) # part) (canonical_content_parts (map_of msg ''content''))))"

definition chain_step :: "(string \<Rightarrow> string) \<Rightarrow> string \<Rightarrow> string option \<Rightarrow> string" where
  "chain_step sha turn_fp prev =
     sha (''nenya-affinity-chain-v1'' @ (case prev of None \<Rightarrow> [] | Some p \<Rightarrow> p) @ turn_fp)"

text \<open>The loop over the messages: it stops at the first that is not an object.\<close>

fun build_chain :: "(string \<Rightarrow> string) \<Rightarrow> json list \<Rightarrow> string option \<Rightarrow> string list" where
  "build_chain sha [] prev = []"
| "build_chain sha (m # ms) prev =
     (case as_obj (Some m) of
        None \<Rightarrow> []
      | Some msg \<Rightarrow>
          (let fp = chain_step sha (turn_fingerprint sha msg) prev in fp # build_chain sha ms (Some fp)))"

definition build_affinity_chain :: "(string \<Rightarrow> string) \<Rightarrow> (string, json) gomap option \<Rightarrow> string list" where
  "build_affinity_chain sha payload = (case payload of
     None \<Rightarrow> []
   | Some p \<Rightarrow> (case as_arr (map_of p ''messages'') of
       None \<Rightarrow> []
     | Some messages \<Rightarrow> build_chain sha (take affinity_chain_depth messages) None))"

fun lcp_turns :: "string list \<Rightarrow> string list \<Rightarrow> nat" where
  "lcp_turns (a # as) (b # bs) = (if a \<noteq> b then 0 else Suc (lcp_turns as bs))"
| "lcp_turns _ _ = 0"

definition hex_nibble :: "nat \<Rightarrow> char" where
  "hex_nibble n = ''0123456789abcdef'' ! n"

definition hex_fingerprint :: "(string \<Rightarrow> string) \<Rightarrow> string list \<Rightarrow> string" where
  "hex_fingerprint sha chain =
     (if chain = [] then ''empty''
      else concat (map (\<lambda>b. [hex_nibble (byte b div 16), hex_nibble (byte b mod 16)]) (take 8 (sha (concat chain)))))"

subsection \<open>The store\<close>

record affinity_entry =
  a_chain :: "string list"
  accessed :: time

record affinity_store =
  a_entries :: "(string, affinity_entry) gomap"
  a_lru :: "string list"
  a_cap :: int
  a_ttl :: duration

definition default_affinity_cap :: int where "default_affinity_cap = 8192"
definition default_affinity_ttl :: duration where "default_affinity_ttl = 60 * minute"

definition new_affinity_store :: "int \<Rightarrow> duration \<Rightarrow> affinity_store" where
  "new_affinity_store cap ttl =
     \<lparr>a_entries = [], a_lru = [], a_cap = (if cap \<le> 0 then default_affinity_cap else cap),
      a_ttl = (if ttl \<le> 0 then default_affinity_ttl else ttl)\<rparr>"

function affinity_shrink :: "affinity_store \<Rightarrow> affinity_store" where
  "affinity_shrink s =
     (if int (length (a_entries s)) > a_cap s \<and> a_lru s \<noteq> []
      then affinity_shrink (s\<lparr>a_lru := butlast (a_lru s), a_entries := del (last (a_lru s)) (a_entries s)\<rparr>)
      else s)"
  by pat_completeness auto
termination
  by (relation "measure (\<lambda>s. length (a_lru s))") auto

declare affinity_shrink.simps [simp del]

definition affinity_insert :: "time \<Rightarrow> string \<Rightarrow> string list \<Rightarrow> affinity_store \<Rightarrow> affinity_store" where
  "affinity_insert now key chain s =
     affinity_shrink (s\<lparr>a_lru := key # a_lru s, a_entries := put key \<lparr>a_chain = chain, accessed = now\<rparr> (a_entries s)\<rparr>)"

text \<open>Refreshing an entry: its chain, its access time and its place at the front.\<close>

definition affinity_touch :: "time \<Rightarrow> string \<Rightarrow> string list \<Rightarrow> affinity_store \<Rightarrow> affinity_store" where
  "affinity_touch now key chain s =
     s\<lparr>a_lru := key # remove1 key (a_lru s), a_entries := put key \<lparr>a_chain = chain, accessed = now\<rparr> (a_entries s)\<rparr>"

definition affinity_evict_expired :: "time \<Rightarrow> affinity_store \<Rightarrow> affinity_store" where
  "affinity_evict_expired now s =
     (if a_ttl s \<le> 0 then s
      else
        let cutoff = now - a_ttl s; old = (\<lambda>k. case map_of (a_entries s) k of None \<Rightarrow> False | Some e \<Rightarrow> accessed e < cutoff)
        in s\<lparr>a_lru := filter (\<lambda>k. \<not> old k) (a_lru s), a_entries := filter (\<lambda>(k, e). \<not> accessed e < cutoff) (a_entries s)\<rparr>)"

definition fork_key :: "(string \<Rightarrow> string) \<Rightarrow> string list \<Rightarrow> nat \<Rightarrow> string \<Rightarrow> string" where
  "fork_key sha chain shared root_key = ''fork-'' @ hex_fingerprint sha (take shared chain) @ ''-'' @ root_key"

definition resolve_identity ::
  "(string \<Rightarrow> string) \<Rightarrow> time \<Rightarrow> time \<Rightarrow> string \<Rightarrow> string list \<Rightarrow> affinity_store \<Rightarrow> string \<times> affinity_store" where
  "resolve_identity sha t_evict now root_key chain s =
     (if root_key = [] then (root_key, s)
      else
        let s = affinity_evict_expired t_evict s in
        case map_of (a_entries s) root_key of
          None \<Rightarrow> (root_key, affinity_insert now root_key chain s)
        | Some entry \<Rightarrow>
            (let shared = lcp_turns (a_chain entry) chain in
             if shared \<ge> min 2 (length (a_chain entry)) then (root_key, affinity_touch now root_key chain s)
             else
               let fork = fork_key sha chain shared root_key
               in (fork, (case map_of (a_entries s) fork of
                            None \<Rightarrow> affinity_insert now fork chain s
                          | Some e \<Rightarrow> affinity_touch now fork chain s))))"

definition affinity_len :: "affinity_store \<Rightarrow> nat" where
  "affinity_len s = length (a_entries s)"

subsection \<open>Chains grow by extension\<close>

lemma lcp_turns_le: "lcp_turns a b \<le> length a" "lcp_turns a b \<le> length b"
  by (induction a b rule: lcp_turns.induct) auto

lemma lcp_turns_take: "take (lcp_turns a b) a = take (lcp_turns a b) b"
  by (induction a b rule: lcp_turns.induct) auto

lemma lcp_turns_ge: "n \<le> lcp_turns a b \<longleftrightarrow> n \<le> length a \<and> n \<le> length b \<and> take n a = take n b"
proof (induction a b arbitrary: n rule: lcp_turns.induct)
  case (1 a as b bs)
  then show ?case by (cases n) auto
qed auto

lemma lcp_turns_prefix: "prefix a b \<Longrightarrow> lcp_turns a b = length a"
  by (induction a b rule: lcp_turns.induct) auto

lemma build_chain_append:
  "prefix (build_chain sha ms prev) (build_chain sha (ms @ ms') prev)"
  by (induction sha ms prev rule: build_chain.induct) (auto simp: Let_def split: option.split)

lemma build_chain_take: "prefix (build_chain sha (take n ms) prev) (build_chain sha ms prev)"
  using build_chain_append [of sha "take n ms" prev "drop n ms"] by simp

lemma build_chain_length: "length (build_chain sha ms prev) \<le> length ms"
  by (induction sha ms prev rule: build_chain.induct) (auto simp: Let_def split: option.split)

text \<open>The chain of a conversation that has gone on extends the chain it had.\<close>

lemma chain_grows:
  assumes "as_arr (map_of p ''messages'') = Some ms" and "as_arr (map_of p' ''messages'') = Some (ms @ later)"
  shows "prefix (build_affinity_chain sha (Some p)) (build_affinity_chain sha (Some p'))"
proof -
  let ?d = affinity_chain_depth
  have "take ?d (ms @ later) = take ?d ms @ take (?d - length ms) later" by simp
  then show ?thesis
    using assms build_chain_append [of sha "take ?d ms" None] by (simp add: build_affinity_chain_def)
qed

subsection \<open>The store is bounded\<close>

definition affinity_ok :: "affinity_store \<Rightarrow> bool" where
  "affinity_ok s \<longleftrightarrow> gomap_ok (a_entries s) \<and> distinct (a_lru s) \<and> set (a_lru s) = fst ` set (a_entries s)
     \<and> 0 < a_cap s"

lemma affinity_drop_last_ok:
  assumes "affinity_ok s" and "a_lru s \<noteq> []"
  shows "affinity_ok (s\<lparr>a_lru := butlast (a_lru s), a_entries := del (last (a_lru s)) (a_entries s)\<rparr>)"
proof -
  have "set (butlast (a_lru s)) = set (a_lru s) - {last (a_lru s)}"
    using assms by (cases "a_lru s" rule: rev_cases) (auto simp: affinity_ok_def)
  then show ?thesis
    using assms by (simp add: affinity_ok_def keys_del distinct_butlast del: image_set)
qed

lemma affinity_shrink_ok:
  "affinity_ok s \<Longrightarrow> affinity_ok (affinity_shrink s) \<and> int (length (a_entries (affinity_shrink s))) \<le> a_cap s
     \<and> a_cap (affinity_shrink s) = a_cap s"
proof (induction s rule: affinity_shrink.induct)
  case (1 s)
  show ?case
  proof (cases "int (length (a_entries s)) > a_cap s \<and> a_lru s \<noteq> []")
    case True
    then have "affinity_shrink s
        = affinity_shrink (s\<lparr>a_lru := butlast (a_lru s), a_entries := del (last (a_lru s)) (a_entries s)\<rparr>)"
      by (simp add: affinity_shrink.simps [of s])
    then show ?thesis using "1.IH" [OF True] affinity_drop_last_ok [OF "1.prems"] True by simp
  next
    case False
    then have "affinity_shrink s = s" by (subst affinity_shrink.simps) auto
    moreover have "length (a_lru s) = length (a_entries s)"
      using "1.prems" by (metis affinity_ok_def distinct_card length_map list.set_map)
    ultimately show ?thesis using False "1.prems" by (auto simp: affinity_ok_def)
  qed
qed

text \<open>Every resolution keeps the store well formed and within its cap.\<close>

lemma affinity_insert_ok:
  assumes "affinity_ok s" and "map_of (a_entries s) key = None"
  shows "affinity_ok (affinity_insert now key chain s)
    \<and> int (length (a_entries (affinity_insert now key chain s))) \<le> a_cap s \<and> a_cap (affinity_insert now key chain s) = a_cap s"
proof -
  let ?s = "s\<lparr>a_lru := key # a_lru s, a_entries := put key \<lparr>a_chain = chain, accessed = now\<rparr> (a_entries s)\<rparr>"
  have "key \<notin> set (a_lru s)" using assms by (simp add: affinity_ok_def map_of_eq_None_iff)
  then have "affinity_ok ?s" using assms by (simp add: affinity_ok_def keys_put del: image_set)
  from affinity_shrink_ok [OF this] show ?thesis by (simp add: affinity_insert_def)
qed

lemma affinity_touch_ok:
  "affinity_ok s \<Longrightarrow> map_of (a_entries s) key \<noteq> None \<Longrightarrow> affinity_ok (affinity_touch now key chain s)"
  by (auto simp: affinity_ok_def affinity_touch_def keys_put distinct_remove1 set_remove1_eq simp del: image_set)

lemma affinity_expire_ok: "affinity_ok s \<Longrightarrow> affinity_ok (affinity_evict_expired now s)"
proof -
  assume ok: "affinity_ok s"
  have keys: "fst ` set (filter (\<lambda>(k, e). \<not> accessed e < c) (a_entries s)) =
      {k \<in> fst ` set (a_entries s). \<not> (case map_of (a_entries s) k of None \<Rightarrow> False | Some e \<Rightarrow> accessed e < c)}" for c
    using ok by (force simp: affinity_ok_def)
  have "set (a_lru s) = fst ` set (a_entries s)" using ok by (simp add: affinity_ok_def)
  then have "set (filter (\<lambda>k. \<not> (case map_of (a_entries s) k of None \<Rightarrow> False | Some e \<Rightarrow> accessed e < c)) (a_lru s))
      = fst ` set (filter (\<lambda>(k, e). \<not> accessed e < c) (a_entries s))" for c
    unfolding keys by (simp only: set_filter)
  then show ?thesis
    using ok by (simp add: affinity_ok_def affinity_evict_expired_def Let_def distinct_map_filter del: set_filter image_set)
qed

lemma affinity_expire_frame [simp]: "a_cap (affinity_evict_expired now s) = a_cap s"
  by (simp add: affinity_evict_expired_def Let_def)

lemma affinity_expire_length: "length (a_entries (affinity_evict_expired now s)) \<le> length (a_entries s)"
  by (simp add: affinity_evict_expired_def Let_def)

definition store_ok :: "affinity_store \<Rightarrow> bool" where
  "store_ok s \<longleftrightarrow> affinity_ok s \<and> int (length (a_entries s)) \<le> a_cap s"

lemma resolve_ok:
  assumes "store_ok s"
  shows "store_ok (snd (resolve_identity sha t1 t2 key chain s))"
proof -
  let ?s = "affinity_evict_expired t1 s"
  have ok: "affinity_ok ?s" and len: "int (length (a_entries ?s)) \<le> a_cap s" and cap: "a_cap ?s = a_cap s"
    using assms affinity_expire_ok affinity_expire_length [of t1 s] by (auto simp: store_ok_def)
  have touch: "store_ok (affinity_touch t2 k chain ?s)" if "map_of (a_entries ?s) k = Some e" for k e
    using affinity_touch_ok [OF ok, of k] len cap that
    by (simp add: store_ok_def) (simp add: affinity_touch_def)
  have ins: "store_ok (affinity_insert t2 k chain ?s)" if "map_of (a_entries ?s) k = None" for k
    using affinity_insert_ok [OF ok that] cap by (simp add: store_ok_def)
  show ?thesis
    using assms touch ins by (auto simp: resolve_identity_def Let_def split: option.split)
qed

interpretation aff: machine "\<lambda>s (t1, t2, key, chain). snd (resolve_identity sha t1 t2 key chain s)" store_ok for sha
  by unfold_locales (simp add: resolve_ok split: prod.split)

subsection \<open>Identities\<close>

text \<open>The entry survives the expiry sweep while it is younger than the time to live.\<close>

lemma expire_keeps:
  "affinity_ok s \<Longrightarrow> map_of (a_entries s) key = Some e \<Longrightarrow> t - a_ttl s \<le> accessed e \<Longrightarrow>
     map_of (a_entries (affinity_evict_expired t s)) key = Some e"
  by (auto simp: affinity_ok_def affinity_evict_expired_def Let_def distinct_map_filter)

text \<open>
  A growing conversation keeps its identity. If the store remembers for a session key the
  chain of a conversation's earlier request, and the entry has not idled past its time to live,
  then the request with further messages appended resolves to the same session key and the
  longer chain is remembered, whatever else the store holds.
\<close>

theorem growing_conversation_keeps_identity:
  assumes "s = run_ops (\<lambda>s (t1, t2, key, chain). snd (resolve_identity sha t1 t2 key chain s)) (new_affinity_store cap ttl) before"
    and "map_of (a_entries s) key = Some e" and "t1 - a_ttl s \<le> accessed e" and "key \<noteq> []"
    and "as_arr (map_of p ''messages'') = Some ms" and "as_arr (map_of p' ''messages'') = Some (ms @ later)"
    and "a_chain e = build_affinity_chain sha (Some p)"
    and "resolve_identity sha t1 t2 key (build_affinity_chain sha (Some p')) s = (identity, s')"
  shows "identity = key \<and> map_of (a_entries s') key = Some \<lparr>a_chain = build_affinity_chain sha (Some p'), accessed = t2\<rparr>"
proof -
  have "store_ok (new_affinity_store cap ttl)"
    by (simp add: store_ok_def affinity_ok_def new_affinity_store_def default_affinity_cap_def)
  then have "store_ok s" unfolding assms(1) by (rule aff.run_inv)
  then have "map_of (a_entries (affinity_evict_expired t1 s)) key = Some e"
    using expire_keeps assms(2,3) by (simp add: store_ok_def)
  moreover have "lcp_turns (a_chain e) (build_affinity_chain sha (Some p')) = length (a_chain e)"
    using chain_grows [OF assms(5,6), of sha] lcp_turns_prefix unfolding assms(7) by blast
  ultimately show ?thesis
    using assms(4,8) by (auto simp: resolve_identity_def affinity_touch_def map_of_put Let_def)
qed

definition turn :: "string \<Rightarrow> string \<Rightarrow> json" where
  "turn r c = Obj [(''role'', Str r), (''content'', Str c)]"

definition chat :: "json list \<Rightarrow> (string, json) gomap" where
  "chat ms = [(''messages'', Arr ms)]"

theorem growing_conversation_keeps_identity_witness:
  "fst (resolve_identity id 5 5 ''k'' (build_affinity_chain id (Some (chat [turn ''user'' ''a'', turn ''user'' ''b''])))
     (run_ops (\<lambda>s (t1, t2, key, chain). snd (resolve_identity id t1 t2 key chain s)) (new_affinity_store 2 100)
       [(0, 0, ''k'', build_affinity_chain id (Some (chat [turn ''user'' ''a''])))])) = ''k''"
proof -
  let ?c = "build_affinity_chain id (Some (chat [turn ''user'' ''a'']))"
  let ?s = "run_ops (\<lambda>s (t1, t2, key, chain). snd (resolve_identity id t1 t2 key chain s)) (new_affinity_store 2 100) [(0, 0, ''k'', ?c)]"
  have s: "map_of (a_entries ?s) ''k'' = Some \<lparr>a_chain = ?c, accessed = 0\<rparr>" "a_ttl ?s = 100"
    by (simp_all add: resolve_identity_def new_affinity_store_def affinity_evict_expired_def affinity_insert_def
        affinity_shrink.simps)
  show ?thesis
    by (rule conjunct1 [OF growing_conversation_keeps_identity [OF refl s(1) _ _ _ _ _ prod.collapse [symmetric],
          where p = "chat [turn ''user'' ''a'']" and ms = "[turn ''user'' ''a'']" and later = "[turn ''user'' ''b'']"]])
      (simp_all only: s(2), simp_all add: chat_def)
qed

text \<open>
  A session key has at most three identities. However many different conversations share a
  remembered session key, each of them resolves to the key itself, to the fork of the empty
  prefix or to the fork of the remembered opening turn: the fork's name folds the shared prefix
  only, and that prefix has at most one turn. Conversations that open alike and then diverge in
  different ways all receive the same fork identity.
\<close>

theorem at_most_three_identities:
  assumes "affinity_ok s" and "map_of (a_entries s) key = Some e" and "t1 - a_ttl s \<le> accessed e"
  shows "fst (resolve_identity sha t1 t2 key chain s)
    \<in> {key, ''fork-empty-'' @ key, ''fork-'' @ hex_fingerprint sha (take 1 (a_chain e)) @ ''-'' @ key}"
proof (cases "key = []")
  case False
  let ?n = "lcp_turns (a_chain e) chain"
  have m: "map_of (a_entries (affinity_evict_expired t1 s)) key = Some e" using expire_keeps assms by simp
  show ?thesis
  proof (cases "?n \<ge> min 2 (length (a_chain e))")
    case True
    then show ?thesis using False m by (simp add: resolve_identity_def Let_def)
  next
    case nf: False
    then have "?n = 0 \<or> ?n = 1" by linarith
    then have "fork_key sha chain ?n key
        \<in> {''fork-empty-'' @ key, ''fork-'' @ hex_fingerprint sha (take 1 (a_chain e)) @ ''-'' @ key}"
      using lcp_turns_take [of "a_chain e" chain] by (auto simp: fork_key_def hex_fingerprint_def)
    then show ?thesis using False m nf by (simp add: resolve_identity_def Let_def)
  qed
qed (simp add: resolve_identity_def)

theorem at_most_three_identities_witness:
  "fst (resolve_identity id 0 0 ''k'' [''1'', ''3'', ''4'']
      \<lparr>a_entries = [(''k'', \<lparr>a_chain = [''1'', ''2''], accessed = 0\<rparr>)], a_lru = [''k''], a_cap = 9, a_ttl = 9\<rparr>)
    \<in> {''k'', ''fork-empty-k'', ''fork-31-k''}"
proof -
  let ?s = "\<lparr>a_entries = [(''k'', \<lparr>a_chain = [''1'', ''2''], accessed = 0\<rparr>)], a_lru = [''k''], a_cap = 9, a_ttl = 9\<rparr>"
  have h: "hex_fingerprint id [''1''] = ''31''" by code_simp
  have "affinity_ok ?s" by (simp add: affinity_ok_def)
  from at_most_three_identities [OF this, of "''k''" "\<lparr>a_chain = [''1'', ''2''], accessed = 0\<rparr>" 0 id 0 "[''1'', ''3'', ''4'']"]
  show ?thesis by (simp add: h)
qed

end
