(* ===== verification/IpDeny.thy ===== *)
theory IpDeny
  imports Prelude
begin

text \<open>
  internal/netutil/ipdeny.go: which destination hosts taken from untrusted content are denied,
  in every spelling of an address that a resolver accepts.

  A \<^verbatim>\<open>net.IP\<close> is its list of bytes, 4 or 16 of them. The predicates of \<^verbatim>\<open>net.IP\<close> are modelled
  (a mask of a byte is written as a division), \<^verbatim>\<open>net.ParseIP\<close> is the argument \<open>parse_ip\<close>: no
  theorem depends on what it accepts.
\<close>

type_synonym ip = "nat list"

subsection \<open>The standard library's addresses\<close>

definition ipv4 :: "nat \<Rightarrow> nat \<Rightarrow> nat \<Rightarrow> nat \<Rightarrow> ip" where
  "ipv4 a b c d = replicate 10 0 @ [255, 255, a, b, c, d]"

definition to4 :: "ip \<Rightarrow> ip option" where
  "to4 ip = (if length ip = 4 then Some ip
     else if length ip = 16 \<and> take 10 ip = replicate 10 0 \<and> ip ! 10 = 255 \<and> ip ! 11 = 255 then Some (drop 12 ip)
     else None)"

definition ip_equal :: "ip \<Rightarrow> ip \<Rightarrow> bool" where
  "ip_equal x y = (if length x = length y then x = y
     else if length x = 4 \<and> length y = 16 then take 12 y = replicate 10 0 @ [255, 255] \<and> x = drop 12 y
     else if length x = 16 \<and> length y = 4 then take 12 x = replicate 10 0 @ [255, 255] \<and> drop 12 x = y
     else False)"

definition is_loopback :: "ip \<Rightarrow> bool" where
  "is_loopback ip = (case to4 ip of Some v4 \<Rightarrow> v4 ! 0 = 127 | None \<Rightarrow> ip_equal ip (replicate 15 0 @ [1]))"

definition is_private :: "ip \<Rightarrow> bool" where
  "is_private ip = (case to4 ip of
     Some v4 \<Rightarrow> v4 ! 0 = 10 \<or> (v4 ! 0 = 172 \<and> v4 ! 1 div 16 = 1) \<or> (v4 ! 0 = 192 \<and> v4 ! 1 = 168)
   | None \<Rightarrow> length ip = 16 \<and> ip ! 0 div 2 = 126)"

definition is_link_local_unicast :: "ip \<Rightarrow> bool" where
  "is_link_local_unicast ip = (case to4 ip of
     Some v4 \<Rightarrow> v4 ! 0 = 169 \<and> v4 ! 1 = 254
   | None \<Rightarrow> length ip = 16 \<and> ip ! 0 = 254 \<and> ip ! 1 div 64 = 2)"

definition is_unspecified :: "ip \<Rightarrow> bool" where
  "is_unspecified ip \<longleftrightarrow> ip_equal ip (ipv4 0 0 0 0) \<or> ip_equal ip (replicate 16 0)"

definition is_multicast :: "ip \<Rightarrow> bool" where
  "is_multicast ip = (case to4 ip of
     Some v4 \<Rightarrow> v4 ! 0 div 16 = 14 | None \<Rightarrow> length ip = 16 \<and> ip ! 0 = 255)"

text \<open>\<^verbatim>\<open>ip.Mask(net.CIDRMask(n, 32))\<close> for the two prefix lengths in use.\<close>

definition mask8 :: "ip \<Rightarrow> ip" where
  "mask8 ip = (case to4 ip of Some v4 \<Rightarrow> [v4 ! 0, 0, 0, 0] | None \<Rightarrow> [])"

definition mask10 :: "ip \<Rightarrow> ip" where
  "mask10 ip = (case to4 ip of Some v4 \<Rightarrow> [v4 ! 0, v4 ! 1 div 64 * 64, 0, 0] | None \<Rightarrow> [])"

subsection \<open>The deny set\<close>

definition bytes_zero :: "nat list \<Rightarrow> bool" where
  "bytes_zero b = list_all (\<lambda>x. x = 0) b"

definition mapped_ipv4 :: "ip \<Rightarrow> ip option" where
  "mapped_ipv4 ip = (if length ip = 4 then Some ip
     else if length ip = 16 \<and> bytes_zero (take 10 ip) \<and> ip ! 10 = 255 \<and> ip ! 11 = 255 then Some (drop 12 ip)
     else None)"

definition deny_ipv4 :: "ip \<Rightarrow> bool" where
  "deny_ipv4 ip =
     (if is_loopback ip \<or> is_private ip \<or> is_link_local_unicast ip \<or> is_unspecified ip \<or> is_multicast ip
         \<or> ip_equal ip (ipv4 255 255 255 255) then True
      else if ip_equal (mask8 (ipv4 0 0 0 0)) (mask8 ip) then True
      else ip_equal (mask10 (ipv4 100 64 0 0)) (mask10 ip))"

definition embedded_ipv4 :: "ip \<Rightarrow> ip option" where
  "embedded_ipv4 ip =
     (if length ip \<noteq> 16 then None
      else if bytes_zero (take 12 ip) then Some (drop 12 ip)
      else if ip ! 0 = 0 \<and> ip ! 1 = 100 \<and> ip ! 2 = 255 \<and> ip ! 3 = 155 \<and> bytes_zero (take 8 (drop 4 ip))
           then Some (drop 12 ip)
      else None)"

definition deny_ipv6 :: "ip \<Rightarrow> bool" where
  "deny_ipv6 ip =
     (if is_loopback ip \<or> is_link_local_unicast ip \<or> is_unspecified ip \<or> is_private ip \<or> is_multicast ip then True
      else case embedded_ipv4 ip of Some v4 \<Rightarrow> deny_ipv4 v4 | None \<Rightarrow> False)"

definition deny_ip :: "ip \<Rightarrow> bool" where
  "deny_ip ip = (case mapped_ipv4 ip of Some v4 \<Rightarrow> deny_ipv4 v4 | None \<Rightarrow> deny_ipv6 ip)"

subsection \<open>Numeric spellings\<close>

text \<open>\<^verbatim>\<open>strings.Split(s, ".")\<close>.\<close>

fun split_dots :: "string \<Rightarrow> string list" where
  "split_dots [] = [[]]"
| "split_dots (c # s) =
     (if c = CHR ''.'' then [] # split_dots s
      else case split_dots s of [] \<Rightarrow> [[c]] | l # ls \<Rightarrow> (c # l) # ls)"

definition digit_value :: "char \<Rightarrow> nat option" where
  "digit_value c =
     (let b = byte c in
      if 48 \<le> b \<and> b \<le> 57 then Some (b - 48)
      else if 97 \<le> b \<and> b \<le> 122 then Some (b - 87)
      else if 65 \<le> b \<and> b \<le> 90 then Some (b - 55)
      else None)"

text \<open>\<^verbatim>\<open>strconv.ParseUint(s, base, 32)\<close> on a non-empty string; \<open>None\<close> stands for its errors.\<close>

fun parse_digits :: "nat \<Rightarrow> nat \<Rightarrow> string \<Rightarrow> nat option" where
  "parse_digits base acc [] = Some acc"
| "parse_digits base acc (c # s) =
     (case digit_value c of
        None \<Rightarrow> None
      | Some d \<Rightarrow> (if d \<ge> base then None
          else if acc * base + d \<ge> 2 ^ 32 then None else parse_digits base (acc * base + d) s))"

definition parse_host_label :: "string \<Rightarrow> nat option" where
  "parse_host_label label =
     (if label = [] then None
      else
        let (base, digits) =
          (if has_prefix label ''0x'' \<or> has_prefix label ''0X'' then (16, drop 2 label)
           else if hd label = CHR ''0'' \<and> length label > 1 then (8, tl label)
           else (10, label))
        in if digits = [] then None else parse_digits base 0 digits)"

text \<open>The big-endian bytes of the last label's value.\<close>

definition be_bytes :: "nat \<Rightarrow> nat \<Rightarrow> nat list" where
  "be_bytes n v = map (\<lambda>j. v div 256 ^ (n - 1 - j) mod 256) [0..<n]"

fun fill_parts :: "nat \<Rightarrow> string list \<Rightarrow> nat list option" where
  "fill_parts i [] = None"
| "fill_parts i [label] =
     (case parse_host_label label of None \<Rightarrow> None
      | Some value \<Rightarrow> (if value > 256 ^ (4 - i) - 1 then None else Some (be_bytes (4 - i) value)))"
| "fill_parts i (label # labels) =
     (case parse_host_label label of None \<Rightarrow> None
      | Some value \<Rightarrow> (if value > 255 then None else map_option (\<lambda>bs. value # bs) (fill_parts (Suc i) labels)))"

definition parse_numeric_ipv4 :: "string \<Rightarrow> ip option" where
  "parse_numeric_ipv4 host =
     (let labels = split_dots host in
      if length labels > 4 then None
      else case fill_parts 0 labels of None \<Rightarrow> None | Some ps \<Rightarrow> Some (ipv4 (ps ! 0) (ps ! 1) (ps ! 2) (ps ! 3)))"

definition count_dots :: "string \<Rightarrow> nat" where
  "count_dots s = length (filter (\<lambda>c. c = CHR ''.'') s)"

definition parse_standalone_ipv4 :: "string \<Rightarrow> ip option" where
  "parse_standalone_ipv4 host =
     (if \<not> has_prefix host ''0x'' \<and> \<not> has_prefix host ''0X'' \<and> count_dots host < 3 then None
      else parse_numeric_ipv4 host)"

definition parse_bare_host :: "(string \<Rightarrow> ip option) \<Rightarrow> string \<Rightarrow> ip option" where
  "parse_bare_host parse_ip host = (case parse_ip host of Some ip \<Rightarrow> Some ip | None \<Rightarrow> parse_standalone_ipv4 host)"

definition is_ip_literal :: "(string \<Rightarrow> ip option) \<Rightarrow> string \<Rightarrow> ip option" where
  "is_ip_literal parse_ip host = (case parse_ip host of Some ip \<Rightarrow> Some ip | None \<Rightarrow> parse_numeric_ipv4 host)"

definition normalize_host :: "string \<Rightarrow> string" where
  "normalize_host host =
     (let host = to_lower host;
          host = rev (dropWhile (\<lambda>c. c = CHR ''.'') (rev host))
      in if CHR '':'' \<in> set host \<and> CHR ''%'' \<in> set host then takeWhile (\<lambda>c. c \<noteq> CHR ''%'') host else host)"

definition deny_host :: "(string \<Rightarrow> ip option) \<Rightarrow> string \<Rightarrow> bool" where
  "deny_host parse_ip host =
     (if host = [] then False
      else if host = ''localhost'' \<or> has_suffix host ''.localhost'' then True
      else if has_suffix host ''.internal'' \<or> has_suffix host ''.local'' then True
      else case parse_ip host of
        Some ip \<Rightarrow> deny_ip ip
      | None \<Rightarrow> (case parse_numeric_ipv4 host of Some ip \<Rightarrow> deny_ip ip | None \<Rightarrow> False))"

subsection \<open>The deny set by address\<close>

text \<open>The denied IPv4 addresses as ranges of the 32-bit address.\<close>

definition denied_address :: "nat \<Rightarrow> bool" where
  "denied_address n \<longleftrightarrow> n div 2 ^ 24 = 0 \<or> n div 2 ^ 24 = 10 \<or> n div 2 ^ 24 = 127
     \<or> n div 2 ^ 16 = 169 * 256 + 254 \<or> n div 2 ^ 20 = 172 * 16 + 1 \<or> n div 2 ^ 16 = 192 * 256 + 168
     \<or> n div 2 ^ 22 = 100 * 4 + 1 \<or> n div 2 ^ 28 = 14 \<or> n = 2 ^ 32 - 1"

text \<open>The address that \<^verbatim>\<open>inet_aton\<close> reads off the label values: the last one fills what is left.\<close>

fun aton :: "nat list \<Rightarrow> nat option" where
  "aton [d] = (if d < 2 ^ 32 then Some d else None)"
| "aton [a, d] = (if a < 256 \<and> d < 2 ^ 24 then Some (a * 2 ^ 24 + d) else None)"
| "aton [a, b, d] = (if a < 256 \<and> b < 256 \<and> d < 2 ^ 16 then Some (a * 2 ^ 24 + b * 2 ^ 16 + d) else None)"
| "aton [a, b, c, d] =
     (if a < 256 \<and> b < 256 \<and> c < 256 \<and> d < 256 then Some (a * 2 ^ 24 + b * 2 ^ 16 + c * 2 ^ 8 + d) else None)"
| "aton _ = None"

definition address_of :: "nat \<Rightarrow> nat \<Rightarrow> nat \<Rightarrow> nat \<Rightarrow> nat" where
  "address_of a b c d = a * 2 ^ 24 + b * 2 ^ 16 + c * 2 ^ 8 + d"

lemma address_split:
  assumes "a < 256" "b < 256" "c < 256" "d < 256"
  shows "address_of a b c d div 2 ^ 24 = a" "address_of a b c d div 2 ^ 16 = a * 256 + b"
    "address_of a b c d div 2 ^ 20 = a * 16 + b div 16" "address_of a b c d div 2 ^ 22 = a * 4 + b div 64"
    "address_of a b c d div 2 ^ 28 = a div 16"
    "address_of a b c d = 2 ^ 32 - 1 \<longleftrightarrow> a = 255 \<and> b = 255 \<and> c = 255 \<and> d = 255"
proof -
  have at: "x div k = q" if "x = q * k + r" "r < k" for x k q r :: nat
    using that by simp
  show "address_of a b c d div 2 ^ 24 = a"
    by (rule at [where r = "b * 2 ^ 16 + c * 2 ^ 8 + d"]) (use assms in \<open>simp_all add: address_of_def\<close>)
  show "address_of a b c d div 2 ^ 16 = a * 256 + b"
    by (rule at [where r = "c * 2 ^ 8 + d"]) (use assms in \<open>simp_all add: address_of_def\<close>)
  have dm: "\<exists>q r. x = k * q + r \<and> r < k \<and> x div k = q" if "0 < k" for x k :: nat
    using that by (intro exI [of _ "x div k"] exI [of _ "x mod k"]) simp
  obtain q r where b: "b = 16 * q + r" "r < 16" "b div 16 = q" using dm [of 16 b] by auto
  show "address_of a b c d div 2 ^ 20 = a * 16 + b div 16"
    unfolding b(3) by (rule at [where r = "r * 2 ^ 16 + c * 2 ^ 8 + d"]) (use assms b in \<open>simp_all add: address_of_def\<close>)
  obtain q r where b: "b = 64 * q + r" "r < 64" "b div 64 = q" using dm [of 64 b] by auto
  show "address_of a b c d div 2 ^ 22 = a * 4 + b div 64"
    unfolding b(3) by (rule at [where r = "r * 2 ^ 16 + c * 2 ^ 8 + d"]) (use assms b in \<open>simp_all add: address_of_def\<close>)
  obtain q r where a: "a = 16 * q + r" "r < 16" "a div 16 = q" using dm [of 16 a] by auto
  show "address_of a b c d div 2 ^ 28 = a div 16"
    unfolding a(3) by (rule at [where r = "r * 2 ^ 24 + b * 2 ^ 16 + c * 2 ^ 8 + d"]) (use assms a in \<open>simp_all add: address_of_def\<close>)
  show "address_of a b c d = 2 ^ 32 - 1 \<longleftrightarrow> a = 255 \<and> b = 255 \<and> c = 255 \<and> d = 255"
    using assms by (simp add: address_of_def) linarith
qed

lemma ipv4_predicates:
  "is_loopback [a, b, c, d] \<longleftrightarrow> a = 127"
  "is_private [a, b, c, d] \<longleftrightarrow> a = 10 \<or> (a = 172 \<and> b div 16 = 1) \<or> (a = 192 \<and> b = 168)"
  "is_link_local_unicast [a, b, c, d] \<longleftrightarrow> a = 169 \<and> b = 254"
  "is_unspecified [a, b, c, d] \<longleftrightarrow> a = 0 \<and> b = 0 \<and> c = 0 \<and> d = 0"
  "is_multicast [a, b, c, d] \<longleftrightarrow> a div 16 = 14"
  "ip_equal [a, b, c, d] (ipv4 255 255 255 255) \<longleftrightarrow> a = 255 \<and> b = 255 \<and> c = 255 \<and> d = 255"
  "ip_equal (mask8 (ipv4 0 0 0 0)) (mask8 [a, b, c, d]) \<longleftrightarrow> a = 0"
  "ip_equal (mask10 (ipv4 100 64 0 0)) (mask10 [a, b, c, d]) \<longleftrightarrow> a = 100 \<and> b div 64 = 1"
proof -
  have t4: "to4 [a, b, c, d] = Some [a, b, c, d]" by (simp add: to4_def)
  have t16: "to4 (ipv4 x y z w) = Some [x, y, z, w]" for x y z w
    by (simp add: to4_def ipv4_def numeral_nat replicate_Suc)
  show "is_loopback [a, b, c, d] \<longleftrightarrow> a = 127" by (simp add: is_loopback_def t4)
  show "is_private [a, b, c, d] \<longleftrightarrow> a = 10 \<or> (a = 172 \<and> b div 16 = 1) \<or> (a = 192 \<and> b = 168)"
    by (simp add: is_private_def t4)
  show "is_link_local_unicast [a, b, c, d] \<longleftrightarrow> a = 169 \<and> b = 254" by (simp add: is_link_local_unicast_def t4)
  show "is_unspecified [a, b, c, d] \<longleftrightarrow> a = 0 \<and> b = 0 \<and> c = 0 \<and> d = 0"
    by (simp add: is_unspecified_def ip_equal_def ipv4_def numeral_nat replicate_Suc)
  show "is_multicast [a, b, c, d] \<longleftrightarrow> a div 16 = 14" by (simp add: is_multicast_def t4)
  show "ip_equal [a, b, c, d] (ipv4 255 255 255 255) \<longleftrightarrow> a = 255 \<and> b = 255 \<and> c = 255 \<and> d = 255"
    by (simp add: ip_equal_def ipv4_def numeral_nat replicate_Suc)
  show "ip_equal (mask8 (ipv4 0 0 0 0)) (mask8 [a, b, c, d]) \<longleftrightarrow> a = 0"
    by (auto simp: ip_equal_def mask8_def t4 t16)
  have "64 = b div 64 * 64 \<longleftrightarrow> b div 64 = 1" by simp
  then show "ip_equal (mask10 (ipv4 100 64 0 0)) (mask10 [a, b, c, d]) \<longleftrightarrow> a = 100 \<and> b div 64 = 1"
    by (auto simp: ip_equal_def mask10_def t4 t16)
qed

lemma deny_ip_bytes:
  assumes "a < 256" "b < 256" "c < 256" "d < 256"
  shows "deny_ip (ipv4 a b c d) = denied_address (address_of a b c d)"
proof -
  have m: "mapped_ipv4 (ipv4 a b c d) = Some [a, b, c, d]"
    by (simp add: mapped_ipv4_def ipv4_def bytes_zero_def numeral_nat replicate_Suc)
  have ite: "(if A then True else if B then True else C) = (A \<or> B \<or> C)" for A B C by simp
  have "deny_ip (ipv4 a b c d) = deny_ipv4 [a, b, c, d]" by (simp add: deny_ip_def m)
  also have "\<dots> \<longleftrightarrow> a = 127 \<or> a = 10 \<or> (a = 172 \<and> b div 16 = 1) \<or> (a = 192 \<and> b = 168) \<or> (a = 169 \<and> b = 254)
      \<or> a = 0 \<or> a div 16 = 14 \<or> (a = 255 \<and> b = 255 \<and> c = 255 \<and> d = 255) \<or> (a = 100 \<and> b div 64 = 1)"
    unfolding deny_ipv4_def ite ipv4_predicates by blast
  also have "\<dots> \<longleftrightarrow> denied_address (address_of a b c d)"
  proof -
    have q: "b div 16 < 16" "b div 64 < 4" using assms by (simp_all add: less_mult_imp_div_less)
    have two: "x * k + y = u * k + v \<longleftrightarrow> x = u \<and> y = v" if "y < k" "v < k" for x y u v k :: nat
      using that by (metis add.commute div_mult_self3 div_less mod_less mod_mult_self3 add_0 not_less_zero)
    have "a * 16 + b div 16 = 172 * 16 + 1 \<longleftrightarrow> a = 172 \<and> b div 16 = 1" by (rule two) (use q in simp_all)
    moreover have "a * 4 + b div 64 = 100 * 4 + 1 \<longleftrightarrow> a = 100 \<and> b div 64 = 1" by (rule two) (use q in simp_all)
    moreover have "a * 256 + b = 169 * 256 + 254 \<longleftrightarrow> a = 169 \<and> b = 254" by (rule two) (use assms in simp_all)
    moreover have "a * 256 + b = 192 * 256 + 168 \<longleftrightarrow> a = 192 \<and> b = 168" by (rule two) (use assms in simp_all)
    ultimately show ?thesis unfolding denied_address_def address_split [OF assms] by blast
  qed
  finally show ?thesis .
qed

subsection \<open>Every numeric spelling\<close>

lemma be_bytes_eval:
  "be_bytes 4 v = [v div 16777216 mod 256, v div 65536 mod 256, v div 256 mod 256, v mod 256]"
  "be_bytes 3 v = [v div 65536 mod 256, v div 256 mod 256, v mod 256]"
  "be_bytes 2 v = [v div 256 mod 256, v mod 256]" "be_bytes (Suc 0) v = [v mod 256]"
  "be_bytes 1 v = [v mod 256]"
  by (simp_all add: be_bytes_def upt_rec)

lemma base256: "(v :: nat) div 256 * 256 + v mod 256 = v"
  by (rule div_mult_mod_eq)

lemma be2: "v < 65536 \<Longrightarrow> v div 256 mod 256 * 256 + v mod 256 = (v :: nat)"
proof -
  assume "v < 65536"
  then have "v div 256 < 256" by (simp add: less_mult_imp_div_less)
  then show ?thesis using base256 [of v] by simp
qed

lemma div_256_twice: "(v :: nat) div 256 div 256 = v div 65536" "v div 256 div 65536 = v div 16777216"
  unfolding div_mult2_eq [symmetric] by simp_all

lemma be3: "v < 16777216 \<Longrightarrow> v div 65536 mod 256 * 65536 + v div 256 mod 256 * 256 + v mod 256 = (v :: nat)"
proof -
  assume v: "v < 16777216"
  then have "v div 256 < 65536" by (simp add: less_mult_imp_div_less)
  from be2 [OF this] have "v div 65536 mod 256 * 256 + v div 256 mod 256 = v div 256" unfolding div_256_twice .
  then show ?thesis using base256 [of v] by linarith
qed

lemma be4: "v < 4294967296 \<Longrightarrow>
  v div 16777216 mod 256 * 16777216 + v div 65536 mod 256 * 65536 + v div 256 mod 256 * 256 + v mod 256 = (v :: nat)"
proof -
  assume v: "v < 4294967296"
  then have "v div 256 < 16777216" by (simp add: less_mult_imp_div_less)
  from be3 [OF this]
  have "v div 16777216 mod 256 * 65536 + v div 65536 mod 256 * 256 + v div 256 mod 256 = v div 256"
    unfolding div_256_twice .
  then show ?thesis using base256 [of v] by linarith
qed

text \<open>The parser composes the bytes of the address that \<open>aton\<close> reads.\<close>

definition composes :: "nat list option \<Rightarrow> nat option \<Rightarrow> bool" where
  "composes r n \<longleftrightarrow> (case n of
     None \<Rightarrow> r = None
   | Some n \<Rightarrow> (\<exists>a b c d. r = Some [a, b, c, d] \<and> a < 256 \<and> b < 256 \<and> c < 256 \<and> d < 256 \<and> address_of a b c d = n))"

lemma fill_parts_aton:
  assumes "list_all2 (\<lambda>l v. parse_host_label l = Some v) ls vs" and "length ls \<le> 4"
  shows "composes (fill_parts 0 ls) (aton vs)"
proof -
  consider "ls = []" | l1 where "ls = [l1]" | l1 l2 where "ls = [l1, l2]" | l1 l2 l3 where "ls = [l1, l2, l3]"
    | l1 l2 l3 l4 where "ls = [l1, l2, l3, l4]"
    using assms(2) by (auto simp: le_Suc_eq numeral_eq_Suc length_Suc_conv)
  then show ?thesis
  proof cases
    case 1
    then show ?thesis using assms(1) by (simp add: composes_def)
  next
    case 2
    then obtain v where "vs = [v]" "parse_host_label l1 = Some v" using assms(1) by (auto simp: list_all2_Cons1)
    then show ?thesis using 2 be4 [of v] by (auto simp: composes_def be_bytes_eval address_of_def)
  next
    case 3
    then obtain a v where "vs = [a, v]" "parse_host_label l1 = Some a" "parse_host_label l2 = Some v"
      using assms(1) by (auto simp: list_all2_Cons1)
    then show ?thesis using 3 be3 [of v] by (auto simp: composes_def be_bytes_eval address_of_def)
  next
    case 4
    then obtain a b v where "vs = [a, b, v]" "parse_host_label l1 = Some a" "parse_host_label l2 = Some b"
        "parse_host_label l3 = Some v"
      using assms(1) by (auto simp: list_all2_Cons1)
    then show ?thesis using 4 be2 [of v] by (auto simp: composes_def be_bytes_eval address_of_def)
  next
    case 5
    then obtain a b c v where "vs = [a, b, c, v]" "parse_host_label l1 = Some a" "parse_host_label l2 = Some b"
        "parse_host_label l3 = Some c" "parse_host_label l4 = Some v"
      using assms(1) by (auto simp: list_all2_Cons1)
    then show ?thesis using 5 by (auto simp: composes_def be_bytes_eval address_of_def)
  qed
qed

text \<open>A host whose labels are all numeric has none of the denied suffixes.\<close>

lemma split_dots_nonempty: "split_dots s \<noteq> []"
  by (induction s) (auto split: list.split)

lemma split_dots_length: "length (split_dots s) = Suc (count_dots s)"
  by (induction s) (auto simp: count_dots_def split: list.split)

lemma last_split_dots: "CHR ''.'' \<notin> set y \<Longrightarrow> last (split_dots (x @ CHR ''.'' # y)) = y"
proof (induction x)
  case Nil
  have "split_dots y = [y]" using Nil by (induction y) auto
  then show ?case by simp
next
  case (Cons c x)
  have "length (split_dots (x @ CHR ''.'' # y)) \<ge> 2" by (simp add: split_dots_length count_dots_def)
  then obtain l l' ls where "split_dots (x @ CHR ''.'' # y) = l # l' # ls"
    by (auto simp: numeral_2_eq_2 Suc_le_length_iff)
  with Cons show ?case by simp
qed

lemma numeric_no_suffix:
  assumes "list_all2 (\<lambda>l v. parse_host_label l = Some v) (split_dots host) vs"
    and "parse_host_label y = None" and "CHR ''.'' \<notin> set y"
  shows "\<not> has_suffix host (CHR ''.'' # y)"
proof
  assume "has_suffix host (CHR ''.'' # y)"
  then obtain x where "host = x @ CHR ''.'' # y" by (auto simp: has_suffix_iff suffix_def)
  then have "last (split_dots host) = y" using last_split_dots assms(3) by simp
  then have "y \<in> set (split_dots host)" using split_dots_nonempty last_in_set by metis
  then show False using assms(1,2) by (auto simp: list_all2_conv_all_nth in_set_conv_nth)
qed

lemma name_labels: "parse_host_label ''localhost'' = None" "parse_host_label ''internal'' = None"
  "parse_host_label ''local'' = None" "split_dots ''localhost'' = [''localhost'']"
  by code_simp+

text \<open>
  Numeric spellings are judged by the address they reach. Take a host of dot-separated
  labels that are all numeric, each in decimal, \<open>0x\<close> hexadecimal or \<open>0\<close> octal. When the
  standard parser rejects it, the host is denied exactly if it has at most four labels whose
  values compose, as \<^verbatim>\<open>inet_aton\<close> composes them, an IPv4 address in the denied ranges: this
  network, private, loopback, link-local, carrier-grade NAT, multicast or broadcast. So no
  spelling of a denied address slips through, and none of a public one is denied.
\<close>

theorem numeric_spellings_judged_by_address:
  assumes "parse_ip host = None"
    and "list_all2 (\<lambda>l v. parse_host_label l = Some v) (split_dots host) vs"
  shows "deny_host parse_ip host \<longleftrightarrow>
    length vs \<le> 4 \<and> (case aton vs of None \<Rightarrow> False | Some n \<Rightarrow> denied_address n)"
proof -
  have "host \<noteq> []" using assms(2) by (auto simp: parse_host_label_def list_all2_Cons1)
  moreover have "host \<noteq> ''localhost''" using assms(2) name_labels by (auto simp: list_all2_Cons1)
  moreover have "\<not> has_suffix host ''.localhost''" "\<not> has_suffix host ''.internal''" "\<not> has_suffix host ''.local''"
    by (rule numeric_no_suffix [OF assms(2)]; simp add: name_labels)+
  ultimately have d: "deny_host parse_ip host =
      (case parse_numeric_ipv4 host of Some ip \<Rightarrow> deny_ip ip | None \<Rightarrow> False)"
    using assms(1) by (simp add: deny_host_def)
  have len: "length (split_dots host) = length vs" using assms(2) by (rule list_all2_lengthD)
  show ?thesis
  proof (cases "length vs \<le> 4")
    case True
    then have c: "composes (fill_parts 0 (split_dots host)) (aton vs)" using fill_parts_aton assms(2) len by simp
    have p: "parse_numeric_ipv4 host = (case fill_parts 0 (split_dots host) of None \<Rightarrow> None
        | Some ps \<Rightarrow> Some (ipv4 (ps ! 0) (ps ! 1) (ps ! 2) (ps ! 3)))"
      using True len by (simp add: parse_numeric_ipv4_def)
    show ?thesis
    proof (cases "aton vs")
      case None
      then show ?thesis using c d p True by (simp add: composes_def)
    next
      case (Some n)
      then obtain w x y z where "fill_parts 0 (split_dots host) = Some [w, x, y, z]" "w < 256" "x < 256" "y < 256"
        "z < 256" "address_of w x y z = n" using c by (auto simp: composes_def)
      then show ?thesis using Some True d p deny_ip_bytes by simp
    qed
  next
    case False
    then show ?thesis using len unfolding d parse_numeric_ipv4_def by simp
  qed
qed

theorem numeric_spellings_judged_by_address_witness:
  "deny_host (\<lambda>_. None) ''2130706433'' \<and> deny_host (\<lambda>_. None) ''0x7f.1'' \<and> deny_host (\<lambda>_. None) ''0251.0376.43518''
     \<and> \<not> deny_host (\<lambda>_. None) ''8.8.2056''"
proof -
  have "parse_host_label ''2130706433'' = Some 2130706433" "parse_host_label ''0x7f'' = Some 127"
    "parse_host_label ''1'' = Some 1" "parse_host_label ''0251'' = Some 169" "parse_host_label ''0376'' = Some 254"
    "parse_host_label ''43518'' = Some 43518" "parse_host_label ''8'' = Some 8" "parse_host_label ''2056'' = Some 2056"
    by (simp_all add: parse_host_label_def digit_value_def has_prefix_def)
  moreover have "split_dots ''2130706433'' = [''2130706433'']" "split_dots ''0x7f.1'' = [''0x7f'', ''1'']"
    "split_dots ''0251.0376.43518'' = [''0251'', ''0376'', ''43518'']" "split_dots ''8.8.2056'' = [''8'', ''8'', ''2056'']"
    by code_simp+
  ultimately show ?thesis
    using numeric_spellings_judged_by_address [of "\<lambda>_. None" "''2130706433''" "[2130706433]"]
      numeric_spellings_judged_by_address [of "\<lambda>_. None" "''0x7f.1''" "[127, 1]"]
      numeric_spellings_judged_by_address [of "\<lambda>_. None" "''0251.0376.43518''" "[169, 254, 43518]"]
      numeric_spellings_judged_by_address [of "\<lambda>_. None" "''8.8.2056''" "[8, 8, 2056]"]
    by (simp add: denied_address_def)
qed

end
