(* ===== verification/Text.thy ===== *)
theory Text
  imports Prelude
begin

text \<open>
  Strings as runes: white space, control characters and hexadecimal digests. What the standard
  library does on runes is written on their bytes (\<^verbatim>\<open>runes\<close> of the prelude splits a string
  the way \<^verbatim>\<open>range\<close> does).
\<close>

subsection \<open>Runes and bytes\<close>

lemma rune_width_le: "rune_width s \<le> length s"
proof -
  consider "s = []" | a where "s = [a]" | a b where "s = [a, b]" | a b c where "s = [a, b, c]"
    | a b c d t where "s = a # b # c # d # t"
    by (metis list.exhaust)
  then show ?thesis by cases (simp_all add: rune_width_def Let_def)
qed

lemma rune_multibyte:
  "1 < rune_width s \<Longrightarrow> c \<in> set (take (rune_width s) s) \<Longrightarrow> 128 \<le> byte c"
proof -
  assume w: "1 < rune_width s" and c: "c \<in> set (take (rune_width s) s)"
  obtain i where i: "i < rune_width s" "i < length s" "c = s ! i"
    using c by (auto simp: in_set_conv_nth)
  obtain a t where s: "s = a # t" using i(2) by (cases s) auto
  have "i = 0 \<or> i = 1 \<or> i = 2 \<or> i = 3"
    using i(1) s by (auto simp: rune_width_def Let_def split: if_splits)
  then show ?thesis using w i s
    by (elim disjE) (auto simp: rune_width_def in_range_def Let_def nth_Cons' split: if_splits)
qed

lemma runes_mem:
  assumes "r \<in> set (runes s)"
  shows "r \<noteq> []" and "length r \<noteq> 1 \<Longrightarrow> c \<in> set r \<Longrightarrow> 128 \<le> byte c"
proof -
  have "r \<noteq> [] \<and> (length r \<noteq> 1 \<longrightarrow> (\<forall>c \<in> set r. 128 \<le> byte c))"
    using assms
  proof (induction s rule: runes.induct)
    case (1 s)
    show ?case
    proof (cases "s = []")
      case False
      then have r: "runes s = take (rune_width s) s # runes (drop (rune_width s) s)"
        by (simp add: runes.simps [of s])
      have "0 < rune_width s" using False by (rule rune_width_pos)
      moreover have "length (take (rune_width s) s) = rune_width s"
        using rune_width_le [of s] by simp
      ultimately show ?thesis using 1 False r rune_multibyte [of s]
        by (cases "r = take (rune_width s) s") (auto simp: not_le)
    qed (use 1 in simp)
  qed
  then show "r \<noteq> []" and "length r \<noteq> 1 \<Longrightarrow> c \<in> set r \<Longrightarrow> 128 \<le> byte c" by auto
qed

lemma set_runes: "set s = (\<Union>r \<in> set (runes s). set r)"
  by (subst concat_runes [symmetric]) (simp only: set_concat image_image)

lemma runes_ascii: "list_all (\<lambda>c. byte c < 128) s \<Longrightarrow> runes s = map (\<lambda>c. [c]) s"
proof (induction s)
  case (Cons c s)
  then have "rune_width (c # s) = 1" by (auto simp: rune_width_def in_range_def Let_def)
  then show ?case using Cons by (simp add: runes.simps [of "c # s"])
qed simp

subsection \<open>White space\<close>

text \<open>\<^verbatim>\<open>unicode.IsSpace\<close> on a rune given by its bytes, and \<^verbatim>\<open>strings.TrimSpace\<close>.\<close>

definition is_space_rune :: "string \<Rightarrow> bool" where
  "is_space_rune r \<longleftrightarrow> map byte r \<in> set
     ([[9], [10], [11], [12], [13], [32], [194, 133], [194, 160], [225, 154, 128],
       [226, 128, 168], [226, 128, 169], [226, 128, 175], [226, 129, 159], [227, 128, 128]]
      @ map (\<lambda>i. [226, 128, i]) [128..<139])"

definition trim_space :: "string \<Rightarrow> string" where
  "trim_space s = concat (rev (dropWhile is_space_rune (rev (dropWhile is_space_rune (runes s)))))"

definition visible :: "char \<Rightarrow> bool" where
  "visible c \<longleftrightarrow> \<not> (byte c < 33 \<or> byte c > 126)"

lemma runes_visible: "list_all visible s \<Longrightarrow> runes s = map (\<lambda>c. [c]) s"
  by (rule runes_ascii) (auto simp: visible_def list_all_iff)

lemma visible_not_space: "visible c \<Longrightarrow> \<not> is_space_rune [c]"
  by (auto simp: is_space_rune_def visible_def)

lemma trim_visible: "list_all visible s \<Longrightarrow> trim_space s = s"
proof -
  assume v: "list_all visible s"
  then have n: "\<forall>r \<in> set (map (\<lambda>c. [c]) s). \<not> is_space_rune r" by (auto simp: list_all_iff visible_not_space)
  have keep: "dropWhile P xs = xs" if "\<forall>x \<in> set xs. \<not> P x" for P and xs :: "string list"
    using that by (cases xs) auto
  have "concat (map (\<lambda>c. [c]) s) = s" by (induction s) auto
  then show ?thesis using n by (simp add: trim_space_def runes_visible [OF v] keep)
qed

definition hex_of :: "string \<Rightarrow> string" where
  "hex_of s = concat (map (\<lambda>c. [''0123456789abcdef'' ! (byte c div 16), ''0123456789abcdef'' ! (byte c mod 16)]) s)"

lemma hex_of_length: "length (hex_of s) = 2 * length s"
  by (induction s) (simp_all add: hex_of_def)

subsection \<open>Dropping runes\<close>

text \<open>
  \<^verbatim>\<open>builder.WriteRune(r)\<close> for a rune of \<^verbatim>\<open>range text\<close>: an invalid byte was decoded to U+FFFD
  and is written as that rune.
\<close>

definition write_rune :: "string \<Rightarrow> string" where
  "write_rune r = (case r of [c] \<Rightarrow> if 128 \<le> byte c then map char_of [239 :: nat, 191, 189] else r | _ \<Rightarrow> r)"

text \<open>A byte test that says nothing of bytes above 127 sees every ASCII rune.\<close>

lemma ascii_test_runes:
  assumes "\<And>c. P c \<Longrightarrow> byte c < 128"
  shows "(\<exists>r \<in> set (runes s). case r of [c] \<Rightarrow> P c | _ \<Rightarrow> False) \<longleftrightarrow> (\<exists>c \<in> set s. P c)"
proof
  assume "\<exists>r \<in> set (runes s). case r of [c] \<Rightarrow> P c | _ \<Rightarrow> False"
  then obtain r c where "r \<in> set (runes s)" "r = [c]" "P c" by (elim bexE) (simp split: list.splits)
  then have "c \<in> set s" using set_runes [of s] by (metis UN_I list.set_intros(1))
  with \<open>P c\<close> show "\<exists>c \<in> set s. P c" by blast
next
  assume "\<exists>c \<in> set s. P c"
  then obtain c where c: "c \<in> set s" "P c" by blast
  then obtain r where r: "r \<in> set (runes s)" "c \<in> set r" using set_runes [of s] by auto
  have "length r = 1"
    using runes_mem(2) [OF r(1) _ r(2)] assms [OF c(2)] by fastforce
  then have "r = [c]" using r(2) by (cases r) auto
  with r c show "\<exists>r \<in> set (runes s). case r of [c] \<Rightarrow> P c | _ \<Rightarrow> False" by force
qed

end
