(* ===== verification/Idempotency.thy ===== *)
theory Idempotency
  imports Text
begin

text \<open>
  internal/proxy/idempotency.go: the idempotency key a dispatched body carries, bound to the
  body by a header of the inbound request. A header map is a Go map from canonical names to the
  first value; \<^verbatim>\<open>sha256\<close> is the argument \<open>sha\<close> and the random nonce of a synthesized key an
  argument of the call.
\<close>

definition idempotency_key_header :: string where "idempotency_key_header = ''Idempotency-Key''"
definition idempotency_binding_header :: string where "idempotency_binding_header = ''X-Nenya-Idempotency-Body''"
definition idempotency_key_prefix :: string where "idempotency_key_prefix = ''nenya-''"
definition max_idempotency_key_len :: nat where "max_idempotency_key_len = 255"

type_synonym headers = "(string, string) gomap"

subsection \<open>Keys\<close>

definition idempotency_body_digest :: "(string \<Rightarrow> string) \<Rightarrow> string \<Rightarrow> string" where
  "idempotency_body_digest sha body = hex_of (take 16 (sha body))"

definition sanitize_idempotency_key :: "string \<Rightarrow> string option" where
  "sanitize_idempotency_key raw =
     (let key = trim_space raw in
      if key = [] \<or> length key > max_idempotency_key_len then None
      else if list_all visible key then Some key else None)"

definition synthesize_idempotency_key :: "(string \<Rightarrow> string) \<Rightarrow> string \<Rightarrow> string \<Rightarrow> string" where
  "synthesize_idempotency_key sha nonce fingerprint =
     idempotency_key_prefix @ hex_of (take 16 (sha (fingerprint @ nonce)))"

definition reset_idempotency_binding :: "headers \<Rightarrow> headers" where
  "reset_idempotency_binding h = del idempotency_binding_header h"

definition bind_key :: "string \<Rightarrow> string \<Rightarrow> headers \<Rightarrow> headers" where
  "bind_key key digest h = put idempotency_binding_header digest (put idempotency_key_header key h)"

definition idempotency_key_for_body :: "(string \<Rightarrow> string) \<Rightarrow> string \<Rightarrow> string \<Rightarrow> headers \<Rightarrow> string \<times> headers" where
  "idempotency_key_for_body sha nonce body h =
     (let digest = idempotency_body_digest sha body;
          bound = get_or [] h idempotency_binding_header;
          own = sanitize_idempotency_key (get_or [] h idempotency_key_header);
          mint = (let key = synthesize_idempotency_key sha nonce digest in (key, bind_key key digest h));
          first = (if bound = [] then
                     (case own of Some key \<Rightarrow> (key, bind_key key digest h) | None \<Rightarrow> mint)
                   else mint)
      in if bound = digest then (case own of Some key \<Rightarrow> (key, h) | None \<Rightarrow> first) else first)"

text \<open>\<open>header\<close> is the provider's declared header, empty for none.\<close>

definition inject_idempotency_key ::
  "(string \<Rightarrow> string) \<Rightarrow> string \<Rightarrow> string \<Rightarrow> headers \<Rightarrow> headers \<Rightarrow> string \<Rightarrow> headers \<times> headers" where
  "inject_idempotency_key sha nonce header h dst body =
     (if header = [] then (h, dst)
      else let (key, h) = idempotency_key_for_body sha nonce body h in (h, put header key dst))"

subsection \<open>Wire-safe keys\<close>

lemma sanitize_sound: "sanitize_idempotency_key raw = Some k \<Longrightarrow> sanitize_idempotency_key k = Some k"
  by (auto simp: sanitize_idempotency_key_def Let_def trim_visible split: if_splits)

lemma hex_char_visible: "n < 16 \<Longrightarrow> visible (''0123456789abcdef'' ! n)"
proof -
  assume "n < 16"
  moreover have "\<forall>n \<in> {..<16}. visible (''0123456789abcdef'' ! n)" by code_simp
  ultimately show ?thesis by simp
qed

lemma hex_of_visible: "list_all visible (hex_of s)"
proof (induction s)
  case (Cons c s)
  have "byte c div 16 < 16" using nat_of_char_less_256 [of c] by (simp add: less_mult_imp_div_less)
  then show ?case using Cons by (simp add: hex_of_def hex_char_visible)
qed (simp add: hex_of_def)

lemma length_hex_of: "length (hex_of s) = 2 * length s"
  by (induction s) (auto simp: hex_of_def)

lemma synthesized_safe: "sanitize_idempotency_key (synthesize_idempotency_key sha nonce fp) = Some (synthesize_idempotency_key sha nonce fp)"
proof -
  let ?k = "synthesize_idempotency_key sha nonce fp"
  have "list_all visible idempotency_key_prefix" by code_simp
  then have v: "list_all visible ?k" by (simp add: synthesize_idempotency_key_def hex_of_visible)
  moreover have "?k \<noteq> []" "length ?k \<le> max_idempotency_key_len"
    by (simp_all add: synthesize_idempotency_key_def idempotency_key_prefix_def length_hex_of max_idempotency_key_len_def)
  ultimately show ?thesis by (simp add: sanitize_idempotency_key_def trim_visible)
qed

lemma header_names: "idempotency_key_header \<noteq> idempotency_binding_header"
  by (simp add: idempotency_key_header_def idempotency_binding_header_def)

text \<open>After a dispatch the key is the header's and the body is the bound one.\<close>

lemma key_is_bound:
  assumes "\<And>x. length (sha x) = 32" and "idempotency_key_for_body sha nonce body h = (k, h')"
  shows "sanitize_idempotency_key k = Some k
    \<and> sanitize_idempotency_key (get_or [] h' idempotency_key_header) = Some k
    \<and> get_or [] h' idempotency_binding_header = idempotency_body_digest sha body
    \<and> idempotency_body_digest sha body \<noteq> []"
proof -
  have ne: "idempotency_body_digest sha body \<noteq> []"
  proof -
    have "length (idempotency_body_digest sha body) = 32"
      using assms(1) by (simp add: idempotency_body_digest_def length_hex_of)
    then show ?thesis by auto
  qed
  show ?thesis
    using assms(2) ne header_names synthesized_safe [of sha nonce "idempotency_body_digest sha body"] sanitize_sound
    by (auto simp: idempotency_key_for_body_def Let_def bind_key_def split: option.splits if_splits)
qed

text \<open>
  One key per body. Whatever the headers held, the key given to a dispatched body is safe on
  the wire (visible ASCII, at most 255 bytes); re-sending a body with the same digest right after
  it carries the very same key and leaves the headers as they are, whatever nonce is drawn; and a
  body with another digest never reuses it but gets the key synthesized from its own digest and
  the fresh nonce.
\<close>

theorem one_key_per_body:
  assumes "\<And>x. length (sha x) = 32"
    and "idempotency_key_for_body sha nonce body h = (k, h')"
  shows "1 \<le> length k \<and> length k \<le> 255 \<and> list_all visible k
    \<and> idempotency_key_for_body sha nonce' body' h' =
      (if idempotency_body_digest sha body' = idempotency_body_digest sha body then (k, h')
       else (let k' = synthesize_idempotency_key sha nonce' (idempotency_body_digest sha body')
             in (k', bind_key k' (idempotency_body_digest sha body') h')))"
proof -
  note b = key_is_bound [OF assms]
  have "list_all visible k" "k \<noteq> []" "length k \<le> 255"
    using b by (auto simp: sanitize_idempotency_key_def Let_def trim_visible max_idempotency_key_len_def split: if_splits)
  then show ?thesis
    using b by (auto simp: idempotency_key_for_body_def Let_def Suc_le_eq)
qed

definition const_sha :: "string \<Rightarrow> string" where
  "const_sha x = take 32 (x @ replicate 32 CHR ''a'')"

theorem one_key_per_body_witness:
  "fst (idempotency_key_for_body const_sha ''n2'' ''body''
     (snd (idempotency_key_for_body const_sha ''n1'' ''body'' [(idempotency_key_header, '' my-key '')]))) = ''my-key''"
proof -
  have len: "\<And>x. length (const_sha x) = 32" by (simp add: const_sha_def)
  have k: "fst (idempotency_key_for_body const_sha ''n1'' ''body'' [(idempotency_key_header, '' my-key '')]) = ''my-key''"
    by code_simp
  show ?thesis
    using one_key_per_body [where sha = const_sha and nonce = "''n1''" and body = "''body''" and h = "[(idempotency_key_header, '' my-key '')]"
        and nonce' = "''n2''" and body' = "''body''", OF len prod.collapse [symmetric]]
    by (simp add: k)
qed

end
