(* ===== verification/UtilRetry.thy ===== *)
theory UtilRetry
  imports Prelude
begin

text \<open>
  internal/util/retry.go and the arithmetic of internal/util/math.go: exponential backoff, the
  retry loop, capacity sums and token budgets.

  \<^verbatim>\<open>rand.Int63n\<close>'s draw is the argument \<open>jitter\<close>. The callback of the retry loop is the function
  from the attempt number to what that call returned, \<open>cancelled\<close> tells whether the context was
  done during the wait after an attempt. \<^verbatim>\<open>int\<close> has 64 bits.
\<close>

subsection \<open>Backoff\<close>

definition default_max_retry_attempts :: int where "default_max_retry_attempts = 3"
definition exponential_backoff_max :: duration where "exponential_backoff_max = 8 * second"
definition exponential_backoff_base :: duration where "exponential_backoff_base = 500 * millisecond"
definition exponential_backoff_jitter :: duration where "exponential_backoff_jitter = 750 * millisecond"

fun backoff_loop :: "nat \<Rightarrow> duration \<Rightarrow> duration" where
  "backoff_loop 0 delay = delay"
| "backoff_loop (Suc n) delay =
     (let delay = delay * 2
      in if delay \<ge> exponential_backoff_max then exponential_backoff_max else backoff_loop n delay)"

definition calculate_backoff :: "duration \<Rightarrow> int \<Rightarrow> duration" where
  "calculate_backoff jitter attempt = backoff_loop (nat attempt) exponential_backoff_base + jitter"

lemma backoff_loop_eq: "delay \<le> exponential_backoff_max \<Longrightarrow> 0 \<le> delay \<Longrightarrow>
    backoff_loop n delay = min exponential_backoff_max (delay * 2 ^ n)"
proof (induction n arbitrary: delay)
  case (Suc n)
  show ?case
  proof (cases "delay * 2 \<ge> exponential_backoff_max")
    case True
    have "delay * 2 * 1 \<le> delay * 2 * 2 ^ n" by (rule mult_left_mono) (use Suc.prems in simp_all)
    then show ?thesis using True by (simp add: min_def mult.assoc)
  next
    case False
    then show ?thesis using Suc.IH [of "delay * 2"] Suc.prems by (simp add: mult.assoc)
  qed
qed simp

text \<open>
  The wait before retry \<open>a\<close> is the base doubled \<open>a\<close> times, cut off at eight seconds, plus
  the jitter. The cut-off applies before the jitter: from the fourth retry on, the wait
  always reaches the documented cap and the jitter exceeds it.
\<close>

theorem backoff_exceeds_cap_by_jitter:
  assumes "0 \<le> jitter" and "jitter < exponential_backoff_jitter"
  shows "calculate_backoff jitter (int a) = min (8 * second) (500 * millisecond * 2 ^ a) + jitter
    \<and> (4 \<le> a \<longrightarrow> calculate_backoff jitter (int a) = 8 * second + jitter)"
proof -
  have b: "calculate_backoff jitter (int a) = min (8 * second) (500 * millisecond * 2 ^ a) + jitter"
    by (simp add: calculate_backoff_def backoff_loop_eq exponential_backoff_base_def exponential_backoff_max_def unit_defs)
  have "(8::int) * second \<le> 500 * millisecond * 2 ^ a" if "4 \<le> a"
  proof -
    have "(2::int) ^ 4 \<le> 2 ^ a" using that by (rule power_increasing) simp
    then show ?thesis by (simp add: unit_defs)
  qed
  then show ?thesis using b by auto
qed

theorem backoff_exceeds_cap_by_jitter_witness:
  "calculate_backoff (749 * millisecond) (int 4) > 8 * second"
proof -
  have j: "0 \<le> 749 * millisecond" "749 * millisecond < exponential_backoff_jitter"
    by (simp_all add: unit_defs exponential_backoff_jitter_def)
  from backoff_exceeds_cap_by_jitter [OF j, of 4]
  have "calculate_backoff (749 * millisecond) (int 4) = 8 * second + 749 * millisecond" by simp
  then show ?thesis by (simp add: unit_defs)
qed

subsection \<open>The retry loop\<close>

datatype ('r, 'e) attempt = Succeeded 'r | Permanent 'e | Transient 'e
datatype ('r, 'e) retry_result = Done 'r | Failed 'e | Cancelled

text \<open>
  The loop from one attempt on: the result, the number of calls and the waits. \<open>n\<close> is the number
  of attempts left after this one.
\<close>

fun retry_loop :: "(nat \<Rightarrow> ('r, 'e) attempt) \<Rightarrow> (nat \<Rightarrow> bool) \<Rightarrow> (nat \<Rightarrow> duration) \<Rightarrow> nat \<Rightarrow> nat
    \<Rightarrow> ('r, 'e) retry_result \<times> nat \<times> duration list" where
  "retry_loop fn cancelled jitter attempt n =
     (case fn attempt of
        Succeeded r \<Rightarrow> (Done r, 1, [])
      | Permanent e \<Rightarrow> (Failed e, 1, [])
      | Transient e \<Rightarrow>
          (case n of
             0 \<Rightarrow> (Failed e, 1, [])
           | Suc n \<Rightarrow>
              (let w = calculate_backoff (jitter attempt) (int attempt) in
               if cancelled attempt then (Cancelled, 1, [w])
               else let (r, calls, ws) = retry_loop fn cancelled jitter (Suc attempt) n in (r, Suc calls, w # ws))))"

definition do_with_retry :: "(nat \<Rightarrow> ('r, 'e) attempt) \<Rightarrow> (nat \<Rightarrow> bool) \<Rightarrow> (nat \<Rightarrow> duration) \<Rightarrow> int
    \<Rightarrow> ('r, 'e) retry_result \<times> nat \<times> duration list" where
  "do_with_retry fn cancelled jitter max_attempts =
     (if max_attempts \<le> 1 then
        ((case fn 0 of Succeeded r \<Rightarrow> Done r | Permanent e \<Rightarrow> Failed e | Transient e \<Rightarrow> Failed e), 1, [])
      else retry_loop fn cancelled jitter 0 (nat max_attempts - 1))"

declare retry_loop.simps [simp del]

text \<open>Where the loop stops and what it answers there.\<close>

definition stops_at :: "(nat \<Rightarrow> ('r, 'e) attempt) \<Rightarrow> (nat \<Rightarrow> bool) \<Rightarrow> nat \<Rightarrow> nat \<Rightarrow> ('r, 'e) retry_result \<Rightarrow> bool" where
  "stops_at fn cancelled final k r \<longleftrightarrow> (case fn k of
     Succeeded x \<Rightarrow> r = Done x | Permanent e \<Rightarrow> r = Failed e
   | Transient e \<Rightarrow> (if k = final then r = Failed e else r = Cancelled \<and> cancelled k))"

lemma retry_loop_stops:
  assumes "retry_loop fn cancelled jitter a n = (r, calls, ws)"
  shows "1 \<le> calls \<and> calls \<le> Suc n
    \<and> (\<forall>i < calls - 1. (\<exists>e. fn (a + i) = Transient e) \<and> \<not> cancelled (a + i))
    \<and> stops_at fn cancelled (a + n) (a + calls - 1) r
    \<and> ws = map (\<lambda>i. calculate_backoff (jitter i) (int i)) [a..<a + (if r = Cancelled then calls else calls - 1)]"
  using assms
proof (induction n arbitrary: a r calls ws)
  case 0
  then show ?case
    by (auto simp: retry_loop.simps [of fn cancelled jitter a] stops_at_def split: attempt.splits)
next
  case (Suc n)
  show ?case
  proof (cases "\<exists>e. fn a = Transient e \<and> \<not> cancelled a")
    case False
    then show ?thesis
      using Suc.prems by (auto simp: retry_loop.simps [of fn cancelled jitter a] stops_at_def Let_def split: attempt.splits if_splits)
  next
    case True
    then obtain e where e: "fn a = Transient e" "\<not> cancelled a" by blast
    obtain calls' ws' where rec: "retry_loop fn cancelled jitter (Suc a) n = (r, calls', ws')"
      and c: "calls = Suc calls'" "ws = calculate_backoff (jitter a) (int a) # ws'"
      using Suc.prems e by (auto simp: retry_loop.simps [of fn cancelled jitter a "Suc n"] Let_def split: prod.splits)
    note IH = Suc.IH [OF rec]
    have "(\<exists>e. fn (a + i) = Transient e) \<and> \<not> cancelled (a + i)" if "i < calls - 1" for i
      using IH that e c(1) by (cases i) auto
    moreover have "[a..<a + (if r = Cancelled then calls else calls - 1)]
        = a # [Suc a..<Suc a + (if r = Cancelled then calls' else calls' - 1)]"
    proof -
      have "(if r = Cancelled then calls else calls - 1) = Suc (if r = Cancelled then calls' else calls' - 1)"
        using IH c(1) by auto
      then show ?thesis by (simp only:) (simp add: upt_conv_Cons del: upt_Suc)
    qed
    ultimately show ?thesis using IH c by auto
  qed
qed

text \<open>
  The retry loop. With at most \<open>n > 1\<close> attempts, the callback is called at least once and at
  most \<open>n\<close> times; every call but the last failed transiently and its wait was not cut short; the
  answer is the last call's success or permanent error, its transient error only when it was the
  \<open>n\<close>-th, and the context's error only when the context was done during the wait after it. The
  waits are exactly the backoffs of the failed calls. With \<open>n \<le> 1\<close> there is one call and no
  wait.
\<close>

theorem retry_loop_contract:
  assumes "do_with_retry fn cancelled jitter n = (r, calls, ws)"
  shows "1 \<le> calls \<and> int calls \<le> max 1 n
    \<and> (\<forall>i < calls - 1. (\<exists>e. fn i = Transient e) \<and> \<not> cancelled i)
    \<and> stops_at fn cancelled (nat n - 1) (calls - 1) r
    \<and> ws = map (\<lambda>i. calculate_backoff (jitter i) (int i)) [0..<if r = Cancelled then calls else calls - 1]"
proof (cases "n \<le> 1")
  case True
  then show ?thesis
    using assms by (auto simp: do_with_retry_def stops_at_def split: attempt.splits)
next
  case False
  then show ?thesis
    using assms retry_loop_stops [of fn cancelled jitter 0 "nat n - 1" r calls ws] by (auto simp: do_with_retry_def)
qed

theorem retry_loop_contract_witness:
  "stops_at (\<lambda>i. if i < 2 then Transient () else Succeeded ()) (\<lambda>_. False) 2 2 (Done ())"
proof -
  let ?fn = "\<lambda>i. if i < (2::nat) then Transient () else Succeeded ()"
  have "do_with_retry ?fn (\<lambda>_. False) (\<lambda>_. 0) 3 = (Done (), 3, [500 * millisecond, 1000 * millisecond])"
    by (simp add: do_with_retry_def retry_loop.simps calculate_backoff_def exponential_backoff_base_def
        exponential_backoff_max_def unit_defs eval_nat_numeral)
  from retry_loop_contract [OF this] show ?thesis by (simp add: eval_nat_numeral)
qed

subsection \<open>Sums and budgets\<close>

definition max_int :: int where "max_int = 2 ^ 63 - 1"

text \<open>Two's complement wrap-around of a 64-bit \<^verbatim>\<open>int\<close>.\<close>

definition wrap_int :: "int \<Rightarrow> int" where
  "wrap_int x = (x + 2 ^ 63) mod 2 ^ 64 - 2 ^ 63"

definition add_cap :: "int \<Rightarrow> int \<Rightarrow> int" where
  "add_cap a b =
     (if b < 0 \<or> a < 0 then wrap_int (a + b)
      else if b > 0 \<and> a > max_int - b then max_int
      else wrap_int (a + b))"

definition derive_input_token_budget :: "int \<Rightarrow> int \<Rightarrow> int" where
  "derive_input_token_budget max_context max_output =
     (if max_context \<le> 0 then 0
      else
        let budget = max_context div 4 * 3
        in if max_output > 0 \<and> max_output < max_context
           then (let reserved = max_context - max_output in if reserved < budget then reserved else budget)
           else budget)"

text \<open>A field of the payload: a \<^verbatim>\<open>float64\<close> (or NaN), an \<^verbatim>\<open>int\<close>, an \<^verbatim>\<open>int64\<close>, or anything else.\<close>

datatype cap_value = CapFloat rat | CapNaN | CapInf bool | CapInt int | CapInt64 int | CapOther

fun usable_cap :: "cap_value option \<Rightarrow> bool" where
  "usable_cap (Some (CapFloat v)) = (v \<ge> 0)"
| "usable_cap (Some (CapInf positive)) = positive"
| "usable_cap (Some (CapInt v)) = (v \<ge> 0)"
| "usable_cap (Some (CapInt64 v)) = (v \<ge> 0)"
| "usable_cap _ = False"

text \<open>The requested cap as an \<^verbatim>\<open>int\<close>; \<open>None\<close> where the code returns the declared cap.\<close>

fun requested_cap :: "cap_value option \<Rightarrow> int option" where
  "requested_cap (Some (CapFloat v)) = (if v < 0 \<or> v \<ge> of_int (2 ^ 63) then None else Some \<lfloor>v\<rfloor>)"
| "requested_cap (Some (CapInt v)) = Some v"
| "requested_cap (Some (CapInt64 v)) = (if v > max_int then None else Some v)"
| "requested_cap _ = None"

definition effective_output_tokens :: "(string \<Rightarrow> cap_value option) \<Rightarrow> int \<Rightarrow> int" where
  "effective_output_tokens payload declared =
     (let raw = payload ''max_tokens'';
          raw = (if \<not> usable_cap raw then payload ''max_completion_tokens'' else raw)
      in if \<not> usable_cap raw then declared
         else case requested_cap raw of
           None \<Rightarrow> declared
         | Some requested \<Rightarrow>
            (if requested < 0 then declared
             else if declared > 0 \<and> declared < requested then declared else requested))"

text \<open>
  The prompt and the reply fit the window. For any payload and declared output cap, the
  output reservation is never negative nor above the declared cap when there is one, and
  whenever it leaves the window any room the derived input budget plus the reservation stay
  within the context window; the budget is never negative and at most three quarters of it.
\<close>

theorem prompt_and_reply_fit_window:
  assumes "0 \<le> declared" and "0 \<le> ctx"
  shows "let out = effective_output_tokens payload declared;
             budget = derive_input_token_budget ctx out
         in 0 \<le> out \<and> (0 < declared \<longrightarrow> out \<le> declared) \<and> 0 \<le> budget \<and> 4 * budget \<le> 3 * ctx
            \<and> (out < ctx \<longrightarrow> budget + out \<le> ctx)"
proof -
  let ?out = "effective_output_tokens payload declared"
  have out: "0 \<le> ?out \<and> (0 < declared \<longrightarrow> ?out \<le> declared)"
    using assms(1) by (auto simp: effective_output_tokens_def Let_def split: option.split)
  have "4 * (ctx div 4 * 3) \<le> 3 * ctx" by linarith
  then show ?thesis using out assms(2) by (auto simp: derive_input_token_budget_def Let_def)
qed

theorem prompt_and_reply_fit_window_witness:
  "derive_input_token_budget 8192 (effective_output_tokens (\<lambda>k. if k = ''max_tokens'' then Some (CapInt 4096) else None) 8000) + 4096 \<le> 8192"
proof -
  let ?p = "\<lambda>k. if k = ''max_tokens'' then Some (CapInt 4096) else None"
  have "effective_output_tokens ?p 8000 = 4096" by (simp add: effective_output_tokens_def)
  then show ?thesis using prompt_and_reply_fit_window [of 8000 8192 ?p] by (simp add: Let_def)
qed

end
