(* ===== verification/Pricing.thy ===== *)
theory Pricing
  imports Prelude
begin

text \<open>
  Rate cards: the pricing types and peak windows of config/entry.go and config/types.go, and the
  cost computation of internal/discovery/pricing.go.

  A rate is a \<^verbatim>\<open>float64\<close>, here an exact rational; a token count is an \<^verbatim>\<open>int64\<close> and every sum of
  the code stays below the count it splits. The calendar functions of \<^verbatim>\<open>time.Time\<close> in UTC are
  arithmetic on the nanoseconds since the epoch, a Thursday.
\<close>

subsection \<open>Rate cards\<close>

record pricing_override =
  input_cost :: rat
  output_cost :: rat
  peak_input_cost :: rat
  peak_output_cost :: rat
  cached_input_cost :: rat
  cache_write_cost :: rat

record pricing_entry = pricing_override +
  currency :: string

definition pricing_is_zero :: "('a) pricing_override_scheme \<Rightarrow> bool" where
  "pricing_is_zero p \<longleftrightarrow> input_cost p = 0 \<and> output_cost p = 0 \<and> peak_input_cost p = 0
     \<and> peak_output_cost p = 0 \<and> cached_input_cost p = 0 \<and> cache_write_cost p = 0"

definition has_peak :: "('a) pricing_override_scheme \<Rightarrow> bool" where
  "has_peak p \<longleftrightarrow> peak_input_cost p \<noteq> 0 \<or> peak_output_cost p \<noteq> 0"

definition has_standard_rate :: "('a) pricing_override_scheme \<Rightarrow> bool" where
  "has_standard_rate p \<longleftrightarrow> input_cost p \<noteq> 0 \<or> output_cost p \<noteq> 0"

text \<open>The checks of \<^verbatim>\<open>Validate\<close>: the first negative rate is the error; the cache-write rate is not checked.\<close>

datatype pricing_error = NegativeInput | NegativeOutput | NegativePeakInput | NegativePeakOutput | NegativeCached

definition validate_pricing :: "('a) pricing_override_scheme \<Rightarrow> pricing_error option" where
  "validate_pricing p =
     (if input_cost p < 0 then Some NegativeInput
      else if output_cost p < 0 then Some NegativeOutput
      else if peak_input_cost p < 0 then Some NegativePeakInput
      else if peak_output_cost p < 0 then Some NegativePeakOutput
      else if cached_input_cost p < 0 then Some NegativeCached
      else None)"

subsection \<open>The cost of a request\<close>

record pricing_usage =
  use_input :: int
  use_cached_input :: int
  use_cache_write :: int
  use_output :: int
  use_peak :: bool

record pricing_rates =
  rate_input :: rat
  rate_output :: rat
  rate_cached :: rat
  rate_write :: rat

definition resolve_rates :: "pricing_entry \<Rightarrow> bool \<Rightarrow> pricing_rates" where
  "resolve_rates p peak =
     (let in_rate = input_cost p; out_rate = output_cost p;
          (in_rate, out_rate) =
            (if peak \<and> has_peak p then
               (if peak_input_cost p > 0 then peak_input_cost p else in_rate,
                if peak_output_cost p > 0 then peak_output_cost p else out_rate)
             else (in_rate, out_rate));
          cached = (if cached_input_cost p = 0 then in_rate else cached_input_cost p);
          write = (if cache_write_cost p = 0 then in_rate else cache_write_cost p)
      in \<lparr>rate_input = (if \<not> in_rate > 0 then 0 else in_rate),
          rate_output = (if \<not> out_rate > 0 then 0 else out_rate),
          rate_cached = (if \<not> cached > 0 then 0 else cached),
          rate_write = (if \<not> write > 0 then 0 else write)\<rparr>)"

record pricing_tokens =
  tok_cached :: int
  tok_written :: int
  tok_uncached :: int
  tok_output :: int

definition max64 :: "int \<Rightarrow> int \<Rightarrow> int" where "max64 a b = (if a > b then a else b)"
definition min64 :: "int \<Rightarrow> int \<Rightarrow> int" where "min64 a b = (if a < b then a else b)"

definition normalize_pricing_tokens :: "pricing_usage \<Rightarrow> pricing_tokens" where
  "normalize_pricing_tokens u =
     (let input = max64 (use_input u) 0;
          cached = max64 (min64 (use_cached_input u) input) 0;
          written = max64 (min64 (use_cache_write u) (input - cached)) 0
      in \<lparr>tok_cached = cached, tok_written = written, tok_uncached = input - cached - written,
          tok_output = max64 (use_output u) 0\<rparr>)"

definition calculate_cost :: "pricing_entry \<Rightarrow> pricing_usage \<Rightarrow> rat" where
  "calculate_cost p u =
     (let rates = resolve_rates p (use_peak u); tokens = normalize_pricing_tokens u
      in (of_int (tok_cached tokens) * rate_cached rates + of_int (tok_written tokens) * rate_write rates
          + of_int (tok_uncached tokens) * rate_input rates + of_int (tok_output tokens) * rate_output rates)
         / 1000000)"

definition merge_pricing ::
  "(string, pricing_entry) gomap \<Rightarrow> (string, pricing_entry) gomap \<Rightarrow> (string, pricing_entry) gomap" where
  "merge_pricing discovered static =
     fold (\<lambda>(k, v) m. (case map_of m k of
          None \<Rightarrow> put k v m
        | Some existing \<Rightarrow> if pricing_is_zero existing then put k v m else m))
       static (fold (\<lambda>(k, v). put k v) discovered [])"

text \<open>The split of the tokens: three disjoint shares of the input, none of them negative.\<close>

lemma tokens_split:
  "let t = normalize_pricing_tokens u
   in 0 \<le> tok_cached t \<and> 0 \<le> tok_written t \<and> 0 \<le> tok_uncached t \<and> 0 \<le> tok_output t
      \<and> tok_cached t + tok_written t + tok_uncached t = max 0 (use_input u)
      \<and> tok_output t = max 0 (use_output u)"
  by (auto simp: normalize_pricing_tokens_def max64_def min64_def Let_def)

lemma rates_nonneg:
  "0 \<le> rate_input (resolve_rates p k) \<and> 0 \<le> rate_output (resolve_rates p k)
   \<and> 0 \<le> rate_cached (resolve_rates p k) \<and> 0 \<le> rate_write (resolve_rates p k)"
  by (simp add: resolve_rates_def Let_def split_beta)

text \<open>
  The bill of a request, whatever counts a client or an upstream reports and whatever rates
  a feed carries. It is never negative; it is at most every input token at the dearest input
  rate plus the output tokens at the output rate, so tokens reported both as cache reads and as
  cache writes are never billed twice; and reporting more output never lowers it.
\<close>

theorem cost_is_bounded_and_monotone:
  "0 \<le> calculate_cost p u
   \<and> calculate_cost p u \<le> (of_int (max 0 (use_input u))
        * Max {rate_cached (resolve_rates p (use_peak u)), rate_write (resolve_rates p (use_peak u)),
               rate_input (resolve_rates p (use_peak u))}
        + of_int (max 0 (use_output u)) * rate_output (resolve_rates p (use_peak u))) / 1000000
   \<and> calculate_cost p u \<le> calculate_cost p (u\<lparr>use_output := use_output u + int more_out\<rparr>)"
proof -
  define r where "r = resolve_rates p (use_peak u)"
  define t where "t = normalize_pricing_tokens u"
  define M where "M = Max {rate_cached r, rate_write r, rate_input r}"
  note nn = rates_nonneg [of p "use_peak u", folded r_def]
  note sp = tokens_split [of u, folded t_def, unfolded Let_def]
  have le: "rate_cached r \<le> M" "rate_write r \<le> M" "rate_input r \<le> M"
    by (simp_all add: M_def)
  have "of_int (tok_cached t) * rate_cached r \<le> of_int (tok_cached t) * M"
    "of_int (tok_written t) * rate_write r \<le> of_int (tok_written t) * M"
    "of_int (tok_uncached t) * rate_input r \<le> of_int (tok_uncached t) * M"
    using le sp by (simp_all add: mult_left_mono)
  then have "of_int (tok_cached t) * rate_cached r + of_int (tok_written t) * rate_write r
      + of_int (tok_uncached t) * rate_input r
      \<le> of_int (tok_cached t + tok_written t + tok_uncached t) * M"
    by (simp add: algebra_simps)
  then have bound: "of_int (tok_cached t) * rate_cached r + of_int (tok_written t) * rate_write r
      + of_int (tok_uncached t) * rate_input r \<le> of_int (max 0 (use_input u)) * M"
    using sp by metis
  have cost: "calculate_cost p u = (of_int (tok_cached t) * rate_cached r + of_int (tok_written t) * rate_write r
      + of_int (tok_uncached t) * rate_input r + of_int (tok_output t) * rate_output r) / 1000000"
    by (simp add: calculate_cost_def r_def t_def Let_def)
  have more: "calculate_cost p (u\<lparr>use_output := use_output u + int more_out\<rparr>)
      = (of_int (tok_cached t) * rate_cached r + of_int (tok_written t) * rate_write r
      + of_int (tok_uncached t) * rate_input r + of_int (max 0 (use_output u + int more_out)) * rate_output r) / 1000000"
    by (simp add: calculate_cost_def r_def t_def normalize_pricing_tokens_def max64_def max_def Let_def)
  have "of_int (max 0 (use_output u)) * rate_output r \<le> of_int (max 0 (use_output u + int more_out)) * rate_output r"
    using nn by (intro mult_right_mono) simp_all
  note out = this
  have pos: "0 \<le> of_int (tok_cached t) * rate_cached r + of_int (tok_written t) * rate_write r
      + of_int (tok_uncached t) * rate_input r" "0 \<le> of_int (tok_output t) * rate_output r"
    using nn sp by simp_all
  have tok: "tok_output t = max 0 (use_output u)" using sp by blast
  have "0 \<le> calculate_cost p u" using cost pos by simp
  moreover have "calculate_cost p u \<le> (of_int (max 0 (use_input u)) * M
      + of_int (max 0 (use_output u)) * rate_output r) / 1000000"
    unfolding cost tok by (rule divide_right_mono) (use bound in simp_all)
  moreover have "calculate_cost p u \<le> calculate_cost p (u\<lparr>use_output := use_output u + int more_out\<rparr>)"
    unfolding cost more tok by (rule divide_right_mono) (use out in simp_all)
  ultimately show ?thesis unfolding M_def r_def by blast
qed

subsection \<open>Peak windows\<close>

record peak_window =
  pw_start :: string
  pw_end :: string
  weekdays_only :: bool

definition is_digit :: "char \<Rightarrow> bool" where
  "is_digit c \<longleftrightarrow> 48 \<le> byte c \<and> byte c \<le> 57"

fun parse_clock_digits :: "string \<Rightarrow> int \<Rightarrow> int option" where
  "parse_clock_digits [] n = Some n"
| "parse_clock_digits (c # s) n = (if \<not> is_digit c then None else parse_clock_digits s (n * 10 + int (byte c - 48)))"

definition parse_clock_component :: "string \<Rightarrow> int option" where
  "parse_clock_component s = (if length s = 0 \<or> length s > 2 then None else parse_clock_digits s 0)"

definition parse_clock_minutes :: "string \<Rightarrow> int option" where
  "parse_clock_minutes s = (case split_on CHR '':'' s of
     [a, b] \<Rightarrow> (case (parse_clock_component a, parse_clock_component b) of
        (Some h, Some m) \<Rightarrow> if h > 23 \<or> m > 59 then None else Some (h * 60 + m)
      | _ \<Rightarrow> None)
   | _ \<Rightarrow> None)"

text \<open>\<^verbatim>\<open>Hour()*60 + Minute()\<close> and \<^verbatim>\<open>Weekday()\<close> of an instant in UTC; Sunday is 0.\<close>

definition day :: duration where "day = 1440 * minute"

definition utc_minutes :: "time \<Rightarrow> int" where
  "utc_minutes t = (t div minute) mod 1440"

definition utc_weekday :: "time \<Rightarrow> int" where
  "utc_weekday t = (t div day + 4) mod 7"

definition window_contains :: "peak_window option \<Rightarrow> time \<Rightarrow> bool" where
  "window_contains w t = (case w of None \<Rightarrow> False | Some w \<Rightarrow>
     (case (parse_clock_minutes (pw_start w), parse_clock_minutes (pw_end w)) of
        (Some start, Some end_) \<Rightarrow>
          (if start = end_ then False
           else
             let minutes = utc_minutes t;
                 in_interval = (if start < end_ then minutes \<ge> start \<and> minutes < end_
                                else minutes \<ge> start \<or> minutes < end_)
             in if \<not> in_interval then False
                else if weekdays_only w then
                  let d = (if start > end_ \<and> minutes < end_ then t - day else t)
                  in \<not> (utc_weekday d = 6 \<or> utc_weekday d = 0)
                else True)
      | _ \<Rightarrow> False))"

datatype window_error = BadStart | BadEnd | EmptyWindow

definition validate_window :: "peak_window option \<Rightarrow> window_error option" where
  "validate_window w = (case w of None \<Rightarrow> None | Some w \<Rightarrow>
     (if parse_clock_minutes (pw_start w) = None then Some BadStart
      else if parse_clock_minutes (pw_end w) = None then Some BadEnd
      else if pw_start w = pw_end w then Some EmptyWindow
      else None))"

text \<open>\<^verbatim>\<open>IsPeakAt\<close> of a provider or its configuration, given its windows; a nil provider is never peak.\<close>

definition peak_windows_contain :: "peak_window list \<Rightarrow> time \<Rightarrow> bool" where
  "peak_windows_contain ws t = list_ex (\<lambda>w. window_contains (Some w) t) ws"

definition is_peak_at :: "peak_window list option \<Rightarrow> time \<Rightarrow> bool" where
  "is_peak_at ws t = (case ws of None \<Rightarrow> False | Some ws \<Rightarrow> peak_windows_contain ws t)"

lemma parse_clock_minutes_range:
  assumes "parse_clock_minutes s = Some v"
  shows "0 \<le> v \<and> v < 1440"
proof -
  have nonneg: "0 \<le> n \<Longrightarrow> parse_clock_digits s n = Some v \<Longrightarrow> 0 \<le> v" for s n v
    by (induction s n arbitrary: v rule: parse_clock_digits.induct) (auto split: if_splits)
  have comp: "parse_clock_component s = Some v \<Longrightarrow> 0 \<le> v" for s v
    using nonneg [of 0 s v] by (simp add: parse_clock_component_def split: if_splits)
  from assms obtain h m where "0 \<le> h" "h \<le> 23" "0 \<le> m" "m \<le> 59" "v = h * 60 + m"
    by (auto simp: parse_clock_minutes_def split: list.splits option.splits if_splits dest!: comp)
  then show ?thesis by simp
qed

lemma day_of_minutes: "t div day = (t div minute) div 1440"
  by (simp add: day_def zdiv_zmult2_eq [symmetric] unit_defs)

lemma weekday_of_day: "utc_weekday t = ((t div minute) div 1440 + 4) mod 7"
  by (simp add: utc_weekday_def day_of_minutes)

lemma weekday_day_before: "utc_weekday (t - day) = ((t div minute) div 1440 - 1 + 4) mod 7"
proof -
  have "(t - day) div day = t div day - 1"
    by (simp add: day_def unit_defs)
  then show ?thesis by (simp add: utc_weekday_def day_of_minutes)
qed

text \<open>The day on which a daily interval holding a given minute starts.\<close>

lemma daily_interval_plain:
  fixes s e q r :: int
  assumes "0 \<le> s" "s < e" "e < 1440" "0 \<le> r" "r < 1440"
  shows "d * 1440 + s \<le> q * 1440 + r \<and> q * 1440 + r < d * 1440 + e \<longleftrightarrow> d = q \<and> s \<le> r \<and> r < e"
proof (cases d q rule: linorder_cases)
  case less
  then have "d * 1440 + 1440 \<le> q * 1440" by linarith
  with less assms show ?thesis by linarith
next
  case greater
  then have "q * 1440 + 1440 \<le> d * 1440" by linarith
  with greater assms show ?thesis by linarith
qed simp

lemma daily_interval_wrapped:
  fixes s e q r :: int
  assumes "0 \<le> e" "e < s" "s < 1440" "0 \<le> r" "r < 1440"
  shows "d * 1440 + s \<le> q * 1440 + r \<and> q * 1440 + r < d * 1440 + 1440 + e \<longleftrightarrow>
    d = q \<and> s \<le> r \<or> d = q - 1 \<and> r < e"
proof -
  consider "d = q" | "d = q - 1" | "q * 1440 + 1440 \<le> d * 1440" | "d * 1440 + 2880 \<le> q * 1440"
    by linarith
  then show ?thesis
  proof cases
    case 3
    then have "d > q" by linarith
    with 3 assms show ?thesis by linarith
  next
    case 4
    then have "d < q - 1" by linarith
    with 4 assms show ?thesis by linarith
  qed (use assms in auto)
qed

text \<open>
  A peak window is the daily interval its bounds name. With well-formed bounds, an instant
  is inside exactly when some day starts an interval that holds it: from the start time of that
  day, for as long as the end time lies ahead (past midnight when the end is the earlier time
  of day, nothing when both name the same minute), and with \<^verbatim>\<open>weekdays_only\<close> only when the day
  the interval starts on is a Monday to Friday, also for the part after midnight.
\<close>

theorem peak_window_is_daily_interval:
  assumes "parse_clock_minutes (pw_start w) = Some s" and "parse_clock_minutes (pw_end w) = Some e"
  shows "window_contains (Some w) t \<longleftrightarrow>
    (\<exists>d. d * 1440 + s \<le> t div minute \<and> t div minute < d * 1440 + s + (e - s) mod 1440
       \<and> (weekdays_only w \<longrightarrow> (d + 4) mod 7 \<in> {1..5}))"
proof -
  note b = parse_clock_minutes_range [OF assms(1)] parse_clock_minutes_range [OF assms(2)]
  define q where "q = t div minute div 1440"
  define r where "r = t div minute mod 1440"
  have M: "t div minute = q * 1440 + r" and r: "0 \<le> r" "r < 1440"
    by (simp_all add: q_def r_def)
  define W where "W x \<longleftrightarrow> (weekdays_only w \<longrightarrow> (x + 4) mod 7 \<in> {1..5})" for x :: int
  have week: "W x \<longleftrightarrow> (weekdays_only w \<longrightarrow> \<not> ((x + 4) mod 7 = 6 \<or> (x + 4) mod 7 = 0))" for x
    using pos_mod_bound [of 7 "x + 4"] pos_mod_sign [of 7 "x + 4"] by (auto simp: W_def)
  have contains: "window_contains (Some w) t \<longleftrightarrow> (if s = e then False
      else if s < e then s \<le> r \<and> r < e \<and> W q
      else if r < e then W (q - 1) else s \<le> r \<and> W q)"
    unfolding week
    by (simp add: window_contains_def assms utc_minutes_def weekday_of_day [of t] weekday_day_before Let_def
        q_def [symmetric] r_def [symmetric])
  consider "s = e" | "s < e" | "e < s" by linarith
  then have "(if s = e then False
      else if s < e then s \<le> r \<and> r < e \<and> W q
      else if r < e then W (q - 1) else s \<le> r \<and> W q)
    \<longleftrightarrow> (\<exists>d. d * 1440 + s \<le> q * 1440 + r \<and> q * 1440 + r < d * 1440 + s + (e - s) mod 1440 \<and> W d)"
  proof cases
    case 2
    then have len: "(e - s) mod 1440 = e - s" using b by (simp add: mod_pos_pos_trivial)
    have "d * 1440 + s \<le> q * 1440 + r \<and> q * 1440 + r < d * 1440 + s + (e - s) \<longleftrightarrow> d = q \<and> s \<le> r \<and> r < e" for d
      using daily_interval_plain [of s e r d q] b r 2 by simp
    then show ?thesis using 2 unfolding len by (metis less_irrefl)
  next
    case 3
    then have len: "(e - s) mod 1440 = 1440 + e - s"
      using b mod_pos_pos_trivial [of "e - s + 1440" 1440] by simp
    have iff: "d * 1440 + s \<le> q * 1440 + r \<and> q * 1440 + r < d * 1440 + s + (1440 + e - s) \<longleftrightarrow>
        d = q \<and> s \<le> r \<or> d = q - 1 \<and> r < e" for d
      using daily_interval_wrapped [of e s r d q] b r 3 by (simp add: add.assoc)
    have "(\<exists>d. (d = q \<and> s \<le> r \<or> d = q - 1 \<and> r < e) \<and> W d) \<longleftrightarrow> s \<le> r \<and> W q \<or> r < e \<and> W (q - 1)"
      by blast
    moreover have "(if s = e then False else if s < e then s \<le> r \<and> r < e \<and> W q
        else if r < e then W (q - 1) else s \<le> r \<and> W q) \<longleftrightarrow> s \<le> r \<and> W q \<or> r < e \<and> W (q - 1)"
      using 3 by auto
    ultimately show ?thesis unfolding len conj_assoc [symmetric] iff by blast
  qed simp
  then show ?thesis unfolding contains M W_def .
qed

theorem peak_window_is_daily_interval_witness:
  "(\<exists>d. d * 1440 + 1320 \<le> (5 * day - minute) div minute
      \<and> (5 * day - minute) div minute < d * 1440 + 1320 + (120 - 1320) mod 1440
      \<and> (weekdays_only \<lparr>pw_start = ''22:00'', pw_end = ''2:00'', weekdays_only = True\<rparr> \<longrightarrow> (d + 4) mod 7 \<in> {1..5}))
   \<longleftrightarrow> window_contains (Some \<lparr>pw_start = ''22:00'', pw_end = ''2:00'', weekdays_only = True\<rparr>) (5 * day - minute)"
  by (rule peak_window_is_daily_interval [symmetric]) code_simp+

end
