(* ===== verification/GatewayConfig.thy ===== *)
theory GatewayConfig
  imports Pricing "HOL-Library.List_Lexorder" "HOL-Library.Char_ord"
begin

text \<open>
  The configuration that routing reads: agent models, providers and the static model registry
  of config/types.go, config/entry.go and config/billing.go, with the registry search of
  internal/util/math.go.

  A compiled \<^verbatim>\<open>*regexp.Regexp\<close> is its \<^verbatim>\<open>MatchString\<close>, a predicate on strings; \<^verbatim>\<open>regexp.Compile\<close> is the
  argument \<open>compile\<close>, \<open>None\<close> when the pattern does not parse. The static registry
  \<^verbatim>\<open>config.ModelRegistry\<close> is an argument. Fields of \<^verbatim>\<open>Provider\<close> that routing does not read are
  left out. Byte order on strings is the lexicographic order on their bytes.
\<close>

type_synonym regexp = "string \<Rightarrow> bool"

subsection \<open>Agent models\<close>

record agent_model =
  am_provider :: string
  am_model :: string
  am_format :: string
  am_url :: string
  am_max_context :: int
  am_max_output :: int
  required_capabilities :: "string list"
  provider_rgx :: string
  model_rgx :: string
  am_reasoning_effort :: string
  provider_re :: "regexp option"
  model_re :: "regexp option"

definition zero_agent_model :: agent_model where
  "zero_agent_model = \<lparr>am_provider = [], am_model = [], am_format = [], am_url = [],
     am_max_context = 0, am_max_output = 0, required_capabilities = [], provider_rgx = [],
     model_rgx = [], am_reasoning_effort = [], provider_re = None, model_re = None\<rparr>"

datatype regex_error = InvalidProviderRgx | InvalidModelRgx

text \<open>An error leaves what was compiled before it in place.\<close>

definition compile_regex ::
  "(string \<Rightarrow> regexp option) \<Rightarrow> agent_model \<Rightarrow> regex_error option \<times> agent_model" where
  "compile_regex compile m =
     (let (err, m) = (if provider_rgx m \<noteq> [] then
            (case compile (provider_rgx m) of
               None \<Rightarrow> (Some InvalidProviderRgx, m)
             | Some re \<Rightarrow> (None, m\<lparr>provider_re := Some re\<rparr>))
          else (None, m))
      in if err \<noteq> None then (err, m)
         else if model_rgx m \<noteq> [] then
           (case compile (model_rgx m) of
              None \<Rightarrow> (Some InvalidModelRgx, m)
            | Some re \<Rightarrow> (None, m\<lparr>model_re := Some re\<rparr>))
         else (None, m))"

definition re_rejects :: "regexp option \<Rightarrow> string \<Rightarrow> bool" where
  "re_rejects re s = (case re of None \<Rightarrow> False | Some f \<Rightarrow> \<not> f s)"

definition matches_catalog :: "agent_model \<Rightarrow> string \<Rightarrow> string \<Rightarrow> bool" where
  "matches_catalog m p md =
     (if am_provider m \<noteq> [] \<and> am_provider m \<noteq> p then False
      else if am_model m \<noteq> [] \<and> am_model m \<noteq> md then False
      else if re_rejects (provider_re m) p then False
      else if re_rejects (model_re m) md then False
      else True)"

definition is_dynamic :: "agent_model \<Rightarrow> bool" where
  "is_dynamic m \<longleftrightarrow> provider_re m \<noteq> None \<or> model_re m \<noteq> None"

record agent_config =
  strategy :: string
  agent_failure_threshold :: int
  agent_success_threshold :: int
  agent_models :: "agent_model list"

subsection \<open>Providers and the static registry\<close>

record billing_config =
  billing_model :: string
  free_only :: bool
  free_models :: "string list"

record provider =
  pv_name :: string
  pv_url :: string
  pv_api_key :: string
  auth_style :: string
  format_urls :: "(string, string) gomap"
  billing :: "billing_config option"
  allowed_re :: "regexp list"
  session_sticky_keys :: "bool option"

type_synonym providers = "(string, provider) gomap"

definition auth_style_none :: string where "auth_style_none = ''none''"

definition allows_model :: "provider \<Rightarrow> string \<Rightarrow> bool" where
  "allows_model p i = (if allowed_re p = [] then True else list_ex (\<lambda>re. re i) (allowed_re p))"

definition provider_can_serve :: "provider option \<Rightarrow> bool" where
  "provider_can_serve p = (case p of None \<Rightarrow> False
     | Some p \<Rightarrow> pv_api_key p \<noteq> [] \<or> auth_style p = auth_style_none)"

record model_entry =
  me_provider :: string
  me_max_context :: int
  me_max_output :: int
  me_format :: string
  me_score_bonus :: rat
  me_capabilities :: "string list"
  me_pricing :: pricing_override

type_synonym registry = "(string, model_entry) gomap"

text \<open>\<^verbatim>\<open>FindRegistryModels\<close>; the providers map may be nil, and then nothing is found.\<close>

definition registry_model :: "agent_model \<Rightarrow> string \<times> model_entry \<Rightarrow> agent_model" where
  "registry_model pat x = (case x of (i, e) \<Rightarrow>
     zero_agent_model\<lparr>am_provider := me_provider e, am_model := i, am_max_context := me_max_context e,
       am_max_output := me_max_output e, am_reasoning_effort := am_reasoning_effort pat\<rparr>)"

definition find_registry_models ::
  "registry \<Rightarrow> agent_model \<Rightarrow> providers option \<Rightarrow> agent_model list" where
  "find_registry_models reg pat ps =
     map (registry_model pat)
       (filter (\<lambda>(i, e). matches_catalog pat (me_provider e) i \<and>
          (case ps of None \<Rightarrow> False
           | Some ps \<Rightarrow> (case map_of ps (me_provider e) of
                None \<Rightarrow> False
              | Some p \<Rightarrow> provider_can_serve (Some p) \<and> allows_model p i))) reg)"

end
