(* ===== verification/Catalog.thy ===== *)
theory Catalog
  imports GatewayConfig Json
begin

text \<open>
  The model catalog: internal/discovery/types.go, capabilities.go and discovery.go. The catalog
  keeps two indexes, the entries of each model identifier and the identifiers of each provider;
  every operation runs under its mutex.

  A metadata or pricing pointer is an optional value: the catalog hands out the pointers it was
  given and mutates none of them in place.
\<close>

subsection \<open>Metadata and capabilities\<close>

record model_ranking =
  elo :: "rat option"
  rank_value :: "int option"
  as_of :: string

record model_metadata =
  supports_stream_options :: bool
  supports_auto_tool_choice :: bool
  supports_content_arrays :: bool
  supports_tool_calls :: bool
  supports_reasoning :: bool
  supports_vision :: bool
  supports_audio :: bool
  supports_mid_system :: bool
  score_bonus :: rat
  family :: string
  rankings :: "(string, model_ranking) gomap"
  md_pricing :: "pricing_override option"
  parsed_from :: "(string, json) gomap"

definition zero_metadata :: model_metadata where
  "zero_metadata = \<lparr>supports_stream_options = False, supports_auto_tool_choice = False,
     supports_content_arrays = False, supports_tool_calls = False, supports_reasoning = False,
     supports_vision = False, supports_audio = False, supports_mid_system = False,
     score_bonus = 0, family = [], rankings = [], md_pricing = None, parsed_from = []\<rparr>"

definition cap_vision :: string where "cap_vision = ''vision''"
definition cap_tool_calls :: string where "cap_tool_calls = ''tool_calls''"
definition cap_reasoning :: string where "cap_reasoning = ''reasoning''"
definition cap_content_arrays :: string where "cap_content_arrays = ''content_arrays''"
definition cap_stream_options :: string where "cap_stream_options = ''stream_options''"
definition cap_auto_tool_choice :: string where "cap_auto_tool_choice = ''auto_tool_choice''"
definition cap_audio :: string where "cap_audio = ''audio''"
definition cap_mid_system :: string where "cap_mid_system = ''mid_conversation_system''"

lemmas cap_defs = cap_vision_def cap_tool_calls_def cap_reasoning_def cap_content_arrays_def
  cap_stream_options_def cap_auto_tool_choice_def cap_audio_def cap_mid_system_def

definition all_capabilities :: "string list" where
  "all_capabilities = [cap_vision, cap_tool_calls, cap_reasoning, cap_content_arrays,
     cap_stream_options, cap_auto_tool_choice, cap_audio, cap_mid_system]"

definition has_capability :: "model_metadata option \<Rightarrow> string \<Rightarrow> bool" where
  "has_capability m cap = (case m of None \<Rightarrow> False | Some m \<Rightarrow>
     (if cap = cap_vision then supports_vision m
      else if cap = cap_tool_calls then supports_tool_calls m
      else if cap = cap_reasoning then supports_reasoning m
      else if cap = cap_content_arrays then supports_content_arrays m
      else if cap = cap_stream_options then supports_stream_options m
      else if cap = cap_auto_tool_choice then supports_auto_tool_choice m
      else if cap = cap_audio then supports_audio m
      else if cap = cap_mid_system then supports_mid_system m
      else False))"

definition apply_capability :: "string \<Rightarrow> model_metadata \<Rightarrow> model_metadata" where
  "apply_capability c m =
     (if c = cap_vision then m\<lparr>supports_vision := True\<rparr>
      else if c = cap_tool_calls then m\<lparr>supports_tool_calls := True\<rparr>
      else if c = cap_reasoning then m\<lparr>supports_reasoning := True\<rparr>
      else if c = cap_content_arrays then m\<lparr>supports_content_arrays := True\<rparr>
      else if c = cap_stream_options then m\<lparr>supports_stream_options := True\<rparr>
      else if c = cap_auto_tool_choice then m\<lparr>supports_auto_tool_choice := True\<rparr>
      else if c = cap_audio then m\<lparr>supports_audio := True\<rparr>
      else if c = cap_mid_system then m\<lparr>supports_mid_system := True\<rparr>
      else m)"

definition apply_capabilities :: "model_metadata \<Rightarrow> string list \<Rightarrow> model_metadata" where
  "apply_capabilities m caps = fold apply_capability caps m"

text \<open>A capability is present after applying a list when it was before or is a known one listed.\<close>

lemma has_apply_capability:
  "has_capability (Some (apply_capability c m)) k \<longleftrightarrow>
     has_capability (Some m) k \<or> (k = c \<and> k \<in> set all_capabilities)"
  unfolding apply_capability_def
  by (simp add: has_capability_def all_capabilities_def cap_defs)

lemma has_apply_capabilities:
  "has_capability (Some (apply_capabilities m caps)) k \<longleftrightarrow>
     has_capability (Some m) k \<or> (k \<in> set caps \<and> k \<in> set all_capabilities)"
  by (induction caps arbitrary: m) (auto simp: apply_capabilities_def has_apply_capability)

definition model_segments :: "string \<Rightarrow> string list" where
  "model_segments i = split_on CHR ''/'' (to_lower i)"

definition infer_format :: "string \<Rightarrow> string" where
  "infer_format i = (if has_prefix i ''claude-'' then ''anthropic''
     else if has_prefix i ''gemini-'' then ''gemini'' else [])"

definition capability_rules :: "(string \<times> string list) list" where
  "capability_rules =
    (let vision = cap_vision; tools = cap_tool_calls; reason = cap_reasoning;
         arrays = cap_content_arrays; auto = cap_auto_tool_choice; stream = cap_stream_options
     in [(''claude-3'', [vision, tools, arrays, auto]),
         (''claude-4'', [vision, tools, reason, arrays, auto]),
         (''gemini-3'', [vision, tools, reason, arrays, auto]),
         (''gemini-2'', [vision, tools, reason, arrays, auto]),
         (''gemini-1.5'', [vision, tools, arrays, auto]),
         (''gemini-1'', [vision]),
         (''gpt-4o'', [vision, tools, reason, arrays, auto, stream]),
         (''gpt-4-turbo'', [vision, tools, arrays, auto, stream]),
         (''gpt-4'', [tools, arrays, auto, stream]),
         (''o1'', [reason, tools, arrays, auto, stream]),
         (''o3'', [reason, tools, arrays, auto, stream]),
         (''o4'', [reason, tools, arrays, auto, stream]),
         (''deepseek-v4'', [reason, tools, arrays, auto, stream]),
         (''deepseek-r1'', [reason, tools, arrays, auto]),
         (''glm-4'', [tools, arrays, auto, stream]),
         (''glm-5.3-flash'', [tools, reason, vision, arrays, auto, stream]),
         (''glm-5.3'', [tools, reason, arrays, auto, stream]),
         (''glm-5'', [tools, reason, vision, arrays, auto, stream]),
         (''qwen2.5'', [tools, arrays, auto, stream]),
         (''qwen3'', [tools, reason, arrays, auto, stream]),
         (''mistral-large'', [tools, reason, arrays, auto, stream]),
         (''codestral'', [tools, arrays, auto, stream]),
         (''devstral'', [tools, arrays, auto, stream]),
         (''phi-4'', [tools, reason, arrays, auto, stream]),
         (''llama-4'', [tools, reason, arrays, auto, stream])])"

text \<open>The two nested loops: the first rule, in order, whose prefix starts some segment.\<close>

fun infer_rules :: "(string \<times> string list) list \<Rightarrow> string list \<Rightarrow> model_metadata option" where
  "infer_rules [] segs = None"
| "infer_rules ((pre, caps) # rs) segs =
     (if list_ex (\<lambda>seg. has_prefix seg pre) segs then Some (apply_capabilities zero_metadata caps)
      else infer_rules rs segs)"

definition infer_capabilities :: "string \<Rightarrow> model_metadata option" where
  "infer_capabilities i = infer_rules capability_rules (model_segments i)"

subsection \<open>The catalog\<close>

record discovered_model =
  dm_id :: string
  dm_provider :: string
  dm_format :: string
  dm_max_context :: int
  dm_max_output :: int
  owned_by :: string
  dm_metadata :: "model_metadata option"
  dm_pricing :: "pricing_entry option"
  service_kinds :: "string list"

record model_catalog =
  cat_models :: "(string, discovered_model list) gomap"
  cat_providers :: "(string, string list) gomap"
  fetched_at :: time
  has_metadata :: bool

definition new_model_catalog :: "time \<Rightarrow> model_catalog" where
  "new_model_catalog now = \<lparr>cat_models = [], cat_providers = [], fetched_at = now, has_metadata = False\<rparr>"

definition cat_lookup :: "string \<Rightarrow> model_catalog \<Rightarrow> discovered_model option" where
  "cat_lookup i c = (case map_of (cat_models c) i of
     None \<Rightarrow> None | Some es \<Rightarrow> if es = [] then None else Some (es ! 0))"

definition lookup_all :: "string \<Rightarrow> model_catalog \<Rightarrow> discovered_model list" where
  "lookup_all i c = (case map_of (cat_models c) i of None \<Rightarrow> [] | Some es \<Rightarrow> es)"

definition models_for_provider :: "string \<Rightarrow> model_catalog \<Rightarrow> discovered_model list" where
  "models_for_provider p c = (case map_of (cat_providers c) p of
     None \<Rightarrow> []
   | Some ids \<Rightarrow> concat (map (\<lambda>i. case map_of (cat_models c) i of
        None \<Rightarrow> [] | Some es \<Rightarrow> filter (\<lambda>m. dm_provider m = p) es) ids))"

definition all_models :: "model_catalog \<Rightarrow> discovered_model list" where
  "all_models c = concat (map snd (cat_models c))"

definition carries_metadata :: "discovered_model \<Rightarrow> bool" where
  "carries_metadata m = (case dm_metadata m of None \<Rightarrow> False
     | Some md \<Rightarrow> score_bonus md \<noteq> 0 \<or> supports_tool_calls md \<or> supports_reasoning md
         \<or> supports_vision md \<or> supports_content_arrays md \<or> md_pricing md \<noteq> None)"

definition add_model :: "discovered_model \<Rightarrow> model_catalog \<Rightarrow> model_catalog" where
  "add_model m c =
     (let c = (if carries_metadata m then c\<lparr>has_metadata := True\<rparr> else c);
          c = c\<lparr>cat_models := put (dm_id m) (get_or [] (cat_models c) (dm_id m) @ [m]) (cat_models c)\<rparr>
      in c\<lparr>cat_providers := put (dm_provider m) (get_or [] (cat_providers c) (dm_provider m) @ [dm_id m])
           (cat_providers c)\<rparr>)"

definition update_fetched_at :: "time \<Rightarrow> model_catalog \<Rightarrow> model_catalog" where
  "update_fetched_at t c = c\<lparr>fetched_at := t\<rparr>"

definition remove_models :: "(discovered_model \<Rightarrow> bool) \<Rightarrow> model_catalog \<Rightarrow> model_catalog" where
  "remove_models f c =
     (let models = filter (\<lambda>(i, es). es \<noteq> []) (map (\<lambda>(i, es). (i, filter (\<lambda>m. \<not> f m) es)) (cat_models c));
          providers = filter (\<lambda>(p, ids). ids \<noteq> [])
            (map (\<lambda>(p, ids). (p, filter (\<lambda>i. map_of models i \<noteq> None) ids)) (cat_providers c))
      in c\<lparr>cat_models := models, cat_providers := providers\<rparr>)"

definition merge_attached_peak :: "pricing_entry \<Rightarrow> pricing_entry option \<Rightarrow> pricing_entry" where
  "merge_attached_peak dst existing = (case existing of None \<Rightarrow> dst | Some ex \<Rightarrow>
     (let dst = (if peak_input_cost dst = 0 then dst\<lparr>peak_input_cost := peak_input_cost ex\<rparr> else dst);
          dst = (if peak_output_cost dst = 0 then dst\<lparr>peak_output_cost := peak_output_cost ex\<rparr> else dst);
          dst = (if cached_input_cost dst = 0 then dst\<lparr>cached_input_cost := cached_input_cost ex\<rparr> else dst)
      in if cache_write_cost dst = 0 then dst\<lparr>cache_write_cost := cache_write_cost ex\<rparr> else dst))"

text \<open>The loop over the entries of one identifier: \<^verbatim>\<open>p\<close> is the loop variable of the outer range.\<close>

fun attach_entries :: "pricing_entry \<Rightarrow> discovered_model list \<Rightarrow> discovered_model list" where
  "attach_entries p [] = []"
| "attach_entries p (e # es) =
     (let p = merge_attached_peak p (dm_pricing e) in e\<lparr>dm_pricing := Some p\<rparr> # attach_entries p es)"

definition attach_one :: "string \<times> pricing_entry \<Rightarrow> model_catalog \<Rightarrow> model_catalog" where
  "attach_one x c = (case x of (i, p) \<Rightarrow> (case map_of (cat_models c) i of
     None \<Rightarrow> c | Some es \<Rightarrow> c\<lparr>cat_models := put i (attach_entries p es) (cat_models c)\<rparr>))"

definition attach_pricing :: "(string, pricing_entry) gomap \<Rightarrow> model_catalog \<Rightarrow> model_catalog" where
  "attach_pricing ps c = fold attach_one ps c"

subsection \<open>The two indexes\<close>

datatype cat_op = Add_model discovered_model | Remove_models "discovered_model \<Rightarrow> bool"
  | Attach_pricing "(string, pricing_entry) gomap" | Update_fetched_at time

fun cat_step :: "model_catalog \<Rightarrow> cat_op \<Rightarrow> model_catalog" where
  "cat_step c (Add_model m) = add_model m c"
| "cat_step c (Remove_models f) = remove_models f c"
| "cat_step c (Attach_pricing ps) = attach_pricing ps c"
| "cat_step c (Update_fetched_at t) = update_fetched_at t c"

definition indexed :: "model_catalog \<Rightarrow> string \<Rightarrow> discovered_model list \<Rightarrow> bool" where
  "indexed c i es \<longleftrightarrow> es \<noteq> [] \<and>
     (\<forall>e \<in> set es. dm_id e = i \<and> i \<in> set (get_or [] (cat_providers c) (dm_provider e)))"

definition cat_ok :: "model_catalog \<Rightarrow> bool" where
  "cat_ok c \<longleftrightarrow> gomap_ok (cat_models c) \<and> gomap_ok (cat_providers c)
     \<and> all_entries (indexed c) (cat_models c)"

lemma cat_ok_new: "cat_ok (new_model_catalog now)"
  by (simp add: cat_ok_def new_model_catalog_def)

lemma add_model_models: "cat_models (add_model m c) =
    put (dm_id m) (get_or [] (cat_models c) (dm_id m) @ [m]) (cat_models c)"
  by (simp add: add_model_def Let_def)

lemma add_model_providers: "cat_providers (add_model m c) =
    put (dm_provider m) (get_or [] (cat_providers c) (dm_provider m) @ [dm_id m]) (cat_providers c)"
  by (simp add: add_model_def Let_def)

lemma cat_ok_add:
  assumes "cat_ok c"
  shows "cat_ok (add_model m c)"
proof -
  have old: "indexed c i es" if "map_of (cat_models c) i = Some es" for i es
    using assms that by (auto simp: cat_ok_def dest: all_entriesD)
  have mono: "indexed (add_model m c) i es" if "indexed c i es" for i es
    using that by (auto simp: indexed_def add_model_providers)
  have "indexed (add_model m c) (dm_id m) (get_or [] (cat_models c) (dm_id m) @ [m])"
  proof (cases "map_of (cat_models c) (dm_id m)")
    case None
    then have "get_or [] (cat_models c) (dm_id m) = []" by (simp add: get_or_def)
    then show ?thesis by (simp add: indexed_def add_model_providers)
  next
    case (Some es)
    then have "get_or [] (cat_models c) (dm_id m) = es" by (simp add: get_or_def)
    with mono [OF old [OF Some]] show ?thesis
      by (auto simp: indexed_def add_model_providers)
  qed
  moreover have "all_entries (indexed (add_model m c)) (cat_models c)"
    using old mono by (simp add: all_entries_def)
  ultimately show ?thesis
    using assms by (simp add: cat_ok_def add_model_models add_model_providers all_entries_put gomap_ok_put)
qed

text \<open>What filtering the values of a map and dropping the empty ones does to a lookup.\<close>

definition drop_empty :: "('k, 'v list) gomap \<Rightarrow> ('k, 'v list) gomap" where
  "drop_empty m = filter (\<lambda>(k, vs). vs \<noteq> []) m"

lemma gomap_ok_drop_empty: "gomap_ok m \<Longrightarrow> gomap_ok (drop_empty (map (\<lambda>(k, vs). (k, filter P vs)) m))"
proof -
  assume "gomap_ok m"
  then have "gomap_ok (map (\<lambda>(k, vs). (k, filter P vs)) m)" by (simp add: case_prod_unfold comp_def)
  then show ?thesis unfolding drop_empty_def by (rule distinct_map_filter)
qed

lemma map_of_drop_empty:
  "gomap_ok m \<Longrightarrow> map_of (drop_empty (map (\<lambda>(k, vs). (k, filter P vs)) m)) k =
     (case map_of m k of None \<Rightarrow> None | Some vs \<Rightarrow> if filter P vs = [] then None else Some (filter P vs))"
proof (induction m)
  case (Cons a m)
  obtain k' vs where a: "a = (k', vs)" by force
  have "map_of (drop_empty (map (\<lambda>(k, vs). (k, filter P vs)) m)) k = None" if "map_of m k = None"
    using Cons that by (simp add: a)
  moreover have "map_of m k' = None" using Cons.prems by (simp add: a map_of_eq_None_iff)
  ultimately show ?case
    using Cons by (cases "k = k'") (auto simp: a drop_empty_def split: option.split)
qed (simp add: drop_empty_def)

lemma remove_models_eq:
  "cat_models (remove_models f c) = drop_empty (map (\<lambda>(i, es). (i, filter (\<lambda>m. \<not> f m) es)) (cat_models c))"
  "cat_providers (remove_models f c) = drop_empty (map (\<lambda>(p, ids).
     (p, filter (\<lambda>i. map_of (cat_models (remove_models f c)) i \<noteq> None) ids)) (cat_providers c))"
  by (simp_all add: remove_models_def drop_empty_def Let_def)

lemma cat_ok_remove:
  assumes "cat_ok c"
  shows "cat_ok (remove_models f c)"
proof -
  let ?d = "remove_models f c"
  have mo: "map_of (cat_models ?d) i = (case map_of (cat_models c) i of None \<Rightarrow> None
      | Some es \<Rightarrow> if filter (\<lambda>m. \<not> f m) es = [] then None else Some (filter (\<lambda>m. \<not> f m) es))" for i
    using assms by (simp add: remove_models_eq(1) map_of_drop_empty cat_ok_def)
  have po: "set (get_or [] (cat_providers ?d) p) =
      {i \<in> set (get_or [] (cat_providers c) p). map_of (cat_models ?d) i \<noteq> None}" for p
  proof (cases "map_of (cat_providers c) p")
    case None
    then show ?thesis
      using assms by (simp add: remove_models_eq(2) [of f c] map_of_drop_empty cat_ok_def get_or_def)
  next
    case (Some ids)
    then show ?thesis
      using assms by (auto simp: remove_models_eq(2) [of f c] map_of_drop_empty cat_ok_def get_or_def
          filter_empty_conv)
  qed
  have "indexed ?d i es" if i: "map_of (cat_models ?d) i = Some es" for i es
  proof -
    from i mo [of i] obtain es0 where es0: "map_of (cat_models c) i = Some es0" "es = filter (\<lambda>m. \<not> f m) es0" "es \<noteq> []"
      by (auto split: option.splits if_splits)
    then have "indexed c i es0" using assms by (auto simp: cat_ok_def dest: all_entriesD)
    with es0 i show ?thesis by (auto simp: indexed_def po)
  qed
  then show ?thesis
    using assms unfolding cat_ok_def
    by (simp add: all_entries_def remove_models_eq gomap_ok_drop_empty)
qed

lemma attach_entries_shape:
  "map dm_id (attach_entries p es) = map dm_id es"
  "map dm_provider (attach_entries p es) = map dm_provider es"
  "length (attach_entries p es) = length es"
  by (induction p es rule: attach_entries.induct) (simp_all add: Let_def)

lemma attach_entries_nth_shape:
  assumes "e \<in> set (attach_entries p es)"
  shows "\<exists>e' \<in> set es. dm_id e' = dm_id e \<and> dm_provider e' = dm_provider e"
proof -
  from assms obtain k where k: "k < length es" "e = attach_entries p es ! k"
    by (auto simp: in_set_conv_nth attach_entries_shape)
  have "map dm_id (attach_entries p es) ! k = map dm_id es ! k"
    "map dm_provider (attach_entries p es) ! k = map dm_provider es ! k"
    by (simp_all only: attach_entries_shape)
  with k have "dm_id (es ! k) = dm_id e" "dm_provider (es ! k) = dm_provider e"
    by (simp_all add: attach_entries_shape(3))
  with k(1) show ?thesis using nth_mem by blast
qed

lemma cat_ok_attach_one: "cat_ok c \<Longrightarrow> cat_ok (attach_one x c)"
proof (cases x)
  case (Pair i p)
  assume c: "cat_ok c"
  show ?thesis
  proof (cases "map_of (cat_models c) i")
    case None
    with c Pair show ?thesis by (simp add: attach_one_def)
  next
    case (Some es)
    with c have es: "indexed c i es" by (auto simp: cat_ok_def dest: all_entriesD)
    have "indexed c i (attach_entries p es)"
      unfolding indexed_def
    proof (intro conjI ballI)
      show "attach_entries p es \<noteq> []"
        using es attach_entries_shape(3) [of p es] by (auto simp: indexed_def)
      fix e
      assume "e \<in> set (attach_entries p es)"
      then obtain e' where "e' \<in> set es" "dm_id e' = dm_id e" "dm_provider e' = dm_provider e"
        using attach_entries_nth_shape by blast
      with es show "dm_id e = i" "i \<in> set (get_or [] (cat_providers c) (dm_provider e))"
        by (auto simp: indexed_def)
    qed
    moreover have "indexed (c\<lparr>cat_models := m\<rparr>) = indexed c" for m
      by (simp add: indexed_def fun_eq_iff)
    ultimately show ?thesis
      using c Some Pair by (simp add: attach_one_def cat_ok_def all_entries_put)
  qed
qed

lemma cat_ok_attach: "cat_ok c \<Longrightarrow> cat_ok (attach_pricing ps c)"
  unfolding attach_pricing_def by (induction ps arbitrary: c) (simp_all add: cat_ok_attach_one)

lemma cat_ok_touch: "cat_ok c \<Longrightarrow> cat_ok (update_fetched_at t c)"
  by (simp add: update_fetched_at_def cat_ok_def indexed_def [abs_def])

interpretation catm: machine cat_step cat_ok
proof
  fix c x assume "cat_ok c"
  then show "cat_ok (cat_step c x)"
    by (cases x) (simp_all add: cat_ok_add cat_ok_remove cat_ok_attach cat_ok_touch)
qed

lemma set_all_models: "cat_ok c \<Longrightarrow> set (all_models c) = {e. \<exists>i es. map_of (cat_models c) i = Some es \<and> e \<in> set es}"
  unfolding all_models_def cat_ok_def by force

lemma set_lookup_all:
  assumes "cat_ok c"
  shows "set (lookup_all i c) = {e \<in> set (all_models c). dm_id e = i}"
proof -
  have "dm_id e = j" if "map_of (cat_models c) j = Some es" "e \<in> set es" for j es e
    using assms that by (auto simp: cat_ok_def indexed_def dest: all_entriesD)
  then show ?thesis
    unfolding set_all_models [OF assms]
    by (cases "map_of (cat_models c) i") (auto simp: lookup_all_def)
qed

lemma set_models_for_provider:
  assumes "cat_ok c"
  shows "set (models_for_provider p c) = {e \<in> set (all_models c). dm_provider e = p}"
proof -
  have idx: "j \<in> set (get_or [] (cat_providers c) (dm_provider e))"
    if "map_of (cat_models c) j = Some es" "e \<in> set es" for j es e
    using assms that by (auto simp: cat_ok_def indexed_def dest: all_entriesD)
  have "set (models_for_provider p c) = {e. dm_provider e = p \<and>
      (\<exists>i es. i \<in> set (get_or [] (cat_providers c) p) \<and> map_of (cat_models c) i = Some es \<and> e \<in> set es)}"
    by (cases "map_of (cat_providers c) p")
      (force simp: models_for_provider_def get_or_def split: option.splits)+
  also have "\<dots> = {e \<in> set (all_models c). dm_provider e = p}"
    unfolding set_all_models [OF assms] using idx by blast
  finally show ?thesis .
qed

text \<open>
  Whatever models are added, removed and repriced, in whatever order, the two indexes of the
  catalog answer for the same entries: the models of a provider are exactly the entries naming
  that provider, the entries of an identifier exactly those with that identifier, and the single
  lookup is the first of them.
\<close>

theorem catalog_indexes_agree:
  "let c = run_ops cat_step (new_model_catalog now) ops in
     set (models_for_provider p c) = {e \<in> set (all_models c). dm_provider e = p}
     \<and> set (lookup_all i c) = {e \<in> set (all_models c). dm_id e = i}
     \<and> cat_lookup i c = (if lookup_all i c = [] then None else Some (hd (lookup_all i c)))"
proof -
  define c where "c = run_ops cat_step (new_model_catalog now) ops"
  have "cat_ok c" unfolding c_def by (rule catm.run_inv) (rule cat_ok_new)
  then show ?thesis
    unfolding c_def [symmetric] Let_def
    by (simp add: set_models_for_provider set_lookup_all del: mem_Collect_eq)
      (auto simp: cat_lookup_def lookup_all_def hd_conv_nth split: option.split)
qed

subsection \<open>Attached prices\<close>

definition first_nonzero :: "rat list \<Rightarrow> rat" where
  "first_nonzero rs = (case filter (\<lambda>r. r \<noteq> 0) rs of [] \<Rightarrow> 0 | r # _ \<Rightarrow> r)"

text \<open>A rate an entry declares itself, 0 without a rate card.\<close>

definition own_rate :: "(pricing_entry \<Rightarrow> rat) \<Rightarrow> discovered_model \<Rightarrow> rat" where
  "own_rate dimn e = (case dm_pricing e of None \<Rightarrow> 0 | Some q \<Rightarrow> dimn q)"

definition peak_dims :: "(pricing_entry \<Rightarrow> rat) list" where
  "peak_dims = [peak_input_cost, peak_output_cost, cached_input_cost, cache_write_cost]"

lemma first_nonzero_simps [simp]:
  "first_nonzero [] = 0" "first_nonzero (r # rs) = (if r = 0 then first_nonzero rs else r)"
  by (simp_all add: first_nonzero_def)

lemma merge_attached_dim:
  "dimn \<in> set peak_dims \<Longrightarrow> dimn (merge_attached_peak p (dm_pricing e)) = first_nonzero [dimn p, own_rate dimn e]"
  by (auto simp: peak_dims_def merge_attached_peak_def own_rate_def Let_def split: option.split)

lemma attach_entries_dim:
  assumes "dimn \<in> set peak_dims"
  shows "k < length es \<Longrightarrow> \<exists>q. dm_pricing (attach_entries p es ! k) = Some q
    \<and> dimn q = first_nonzero (dimn p # map (own_rate dimn) (take (Suc k) es))"
proof (induction es arbitrary: p k)
  case (Cons e es)
  note m = merge_attached_dim [OF assms, of p e]
  show ?case
  proof (cases k)
    case 0
    then show ?thesis using m by (simp add: Let_def)
  next
    case (Suc j)
    with Cons.prems have "j < length es" by simp
    from Cons.IH [OF this, of "merge_attached_peak p (dm_pricing e)"] Suc m
    show ?thesis by (auto simp: Let_def)
  qed
qed simp

lemma attach_one_lookup: "lookup_all i (attach_one (j, p) c) =
    (if j = i then attach_entries p (lookup_all i c) else lookup_all i c)"
  by (auto simp: lookup_all_def attach_one_def map_of_put split: option.splits)

lemma attach_pricing_lookup:
  "gomap_ok ps \<Longrightarrow> lookup_all i (attach_pricing ps c) = (case map_of ps i of
     None \<Rightarrow> lookup_all i c | Some p \<Rightarrow> attach_entries p (lookup_all i c))"
  unfolding attach_pricing_def
proof (induction ps arbitrary: c)
  case (Cons a ps)
  obtain j p where a: "a = (j, p)" by force
  have "map_of ps j = None" using Cons.prems by (simp add: a map_of_eq_None_iff)
  with Cons show ?case
    by (simp add: a attach_one_lookup split: option.split)
qed simp

text \<open>
  The rates of an attached feed for the entries of one model. In each of the peak, cached and
  cache-write dimensions, entry \<open>k\<close> ends up with the first non-zero rate among the feed's and
  those of the entries before it and its own, in order. So a rate that an earlier provider
  declares overrides the one that entry \<open>k\<close> declares itself: the loop overwrites its own
  variable instead of a fresh copy.
\<close>

theorem attached_rate_is_first_declared:
  assumes "gomap_ok ps" and "map_of ps i = Some p" and "k < length (lookup_all i c)"
    and "dimn \<in> set peak_dims"
  shows "\<exists>q. dm_pricing (lookup_all i (attach_pricing ps c) ! k) = Some q
    \<and> dimn q = first_nonzero (dimn p # map (own_rate dimn) (take (Suc k) (lookup_all i c)))"
  using attach_entries_dim [OF assms(4,3), of p] assms(1,2) by (simp add: attach_pricing_lookup)

definition rate_card :: "rat \<Rightarrow> rat \<Rightarrow> pricing_entry" where
  "rate_card base peak = \<lparr>input_cost = base, output_cost = base, peak_input_cost = peak, peak_output_cost = 0,
     cached_input_cost = 0, cache_write_cost = 0, currency = ''USD''\<rparr>"

definition served_by :: "string \<Rightarrow> pricing_entry option \<Rightarrow> discovered_model" where
  "served_by p price = \<lparr>dm_id = ''m'', dm_provider = p, dm_format = [], dm_max_context = 0, dm_max_output = 0,
     owned_by = p, dm_metadata = None, dm_pricing = price, service_kinds = []\<rparr>"

theorem attached_rate_is_first_declared_witness:
  "let c = add_model (served_by ''b'' (Some (rate_card 1 7))) (add_model (served_by ''a'' (Some (rate_card 1 5)))
         (new_model_catalog 0))
   in own_rate peak_input_cost (lookup_all ''m'' c ! 1) = 7
      \<and> (\<exists>q. dm_pricing (lookup_all ''m'' (attach_pricing [(''m'', rate_card 2 0)] c) ! 1) = Some q
          \<and> peak_input_cost q = 5)"
proof -
  let ?c = "add_model (served_by ''b'' (Some (rate_card 1 7))) (add_model (served_by ''a'' (Some (rate_card 1 5)))
      (new_model_catalog 0))"
  have es: "lookup_all ''m'' ?c = [served_by ''a'' (Some (rate_card 1 5)), served_by ''b'' (Some (rate_card 1 7))]"
    by (simp add: lookup_all_def add_model_def carries_metadata_def new_model_catalog_def served_by_def get_or_def)
  have "gomap_ok [(''m'', rate_card 2 0)]" "map_of [(''m'', rate_card 2 0)] ''m'' = Some (rate_card 2 0)"
    "1 < length (lookup_all ''m'' ?c)" "peak_input_cost \<in> set peak_dims"
    by (simp_all add: es peak_dims_def)
  from attached_rate_is_first_declared [OF this] show ?thesis
    unfolding Let_def es by (simp add: own_rate_def served_by_def rate_card_def)
qed

end
