(* ===== verification/CatalogMerge.thy ===== *)
theory CatalogMerge
  imports Catalog
begin

text \<open>
  The catalog merge of internal/discovery/merge.go: the agents' overrides, the discovered catalog
  and the static registry become one catalog, filtered by each provider's allowed_models and
  non_chat_models patterns, with a report of the non-chat models it dropped.

  The loop over the model identifiers ranges over a Go map, so it takes their order as an
  argument. A pattern that does not compile is skipped, as in the code.
\<close>

record provider_config =
  pc_allowed_models :: "string list"
  pc_non_chat_models :: "string list"

record gateway_config =
  cfg_agents :: "(string, agent_config) gomap"
  cfg_providers :: "(string, provider_config) gomap"

type_synonym patterns = "(string, regexp list) gomap"
type_synonym drops = "(string, string list) gomap option"
type_synonym merge_state = "model_catalog \<times> drops"

subsection \<open>Provider filters\<close>

definition compile_each :: "(string \<Rightarrow> regexp option) \<Rightarrow> string list \<Rightarrow> regexp list" where
  "compile_each compile pats = List.map_filter compile pats"

definition build_provider_allows ::
  "(string \<Rightarrow> regexp option) \<Rightarrow> (string, provider_config) gomap \<Rightarrow> patterns" where
  "build_provider_allows compile ps = List.map_filter (\<lambda>(name, pc).
     if pc_allowed_models pc = [] then None
     else let res = compile_each compile (pc_allowed_models pc) in if res = [] then None else Some (name, res)) ps"

definition build_provider_non_chat ::
  "(string \<Rightarrow> regexp option) \<Rightarrow> (string, provider_config) gomap \<Rightarrow> patterns" where
  "build_provider_non_chat compile ps = List.map_filter (\<lambda>(name, pc).
     if pc_non_chat_models pc = [] then None
     else let res = compile_each compile (pc_non_chat_models pc) in if res = [] then None else Some (name, res)) ps"

definition is_model_allowed :: "patterns \<Rightarrow> string \<Rightarrow> string \<Rightarrow> bool" where
  "is_model_allowed allows p i = (if allows = [] then True else
     (case map_of allows p of None \<Rightarrow> True
      | Some pats \<Rightarrow> if pats = [] then True else list_ex (\<lambda>re. re i) pats))"

definition is_non_chat :: "patterns \<Rightarrow> string \<Rightarrow> string \<Rightarrow> bool" where
  "is_non_chat non_chat p i = (if non_chat = [] then False else
     (case map_of non_chat p of None \<Rightarrow> False
      | Some pats \<Rightarrow> if pats = [] then False else list_ex (\<lambda>re. re i) pats))"

definition record_drop :: "string \<Rightarrow> string \<Rightarrow> drops \<Rightarrow> drops" where
  "record_drop p i d = (case d of None \<Rightarrow> None
     | Some m \<Rightarrow> if i \<in> set (get_or [] m p) then Some m
         else Some (put p (sort (get_or [] m p @ [i])) m))"

definition non_chat_matches :: "patterns \<Rightarrow> string \<Rightarrow> string \<Rightarrow> drops \<Rightarrow> bool \<times> drops" where
  "non_chat_matches non_chat p i d =
     (if \<not> is_non_chat non_chat p i then (False, d) else (True, record_drop p i d))"

subsection \<open>Overrides and the three sources\<close>

record agent_override =
  ov_provider :: string
  ov_max_context :: int
  ov_max_output :: int

definition zero_override :: agent_override where
  "zero_override = \<lparr>ov_provider = [], ov_max_context = 0, ov_max_output = 0\<rparr>"

definition add_override ::
  "agent_model \<Rightarrow> (string, agent_override) gomap \<Rightarrow> (string, agent_override) gomap" where
  "add_override m ovs =
     (if am_max_context m > 0 \<or> am_max_output m > 0 \<or> am_provider m \<noteq> [] then
        (let ov = get_or zero_override ovs (am_model m);
             ov = (if am_provider m \<noteq> [] then ov\<lparr>ov_provider := am_provider m\<rparr> else ov);
             ov = (if am_max_context m > 0 then ov\<lparr>ov_max_context := am_max_context m\<rparr> else ov);
             ov = (if am_max_output m > 0 then ov\<lparr>ov_max_output := am_max_output m\<rparr> else ov)
         in put (am_model m) ov ovs)
      else ovs)"

definition build_agent_overrides :: "gateway_config \<Rightarrow> (string, agent_override) gomap" where
  "build_agent_overrides cfg =
     fold (\<lambda>(name, agent). fold add_override (agent_models agent)) (cfg_agents cfg) []"

fun first_non_empty :: "string list \<Rightarrow> string" where
  "first_non_empty [] = []"
| "first_non_empty (v # vs) = (if v \<noteq> [] then v else first_non_empty vs)"

fun first_positive :: "int list \<Rightarrow> int" where
  "first_positive [] = 0"
| "first_positive (v # vs) = (if v > 0 then v else first_positive vs)"

definition pick_provider :: "bool \<Rightarrow> string \<Rightarrow> bool \<Rightarrow> string \<Rightarrow> string" where
  "pick_provider static_exists static_val disc_exists disc_val =
     (if static_exists \<and> static_val \<noteq> [] then static_val
      else if disc_exists \<and> disc_val \<noteq> [] then disc_val else [])"

definition pick_format :: "bool \<Rightarrow> string \<Rightarrow> bool \<Rightarrow> string \<Rightarrow> string" where
  "pick_format static_exists static_val disc_exists disc_val =
     (if static_exists \<and> static_val \<noteq> [] then static_val
      else if disc_exists \<and> disc_val \<noteq> [] then disc_val else [])"

definition pick_int :: "bool \<Rightarrow> int \<Rightarrow> int" where
  "pick_int exists val = (if exists then val else 0)"

definition zero_pricing :: pricing_override where
  "zero_pricing = \<lparr>input_cost = 0, output_cost = 0, peak_input_cost = 0, peak_output_cost = 0,
     cached_input_cost = 0, cache_write_cost = 0\<rparr>"

definition zero_entry :: model_entry where
  "zero_entry = \<lparr>me_provider = [], me_max_context = 0, me_max_output = 0, me_format = [],
     me_score_bonus = 0, me_capabilities = [], me_pricing = zero_pricing\<rparr>"

definition zero_discovered :: discovered_model where
  "zero_discovered = \<lparr>dm_id = [], dm_provider = [], dm_format = [], dm_max_context = 0, dm_max_output = 0,
     owned_by = [], dm_metadata = None, dm_pricing = None, service_kinds = []\<rparr>"

definition pricing_entry_from_override :: "pricing_override \<Rightarrow> pricing_entry option" where
  "pricing_entry_from_override p = (if pricing_is_zero p then None
     else Some \<lparr>input_cost = input_cost p, output_cost = output_cost p, peak_input_cost = peak_input_cost p,
       peak_output_cost = peak_output_cost p, cached_input_cost = cached_input_cost p,
       cache_write_cost = cache_write_cost p, currency = ''USD''\<rparr>)"

definition apply_static_entry_metadata :: "model_metadata option \<Rightarrow> model_entry \<Rightarrow> model_metadata" where
  "apply_static_entry_metadata meta e =
     (let md = (case meta of None \<Rightarrow> zero_metadata | Some md \<Rightarrow> md);
          md = (if me_score_bonus e \<noteq> 0 then md\<lparr>score_bonus := me_score_bonus e\<rparr> else md);
          md = (if me_capabilities e \<noteq> [] then apply_capabilities md (me_capabilities e) else md)
      in if \<not> pricing_is_zero (me_pricing e) then md\<lparr>md_pricing := Some (me_pricing e)\<rparr> else md)"

definition pick_metadata ::
  "discovered_model \<Rightarrow> bool \<Rightarrow> model_entry \<Rightarrow> bool \<Rightarrow> model_metadata option" where
  "pick_metadata disc has_disc static has_static =
     (let md = (if has_disc \<and> dm_metadata disc \<noteq> None then dm_metadata disc else None) in
      if \<not> has_static \<or> (me_score_bonus static = 0 \<and> me_capabilities static = [] \<and> pricing_is_zero (me_pricing static))
      then md else Some (apply_static_entry_metadata md static))"

subsection \<open>Merging one model\<close>

text \<open>
  The loop over the discovered variants; \<open>ok\<close> is the test on the variant's provider name that
  two of the three loops make, \<open>build\<close> the entry added for a variant.
\<close>

fun variant_loop ::
  "(string \<Rightarrow> bool) \<Rightarrow> (discovered_model \<Rightarrow> discovered_model) \<Rightarrow> patterns \<Rightarrow> patterns \<Rightarrow> string
   \<Rightarrow> discovered_model list \<Rightarrow> string list \<Rightarrow> merge_state \<Rightarrow> merge_state" where
  "variant_loop ok build allows non_chat i [] seen st = st"
| "variant_loop ok build allows non_chat i (dm # dms) seen (merged, d) =
     (if ok (dm_provider dm) \<and> dm_provider dm \<notin> set seen \<and> is_model_allowed allows (dm_provider dm) i then
        (let (nc, d) = non_chat_matches non_chat (dm_provider dm) i d in
         if \<not> nc then variant_loop ok build allows non_chat i dms (dm_provider dm # seen)
                        (add_model (build dm) merged, d)
         else variant_loop ok build allows non_chat i dms seen (merged, d))
      else variant_loop ok build allows non_chat i dms seen (merged, d))"

definition discovered_first :: "discovered_model list \<Rightarrow> discovered_model" where
  "discovered_first ds = (if length ds > 0 then ds ! 0 else zero_discovered)"

definition override_entry ::
  "string \<Rightarrow> agent_override \<Rightarrow> model_entry option \<Rightarrow> discovered_model list \<Rightarrow> discovered_model" where
  "override_entry i ov st ds =
     (let has_static = st \<noteq> None; static = (case st of None \<Rightarrow> zero_entry | Some e \<Rightarrow> e);
          has_disc = length ds > 0; disc = discovered_first ds
      in \<lparr>dm_id = i,
          dm_provider = first_non_empty [ov_provider ov,
             pick_provider has_static (me_provider static) has_disc (dm_provider disc)],
          dm_format = pick_format has_static (me_format static) has_disc (dm_format disc),
          dm_max_context = first_positive [ov_max_context ov, pick_int has_disc (dm_max_context disc),
             pick_int has_static (me_max_context static)],
          dm_max_output = first_positive [ov_max_output ov, pick_int has_disc (dm_max_output disc),
             pick_int has_static (me_max_output static)],
          owned_by = first_non_empty [owned_by disc, ''nenya''],
          dm_metadata = pick_metadata disc has_disc static has_static,
          dm_pricing = pricing_entry_from_override (me_pricing static),
          service_kinds = []\<rparr>)"

definition override_variant ::
  "string \<Rightarrow> model_entry option \<Rightarrow> discovered_model list \<Rightarrow> discovered_model \<Rightarrow> discovered_model" where
  "override_variant i st ds dm =
     (let has_static = st \<noteq> None; static = (case st of None \<Rightarrow> zero_entry | Some e \<Rightarrow> e);
          has_disc = length ds > 0; disc = discovered_first ds
      in \<lparr>dm_id = i, dm_provider = dm_provider dm, dm_format = dm_format dm,
          dm_max_context = first_positive [dm_max_context dm, pick_int has_disc (dm_max_context disc),
             pick_int has_static (me_max_context static)],
          dm_max_output = first_positive [dm_max_output dm, pick_int has_disc (dm_max_output disc),
             pick_int has_static (me_max_output static)],
          owned_by = first_non_empty [owned_by dm, ''nenya''],
          dm_metadata = pick_metadata disc has_disc static has_static,
          dm_pricing = pricing_entry_from_override (me_pricing static),
          service_kinds = []\<rparr>)"

definition merge_with_override ::
  "registry \<Rightarrow> patterns \<Rightarrow> patterns \<Rightarrow> model_catalog \<Rightarrow> string \<Rightarrow> agent_override \<Rightarrow> merge_state \<Rightarrow> merge_state" where
  "merge_with_override reg allows non_chat cat i ov ms =
     (let (merged, d) = ms; st = map_of reg i; ds = lookup_all i cat;
          primary = override_entry i ov st ds
      in if \<not> is_model_allowed allows (dm_provider primary) i then (merged, d)
         else
           let (nc, d) = non_chat_matches non_chat (dm_provider primary) i d in
           if nc then (merged, d)
           else variant_loop (\<lambda>p. p \<noteq> []) (override_variant i st ds) allows non_chat i ds
                  [dm_provider primary] (add_model primary merged, d))"

definition static_entry :: "string \<Rightarrow> model_entry \<Rightarrow> discovered_model list \<Rightarrow> discovered_model" where
  "static_entry i static ds =
     (let has_disc = length ds > 0; disc = discovered_first ds
      in \<lparr>dm_id = i,
          dm_provider = first_non_empty [me_provider static, pick_provider False [] has_disc (dm_provider disc)],
          dm_format = pick_format True (me_format static) has_disc (dm_format disc),
          dm_max_context = first_positive [pick_int has_disc (dm_max_context disc), me_max_context static],
          dm_max_output = first_positive [pick_int has_disc (dm_max_output disc), me_max_output static],
          owned_by = first_non_empty [owned_by disc, ''nenya''],
          dm_metadata = pick_metadata disc has_disc static True,
          dm_pricing = pricing_entry_from_override (me_pricing static),
          service_kinds = []\<rparr>)"

definition static_variant ::
  "string \<Rightarrow> model_entry \<Rightarrow> discovered_model list \<Rightarrow> discovered_model \<Rightarrow> discovered_model" where
  "static_variant i static ds dm =
     (let has_disc = length ds > 0; disc = discovered_first ds
      in \<lparr>dm_id = i, dm_provider = dm_provider dm, dm_format = dm_format dm,
          dm_max_context = first_positive [dm_max_context dm, pick_int has_disc (dm_max_context disc), me_max_context static],
          dm_max_output = first_positive [dm_max_output dm, pick_int has_disc (dm_max_output disc), me_max_output static],
          owned_by = first_non_empty [owned_by dm, ''nenya''],
          dm_metadata = pick_metadata disc has_disc static True,
          dm_pricing = (if dm_pricing dm = None then pricing_entry_from_override (me_pricing static) else dm_pricing dm),
          service_kinds = []\<rparr>)"

definition merge_with_static ::
  "patterns \<Rightarrow> patterns \<Rightarrow> model_catalog \<Rightarrow> string \<Rightarrow> model_entry \<Rightarrow> merge_state \<Rightarrow> merge_state" where
  "merge_with_static allows non_chat cat i static ms =
     (let (merged, d) = ms; ds = lookup_all i cat; primary = static_entry i static ds
      in if \<not> is_model_allowed allows (dm_provider primary) i then (merged, d)
         else
           let (nc, d) = non_chat_matches non_chat (dm_provider primary) i d in
           if nc then (merged, d)
           else variant_loop (\<lambda>p. p \<noteq> []) (static_variant i static ds) allows non_chat i ds
                  [dm_provider primary] (add_model primary merged, d))"

definition merge_model ::
  "registry \<Rightarrow> (string, agent_override) gomap \<Rightarrow> patterns \<Rightarrow> patterns \<Rightarrow> model_catalog \<Rightarrow> string
   \<Rightarrow> merge_state \<Rightarrow> merge_state" where
  "merge_model reg ovs allows non_chat cat i ms = (case map_of ovs i of
     Some ov \<Rightarrow> merge_with_override reg allows non_chat cat i ov ms
   | None \<Rightarrow> (case map_of reg i of
       Some static \<Rightarrow> merge_with_static allows non_chat cat i static ms
     | None \<Rightarrow> variant_loop (\<lambda>p. True) (\<lambda>dm. dm) allows non_chat i (lookup_all i cat) [] ms))"

subsection \<open>The merge\<close>

definition all_model_ids :: "registry \<Rightarrow> model_catalog \<Rightarrow> string list" where
  "all_model_ids reg cat = map fst (fold (\<lambda>m. put (dm_id m) True) (all_models cat)
     (fold (\<lambda>(i, e). put i True) reg []))"

definition merge_catalog_with_drops ::
  "(string \<Rightarrow> regexp option) \<Rightarrow> string list \<Rightarrow> time \<Rightarrow> registry \<Rightarrow> gateway_config \<Rightarrow> model_catalog
   \<Rightarrow> model_catalog \<times> drops" where
  "merge_catalog_with_drops compile ids now reg cfg cat =
     (let ovs = build_agent_overrides cfg;
          allows = build_provider_allows compile (cfg_providers cfg);
          non_chat = build_provider_non_chat compile (cfg_providers cfg);
          (merged, d) = fold (merge_model reg ovs allows non_chat cat) ids (new_model_catalog now, Some [])
      in if d = Some [] then (merged, None) else (merged, d))"

definition merge_catalog ::
  "(string \<Rightarrow> regexp option) \<Rightarrow> string list \<Rightarrow> time \<Rightarrow> registry \<Rightarrow> gateway_config \<Rightarrow> model_catalog \<Rightarrow> model_catalog" where
  "merge_catalog compile ids now reg cfg cat = fst (merge_catalog_with_drops compile ids now reg cfg cat)"

text \<open>Dropping the non-chat models of a catalog built without the filter; nil catalogs stay nil.\<close>

definition apply_provider_non_chat_to_catalog ::
  "(string \<Rightarrow> regexp option) \<Rightarrow> (string, provider_config) gomap \<Rightarrow> model_catalog option \<Rightarrow> drops \<times> model_catalog option" where
  "apply_provider_non_chat_to_catalog compile ps cat = (case cat of None \<Rightarrow> (None, None) | Some c \<Rightarrow>
     (if ps = [] then (None, Some c)
      else
        let non_chat = build_provider_non_chat compile ps in
        if non_chat = [] then (None, Some c)
        else
          let d = fold (\<lambda>m d. snd (non_chat_matches non_chat (dm_provider m) (dm_id m) d)) (all_models c) (Some []);
              c = remove_models (\<lambda>m. is_non_chat non_chat (dm_provider m) (dm_id m)) c
          in if d = Some [] then (None, Some c) else (d, Some c)))"

subsection \<open>The merge as a specification\<close>

definition admitted :: "patterns \<Rightarrow> patterns \<Rightarrow> string \<Rightarrow> string \<Rightarrow> bool" where
  "admitted allows non_chat p i \<longleftrightarrow> is_model_allowed allows p i \<and> \<not> is_non_chat non_chat p i"

text \<open>The first entry of each provider, apart from providers already seen.\<close>

fun first_each :: "string set \<Rightarrow> discovered_model list \<Rightarrow> discovered_model list" where
  "first_each S [] = []"
| "first_each S (m # ms) =
     (if dm_provider m \<in> S then first_each S ms else m # first_each (insert (dm_provider m) S) ms)"

definition primary_with ::
  "patterns \<Rightarrow> patterns \<Rightarrow> string \<Rightarrow> discovered_model list \<Rightarrow> discovered_model
   \<Rightarrow> (discovered_model \<Rightarrow> discovered_model) \<Rightarrow> discovered_model list" where
  "primary_with allows non_chat i ds primary build =
     (if admitted allows non_chat (dm_provider primary) i
      then primary # map build (first_each {dm_provider primary}
             (filter (\<lambda>m. dm_provider m \<noteq> [] \<and> admitted allows non_chat (dm_provider m) i) ds))
      else [])"

definition merged_entries ::
  "registry \<Rightarrow> (string, agent_override) gomap \<Rightarrow> patterns \<Rightarrow> patterns \<Rightarrow> string
   \<Rightarrow> discovered_model list \<Rightarrow> discovered_model list" where
  "merged_entries reg ovs allows non_chat i ds = (case map_of ovs i of
     Some ov \<Rightarrow> primary_with allows non_chat i ds (override_entry i ov (map_of reg i) ds)
                  (override_variant i (map_of reg i) ds)
   | None \<Rightarrow> (case map_of reg i of
       Some static \<Rightarrow> primary_with allows non_chat i ds (static_entry i static ds) (static_variant i static ds)
     | None \<Rightarrow> first_each {} (filter (\<lambda>m. admitted allows non_chat (dm_provider m) i) ds)))"

lemma lookup_all_add_model: "lookup_all i (add_model m c) =
    (if dm_id m = i then lookup_all i c @ [m] else lookup_all i c)"
  by (auto simp: lookup_all_def add_model_models map_of_put get_or_def split: option.split)

lemma lookup_all_add_models:
  "lookup_all i (fold add_model ms c) = lookup_all i c @ filter (\<lambda>m. dm_id m = i) ms"
  by (induction ms arbitrary: c) (simp_all add: lookup_all_add_model)

lemma variant_loop_adds:
  "fst (variant_loop ok build allows non_chat i dms seen st) =
     fold add_model (map build (first_each (set seen)
       (filter (\<lambda>m. ok (dm_provider m) \<and> admitted allows non_chat (dm_provider m) i) dms))) (fst st)"
proof (induction dms arbitrary: seen st)
  case (Cons dm dms)
  obtain merged d where st: "st = (merged, d)" by force
  show ?case
    by (simp add: st Cons.IH non_chat_matches_def admitted_def)
qed simp

lemma override_ids [simp]:
  "dm_id (override_entry i ov st ds) = i" "dm_id (override_variant i st ds dm) = i"
  "dm_provider (override_variant i st ds dm) = dm_provider dm"
  by (simp_all add: override_entry_def override_variant_def Let_def)

lemma static_ids [simp]:
  "dm_id (static_entry i e ds) = i" "dm_id (static_variant i e ds dm) = i"
  "dm_provider (static_variant i e ds dm) = dm_provider dm"
  by (simp_all add: static_entry_def static_variant_def Let_def)

lemma merge_model_adds: "fst (merge_model reg ovs allows non_chat cat i ms) =
    fold add_model (merged_entries reg ovs allows non_chat i (lookup_all i cat)) (fst ms)"
proof (cases "map_of ovs i")
  case (Some ov)
  then show ?thesis
    unfolding merge_model_def merged_entries_def
    by (cases ms) (auto simp: merge_with_override_def Let_def split_beta primary_with_def admitted_def
        non_chat_matches_def variant_loop_adds)
next
  case None
  show ?thesis
  proof (cases "map_of reg i")
    case (Some static)
    with None show ?thesis
      unfolding merge_model_def merged_entries_def
      by (cases ms) (auto simp: merge_with_static_def Let_def split_beta primary_with_def admitted_def
          non_chat_matches_def variant_loop_adds)
  next
    case none: None
    with None show ?thesis
      unfolding merge_model_def merged_entries_def by (simp add: variant_loop_adds)
  qed
qed

lemma set_first_each: "set (first_each S ms) \<subseteq> set ms"
  by (induction ms arbitrary: S) auto

lemma first_each_providers:
  "distinct (map dm_provider (first_each S ms)) \<and> dm_provider ` set (first_each S ms) \<inter> S = {}"
proof (induction ms arbitrary: S)
  case (Cons m ms)
  from Cons.IH [of "insert (dm_provider m) S"] Cons.IH [of S] show ?case by auto
qed simp

lemma primary_with_ids:
  "m \<in> set (primary_with allows non_chat i ds primary build) \<Longrightarrow> dm_id primary = i \<Longrightarrow>
     (\<And>dm. dm_id (build dm) = i) \<Longrightarrow> dm_id m = i"
  by (auto simp: primary_with_def split: if_splits)

lemma merged_entries_ids:
  assumes "m \<in> set (merged_entries reg ovs allows non_chat i (lookup_all i cat))" and "cat_ok cat"
  shows "dm_id m = i"
proof (cases "map_of ovs i")
  case (Some ov)
  with assms(1) show ?thesis by (auto simp: merged_entries_def dest: primary_with_ids)
next
  case None
  show ?thesis
  proof (cases "map_of reg i")
    case (Some st)
    with None assms(1) show ?thesis by (auto simp: merged_entries_def dest: primary_with_ids)
  next
    case none: None
    then have "m \<in> set (lookup_all i cat)"
      using None assms(1) set_first_each by (fastforce simp: merged_entries_def)
    then show ?thesis using set_lookup_all [OF assms(2)] by simp
  qed
qed

lemma merge_fold_lookup:
  assumes "cat_ok cat" and "distinct ids"
  shows "lookup_all i (fst (fold (merge_model reg ovs allows non_chat cat) ids ms)) =
    lookup_all i (fst ms) @ (if i \<in> set ids then merged_entries reg ovs allows non_chat i (lookup_all i cat) else [])"
  using assms(2)
proof (induction ids arbitrary: ms)
  case (Cons j ids)
  have "filter (\<lambda>m. dm_id m = i) (merged_entries reg ovs allows non_chat j (lookup_all j cat)) =
      (if j = i then merged_entries reg ovs allows non_chat j (lookup_all j cat) else [])"
    using merged_entries_ids [OF _ assms(1)] by (auto simp: filter_id_conv filter_empty_conv)
  then show ?case
    using Cons by (auto simp: merge_model_adds lookup_all_add_models)
qed simp

lemma keys_fold_put: "fst ` set (fold (\<lambda>x. put (f x) v) xs m) = fst ` set m \<union> f ` set xs"
  by (induction xs arbitrary: m) (auto simp: keys_put)

lemma gomap_ok_fold_put: "gomap_ok m \<Longrightarrow> gomap_ok (fold (\<lambda>x. put (f x) v) xs m)"
  by (induction xs arbitrary: m) simp_all

lemma set_all_model_ids: "set (all_model_ids reg cat) = fst ` set reg \<union> dm_id ` set (all_models cat)"
  by (simp add: all_model_ids_def case_prod_unfold keys_fold_put)

lemma distinct_all_model_ids: "distinct (all_model_ids reg cat)"
  by (simp add: all_model_ids_def case_prod_unfold gomap_ok_fold_put)

lemma merge_lookup:
  assumes "cat_ok cat" and "mset ids = mset (all_model_ids reg cat)"
  shows "lookup_all i (merge_catalog compile ids now reg cfg cat) =
    (if map_of reg i = None \<and> lookup_all i cat = [] then []
     else merged_entries reg (build_agent_overrides cfg) (build_provider_allows compile (cfg_providers cfg))
            (build_provider_non_chat compile (cfg_providers cfg)) i (lookup_all i cat))"
proof -
  have ids: "distinct ids" "set ids = set (all_model_ids reg cat)"
    using mset_eq_imp_distinct_iff [OF assms(2)] distinct_all_model_ids mset_eq_setD [OF assms(2)] by simp_all
  have mem: "i \<in> set ids \<longleftrightarrow> map_of reg i \<noteq> None \<or> lookup_all i cat \<noteq> []"
  proof -
    have "lookup_all i cat \<noteq> [] \<longleftrightarrow> i \<in> dm_id ` set (all_models cat)"
      unfolding set_empty [symmetric] set_lookup_all [OF assms(1)] by auto
    then show ?thesis unfolding ids(2) set_all_model_ids by (auto simp: map_of_eq_None_iff)
  qed
  have empty: "lookup_all i (new_model_catalog now) = []"
    by (simp add: lookup_all_def new_model_catalog_def)
  show ?thesis
    unfolding merge_catalog_def merge_catalog_with_drops_def
    using merge_fold_lookup [OF assms(1) ids(1), of i] mem
    by (auto simp: Let_def split_beta empty)
qed

text \<open>
  C17: the merged catalog, model by model. Whatever was added to, removed from or repriced in the
  discovered catalog, and in whatever order the identifiers are visited, the entries of a model
  are those of the specification: for a model with an override or a registry entry, the primary
  entry followed by one entry per further admitted provider, in discovery order, and nothing at
  all when the primary provider is not admitted; otherwise the first discovered entry of each
  admitted provider. One model never affects another.
\<close>

theorem merge_follows_specification:
  assumes "mset ids = mset (all_model_ids reg (run_ops cat_step (new_model_catalog t0) ops))"
  shows "lookup_all i (merge_catalog compile ids now reg cfg (run_ops cat_step (new_model_catalog t0) ops)) =
    (let ds = lookup_all i (run_ops cat_step (new_model_catalog t0) ops) in
     if map_of reg i = None \<and> ds = [] then []
     else merged_entries reg (build_agent_overrides cfg) (build_provider_allows compile (cfg_providers cfg))
            (build_provider_non_chat compile (cfg_providers cfg)) i ds)"
  unfolding Let_def by (rule merge_lookup [OF catm.run_inv [OF cat_ok_new] assms])

subsection \<open>What the filters guarantee\<close>

lemma merged_entries_admitted:
  "m \<in> set (merged_entries reg ovs allows non_chat i ds) \<Longrightarrow> admitted allows non_chat (dm_provider m) i"
proof -
  have keep: "m \<in> set (first_each S ms) \<Longrightarrow> m \<in> set ms" for m S ms using set_first_each by blast
  have prim: "admitted allows non_chat (dm_provider m) i"
    if "m \<in> set (primary_with allows non_chat i ds primary build)" "\<And>dm. dm_provider (build dm) = dm_provider dm"
    for m primary build
    using that by (auto simp: primary_with_def split: if_splits dest!: keep)
  assume "m \<in> set (merged_entries reg ovs allows non_chat i ds)"
  then show ?thesis
    by (auto simp: merged_entries_def split: option.splits dest!: prim keep)
qed

lemma merged_entries_distinct: "distinct (map dm_provider (merged_entries reg ovs allows non_chat i ds))"
proof -
  have prim: "distinct (map dm_provider (primary_with allows non_chat i ds primary build))"
    if "\<And>dm. dm_provider (build dm) = dm_provider dm" for primary build
  proof -
    let ?vs = "first_each {dm_provider primary}
      (filter (\<lambda>m. dm_provider m \<noteq> [] \<and> admitted allows non_chat (dm_provider m) i) ds)"
    have "map dm_provider (map build ?vs) = map dm_provider ?vs" using that by simp
    then show ?thesis
      using first_each_providers [of "{dm_provider primary}"]
      unfolding primary_with_def by (simp del: map_map)
  qed
  show ?thesis
    using first_each_providers by (simp add: merged_entries_def prim split: option.split)
qed

definition drops_ok :: "patterns \<Rightarrow> patterns \<Rightarrow> (string, string list) gomap \<Rightarrow> bool" where
  "drops_ok allows non_chat d \<longleftrightarrow> all_entries (\<lambda>p is. is \<noteq> [] \<and> sorted is \<and> distinct is
     \<and> (\<forall>i \<in> set is. is_model_allowed allows p i \<and> is_non_chat non_chat p i)) d"

definition state_drops_ok :: "patterns \<Rightarrow> patterns \<Rightarrow> merge_state \<Rightarrow> bool" where
  "state_drops_ok allows non_chat st \<longleftrightarrow> (\<exists>d. snd st = Some d \<and> drops_ok allows non_chat d)"

lemma record_drop_ok:
  assumes "drops_ok allows non_chat d" "is_model_allowed allows p i" "is_non_chat non_chat p i"
  shows "\<exists>d'. record_drop p i (Some d) = Some d' \<and> drops_ok allows non_chat d'"
proof (cases "i \<in> set (get_or [] d p)")
  case False
  have "get_or [] d p = [] \<or> map_of d p = Some (get_or [] d p)"
    by (simp add: get_or_def split: option.split)
  then have "distinct (get_or [] d p)"
    "\<forall>j \<in> set (get_or [] d p). is_model_allowed allows p j \<and> is_non_chat non_chat p j"
    using assms(1) by (auto simp: drops_ok_def dest: all_entriesD)
  then have "drops_ok allows non_chat (put p (sort (get_or [] d p @ [i])) d)"
    using assms False unfolding drops_ok_def
    by (intro all_entries_put) (auto simp: set_empty [symmetric] simp del: set_empty)
  with False show ?thesis by (simp add: record_drop_def)
qed (use assms(1) in \<open>simp add: record_drop_def\<close>)

lemma non_chat_matches_ok:
  assumes "drops_ok allows non_chat d" and "is_model_allowed allows p i"
  shows "\<exists>d'. snd (non_chat_matches non_chat p i (Some d)) = Some d' \<and> drops_ok allows non_chat d'"
  using assms record_drop_ok by (simp add: non_chat_matches_def)

lemma variant_loop_drops_ok:
  "state_drops_ok allows non_chat st \<Longrightarrow>
     state_drops_ok allows non_chat (variant_loop ok build allows non_chat i dms seen st)"
proof (induction dms arbitrary: seen st)
  case (Cons dm dms)
  obtain merged d where st: "st = (merged, Some d)" "drops_ok allows non_chat d"
    using Cons.prems by (cases st) (auto simp: state_drops_ok_def)
  have rest: "state_drops_ok allows non_chat (variant_loop ok build allows non_chat i dms sn (c, Some d'))"
    if "drops_ok allows non_chat d'" for sn c d'
    by (rule Cons.IH) (use that in \<open>simp add: state_drops_ok_def\<close>)
  show ?case
  proof (cases "ok (dm_provider dm) \<and> dm_provider dm \<notin> set seen \<and> is_model_allowed allows (dm_provider dm) i")
    case True
    then obtain d' where d': "snd (non_chat_matches non_chat (dm_provider dm) i (Some d)) = Some d'"
        "drops_ok allows non_chat d'"
      using non_chat_matches_ok [OF st(2)] by blast
    obtain nc where "non_chat_matches non_chat (dm_provider dm) i (Some d) = (nc, Some d')"
      using d'(1) by (metis prod.collapse)
    with True d'(2) show ?thesis unfolding st(1) by (simp add: rest)
  next
    case False
    then have "\<not> ok (dm_provider dm) \<or> dm_provider dm \<in> set seen \<or> \<not> is_model_allowed allows (dm_provider dm) i"
      by blast
    then show ?thesis unfolding st(1) by (auto simp: rest [OF st(2)])
  qed
qed simp

lemma merge_model_drops_ok:
  assumes "state_drops_ok allows non_chat ms"
  shows "state_drops_ok allows non_chat (merge_model reg ovs allows non_chat cat i ms)"
proof -
  obtain merged d where ms: "ms = (merged, Some d)" "drops_ok allows non_chat d"
    using assms by (cases ms) (auto simp: state_drops_ok_def)
  have guard: "state_drops_ok allows non_chat (if \<not> is_model_allowed allows p i then (merged, Some d)
      else if fst (non_chat_matches non_chat p i (Some d)) then (merged, snd (non_chat_matches non_chat p i (Some d)))
      else variant_loop ok build allows non_chat i ds seen (c, snd (non_chat_matches non_chat p i (Some d))))"
    for p ok build ds seen c
  proof (cases "is_model_allowed allows p i")
    case True
    then obtain d' where d': "snd (non_chat_matches non_chat p i (Some d)) = Some d'" "drops_ok allows non_chat d'"
      using non_chat_matches_ok [OF ms(2)] by blast
    then have "state_drops_ok allows non_chat (x, Some d')" for x by (simp add: state_drops_ok_def)
    then show ?thesis using True d'(1) by (simp add: variant_loop_drops_ok)
  qed (simp add: state_drops_ok_def ms(2))
  show ?thesis
  proof (cases "map_of ovs i")
    case (Some ov)
    then show ?thesis
      by (simp add: merge_model_def merge_with_override_def ms(1) Let_def split_beta guard cong: if_cong split del: if_split)
  next
    case None
    show ?thesis
    proof (cases "map_of reg i")
      case (Some st)
      with None show ?thesis
        by (simp add: merge_model_def merge_with_static_def ms(1) Let_def split_beta guard cong: if_cong split del: if_split)
    next
      case none: None
      with None show ?thesis using assms by (simp add: merge_model_def variant_loop_drops_ok)
    qed
  qed
qed

lemma merge_fold_drops_ok:
  "state_drops_ok allows non_chat ms \<Longrightarrow>
     state_drops_ok allows non_chat (fold (merge_model reg ovs allows non_chat cat) ids ms)"
  by (induction ids arbitrary: ms) (simp_all add: merge_model_drops_ok)

lemma merge_fold_cat_ok:
  "cat_ok (fst ms) \<Longrightarrow> cat_ok (fst (fold (merge_model reg ovs allows non_chat cat) ids ms))"
proof (induction ids arbitrary: ms)
  case (Cons i ids)
  have "cat_ok c \<Longrightarrow> cat_ok (fold add_model xs c)" for xs c
    by (induction xs arbitrary: c) (simp_all add: cat_ok_add)
  with Cons show ?case by (simp add: merge_model_adds)
qed simp

lemma merge_catalog_ok: "cat_ok (merge_catalog compile ids now reg cfg cat)"
  unfolding merge_catalog_def merge_catalog_with_drops_def
  using merge_fold_cat_ok [of "(new_model_catalog now, Some [])"] cat_ok_new
  by (simp add: Let_def split_beta)

text \<open>
  What the merge promises of the filters. Every entry of the merged catalog is for a model its
  provider allows and does not class as non-chat; a model has at most one entry per provider; and
  the drop report lists, sorted and without repetition, only models that the provider allows and
  classes as non-chat, so nothing reported is served and a pair that allowed_models refuses is
  never reported.
\<close>

theorem merge_admits_each_pair_once:
  assumes "mset ids = mset (all_model_ids reg (run_ops cat_step (new_model_catalog t0) ops))"
  shows "let cat = run_ops cat_step (new_model_catalog t0) ops;
      allows = build_provider_allows compile (cfg_providers cfg);
      non_chat = build_provider_non_chat compile (cfg_providers cfg);
      (merged, d) = merge_catalog_with_drops compile ids now reg cfg cat
    in (\<forall>m \<in> set (all_models merged). is_model_allowed allows (dm_provider m) (dm_id m)
          \<and> \<not> is_non_chat non_chat (dm_provider m) (dm_id m))
      \<and> (\<forall>i. distinct (map dm_provider (lookup_all i merged)))
      \<and> (case d of None \<Rightarrow> True | Some d \<Rightarrow> d \<noteq> [] \<and> drops_ok allows non_chat d)"
proof -
  define cat where "cat = run_ops cat_step (new_model_catalog t0) ops"
  define allows where "allows = build_provider_allows compile (cfg_providers cfg)"
  define non_chat where "non_chat = build_provider_non_chat compile (cfg_providers cfg)"
  define merged where "merged = merge_catalog compile ids now reg cfg cat"
  define d where "d = snd (merge_catalog_with_drops compile ids now reg cfg cat)"
  have ok: "cat_ok cat" unfolding cat_def by (rule catm.run_inv [OF cat_ok_new])
  note look = merge_lookup [OF ok assms [folded cat_def], of _ compile now cfg, folded merged_def allows_def non_chat_def]
  have "is_model_allowed allows (dm_provider m) (dm_id m) \<and> \<not> is_non_chat non_chat (dm_provider m) (dm_id m)"
    if "m \<in> set (all_models merged)" for m
  proof -
    have "m \<in> set (lookup_all (dm_id m) merged)"
      using that set_lookup_all [OF merge_catalog_ok, of "dm_id m"] by (simp add: merged_def)
    then show ?thesis unfolding look by (auto split: if_splits simp: admitted_def dest!: merged_entries_admitted)
  qed
  moreover have "distinct (map dm_provider (lookup_all i merged))" for i
    unfolding look by (simp add: merged_entries_distinct)
  moreover have "case d of None \<Rightarrow> True | Some d \<Rightarrow> d \<noteq> [] \<and> drops_ok allows non_chat d"
    using merge_fold_drops_ok [of allows non_chat "(new_model_catalog now, Some [])" reg "build_agent_overrides cfg" cat ids]
    by (auto simp: d_def merge_catalog_with_drops_def Let_def split_beta state_drops_ok_def drops_ok_def
        allows_def [symmetric] non_chat_def [symmetric])
  ultimately show ?thesis
    unfolding Let_def cat_def [symmetric] allows_def [symmetric] non_chat_def [symmetric]
    by (simp add: split_beta merged_def d_def merge_catalog_def)
qed

subsection \<open>A registry entry over the discovered ones\<close>

text \<open>
  A model that the static registry knows, without an agent override and with at least one
  discovered entry. The registry's provider and format win over the discovered ones, the
  discovered context window over the registry's. If the registry's provider does not admit the
  model, the merged catalog has no entry for it at all, whichever other providers serve it.
\<close>

theorem registry_entry_decides:
  assumes "mset ids = mset (all_model_ids reg (run_ops cat_step (new_model_catalog t0) ops))"
    and "map_of (build_agent_overrides cfg) i = None" and "map_of reg i = Some static"
    and "me_provider static \<noteq> []"
    and "lookup_all i (run_ops cat_step (new_model_catalog t0) ops) = d # ds"
  shows "let merged = merge_catalog compile ids now reg cfg (run_ops cat_step (new_model_catalog t0) ops) in
    if admitted (build_provider_allows compile (cfg_providers cfg))
         (build_provider_non_chat compile (cfg_providers cfg)) (me_provider static) i
    then \<exists>e. cat_lookup i merged = Some e \<and> dm_provider e = me_provider static
       \<and> dm_format e = (if me_format static = [] then dm_format d else me_format static)
       \<and> dm_max_context e = first_positive [dm_max_context d, me_max_context static]
    else lookup_all i merged = []"
proof -
  define merged where "merged = merge_catalog compile ids now reg cfg (run_ops cat_step (new_model_catalog t0) ops)"
  have ok: "cat_ok (run_ops cat_step (new_model_catalog t0) ops)" by (rule catm.run_inv [OF cat_ok_new])
  have look: "lookup_all i merged = primary_with (build_provider_allows compile (cfg_providers cfg))
      (build_provider_non_chat compile (cfg_providers cfg)) i (d # ds) (static_entry i static (d # ds))
      (static_variant i static (d # ds))"
    using merge_lookup [OF ok assms(1), of i compile now cfg] assms(2,3,5)
    by (simp add: merged_def merged_entries_def)
  have prov: "dm_provider (static_entry i static (d # ds)) = me_provider static"
    using assms(4) by (simp add: static_entry_def Let_def)
  have first: "cat_lookup i merged = Some (static_entry i static (d # ds))"
    if "lookup_all i merged = static_entry i static (d # ds) # es" for es
    using that by (auto simp: cat_lookup_def lookup_all_def split: option.splits)
  have fields: "dm_format (static_entry i static (d # ds)) = (if me_format static = [] then dm_format d else me_format static)"
    "dm_max_context (static_entry i static (d # ds)) = first_positive [dm_max_context d, me_max_context static]"
    by (simp_all add: static_entry_def pick_format_def pick_int_def discovered_first_def Let_def)
  show ?thesis
  proof (cases "admitted (build_provider_allows compile (cfg_providers cfg))
      (build_provider_non_chat compile (cfg_providers cfg)) (me_provider static) i")
    case True
    with look have "cat_lookup i merged = Some (static_entry i static (d # ds))"
      by (intro first) (simp add: primary_with_def prov)
    with True prov fields show ?thesis by (simp add: merged_def [symmetric] Let_def del: first_positive.simps)
  next
    case False
    with look show ?thesis by (simp add: merged_def [symmetric] primary_with_def prov Let_def)
  qed
qed

text \<open>A registry model of provider \<open>a\<close>, whose allowlist refuses it, that provider \<open>b\<close> also serves.\<close>

definition ex_registry :: registry where
  "ex_registry = [(''m'', zero_entry\<lparr>me_provider := ''a'', me_max_context := 8\<rparr>)]"

definition ex_config :: gateway_config where
  "ex_config = \<lparr>cfg_agents = [],
     cfg_providers = [(''a'', \<lparr>pc_allowed_models = [''x''], pc_non_chat_models = []\<rparr>),
                      (''b'', \<lparr>pc_allowed_models = [], pc_non_chat_models = [''j'']\<rparr>)]\<rparr>"

definition ex_ops :: "cat_op list" where
  "ex_ops = [Add_model (served_by ''b'' None), Add_model (served_by ''b'' None\<lparr>dm_id := ''j''\<rparr>)]"

definition ex_compile :: "string \<Rightarrow> regexp option" where
  "ex_compile pat = Some (\<lambda>s. s = pat)"

lemmas ex_defs = ex_registry_def ex_config_def ex_ops_def ex_compile_def

lemma ex_ids: "mset [''m'', ''j''] = mset (all_model_ids ex_registry (run_ops cat_step (new_model_catalog 0) ex_ops))"
  unfolding ex_defs by code_simp

lemma ex_override: "map_of (build_agent_overrides ex_config) ''m'' = None"
  unfolding ex_defs by code_simp

lemma ex_static: "map_of ex_registry ''m'' = Some (zero_entry\<lparr>me_provider := ''a'', me_max_context := 8\<rparr>)"
  unfolding ex_defs by code_simp

lemma ex_lookup: "lookup_all ''m'' (run_ops cat_step (new_model_catalog 0) ex_ops) = [served_by ''b'' None]"
  unfolding ex_defs by code_simp

theorem registry_entry_decides_witness:
  "lookup_all ''m'' (merge_catalog ex_compile [''m'', ''j''] 0 ex_registry ex_config
     (run_ops cat_step (new_model_catalog 0) ex_ops)) = []"
proof -
  have "me_provider (zero_entry\<lparr>me_provider := ''a'', me_max_context := 8\<rparr>) \<noteq> []" by code_simp
  note r = registry_entry_decides [OF ex_ids ex_override ex_static this ex_lookup, where compile = ex_compile and now = 0]
  have "\<not> admitted (build_provider_allows ex_compile (cfg_providers ex_config))
      (build_provider_non_chat ex_compile (cfg_providers ex_config))
      (me_provider (zero_entry\<lparr>me_provider := ''a'', me_max_context := 8\<rparr>)) ''m''"
    by code_simp
  with r show ?thesis by (simp add: Let_def)
qed

theorem merge_follows_specification_witness:
  "lookup_all ''m'' (merge_catalog ex_compile [''m'', ''j''] 0 ex_registry
       (ex_config\<lparr>cfg_providers := tl (cfg_providers ex_config)\<rparr>)
       (run_ops cat_step (new_model_catalog 0) ex_ops))
   = [static_entry ''m'' (zero_entry\<lparr>me_provider := ''a'', me_max_context := 8\<rparr>) [served_by ''b'' None],
      static_variant ''m'' (zero_entry\<lparr>me_provider := ''a'', me_max_context := 8\<rparr>) [served_by ''b'' None]
        (served_by ''b'' None)]"
proof -
  have "merged_entries ex_registry (build_agent_overrides (ex_config\<lparr>cfg_providers := tl (cfg_providers ex_config)\<rparr>))
      (build_provider_allows ex_compile (cfg_providers (ex_config\<lparr>cfg_providers := tl (cfg_providers ex_config)\<rparr>)))
      (build_provider_non_chat ex_compile (cfg_providers (ex_config\<lparr>cfg_providers := tl (cfg_providers ex_config)\<rparr>)))
      ''m'' [served_by ''b'' None]
    = [static_entry ''m'' (zero_entry\<lparr>me_provider := ''a'', me_max_context := 8\<rparr>) [served_by ''b'' None],
      static_variant ''m'' (zero_entry\<lparr>me_provider := ''a'', me_max_context := 8\<rparr>) [served_by ''b'' None]
        (served_by ''b'' None)]"
    by code_simp
  then show ?thesis
    using merge_follows_specification [OF ex_ids, of "''m''" ex_compile 0
        "ex_config\<lparr>cfg_providers := tl (cfg_providers ex_config)\<rparr>"]
    by (simp add: Let_def ex_lookup)
qed

theorem merge_admits_each_pair_once_witness:
  "let (merged, d) = merge_catalog_with_drops ex_compile [''m'', ''j''] 0 ex_registry ex_config
       (run_ops cat_step (new_model_catalog 0) ex_ops)
   in d = Some [(''b'', [''j''])] \<and> all_models merged = []
      \<and> drops_ok (build_provider_allows ex_compile (cfg_providers ex_config))
           (build_provider_non_chat ex_compile (cfg_providers ex_config)) (the d)"
proof -
  obtain merged d where m: "merge_catalog_with_drops ex_compile [''m'', ''j''] 0 ex_registry ex_config
      (run_ops cat_step (new_model_catalog 0) ex_ops) = (merged, d)" by force
  have "snd (merge_catalog_with_drops ex_compile [''m'', ''j''] 0 ex_registry ex_config
      (run_ops cat_step (new_model_catalog 0) ex_ops)) = Some [(''b'', [''j''])]" by code_simp
  moreover have "all_models (fst (merge_catalog_with_drops ex_compile [''m'', ''j''] 0 ex_registry ex_config
      (run_ops cat_step (new_model_catalog 0) ex_ops))) = []" by code_simp
  ultimately show ?thesis
    using merge_admits_each_pair_once [OF ex_ids, of ex_compile ex_config 0] by (simp add: m Let_def)
qed

end
