(* ===== verification/Resolver.thy ===== *)
theory Resolver
  imports Catalog
begin

text \<open>
  Model resolution: internal/routing/resolver.go and the resolve functions of
  internal/routing/targets.go. Every question about a model (its providers, its limits, its
  capabilities, its price) is asked of the agent's entry, then of the discovery catalog, then of
  the static registry.

  The catalog pointer may be nil (\<open>None\<close>); the registry is an argument.
\<close>

subsection \<open>Providers of a model\<close>

record provider_match =
  pm_provider :: string
  pm_model :: string
  pm_format :: string
  pm_max_context :: int
  pm_max_output :: int

definition opaque_model_id :: "string \<Rightarrow> bool" where
  "opaque_model_id i \<longleftrightarrow> list_ex (\<lambda>c. c \<in> {CHR ''/'', CHR '':'', CHR ''.''}) i"

definition resolve_from_catalog :: "string \<Rightarrow> providers \<Rightarrow> model_catalog \<Rightarrow> provider_match list" where
  "resolve_from_catalog i ps cat = List.map_filter (\<lambda>e. case map_of ps (dm_provider e) of
       None \<Rightarrow> None
     | Some p \<Rightarrow> (if pv_api_key p = [] \<and> auth_style p \<noteq> auth_style_none then None
         else Some \<lparr>pm_provider = dm_provider e, pm_model = i, pm_format = dm_format e,
                pm_max_context = dm_max_context e, pm_max_output = dm_max_output e\<rparr>))
     (lookup_all i cat)"

definition resolve_from_registry :: "registry \<Rightarrow> string \<Rightarrow> providers \<Rightarrow> provider_match list" where
  "resolve_from_registry reg i ps =
     (let key = (if \<not> opaque_model_id i then to_lower i else i) in
      case map_of reg key of None \<Rightarrow> []
      | Some e \<Rightarrow> (case map_of ps (me_provider e) of None \<Rightarrow> []
         | Some p \<Rightarrow> (if pv_api_key p = [] \<and> auth_style p \<noteq> auth_style_none then []
             else if \<not> allows_model p i then []
             else [\<lparr>pm_provider = pv_name p, pm_model = i, pm_format = me_format e,
                    pm_max_context = me_max_context e, pm_max_output = me_max_output e\<rparr>])))"

definition resolve_providers ::
  "registry \<Rightarrow> string \<Rightarrow> providers option \<Rightarrow> model_catalog option \<Rightarrow> provider_match list" where
  "resolve_providers reg i ps cat = (case ps of None \<Rightarrow> [] | Some ps \<Rightarrow>
     (let found = (case cat of None \<Rightarrow> [] | Some c \<Rightarrow> resolve_from_catalog i ps c) in
      if length found > 0 then found else resolve_from_registry reg i ps))"

definition resolve_provider ::
  "registry \<Rightarrow> string \<Rightarrow> providers option \<Rightarrow> model_catalog option \<Rightarrow> provider option" where
  "resolve_provider reg i ps cat =
     (let ms = resolve_providers reg i ps cat in
      if length ms = 0 then None
      else case ps of None \<Rightarrow> None | Some ps \<Rightarrow> map_of ps (pm_provider (ms ! 0)))"

definition determine_upstream :: "registry \<Rightarrow> string \<Rightarrow> providers option \<Rightarrow> string" where
  "determine_upstream reg i ps = (case resolve_provider reg i ps None of None \<Rightarrow> [] | Some p \<Rightarrow> pv_url p)"

definition provider_url ::
  "string \<Rightarrow> string \<Rightarrow> string \<Rightarrow> (string, string) gomap \<Rightarrow> providers \<Rightarrow> string" where
  "provider_url p agent_url fmt urls ps =
     (if agent_url \<noteq> [] then agent_url
      else case (if fmt \<noteq> [] then map_of urls fmt else None) of
        Some u \<Rightarrow> u
      | None \<Rightarrow> (case map_of ps p of Some p \<Rightarrow> pv_url p | None \<Rightarrow> []))"

definition registry_limits_key :: "string \<Rightarrow> string" where
  "registry_limits_key i = (if opaque_model_id i then i else to_lower i)"

definition resolve_model_limits :: "registry \<Rightarrow> string \<Rightarrow> model_catalog option \<Rightarrow> int \<times> int" where
  "resolve_model_limits reg i cat =
     (let entries = (case cat of None \<Rightarrow> [] | Some c \<Rightarrow> lookup_all i c) in
      if length entries > 0 then (dm_max_context (entries ! 0), dm_max_output (entries ! 0))
      else case map_of reg (registry_limits_key i) of
        Some e \<Rightarrow> (me_max_context e, me_max_output e) | None \<Rightarrow> (0, 0))"

subsection \<open>Limits, format and capabilities of an agent's model\<close>

definition opt_lookup :: "model_catalog option \<Rightarrow> string \<Rightarrow> discovered_model option" where
  "opt_lookup cat i = (case cat of None \<Rightarrow> None | Some c \<Rightarrow> cat_lookup i c)"

definition resolve_model_int_field ::
  "registry \<Rightarrow> agent_model \<Rightarrow> model_catalog option \<Rightarrow> (agent_model \<Rightarrow> int) \<Rightarrow> (discovered_model \<Rightarrow> int)
   \<Rightarrow> (model_entry \<Rightarrow> int) \<Rightarrow> int" where
  "resolve_model_int_field reg m cat get_agent get_catalog get_registry =
     (if get_agent m > 0 then get_agent m
      else case opt_lookup cat (am_model m) of
        Some dm \<Rightarrow> (if get_catalog dm > 0 then get_catalog dm
          else (case map_of reg (am_model m) of
             Some e \<Rightarrow> if get_registry e > 0 then get_registry e else 0 | None \<Rightarrow> 0))
      | None \<Rightarrow> (case map_of reg (am_model m) of
             Some e \<Rightarrow> if get_registry e > 0 then get_registry e else 0 | None \<Rightarrow> 0))"

definition resolve_max_context :: "registry \<Rightarrow> agent_model \<Rightarrow> model_catalog option \<Rightarrow> int" where
  "resolve_max_context reg m cat = resolve_model_int_field reg m cat am_max_context dm_max_context me_max_context"

definition resolve_max_output :: "registry \<Rightarrow> agent_model \<Rightarrow> model_catalog option \<Rightarrow> int" where
  "resolve_max_output reg m cat = resolve_model_int_field reg m cat am_max_output dm_max_output me_max_output"

definition resolve_target_format ::
  "registry \<Rightarrow> string \<Rightarrow> agent_model option \<Rightarrow> model_catalog option \<Rightarrow> string" where
  "resolve_target_format reg i m cat =
     (let rest = (case opt_lookup cat i of
            Some dm \<Rightarrow> dm_format dm
          | None \<Rightarrow> (case map_of reg i of
               Some e \<Rightarrow> me_format e
             | None \<Rightarrow> if cat \<noteq> None \<and> i \<noteq> [] then infer_format i else []))
      in case m of None \<Rightarrow> rest | Some m \<Rightarrow> if am_format m \<noteq> [] then am_format m else rest)"

definition model_has_capabilities :: "model_metadata option \<Rightarrow> string list \<Rightarrow> bool" where
  "model_has_capabilities md required = list_all (has_capability md) required"

definition check_capabilities :: "agent_model \<Rightarrow> model_catalog option \<Rightarrow> bool" where
  "check_capabilities m cat =
     (if required_capabilities m = [] then True
      else case cat of None \<Rightarrow> True | Some c \<Rightarrow>
        (case cat_lookup (am_model m) c of None \<Rightarrow> False | Some dm \<Rightarrow>
           if dm_metadata dm = None then False
           else model_has_capabilities (dm_metadata dm) (required_capabilities m)))"

type_synonym agents = "(string, agent_config) gomap"

definition resolve_window_max_context :: "registry \<Rightarrow> string \<Rightarrow> agents \<Rightarrow> model_catalog option \<Rightarrow> int" where
  "resolve_window_max_context reg name ags cat = (case map_of ags name of None \<Rightarrow> 0 | Some a \<Rightarrow>
     fold (\<lambda>m mx. let mc = resolve_max_context reg m cat in if mc > mx then mc else mx) (agent_models a) 0)"

definition resolve_window_max_output :: "registry \<Rightarrow> string \<Rightarrow> agents \<Rightarrow> model_catalog option \<Rightarrow> int" where
  "resolve_window_max_output reg name ags cat = (case map_of ags name of None \<Rightarrow> 0 | Some a \<Rightarrow>
     fold (\<lambda>m mx. let mo = resolve_max_output reg m cat in if mo > mx then mo else mx) (agent_models a) 0)"

definition resolve_model_metadata :: "agent_model \<Rightarrow> model_catalog option \<Rightarrow> model_metadata option" where
  "resolve_model_metadata m cat = (case opt_lookup cat (am_model m) of
     Some dm \<Rightarrow> if dm_metadata dm \<noteq> None then dm_metadata dm else infer_capabilities (am_model m)
   | None \<Rightarrow> infer_capabilities (am_model m))"

record agent_capabilities =
  ac_vision :: bool
  ac_tool_calls :: bool
  ac_reasoning :: bool

definition no_capabilities :: agent_capabilities where
  "no_capabilities = \<lparr>ac_vision = False, ac_tool_calls = False, ac_reasoning = False\<rparr>"

fun capability_loop :: "model_catalog option \<Rightarrow> agent_model list \<Rightarrow> agent_capabilities \<Rightarrow> agent_capabilities" where
  "capability_loop cat [] caps = caps"
| "capability_loop cat (m # ms) caps = (case resolve_model_metadata m cat of
     None \<Rightarrow> no_capabilities
   | Some md \<Rightarrow> capability_loop cat ms
       \<lparr>ac_vision = ac_vision caps \<and> supports_vision md,
        ac_tool_calls = ac_tool_calls caps \<and> supports_tool_calls md,
        ac_reasoning = ac_reasoning caps \<and> supports_reasoning md\<rparr>)"

definition resolve_agent_capabilities :: "string \<Rightarrow> agents \<Rightarrow> model_catalog option \<Rightarrow> agent_capabilities" where
  "resolve_agent_capabilities name ags cat = (case map_of ags name of None \<Rightarrow> no_capabilities | Some a \<Rightarrow>
     if agent_models a = [] then no_capabilities
     else capability_loop cat (agent_models a) \<lparr>ac_vision = True, ac_tool_calls = True, ac_reasoning = True\<rparr>)"

subsection \<open>Prices\<close>

definition catalog_pricing_with_static_overlay ::
  "registry \<Rightarrow> agent_model \<Rightarrow> model_catalog \<Rightarrow> pricing_entry option" where
  "catalog_pricing_with_static_overlay reg m cat = (case cat_lookup (am_model m) cat of None \<Rightarrow> None | Some dm \<Rightarrow>
     (case dm_pricing dm of None \<Rightarrow> None | Some p \<Rightarrow>
       if \<not> has_standard_rate p then None
       else case map_of reg (am_model m) of None \<Rightarrow> Some p | Some e \<Rightarrow>
         (let q = me_pricing e;
              p = (if peak_input_cost p = 0 then p\<lparr>peak_input_cost := peak_input_cost q\<rparr> else p);
              p = (if peak_output_cost p = 0 then p\<lparr>peak_output_cost := peak_output_cost q\<rparr> else p)
          in Some (if cached_input_cost p = 0 then p\<lparr>cached_input_cost := cached_input_cost q\<rparr> else p))))"

definition resolve_model_pricing ::
  "registry \<Rightarrow> agent_model \<Rightarrow> model_catalog option \<Rightarrow> pricing_entry option" where
  "resolve_model_pricing reg m cat =
     (case (case cat of None \<Rightarrow> None | Some c \<Rightarrow> catalog_pricing_with_static_overlay reg m c) of
        Some p \<Rightarrow> Some p
      | None \<Rightarrow> (case map_of reg (am_model m) of None \<Rightarrow> None | Some e \<Rightarrow>
          if has_standard_rate (me_pricing e) then
            Some \<lparr>input_cost = input_cost (me_pricing e), output_cost = output_cost (me_pricing e),
              peak_input_cost = peak_input_cost (me_pricing e), peak_output_cost = peak_output_cost (me_pricing e),
              cached_input_cost = cached_input_cost (me_pricing e), cache_write_cost = 0, currency = ''USD''\<rparr>
          else None))"

record agent_pricing =
  ap_input :: rat
  ap_output :: rat
  ap_peak_input :: rat
  ap_peak_output :: rat
  ap_cached_input :: rat
  has_pricing :: bool

definition no_pricing :: agent_pricing where
  "no_pricing = \<lparr>ap_input = 0, ap_output = 0, ap_peak_input = 0, ap_peak_output = 0, ap_cached_input = 0,
     has_pricing = False\<rparr>"

definition resolve_agent_pricing :: "registry \<Rightarrow> string \<Rightarrow> agents \<Rightarrow> model_catalog option \<Rightarrow> agent_pricing" where
  "resolve_agent_pricing reg name ags cat = (case map_of ags name of None \<Rightarrow> no_pricing | Some a \<Rightarrow>
     (let ps = List.map_filter (\<lambda>m. resolve_model_pricing reg m cat) (agent_models a);
          n = rat_of_nat (length ps); avg = (\<lambda>f. sum_list (map f ps) / n)
      in if length ps = 0 then no_pricing
         else \<lparr>ap_input = avg input_cost, ap_output = avg output_cost, ap_peak_input = avg peak_input_cost,
               ap_peak_output = avg peak_output_cost, ap_cached_input = avg cached_input_cost, has_pricing = True\<rparr>))"

subsection \<open>What the answers mean\<close>

lemma window_fold_max:
  "fold (\<lambda>m mx. let mc = f m in if mc > mx then mc else mx) ms (b :: int) = Max (insert b (f ` set ms))"
proof (induction ms arbitrary: b)
  case (Cons m ms)
  have "Max (insert (max (f m) b) (f ` set ms)) = Max (insert b (insert (f m) (f ` set ms)))"
    by (cases "set ms = {}") (simp_all add: max.assoc [symmetric] max.commute)
  moreover have "(if f m > b then f m else b) = max (f m) b" by (simp add: max_def)
  ultimately show ?case using Cons.IH [of "max (f m) b"] by (simp add: Let_def insert_commute)
qed simp

lemma resolve_window_max:
  "resolve_window_max_context reg name ags cat =
     (case map_of ags name of None \<Rightarrow> 0
      | Some a \<Rightarrow> Max (insert 0 ((\<lambda>m. resolve_max_context reg m cat) ` set (agent_models a))))"
  using window_fold_max [of "\<lambda>m. resolve_max_context reg m cat" _ 0]
  by (simp add: resolve_window_max_context_def Let_def split: option.split)

lemma capability_loop_eq:
  "capability_loop cat ms caps =
     (if \<exists>m \<in> set ms. resolve_model_metadata m cat = None then no_capabilities
      else \<lparr>ac_vision = ac_vision caps \<and> (\<forall>m \<in> set ms. supports_vision (the (resolve_model_metadata m cat))),
            ac_tool_calls = ac_tool_calls caps \<and> (\<forall>m \<in> set ms. supports_tool_calls (the (resolve_model_metadata m cat))),
            ac_reasoning = ac_reasoning caps \<and> (\<forall>m \<in> set ms. supports_reasoning (the (resolve_model_metadata m cat)))\<rparr>)"
proof (induction ms arbitrary: caps)
  case (Cons m ms)
  show ?case
    by (cases "resolve_model_metadata m cat") (auto simp: Cons.IH)
qed simp

text \<open>
  The capabilities an agent advertises. A capability is advertised exactly when the agent
  exists, has a model, and every model of its chain has it, where a model's metadata is the
  catalog's or else what its identifier implies; one model whose metadata is unknown withdraws
  every capability.
\<close>

theorem agent_capabilities_are_common:
  "let caps = resolve_agent_capabilities name ags cat;
       all_have = (\<lambda>cap. case map_of ags name of None \<Rightarrow> False | Some a \<Rightarrow> agent_models a \<noteq> []
         \<and> list_all (\<lambda>m. resolve_model_metadata m cat \<noteq> None) (agent_models a)
         \<and> list_all (\<lambda>m. has_capability (resolve_model_metadata m cat) cap) (agent_models a))
   in (ac_vision caps \<longleftrightarrow> all_have cap_vision) \<and> (ac_tool_calls caps \<longleftrightarrow> all_have cap_tool_calls)
      \<and> (ac_reasoning caps \<longleftrightarrow> all_have cap_reasoning)"
proof (cases "map_of ags name")
  case (Some a)
  have cap: "has_capability md cap_vision \<longleftrightarrow> supports_vision (the md)"
    "has_capability md cap_tool_calls \<longleftrightarrow> supports_tool_calls (the md)"
    "has_capability md cap_reasoning \<longleftrightarrow> supports_reasoning (the md)" if "md \<noteq> None" for md
    using that by (auto simp: has_capability_def cap_defs)
  show ?thesis
  proof (cases "\<exists>m \<in> set (agent_models a). resolve_model_metadata m cat = None")
    case True
    then have "\<not> list_all (\<lambda>m. resolve_model_metadata m cat \<noteq> None) (agent_models a)"
      by (simp add: list_all_iff)
    moreover have "resolve_agent_capabilities name ags cat = no_capabilities"
      using True Some by (simp add: resolve_agent_capabilities_def capability_loop_eq)
    ultimately show ?thesis using Some by (simp add: no_capabilities_def)
  next
    case False
    then have known: "list_all (\<lambda>m. resolve_model_metadata m cat \<noteq> None) (agent_models a)"
      by (simp add: list_all_iff)
    have each: "list_all (\<lambda>m. has_capability (resolve_model_metadata m cat) c) (agent_models a) \<longleftrightarrow>
        (\<forall>m \<in> set (agent_models a). f (the (resolve_model_metadata m cat)))"
      if "\<And>md. md \<noteq> None \<Longrightarrow> has_capability md c \<longleftrightarrow> f (the md)" for c f
      using False that unfolding list_all_iff by blast
    show ?thesis
      using Some known each [OF cap(1)] each [OF cap(2)] each [OF cap(3)]
      by (simp add: resolve_agent_capabilities_def trans [OF capability_loop_eq if_not_P [OF False]]
          no_capabilities_def)
  qed
qed (simp add: resolve_agent_capabilities_def no_capabilities_def)

end
