(* ===== verification/TargetExpand.thy ===== *)
theory TargetExpand
  imports Resolver
begin

text \<open>
  The expansion of an agent's model chain in internal/routing/targets.go: provider-only, regular
  expression and deferred entries become concrete provider/model entries, drawn from the
  discovery catalog or from the static registry.

  A method called on a nil catalog locks a nil mutex, a run-time panic: such calls are \<open>None\<close>.
  The expansion cache of \<^verbatim>\<open>AgentState\<close> is the argument \<open>cache\<close>, returned updated.
\<close>

subsection \<open>Which entries need expanding\<close>

record model_flags =
  has_dynamic :: bool
  has_deferred :: bool
  has_provider_only :: bool

definition detect_model_flags :: "agent_model list \<Rightarrow> model_flags" where
  "detect_model_flags ms = fold (\<lambda>m f.
     let f = (if provider_rgx m \<noteq> [] \<or> model_rgx m \<noteq> [] then f\<lparr>has_dynamic := True\<rparr> else f);
         f = (if am_provider m = [] \<and> am_model m \<noteq> [] then f\<lparr>has_deferred := True\<rparr> else f)
     in if am_provider m \<noteq> [] \<and> am_model m = [] \<and> provider_rgx m = [] \<and> model_rgx m = []
        then f\<lparr>has_provider_only := True\<rparr> else f) ms
     \<lparr>has_dynamic = False, has_deferred = False, has_provider_only = False\<rparr>"

definition max_int :: int where "max_int = 2 ^ 63 - 1"

subsection \<open>Entries from the catalog and the registry\<close>

definition build_agent_model_with_fallback :: "string \<Rightarrow> agent_model \<Rightarrow> discovered_model \<Rightarrow> agent_model" where
  "build_agent_model_with_fallback name base disc =
     (let am = zero_agent_model\<lparr>am_provider := dm_provider disc, am_model := name,
            am_max_context := am_max_context base, am_max_output := am_max_output base,
            am_reasoning_effort := am_reasoning_effort base\<rparr>;
          am = (if am_max_context am \<le> 0 then am\<lparr>am_max_context := dm_max_context disc\<rparr> else am)
      in if am_max_output am \<le> 0 then am\<lparr>am_max_output := dm_max_output disc\<rparr> else am)"

definition entry_model :: "string \<Rightarrow> string \<Rightarrow> agent_model \<Rightarrow> model_entry \<Rightarrow> agent_model" where
  "entry_model p i base e =
     (let am = zero_agent_model\<lparr>am_provider := p, am_model := i,
            am_max_context := am_max_context base, am_max_output := am_max_output base,
            am_reasoning_effort := am_reasoning_effort base\<rparr>;
          am = (if am_max_context am \<le> 0 then am\<lparr>am_max_context := me_max_context e\<rparr> else am)
      in if am_max_output am \<le> 0 then am\<lparr>am_max_output := me_max_output e\<rparr> else am)"

definition expand_deferred_from_catalog ::
  "agent_model \<Rightarrow> model_catalog option \<Rightarrow> providers \<Rightarrow> agent_model list option" where
  "expand_deferred_from_catalog m cat ps = (case cat of None \<Rightarrow> None | Some c \<Rightarrow>
     (let entries = lookup_all (am_model m) c in
      if length entries = 0 then None
      else Some (map (build_agent_model_with_fallback (am_model m) m)
             (filter (\<lambda>e. map_of ps (dm_provider e) \<noteq> None) entries))))"

definition expand_deferred_from_registry ::
  "registry \<Rightarrow> agent_model \<Rightarrow> providers \<Rightarrow> agent_model option" where
  "expand_deferred_from_registry reg m ps = (case map_of reg (am_model m) of None \<Rightarrow> None | Some e \<Rightarrow>
     (case map_of ps (me_provider e) of None \<Rightarrow> None
      | Some p \<Rightarrow> Some (entry_model (pv_name p) (am_model m) m e)))"

definition expand_deferred_one ::
  "registry \<Rightarrow> model_catalog option \<Rightarrow> providers \<Rightarrow> agent_model \<Rightarrow> agent_model list" where
  "expand_deferred_one reg cat ps m =
     (if am_provider m \<noteq> [] \<or> am_model m = [] then [m]
      else case expand_deferred_from_catalog m cat ps of
        Some result \<Rightarrow> result
      | None \<Rightarrow> (case expand_deferred_from_registry reg m ps of Some am \<Rightarrow> [am] | None \<Rightarrow> []))"

definition expand_deferred_providers ::
  "registry \<Rightarrow> agent_model list \<Rightarrow> model_catalog option \<Rightarrow> providers \<Rightarrow> agent_model list" where
  "expand_deferred_providers reg ms cat ps =
     (if int (length ms) \<ge> max_int div 2 then [] else concat (map (expand_deferred_one reg cat ps) ms))"

definition expand_with_catalog ::
  "agent_model \<Rightarrow> string \<Rightarrow> model_catalog option \<Rightarrow> agent_model list option" where
  "expand_with_catalog m p cat = (case cat of None \<Rightarrow> None | Some c \<Rightarrow>
     (let ds = models_for_provider p c in
      if length ds = 0 then None
      else Some (map (\<lambda>dm. build_agent_model_with_fallback (dm_id dm) m dm) ds)))"

definition expand_with_registry_fallback ::
  "registry \<Rightarrow> string \<Rightarrow> agent_model \<Rightarrow> agent_model list option" where
  "expand_with_registry_fallback reg p m =
     (let found = map (\<lambda>(i, e). entry_model p i m e) (filter (\<lambda>(i, e). me_provider e = p) reg) in
      if length found = 0 then None else Some found)"

definition expand_provider_only_one ::
  "registry \<Rightarrow> model_catalog option \<Rightarrow> providers \<Rightarrow> agent_model \<Rightarrow> agent_model list" where
  "expand_provider_only_one reg cat ps m =
     (if am_provider m = [] \<or> am_model m \<noteq> [] \<or> provider_rgx m \<noteq> [] \<or> model_rgx m \<noteq> [] then [m]
      else if map_of ps (am_provider m) = None then []
      else case expand_with_catalog m (am_provider m) cat of
        Some result \<Rightarrow> result
      | None \<Rightarrow> (case expand_with_registry_fallback reg (am_provider m) m of Some result \<Rightarrow> result | None \<Rightarrow> []))"

definition expand_provider_only ::
  "registry \<Rightarrow> agent_model list \<Rightarrow> model_catalog option \<Rightarrow> providers \<Rightarrow> agent_model list" where
  "expand_provider_only reg ms cat ps =
     (if int (length ms) \<ge> max_int div 2 then [] else concat (map (expand_provider_only_one reg cat ps) ms))"

subsection \<open>Regular expressions\<close>

definition am_key :: "agent_model \<Rightarrow> string" where
  "am_key m = am_provider m @ '':'' @ am_model m"

definition dynamic_model :: "agent_model \<Rightarrow> discovered_model \<Rightarrow> agent_model" where
  "dynamic_model m dm = zero_agent_model\<lparr>am_provider := dm_provider dm, am_model := dm_id dm,
     am_max_context := dm_max_context dm, am_max_output := dm_max_output dm,
     am_reasoning_effort := am_reasoning_effort m\<rparr>"

definition dynamic_step ::
  "registry \<Rightarrow> discovered_model list \<Rightarrow> providers \<Rightarrow> agent_model \<Rightarrow> (string, agent_model) gomap
   \<Rightarrow> (string, agent_model) gomap" where
  "dynamic_step reg ds ps m seen =
     (if \<not> is_dynamic m then put (am_key m) m seen
      else
        let matched = filter (\<lambda>dm. matches_catalog m (dm_provider dm) (dm_id dm)) ds;
            seen = fold (\<lambda>dm seen. if map_of ps (dm_provider dm) = None then seen
                          else put (dm_provider dm @ '':'' @ dm_id dm) (dynamic_model m dm) seen) matched seen
        in if matched = [] then fold (\<lambda>rm. put (am_key rm) rm) (find_registry_models reg m (Some ps)) seen
           else seen)"

definition expand_dynamic_models ::
  "registry \<Rightarrow> agent_model list \<Rightarrow> discovered_model list \<Rightarrow> providers \<Rightarrow> agent_model list" where
  "expand_dynamic_models reg ms ds ps =
     (let seen = fold (dynamic_step reg ds ps) ms [] in
      map (\<lambda>k. get_or zero_agent_model seen k) (sort (map fst seen)))"

definition join_bar :: "string list \<Rightarrow> string" where
  "join_bar ps = (case ps of [] \<Rightarrow> [] | p # ps \<Rightarrow> p @ concat (map (\<lambda>q. ''|'' @ q) ps))"

definition hash_dynamic_models :: "agent_model list \<Rightarrow> string" where
  "hash_dynamic_models ms =
     join_bar (concat (map (\<lambda>m. if provider_rgx m = [] \<and> model_rgx m = [] then []
        else [provider_rgx m, model_rgx m]) ms))"

record selector_entry =
  se_timestamp :: time
  se_models :: "agent_model list"
  se_hash :: string

type_synonym selector_cache = "(string, selector_entry) gomap"

definition expand_dynamic_with_cache ::
  "registry \<Rightarrow> string \<Rightarrow> agent_model list \<Rightarrow> model_catalog option \<Rightarrow> providers \<Rightarrow> selector_cache
   \<Rightarrow> (agent_model list \<times> selector_cache) option" where
  "expand_dynamic_with_cache reg name ms cat ps cache = (case cat of None \<Rightarrow> None | Some c \<Rightarrow>
     (let h = hash_dynamic_models ms; ts = fetched_at c;
          expanded = expand_dynamic_models reg ms (all_models c) ps;
          miss = Some (expanded, put name \<lparr>se_timestamp = ts, se_models = expanded, se_hash = h\<rparr> cache)
      in case map_of cache name of
           None \<Rightarrow> miss
         | Some e \<Rightarrow> if se_hash e = h \<and> se_timestamp e = ts then Some (se_models e, cache) else miss))"

definition expand_models ::
  "registry \<Rightarrow> string \<Rightarrow> agent_config \<Rightarrow> model_catalog option \<Rightarrow> providers \<Rightarrow> selector_cache
   \<Rightarrow> (agent_model list \<times> selector_cache) option" where
  "expand_models reg name agent cat ps cache =
     (let flags = detect_model_flags (agent_models agent) in
      if \<not> has_dynamic flags \<and> \<not> has_deferred flags \<and> \<not> has_provider_only flags
      then Some (agent_models agent, cache)
      else
        let ms = agent_models agent;
            ms = (if has_provider_only flags then expand_provider_only reg ms cat ps else ms)
        in case (if has_dynamic flags then expand_dynamic_with_cache reg name ms cat ps cache
                 else Some (ms, cache)) of
             None \<Rightarrow> None
           | Some (ms, cache) \<Rightarrow>
               Some (if has_deferred flags then expand_deferred_providers reg ms cat ps else ms, cache))"

subsection \<open>A regular expression reorders and deduplicates the chain\<close>

definition keyed :: "(string, agent_model) gomap \<Rightarrow> bool" where
  "keyed seen \<longleftrightarrow> gomap_ok seen \<and> all_entries (\<lambda>k m. k = am_key m) seen"

lemma keyed_put: "keyed seen \<Longrightarrow> k = am_key m \<Longrightarrow> keyed (put k m seen)"
  by (auto simp: keyed_def)

lemma keyed_fold: "(\<And>x seen. keyed seen \<Longrightarrow> keyed (f x seen)) \<Longrightarrow> keyed seen \<Longrightarrow> keyed (fold f xs seen)"
  by (induction xs arbitrary: seen) auto

lemma keyed_dynamic_step: "keyed seen \<Longrightarrow> keyed (dynamic_step reg ds ps m seen)"
  unfolding dynamic_step_def Let_def
  by (auto intro!: keyed_fold keyed_put simp: am_key_def dynamic_model_def)

lemma keyed_Nil: "keyed []"
  by (simp add: keyed_def)

lemma keys_fold_mono:
  assumes "\<And>x seen. fst ` set seen \<subseteq> fst ` set (f x seen)"
  shows "fst ` set seen \<subseteq> fst ` set (fold f xs seen)"
proof (induction xs arbitrary: seen)
  case (Cons x xs)
  show ?case using assms [of seen x] Cons.IH [of "f x seen"] by auto
qed simp

lemma keys_dynamic_step:
  "fst ` set seen \<subseteq> fst ` set (dynamic_step reg ds ps m seen)"
proof -
  let ?f = "\<lambda>dm seen. if map_of ps (dm_provider dm) = None then seen
    else put (dm_provider dm @ '':'' @ dm_id dm) (dynamic_model m dm) seen"
  have cat: "fst ` set s \<subseteq> fst ` set (fold ?f xs s)" for xs s
    by (rule keys_fold_mono) (auto simp: keys_put)
  have reg: "fst ` set s \<subseteq> fst ` set (fold (\<lambda>rm. put (am_key rm) rm) xs s)" for xs s
    by (rule keys_fold_mono) (auto simp: keys_put)
  show ?thesis
  proof (cases "is_dynamic m")
    case True
    show ?thesis
      using cat [of seen] reg [of seen] True by (simp add: dynamic_step_def Let_def)
  qed (auto simp: dynamic_step_def keys_put)
qed

text \<open>
  An agent chain with one regular expression in it. After the expansion the entries are in
  strictly increasing order of provider and model, so none is repeated, and every static entry is
  still there under its key. The order and the repetitions that the operator configured, which
  the retry sweep takes as its failover order, are gone.
\<close>

theorem dynamic_chain_is_sorted_set:
  "let out = expand_dynamic_models reg ms ds ps in
     sorted_wrt (<) (map am_key out)
     \<and> am_key ` set (filter (\<lambda>m. \<not> is_dynamic m) ms) \<subseteq> am_key ` set out"
proof -
  define seen where "seen = fold (dynamic_step reg ds ps) ms []"
  have k: "keyed seen" unfolding seen_def by (intro keyed_fold keyed_dynamic_step keyed_Nil)
  have at: "am_key (get_or zero_agent_model seen x) = x" if "x \<in> fst ` set seen" for x
  proof -
    from that obtain m where "map_of seen x = Some m" by (metis map_of_eq_None_iff not_Some_eq)
    with k show ?thesis by (auto simp: keyed_def get_or_def dest: all_entriesD)
  qed
  have out: "expand_dynamic_models reg ms ds ps = map (get_or zero_agent_model seen) (sort (map fst seen))"
    by (simp add: expand_dynamic_models_def seen_def Let_def)
  have keys: "map am_key (expand_dynamic_models reg ms ds ps) = sort (map fst seen)"
    unfolding out by (auto intro!: map_idI simp: at)
  have "sorted_wrt (<) (sort (map fst seen))"
    using k by (simp add: keyed_def strict_sorted_iff)
  moreover have "am_key ` set (filter (\<lambda>m. \<not> is_dynamic m) ms) \<subseteq> fst ` set seen"
  proof -
    have "am_key ` set (filter (\<lambda>m. \<not> is_dynamic m) ms) \<subseteq> fst ` set (fold (dynamic_step reg ds ps) ms s)" for s
    proof (induction ms arbitrary: s)
      case (Cons m ms)
      have "am_key m \<in> fst ` set (fold (dynamic_step reg ds ps) ms (dynamic_step reg ds ps m s))" if "\<not> is_dynamic m"
        using keys_fold_mono [of "dynamic_step reg ds ps" "dynamic_step reg ds ps m s" ms, OF keys_dynamic_step] that
        by (auto simp: dynamic_step_def keys_put)
      with Cons show ?case by auto
    qed simp
    then show ?thesis unfolding seen_def by blast
  qed
  ultimately show ?thesis
    unfolding Let_def keys by (metis keys list.set_map set_sort)
qed

end
