(* ===== verification/TargetList.thy ===== *)
theory TargetList
  imports TargetExpand Breaker_Props
begin

text \<open>
  The upstream target list of internal/routing/targets.go: \<^verbatim>\<open>BuildTargetList\<close> and what it calls,
  on the state of \<^verbatim>\<open>AgentState\<close>, whose circuit breaker is the one of CircuitBreaker.

  The account selector and the local engine are Go interfaces, here arguments: an account
  selector is a record of its methods, each from its own state to an answer and the next state;
  the by-account method is absent when the selector does not implement
  \<^verbatim>\<open>PreferredAccountSelector\<close>. The clock readings of the loop are indexed by its counter. A run-time
  panic is \<open>None\<close>.
\<close>

subsection \<open>State\<close>

record agent_state =
  ag_counters :: "(string, u64) gomap"
  ag_cb :: breaker
  local_engine :: "(string \<Rightarrow> bool) option"
  ag_selector_cache :: selector_cache

text \<open>
  \<^verbatim>\<open>NewAgentStateWithConfig\<close>, without its logging: the governance limits are optional
  (\<^verbatim>\<open>HalfOpenMaxRequests\<close> and \<^verbatim>\<open>MinQuotaCooldownSeconds\<close>), the thresholds of an agent are found
  under the part of the circuit key before its first colon.
\<close>

definition default_failure_threshold :: int where "default_failure_threshold = 5"
definition default_success_threshold :: int where "default_success_threshold = 1"
definition default_agent_cooldown_sec :: int where "default_agent_cooldown_sec = 60"

definition effective_min_quota_cooldown :: "int \<Rightarrow> duration" where
  "effective_min_quota_cooldown secs =
     (if secs < 0 then 0 else if secs = 0 then 10 * second
      else let d = secs * second in if d < 0 \<or> d > 86400 * second then 86400 * second else d)"

definition agent_thresholds :: "agents \<Rightarrow> string \<Rightarrow> int \<times> int" where
  "agent_thresholds ags key = (case map_of ags (takeWhile (\<lambda>c. c \<noteq> CHR '':'') key) of
     Some a \<Rightarrow> (agent_failure_threshold a, agent_success_threshold a) | None \<Rightarrow> (0, 0))"

definition new_agent_state ::
  "(int \<times> int) option \<Rightarrow> agents \<Rightarrow> bool \<Rightarrow> (string \<Rightarrow> bool) option \<Rightarrow> agent_state" where
  "new_agent_state gov ags metrics engine =
     (let hom = (case gov of None \<Rightarrow> 3 | Some (h, q) \<Rightarrow> if h > 0 then word_of_int h else 3);
          b = new_circuit_breaker default_failure_threshold default_success_threshold hom
                (default_agent_cooldown_sec * second) True;
          b = (if length ags > 0 then set_threshold_lookup (Some (agent_thresholds ags)) b else b);
          b = set_min_quota_cooldown
                (case gov of None \<Rightarrow> 10 * second | Some (h, q) \<Rightarrow> effective_min_quota_cooldown q) b;
          b = (if metrics then set_backoff_increment_callback True (set_state_change_metric_callback True b) else b)
      in \<lparr>ag_counters = [], ag_cb = b, local_engine = engine, ag_selector_cache = []\<rparr>)"

record upstream_target =
  t_url :: string
  t_model :: string
  t_format :: string
  cool_key :: string
  t_provider :: string
  t_max_output :: int
  t_max_context :: int
  account_name :: string
  t_credential :: string
  t_cooling :: bool
  t_reasoning_effort :: string
  byok :: bool

record account_preference =
  pref_provider :: string
  pref_model :: string
  pref_account :: string

record 's account_selector =
  select_cred :: "string \<Rightarrow> string \<Rightarrow> 's \<Rightarrow> (string \<times> string) option \<times> 's"
  select_preferred :: "(string \<Rightarrow> string \<Rightarrow> string \<Rightarrow> 's \<Rightarrow> (string \<times> string) option \<times> 's) option"

record 's build_opts =
  agent_name :: string
  opt_agent :: agent_config
  token_count :: int
  opt_providers :: providers
  opt_catalog :: "model_catalog option"
  auto_context_skip :: bool
  opt_selector :: "'s account_selector option"
  preferred :: "account_preference option"

subsection \<open>Free-only providers\<close>

definition collect_free_only_providers :: "providers \<Rightarrow> string list" where
  "collect_free_only_providers ps =
     map fst (filter (\<lambda>(n, p). case billing p of None \<Rightarrow> False | Some b \<Rightarrow> free_only b) ps)"

definition is_free_model_name :: "string \<Rightarrow> bool" where
  "is_free_model_name i =
     (let lower = to_lower i in
      if has_suffix lower ''-free'' then True
      else if has_suffix lower '':free'' then True
      else if str_contains lower ''/free'' then True else False)"

definition default_free_only_input_price_threshold :: rat where
  "default_free_only_input_price_threshold = 1 / 10000"

definition is_paid_model_on_free_only_provider ::
  "agent_model \<Rightarrow> string list \<Rightarrow> model_catalog option \<Rightarrow> providers \<Rightarrow> bool" where
  "is_paid_model_on_free_only_provider m free_only_ps cat ps =
     (if am_provider m \<notin> set free_only_ps then False
      else if (case map_of ps (am_provider m) of None \<Rightarrow> False | Some p \<Rightarrow>
           (case billing p of None \<Rightarrow> False | Some b \<Rightarrow> am_model m \<in> set (free_models b))) then False
      else case cat of None \<Rightarrow> True | Some c \<Rightarrow>
        (case cat_lookup (am_model m) c of None \<Rightarrow> True | Some dm \<Rightarrow>
          (case dm_pricing dm of None \<Rightarrow> False | Some p \<Rightarrow>
             if \<not> has_standard_rate p then False
             else if input_cost p > default_free_only_input_price_threshold then True
             else if output_cost p > default_free_only_input_price_threshold then True
             else if is_free_model_name (am_model m) then False
             else True)))"

subsection \<open>Rotation\<close>

definition agent_strategy_fallback :: string where "agent_strategy_fallback = ''fallback''"

text \<open>\<^verbatim>\<open>int(counter) % n\<close>: the conversion to a signed 64-bit integer, the remainder toward zero.\<close>

definition go_rem :: "int \<Rightarrow> int \<Rightarrow> int" where
  "go_rem a n = (if a \<ge> 0 then a mod n else - ((- a) mod n))"

definition select_start :: "agent_config \<Rightarrow> string \<Rightarrow> int \<Rightarrow> agent_state \<Rightarrow> int \<times> agent_state" where
  "select_start agent name n s =
     (if strategy agent = agent_strategy_fallback then (0, s)
      else
        let c = get_or 0 (ag_counters s) name
        in (go_rem (sint c) n, s\<lparr>ag_counters := put name (c + 1) (ag_counters s)\<rparr>))"

definition counters_merge :: "(string, u64) gomap option \<Rightarrow> agent_state \<Rightarrow> agent_state" where
  "counters_merge src s = (case src of None \<Rightarrow> s
     | Some m \<Rightarrow> s\<lparr>ag_counters := fold (\<lambda>(k, v). put k v) m (ag_counters s)\<rparr>)"

definition counters_copy :: "agent_state \<Rightarrow> (string, u64) gomap" where
  "counters_copy s = fold (\<lambda>(k, v). put k v) (ag_counters s) []"

subsection \<open>One target\<close>

definition check_local_model_availability :: "agent_state \<Rightarrow> agent_model \<Rightarrow> bool" where
  "check_local_model_availability s m =
     (if am_provider m \<noteq> ''ollama'' then True
      else case local_engine s of None \<Rightarrow> True | Some loaded \<Rightarrow> loaded (am_model m))"

definition check_provider_and_local :: "agent_state \<Rightarrow> agent_model \<Rightarrow> providers \<Rightarrow> bool" where
  "check_provider_and_local s m ps =
     (if am_provider m \<noteq> [] \<and> (case map_of ps (am_provider m) of None \<Rightarrow> True
           | Some p \<Rightarrow> pv_api_key p = [] \<and> auth_style p \<noteq> auth_style_none) then False
      else check_local_model_availability s m)"

definition pref_matches :: "account_preference option \<Rightarrow> string \<Rightarrow> string \<Rightarrow> bool" where
  "pref_matches pr p m = (case pr of None \<Rightarrow> False | Some a \<Rightarrow> pref_provider a = p \<and> pref_model a = m)"

definition resolve_preferred_account ::
  "account_preference option \<Rightarrow> providers \<Rightarrow> string \<Rightarrow> account_preference option" where
  "resolve_preferred_account pr ps p = (case pr of None \<Rightarrow> None | Some a \<Rightarrow>
     (case map_of ps p of None \<Rightarrow> Some a | Some pv \<Rightarrow>
        (case session_sticky_keys pv of None \<Rightarrow> Some a | Some b \<Rightarrow> if \<not> b then None else Some a)))"

definition apply_account_credential ::
  "upstream_target \<Rightarrow> 's account_selector option \<Rightarrow> agent_model \<Rightarrow> account_preference option \<Rightarrow> 's
   \<Rightarrow> upstream_target \<times> 's" where
  "apply_account_credential t sel m pr st = (case sel of None \<Rightarrow> (t, st) | Some sel \<Rightarrow>
     (if am_provider m = [] then (t, st)
      else
        let (got, st) = (case (pr, select_preferred sel) of
              (Some a, Some f) \<Rightarrow> if pref_matches pr (am_provider m) (am_model m)
                 then f (am_provider m) (am_model m) (pref_account a) st else (None, st)
            | _ \<Rightarrow> (None, st));
            (got, st) = (case got of Some c \<Rightarrow> (Some c, st)
               | None \<Rightarrow> select_cred sel (am_provider m) (am_model m) st)
        in case got of None \<Rightarrow> (t, st)
           | Some (cred, acct) \<Rightarrow> (t\<lparr>account_name := acct, t_credential := cred\<rparr>, st)))"

definition cool_key_of :: "string \<Rightarrow> agent_model \<Rightarrow> string" where
  "cool_key_of name m = name @ '':'' @ am_provider m @ '':'' @ am_model m"

definition build_target ::
  "registry \<Rightarrow> agent_state \<Rightarrow> 's build_opts \<Rightarrow> agent_model \<Rightarrow> 's \<Rightarrow> upstream_target option \<times> 's" where
  "build_target reg s opts m st =
     (let cat = opt_catalog opts; ps = opt_providers opts; max_ctx = resolve_max_context reg m cat in
      if max_ctx > 0 \<and> token_count opts > max_ctx then (None, st)
      else if auto_context_skip opts \<and> max_ctx > 0 \<and> token_count opts > 0 \<and> max_ctx < token_count opts * 2
        then (None, st)
      else if \<not> check_capabilities m cat then (None, st)
      else if \<not> check_provider_and_local s m ps then (None, st)
      else
        let max_out = resolve_max_output reg m cat;
            urls = (if am_provider m \<noteq> [] then
                      (case map_of ps (am_provider m) of Some p \<Rightarrow> format_urls p | None \<Rightarrow> []) else []);
            url = provider_url (am_provider m) (am_url m) (am_format m) urls ps
        in if url = [] then (None, st)
           else
             let t = \<lparr>t_url = url, t_model = am_model m,
                      t_format = resolve_target_format reg (am_model m) (Some m) cat,
                      cool_key = cool_key_of (agent_name opts) m, t_provider = am_provider m,
                      t_max_output = max_out, t_max_context = max_ctx, account_name = [], t_credential = [],
                      t_cooling = False, t_reasoning_effort = am_reasoning_effort m, byok = False\<rparr>;
                 (t, st) = apply_account_credential t (opt_selector opts) m
                   (resolve_preferred_account (preferred opts) ps (am_provider m)) st
             in (Some t, st))"

subsection \<open>The list\<close>

text \<open>The loop over the entries from the start on; \<open>clk i\<close> are the clock readings of iteration \<open>i\<close>.\<close>

fun target_loop ::
  "registry \<Rightarrow> 's build_opts \<Rightarrow> (nat \<Rightarrow> clock) \<Rightarrow> string list \<Rightarrow> nat \<Rightarrow> agent_model list
   \<Rightarrow> upstream_target list \<Rightarrow> upstream_target list \<Rightarrow> agent_state \<Rightarrow> 's
   \<Rightarrow> upstream_target list \<times> upstream_target list \<times> agent_state \<times> 's" where
  "target_loop reg opts clk free i [] active cooling s st = (active, cooling, s, st)"
| "target_loop reg opts clk free i (m # ms) active cooling s st =
     (if is_paid_model_on_free_only_provider m free (opt_catalog opts) (opt_providers opts)
      then target_loop reg opts clk free (Suc i) ms active cooling s st
      else case build_target reg s opts m st of
        (None, st) \<Rightarrow> target_loop reg opts clk free (Suc i) ms active cooling s st
      | (Some t, st) \<Rightarrow>
          (if is_model_locked (t_now (clk i)) (cool_key t) (ag_cb s)
           then target_loop reg opts clk free (Suc i) ms active cooling s st
           else case peek (clk i) (cool_key t) (ag_cb s) of (up, b) \<Rightarrow>
             if up then target_loop reg opts clk free (Suc i) ms (active @ [t]) cooling (s\<lparr>ag_cb := b\<rparr>) st
             else target_loop reg opts clk free (Suc i) ms active (cooling @ [t\<lparr>t_cooling := True\<rparr>])
                    (s\<lparr>ag_cb := b\<rparr>) st))"

definition rotated :: "int \<Rightarrow> 'a list \<Rightarrow> 'a list option" where
  "rotated start xs = (if start < 0 then None
     else Some (map (\<lambda>i. xs ! ((nat start + i) mod length xs)) [0..<length xs]))"

definition build_target_list ::
  "registry \<Rightarrow> 's build_opts \<Rightarrow> (nat \<Rightarrow> clock) \<Rightarrow> agent_state \<Rightarrow> 's
   \<Rightarrow> (upstream_target list \<times> agent_state \<times> 's) option" where
  "build_target_list reg opts clk s st =
     (case expand_models reg (agent_name opts) (opt_agent opts) (opt_catalog opts) (opt_providers opts)
             (ag_selector_cache s) of
        None \<Rightarrow> None
      | Some (models, cache) \<Rightarrow>
          (let s = s\<lparr>ag_selector_cache := cache\<rparr> in
           if length models = 0 then Some ([], s, st)
           else
             let (start, s) = select_start (opt_agent opts) (agent_name opts) (int (length models)) s;
                 free = collect_free_only_providers (opt_providers opts)
             in case rotated start models of None \<Rightarrow> None | Some order \<Rightarrow>
                  (case target_loop reg opts clk free 0 order [] [] s st of
                     (active, cooling, s, st) \<Rightarrow> Some (active @ cooling, s, st))))"

subsection \<open>Recording outcomes\<close>

text \<open>A caller's own key never writes the breaker; \<open>None\<close> is the zero decision.\<close>

definition activate_cooldown :: "clock \<Rightarrow> upstream_target \<Rightarrow> duration \<Rightarrow> agent_state \<Rightarrow> agent_state" where
  "activate_cooldown c t d s =
     (if cool_key t = [] \<or> byok t then s else s\<lparr>ag_cb := force_open c (cool_key t) d (ag_cb s)\<rparr>)"

definition ag_record_failure :: "clock \<Rightarrow> upstream_target \<Rightarrow> duration \<Rightarrow> agent_state \<Rightarrow> agent_state" where
  "ag_record_failure c t d s =
     (if cool_key t = [] \<or> byok t then s else s\<lparr>ag_cb := record_failure c (cool_key t) [d] (ag_cb s)\<rparr>)"

definition ag_record_failure_with_status ::
  "clock \<Rightarrow> rat \<Rightarrow> upstream_target \<Rightarrow> int \<Rightarrow> string \<Rightarrow> agent_state \<Rightarrow> cooldown_decision option \<times> agent_state" where
  "ag_record_failure_with_status c r t status body s =
     (if cool_key t = [] \<or> byok t then (None, s)
      else case record_failure_with_status c r (cool_key t) status body (ag_cb s) of
        (d, b) \<Rightarrow> (Some d, s\<lparr>ag_cb := b\<rparr>))"

definition ag_record_success :: "clock \<Rightarrow> string \<Rightarrow> agent_state \<Rightarrow> agent_state" where
  "ag_record_success c key s = s\<lparr>ag_cb := record_success c key (ag_cb s)\<rparr>"

definition ag_record_success_with_model :: "clock \<Rightarrow> string \<Rightarrow> string \<Rightarrow> agent_state \<Rightarrow> agent_state" where
  "ag_record_success_with_model c key model s = s\<lparr>ag_cb := record_success_with_model c key model (ag_cb s)\<rparr>"

definition active_cooldowns :: "time \<Rightarrow> agent_state \<Rightarrow> nat" where
  "active_cooldowns now s = active_count now (ag_cb s)"

definition cb_snapshot :: "time \<Rightarrow> agent_state \<Rightarrow> (string, string) gomap" where
  "cb_snapshot now s = snapshot now (ag_cb s)"

subsection \<open>What the loop computes\<close>

text \<open>What \<^verbatim>\<open>Peek\<close> answers from the registry alone.\<close>

definition peek_answer :: "clock \<Rightarrow> string \<Rightarrow> breaker \<Rightarrow> bool" where
  "peek_answer t key b = (case map_of (circuits b) key of None \<Rightarrow> True
     | Some c \<Rightarrow> (case c_state c of Closed \<Rightarrow> True | Open \<Rightarrow> t_now t > expiry c
         | HalfOpen \<Rightarrow> half_open_inflight c < half_open_max_requests b))"

lemma peek_with_room:
  assumes "int (length (circuits b)) < max_circuits b"
  obtains c where "peek t key b = (peek_answer t key b, b\<lparr>circuits := put key c (circuits b)\<rparr>)"
    "\<And>t' k. peek_answer t' k (b\<lparr>circuits := put key c (circuits b)\<rparr>) = peek_answer t' k b"
proof
  let ?c = "case map_of (circuits b) key of None \<Rightarrow> new_circuit (t_get t) | Some c \<Rightarrow> c\<lparr>last_used := t_get t\<rparr>"
  show "peek t key b = (peek_answer t key b, b\<lparr>circuits := put key ?c (circuits b)\<rparr>)"
    by (auto simp: peek_def get_or_create_def no_evict [OF assms] peek_answer_def Let_def new_circuit_def
        split: option.split cstate.split)
  show "peek_answer t' k (b\<lparr>circuits := put key ?c (circuits b)\<rparr>) = peek_answer t' k b" for t' k
    by (auto simp: peek_answer_def map_of_put new_circuit_def split: option.split cstate.split)
qed

text \<open>The targets built, each with its iteration, before the breaker is asked.\<close>

fun built ::
  "registry \<Rightarrow> 's build_opts \<Rightarrow> agent_state \<Rightarrow> string list \<Rightarrow> nat \<Rightarrow> agent_model list \<Rightarrow> 's
   \<Rightarrow> (nat \<times> upstream_target) list \<times> 's" where
  "built reg opts s free i [] st = ([], st)"
| "built reg opts s free i (m # ms) st =
     (if is_paid_model_on_free_only_provider m free (opt_catalog opts) (opt_providers opts)
      then built reg opts s free (Suc i) ms st
      else case build_target reg s opts m st of
        (None, st) \<Rightarrow> built reg opts s free (Suc i) ms st
      | (Some t, st) \<Rightarrow> (case built reg opts s free (Suc i) ms st of (ts, st) \<Rightarrow> ((i, t) # ts, st)))"

definition unlocked :: "(nat \<Rightarrow> clock) \<Rightarrow> breaker \<Rightarrow> nat \<times> upstream_target \<Rightarrow> bool" where
  "unlocked clk b x = (\<not> is_model_locked (t_now (clk (fst x))) (cool_key (snd x)) b)"

definition available :: "(nat \<Rightarrow> clock) \<Rightarrow> breaker \<Rightarrow> nat \<times> upstream_target \<Rightarrow> bool" where
  "available clk b x = peek_answer (clk (fst x)) (cool_key (snd x)) b"

definition cooled :: "upstream_target \<Rightarrow> upstream_target" where
  "cooled t = t\<lparr>t_cooling := True\<rparr>"

lemma check_provider_and_local_cb: "check_provider_and_local (s\<lparr>ag_cb := b\<rparr>) = check_provider_and_local s"
  by (intro ext) (simp add: check_provider_and_local_def check_local_model_availability_def)

lemma build_target_cb [simp]: "build_target reg (s\<lparr>ag_cb := b\<rparr>) = build_target reg s"
  by (intro ext) (simp only: build_target_def check_provider_and_local_cb)

lemma built_cb [simp]: "built reg opts (s\<lparr>ag_cb := b\<rparr>) free i ms st = built reg opts s free i ms st"
  by (induction reg opts s free i ms st rule: built.induct)
    (simp_all split: option.split prod.split)

lemma target_loop_spec:
  assumes "int (length (circuits (ag_cb s))) + int (length ms) \<le> max_circuits (ag_cb s)"
  shows "\<exists>b. target_loop reg opts clk free i ms active cooling s st =
    (active @ map snd (filter (\<lambda>x. unlocked clk (ag_cb s) x \<and> available clk (ag_cb s) x) (fst (built reg opts s free i ms st))),
     cooling @ map (cooled \<circ> snd)
       (filter (\<lambda>x. unlocked clk (ag_cb s) x \<and> \<not> available clk (ag_cb s) x) (fst (built reg opts s free i ms st))),
     s\<lparr>ag_cb := b\<rparr>, snd (built reg opts s free i ms st))"
  using assms
proof (induction ms arbitrary: i active cooling s st)
  case Nil
  show ?case by (rule exI [of _ "ag_cb s"]) simp
next
  case (Cons m ms)
  have less: "int (length (circuits (ag_cb s))) + int (length ms) \<le> max_circuits (ag_cb s)"
    using Cons.prems by simp
  show ?case
  proof (cases "is_paid_model_on_free_only_provider m free (opt_catalog opts) (opt_providers opts)")
    case True
    then show ?thesis using Cons.IH [OF less] by simp
  next
    case False
    obtain r st' where bt: "build_target reg s opts m st = (r, st')" by force
    show ?thesis
    proof (cases r)
      case None
      then show ?thesis using False bt Cons.IH [OF less] by simp
    next
      case (Some t)
      obtain ts st'' where rest: "built reg opts s free (Suc i) ms st' = (ts, st'')" by force
      have here: "built reg opts s free i (m # ms) st = ((i, t) # ts, st'')"
        using False bt Some rest by simp
      show ?thesis
      proof (cases "is_model_locked (t_now (clk i)) (cool_key t) (ag_cb s)")
        case True
        then show ?thesis
          using False bt Some rest Cons.IH [OF less, of "Suc i" active cooling st']
          unfolding here by (simp add: unlocked_def)
      next
        case unl: False
        have room: "int (length (circuits (ag_cb s))) < max_circuits (ag_cb s)" using Cons.prems by simp
        obtain c where c: "peek (clk i) (cool_key t) (ag_cb s) =
            (peek_answer (clk i) (cool_key t) (ag_cb s), ag_cb s\<lparr>circuits := put (cool_key t) c (circuits (ag_cb s))\<rparr>)"
          and same: "\<And>t' k. peek_answer t' k (ag_cb s\<lparr>circuits := put (cool_key t) c (circuits (ag_cb s))\<rparr>)
            = peek_answer t' k (ag_cb s)"
          by (rule peek_with_room [OF room, of "clk i" "cool_key t"]) blast
        let ?s = "s\<lparr>ag_cb := ag_cb s\<lparr>circuits := put (cool_key t) c (circuits (ag_cb s))\<rparr>\<rparr>"
        have le: "int (length (circuits (ag_cb ?s))) + int (length ms) \<le> max_circuits (ag_cb ?s)"
          using Cons.prems length_put_le [of "cool_key t" c "circuits (ag_cb s)"] by simp
        have frame: "unlocked clk (ag_cb ?s) = unlocked clk (ag_cb s)" "available clk (ag_cb ?s) = available clk (ag_cb s)"
          by (simp_all add: fun_eq_iff unlocked_def available_def is_model_locked_def same)
        show ?thesis
          using False bt Some rest unl c
            Cons.IH [OF le, of "Suc i" "active @ [t]" cooling st', unfolded frame]
            Cons.IH [OF le, of "Suc i" active "cooling @ [t\<lparr>t_cooling := True\<rparr>]" st', unfolded frame]
          unfolding here by (auto simp: unlocked_def available_def cooled_def)
      qed
    qed
  qed
qed

lemma rotated_rotate: "0 \<le> start \<Longrightarrow> rotated start xs = Some (rotate (nat start) xs)"
  by (auto simp: rotated_def nth_rotate intro!: nth_equalityI)

text \<open>
  C15: the target list. With room in the circuit registry for the entries at hand, the list is made
  of the targets built from the expanded chain, in rotated order, one per entry: first those
  whose circuit would admit a request, then the others, marked as cooling; a target whose model
  lock runs is in neither part. The breaker is judged as it was before the call: asking it about
  one target changes no other answer.
\<close>

theorem target_list_is_active_then_cooling:
  assumes "expand_models reg (agent_name opts) (opt_agent opts) (opt_catalog opts) (opt_providers opts)
      (ag_selector_cache s) = Some (models, cache)" and "models \<noteq> []"
    and "select_start (opt_agent opts) (agent_name opts) (int (length models)) (s\<lparr>ag_selector_cache := cache\<rparr>)
      = (start, s')" and "0 \<le> start"
    and "int (length (circuits (ag_cb s))) + int (length models) \<le> max_circuits (ag_cb s)"
  shows "\<exists>b. build_target_list reg opts clk s st =
    (let (bs, st') = built reg opts s' (collect_free_only_providers (opt_providers opts)) 0
           (rotate (nat start) models) st;
         bs = filter (unlocked clk (ag_cb s)) bs
     in Some (map snd (filter (available clk (ag_cb s)) bs)
          @ map (cooled \<circ> snd) (filter (\<lambda>x. \<not> available clk (ag_cb s) x) bs), s'\<lparr>ag_cb := b\<rparr>, st'))"
proof -
  have cb: "ag_cb s' = ag_cb s"
    using assms(3) by (auto simp: select_start_def Let_def split: if_splits)
  let ?free = "collect_free_only_providers (opt_providers opts)"
  have "int (length (circuits (ag_cb s'))) + int (length (rotate (nat start) models)) \<le> max_circuits (ag_cb s')"
    using assms(5) by (simp add: cb)
  from target_loop_spec [OF this, of reg opts clk ?free 0 "[]" "[]" st]
  obtain b where "target_loop reg opts clk ?free 0 (rotate (nat start) models) [] [] s' st =
    (map snd (filter (\<lambda>x. unlocked clk (ag_cb s) x \<and> available clk (ag_cb s) x)
        (fst (built reg opts s' ?free 0 (rotate (nat start) models) st))),
     map (cooled \<circ> snd) (filter (\<lambda>x. unlocked clk (ag_cb s) x \<and> \<not> available clk (ag_cb s) x)
        (fst (built reg opts s' ?free 0 (rotate (nat start) models) st))),
     s'\<lparr>ag_cb := b\<rparr>, snd (built reg opts s' ?free 0 (rotate (nat start) models) st))"
    by (auto simp: cb)
  then show ?thesis
    using assms(1-4)
    by (intro exI [of _ b])
      (simp add: build_target_list_def rotated_rotate Let_def split_beta conj_commute)
qed

subsection \<open>Every target can serve the request\<close>

definition free_on :: "model_catalog option \<Rightarrow> billing_config \<Rightarrow> string \<Rightarrow> bool" where
  "free_on cat b i \<longleftrightarrow> i \<in> set (free_models b) \<or> (case cat of None \<Rightarrow> False | Some c \<Rightarrow>
     (case cat_lookup i c of None \<Rightarrow> False | Some dm \<Rightarrow>
       (case dm_pricing dm of None \<Rightarrow> True | Some q \<Rightarrow> \<not> has_standard_rate q \<or> is_free_model_name i)))"

definition usable :: "'s build_opts \<Rightarrow> upstream_target \<Rightarrow> bool" where
  "usable opts t \<longleftrightarrow> t_url t \<noteq> [] \<and> \<not> byok t
     \<and> cool_key t = agent_name opts @ '':'' @ t_provider t @ '':'' @ t_model t
     \<and> (t_max_context t > 0 \<longrightarrow> token_count opts \<le> t_max_context t)
     \<and> (t_provider t = [] \<or> (\<exists>p. map_of (opt_providers opts) (t_provider t) = Some p
          \<and> (pv_api_key p \<noteq> [] \<or> auth_style p = auth_style_none)
          \<and> (\<forall>b. billing p = Some b \<longrightarrow> free_only b \<longrightarrow> free_on (opt_catalog opts) b (t_model t))))"

lemma apply_account_credential_frame [simp]:
  "t_url (fst (apply_account_credential t sel m pr st)) = t_url t"
  "byok (fst (apply_account_credential t sel m pr st)) = byok t"
  "cool_key (fst (apply_account_credential t sel m pr st)) = cool_key t"
  "t_provider (fst (apply_account_credential t sel m pr st)) = t_provider t"
  "t_model (fst (apply_account_credential t sel m pr st)) = t_model t"
  "t_max_context (fst (apply_account_credential t sel m pr st)) = t_max_context t"
  by (simp_all add: apply_account_credential_def Let_def split_beta split: option.split)

lemma build_target_checks:
  assumes "build_target reg s opts m st = (Some t, st')"
  shows "t_url t \<noteq> [] \<and> \<not> byok t \<and> cool_key t = cool_key_of (agent_name opts) m
    \<and> t_provider t = am_provider m \<and> t_model t = am_model m
    \<and> (t_max_context t > 0 \<longrightarrow> token_count opts \<le> t_max_context t)
    \<and> check_provider_and_local s m (opt_providers opts) \<and> check_capabilities m (opt_catalog opts)"
  using assms by (auto simp: build_target_def Let_def split_beta not_less split: if_splits)

lemma built_usable:
  assumes "build_target reg s opts m st = (Some t, st')" and "gomap_ok (opt_providers opts)"
    and "\<not> is_paid_model_on_free_only_provider m (collect_free_only_providers (opt_providers opts))
           (opt_catalog opts) (opt_providers opts)"
  shows "usable opts t"
proof -
  note c = build_target_checks [OF assms(1)]
  have free: "free_on (opt_catalog opts) b (am_model m)"
    if p: "map_of (opt_providers opts) (am_provider m) = Some p" "billing p = Some b" "free_only b" for p b
  proof -
    have mem: "am_provider m \<in> set (collect_free_only_providers (opt_providers opts))"
      using map_of_SomeD [OF p(1)] p(2,3) by (force simp: collect_free_only_providers_def)
    show ?thesis
      using assms(3) mem p
      by (auto simp: is_paid_model_on_free_only_provider_def free_on_def split: option.splits if_splits)
  qed
  show ?thesis
    using c free
    by (auto simp: usable_def cool_key_of_def check_provider_and_local_def split: if_splits option.splits)
qed

lemma target_loop_members:
  assumes "target_loop reg opts clk free i ms active cooling s st = (active', cooling', s', st')"
    and "t \<in> set active' \<union> set cooling'"
  shows "t \<in> set active \<union> set cooling
    \<or> (\<exists>m \<in> set ms. \<exists>t0 s0 st0 st1. \<not> is_paid_model_on_free_only_provider m free (opt_catalog opts) (opt_providers opts)
        \<and> build_target reg s0 opts m st0 = (Some t0, st1) \<and> (t = t0 \<or> t = cooled t0))"
  using assms
proof (induction reg opts clk free i ms active cooling s st rule: target_loop.induct)
  case (2 reg opts clk free i m ms active cooling s st)
  show ?case
  proof (cases "is_paid_model_on_free_only_provider m free (opt_catalog opts) (opt_providers opts)")
    case True
    then show ?thesis using 2 by auto
  next
    case np: False
    obtain r st2 where r: "build_target reg s opts m st = (r, st2)" by force
    show ?thesis
    proof (cases r)
      case None
      then show ?thesis using 2 np r by auto
    next
      case (Some t1)
      then have t1: "build_target reg s opts m st = (Some t1, st2)" using r by simp
      show ?thesis
      proof (cases "is_model_locked (t_now (clk i)) (cool_key t1) (ag_cb s)")
        case True
        then show ?thesis using 2 np t1 by auto
      next
        case nl: False
        obtain up b where p: "peek (clk i) (cool_key t1) (ag_cb s) = (up, b)" by force
        show ?thesis
          using "2.IH"(4,5) [OF np t1 [symmetric] refl nl p [symmetric]] 2(6,7) np t1 nl p
          by (cases up) (auto simp: cooled_def)
      qed
    qed
  qed
qed auto

text \<open>
  Whatever the state of the breaker, the selector and the clock, every target of the list can
  be sent the request: it has an endpoint, the request's tokens fit its context window when that
  is known, its provider is configured with a key or needs none, and on a free-only provider the
  model is listed as free, has no known price, or is named a free model. Its circuit key names the
  agent, the provider and the model, and it is not marked as carrying the caller's own key.
\<close>

theorem listed_targets_are_usable:
  assumes "build_target_list reg opts clk s st = Some (ts, s', st')" and "t \<in> set ts"
    and "gomap_ok (opt_providers opts)"
  shows "usable opts t"
proof -
  let ?free = "collect_free_only_providers (opt_providers opts)"
  have loop: "usable opts t" if t: "t \<in> set (fst (target_loop reg opts clk ?free 0 ms [] [] s0 st))
        \<union> set (fst (snd (target_loop reg opts clk ?free 0 ms [] [] s0 st)))" for ms s0
  proof -
    obtain a c s1 st1 where l: "target_loop reg opts clk ?free 0 ms [] [] s0 st = (a, c, s1, st1)"
      by (metis prod_cases4)
    from t l have t: "t \<in> set a \<union> set c" by simp
    obtain m t0 s2 st2 st3 where m: "\<not> is_paid_model_on_free_only_provider m ?free (opt_catalog opts) (opt_providers opts)"
      "build_target reg s2 opts m st2 = (Some t0, st3)" "t = t0 \<or> t = cooled t0"
      using target_loop_members [OF l t] by auto
    from built_usable [OF m(2) assms(3) m(1)] m(3) show ?thesis by (auto simp: usable_def cooled_def)
  qed
  have "ts = [] \<or> (\<exists>ms s0. ts = fst (target_loop reg opts clk ?free 0 ms [] [] s0 st)
      @ fst (snd (target_loop reg opts clk ?free 0 ms [] [] s0 st)))"
    using assms(1) by (auto simp: build_target_list_def Let_def split_beta split: option.splits if_splits)
  then show ?thesis
  proof
    assume "\<exists>ms s0. ts = fst (target_loop reg opts clk ?free 0 ms [] [] s0 st)
      @ fst (snd (target_loop reg opts clk ?free 0 ms [] [] s0 st))"
    then obtain ms s0 where "ts = fst (target_loop reg opts clk ?free 0 ms [] [] s0 st)
      @ fst (snd (target_loop reg opts clk ?free 0 ms [] [] s0 st))" by blast
    with assms(2) show ?thesis by (intro loop [of ms s0]) simp
  qed (use assms(2) in simp)
qed

subsection \<open>Rotation is fair\<close>

fun starts :: "agent_config \<Rightarrow> string \<Rightarrow> int \<Rightarrow> nat \<Rightarrow> agent_state \<Rightarrow> int list" where
  "starts agent name n 0 s = []"
| "starts agent name n (Suc k) s =
     (case select_start agent name n s of (x, s) \<Rightarrow> x # starts agent name n k s)"

lemma starts_eq:
  assumes "strategy agent \<noteq> agent_strategy_fallback" "unat (get_or 0 (ag_counters s) name) + k \<le> 2 ^ 63" "0 < n"
  shows "starts agent name n k s = map (\<lambda>j. (int (unat (get_or 0 (ag_counters s) name)) + int j) mod n) [0..<k]"
  using assms(2)
proof (induction k arbitrary: s)
  case (Suc k)
  let ?c = "get_or 0 (ag_counters s) name"
  have lt: "unat ?c < 2 ^ 63" using Suc.prems by simp
  then have "int (unat ?c) < int (2 ^ 63)" by (simp only: of_nat_less_iff)
  then have "uint ?c < 2 ^ 63" by simp
  moreover have "- (2 ^ 63) \<le> uint ?c" by (rule order_trans [OF _ uint_ge_0]) simp
  ultimately have "signed_take_bit 63 (uint ?c) = uint ?c" by (intro signed_take_bit_int_eq_self)
  then have "sint ?c = int (unat ?c)" by (simp add: sint_uint)
  then have first: "go_rem (sint ?c) n = int (unat ?c) mod n" by (simp add: go_rem_def)
  have next_c: "unat (?c + 1) = unat ?c + 1"
    using lt by (simp add: unat_word_ariths)
  let ?s = "s\<lparr>ag_counters := put name (?c + 1) (ag_counters s)\<rparr>"
  have "starts agent name n k ?s = map (\<lambda>j. (int (unat ?c + 1) + int j) mod n) [0..<k]"
    using Suc.IH [of ?s] Suc.prems by (simp add: next_c)
  moreover have "map (\<lambda>j. (int (unat ?c) + int j) mod n) [0..<Suc k] =
      (int (unat ?c) mod n) # map (\<lambda>j. (int (unat ?c + 1) + int j) mod n) [0..<k]"
    by (subst map_upt_Suc) (simp add: algebra_simps)
  ultimately show ?case
    using assms(1) first by (simp add: select_start_def Let_def)
qed simp

text \<open>
  C16: under every strategy but fallback, the start position advances by one with each request of
  the agent, so that among as many consecutive requests as the chain has entries each entry
  leads exactly once. This holds until the counter reaches \<open>2^63\<close>.
\<close>

theorem rotation_gives_each_entry_the_lead:
  assumes "strategy agent \<noteq> agent_strategy_fallback" and "0 < n"
    and "unat (get_or 0 (ag_counters s) name) + n \<le> 2 ^ 63"
  shows "distinct (starts agent name (int n) n s) \<and> set (starts agent name (int n) n s) = {0..<int n}
    \<and> length (starts agent name (int n) n s) = n"
proof -
  let ?c = "int (unat (get_or 0 (ag_counters s) name))"
  have eq: "starts agent name (int n) n s = map (\<lambda>j. (?c + int j) mod int n) [0..<n]"
    using starts_eq [OF assms(1,3)] assms(2) by simp
  have inj: "inj_on (\<lambda>j. (?c + int j) mod int n) {0..<n}"
  proof (rule inj_onI)
    fix i j
    assume "i \<in> {0..<n}" "j \<in> {0..<n}" "(?c + int i) mod int n = (?c + int j) mod int n"
    then have d: "int n dvd int i - int j" and b: "i < n" "j < n" by (simp_all add: mod_eq_dvd_iff)
    then have d': "int n dvd int j - int i" by (simp add: dvd_diff_commute)
    show "i = j"
      using zdvd_not_zless [of "int i - int j" "int n"] zdvd_not_zless [of "int j - int i" "int n"] d d' b
      by (cases i j rule: linorder_cases) auto
  qed
  have dist: "distinct (starts agent name (int n) n s)"
    unfolding eq using inj by (simp add: distinct_map)
  have sub: "set (starts agent name (int n) n s) \<subseteq> {0..<int n}"
    unfolding eq using assms(2) by auto
  have len: "length (starts agent name (int n) n s) = n" by (simp add: eq)
  have "card (set (starts agent name (int n) n s)) = card {0..<int n}"
    using distinct_card [OF dist] len by simp
  then have "set (starts agent name (int n) n s) = {0..<int n}"
    using sub by (simp add: card_subset_eq)
  with dist len show ?thesis by blast
qed

subsection \<open>A chain of three models\<close>

definition ex_provider :: "string \<Rightarrow> provider" where
  "ex_provider n = \<lparr>pv_name = n, pv_url = ''https://'' @ n, pv_api_key = ''k'', auth_style = [], format_urls = [],
     billing = None, allowed_re = [], session_sticky_keys = None\<rparr>"

definition ex_model :: "string \<Rightarrow> string \<Rightarrow> agent_model" where
  "ex_model p m = zero_agent_model\<lparr>am_provider := p, am_model := m\<rparr>"

definition ex_agent :: agent_config where
  "ex_agent = \<lparr>strategy = ''round-robin'', agent_failure_threshold = 1, agent_success_threshold = 1,
     agent_models = [ex_model ''a'' ''x'', ex_model ''b'' ''y'', ex_model ''c'' ''z'']\<rparr>"

definition ex_opts :: "unit build_opts" where
  "ex_opts = \<lparr>agent_name = ''ag'', opt_agent = ex_agent, token_count = 10,
     opt_providers = [(''a'', ex_provider ''a''), (''b'', ex_provider ''b'')], opt_catalog = None,
     auto_context_skip = False, opt_selector = None, preferred = None\<rparr>"

text \<open>The state after one failure of the first model; provider \<open>c\<close> is not configured.\<close>

definition ex_state :: agent_state where
  "ex_state = (let s = new_agent_state None [(''ag'', ex_agent)] False None
     in s\<lparr>ag_cb := record_failure (at_second 1) ''ag:a:x'' [] (ag_cb s)\<rparr>)"

definition ex_targets :: "(string \<times> bool) list option" where
  "ex_targets = map_option (\<lambda>(ts, s, st). map (\<lambda>t. (cool_key t, t_cooling t)) ts)
     (build_target_list [] ex_opts (\<lambda>i. at_second 2) ex_state ())"

lemma ex_targets_value: "ex_targets = Some [(''ag:b:y'', False), (''ag:a:x'', True)]"
  by code_simp

theorem listed_targets_are_usable_witness:
  "\<exists>ts s'. build_target_list [] ex_opts (\<lambda>i. at_second 2) ex_state () = Some (ts, s', ())
    \<and> map cool_key ts = [''ag:b:y'', ''ag:a:x''] \<and> usable ex_opts (ts ! 0) \<and> usable ex_opts (ts ! 1)"
proof -
  obtain ts s' where b: "build_target_list [] ex_opts (\<lambda>i. at_second 2) ex_state () = Some (ts, s', ())"
    and m: "map (\<lambda>t. (cool_key t, t_cooling t)) ts = [(''ag:b:y'', False), (''ag:a:x'', True)]"
    using ex_targets_value unfolding ex_targets_def by auto
  have ok: "gomap_ok (opt_providers ex_opts)" by code_simp
  have l: "length ts = 2" using arg_cong [OF m, of length] by simp
  then have "usable ex_opts (ts ! 0)" "usable ex_opts (ts ! 1)"
    by (auto intro!: listed_targets_are_usable [OF b _ ok])
  moreover have "map cool_key ts = [''ag:b:y'', ''ag:a:x'']"
    using arg_cong [OF m, of "map fst"] by (simp add: comp_def)
  ultimately show ?thesis using b by (intro exI [of _ ts] exI [of _ s']) simp
qed

theorem target_list_is_active_then_cooling_witness:
  "\<exists>ts s'. build_target_list [] ex_opts (\<lambda>i. at_second 2) ex_state () = Some (ts, s', ())
    \<and> map (\<lambda>t. (cool_key t, t_cooling t)) ts = [(''ag:b:y'', False), (''ag:a:x'', True)]"
proof -
  have e: "expand_models [] (agent_name ex_opts) (opt_agent ex_opts) (opt_catalog ex_opts) (opt_providers ex_opts)
      (ag_selector_cache ex_state) = Some (agent_models ex_agent, [])"
    by (simp add: expand_models_def detect_model_flags_def ex_opts_def ex_agent_def ex_model_def
        zero_agent_model_def ex_state_def new_agent_state_def Let_def)
  have n: "agent_models ex_agent \<noteq> []" by (simp add: ex_agent_def)
  obtain start s' where st: "select_start (opt_agent ex_opts) (agent_name ex_opts) (int (length (agent_models ex_agent)))
      (ex_state\<lparr>ag_selector_cache := []\<rparr>) = (start, s')" by force
  have "fst (select_start (opt_agent ex_opts) (agent_name ex_opts) (int (length (agent_models ex_agent)))
      (ex_state\<lparr>ag_selector_cache := []\<rparr>)) = 0" by code_simp
  then have z: "0 \<le> start" using st by simp
  have room: "int (length (circuits (ag_cb ex_state))) + int (length (agent_models ex_agent)) \<le> max_circuits (ag_cb ex_state)"
    by code_simp
  from target_list_is_active_then_cooling [OF e n st z room, of "\<lambda>i. at_second 2" "()"]
  obtain ts s'' where b: "build_target_list [] ex_opts (\<lambda>i. at_second 2) ex_state () = Some (ts, s'', ())"
    by (auto simp: Let_def split_beta)
  with ex_targets_value show ?thesis by (simp add: ex_targets_def)
qed

theorem rotation_gives_each_entry_the_lead_witness:
  "set (starts ex_agent ''ag'' (int 3) 3 ex_state) = {0, 1, 2}"
proof -
  have h: "strategy ex_agent \<noteq> agent_strategy_fallback" "0 < (3 :: nat)"
    "unat (get_or 0 (ag_counters ex_state) ''ag'') + 3 \<le> 2 ^ 63"
    by (simp_all add: ex_agent_def agent_strategy_fallback_def ex_state_def new_agent_state_def Let_def)
  have "{0..<int 3} = {0, 1, 2}" by auto
  with rotation_gives_each_entry_the_lead [OF h] show ?thesis by simp
qed

end
