(* ===== verification/SchemaBudget.thy ===== *)
theory SchemaBudget
  imports Json
begin

text \<open>
  The input budget of a client-supplied JSON schema (internal/jsonschema/budget.go): an
  iterative walk over an explicit stack that refuses a schema with too many values, too deep a
  nesting or too many bytes before anything else is done with it. The stack is a list whose head
  is the last frame of the Go slice. The state of the loop is \<open>walk\<close>, one iteration is
  \<open>walk_step\<close>. \<^verbatim>\<open>json.Marshal\<close> is an argument.

  Shown: the walk ends, accepts exactly the schemas whose size, depth and bytes are within the
  caps and returns their exact size, its stack never outgrows the node budget, and every error
  reports a value over the limit it names.
\<close>

subsection \<open>Caps and errors\<close>

definition max_input_nodes :: nat where "max_input_nodes = 50000"
definition max_payload_nodes :: nat where "max_payload_nodes = 4 * max_input_nodes"
definition max_input_depth :: nat where "max_input_depth = 100"
definition max_input_bytes :: nat where "max_input_bytes = 2 ^ 20"

datatype dimension = Nodes | Payload_Nodes | Depth | Bytes

record budget_error =
  be_tool :: string
  be_dimension :: dimension
  be_limit :: nat
  be_observed :: nat

definition over_budget :: "string \<Rightarrow> dimension \<Rightarrow> nat \<Rightarrow> nat \<Rightarrow> budget_error" where
  "over_budget t d l v = \<lparr>be_tool = t, be_dimension = d, be_limit = l, be_observed = v\<rparr>"

lemma over_budget_sel [simp]:
  "be_tool (over_budget t d l v) = t" "be_dimension (over_budget t d l v) = d"
  "be_limit (over_budget t d l v) = l" "be_observed (over_budget t d l v) = v"
  by (simp_all add: over_budget_def)

text \<open>The second kind of error is \<^verbatim>\<open>json.Marshal\<close>'s, a fault of the server.\<close>

datatype walk_error = Over budget_error | Not_encodable

subsection \<open>The walk\<close>

record budget_frame =
  frame_value :: json
  frame_depth :: nat

definition frame :: "nat \<Rightarrow> json \<Rightarrow> budget_frame" where
  "frame d v = \<lparr>frame_value = v, frame_depth = d\<rparr>"

lemma frame_sel [simp]: "frame_value (frame d v) = v" "frame_depth (frame d v) = d"
  by (simp_all add: frame_def)

fun container_parts :: "json \<Rightarrow> (nat \<times> nat) option" where
  "container_parts (Obj m) = Some (length m, sum_list (map (\<lambda>(k, v). length k) m))"
| "container_parts (Arr vs) = Some (length vs, 0)"
| "container_parts _ = None"

fun append_children :: "budget_frame list \<Rightarrow> json \<Rightarrow> nat \<Rightarrow> budget_frame list" where
  "append_children stack (Obj m) d = rev (map (\<lambda>(k, v). frame d v) m) @ stack"
| "append_children stack (Arr vs) d = rev (map (frame d) vs) @ stack"
| "append_children stack _ d = stack"

record walk =
  stack :: "budget_frame list"
  nodes :: nat
  raw_bytes :: nat

text \<open>One iteration: the frame popped, the rest of the stack, the counters.\<close>

definition walk_step :: "string \<Rightarrow> nat \<Rightarrow> budget_frame \<Rightarrow> walk \<Rightarrow> budget_error + walk" where
  "walk_step tool limit f w =
    (let n = nodes w + 1 in
     if n > limit then Inl (over_budget tool Nodes limit n)
     else case frame_value f of
       Str text \<Rightarrow>
         (let b = raw_bytes w + length text in
          if b > max_input_bytes then Inl (over_budget tool Bytes max_input_bytes b)
          else Inr (w\<lparr>nodes := n, raw_bytes := b\<rparr>))
     | v \<Rightarrow>
        (case container_parts v of
           None \<Rightarrow> Inr (w\<lparr>nodes := n\<rparr>)
         | Some (n_children, key_bytes) \<Rightarrow>
            (let accounted = n + length (stack w) + n_children;
                 child_depth = frame_depth f + 1;
                 b = raw_bytes w + key_bytes
             in if accounted > limit then Inl (over_budget tool Nodes limit accounted)
                else if n_children > 0 \<and> child_depth > max_input_depth
                then Inl (over_budget tool Depth max_input_depth child_depth)
                else if b > max_input_bytes then Inl (over_budget tool Bytes max_input_bytes b)
                else Inr \<lparr>stack = append_children (stack w) v child_depth, nodes = n,
                          raw_bytes = b\<rparr>)))"

abbreviation pending :: "budget_frame list \<Rightarrow> nat" where
  "pending fs \<equiv> sum_list (map (\<lambda>f. json_nodes (frame_value f)) fs)"

lemma pending_append_children:
  "container_parts v = Some (c, kb) \<Longrightarrow> pending (append_children s v d) + 1 = json_nodes v + pending s"
  by (cases v) (auto simp: o_def split_beta' rev_map [symmetric] sum_list_rev)

lemma walk_step_pending:
  "walk_step tool limit f w = Inr w' \<Longrightarrow> pending (stack w') < pending (f # stack w)"
proof -
  assume s: "walk_step tool limit f w = Inr w'"
  show ?thesis
  proof (cases "container_parts (frame_value f)")
    case None
    then show ?thesis using s
      by (cases "frame_value f") (auto simp: walk_step_def Let_def split: if_splits)
  next
    case (Some p)
    then obtain c kb where p: "container_parts (frame_value f) = Some (c, kb)" by (cases p) auto
    have "stack w' = append_children (stack w) (frame_value f) (frame_depth f + 1)"
      using s p by (cases "frame_value f") (auto simp: walk_step_def Let_def split: if_splits)
    with pending_append_children [OF p, of "stack w" "frame_depth f + 1"] show ?thesis by simp
  qed
qed

function walk_loop :: "string \<Rightarrow> nat \<Rightarrow> walk \<Rightarrow> nat \<times> budget_error option" where
  "walk_loop tool limit w =
    (case stack w of
       [] \<Rightarrow> (nodes w, None)
     | f # rest \<Rightarrow>
        (case walk_step tool limit f (w\<lparr>stack := rest\<rparr>) of
           Inl e \<Rightarrow> (nodes w + 1, Some e)
         | Inr w' \<Rightarrow> walk_loop tool limit w'))"
  by pat_completeness auto
termination
proof (relation "measure (\<lambda>(tool, limit, w). pending (stack w))", goal_cases)
  case (2 tool limit w f rest w')
  then show ?case using walk_step_pending [of tool limit f "w\<lparr>stack := rest\<rparr>" w'] by simp
qed simp

declare walk_loop.simps [simp del]

definition start_walk :: "json \<Rightarrow> walk" where
  "start_walk schema = \<lparr>stack = [frame 0 schema], nodes = 0, raw_bytes = 0\<rparr>"

definition walk_schema_budget ::
  "(json \<Rightarrow> string option) \<Rightarrow> string \<Rightarrow> json \<Rightarrow> nat \<Rightarrow> nat \<times> walk_error option" where
  "walk_schema_budget marshal tool schema limit =
    (case walk_loop tool limit (start_walk schema) of
       (n, Some e) \<Rightarrow> (n, Some (Over e))
     | (n, None) \<Rightarrow>
        (case marshal schema of
           None \<Rightarrow> (n, Some Not_encodable)
         | Some enc \<Rightarrow>
            if length enc > max_input_bytes
            then (n, Some (Over (over_budget tool Bytes max_input_bytes (length enc))))
            else (n, None)))"

definition check_schema_budget :: "(json \<Rightarrow> string option) \<Rightarrow> string \<Rightarrow> json \<Rightarrow> walk_error option" where
  "check_schema_budget marshal tool schema =
    snd (walk_schema_budget marshal tool schema max_input_nodes)"

subsection \<open>Tool lists and response formats\<close>

definition tool_schema :: "(string, json) gomap \<Rightarrow> (string \<times> json) option" where
  "tool_schema tool =
    (case as_obj (map_of tool ''function'') of
       Some fn \<Rightarrow> Some (str_field fn ''name'', get_or Null fn ''parameters'')
     | None \<Rightarrow>
        (case map_of tool ''input_schema'' of
           Some schema \<Rightarrow> Some (str_field tool ''name'', schema)
         | None \<Rightarrow> None))"

fun tool_list_loop :: "(json \<Rightarrow> string option) \<Rightarrow> nat \<Rightarrow> json list \<Rightarrow> walk_error option" where
  "tool_list_loop marshal acc [] = None"
| "tool_list_loop marshal acc (raw # tools) =
    (case as_obj (Some raw) of
       None \<Rightarrow> tool_list_loop marshal acc tools
     | Some tool \<Rightarrow>
        (case tool_schema tool of
           None \<Rightarrow> tool_list_loop marshal acc tools
         | Some (name, schema) \<Rightarrow>
            (case walk_schema_budget marshal name schema max_input_nodes of
               (n, Some e) \<Rightarrow> Some e
             | (n, None) \<Rightarrow>
                (if acc + n > max_payload_nodes
                 then Some (Over (over_budget name Payload_Nodes max_payload_nodes (acc + n)))
                 else tool_list_loop marshal (acc + n) tools))))"

definition check_tool_list_budget :: "(json \<Rightarrow> string option) \<Rightarrow> json list \<Rightarrow> walk_error option" where
  "check_tool_list_budget marshal tools = tool_list_loop marshal 0 tools"

definition check_response_format_budget ::
  "(json \<Rightarrow> string option) \<Rightarrow> (string, json) gomap \<Rightarrow> walk_error option" where
  "check_response_format_budget marshal response_format =
    (case as_obj (map_of response_format ''json_schema'') of
       None \<Rightarrow> None
     | Some js \<Rightarrow>
        (case map_of js ''schema'' of
           None \<Rightarrow> None
         | Some schema \<Rightarrow> check_schema_budget marshal (str_field js ''name'') schema))"


subsection \<open>What the walk measures\<close>

text \<open>The raw bytes of all keys and strings.\<close>

fun json_raw :: "json \<Rightarrow> nat" where
  "json_raw (Obj m) = sum_list (map (\<lambda>(k, v). length k) m) + sum_list (map (\<lambda>(k, v). json_raw v) m)"
| "json_raw (Arr vs) = sum_list (map json_raw vs)"
| "json_raw (Str s) = length s"
| "json_raw _ = 0"

abbreviation pending_raw :: "budget_frame list \<Rightarrow> nat" where
  "pending_raw fs \<equiv> sum_list (map (\<lambda>f. json_raw (frame_value f)) fs)"

lemma append_children_eq: "append_children s v d = rev (map (frame d) (json_children v)) @ s"
  by (cases v) (auto simp: split_beta' o_def)

lemma container_parts_children:
  "container_parts v = Some (n, kb) \<Longrightarrow>
     n = length (json_children v) \<and> json_nodes v = Suc (sum_list (map json_nodes (json_children v)))
     \<and> json_raw v = kb + sum_list (map json_raw (json_children v))"
  by (cases v) (auto simp: split_beta' o_def)

lemma leaf_measures:
  "container_parts v = None \<Longrightarrow> json_children v = [] \<and> json_nodes v = 1 \<and> json_depth v = 0
     \<and> json_raw v = (case v of Str s \<Rightarrow> length s | _ \<Rightarrow> 0)"
  by (cases v) auto

lemma length_le_pending: "length fs \<le> pending fs"
proof (induction fs)
  case (Cons f fs)
  have "Suc 0 \<le> json_nodes (frame_value f)" by (simp add: Suc_le_eq)
  with Cons show ?case by (simp del: json_nodes_pos)
qed simp

lemma length_le_nodes: "length vs \<le> sum_list (map json_nodes vs)"
proof (induction vs)
  case (Cons v vs)
  have "Suc 0 \<le> json_nodes v" by (simp add: Suc_le_eq)
  with Cons show ?case by (simp del: json_nodes_pos)
qed simp

lemma walk_step_cases [consumes 0, case_names leaf string container]:
  fixes f :: budget_frame
  obtains "container_parts (frame_value f) = None" "\<forall>s. frame_value f \<noteq> Str s"
  | s where "frame_value f = Str s"
  | n kb where "container_parts (frame_value f) = Some (n, kb)"
  by (cases "frame_value f") auto

lemma walk_step_leaf:
  "container_parts (frame_value f) = None \<Longrightarrow> \<forall>s. frame_value f \<noteq> Str s \<Longrightarrow>
   walk_step tool limit f w =
     (if nodes w + 1 > limit then Inl (over_budget tool Nodes limit (nodes w + 1))
      else Inr (w\<lparr>nodes := nodes w + 1\<rparr>))"
  by (cases "frame_value f") (auto simp: walk_step_def)

lemma walk_step_string:
  "frame_value f = Str s \<Longrightarrow>
   walk_step tool limit f w =
     (if nodes w + 1 > limit then Inl (over_budget tool Nodes limit (nodes w + 1))
      else if raw_bytes w + length s > max_input_bytes
      then Inl (over_budget tool Bytes max_input_bytes (raw_bytes w + length s))
      else Inr (w\<lparr>nodes := nodes w + 1, raw_bytes := raw_bytes w + length s\<rparr>))"
  by (simp add: walk_step_def)

lemma walk_step_container:
  "container_parts (frame_value f) = Some (n, kb) \<Longrightarrow>
   walk_step tool limit f w =
     (let acc = nodes w + 1 + length (stack w) + n in
      if nodes w + 1 > limit then Inl (over_budget tool Nodes limit (nodes w + 1))
      else if acc > limit then Inl (over_budget tool Nodes limit acc)
      else if n > 0 \<and> frame_depth f + 1 > max_input_depth
      then Inl (over_budget tool Depth max_input_depth (frame_depth f + 1))
      else if raw_bytes w + kb > max_input_bytes
      then Inl (over_budget tool Bytes max_input_bytes (raw_bytes w + kb))
      else Inr \<lparr>stack = append_children (stack w) (frame_value f) (frame_depth f + 1),
                nodes = nodes w + 1, raw_bytes = raw_bytes w + kb\<rparr>)"
  by (cases "frame_value f") (auto simp: walk_step_def Let_def)


text \<open>The ways an iteration fails, and what it does when it goes on.\<close>

lemma walk_step_InlE:
  assumes "walk_step tool limit f w = Inl e"
  obtains (next_node) "limit < nodes w + 1" "e = over_budget tool Nodes limit (nodes w + 1)"
  | (long_text) s where "frame_value f = Str s" "max_input_bytes < raw_bytes w + length s"
      "e = over_budget tool Bytes max_input_bytes (raw_bytes w + length s)"
  | (wide) n kb where "container_parts (frame_value f) = Some (n, kb)"
      "limit < nodes w + 1 + length (stack w) + n"
      "e = over_budget tool Nodes limit (nodes w + 1 + length (stack w) + n)"
  | (deep) n kb where "container_parts (frame_value f) = Some (n, kb)" "0 < n"
      "max_input_depth < frame_depth f + 1"
      "e = over_budget tool Depth max_input_depth (frame_depth f + 1)"
  | (keys) n kb where "container_parts (frame_value f) = Some (n, kb)"
      "max_input_bytes < raw_bytes w + kb"
      "e = over_budget tool Bytes max_input_bytes (raw_bytes w + kb)"
proof (cases f rule: walk_step_cases)
  case leaf
  then have "limit < nodes w + 1 \<and> e = over_budget tool Nodes limit (nodes w + 1)"
    using assms walk_step_leaf [OF leaf, of tool limit w] by (simp split: if_splits)
  then show ?thesis using next_node by blast
next
  case (string s)
  then consider "limit < nodes w + 1 \<and> e = over_budget tool Nodes limit (nodes w + 1)"
    | "max_input_bytes < raw_bytes w + length s
        \<and> e = over_budget tool Bytes max_input_bytes (raw_bytes w + length s)"
    using assms walk_step_string [OF string, of tool limit w] by (simp split: if_splits)
  then show ?thesis using next_node long_text string by cases blast+
next
  case (container n kb)
  then consider "limit < nodes w + 1 \<and> e = over_budget tool Nodes limit (nodes w + 1)"
    | "limit < nodes w + 1 + length (stack w) + n
        \<and> e = over_budget tool Nodes limit (nodes w + 1 + length (stack w) + n)"
    | "0 < n \<and> max_input_depth < frame_depth f + 1
        \<and> e = over_budget tool Depth max_input_depth (frame_depth f + 1)"
    | "max_input_bytes < raw_bytes w + kb
        \<and> e = over_budget tool Bytes max_input_bytes (raw_bytes w + kb)"
    using assms walk_step_container [OF container, of tool limit w]
    by (simp add: Let_def split: if_splits)
  then show ?thesis using next_node wide deep keys container by cases blast+
qed

lemma walk_step_InrE:
  assumes "walk_step tool limit f w = Inr w'"
  obtains (plain) "container_parts (frame_value f) = None" "nodes w + 1 \<le> limit"
      "w' = w\<lparr>nodes := nodes w + 1, raw_bytes := raw_bytes w + json_raw (frame_value f)\<rparr>"
      "raw_bytes w + json_raw (frame_value f) \<le> max_input_bytes \<or> json_raw (frame_value f) = 0"
  | (container) n kb where "container_parts (frame_value f) = Some (n, kb)"
      "nodes w + 1 + length (stack w) + n \<le> limit"
      "0 < n \<longrightarrow> frame_depth f + 1 \<le> max_input_depth" "raw_bytes w + kb \<le> max_input_bytes"
      "w' = \<lparr>stack = append_children (stack w) (frame_value f) (frame_depth f + 1),
             nodes = nodes w + 1, raw_bytes = raw_bytes w + kb\<rparr>"
proof (cases f rule: walk_step_cases)
  case leaf
  then have "json_raw (frame_value f) = 0" by (cases "frame_value f") auto
  then show ?thesis
    using assms walk_step_leaf [OF leaf, of tool limit w] leaf(1)
    by (intro plain) (simp_all split: if_splits)
next
  case (string s)
  then show ?thesis
    using assms walk_step_string [OF string, of tool limit w]
    by (intro plain) (simp_all split: if_splits)
next
  case (container n kb)
  then show ?thesis
    using assms walk_step_container [OF container, of tool limit w]
    by (intro that(2)) (auto simp: Let_def not_less split: if_splits)
qed


text \<open>The totals a walk carries: what it has counted and what its stack still holds.\<close>

definition total_nodes :: "walk \<Rightarrow> nat" where
  "total_nodes w = nodes w + pending (stack w)"

definition total_raw :: "walk \<Rightarrow> nat" where
  "total_raw w = raw_bytes w + pending_raw (stack w)"

definition depth_le :: "nat \<Rightarrow> walk \<Rightarrow> bool" where
  "depth_le k w \<longleftrightarrow> (\<forall>f \<in> set (stack w). frame_depth f + json_depth (frame_value f) \<le> k)"

abbreviation pushed :: "budget_frame \<Rightarrow> walk \<Rightarrow> walk" where
  "pushed f w \<equiv> w\<lparr>stack := f # stack w\<rparr>"

lemma walk_step_totals:
  assumes "walk_step tool limit f w = Inr w'"
  shows "total_nodes w' = total_nodes (pushed f w)" "total_raw w' = total_raw (pushed f w)"
  using assms
  by (cases rule: walk_step_InrE;
      auto simp: total_nodes_def total_raw_def append_children_eq rev_map [symmetric] sum_list_rev
        o_def leaf_measures dest!: container_parts_children)+

lemma walk_step_depth:
  assumes "walk_step tool limit f w = Inr w'" and "frame_depth f \<le> k"
  shows "depth_le k w' \<longleftrightarrow> depth_le k (pushed f w)"
  using assms(1)
proof (cases rule: walk_step_InrE)
  case plain
  then show ?thesis using assms(2) leaf_measures [OF plain(1)] by (simp add: depth_le_def)
next
  case (container n kb)
  show ?thesis
    using container(5) assms(2) json_depth_children [of "frame_depth f" "frame_value f" k]
    by (cases "json_children (frame_value f) = []") (simp_all add: depth_le_def append_children_eq ball_Un)
qed

definition counters_ok :: "nat \<Rightarrow> walk \<Rightarrow> bool" where
  "counters_ok limit w \<longleftrightarrow>
     nodes w + length (stack w) \<le> limit \<and> raw_bytes w \<le> max_input_bytes
     \<and> (\<forall>f \<in> set (stack w). frame_depth f \<le> max_input_depth)"

lemma walk_step_counters:
  assumes "walk_step tool limit f w = Inr w'" and "counters_ok limit (pushed f w)"
  shows "counters_ok limit w'"
  using assms(1)
proof (cases rule: walk_step_InrE)
  case plain
  then show ?thesis using assms(2) by (auto simp: counters_ok_def)
next
  case (container n kb)
  then show ?thesis using assms(2) container_parts_children [OF container(1)]
    by (auto simp: counters_ok_def append_children_eq)
qed

lemma walk_step_over:
  assumes "walk_step tool limit f w = Inl e"
  shows "be_tool e = tool" "be_limit e < be_observed e"
    and "(be_dimension e, be_limit e) \<in> {(Nodes, limit), (Depth, max_input_depth), (Bytes, max_input_bytes)}"
    and "be_dimension e = Nodes \<Longrightarrow> be_observed e \<le> total_nodes (pushed f w)"
    and "be_dimension e = Depth \<Longrightarrow> be_observed e \<le> frame_depth f + json_depth (frame_value f)"
    and "be_dimension e = Bytes \<Longrightarrow> be_observed e \<le> total_raw (pushed f w)"
proof -
  have deeper: "frame_depth f + 1 \<le> frame_depth f + json_depth (frame_value f)"
    if "container_parts (frame_value f) = Some (n, kb)" "0 < n" for n kb
    using that by (cases "frame_value f") auto
  have total: "nodes w + 1 + length (stack w) + n \<le> total_nodes (pushed f w)"
    if "container_parts (frame_value f) = Some (n, kb)" for n kb
    using container_parts_children [OF that] length_le_nodes [of "json_children (frame_value f)"]
      length_le_pending [of "stack w"] by (simp add: total_nodes_def)
  have "Suc 0 \<le> json_nodes (frame_value f)" by (simp add: Suc_le_eq)
  then have one: "nodes w + 1 \<le> total_nodes (pushed f w)"
    by (simp add: total_nodes_def del: json_nodes_pos)
  have "be_tool e = tool \<and> be_limit e < be_observed e
      \<and> (be_dimension e, be_limit e) \<in> {(Nodes, limit), (Depth, max_input_depth), (Bytes, max_input_bytes)}
      \<and> (be_dimension e = Nodes \<longrightarrow> be_observed e \<le> total_nodes (pushed f w))
      \<and> (be_dimension e = Depth \<longrightarrow> be_observed e \<le> frame_depth f + json_depth (frame_value f))
      \<and> (be_dimension e = Bytes \<longrightarrow> be_observed e \<le> total_raw (pushed f w))"
    using assms
  proof (cases rule: walk_step_InlE)
    case next_node
    then show ?thesis using one by simp
  next
    case (long_text s)
    then show ?thesis by (simp add: total_raw_def)
  next
    case (wide n kb)
    then show ?thesis using total [OF wide(1)] by simp
  next
    case (deep n kb)
    then show ?thesis using deeper [OF deep(1,2)] by simp
  next
    case (keys n kb)
    then show ?thesis using container_parts_children [OF keys(1)] by (simp add: total_raw_def)
  qed
  then show "be_tool e = tool" "be_limit e < be_observed e"
    and "(be_dimension e, be_limit e) \<in> {(Nodes, limit), (Depth, max_input_depth), (Bytes, max_input_bytes)}"
    and "be_dimension e = Nodes \<Longrightarrow> be_observed e \<le> total_nodes (pushed f w)"
    and "be_dimension e = Depth \<Longrightarrow> be_observed e \<le> frame_depth f + json_depth (frame_value f)"
    and "be_dimension e = Bytes \<Longrightarrow> be_observed e \<le> total_raw (pushed f w)"
    by simp_all
qed


subsection \<open>The verdict\<close>

definition reports :: "string \<Rightarrow> nat \<Rightarrow> walk \<Rightarrow> budget_error \<Rightarrow> bool" where
  "reports tool limit w e \<longleftrightarrow>
     be_tool e = tool \<and> be_limit e < be_observed e
     \<and> (be_dimension e, be_limit e)
         \<in> {(Nodes, limit), (Depth, max_input_depth), (Bytes, max_input_bytes)}
     \<and> (be_dimension e = Nodes \<longrightarrow> be_observed e \<le> total_nodes w)
     \<and> (be_dimension e = Depth \<longrightarrow> (\<forall>k. depth_le k w \<longrightarrow> be_observed e \<le> k))
     \<and> (be_dimension e = Bytes \<longrightarrow> be_observed e \<le> total_raw w)"

definition fits :: "nat \<Rightarrow> walk \<Rightarrow> bool" where
  "fits limit w \<longleftrightarrow>
     total_nodes w \<le> limit \<and> depth_le max_input_depth w \<and> total_raw w \<le> max_input_bytes"

lemma reports_not_fits: "reports tool limit w e \<Longrightarrow> \<not> fits limit w"
  by (fastforce simp: reports_def fits_def)

lemma walk_loop_verdict:
  assumes "counters_ok limit w"
  shows "case walk_loop tool limit w of
           (n, None) \<Rightarrow> n = total_nodes w \<and> fits limit w
         | (n, Some e) \<Rightarrow> reports tool limit w e"
  using assms
proof (induction tool limit w rule: walk_loop.induct)
  case (1 tool limit w)
  show ?case
  proof (cases "stack w")
    case Nil
    then show ?thesis using "1.prems"
      by (simp add: walk_loop.simps counters_ok_def fits_def total_nodes_def total_raw_def depth_le_def)
  next
    case (Cons f rest)
    let ?w = "w\<lparr>stack := rest\<rparr>"
    have w: "pushed f ?w = w" using Cons by simp
    show ?thesis
    proof (cases "walk_step tool limit f ?w")
      case (Inl e)
      note over = walk_step_over [OF Inl, unfolded w]
      have "be_observed e \<le> k" if "be_dimension e = Depth" "depth_le k w" for k
        using over(5) [OF that(1)] that(2) Cons by (simp add: depth_le_def)
      then have "reports tool limit w e"
        using over by (simp add: reports_def)
      then show ?thesis using Cons Inl by (simp add: walk_loop.simps [of _ _ w])
    next
      case (Inr w')
      note tot = walk_step_totals [OF Inr, unfolded w]
      have deep: "depth_le k w' \<longleftrightarrow> depth_le k w" if "frame_depth f \<le> k" for k
        using walk_step_depth [OF Inr that, unfolded w] .
      have "frame_depth f \<le> max_input_depth" using "1.prems" Cons by (simp add: counters_ok_def)
      then have "fits limit w' \<longleftrightarrow> fits limit w" using tot deep by (simp add: fits_def)
      moreover have "reports tool limit w' e \<Longrightarrow> reports tool limit w e" for e
        using tot deep Cons by (fastforce simp: reports_def depth_le_def)
      moreover have "counters_ok limit w'"
        using walk_step_counters [OF Inr] "1.prems" w by simp
      note "1.IH" [OF Cons Inr this]
      moreover have "walk_loop tool limit w = walk_loop tool limit w'"
        using Cons Inr by (simp add: walk_loop.simps [of _ _ w])
      ultimately show ?thesis using tot by (auto split: prod.splits option.splits)
    qed
  qed
qed

lemma start_totals [simp]:
  "total_nodes (start_walk v) = json_nodes v" "total_raw (start_walk v) = json_raw v"
  "depth_le k (start_walk v) \<longleftrightarrow> json_depth v \<le> k"
  by (simp_all add: start_walk_def total_nodes_def total_raw_def depth_le_def)

lemma start_counters: "0 < limit \<Longrightarrow> counters_ok limit (start_walk v)"
  by (simp add: start_walk_def counters_ok_def max_input_depth_def)

lemma fits_start:
  "fits limit (start_walk v) \<longleftrightarrow>
     json_nodes v \<le> limit \<and> json_depth v \<le> max_input_depth \<and> json_raw v \<le> max_input_bytes"
  by (simp add: fits_def)

definition schema_accepted :: "(json \<Rightarrow> string option) \<Rightarrow> json \<Rightarrow> bool" where
  "schema_accepted marshal schema \<longleftrightarrow>
     json_nodes schema \<le> max_input_nodes \<and> json_depth schema \<le> max_input_depth
     \<and> json_raw schema \<le> max_input_bytes
     \<and> (case marshal schema of None \<Rightarrow> False | Some enc \<Rightarrow> length enc \<le> max_input_bytes)"

lemma walk_accepts:
  "walk_schema_budget marshal tool schema max_input_nodes = (n, None) \<longleftrightarrow>
     n = json_nodes schema \<and> schema_accepted marshal schema"
proof -
  let ?w = "start_walk schema"
  have "counters_ok max_input_nodes ?w" by (rule start_counters) (simp add: max_input_nodes_def)
  note v = walk_loop_verdict [OF this, of tool]
  show ?thesis
  proof (cases "walk_loop tool max_input_nodes ?w")
    case (Pair m r)
    show ?thesis
    proof (cases r)
      case None
      then show ?thesis using v Pair
        by (auto simp: walk_schema_budget_def fits_start schema_accepted_def split: option.splits)
    next
      case (Some e)
      then have "\<not> fits max_input_nodes ?w" using v Pair by (auto dest: reports_not_fits)
      then show ?thesis using Some Pair
        by (auto simp: walk_schema_budget_def fits_start schema_accepted_def)
    qed
  qed
qed

text \<open>
  C35: The walk of a schema (with the per-schema cap every caller passes) accepts exactly the
  schemas with at most 50000 values, at most 100 levels and, raw and encoded, at most a
  mebibyte, and then returns the exact number of values; the explicit stack, the early
  rejections and the order of the frames make no difference to the verdict.
\<close>

theorem budget_accepts_exactly:
  "walk_schema_budget marshal tool schema max_input_nodes = (n, None) \<longleftrightarrow>
     n = json_nodes schema \<and> json_nodes schema \<le> max_input_nodes
     \<and> json_depth schema \<le> max_input_depth \<and> json_raw schema \<le> max_input_bytes
     \<and> (case marshal schema of None \<Rightarrow> False | Some enc \<Rightarrow> length enc \<le> max_input_bytes)"
  by (simp add: walk_accepts schema_accepted_def)

text \<open>
  Every rejection is true: the reported value is over the reported limit, the limit is the
  cap of the reported dimension, and the value reported is reached by the schema (its number of
  values, its depth, its raw or encoded bytes are at least that much).
\<close>

theorem budget_error_is_true:
  assumes "walk_schema_budget marshal tool schema max_input_nodes = (n, Some (Over e))"
  shows "be_tool e = tool \<and> be_limit e < be_observed e \<and>
    (case be_dimension e of
       Nodes \<Rightarrow> be_limit e = max_input_nodes \<and> be_observed e \<le> json_nodes schema
     | Depth \<Rightarrow> be_limit e = max_input_depth \<and> be_observed e \<le> json_depth schema
     | Bytes \<Rightarrow> be_limit e = max_input_bytes
         \<and> (be_observed e \<le> json_raw schema \<or> Some (be_observed e) = map_option length (marshal schema))
     | Payload_Nodes \<Rightarrow> False)"
proof -
  let ?w = "start_walk schema"
  have "counters_ok max_input_nodes ?w" by (rule start_counters) (simp add: max_input_nodes_def)
  note v = walk_loop_verdict [OF this, of tool]
  show ?thesis
  proof (cases "walk_loop tool max_input_nodes ?w")
    case (Pair m r)
    show ?thesis
    proof (cases r)
      case None
      then show ?thesis using assms Pair
        by (auto simp: walk_schema_budget_def split: option.splits if_splits)
    next
      case (Some e')
      then have "e' = e" using assms Pair by (simp add: walk_schema_budget_def)
      with v Pair Some have "reports tool max_input_nodes ?w e" by simp
      then show ?thesis by (cases "be_dimension e") (auto simp: reports_def)
    qed
  qed
qed

lemma budget_error_is_true_witness:
  "walk_schema_budget (\<lambda>_. Some (replicate 1048577 CHR ''x'')) ''t'' (Arr [Null]) max_input_nodes
     = (Suc 1, Some (Over (over_budget ''t'' Bytes 1048576 1048577)))
   \<and> be_limit (over_budget ''t'' Bytes 1048576 1048577) < 1048577"
proof -
  have e: "walk_schema_budget (\<lambda>_. Some (replicate 1048577 CHR ''x'')) ''t'' (Arr [Null]) max_input_nodes
     = (Suc 1, Some (Over (over_budget ''t'' Bytes 1048576 1048577)))"
    by (simp add: walk_schema_budget_def start_walk_def walk_loop.simps walk_step_def
        max_input_nodes_def max_input_depth_def max_input_bytes_def)
  show ?thesis using budget_error_is_true [OF e] e by simp
qed

text \<open>The states the loop of one walk goes through.\<close>

inductive walk_reach :: "string \<Rightarrow> nat \<Rightarrow> json \<Rightarrow> walk \<Rightarrow> bool"
  for tool limit schema where
  walk_reach_start: "walk_reach tool limit schema (start_walk schema)"
| walk_reach_step: "walk_reach tool limit schema w \<Longrightarrow> stack w = f # rest \<Longrightarrow>
    walk_step tool limit f (w\<lparr>stack := rest\<rparr>) = Inr w' \<Longrightarrow> walk_reach tool limit schema w'"

lemma walk_reach_counters:
  assumes "walk_reach tool limit schema w" and "0 < limit"
  shows "counters_ok limit w"
  using assms(1)
proof induction
  case walk_reach_start
  show ?case using assms(2) by (rule start_counters)
next
  case (walk_reach_step w f rest w')
  then have "pushed f (w\<lparr>stack := rest\<rparr>) = w" by simp
  then have "counters_ok limit (pushed f (w\<lparr>stack := rest\<rparr>))"
    using walk_reach_step.IH by (simp only:)
  with walk_reach_step.hyps(3) show ?case by (rule walk_step_counters)
qed

text \<open>
  Whatever schema a client sends, the frames on the stack and the values counted together
  never exceed the node cap, and the raw bytes counted never exceed the byte cap: the
  bookkeeping of the walk is bounded by the budget, not by the schema.
\<close>

theorem walk_bookkeeping_bounded:
  assumes "walk_reach tool max_input_nodes schema w"
  shows "nodes w + length (stack w) \<le> max_input_nodes \<and> raw_bytes w \<le> max_input_bytes"
  using walk_reach_counters [OF assms] by (simp add: counters_ok_def max_input_nodes_def)

lemma walk_bookkeeping_bounded_witness:
  "walk_reach ''t'' max_input_nodes (Arr [Null, Null])
      \<lparr>stack = [frame 1 Null, frame 1 Null], nodes = 1, raw_bytes = 0\<rparr>
   \<and> (1::nat) + 2 \<le> max_input_nodes"
proof -
  let ?w = "\<lparr>stack = [frame 1 Null, frame 1 Null], nodes = 1, raw_bytes = 0\<rparr> :: walk"
  have s: "walk_step ''t'' max_input_nodes (frame 0 (Arr [Null, Null]))
      (start_walk (Arr [Null, Null])\<lparr>stack := []\<rparr>) = Inr ?w"
    by (simp add: walk_step_def start_walk_def max_input_nodes_def max_input_depth_def
        max_input_bytes_def)
  have "walk_reach ''t'' max_input_nodes (Arr [Null, Null]) ?w"
    by (rule walk_reach_step [OF walk_reach_start _ s]) (simp add: start_walk_def)
  from walk_bookkeeping_bounded [OF this] this show ?thesis by (simp add: numeral_2_eq_2)
qed

subsection \<open>A list of tools\<close>

text \<open>The argument schemas a list of tools declares; other shapes are skipped.\<close>

definition declared_schemas :: "json list \<Rightarrow> json list" where
  "declared_schemas tools =
     List.map_filter (\<lambda>raw. case as_obj (Some raw) of None \<Rightarrow> None
                             | Some tool \<Rightarrow> map_option snd (tool_schema tool)) tools"

lemma tool_list_loop_accepts:
  "acc \<le> max_payload_nodes \<Longrightarrow>
   tool_list_loop marshal acc tools = None \<longleftrightarrow>
     list_all (schema_accepted marshal) (declared_schemas tools)
     \<and> acc + sum_list (map json_nodes (declared_schemas tools)) \<le> max_payload_nodes"
proof (induction marshal acc tools rule: tool_list_loop.induct)
  case (1 marshal acc)
  then show ?case by (simp add: declared_schemas_def map_filter_simps)
next
  case (2 marshal acc raw tools)
  show ?case
  proof (cases "\<exists>tool name schema. as_obj (Some raw) = Some tool \<and> tool_schema tool = Some (name, schema)")
    case False
    then show ?thesis using 2
      by (auto simp: declared_schemas_def map_filter_simps split: option.splits)
  next
    case True
    then obtain tool name schema where
      t: "as_obj (Some raw) = Some tool" "tool_schema tool = Some (name, schema)" by blast
    then have d: "declared_schemas (raw # tools) = schema # declared_schemas tools"
      by (simp add: declared_schemas_def map_filter_simps)
    obtain n r where w: "walk_schema_budget marshal name schema max_input_nodes = (n, r)" by force
    show ?thesis
    proof (cases r)
      case (Some e)
      then have "\<not> schema_accepted marshal schema"
        using w walk_accepts [of marshal name schema "json_nodes schema"] by auto
      then show ?thesis using t w Some d by simp
    next
      case None
      then have "n = json_nodes schema" "schema_accepted marshal schema"
        using w walk_accepts [of marshal name schema n] by auto
      then show ?thesis using t w None d "2.IH"(3) [OF t(1) t(2) refl w [symmetric]]
        by (cases "acc + n \<le> max_payload_nodes") (auto simp: add.assoc)
    qed
  qed
qed

text \<open>
  A list of tools is accepted exactly when each argument schema it declares is accepted and
  the schemas together have at most 200000 values; declarations of another shape are skipped.
\<close>

theorem tool_list_accepts_exactly:
  "check_tool_list_budget marshal tools = None \<longleftrightarrow>
     list_all (schema_accepted marshal) (declared_schemas tools)
     \<and> sum_list (map json_nodes (declared_schemas tools)) \<le> max_payload_nodes"
  using tool_list_loop_accepts [of 0] by (simp add: check_tool_list_budget_def)

end
