(* ===== verification/SchemaSanitize.thy ===== *)
theory SchemaSanitize
  imports Json Text "HOL-Library.List_Lexorder" "HOL-Library.Char_ord"
begin

text \<open>
  The schema sanitiser (internal/jsonschema/sanitize.go): a decoded tool schema is rewritten
  into one every provider accepts. The receiver \<^verbatim>\<open>sanitizer\<close> is the record \<open>sanitizer\<close>, threaded
  through the mutually recursive operations \<open>node\<close>, \<open>source_loop\<close> (the loop of \<^verbatim>\<open>node\<close> over
  the source), \<open>keyword\<close>, \<open>subschema_items\<close> and \<open>subschema_entries\<close> (the loops of
  \<^verbatim>\<open>subschemaList\<close>, \<^verbatim>\<open>items\<close> and \<^verbatim>\<open>subschemaTable\<close>). A Go map is its association list in
  iteration order. Whether RE2 compiles a pattern is the argument \<open>re2\<close>.
\<close>

subsection \<open>Constants\<close>

definition max_depth :: nat where "max_depth = 32"
definition max_ref_hops :: nat where "max_ref_hops = 8"
definition max_nodes :: nat where "max_nodes = 20000"
definition max_properties :: nat where "max_properties = 1024"
definition max_tool_name_len :: nat where "max_tool_name_len = 64"

definition dialect_keywords :: "string list" where
  "dialect_keywords = [''$schema'', ''$id'', ''$anchor'', ''$dynamicAnchor'', ''$dynamicRef'',
     ''$recursiveAnchor'', ''$recursiveRef'', ''$vocabulary'', ''$comment'']"

definition definition_keywords :: "string list" where
  "definition_keywords = [''$defs'', ''definitions'']"

definition subschema_keyword :: "string list" where
  "subschema_keyword = [''not'', ''if'', ''then'', ''else'', ''contains'', ''propertyNames'',
     ''contentSchema'', ''additionalItems'']"

definition bool_or_subschema_keyword :: "string list" where
  "bool_or_subschema_keyword = [''additionalProperties'', ''unevaluatedProperties'', ''unevaluatedItems'']"

definition subschema_list_kw :: "string list" where
  "subschema_list_kw = [''allOf'', ''anyOf'', ''oneOf'', ''prefixItems'']"

definition subschema_map_kw :: "string list" where
  "subschema_map_kw = [''properties'', ''patternProperties'', ''dependentSchemas'']"

definition json_schema_types :: "string list" where
  "json_schema_types = [''object'', ''array'', ''string'', ''number'', ''integer'', ''boolean'', ''null'']"

lemmas keyword_defs = dialect_keywords_def definition_keywords_def subschema_keyword_def
  bool_or_subschema_keyword_def subschema_list_kw_def subschema_map_kw_def

subsection \<open>Strings\<close>

definition stripped_byte :: "char \<Rightarrow> bool" where
  "stripped_byte c \<longleftrightarrow>
     byte c = 127 \<or> (byte c < 32 \<and> byte c \<noteq> 9 \<and> byte c \<noteq> 10 \<and> byte c \<noteq> 13)"

definition is_stripped_control :: "string \<Rightarrow> bool" where
  "is_stripped_control r = (case r of [c] \<Rightarrow> stripped_byte c | _ \<Rightarrow> False)"

definition strip_control_chars :: "string \<Rightarrow> string" where
  "strip_control_chars text =
     (if \<not> list_ex is_stripped_control (runes text) then text
      else concat (map write_rune (filter (\<lambda>r. \<not> is_stripped_control r) (runes text))))"

text \<open>The two regular expressions, spelled out over the suffixes of the pattern.\<close>

definition unicode_property_escape :: "string \<Rightarrow> bool" where
  "unicode_property_escape p \<longleftrightarrow> contains_any p [[char_of (92 :: nat), CHR ''p'', CHR ''{''],
     [char_of (92 :: nat), CHR ''P'', CHR ''{'']]"

definition is_digit19 :: "char \<Rightarrow> bool" where
  "is_digit19 c \<longleftrightarrow> in_range 49 57 (byte c)"

definition is_letter :: "char \<Rightarrow> bool" where
  "is_letter c \<longleftrightarrow> in_range 65 90 (byte c) \<or> in_range 97 122 (byte c)"

definition ecma_at :: "string \<Rightarrow> bool" where
  "ecma_at s \<longleftrightarrow> list_ex (has_prefix s) [''(?='', ''(?!'', ''(?<='', ''(?<!'']
     \<or> (has_prefix s [char_of (92 :: nat)] \<and> list_ex is_digit19 (take 1 (drop 1 s)))
     \<or> (has_prefix s ''(?<'' \<and> list_ex is_letter (take 1 (drop 3 s)))"

definition ecma_only_construct :: "string \<Rightarrow> bool" where
  "ecma_only_construct p \<longleftrightarrow> list_ex ecma_at (suffixes p)"

definition pattern_allowed :: "(string \<Rightarrow> bool) \<Rightarrow> string \<Rightarrow> bool" where
  "pattern_allowed re2 p =
     (if p = [] then False else if unicode_property_escape p then False
      else if ecma_only_construct p then True else re2 p)"

subsection \<open>Types, required names and plain values\<close>

definition normalize_type_name :: "string \<Rightarrow> string" where
  "normalize_type_name name =
     (let n = trim_space (to_lower (strip_control_chars name))
      in if n \<in> set json_schema_types then n else [])"

text \<open>The loop over the members of a type array: \<open>None\<close> is the early return of nil.\<close>

fun type_members :: "json list \<Rightarrow> json list option" where
  "type_members [] = Some []"
| "type_members (Str s # ms) =
    (let n = normalize_type_name s
     in if n = [] then None else map_option ((#) (Str n)) (type_members ms))"
| "type_members (_ # ms) = None"

fun normalized_type_value :: "json \<Rightarrow> json option" where
  "normalized_type_value (Str s) =
    (let n = normalize_type_name s in if n = [] then None else Some (Str n))"
| "normalized_type_value (Arr ms) =
    (case type_members ms of
       None \<Rightarrow> None
     | Some lowered \<Rightarrow> if lowered = [] then None else Some (Arr lowered))"
| "normalized_type_value _ = None"

fun required_names :: "json list \<Rightarrow> json list" where
  "required_names [] = []"
| "required_names (Str s # vs) =
    (let n = strip_control_chars s in if n = [] then required_names vs else Str n # required_names vs)"
| "required_names (_ # vs) = required_names vs"

definition sanitize_required :: "json \<Rightarrow> json option" where
  "sanitize_required v = map_option (\<lambda>vs. Arr (required_names vs)) (as_arr (Some v))"

definition dropped_key :: "string \<Rightarrow> bool" where
  "dropped_key k \<longleftrightarrow> k = [] \<or> k \<in> set dialect_keywords \<or> k \<in> set definition_keywords \<or> k = ''$ref''"

text \<open>Values of keywords that hold no schema. The recursion is over the value; the map under
  construction is the accumulator of \<open>sanitize_entries\<close>.\<close>

fun sanitize_value :: "json \<Rightarrow> nat \<Rightarrow> json"
  and sanitize_elements :: "json list \<Rightarrow> nat \<Rightarrow> json list"
  and sanitize_entries :: "(string \<times> json) list \<Rightarrow> nat \<Rightarrow> (string, json) gomap \<Rightarrow> (string, json) gomap"
where
  "sanitize_value v depth =
    (if depth > max_depth then Null
     else case v of
       Str s \<Rightarrow> Str (strip_control_chars s)
     | Arr vs \<Rightarrow> Arr (sanitize_elements vs (depth + 1))
     | Obj m \<Rightarrow> Obj (sanitize_entries m (depth + 1) [])
     | _ \<Rightarrow> v)"
| "sanitize_elements [] depth = []"
| "sanitize_elements (v # vs) depth = sanitize_value v depth # sanitize_elements vs depth"
| "sanitize_entries [] depth out = out"
| "sanitize_entries ((raw, v) # m) depth out =
    (let key = strip_control_chars raw
     in if dropped_key key then sanitize_entries m depth out
        else sanitize_entries m depth (put key (sanitize_value v depth) out))"

definition normalize_type :: "(string, json) gomap \<Rightarrow> (string, json) gomap" where
  "normalize_type schema =
    (if map_of schema ''type'' \<noteq> None then schema
     else if map_of schema ''properties'' \<noteq> None then put ''type'' (Str ''object'') schema
     else if map_of schema ''patternProperties'' \<noteq> None then put ''type'' (Str ''object'') schema
     else if map_of schema ''items'' \<noteq> None then put ''type'' (Str ''array'') schema
     else if map_of schema ''prefixItems'' \<noteq> None then put ''type'' (Str ''array'') schema
     else schema)"

definition kept_name :: "(string, json) gomap \<Rightarrow> json \<Rightarrow> bool" where
  "kept_name props name = (case as_str (Some name) of None \<Rightarrow> True | Some s \<Rightarrow> map_of props s \<noteq> None)"

definition prune_required :: "(string, json) gomap \<Rightarrow> (string, json) gomap" where
  "prune_required schema =
    (case as_arr (map_of schema ''required'') of
       None \<Rightarrow> schema
     | Some required \<Rightarrow>
        (case as_obj (map_of schema ''properties'') of
           None \<Rightarrow> schema
         | Some props \<Rightarrow>
            if props = [] then schema
            else let kept = filter (kept_name props) required
                 in if kept = [] then del ''required'' schema
                    else put ''required'' (Arr kept) schema))"

subsection \<open>References\<close>

record scope =
  table :: "(string, json) gomap"
  scope_gen :: nat

record sanitizer =
  s_nodes :: nat
  s_gen :: nat
  memo :: "(nat \<times> string, (string, json) gomap) gomap"

definition has_definition_table :: "(string, json) gomap \<Rightarrow> bool" where
  "has_definition_table m = list_ex (\<lambda>k. map_of m k \<noteq> None) definition_keywords"

definition merge_table :: "(string, json) gomap \<Rightarrow> string \<Rightarrow> (string, json) gomap \<Rightarrow> (string, json) gomap" where
  "merge_table m k merged =
    (case as_obj (map_of m k) of None \<Rightarrow> merged | Some t \<Rightarrow> fold (\<lambda>(n, v). put n v) t merged)"

definition extend_scope :: "scope option \<Rightarrow> (string, json) gomap \<Rightarrow> sanitizer \<Rightarrow> scope \<times> sanitizer" where
  "extend_scope outer m st =
    (if \<not> has_definition_table m
     then (case outer of Some s \<Rightarrow> s | None \<Rightarrow> \<lparr>table = [], scope_gen = 0\<rparr>, st)
     else let gen = s_gen st + 1;
              base = (case outer of Some s \<Rightarrow> table s | None \<Rightarrow> [])
          in (\<lparr>table = fold (merge_table m) [''definitions'', ''$defs''] base, scope_gen = gen\<rparr>,
              st\<lparr>s_gen := gen\<rparr>))"

fun replace_all2 :: "char \<Rightarrow> char \<Rightarrow> char \<Rightarrow> string \<Rightarrow> string" where
  "replace_all2 a b r (x # y # s) =
    (if x = a \<and> y = b then r # replace_all2 a b r s else x # replace_all2 a b r (y # s))"
| "replace_all2 a b r s = s"

definition unescape_pointer :: "string \<Rightarrow> string" where
  "unescape_pointer s =
     replace_all2 CHR ''~'' CHR ''0'' CHR ''~'' (replace_all2 CHR ''~'' CHR ''1'' CHR ''/'' s)"

fun walk_pointer :: "json \<Rightarrow> string list \<Rightarrow> json option" where
  "walk_pointer v [] = Some v"
| "walk_pointer v (seg # segs) =
    (case as_obj (Some v) of
       None \<Rightarrow> None
     | Some t \<Rightarrow>
        (case map_of t (unescape_pointer seg) of
           None \<Rightarrow> None
         | Some v' \<Rightarrow> walk_pointer v' segs))"

fun join :: "string \<Rightarrow> string list \<Rightarrow> string" where
  "join sep [] = []"
| "join sep [s] = s"
| "join sep (s # ss) = s @ sep @ join sep ss"

definition lookup_ref :: "string \<Rightarrow> scope \<Rightarrow> (string \<times> json) option" where
  "lookup_ref ref defs =
    (if \<not> has_prefix ref ''#/'' then None
     else case split_on CHR ''/'' (drop 2 ref) of
       [] \<Rightarrow> None
     | first # segments \<Rightarrow>
        if first \<noteq> ''$defs'' \<and> first \<noteq> ''definitions'' then None
        else if segments = [] then None
        else map_option (Pair (join ''/'' segments)) (walk_pointer (Obj (table defs)) segments))"

text \<open>The part of \<^verbatim>\<open>resolveRef\<close> before the memo: the memo key (generation and name) and the
  target.\<close>

definition ref_target :: "scope \<Rightarrow> (string, json) gomap \<Rightarrow> nat \<Rightarrow> ((nat \<times> string) \<times> json) option" where
  "ref_target defs m refs =
    (case as_str (map_of m ''$ref'') of
       None \<Rightarrow> None
     | Some ref \<Rightarrow>
        if refs \<ge> max_ref_hops then None
        else map_option (\<lambda>(name, target). ((scope_gen defs, name), target)) (lookup_ref ref defs))"


subsection \<open>The recursion\<close>

abbreviation entry_nodes :: "(string \<times> json) list \<Rightarrow> nat" where
  "entry_nodes m \<equiv> sum_list (map (\<lambda>(k, v). json_nodes v) m)"

definition count_node :: "sanitizer \<Rightarrow> sanitizer" where
  "count_node st = st\<lparr>s_nodes := s_nodes st + 1\<rparr>"

definition publish :: "nat \<times> string \<Rightarrow> (string, json) gomap \<Rightarrow> sanitizer \<Rightarrow> sanitizer" where
  "publish key v st = st\<lparr>memo := put key v (memo st)\<rparr>"

definition sorted_entries :: "(string, json) gomap \<Rightarrow> (string \<times> json) list" where
  "sorted_entries m = sort_key fst m"

lemma entry_nodes_sorted [simp]: "entry_nodes (sorted_entries m) = entry_nodes m"
  by (metis mset_map mset_sort sorted_entries_def sum_mset_sum_list)

lemma ref_target_Some: "ref_target defs m refs = Some p \<Longrightarrow> refs < max_ref_hops"
  by (auto simp: ref_target_def split: option.splits if_splits)

definition is_bool :: "json \<Rightarrow> bool" where
  "is_bool v = (case v of Bool _ \<Rightarrow> True | _ \<Rightarrow> False)"

definition is_obj :: "json \<Rightarrow> bool" where
  "is_obj v = (case v of Obj _ \<Rightarrow> True | _ \<Rightarrow> False)"

text \<open>
  \<open>subschema\<close> of the code is the tail of \<open>keyword\<close>. A tuple of \<^verbatim>\<open>items\<close> and a list keyword run
  the same loop.
\<close>

function node :: "(string \<Rightarrow> bool) \<Rightarrow> scope option \<Rightarrow> json \<Rightarrow> nat \<Rightarrow> nat \<Rightarrow> sanitizer
    \<Rightarrow> (string, json) gomap \<times> sanitizer"
  and resolve_ref :: "(string \<Rightarrow> bool) \<Rightarrow> scope \<Rightarrow> (string, json) gomap \<Rightarrow> nat \<Rightarrow> sanitizer
    \<Rightarrow> (string, json) gomap \<times> sanitizer"
  and source_loop :: "(string \<Rightarrow> bool) \<Rightarrow> scope \<Rightarrow> (string \<times> json) list \<Rightarrow> nat \<Rightarrow> nat \<Rightarrow> (string, json) gomap
    \<Rightarrow> sanitizer \<Rightarrow> (string, json) gomap \<times> sanitizer"
  and keyword :: "(string \<Rightarrow> bool) \<Rightarrow> scope \<Rightarrow> string \<Rightarrow> json \<Rightarrow> nat \<Rightarrow> nat \<Rightarrow> sanitizer
    \<Rightarrow> json option \<times> sanitizer"
  and subschema_items :: "(string \<Rightarrow> bool) \<Rightarrow> scope \<Rightarrow> json list \<Rightarrow> nat \<Rightarrow> nat \<Rightarrow> sanitizer
    \<Rightarrow> json list \<times> sanitizer"
  and subschema_entries :: "(string \<Rightarrow> bool) \<Rightarrow> scope \<Rightarrow> string \<Rightarrow> (string \<times> json) list \<Rightarrow> nat \<Rightarrow> nat
    \<Rightarrow> (string, json) gomap \<Rightarrow> sanitizer \<Rightarrow> (string, json) gomap \<times> sanitizer"
where
  "node re2 defs value depth refs st =
    (let st = count_node st in
     if depth > max_depth \<or> s_nodes st > max_nodes then ([], st)
     else case value of
       Obj source \<Rightarrow>
        (let (local, st) = extend_scope defs source st;
             (resolved, st) = resolve_ref re2 local source refs st;
             (out, st) = source_loop re2 local source depth refs resolved st
         in (prune_required (normalize_type out), st))
     | _ \<Rightarrow> ([], st))"
| "resolve_ref re2 defs m refs st =
    (case ref_target defs m refs of
       None \<Rightarrow> ([], st)
     | Some (key, target) \<Rightarrow>
        (case map_of (memo st) key of
           Some cached \<Rightarrow> (cached, st)
         | None \<Rightarrow>
            (case node re2 (Some defs) target 0 (refs + 1) (publish key [] st) of
               (r, st') \<Rightarrow> (r, publish key r st'))))"
| "source_loop re2 local [] depth refs out st = (out, st)"
| "source_loop re2 local ((raw, v) # m) depth refs out st =
    (let key = strip_control_chars raw in
     if dropped_key key then source_loop re2 local m depth refs out st
     else case keyword re2 local key v depth refs st of
       (None, st) \<Rightarrow> source_loop re2 local m depth refs out st
     | (Some s, st) \<Rightarrow> source_loop re2 local m depth refs (put key s out) st)"
| "keyword re2 defs key v depth refs st =
    (if key \<in> set bool_or_subschema_keyword \<and> is_bool v then (Some v, st)
     else if key \<in> set subschema_list_kw \<or> (key = ''items'' \<and> as_arr (Some v) \<noteq> None) then
       (case v of
          Arr vs \<Rightarrow> (case subschema_items re2 defs vs depth refs st of (xs, st) \<Rightarrow> (Some (Arr xs), st))
        | _ \<Rightarrow> (None, st))
     else if key \<in> set bool_or_subschema_keyword \<or> key \<in> set subschema_keyword \<or> key = ''items'' then
       (if is_bool v then (Some (Obj []), st)
        else if is_obj v
        then (case node re2 (Some defs) v (depth + 1) refs st of (m, st) \<Rightarrow> (Some (Obj m), st))
        else (None, st))
     else if key \<in> set subschema_map_kw then
       (case v of
          Obj t \<Rightarrow>
           (case subschema_entries re2 defs key (sorted_entries t) depth refs [] st of
              (m, st) \<Rightarrow> (Some (Obj m), st))
        | _ \<Rightarrow> (None, st))
     else if key = ''pattern'' then
       (case v of
          Str p \<Rightarrow> (if pattern_allowed re2 (strip_control_chars p)
                    then Some (Str (strip_control_chars p)) else None, st)
        | _ \<Rightarrow> (None, st))
     else if key = ''required'' then (sanitize_required v, st)
     else if key = ''type'' then (normalized_type_value v, st)
     else (Some (sanitize_value v (depth + 1)), st))"
| "subschema_items re2 defs [] depth refs st = ([], st)"
| "subschema_items re2 defs (v # vs) depth refs st =
    (if is_bool v
     then (case subschema_items re2 defs vs depth refs st of (xs, st) \<Rightarrow> (Obj [] # xs, st))
     else if \<not> is_obj v then subschema_items re2 defs vs depth refs st
     else let (m, st) = node re2 (Some defs) v (depth + 1) refs st;
              (xs, st) = subschema_items re2 defs vs depth refs st
          in (Obj m # xs, st))"
| "subschema_entries re2 defs kw [] depth refs out st = (out, st)"
| "subschema_entries re2 defs kw ((raw, v) # m) depth refs out st =
    (let name = strip_control_chars raw in
     if length out \<ge> max_properties then (out, st)
     else if name = [] \<or> (kw = ''patternProperties'' \<and> \<not> pattern_allowed re2 name)
     then subschema_entries re2 defs kw m depth refs out st
     else if is_bool v then subschema_entries re2 defs kw m depth refs (put name (Obj []) out) st
     else if \<not> is_obj v then subschema_entries re2 defs kw m depth refs out st
     else let (s, st) = node re2 (Some defs) v (depth + 1) refs st
          in subschema_entries re2 defs kw m depth refs (put name (Obj s) out) st)"
  by pat_completeness auto


termination
proof (relation "measures
    [case_sum
       (case_sum (\<lambda>(re2, defs, v, depth, refs, st). max_ref_hops - refs)
         (case_sum (\<lambda>(re2, defs, m, refs, st). max_ref_hops - refs)
           (\<lambda>(re2, defs, m, depth, refs, out, st). max_ref_hops - refs)))
       (case_sum (\<lambda>(re2, defs, key, v, depth, refs, st). max_ref_hops - refs)
         (case_sum (\<lambda>(re2, defs, vs, depth, refs, st). max_ref_hops - refs)
                   (\<lambda>(re2, defs, kw, m, depth, refs, out, st). max_ref_hops - refs))),
     case_sum
       (case_sum (\<lambda>(re2, defs, v, depth, refs, st). 3 * json_nodes v)
         (case_sum (\<lambda>(re2, defs, m, refs, st). 0)
           (\<lambda>(re2, defs, m, depth, refs, out, st). 3 * entry_nodes m + 2)))
       (case_sum (\<lambda>(re2, defs, key, v, depth, refs, st). 3 * json_nodes v + 1)
         (case_sum (\<lambda>(re2, defs, vs, depth, refs, st). 3 * sum_list (map json_nodes vs) + 2)
                   (\<lambda>(re2, defs, kw, m, depth, refs, out, st). 3 * entry_nodes m + 2)))]", goal_cases)
  case 1
  then show ?case by simp
qed (auto dest!: ref_target_Some)


declare node.simps [simp del] resolve_ref.simps [simp del] keyword.simps [simp del]

definition empty_object_schema :: "(string, json) gomap" where
  "empty_object_schema = [(''type'', Str ''object''), (''properties'', Obj [])]"

definition new_sanitizer :: sanitizer where
  "new_sanitizer = \<lparr>s_nodes = 0, s_gen = 0, memo = []\<rparr>"

definition sanitize :: "(string \<Rightarrow> bool) \<Rightarrow> json \<Rightarrow> (string, json) gomap" where
  "sanitize re2 schema =
    (let root = fst (node re2 None schema 0 0 new_sanitizer) in
     if root = [] then empty_object_schema
     else let root = put ''type'' (Str ''object'') root in
          if as_obj (map_of root ''properties'') = None
             \<and> as_obj (map_of root ''patternProperties'') = None
          then put ''properties'' (Obj []) root else root)"

subsection \<open>Tool names\<close>

definition name_char :: "char \<Rightarrow> bool" where
  "name_char c \<longleftrightarrow> is_letter c \<or> in_range 48 57 (byte c) \<or> c = CHR ''_'' \<or> c = CHR ''-''"

definition name_rune :: "string \<Rightarrow> string" where
  "name_rune r = (case r of [c] \<Rightarrow> if name_char c then r else ''_'' | _ \<Rightarrow> ''_'')"

text \<open>\<^verbatim>\<open>strings.Trim(s, "_")\<close>\<close>

definition trim_underscores :: "string \<Rightarrow> string" where
  "trim_underscores s = rev (dropWhile ((=) CHR ''_'') (rev (dropWhile ((=) CHR ''_'') s)))"

definition sanitize_name_chars :: "string \<Rightarrow> string" where
  "sanitize_name_chars name =
    (let out = trim_underscores (concat (map name_rune (runes name)))
     in if out = [] then ''tool'' else out)"

text \<open>Dropping runes from the end until at most \<open>keep\<close> are left keeps the first \<open>keep\<close> runes.\<close>

definition cap_tool_name :: "(string \<Rightarrow> string) \<Rightarrow> string \<Rightarrow> string" where
  "cap_tool_name sha name =
    (if rune_count name \<le> max_tool_name_len then name
     else let suffix = ''-'' @ take 8 (hex_of (sha name));
              keep = max_tool_name_len - length suffix
          in concat (take keep (runes name)) @ suffix)"

definition sanitize_tool_name :: "(string \<Rightarrow> string) \<Rightarrow> string \<Rightarrow> string" where
  "sanitize_tool_name sha name = cap_tool_name sha (sanitize_name_chars name)"

end
