(* ===== verification/SchemaSafe.thy ===== *)
theory SchemaSafe
  imports SchemaSanitize
begin

text \<open>
  What the sanitiser guarantees of its output, as a grammar of provider-safe schemas
  (\<open>schema_ok\<close>), and what it leaves alone.
\<close>

subsection \<open>Clean strings\<close>

definition clean :: "string \<Rightarrow> bool" where
  "clean s \<longleftrightarrow> list_all (\<lambda>c. \<not> stripped_byte c) s"

lemma stripped_byte_ascii: "stripped_byte c \<Longrightarrow> byte c < 128"
  by (auto simp: stripped_byte_def)

lemma has_stripped_control: "list_ex is_stripped_control (runes s) \<longleftrightarrow> \<not> clean s"
proof -
  have "(\<exists>r \<in> set (runes s). is_stripped_control r) \<longleftrightarrow> (\<exists>c \<in> set s. stripped_byte c)"
    unfolding is_stripped_control_def by (rule ascii_test_runes) (rule stripped_byte_ascii)
  then show ?thesis by (auto simp: list_ex_iff clean_def list_all_iff)
qed

lemma strip_clean [simp]: "clean s \<Longrightarrow> strip_control_chars s = s"
  by (simp add: strip_control_chars_def has_stripped_control)

lemma clean_write_rune:
  assumes "r \<in> set (runes s)" "\<not> is_stripped_control r"
  shows "clean (write_rune r)"
proof (cases "\<exists>c. r = [c]")
  case True
  then show ?thesis using assms(2)
    by (auto simp: write_rune_def is_stripped_control_def clean_def stripped_byte_def)
next
  case False
  then have "length r \<noteq> 1" by (cases r) auto
  then have "128 \<le> byte c" if "c \<in> set r" for c using runes_mem(2) [OF assms(1)] that by blast
  then have "clean r" using stripped_byte_ascii by (fastforce simp: clean_def list_all_iff)
  moreover have "write_rune r = r" using False by (simp add: write_rune_def split: list.splits)
  ultimately show ?thesis by simp
qed

lemma clean_strip [simp]: "clean (strip_control_chars s)"
proof (cases "clean s")
  case False
  have "list_all clean (map write_rune (filter (\<lambda>r. \<not> is_stripped_control r) (runes s)))"
    by (auto simp: list_all_iff intro: clean_write_rune)
  then have "clean (concat (map write_rune (filter (\<lambda>r. \<not> is_stripped_control r) (runes s))))"
    by (fastforce simp: clean_def list_all_iff)
  with False show ?thesis by (simp add: strip_control_chars_def has_stripped_control)
qed simp

lemma strip_idem [simp]: "strip_control_chars (strip_control_chars s) = strip_control_chars s"
  by simp

subsection \<open>Provider-safe schemas\<close>

definition type_name_ok :: "json \<Rightarrow> bool" where
  "type_name_ok v = (case v of Str s \<Rightarrow> s \<in> set json_schema_types | _ \<Rightarrow> False)"

definition type_ok :: "json \<Rightarrow> bool" where
  "type_ok v = (case v of Arr vs \<Rightarrow> vs \<noteq> [] \<and> list_all type_name_ok vs | _ \<Rightarrow> type_name_ok v)"

definition name_ok :: "json \<Rightarrow> bool" where
  "name_ok v = (case v of Str s \<Rightarrow> s \<noteq> [] \<and> clean s | _ \<Rightarrow> False)"

text \<open>The keys no provider-safe value has: reference, dialect and definition keywords.\<close>

definition forbidden_key :: "string \<Rightarrow> bool" where
  "forbidden_key k \<longleftrightarrow> k \<in> set [[], ''$ref'', ''$defs'', ''definitions'', ''$schema'', ''$id'',
     ''$anchor'', ''$dynamicAnchor'', ''$dynamicRef'', ''$recursiveAnchor'', ''$recursiveRef'',
     ''$vocabulary'', ''$comment'']"

lemma forbidden_dropped [simp]: "forbidden_key k = dropped_key k"
  by (auto simp: forbidden_key_def dropped_key_def dialect_keywords_def definition_keywords_def)

text \<open>A value outside the schema grammar: clean strings, and no reference, dialect or definition
  key at any depth.\<close>

fun clean_value :: "json \<Rightarrow> bool" where
  "clean_value (Str s) = clean s"
| "clean_value (Arr vs) = list_all clean_value vs"
| "clean_value (Obj m) =
     (distinct (map fst m) \<and> list_all (\<lambda>(k, v). \<not> forbidden_key k \<and> clean k \<and> clean_value v) m)"
| "clean_value _ = True"

text \<open>A schema with structural keywords declares a type, and with declared properties it requires
  only declared ones.\<close>

definition shape_ok :: "(string, json) gomap \<Rightarrow> bool" where
  "shape_ok m \<longleftrightarrow>
     (map_of m ''type'' = None \<longrightarrow>
        list_all (\<lambda>k. map_of m k = None) [''properties'', ''patternProperties'', ''items'', ''prefixItems''])
     \<and> (case (as_arr (map_of m ''required''), as_obj (map_of m ''properties'')) of
          (Some required, Some props) \<Rightarrow>
             props = [] \<or> required \<noteq> [] \<and> list_all (kept_name props) required
        | _ \<Rightarrow> True)"

lemma entry_json_nodes: "(k, v) \<in> set m \<Longrightarrow> json_nodes v \<le> entry_nodes m"
  by (induction m) auto

lemma element_json_nodes: "v \<in> set vs \<Longrightarrow> json_nodes v \<le> sum_list (map json_nodes vs)"
  by (induction vs) auto

function schema_ok :: "(string \<Rightarrow> bool) \<Rightarrow> json \<Rightarrow> bool"
  and keyword_ok :: "(string \<Rightarrow> bool) \<Rightarrow> string \<Rightarrow> json \<Rightarrow> bool" where
  "schema_ok re2 v =
    (case v of
       Obj m \<Rightarrow> distinct (map fst m) \<and> shape_ok m
         \<and> list_all (\<lambda>(k, x). \<not> forbidden_key k \<and> clean k \<and> keyword_ok re2 k x) m
     | _ \<Rightarrow> False)"
| "keyword_ok re2 key v =
    (if key \<in> set bool_or_subschema_keyword \<and> is_bool v then True
     else if key \<in> set subschema_list_kw \<or> (key = ''items'' \<and> as_arr (Some v) \<noteq> None) then
       (case v of Arr vs \<Rightarrow> list_all (schema_ok re2) vs | _ \<Rightarrow> False)
     else if key \<in> set bool_or_subschema_keyword \<or> key \<in> set subschema_keyword \<or> key = ''items''
     then schema_ok re2 v
     else if key \<in> set subschema_map_kw then
       (case v of
          Obj t \<Rightarrow> distinct (map fst t) \<and> length t \<le> max_properties
            \<and> list_all (\<lambda>(n, s). n \<noteq> [] \<and> clean n
                \<and> (key = ''patternProperties'' \<longrightarrow> pattern_allowed re2 n) \<and> schema_ok re2 s) t
        | _ \<Rightarrow> False)
     else if key = ''pattern'' then
       (case v of Str p \<Rightarrow> clean p \<and> pattern_allowed re2 p | _ \<Rightarrow> False)
     else if key = ''required'' then
       (case v of Arr vs \<Rightarrow> list_all name_ok vs | _ \<Rightarrow> False)
     else if key = ''type'' then type_ok v
     else clean_value v)"
  by pat_completeness auto

termination
  by (relation "measure (case_sum (\<lambda>(re2, v). 2 * json_nodes v) (\<lambda>(re2, k, v). 2 * json_nodes v + 1))")
    (auto simp: less_Suc_eq_le dest!: entry_json_nodes element_json_nodes)

declare schema_ok.simps [simp del] keyword_ok.simps [simp del]

definition entries_ok :: "(string \<Rightarrow> bool) \<Rightarrow> (string, json) gomap \<Rightarrow> bool" where
  "entries_ok re2 m \<longleftrightarrow> distinct (map fst m)
     \<and> list_all (\<lambda>(k, x). \<not> dropped_key k \<and> clean k \<and> keyword_ok re2 k x) m"

lemma schema_ok_Obj: "schema_ok re2 (Obj m) \<longleftrightarrow> entries_ok re2 m \<and> shape_ok m"
  by (auto simp: schema_ok.simps entries_ok_def)

lemma list_all_put: "list_all P m \<Longrightarrow> P (k, v) \<Longrightarrow> list_all P (put k v m)"
  by (induction m) auto

lemma list_all_del: "list_all P m \<Longrightarrow> list_all P (del k m)"
  using set_del_subset by (fastforce simp: list_all_iff)

lemma entries_ok_put:
  "entries_ok re2 m \<Longrightarrow> \<not> dropped_key k \<Longrightarrow> clean k \<Longrightarrow> keyword_ok re2 k v \<Longrightarrow> entries_ok re2 (put k v m)"
  by (simp add: entries_ok_def list_all_put)

lemma entries_ok_del: "entries_ok re2 m \<Longrightarrow> entries_ok re2 (del k m)"
  by (simp add: entries_ok_def list_all_del)

lemma entries_ok_lookup: "entries_ok re2 m \<Longrightarrow> map_of m k = Some v \<Longrightarrow> keyword_ok re2 k v"
  by (auto simp: entries_ok_def list_all_iff dest: map_of_SomeD)

lemma entries_ok_Nil [simp]: "entries_ok re2 []"
  by (simp add: entries_ok_def)


lemma keyword_ok_special:
  "keyword_ok re2 ''type'' v = type_ok v"
  "keyword_ok re2 ''required'' v = (case v of Arr vs \<Rightarrow> list_all name_ok vs | _ \<Rightarrow> False)"
  "keyword_ok re2 ''properties'' v =
     (case v of
        Obj t \<Rightarrow> distinct (map fst t) \<and> length t \<le> max_properties
          \<and> list_all (\<lambda>(n, s). n \<noteq> [] \<and> clean n \<and> schema_ok re2 s) t
      | _ \<Rightarrow> False)"
  by (simp_all add: keyword_ok.simps keyword_defs split: json.split)

lemma special_keys:
  "\<not> dropped_key ''type''" "\<not> dropped_key ''required''" "\<not> dropped_key ''properties''"
  "clean ''type''" "clean ''required''" "clean ''properties''"
  by (simp_all add: dropped_key_def keyword_defs clean_def stripped_byte_def)

lemma type_ok_object: "type_ok (Str ''object'')" "type_ok (Str ''array'')"
  by (simp_all add: type_ok_def type_name_ok_def json_schema_types_def)

subsection \<open>The final touches\<close>

lemma normalize_type_ok: "entries_ok re2 m \<Longrightarrow> entries_ok re2 (normalize_type m)"
  by (simp add: normalize_type_def entries_ok_put special_keys keyword_ok_special type_ok_object)

lemma normalize_type_typed:
  "map_of (normalize_type m) ''type'' = None \<Longrightarrow>
   list_all (\<lambda>k. map_of (normalize_type m) k = None)
     [''properties'', ''patternProperties'', ''items'', ''prefixItems'']"
  by (auto simp: normalize_type_def map_of_put split: if_splits)

lemma prune_required_frame [simp]:
  "k \<noteq> ''required'' \<Longrightarrow> map_of (prune_required m) k = map_of m k"
  by (auto simp: prune_required_def map_of_put map_of_del Let_def split: option.split)

lemma prune_required_entries:
  assumes "entries_ok re2 m"
  shows "entries_ok re2 (prune_required m)"
proof (cases "as_arr (map_of m ''required'')")
  case (Some required)
  then have r: "map_of m ''required'' = Some (Arr required)"
    by (elim as_arr.elims) simp_all
  then have "list_all name_ok required"
    using entries_ok_lookup [OF assms r] by (simp add: keyword_ok_special)
  then have "list_all name_ok (filter P required)" for P by (auto simp: list_all_iff)
  then show ?thesis using assms Some
    by (simp add: prune_required_def Let_def entries_ok_put entries_ok_del special_keys
        keyword_ok_special split: option.split)
qed (use assms in \<open>simp add: prune_required_def\<close>)

lemma prune_required_declared:
  "case (as_arr (map_of (prune_required m) ''required''), as_obj (map_of m ''properties'')) of
     (Some required, Some props) \<Rightarrow> props = [] \<or> required \<noteq> [] \<and> list_all (kept_name props) required
   | _ \<Rightarrow> True"
  by (simp add: prune_required_def map_of_put map_of_del Let_def list_all_iff split: option.split)

lemma finished_schema_ok:
  assumes "entries_ok re2 m"
  shows "schema_ok re2 (Obj (prune_required (normalize_type m)))"
  unfolding schema_ok_Obj shape_ok_def
  using prune_required_entries [OF normalize_type_ok [OF assms]]
    prune_required_declared [of "normalize_type m"] normalize_type_typed [of m]
  by simp

subsection \<open>Leaf values\<close>

lemma sanitize_value_clean:
  "clean_value (sanitize_value v d)"
  "list_all clean_value (sanitize_elements vs d)"
  "clean_value (Obj out) \<Longrightarrow> clean_value (Obj (sanitize_entries m d out))"
proof (induction v d and vs d and m d out rule: sanitize_value_sanitize_elements_sanitize_entries.induct)
  case (1 v depth)
  then show ?case by (cases v) auto
next
  case (5 raw v m depth out)
  show ?case
  proof (cases "dropped_key (strip_control_chars raw)")
    case True
    then show ?thesis using 5 by (simp add: Let_def)
  next
    case False
    have "clean_value (Obj (put (strip_control_chars raw) (sanitize_value v depth) out))"
      using 5 False by (simp add: list_all_put)
    then show ?thesis using 5 False by (simp add: Let_def)
  qed
qed simp_all

lemma type_name_normalized: "normalize_type_name s \<noteq> [] \<Longrightarrow> type_name_ok (Str (normalize_type_name s))"
  by (simp add: normalize_type_name_def type_name_ok_def Let_def split: if_splits)

lemma type_members_ok: "type_members ms = Some xs \<Longrightarrow> list_all type_name_ok xs"
  by (induction ms arbitrary: xs rule: type_members.induct)
    (auto simp: Let_def type_name_normalized split: if_splits)

lemma normalized_type_ok: "normalized_type_value v = Some x \<Longrightarrow> type_ok x"
  by (cases v) (auto simp: type_ok_def type_name_normalized Let_def dest: type_members_ok
      split: if_splits option.splits)

lemma required_names_ok: "list_all name_ok (required_names vs)"
  by (induction vs rule: required_names.induct) (simp_all add: Let_def name_ok_def)


subsection \<open>The recursion keeps the grammar\<close>

definition memo_ok :: "(string \<Rightarrow> bool) \<Rightarrow> sanitizer \<Rightarrow> bool" where
  "memo_ok re2 st \<longleftrightarrow> all_entries (\<lambda>_ m. schema_ok re2 (Obj m)) (memo st)"

lemma memo_ok_count [simp]: "memo_ok re2 (count_node st) = memo_ok re2 st"
  by (simp add: memo_ok_def count_node_def)

lemma memo_ok_publish: "memo_ok re2 st \<Longrightarrow> schema_ok re2 (Obj m) \<Longrightarrow> memo_ok re2 (publish k m st)"
  by (auto simp: memo_ok_def publish_def)

lemma memo_extend_scope [simp]: "memo (snd (extend_scope outer m st)) = memo st"
  by (simp add: extend_scope_def Let_def)

lemma memo_ok_extend_scope [simp]: "memo_ok re2 (snd (extend_scope outer m st)) = memo_ok re2 st"
  by (simp add: memo_ok_def)

lemma schema_ok_empty [simp]: "schema_ok re2 (Obj [])"
  by (simp add: schema_ok_Obj shape_ok_def)

definition table_ok :: "(string \<Rightarrow> bool) \<Rightarrow> string \<Rightarrow> (string, json) gomap \<Rightarrow> bool" where
  "table_ok re2 kw t \<longleftrightarrow> distinct (map fst t) \<and> length t \<le> max_properties
     \<and> list_all (\<lambda>(n, s). n \<noteq> [] \<and> clean n
         \<and> (kw = ''patternProperties'' \<longrightarrow> pattern_allowed re2 n) \<and> schema_ok re2 s) t"

lemma table_ok_put:
  "table_ok re2 kw t \<Longrightarrow> length t < max_properties \<Longrightarrow> n \<noteq> [] \<Longrightarrow> clean n \<Longrightarrow>
   (kw = ''patternProperties'' \<Longrightarrow> pattern_allowed re2 n) \<Longrightarrow> schema_ok re2 s \<Longrightarrow>
   table_ok re2 kw (put n s t)"
  using length_put_le [of n s t] by (simp add: table_ok_def list_all_put)

lemma keyword_ok_table:
  "kw \<in> set subschema_map_kw \<Longrightarrow> keyword_ok re2 kw (Obj t) \<longleftrightarrow> table_ok re2 kw t"
proof -
  assume "kw \<in> set subschema_map_kw"
  then consider "kw = ''properties''" | "kw = ''patternProperties''" | "kw = ''dependentSchemas''"
    by (auto simp: subschema_map_kw_def)
  then show ?thesis by cases (simp_all add: keyword_ok.simps table_ok_def keyword_defs)
qed

lemma recursion_ok:
  "memo_ok re2 st \<Longrightarrow>
     schema_ok re2 (Obj (fst (node re2 o_defs v d r st))) \<and> memo_ok re2 (snd (node re2 o_defs v d r st))"
  "memo_ok re2 st \<Longrightarrow>
     schema_ok re2 (Obj (fst (resolve_ref re2 defs m r st))) \<and> memo_ok re2 (snd (resolve_ref re2 defs m r st))"
  "memo_ok re2 st \<Longrightarrow> entries_ok re2 out \<Longrightarrow>
     entries_ok re2 (fst (source_loop re2 defs m d r out st)) \<and> memo_ok re2 (snd (source_loop re2 defs m d r out st))"
  "memo_ok re2 st \<Longrightarrow>
     (case fst (keyword re2 defs key v d r st) of None \<Rightarrow> True | Some x \<Rightarrow> keyword_ok re2 key x)
     \<and> memo_ok re2 (snd (keyword re2 defs key v d r st))"
  "memo_ok re2 st \<Longrightarrow>
     list_all (schema_ok re2) (fst (subschema_items re2 defs vs d r st))
     \<and> memo_ok re2 (snd (subschema_items re2 defs vs d r st))"
  "memo_ok re2 st \<Longrightarrow> table_ok re2 kw out \<Longrightarrow>
     table_ok re2 kw (fst (subschema_entries re2 defs kw m d r out st))
     \<and> memo_ok re2 (snd (subschema_entries re2 defs kw m d r out st))"
proof (induction re2 o_defs v d r st and re2 defs m r st and re2 defs m d r out st
    and re2 defs key v d r st and re2 defs vs d r st and re2 defs kw m d r out st
    rule: node_resolve_ref_source_loop_keyword_subschema_items_subschema_entries.induct)
  case (1 re2 defs v depth refs st)
  show ?case
  proof (cases "(depth > max_depth \<or> s_nodes (count_node st) > max_nodes) \<or> \<not> is_obj v")
    case True
    then show ?thesis using "1.prems"
      by (cases v) (auto simp: node.simps Let_def is_obj_def)
  next
    case False
    then obtain source where v: "v = Obj source" by (cases v) (auto simp: is_obj_def)
    obtain local st1 where e: "extend_scope defs source (count_node st) = (local, st1)" by force
    obtain resolved st2 where rr: "resolve_ref re2 local source refs st1 = (resolved, st2)" by force
    obtain out st3 where sl: "source_loop re2 local source depth refs resolved st2 = (out, st3)" by force
    have n: "node re2 defs v depth refs st = (prune_required (normalize_type out), st3)"
      using False v e rr sl by (simp add: node.simps)
    have "memo_ok re2 st1"
      using memo_ok_extend_scope [of re2 defs source "count_node st"] e "1.prems" by simp
    then have r: "schema_ok re2 (Obj resolved)" "memo_ok re2 st2"
      using "1.IH"(1) [OF refl _ v e [symmetric] refl] False rr by auto
    then have "entries_ok re2 out \<and> memo_ok re2 st3"
      using "1.IH"(2) [OF refl _ v e [symmetric] refl rr [symmetric] refl] False sl
      by (auto simp: schema_ok_Obj)
    then show ?thesis by (simp add: n finished_schema_ok)
  qed
next
  case (2 re2 defs m refs st)
  show ?case
  proof (cases "ref_target defs m refs")
    case None
    then show ?thesis using "2.prems" by (simp add: resolve_ref.simps)
  next
    case (Some p)
    obtain key target where p: "p = (key, target)" by (cases p) blast
    show ?thesis
    proof (cases "map_of (memo st) key")
      case None
      have "memo_ok re2 (publish key [] st)" using "2.prems" by (simp add: memo_ok_publish)
      then show ?thesis using "2.IH" [OF Some p [symmetric] None] Some p None
        by (auto simp: resolve_ref.simps memo_ok_publish split: prod.splits)
    next
      case (Some cached)
      then show ?thesis using "2.prems" \<open>ref_target defs m refs = Some p\<close> p
        by (auto simp: resolve_ref.simps memo_ok_def dest: all_entriesD)
    qed
  qed
next
  case (4 re2 local raw v m depth refs out st)
  let ?key = "strip_control_chars raw"
  show ?case
  proof (cases "dropped_key ?key")
    case True
    then show ?thesis using 4 by (simp add: Let_def)
  next
    case False
    obtain r st1 where k: "keyword re2 local ?key v depth refs st = (r, st1)" by force
    note IH = "4.IH"(2) [OF refl False "4.prems"(1), unfolded k]
    show ?thesis
    proof (cases r)
      case None
      then show ?thesis using "4.IH"(3) [OF refl False k [symmetric] None] IH "4.prems" False k
        by (simp add: Let_def)
    next
      case (Some x)
      have "entries_ok re2 (put ?key x out)"
        using IH Some False "4.prems" by (simp add: entries_ok_put)
      then show ?thesis using "4.IH"(4) [OF refl False k [symmetric] Some] IH False k Some
        by (simp add: Let_def)
    qed
  qed
next
  case (5 re2 defs key v depth refs st)
  let ?list = "key \<in> set subschema_list_kw \<or> key = ''items'' \<and> as_arr (Some v) \<noteq> None"
  let ?one = "key \<in> set bool_or_subschema_keyword \<or> key \<in> set subschema_keyword \<or> key = ''items''"
  note kw = keyword.simps [of re2] keyword_ok.simps [of re2]
  show ?case
  proof (cases "key \<in> set bool_or_subschema_keyword \<and> is_bool v")
    case True
    then show ?thesis using "5.prems" by (simp add: kw)
  next
    case nb: False
    show ?thesis
    proof (cases ?list)
      case True
      show ?thesis
      proof (cases "as_arr (Some v)")
        case None
        then show ?thesis using nb True "5.prems" by (cases v) (auto simp: kw)
      next
        case (Some vs)
        then have v: "v = Arr vs" by (elim as_arr.elims) simp_all
        then show ?thesis using nb True "5.IH"(1) [OF nb True v] "5.prems"
          by (auto simp: kw split: prod.splits)
      qed
    next
      case nl: False
      show ?thesis
      proof (cases ?one)
        case True
        show ?thesis
        proof (cases "is_bool v \<or> \<not> is_obj v")
          case True
          then show ?thesis using nb nl \<open>?one\<close> "5.prems" by (auto simp: kw)
        next
          case False
          then show ?thesis using nb nl \<open>?one\<close> "5.IH"(2) [OF nb nl \<open>?one\<close>] "5.prems"
            by (auto simp: kw split: prod.splits)
        qed
      next
        case no: False
        show ?thesis
        proof (cases "key \<in> set subschema_map_kw")
          case map: True
          show ?thesis
          proof (cases "is_obj v")
            case True
            then obtain t where v: "v = Obj t" by (cases v) (simp_all add: is_obj_def)
            have "table_ok re2 key []" by (simp add: table_ok_def)
            note IH = "5.IH"(3) [OF nb nl no map v "5.prems" this]
            obtain t' st' where e:
              "subschema_entries re2 defs key (sorted_entries t) depth refs [] st = (t', st')" by force
            have "keyword re2 defs key v depth refs st = (Some (Obj t'), st')"
              using nb nl no map v e by (simp add: kw)
            then show ?thesis using IH e map by (simp add: keyword_ok_table)
          next
            case False
            then have "keyword re2 defs key v depth refs st = (None, st)"
              using nb nl no map by (cases v) (simp_all add: is_obj_def kw)
            then show ?thesis using "5.prems" by simp
          qed
        next
          case False
          note c = nb nl no False
          consider "key = ''pattern''" | "key = ''required''" | "key = ''type''"
            | "key \<notin> {''pattern'', ''required'', ''type''}" by blast
          then show ?thesis
          proof cases
            case 1
            then show ?thesis using c "5.prems" by (cases v) (auto simp: kw)
          next
            case 2
            then show ?thesis using c "5.prems"
              by (cases v) (simp_all add: kw sanitize_required_def required_names_ok)
          next
            case 3
            then show ?thesis using c "5.prems"
              by (auto simp: kw split: option.split dest: normalized_type_ok)
          next
            case 4
            then show ?thesis using c "5.prems" by (simp add: kw sanitize_value_clean del: sanitize_value.simps)
          qed
        qed
      qed
    qed
  qed
next
  case (7 re2 defs v vs depth refs st)
  show ?case
  proof (cases "is_bool v \<or> \<not> is_obj v")
    case True
    then show ?thesis using 7 by (auto split: prod.splits)
  next
    case False
    obtain m st1 where n: "node re2 (Some defs) v (depth + 1) refs st = (m, st1)" by force
    then show ?thesis using "7.IH"(3) "7.IH"(4) [OF _ _ n [symmetric] refl] "7.prems" False
      by (auto split: prod.splits)
  qed
next
  case (9 re2 defs kw raw v m depth refs out st)
  let ?name = "strip_control_chars raw"
  let ?skip = "?name = [] \<or> (kw = ''patternProperties'' \<and> \<not> pattern_allowed re2 ?name)"
  show ?case
  proof (cases "length out \<ge> max_properties")
    case True
    then show ?thesis using "9.prems" by simp
  next
    case room: False
    have put: "table_ok re2 kw (put ?name x out)" if "\<not> ?skip" "schema_ok re2 x" for x
      using that room "9.prems" by (auto intro: table_ok_put)
    show ?thesis
    proof (cases "?skip \<or> is_bool v \<or> \<not> is_obj v")
      case True
      then consider ?skip | "\<not> ?skip" "is_bool v" | "\<not> ?skip" "\<not> is_bool v" "\<not> is_obj v" by blast
      then show ?thesis
      proof cases
        case 1
        then show ?thesis using "9.IH"(1) [OF refl room 1] "9.prems" room by (auto simp: Let_def)
      next
        case 2
        then show ?thesis using "9.IH"(2) [OF refl room 2] put [OF 2(1)] "9.prems" room
          by (auto simp: Let_def)
      next
        case 3
        then show ?thesis using "9.IH"(3) [OF refl room 3] "9.prems" room by (auto simp: Let_def)
      qed
    next
      case False
      obtain s st1 where n: "node re2 (Some defs) v (depth + 1) refs st = (s, st1)" by force
      have s: "schema_ok re2 (Obj s)" "memo_ok re2 st1"
        using "9.IH"(4) [OF refl room] False "9.prems" n by auto
      then show ?thesis
        using "9.IH"(5) [OF refl room _ _ _ n [symmetric] refl] put [of "Obj s"] False room n
        by (auto simp: Let_def)
    qed
  qed
qed simp_all


text \<open>
  C37: Whatever a client sends, the sanitiser emits an object schema in the grammar every
  provider accepts: object type and a property table at the root; at every depth no reference,
  definition or dialect keyword, no control character in any key or string, declared types from
  the closed set, patterns the filter allows, schemas where schemas belong, at most 1024
  entries in a table, a type beside structural keywords, and required names that are declared.
\<close>

theorem sanitized_schema_is_safe:
  "schema_ok re2 (Obj (sanitize re2 schema))
   \<and> map_of (sanitize re2 schema) ''type'' = Some (Str ''object'')
   \<and> \<not> (as_obj (map_of (sanitize re2 schema) ''properties'') = None
        \<and> as_obj (map_of (sanitize re2 schema) ''patternProperties'') = None)"
proof -
  define root where "root = fst (node re2 None schema 0 0 new_sanitizer)"
  have "memo_ok re2 new_sanitizer" by (simp add: memo_ok_def new_sanitizer_def)
  then have "schema_ok re2 (Obj root)" unfolding root_def by (rule recursion_ok(1) [THEN conjunct1])
  then have r: "entries_ok re2 root" "shape_ok root" by (simp_all add: schema_ok_Obj)
  let ?typed = "put ''type'' (Str ''object'') root"
  have typed: "schema_ok re2 (Obj ?typed)"
    using r by (simp add: schema_ok_Obj shape_ok_def map_of_put entries_ok_put special_keys
        keyword_ok_special type_ok_object)
  show ?thesis
  proof (cases "root = []")
    case True
    then have "sanitize re2 schema = empty_object_schema" by (simp add: sanitize_def root_def)
    moreover have "entries_ok re2 (put ''properties'' (Obj []) (put ''type'' (Str ''object'') []))"
      by (intro entries_ok_put) (simp_all add: special_keys keyword_ok_special type_ok_object)
    ultimately show ?thesis
      by (simp add: empty_object_schema_def schema_ok_Obj shape_ok_def)
  next
    case ne: False
    let ?none = "as_obj (map_of ?typed ''properties'') = None \<and> as_obj (map_of ?typed ''patternProperties'') = None"
    show ?thesis
    proof (cases ?none)
      case True
      then have s: "sanitize re2 schema = put ''properties'' (Obj []) ?typed"
        using ne by (simp add: sanitize_def root_def Let_def)
      have "entries_ok re2 (put ''properties'' (Obj []) ?typed)"
        using typed by (simp add: schema_ok_Obj entries_ok_put special_keys keyword_ok_special)
      then show ?thesis by (simp add: s schema_ok_Obj shape_ok_def map_of_put split: option.split)
    next
      case False
      then have "sanitize re2 schema = ?typed" using ne by (auto simp: sanitize_def root_def Let_def)
      then show ?thesis using typed False by (simp add: map_of_put)
    qed
  qed
qed

end
