(* ===== verification/SchemaFixed.thy ===== *)
theory SchemaFixed
  imports SchemaSafe
begin

text \<open>
  What the sanitiser leaves alone: a schema that is already provider-safe, within the depth and
  node budgets, comes back as it went in. With \<open>sanitized_schema_is_safe\<close> this makes the
  sanitiser idempotent on the schemas whose output fits its own budgets.
\<close>

text \<open>A document whose objects are all listed in key order: every Go map has such a listing.\<close>

fun sorted_json :: "json \<Rightarrow> bool" where
  "sorted_json (Obj m) = (sorted (map fst m) \<and> list_all (\<lambda>(k, v). sorted_json v) m)"
| "sorted_json (Arr vs) = list_all sorted_json vs"
| "sorted_json _ = True"

lemma put_same: "map_of m k = Some v \<Longrightarrow> put k v m = m"
  by (induction m) (auto split: if_splits)

lemma put_fresh: "k \<notin> fst ` set m \<Longrightarrow> put k v m = m @ [(k, v)]"
  by (induction m) auto

subsection \<open>Leaf values\<close>

lemma json_depth_Obj: "(k, v) \<in> set m \<Longrightarrow> Suc d + json_depth v \<le> n" if "d + json_depth (Obj m) \<le> n"
  using that json_depth_children [of d "Obj m" n] by (cases "m = []") fastforce+

lemma json_depth_Arr: "v \<in> set vs \<Longrightarrow> Suc d + json_depth v \<le> n" if "d + json_depth (Arr vs) \<le> n"
  using that json_depth_children [of d "Arr vs" n] by (cases "vs = []") fastforce+

lemma sanitize_value_id:
  "clean_value v \<Longrightarrow> d + json_depth v \<le> max_depth \<Longrightarrow> sanitize_value v d = v"
  "list_all clean_value vs \<Longrightarrow> \<forall>v \<in> set vs. d + json_depth v \<le> max_depth \<Longrightarrow> sanitize_elements vs d = vs"
  "clean_value (Obj (out @ m)) \<Longrightarrow> \<forall>(k, v) \<in> set m. d + json_depth v \<le> max_depth \<Longrightarrow>
     sanitize_entries m d out = out @ m"
proof (induction v d and vs d and m d out rule: sanitize_value_sanitize_elements_sanitize_entries.induct)
  case (1 v depth)
  have lim: "\<not> depth > max_depth" using 1 by simp
  show ?case
  proof (cases v)
    case (Arr vs)
    then show ?thesis
      using "1.IH"(1) [OF lim Arr] "1.prems" json_depth_Arr [of depth vs max_depth] lim by simp
  next
    case (Obj m)
    then show ?thesis
      using "1.IH"(2) [OF lim Obj] "1.prems" json_depth_Obj [of depth m max_depth] lim
      by fastforce
  qed (use 1 lim in simp_all)
next
  case (5 raw v m depth out)
  then have r: "\<not> dropped_key raw" "clean raw" "raw \<notin> fst ` set out" by auto
  then have "sanitize_value v depth = v" using 5 by (auto simp: Let_def)
  then show ?case using 5 r by (simp add: Let_def put_fresh)
qed simp_all

lemma type_name_id: "s \<in> set json_schema_types \<Longrightarrow> normalize_type_name s = s"
proof -
  assume s: "s \<in> set json_schema_types"
  then have "to_lower s = s" and "list_all visible s" and "clean s"
    by (auto simp: json_schema_types_def ascii_lower_def visible_def clean_def stripped_byte_def)
  then show ?thesis using s by (simp add: normalize_type_name_def trim_visible)
qed

lemma type_members_id: "list_all type_name_ok vs \<Longrightarrow> type_members vs = Some vs"
  by (induction vs rule: type_members.induct)
    (auto simp: type_name_ok_def type_name_id Let_def json_schema_types_def)

lemma normalized_type_id: "type_ok v \<Longrightarrow> normalized_type_value v = Some v"
  by (cases v) (auto simp: type_ok_def type_name_ok_def type_name_id type_members_id Let_def
      json_schema_types_def)

lemma required_names_id: "list_all name_ok vs \<Longrightarrow> required_names vs = vs"
  by (induction vs rule: required_names.induct) (auto simp: name_ok_def)

lemma finish_id: "shape_ok m \<Longrightarrow> prune_required (normalize_type m) = m"
proof -
  assume s: "shape_ok m"
  then have n: "normalize_type m = m" by (auto simp: normalize_type_def shape_ok_def)
  show ?thesis
  proof (cases "as_arr (map_of m ''required'')")
    case None
    then show ?thesis by (simp add: n prune_required_def)
  next
    case (Some required)
    then have r: "map_of m ''required'' = Some (Arr required)" by (elim as_arr.elims) simp_all
    then show ?thesis using s
      by (auto simp: n prune_required_def shape_ok_def list_all_iff filter_id_conv put_same Let_def
          split: option.split)
  qed
qed


subsection \<open>The recursion\<close>

text \<open>The counter of nodes after a call, against the values it was given.\<close>

definition spent :: "sanitizer \<Rightarrow> nat \<Rightarrow> sanitizer \<Rightarrow> bool" where
  "spent st n st' \<longleftrightarrow> s_nodes st' \<le> s_nodes st + n"

lemma spent_refl [simp]: "spent st n st"
  by (simp add: spent_def)

lemma s_nodes_count [simp]: "s_nodes (count_node st) = s_nodes st + 1"
  by (simp add: count_node_def)

lemma s_nodes_extend_scope [simp]: "s_nodes (snd (extend_scope outer m st)) = s_nodes st"
  by (simp add: extend_scope_def Let_def)

abbreviation room :: "sanitizer \<Rightarrow> nat \<Rightarrow> bool" where
  "room st n \<equiv> s_nodes st + n \<le> max_nodes"

abbreviation shallow :: "nat \<Rightarrow> json \<Rightarrow> bool" where
  "shallow d v \<equiv> d + json_depth v \<le> max_depth"

lemma no_ref: "entries_ok re2 m \<Longrightarrow> map_of m ''$ref'' = None"
  by (auto simp: entries_ok_def list_all_iff dropped_key_def map_of_eq_None_iff)

lemma sorted_entries_id: "sorted (map fst m) \<Longrightarrow> sorted_entries m = m"
  by (simp add: sorted_entries_def sort_key_id_if_sorted)

lemma recursion_id:
  "schema_ok re2 v \<Longrightarrow> shallow d v \<Longrightarrow> sorted_json v \<Longrightarrow> room st (json_nodes v) \<Longrightarrow>
     Obj (fst (node re2 o_defs v d r st)) = v \<and> spent st (json_nodes v) (snd (node re2 o_defs v d r st))"
  "entries_ok re2 m \<Longrightarrow> resolve_ref re2 defs m r st = ([], st)"
  "entries_ok re2 (out @ m) \<Longrightarrow> \<forall>(k, v) \<in> set m. shallow (Suc d) v \<Longrightarrow>
   list_all (\<lambda>(k, v). sorted_json v) m \<Longrightarrow> room st (entry_nodes m) \<Longrightarrow>
     fst (source_loop re2 defs m d r out st) = out @ m
     \<and> spent st (entry_nodes m) (snd (source_loop re2 defs m d r out st))"
  "keyword_ok re2 key v \<Longrightarrow> shallow (Suc d) v \<Longrightarrow> sorted_json v \<Longrightarrow> room st (json_nodes v) \<Longrightarrow>
     fst (keyword re2 defs key v d r st) = Some v
     \<and> spent st (json_nodes v) (snd (keyword re2 defs key v d r st))"
  "list_all (schema_ok re2) vs \<Longrightarrow> \<forall>v \<in> set vs. shallow (Suc d) v \<Longrightarrow> list_all sorted_json vs \<Longrightarrow>
   room st (sum_list (map json_nodes vs)) \<Longrightarrow>
     fst (subschema_items re2 defs vs d r st) = vs
     \<and> spent st (sum_list (map json_nodes vs)) (snd (subschema_items re2 defs vs d r st))"
  "table_ok re2 kw (out @ m) \<Longrightarrow> \<forall>(k, v) \<in> set m. shallow (Suc d) v \<Longrightarrow>
   list_all (\<lambda>(k, v). sorted_json v) m \<Longrightarrow> room st (entry_nodes m) \<Longrightarrow>
     fst (subschema_entries re2 defs kw m d r out st) = out @ m
     \<and> spent st (entry_nodes m) (snd (subschema_entries re2 defs kw m d r out st))"
proof (induction re2 o_defs v d r st and re2 defs m r st and re2 defs m d r out st
    and re2 defs key v d r st and re2 defs vs d r st and re2 defs kw m d r out st
    rule: node_resolve_ref_source_loop_keyword_subschema_items_subschema_entries.induct)
  case (1 re2 defs v depth refs st)
  obtain m where v: "v = Obj m" using "1.prems"(1) by (cases v) (simp_all add: schema_ok.simps)
  have ok: "entries_ok re2 m" "shape_ok m" using "1.prems"(1) v by (simp_all add: schema_ok_Obj)
  have lim: "\<not> (depth > max_depth \<or> s_nodes (count_node st) > max_nodes)"
    using "1.prems" v by auto
  obtain local st1 where e: "extend_scope defs m (count_node st) = (local, st1)" by force
  have n1: "s_nodes st1 = s_nodes st + 1"
    using s_nodes_extend_scope [of defs m "count_node st"] e by simp
  have rr: "resolve_ref re2 local m refs st1 = ([], st1)"
    using "1.IH"(1) [OF refl lim v e [symmetric] refl ok(1)] .
  have deep: "\<forall>(k, x) \<in> set m. shallow (Suc depth) x"
    using json_depth_Obj [of depth m max_depth] "1.prems"(2) v by auto
  obtain out st2 where s: "source_loop re2 local m depth refs [] st1 = (out, st2)" by force
  have "fst (source_loop re2 local m depth refs [] st1) = [] @ m
      \<and> spent st1 (entry_nodes m) (snd (source_loop re2 local m depth refs [] st1))"
    by (rule "1.IH"(2) [OF refl lim v e [symmetric] refl rr [symmetric] refl])
      (use ok deep "1.prems"(3,4) v n1 in simp_all)
  then show ?case using s lim v e rr ok(2) n1
    by (simp add: node.simps finish_id spent_def)
next
  case (2 re2 defs m refs st)
  then show ?case by (simp add: resolve_ref.simps ref_target_def no_ref)
next
  case (4 re2 local raw v m depth refs out st)
  have k: "\<not> dropped_key raw" "clean raw" "keyword_ok re2 raw v" "raw \<notin> fst ` set out"
    using "4.prems"(1) by (auto simp: entries_ok_def)
  obtain x st1 where kw: "keyword re2 local raw v depth refs st = (x, st1)" by force
  have x: "x = Some v" "spent st (json_nodes v) st1"
    using "4.IH"(2) [of raw] k "4.prems" kw by auto
  have "put raw v out = out @ [(raw, v)]" using k(4) by (rule put_fresh)
  then show ?case
    using "4.IH"(4) [of raw x st1 v] k kw x "4.prems" by (auto simp: spent_def Let_def)
next
  case (5 re2 defs key v depth refs st)
  let ?list = "key \<in> set subschema_list_kw \<or> key = ''items'' \<and> as_arr (Some v) \<noteq> None"
  let ?one = "key \<in> set bool_or_subschema_keyword \<or> key \<in> set subschema_keyword \<or> key = ''items''"
  note kw = keyword.simps [of re2] and ok = keyword_ok.simps [of re2]
  show ?case
  proof (cases "key \<in> set bool_or_subschema_keyword \<and> is_bool v")
    case True
    then show ?thesis by (simp add: kw)
  next
    case nb: False
    show ?thesis
    proof (cases ?list)
      case True
      then obtain vs where v: "v = Arr vs" "list_all (schema_ok re2) vs"
        using "5.prems"(1) nb by (cases v) (auto simp: ok)
      have "shallow (Suc depth) x" if "x \<in> set vs" for x
        using json_depth_Arr [of "Suc depth" vs max_depth x] that "5.prems"(2) v(1) by simp
      moreover have "list_all sorted_json vs" "room st (sum_list (map json_nodes vs))"
        using "5.prems"(3,4) v(1) by simp_all
      ultimately have e: "fst (subschema_items re2 defs vs depth refs st) = vs"
        "spent st (sum_list (map json_nodes vs)) (snd (subschema_items re2 defs vs depth refs st))"
        using "5.IH"(1) [OF nb True v(1) v(2)] by simp_all
      obtain xs st' where i: "subschema_items re2 defs vs depth refs st = (xs, st')" by force
      have "keyword re2 defs key v depth refs st = (Some (Arr xs), st')"
        using nb True v(1) i by (auto simp: kw)
      then show ?thesis using e i v(1) by (simp add: spent_def)
    next
      case nl: False
      show ?thesis
      proof (cases ?one)
        case True
        then have s: "schema_ok re2 v" using "5.prems"(1) nb nl by (simp add: ok)
        then have "\<not> is_bool v" "is_obj v"
          by (cases v; simp add: schema_ok.simps is_bool_def is_obj_def)+
        then show ?thesis using nb nl True s "5.IH"(2) [OF nb nl True] "5.prems"
          by (auto simp: kw split: prod.splits)
      next
        case no: False
        show ?thesis
        proof (cases "key \<in> set subschema_map_kw")
          case map: True
          then obtain t where v: "v = Obj t" using "5.prems"(1) nb nl no by (cases v) (auto simp: ok)
          then have "table_ok re2 key t" using "5.prems"(1) map by (simp add: keyword_ok_table)
          then have e: "fst (subschema_entries re2 defs key (sorted_entries t) depth refs [] st) = t"
            "spent st (entry_nodes t) (snd (subschema_entries re2 defs key (sorted_entries t) depth refs [] st))"
            using "5.IH"(3) [OF nb nl no map v] "5.prems" v json_depth_Obj [of "Suc depth" t max_depth]
            by (fastforce simp: sorted_entries_id)+
          obtain t' st' where i:
            "subschema_entries re2 defs key (sorted_entries t) depth refs [] st = (t', st')" by force
          have "keyword re2 defs key v depth refs st = (Some (Obj t'), st')"
            using nb nl no map v i by (simp add: kw)
          then show ?thesis using e i v by (simp add: spent_def)
        next
          case False
          note c = nb nl no False
          consider "key = ''pattern''" | "key = ''required''" | "key = ''type''"
            | "key \<notin> {''pattern'', ''required'', ''type''}" by blast
          then show ?thesis
          proof cases
            case 1
            then show ?thesis using c "5.prems" by (cases v) (auto simp: kw ok)
          next
            case 2
            then show ?thesis using c "5.prems"
              by (cases v) (simp_all add: kw ok sanitize_required_def required_names_id)
          next
            case 3
            then show ?thesis using c "5.prems" by (auto simp: kw ok normalized_type_id)
          next
            case 4
            then have "clean_value v" using c "5.prems"(1) by (simp add: ok)
            then show ?thesis using 4 c "5.prems"
              by (simp add: kw sanitize_value_id del: sanitize_value.simps)
          qed
        qed
      qed
    qed
  qed
next
  case (7 re2 defs v vs depth refs st)
  have v: "\<not> is_bool v" "is_obj v"
    using "7.prems"(1) by (cases v; simp add: schema_ok.simps is_bool_def is_obj_def)+
  obtain m st1 where n: "node re2 (Some defs) v (depth + 1) refs st = (m, st1)" by force
  have m: "Obj m = v" "spent st (json_nodes v) st1"
    using "7.IH"(3) v "7.prems" n by auto
  then show ?case using "7.IH"(4) [OF _ _ n [symmetric] refl] v n "7.prems"
    by (auto simp: spent_def split: prod.splits)
next
  case (9 re2 defs kw raw v m depth refs out st)
  have k: "raw \<noteq> []" "clean raw" "kw = ''patternProperties'' \<longrightarrow> pattern_allowed re2 raw"
    "raw \<notin> fst ` set out" "length out < max_properties" "schema_ok re2 v"
    using "9.prems"(1) by (auto simp: table_ok_def)
  have v: "\<not> is_bool v" "is_obj v"
    using k(6) by (cases v; simp add: schema_ok.simps is_bool_def is_obj_def)+
  obtain s st1 where n: "node re2 (Some defs) v (depth + 1) refs st = (s, st1)" by force
  have s: "Obj s = v" "spent st (json_nodes v) st1"
    using "9.IH"(4) [of raw] k v "9.prems" n by auto
  have "put raw v out = out @ [(raw, v)]" using k(4) by (rule put_fresh)
  then show ?case
    using "9.IH"(5) [of raw "(s, st1)" s st1] k v n s "9.prems" by (auto simp: spent_def Let_def)
qed simp_all


text \<open>
  A provider-safe object schema within the budgets (at most 32 levels and 20000 values) is
  returned unchanged: the sanitiser alters nothing it does not have to, and sanitising its
  output again changes nothing.
\<close>

theorem safe_schema_is_fixed:
  assumes "schema_ok re2 (Obj m)"
    and "map_of m ''type'' = Some (Str ''object'')"
    and "as_obj (map_of m ''properties'') \<noteq> None \<or> as_obj (map_of m ''patternProperties'') \<noteq> None"
    and "sorted_json (Obj m)" and "json_depth (Obj m) \<le> max_depth" and "json_nodes (Obj m) \<le> max_nodes"
  shows "sanitize re2 (Obj m) = m"
proof -
  have "Obj (fst (node re2 None (Obj m) 0 0 new_sanitizer)) = Obj m"
    using recursion_id(1) [of re2 "Obj m" 0 new_sanitizer None 0] assms by (simp add: new_sanitizer_def)
  then have n: "fst (node re2 None (Obj m) 0 0 new_sanitizer) = m" by simp
  have "m \<noteq> []" using assms(2) by auto
  then show ?thesis using assms(2,3) by (auto simp: sanitize_def n put_same)
qed


definition small_schema :: "(string, json) gomap" where
  "small_schema = [(''properties'', Obj [(''q'', Obj [(''type'', Str ''string'')])]),
     (''required'', Arr [Str ''q'']), (''type'', Str ''object'')]"

lemma safe_schema_is_fixed_witness:
  "sanitize (\<lambda>_. True) (Obj small_schema) = small_schema \<and> json_nodes (Obj small_schema) = 7"
proof -
  have ok: "schema_ok (\<lambda>_. True) (Obj small_schema)"
    by (simp add: small_schema_def schema_ok_Obj shape_ok_def entries_ok_def keyword_ok_special
        keyword_ok.simps special_keys keyword_defs kept_name_def type_ok_def type_name_ok_def name_ok_def
        json_schema_types_def max_properties_def clean_def stripped_byte_def)
  have listed: "sorted_json (Obj small_schema)"
    by (simp add: small_schema_def)
  have "sanitize (\<lambda>_. True) (Obj small_schema) = small_schema"
    by (rule safe_schema_is_fixed [OF ok _ _ listed])
      (simp_all add: small_schema_def max_depth_def max_nodes_def)
  then show ?thesis by (simp add: small_schema_def)
qed

end
