(* ===== verification/SchemaRefs.thy ===== *)
theory SchemaRefs
  imports SchemaFixed
begin

text \<open>
  Reference expansion of the sanitiser: each definition is expanded once per scope and its
  expansion is shared by every reference. The node budget counts the sharing, not what is
  emitted; and which of two mutually recursive definitions is cut off depends on the order in
  which the keywords of a node are visited.
\<close>

definition ref_to :: "string \<Rightarrow> json" where
  "ref_to name = Obj [(''$ref'', Str (''#/$defs/'' @ name))]"

definition all_of :: "json list \<Rightarrow> json" where
  "all_of vs = Obj [(''allOf'', Arr vs)]"

subsection \<open>One reference\<close>

lemma extend_scope_plain: "\<not> has_definition_table m \<Longrightarrow> extend_scope (Some sc) m st = (sc, st)"
  by (simp add: extend_scope_def)

lemma plain_keys: "\<not> has_definition_table [(''$ref'', v)]" "\<not> has_definition_table [(''allOf'', v)]"
  "\<not> has_definition_table []"
  by (simp_all add: has_definition_table_def definition_keywords_def)

lemma dropped_ref: "dropped_key ''$ref''" "\<not> dropped_key ''allOf''" "clean ''$ref''" "clean ''allOf''"
  by (simp_all add: dropped_key_def keyword_defs clean_def stripped_byte_def)

definition resolves :: "scope \<Rightarrow> string \<Rightarrow> json \<Rightarrow> bool" where
  "resolves sc name target \<longleftrightarrow> lookup_ref (''#/$defs/'' @ name) sc = Some (name, target)"

lemma node_ref_hit:
  assumes "resolves sc name target" and "map_of (memo st) (scope_gen sc, name) = Some m"
    and "shape_ok m" and "r < max_ref_hops" and "d \<le> max_depth" and "s_nodes st < max_nodes"
  shows "node re2 (Some sc) (ref_to name) d r st = (m, count_node st)"
  using assms
  by (simp add: node.simps ref_to_def extend_scope_plain plain_keys resolve_ref.simps ref_target_def
      resolves_def dropped_ref finish_id count_node_def)

lemma node_ref_miss:
  assumes "resolves sc name target" and "map_of (memo st) (scope_gen sc, name) = None"
    and "node re2 (Some sc) target 0 (r + 1) (publish (scope_gen sc, name) [] (count_node st)) = (m, st')"
    and "shape_ok m" and "r < max_ref_hops" and "d \<le> max_depth" and "s_nodes st < max_nodes"
  shows "node re2 (Some sc) (ref_to name) d r st = (m, publish (scope_gen sc, name) m st')"
  using assms
  by (simp add: node.simps ref_to_def extend_scope_plain plain_keys resolve_ref.simps ref_target_def
      resolves_def dropped_ref finish_id count_node_def)

lemma items_hit:
  assumes "resolves sc name target" and "shape_ok m" and "r < max_ref_hops" and "d < max_depth"
  shows "map_of (memo st) (scope_gen sc, name) = Some m \<Longrightarrow> s_nodes st + k \<le> max_nodes \<Longrightarrow>
    subschema_items re2 sc (replicate k (ref_to name)) d r st
      = (replicate k (Obj m), st\<lparr>s_nodes := s_nodes st + k\<rparr>)"
proof (induction k arbitrary: st)
  case (Suc k)
  have "node re2 (Some sc) (ref_to name) (Suc d) r st = (m, count_node st)"
    using assms Suc.prems by (intro node_ref_hit) auto
  then show ?case using Suc by (simp add: count_node_def is_bool_def is_obj_def ref_to_def)
qed simp

lemma node_empty:
  "d \<le> max_depth \<Longrightarrow> s_nodes st < max_nodes \<Longrightarrow> node re2 (Some sc) (Obj []) d r st = ([], count_node st)"
  by (simp add: node.simps extend_scope_plain plain_keys resolve_ref.simps ref_target_def
      normalize_type_def prune_required_def count_node_def)

lemma items_empty:
  "d < max_depth \<Longrightarrow> s_nodes st + k \<le> max_nodes \<Longrightarrow>
   subschema_items re2 sc (replicate k (Obj [])) d r st
     = (replicate k (Obj []), st\<lparr>s_nodes := s_nodes st + k\<rparr>)"
  by (induction k arbitrary: st)
    (simp_all add: node_empty count_node_def is_bool_def is_obj_def)

lemma shape_all_of: "shape_ok [(''allOf'', v)]"
  by (simp add: shape_ok_def)

lemma node_all_of:
  assumes "subschema_items re2 sc vs d r (count_node st) = (xs, st')"
    and "d \<le> max_depth" and "s_nodes st < max_nodes"
  shows "node re2 (Some sc) (all_of vs) d r st = ([(''allOf'', Arr xs)], st')"
  using assms
  by (simp add: node.simps all_of_def extend_scope_plain plain_keys resolve_ref.simps ref_target_def
      dropped_ref keyword.simps keyword_defs finish_id shape_all_of count_node_def)

text \<open>The first of \<open>k\<close> references expands the definition, the others share it.\<close>

lemma items_miss:
  assumes "resolves sc name target" and "map_of (memo st) (scope_gen sc, name) = None"
    and "node re2 (Some sc) target 0 (r + 1) (publish (scope_gen sc, name) [] (count_node st)) = (m, st')"
    and "shape_ok m" and "r < max_ref_hops" and "d < max_depth" and "s_nodes st < max_nodes"
    and "s_nodes st' + k \<le> max_nodes"
  shows "subschema_items re2 sc (replicate (Suc k) (ref_to name)) d r st
    = (replicate (Suc k) (Obj m),
       (publish (scope_gen sc, name) m st')\<lparr>s_nodes := s_nodes st' + k\<rparr>)"
proof -
  have "node re2 (Some sc) (ref_to name) (Suc d) r st = (m, publish (scope_gen sc, name) m st')"
    using assms by (intro node_ref_miss) auto
  then show ?thesis
    using assms items_hit [of sc name target m r d "publish (scope_gen sc, name) m st'" k re2]
    by (simp add: publish_def map_of_put is_bool_def is_obj_def ref_to_def)
qed


subsection \<open>Definitions that multiply\<close>

definition bomb_defs :: "nat \<Rightarrow> (string, json) gomap" where
  "bomb_defs n = [(''a'', all_of (replicate n (Obj []))), (''b'', all_of (replicate n (ref_to ''a''))),
     (''c'', all_of (replicate n (ref_to ''b'')))]"

definition bomb :: "nat \<Rightarrow> json" where
  "bomb n = Obj [(''$defs'', Obj (bomb_defs n)), (''allOf'', Arr (replicate n (ref_to ''c'')))]"

definition bomb_scope :: "nat \<Rightarrow> scope" where
  "bomb_scope n = \<lparr>table = bomb_defs n, scope_gen = 1\<rparr>"

lemma bomb_resolves:
  "resolves (bomb_scope n) ''a'' (all_of (replicate n (Obj [])))"
  "resolves (bomb_scope n) ''b'' (all_of (replicate n (ref_to ''a'')))"
  "resolves (bomb_scope n) ''c'' (all_of (replicate n (ref_to ''b'')))"
  by (simp_all add: resolves_def lookup_ref_def has_prefix_def bomb_scope_def bomb_defs_def
      unescape_pointer_def)

text \<open>The expansions, each \<open>n\<close> copies of the one before.\<close>

fun level :: "nat \<Rightarrow> nat \<Rightarrow> (string, json) gomap" where
  "level n 0 = [(''allOf'', Arr (replicate n (Obj [])))]"
| "level n (Suc i) = [(''allOf'', Arr (replicate n (Obj (level n i))))]"

lemma shape_level [simp]: "shape_ok (level n i)"
  by (cases i) (simp_all add: shape_all_of)

lemma level_nodes: "n ^ Suc i \<le> json_nodes (Obj (level n i))"
proof (induction i)
  case (Suc i)
  have "n ^ Suc (Suc i) \<le> n * json_nodes (Obj (level n i))"
    using mult_le_mono2 [OF Suc, of n] by simp
  then show ?case by (simp add: sum_list_replicate)
qed (simp add: sum_list_replicate)

lemma items_expand:
  assumes "0 < n" and "resolves sc name (all_of vs)" and "map_of (memo st) (scope_gen sc, name) = None"
    and "subschema_items re2 sc vs 0 (r + 1)
           (count_node (publish (scope_gen sc, name) [] (count_node st))) = (xs, st')"
    and "r < max_ref_hops" and "s_nodes st + 1 < max_nodes" and "s_nodes st' + (n - 1) \<le> max_nodes"
  shows "\<exists>st''. subschema_items re2 sc (replicate n (ref_to name)) 0 r st
      = (replicate n (Obj [(''allOf'', Arr xs)]), st'') \<and> s_nodes st'' = s_nodes st' + (n - 1)"
proof -
  obtain k where n: "n = Suc k" using assms(1) by (cases n) auto
  have "node re2 (Some sc) (all_of vs) 0 (r + 1) (publish (scope_gen sc, name) [] (count_node st))
      = ([(''allOf'', Arr xs)], st')"
    using node_all_of [OF assms(4)] assms(6) by (simp add: publish_def)
  from items_miss [OF assms(2,3) this shape_all_of, of 0 k] assms show ?thesis
    by (simp add: max_depth_def n)
qed

lemmas state_simps = publish_def count_node_def map_of_put bomb_scope_def

lemma bomb_items_a:
  assumes "0 < n" "s_nodes st + 2 * n + 1 \<le> max_nodes" "map_of (memo st) (1, ''a'') = None" "r < max_ref_hops"
  shows "\<exists>st'. subschema_items re2 (bomb_scope n) (replicate n (ref_to ''a'')) 0 r st
        = (replicate n (Obj (level n 0)), st') \<and> s_nodes st' = s_nodes st + 2 * n + 1"
proof -
  let ?st = "count_node (publish (scope_gen (bomb_scope n), ''a'') [] (count_node st))"
  have s: "subschema_items re2 (bomb_scope n) (replicate n (Obj [])) 0 (r + 1) ?st
      = (replicate n (Obj []), ?st\<lparr>s_nodes := s_nodes ?st + n\<rparr>)"
  proof (rule items_empty)
    show "s_nodes ?st + n \<le> max_nodes" using assms(1,2) by (simp add: state_simps)
  qed (simp add: max_depth_def)
  show ?thesis
    using items_expand [OF assms(1) bomb_resolves(1) _ s assms(4)] assms(1-3)
    by (auto simp: state_simps)
qed

lemma bomb_items_b:
  assumes "0 < n" "s_nodes st + 3 * n + 2 \<le> max_nodes" "map_of (memo st) (1, ''a'') = None"
    "map_of (memo st) (1, ''b'') = None" "r + 1 < max_ref_hops"
  shows "\<exists>st'. subschema_items re2 (bomb_scope n) (replicate n (ref_to ''b'')) 0 r st
        = (replicate n (Obj (level n 1)), st') \<and> s_nodes st' = s_nodes st + 3 * n + 2"
proof -
  let ?st = "count_node (publish (scope_gen (bomb_scope n), ''b'') [] (count_node st))"
  obtain st' where s: "subschema_items re2 (bomb_scope n) (replicate n (ref_to ''a'')) 0 (r + 1) ?st
      = (replicate n (Obj (level n 0)), st')" "s_nodes st' = s_nodes ?st + 2 * n + 1"
    using bomb_items_a [of n ?st "r + 1" re2] assms by (auto simp: state_simps)
  show ?thesis
    using items_expand [OF assms(1) bomb_resolves(2) _ s(1)] s(2) assms
    by (auto simp: state_simps)
qed

lemma bomb_items_c:
  assumes "0 < n" "s_nodes st + 4 * n + 3 \<le> max_nodes" "map_of (memo st) (1, ''a'') = None"
    "map_of (memo st) (1, ''b'') = None" "map_of (memo st) (1, ''c'') = None" "r + 2 < max_ref_hops"
  shows "\<exists>st'. subschema_items re2 (bomb_scope n) (replicate n (ref_to ''c'')) 0 r st
        = (replicate n (Obj (level n 2)), st') \<and> s_nodes st' = s_nodes st + 4 * n + 3"
proof -
  let ?st = "count_node (publish (scope_gen (bomb_scope n), ''c'') [] (count_node st))"
  obtain st' where s: "subschema_items re2 (bomb_scope n) (replicate n (ref_to ''b'')) 0 (r + 1) ?st
      = (replicate n (Obj (level n 1)), st')" "s_nodes st' = s_nodes ?st + 3 * n + 2"
    using bomb_items_b [of n ?st "r + 1" re2] assms by (auto simp: state_simps)
  show ?thesis
    using items_expand [OF assms(1) bomb_resolves(3) _ s(1)] s(2) assms
    by (auto simp: state_simps numeral_2_eq_2)
qed

lemma bomb_node:
  assumes "0 < n" "n \<le> 4900"
  shows "fst (node re2 None (bomb n) 0 0 new_sanitizer) = [(''allOf'', Arr (replicate n (Obj (level n 2))))]"
proof -
  let ?st = "\<lparr>s_nodes = 1, s_gen = 1, memo = []\<rparr>"
  have e: "extend_scope None [(''$defs'', Obj (bomb_defs n)), (''allOf'', v)] (count_node new_sanitizer)
      = (bomb_scope n, ?st)" for v
    by (simp add: extend_scope_def has_definition_table_def definition_keywords_def merge_table_def
        bomb_scope_def bomb_defs_def count_node_def new_sanitizer_def Let_def)
  obtain st' where s: "subschema_items re2 (bomb_scope n) (replicate n (ref_to ''c'')) 0 0 ?st
      = (replicate n (Obj (level n 2)), st')"
    using bomb_items_c [of n ?st 0 re2] assms by (auto simp: max_nodes_def max_ref_hops_def)
  have d: "dropped_key ''$defs''" "clean ''$defs''"
    by (simp_all add: dropped_key_def keyword_defs clean_def stripped_byte_def)
  have m: "\<not> (0 > max_depth \<or> s_nodes (count_node new_sanitizer) > max_nodes)"
    by (simp add: max_nodes_def count_node_def new_sanitizer_def)
  show ?thesis
    unfolding bomb_def node.simps Let_def if_not_P [OF m] json.case e
    by (simp add: resolve_ref.simps ref_target_def d dropped_ref keyword.simps keyword_defs s [unfolded One_nat_def]
        finish_id shape_all_of)
qed

text \<open>
  The caps do not bound what the sanitiser emits. Three definitions that each name the one
  before \<open>n\<close> times, seven times \<open>n\<close> values in all and five levels deep, are within the input
  budget for every \<open>n\<close> up to 4900 and cost four times \<open>n\<close> of the 20000 nodes, and the schema
  emitted has at least \<open>n\<close> to the fourth values.
\<close>

theorem shared_definitions_multiply:
  assumes "0 < n" "n \<le> 4900"
  shows "json_nodes (bomb n) = 7 * n + 9 \<and> json_depth (bomb n) = 5
    \<and> n ^ 4 \<le> json_nodes (Obj (sanitize re2 (bomb n)))"
proof -
  have r: "(max d ^^ k) e = (if k = 0 then e else max d e)" for k and d e :: nat
    by (induction k) simp_all
  obtain k where k: "n = Suc k" using assms(1) by (cases n) auto
  have "json_nodes (bomb n) = 7 * n + 9"
    by (simp add: bomb_def bomb_defs_def all_of_def ref_to_def sum_list_replicate)
  moreover have "json_depth (bomb n) = 5"
    by (simp add: bomb_def bomb_defs_def all_of_def ref_to_def k r del: replicate_Suc)
  moreover have "sanitize re2 (bomb n) = [(''allOf'', Arr (replicate n (Obj (level n 2)))),
      (''type'', Str ''object''), (''properties'', Obj [])]"
    using bomb_node [OF assms] by (simp add: sanitize_def)
  moreover have "n ^ 4 \<le> n * json_nodes (Obj (level n 2))"
    using mult_le_mono2 [OF level_nodes [of n 2], of n] by (simp add: eval_nat_numeral)
  ultimately show ?thesis by (simp add: sum_list_replicate)
qed

lemma shared_definitions_multiply_witness:
  "json_nodes (bomb 20) = 149 \<and> 160000 \<le> json_nodes (Obj (sanitize (\<lambda>_. True) (bomb 20)))"
  using shared_definitions_multiply [of 20 "\<lambda>_. True"] by simp


subsection \<open>Definitions that name each other\<close>

definition mutual_defs :: "(string, json) gomap" where
  "mutual_defs =
     [(''a'', Obj [(''properties'', Obj [(''x'', ref_to ''b'')])]),
      (''b'', Obj [(''properties'', Obj [(''y'', ref_to ''a'')])])]"

text \<open>One schema in two iteration orders.\<close>

definition mutual_1 :: "(string, json) gomap" where
  "mutual_1 = [(''$defs'', Obj mutual_defs), (''not'', ref_to ''a''), (''if'', ref_to ''b'')]"

definition mutual_2 :: "(string, json) gomap" where
  "mutual_2 = [(''$defs'', Obj mutual_defs), (''if'', ref_to ''b''), (''not'', ref_to ''a'')]"

lemmas run_sanitizer = sanitize_def node.simps resolve_ref.simps keyword.simps extend_scope_def
  has_definition_table_def definition_keywords_def merge_table_def count_node_def new_sanitizer_def
  publish_def ref_target_def lookup_ref_def has_prefix_def unescape_pointer_def ref_to_def
  dropped_key_def keyword_defs clean_def stripped_byte_def is_bool_def is_obj_def
  max_nodes_def max_depth_def max_ref_hops_def max_properties_def sorted_entries_def
  normalize_type_def prune_required_def Let_def

abbreviation closed :: "string \<Rightarrow> json \<Rightarrow> json" where
  "closed k v \<equiv> Obj [(''properties'', Obj [(k, v)]), (''type'', Str ''object'')]"

text \<open>
  The output is not determined by the schema: the keywords of a node are visited in the
  iteration order of a Go map, and of two definitions that name each other the one expanded
  first is the one that keeps the other; listing the same two keywords the other way round
  changes what both are expanded to.
\<close>

theorem expansion_depends_on_iteration_order:
  "mset mutual_1 = mset mutual_2
   \<and> map_of (sanitize re2 (Obj mutual_1)) ''if'' = Some (closed ''y'' (Obj []))
   \<and> map_of (sanitize re2 (Obj mutual_2)) ''if'' = Some (closed ''y'' (closed ''x'' (Obj [])))"
proof -
  have "map_of (sanitize re2 (Obj mutual_1)) ''if'' = Some (closed ''y'' (Obj []))"
    by (simp add: mutual_1_def mutual_defs_def run_sanitizer)
  moreover have "map_of (sanitize re2 (Obj mutual_2)) ''if'' = Some (closed ''y'' (closed ''x'' (Obj [])))"
    by (simp add: mutual_2_def mutual_defs_def run_sanitizer)
  ultimately show ?thesis by (simp add: mutual_1_def mutual_2_def)
qed

subsection \<open>Tool names\<close>

definition accepted_name :: "string \<Rightarrow> bool" where
  "accepted_name s \<longleftrightarrow> s \<noteq> [] \<and> length s \<le> max_tool_name_len \<and> list_all name_char s"

lemma name_char_ascii: "name_char c \<Longrightarrow> byte c < 128"
  by (auto simp: name_char_def is_letter_def in_range_def)

lemma name_chars_sanitized:
  "sanitize_name_chars name \<noteq> [] \<and> list_all name_char (sanitize_name_chars name)"
proof -
  have "list_all name_char (name_rune r)" for r
    by (auto simp: name_rune_def name_char_def split: list.split)
  then have "list_all name_char (concat (map name_rune rs))" for rs
    by (induction rs) simp_all
  moreover have "set (trim_underscores s) \<subseteq> set s" for s
    by (auto simp: trim_underscores_def dest!: set_dropWhileD)
  ultimately have "list_all name_char (trim_underscores (concat (map name_rune rs)))" for rs
    unfolding list_all_iff by (meson subsetD)
  moreover have "list_all name_char ''tool''"
    by (simp add: name_char_def is_letter_def in_range_def)
  ultimately show ?thesis by (simp add: sanitize_name_chars_def Let_def)
qed

lemma hex_chars: "list_all name_char (hex_of s)"
proof -
  have "name_char (''0123456789abcdef'' ! i)" if "i < 16" for i
  proof -
    have "list_all name_char ''0123456789abcdef''"
      by (simp add: name_char_def is_letter_def in_range_def)
    then show ?thesis using that by (simp only: list_all_length) simp
  qed
  moreover have "byte c div 16 < 16" for c
    by (rule less_mult_imp_div_less) simp
  ultimately show ?thesis by (induction s) (auto simp: hex_of_def list_all_iff)
qed


text \<open>
  A sanitised tool name is one providers accept: between 1 and 64 characters, each a letter,
  a digit, an underscore or a hyphen, whatever name the client declared.
\<close>

theorem tool_name_is_accepted:
  assumes "length (sha (sanitize_name_chars name)) = 32"
  shows "accepted_name (sanitize_tool_name sha name)"
proof -
  let ?s = "sanitize_name_chars name"
  have ok: "?s \<noteq> []" "list_all name_char ?s" using name_chars_sanitized by auto
  then have "list_all (\<lambda>c. byte c < 128) ?s" by (auto simp: list_all_iff name_char_ascii)
  then have r: "runes ?s = map (\<lambda>c. [c]) ?s" by (rule runes_ascii)
  show ?thesis
  proof (cases "length ?s \<le> max_tool_name_len")
    case True
    then show ?thesis using ok
      by (simp add: sanitize_tool_name_def cap_tool_name_def rune_count_def r accepted_name_def)
  next
    case False
    have "concat (map (\<lambda>c. [c]) xs) = xs" for xs :: string by (induction xs) simp_all
    then have "sanitize_tool_name sha name = take 55 ?s @ ''-'' @ take 8 (hex_of (sha ?s))"
      using False assms
      by (simp add: sanitize_tool_name_def cap_tool_name_def rune_count_def r take_map
          max_tool_name_len_def hex_of_length Let_def)
    moreover have "list_all name_char (take 55 ?s)" "list_all name_char (take 8 (hex_of (sha ?s)))"
      using ok(2) hex_chars [of "sha ?s"] by (auto simp: list_all_iff dest: in_set_takeD)
    ultimately show ?thesis using False assms
      by (simp add: accepted_name_def max_tool_name_len_def hex_of_length name_char_def)
  qed
qed

lemma tool_name_is_accepted_witness:
  "accepted_name (sanitize_tool_name (\<lambda>_. replicate 32 CHR ''a'') (replicate 70 CHR ''b''))"
  by (rule tool_name_is_accepted) simp

end
