(* ===== verification/SliceSort.thy ===== *)
theory SliceSort
  imports Prelude
begin

text \<open>
  \<^verbatim>\<open>sort.SliceStable\<close> as the program calls it, on slices of at most twenty elements (one insertion
  block of the library): each element moves left while \<^verbatim>\<open>less\<close> puts it before its neighbour. The
  comparison may consume state (a random source), so it is threaded through. When it is the order
  of a key the result is the stable sort by that key, which any other stable algorithm gives too.
\<close>

type_synonym ('a, 's) less_fn = "'a \<Rightarrow> 'a \<Rightarrow> 's \<Rightarrow> bool \<times> 's"

text \<open>The sorted prefix is kept reversed: its head is the neighbour on the left.\<close>

fun move_left :: "('a, 's) less_fn \<Rightarrow> 'a \<Rightarrow> 'a list \<Rightarrow> 's \<Rightarrow> 'a list \<times> 's" where
  "move_left lt x [] s = ([x], s)"
| "move_left lt x (y # ys) s =
    (let (before, s) = lt x y s in
     if before then (let (r, s) = move_left lt x ys s in (y # r, s)) else (x # y # ys, s))"

fun insertion_loop :: "('a, 's) less_fn \<Rightarrow> 'a list \<Rightarrow> 'a list \<Rightarrow> 's \<Rightarrow> 'a list \<times> 's" where
  "insertion_loop lt dn [] s = (dn, s)"
| "insertion_loop lt dn (x # xs) s =
    (let (dn, s) = move_left lt x dn s in insertion_loop lt dn xs s)"

definition slice_stable :: "('a, 's) less_fn \<Rightarrow> 'a list \<Rightarrow> 's \<Rightarrow> 'a list \<times> 's" where
  "slice_stable lt xs s = (let (dn, s) = insertion_loop lt [] xs s in (rev dn, s))"

subsection \<open>Any comparison\<close>

lemma mset_move_left: "mset (fst (move_left lt x ys s)) = add_mset x (mset ys)"
  by (induction ys arbitrary: s) (auto simp: split_beta Let_def)

lemma mset_insertion_loop: "mset (fst (insertion_loop lt dn xs s)) = mset dn + mset xs"
  by (induction lt dn xs s rule: insertion_loop.induct) (auto simp: split_beta Let_def mset_move_left)

lemma slice_stable_mset [simp]: "mset (fst (slice_stable lt xs s)) = mset xs"
  by (simp add: slice_stable_def split_beta Let_def mset_insertion_loop)


subsection \<open>The order of a key\<close>

definition by_key :: "('a \<Rightarrow> 'k::linorder) \<Rightarrow> ('a, 's) less_fn" where
  "by_key k x y s = (k x < k y, s)"

lemma move_left_by_key:
  "move_left (by_key k) x ys s
     = (takeWhile (\<lambda>y. k x < k y) ys @ x # dropWhile (\<lambda>y. k x < k y) ys, s)"
  by (induction ys) (simp_all add: by_key_def)

lemma move_left_sort_key:
  assumes "rev dn = sort_key k xs"
  shows "rev (fst (move_left (by_key k) x dn s)) = sort_key k (xs @ [x])"
proof -
  let ?P = "\<lambda>y. k x < k y"
  let ?r = "rev (fst (move_left (by_key k) x dn s))"
  have split: "rev dn = rev (dropWhile ?P dn) @ rev (takeWhile ?P dn)"
    by (metis rev_append takeWhile_dropWhile_id)
  have r: "?r = rev (dropWhile ?P dn) @ x # rev (takeWhile ?P dn)"
    by (simp add: move_left_by_key)
  have so: "sorted (map k (rev dn))" by (simp add: assms)
  have above: "k x < k y" if "y \<in> set (takeWhile ?P dn)" for y
    using that by (auto dest: set_takeWhileD)
  have below: "k y \<le> k x" if "y \<in> set (dropWhile ?P dn)" for y
  proof (cases "dropWhile ?P dn")
    case (Cons z zs)
    then have z: "\<not> k x < k z" using hd_dropWhile [of ?P dn] by simp
    have "sorted (map k (rev (z # zs)))"
      using so unfolding split Cons by (simp add: sorted_append)
    then have "k y \<le> k z" using that Cons by (auto simp: sorted_append)
    with z show ?thesis by simp
  next
    case Nil
    then show ?thesis using that by (simp only: list.set) simp
  qed
  have "sorted (map k ?r)"
    unfolding r using so split above below
    by (auto simp: sorted_append less_imp_le dest: order.strict_trans1)
  moreover have "mset ?r = mset (xs @ [x])"
    using arg_cong [OF assms, of mset] by (simp add: mset_move_left)
  moreover have "filter (\<lambda>y. k c = k y) ?r = filter (\<lambda>y. k c = k y) (xs @ [x])" for c
  proof -
    have "filter (\<lambda>y. k x = k y) (takeWhile ?P dn) = []"
      unfolding filter_empty_conv using above by (metis less_irrefl)
    then have "filter (\<lambda>y. k c = k y) ?r
        = filter (\<lambda>y. k c = k y) (rev dn) @ (if k c = k x then [x] else [])"
      unfolding r by (subst split) (auto simp: rev_filter [symmetric])
    also have "filter (\<lambda>y. k c = k y) (rev dn) = filter (\<lambda>y. k c = k y) xs"
    proof -
      have "sorted (map k (filter (\<lambda>y. k c = k y) xs))" by (induction xs) auto
      then show ?thesis unfolding assms by (simp add: filter_sort sort_key_id_if_sorted)
    qed
    finally show ?thesis by simp
  qed
  ultimately show ?thesis using properties_for_sort_key [of ?r "xs @ [x]" k] by simp
qed

lemma insertion_loop_sort_key:
  "rev dn = sort_key k ys \<Longrightarrow> rev (fst (insertion_loop (by_key k) dn xs s)) = sort_key k (ys @ xs)"
proof (induction xs arbitrary: dn ys s)
  case (Cons x xs)
  obtain dn' where m: "move_left (by_key k) x dn s = (dn', s)" by (simp add: move_left_by_key)
  have "rev dn' = sort_key k (ys @ [x])" using move_left_sort_key [OF Cons.prems, of x s] m by simp
  from Cons.IH [OF this] show ?case by (simp add: m)
qed simp

theorem slice_stable_by_key: "fst (slice_stable (by_key k) xs s) = sort_key k xs"
  using insertion_loop_sort_key [of "[]" k "[]" xs s] by (simp add: slice_stable_def split_beta Let_def)

end
