(* ===== verification/Latency.thy ===== *)
theory Latency
  imports SliceSort
begin

text \<open>
  internal/infra/latency.go: per-pair latency medians and the latency order of targets. A
  published entry is never mutated, so entries are values. The readings of the clock are
  arguments (\<open>t1\<close> of the sweep throttle, \<open>t2\<close> of the sweep's cutoff, \<open>t3\<close> of the update), and
  the jitter source is a state that yields numbers. Medians are exact.
\<close>

definition latency_max_samples :: nat where "latency_max_samples = 100"
definition latency_max_keys :: nat where "latency_max_keys = 500"
definition latency_stale_timeout :: duration where "latency_stale_timeout = 60 * minute"
definition latency_evict_interval :: duration where "latency_evict_interval = latency_stale_timeout div 12"

record model_latency =
  ml_model :: string
  ml_provider :: string
  median_ms :: rat
  sample_size :: nat
  last_update :: time
  median_ttft :: duration
  ttft_sample_size :: nat

record latency_tracker =
  latency :: "(string, model_latency) gomap"
  sorted_bufs :: "(string, duration list) gomap"
  ttft_bufs :: "(string, duration list) gomap"
  last_evict :: time

definition new_latency_tracker :: latency_tracker where
  "new_latency_tracker = \<lparr>latency = [], sorted_bufs = [], ttft_bufs = [], last_evict = zero_time\<rparr>"

definition latency_key :: "string \<Rightarrow> string \<Rightarrow> string" where
  "latency_key model provider = model @ '':'' @ provider"

subsection \<open>Samples\<close>

text \<open>The binary search for the first element not below the value.\<close>

function lower_bound :: "duration list \<Rightarrow> duration \<Rightarrow> nat \<Rightarrow> nat \<Rightarrow> nat" where
  "lower_bound xs v lo hi =
    (if lo < hi then
       (let mid = (lo + hi) div 2 in
        if xs ! mid < v then lower_bound xs v (mid + 1) hi else lower_bound xs v lo mid)
     else lo)"
  by pat_completeness auto
termination
  by (relation "measure (\<lambda>(xs, v, lo, hi). hi - lo)") auto

declare lower_bound.simps [simp del]

definition insert_sorted :: "duration list \<Rightarrow> duration \<Rightarrow> duration list" where
  "insert_sorted xs v = (let lo = lower_bound xs v 0 (length xs) in take lo xs @ v # drop lo xs)"

definition sample :: "(string, duration list) gomap \<Rightarrow> string \<Rightarrow> duration \<Rightarrow> duration list" where
  "sample bufs key d =
    (let buf = insert_sorted (get_or [] bufs key) d
     in if length buf > latency_max_samples then take latency_max_samples (drop 1 buf) else buf)"

definition median_of :: "duration list \<Rightarrow> duration" where
  "median_of buf = buf ! (length buf div 2)"

subsection \<open>Recording\<close>

definition stale :: "time \<Rightarrow> model_latency \<Rightarrow> bool" where
  "stale now ml \<longleftrightarrow> last_update ml < now - latency_stale_timeout"

definition lat_evict_stale :: "time \<Rightarrow> latency_tracker \<Rightarrow> latency_tracker" where
  "lat_evict_stale now l =
    fold (\<lambda>(key, ml) l. if stale now ml
            then l\<lparr>latency := del key (latency l), sorted_bufs := del key (sorted_bufs l),
                   ttft_bufs := del key (ttft_bufs l)\<rparr>
            else l) (latency l) l"

definition admit :: "time \<Rightarrow> time \<Rightarrow> string \<Rightarrow> latency_tracker \<Rightarrow> bool \<times> latency_tracker" where
  "admit t1 t2 key l =
    (let l = (if t1 - last_evict l \<ge> latency_evict_interval
              then (lat_evict_stale t2 l)\<lparr>last_evict := t1\<rparr> else l)
     in (if length (latency l) \<ge> latency_max_keys then map_of (latency l) key \<noteq> None else True, l))"

definition publish_latency :: "time \<Rightarrow> string \<Rightarrow> string \<Rightarrow> string \<Rightarrow> latency_tracker \<Rightarrow> model_latency" where
  "publish_latency now key model provider l =
    (case map_of (latency l) key of
       None \<Rightarrow> \<lparr>ml_model = model, ml_provider = provider, median_ms = 0, sample_size = 0,
                last_update = now, median_ttft = 0, ttft_sample_size = 0\<rparr>
     | Some prev \<Rightarrow> prev\<lparr>last_update := now\<rparr>)"

type_synonym clock3 = "time \<times> time \<times> time"

definition lat_record :: "clock3 \<Rightarrow> string \<Rightarrow> string \<Rightarrow> duration \<Rightarrow> latency_tracker \<Rightarrow> latency_tracker" where
  "lat_record clock model provider d l =
    (case clock of (t1, t2, t3) \<Rightarrow>
      if d \<le> 0 then l
      else let key = latency_key model provider; (ok, l) = admit t1 t2 key l
           in if \<not> ok then l
              else let buf = sample (sorted_bufs l) key d;
                       ml = publish_latency t3 key model provider l;
                       ml = ml\<lparr>median_ms := of_int (median_of buf div millisecond), sample_size := length buf\<rparr>
                   in l\<lparr>sorted_bufs := put key buf (sorted_bufs l), latency := put key ml (latency l)\<rparr>)"

definition lat_record_ttft :: "clock3 \<Rightarrow> string \<Rightarrow> string \<Rightarrow> duration \<Rightarrow> latency_tracker \<Rightarrow> latency_tracker" where
  "lat_record_ttft clock model provider d l =
    (case clock of (t1, t2, t3) \<Rightarrow>
      if d \<le> 0 then l
      else let key = latency_key model provider; (ok, l) = admit t1 t2 key l
           in if \<not> ok then l
              else let buf = sample (ttft_bufs l) key d;
                       ml = publish_latency t3 key model provider l;
                       ml = ml\<lparr>median_ttft := median_of buf, ttft_sample_size := length buf\<rparr>
                   in l\<lparr>ttft_bufs := put key buf (ttft_bufs l), latency := put key ml (latency l)\<rparr>)"

subsection \<open>Reading\<close>

definition ttft :: "string \<Rightarrow> string \<Rightarrow> latency_tracker \<Rightarrow> duration option" where
  "ttft model provider l =
    (case map_of (latency l) (latency_key model provider) of
       None \<Rightarrow> None
     | Some ml \<Rightarrow> if ttft_sample_size ml = 0 then None else Some (median_ttft ml))"

definition lat_get :: "string \<Rightarrow> string \<Rightarrow> latency_tracker \<Rightarrow> model_latency option" where
  "lat_get model provider l = map_of (latency l) (latency_key model provider)"

definition lat_snapshot :: "latency_tracker \<Rightarrow> (string, model_latency) gomap" where
  "lat_snapshot l = latency l"

subsection \<open>Sorting\<close>

definition latency_jitter_range :: rat where "latency_jitter_range = 1 / 10"
definition default_warm_cache_band :: rat where "default_warm_cache_band = latency_jitter_range / 2"

definition warm_cache_leads :: "model_latency \<Rightarrow> model_latency \<Rightarrow> bool \<Rightarrow> bool \<Rightarrow> rat \<Rightarrow> bool" where
  "warm_cache_leads a b warm_a warm_b warm_band =
    (if warm_a = warm_b then False
     else let band = max warm_band 0
          in if \<bar>median_ms a - median_ms b\<bar> > band * max (median_ms a) (median_ms b) then False
             else warm_a)"

definition jittered :: "rat \<Rightarrow> rat \<Rightarrow> rat" where
  "jittered median draw = median * (1 + (draw * latency_jitter_range - latency_jitter_range / 2))"

text \<open>A target to order: its model and provider. \<open>draw\<close> is the jitter function.\<close>

type_synonym lat_pair = "string \<times> string"

definition latency_less ::
  "latency_tracker \<Rightarrow> ('s \<Rightarrow> rat \<times> 's) \<Rightarrow> (string \<Rightarrow> string \<Rightarrow> bool) option \<Rightarrow> rat
     \<Rightarrow> (lat_pair list) \<Rightarrow> (nat, 's) less_fn" where
  "latency_less l draw warm band keys i j s =
    (let (mi, pi) = keys ! i; (mj, pj) = keys ! j in
     case (lat_get mi pi l, lat_get mj pj l) of
       (None, _) \<Rightarrow> (False, s)
     | (Some a, None) \<Rightarrow> (True, s)
     | (Some a, Some b) \<Rightarrow>
        if (case warm of None \<Rightarrow> False | Some w \<Rightarrow> warm_cache_leads a b (w mi pi) (w mj pj) band)
        then (True, s)
        else let (x, s) = draw s; (y, s) = draw s
             in (jittered (median_ms a) x < jittered (median_ms b) y, s))"

definition sort_by_latency_with_warmth ::
  "latency_tracker option \<Rightarrow> ('s \<Rightarrow> rat \<times> 's) \<Rightarrow> (string \<Rightarrow> string \<Rightarrow> bool) option \<Rightarrow> rat
     \<Rightarrow> lat_pair list \<Rightarrow> 's \<Rightarrow> nat list \<times> 's" where
  "sort_by_latency_with_warmth l draw warm band keys s =
    (case l of
       None \<Rightarrow> ([0..<length keys], s)
     | Some l \<Rightarrow>
        if length keys \<le> 1 then ([0..<length keys], s)
        else slice_stable (latency_less l draw warm band keys) [0..<length keys] s)"

definition sort_by_latency ::
  "latency_tracker option \<Rightarrow> ('s \<Rightarrow> rat \<times> 's) \<Rightarrow> lat_pair list \<Rightarrow> 's \<Rightarrow> nat list \<times> 's" where
  "sort_by_latency l draw keys s = sort_by_latency_with_warmth l draw None default_warm_cache_band keys s"


subsection \<open>The binary search inserts in order\<close>

lemma lower_bound_spec:
  assumes "sorted xs" "lo \<le> hi" "hi \<le> length xs" "\<forall>i < lo. xs ! i < v" "\<forall>i < length xs. hi \<le> i \<longrightarrow> v \<le> xs ! i"
  shows "lower_bound xs v lo hi \<le> length xs
    \<and> (\<forall>i < lower_bound xs v lo hi. xs ! i < v)
    \<and> (\<forall>i < length xs. lower_bound xs v lo hi \<le> i \<longrightarrow> v \<le> xs ! i)"
  using assms
proof (induction xs v lo hi rule: lower_bound.induct)
  case (1 xs v lo hi)
  show ?case
  proof (cases "lo < hi")
    case False
    then have "lower_bound xs v lo hi = lo" by (simp add: lower_bound.simps [of xs v lo hi])
    then show ?thesis using "1.prems" False by simp
  next
    case True
    let ?mid = "(lo + hi) div 2"
    have mid: "lo \<le> ?mid" "?mid < hi" using True by auto
    have step: "lower_bound xs v lo hi
        = (if xs ! ?mid < v then lower_bound xs v (?mid + 1) hi else lower_bound xs v lo ?mid)"
      using True by (simp add: lower_bound.simps [of xs v lo hi] Let_def)
    show ?thesis
    proof (cases "xs ! ?mid < v")
      case less: True
      have below: "xs ! i < v" if "i < ?mid + 1" for i
      proof -
        have "xs ! i \<le> xs ! ?mid"
          by (rule sorted_nth_mono [OF "1.prems"(1)]) (use that mid "1.prems"(3) in linarith)+
        with less show ?thesis by simp
      qed
      have "?mid + 1 \<le> hi" using mid by simp
      from "1.IH"(1) [OF True refl less "1.prems"(1) this "1.prems"(3)] below "1.prems"(5) less
      show ?thesis unfolding step by simp
    next
      case False
      have above: "v \<le> xs ! i" if "i < length xs" "?mid \<le> i" for i
        using sorted_nth_mono [OF "1.prems"(1) that(2,1)] False by simp
      have "?mid \<le> length xs" using mid "1.prems"(3) by simp
      from "1.IH"(2) [OF True refl False "1.prems"(1) mid(1) this "1.prems"(4)] above False
      show ?thesis unfolding step by simp
    qed
  qed
qed

lemma insort_split: "insort v xs = takeWhile (\<lambda>x. x < v) xs @ v # dropWhile (\<lambda>x. x < v) xs"
  by (induction xs) (auto simp: not_less)

lemma insert_sorted_insort:
  assumes "sorted xs"
  shows "insert_sorted xs v = insort v xs"
proof -
  let ?r = "lower_bound xs v 0 (length xs)"
  have r: "?r \<le> length xs" "\<forall>i < ?r. xs ! i < v" "\<forall>i < length xs. ?r \<le> i \<longrightarrow> v \<le> xs ! i"
    using lower_bound_spec [OF assms, of 0 "length xs" v] by auto
  have "takeWhile (\<lambda>x. x < v) xs = take ?r xs"
    using r by (intro takeWhile_eq_take_P_nth) (auto simp: not_less)
  moreover from this have "dropWhile (\<lambda>x. x < v) xs = drop ?r xs"
    by (metis append_take_drop_id same_append_eq takeWhile_dropWhile_id)
  ultimately show ?thesis by (simp add: insert_sorted_def insort_split Let_def)
qed

subsection \<open>The window\<close>

text \<open>The slowest hundred of all samples.\<close>

definition slowest :: "duration list \<Rightarrow> duration list" where
  "slowest ds = drop (length ds - latency_max_samples) (sort ds)"

lemma slowest_length: "length (slowest ds) = min (length ds) latency_max_samples"
  by (auto simp: slowest_def)

lemma sorted_slowest [simp]: "sorted (slowest ds)"
  by (simp add: slowest_def sorted_wrt_drop)

lemma insort_drop: "sorted xs \<Longrightarrow> drop (Suc n) (insort v xs) = drop 1 (insort v (drop n xs))" if "n \<le> length xs"
proof -
  assume s: "sorted xs"
  let ?lo = "take n xs" and ?hi = "drop n xs"
  show ?thesis
  proof (cases "\<exists>x \<in> set ?lo. v \<le> x")
    case True
    then obtain x where x: "x \<in> set ?lo" "v \<le> x" by blast
    have xs: "xs = ?lo @ ?hi" by simp
    have hi: "\<forall>y \<in> set ?hi. x \<le> y" using s x(1) by (metis append_take_drop_id sorted_append)
    have "insort v xs = insort v ?lo @ ?hi"
    proof -
      have "takeWhile (\<lambda>y. y < v) xs = takeWhile (\<lambda>y. y < v) ?lo"
        using x takeWhile_append1 [of x ?lo "\<lambda>y. y < v" ?hi] by simp
      moreover have "dropWhile (\<lambda>y. y < v) xs = dropWhile (\<lambda>y. y < v) ?lo @ ?hi"
        using x dropWhile_append1 [of x ?lo "\<lambda>y. y < v" ?hi] by simp
      ultimately show ?thesis by (simp add: insort_split)
    qed
    moreover have "insort v ?hi = v # ?hi"
      using hi x(2) by (cases ?hi) (auto simp: )
    ultimately show ?thesis using that by simp
  next
    case False
    then have lo: "\<forall>x \<in> set ?lo. x < v" by (auto simp: not_le)
    have "insort v (ys @ zs) = ys @ insort v zs" if "\<forall>x \<in> set ys. x < v" for ys zs
      using that by (induction ys) auto
    from this [OF lo, of ?hi] have "insort v xs = ?lo @ insort v ?hi" by simp
    then show ?thesis using that by simp
  qed
qed

lemma slowest_push:
  "(let buf = insert_sorted (slowest ds) d
    in if length buf > latency_max_samples then take latency_max_samples (drop 1 buf) else buf)
   = slowest (ds @ [d])"
proof -
  have i: "insert_sorted (slowest ds) d = insort d (slowest ds)" by (rule insert_sorted_insort) simp
  have s: "sort (ds @ [d]) = insort d (sort ds)"
    by (intro properties_for_sort) (simp_all add: sorted_insort)
  show ?thesis
  proof (cases "length ds < latency_max_samples")
    case True
    then show ?thesis by (simp add: insert_sorted_insort s slowest_def Let_def)
  next
    case False
    let ?n = "length ds - latency_max_samples"
    have "drop (Suc ?n) (insort d (sort ds)) = drop 1 (insort d (drop ?n (sort ds)))"
      by (rule insort_drop) simp_all
    then show ?thesis using False
      by (simp add: insert_sorted_insort sorted_wrt_drop s slowest_def Let_def Suc_diff_le)
  qed
qed


subsection \<open>The invariant of the tracker\<close>

definition stale_keys :: "time \<Rightarrow> (string, model_latency) gomap \<Rightarrow> string list" where
  "stale_keys now m = map fst (filter (\<lambda>(k, ml). stale now ml) m)"

lemma lat_evict_stale_eq:
  "lat_evict_stale now l = l\<lparr>latency := fold AList.delete (stale_keys now (latency l)) (latency l),
     sorted_bufs := fold AList.delete (stale_keys now (latency l)) (sorted_bufs l),
     ttft_bufs := fold AList.delete (stale_keys now (latency l)) (ttft_bufs l)\<rparr>"
proof -
  have "fold (\<lambda>(key, ml) l. if stale now ml
            then l\<lparr>latency := del key (latency l), sorted_bufs := del key (sorted_bufs l),
                   ttft_bufs := del key (ttft_bufs l)\<rparr>
            else l) m l
    = l\<lparr>latency := fold AList.delete (stale_keys now m) (latency l),
        sorted_bufs := fold AList.delete (stale_keys now m) (sorted_bufs l),
        ttft_bufs := fold AList.delete (stale_keys now m) (ttft_bufs l)\<rparr>" for m and l :: latency_tracker
    by (induction m arbitrary: l) (auto simp: stale_keys_def)
  then show ?thesis by (simp only: lat_evict_stale_def)
qed

definition buf_ok :: "duration list \<Rightarrow> bool" where
  "buf_ok b \<longleftrightarrow> sorted b \<and> length b \<le> latency_max_samples \<and> (\<forall>d \<in> set b. 0 < d)"

lemma buf_ok_Nil [simp]: "buf_ok []"
  by (simp add: buf_ok_def)

lemma buf_ok_slowest: "buf_ok b \<Longrightarrow> slowest b = b"
  by (simp add: buf_ok_def slowest_def sorted_sort_id)

lemma sample_slowest: "buf_ok (get_or [] bufs k) \<Longrightarrow> sample bufs k d = slowest (get_or [] bufs k @ [d])"
  using slowest_push [of "get_or [] bufs k" d] by (simp add: sample_def buf_ok_slowest)

lemma buf_ok_sample: "buf_ok (get_or [] bufs k) \<Longrightarrow> 0 < d \<Longrightarrow> buf_ok (sample bufs k d) \<and> sample bufs k d \<noteq> []"
proof -
  assume b: "buf_ok (get_or [] bufs k)" "0 < d"
  have "set (slowest (get_or [] bufs k @ [d])) \<subseteq> set (get_or [] bufs k) \<union> {d}"
    using set_drop_subset [of _ "sort (get_or [] bufs k @ [d])"] by (fastforce simp: slowest_def)
  moreover have "slowest (get_or [] bufs k @ [d]) \<noteq> []"
    using slowest_length [of "get_or [] bufs k @ [d]"] by (auto simp: latency_max_samples_def)
  ultimately show ?thesis using b
    by (auto simp: sample_slowest buf_ok_def slowest_length)
qed

text \<open>An entry agrees with the two buffers of its key.\<close>

definition lat_entry_ok :: "latency_tracker \<Rightarrow> string \<Rightarrow> model_latency \<Rightarrow> bool" where
  "lat_entry_ok l k ml \<longleftrightarrow>
    (let b = get_or [] (sorted_bufs l) k; c = get_or [] (ttft_bufs l) k in
     buf_ok b \<and> buf_ok c \<and> sample_size ml = length b \<and> ttft_sample_size ml = length c
     \<and> (b \<noteq> [] \<longrightarrow> median_ms ml = of_int (median_of b div millisecond))
     \<and> (c \<noteq> [] \<longrightarrow> median_ttft ml = median_of c))"

definition lat_ok :: "latency_tracker \<Rightarrow> bool" where
  "lat_ok l \<longleftrightarrow> gomap_ok (latency l) \<and> gomap_ok (sorted_bufs l) \<and> gomap_ok (ttft_bufs l)
     \<and> length (latency l) \<le> latency_max_keys
     \<and> all_entries (lat_entry_ok l) (latency l)
     \<and> (\<forall>k. map_of (latency l) k = None \<longrightarrow>
           map_of (sorted_bufs l) k = None \<and> map_of (ttft_bufs l) k = None)"

lemma length_fold_del: "length (fold AList.delete ks m) \<le> length m"
proof (induction ks arbitrary: m)
  case (Cons k ks)
  from Cons.IH [of "del k m"] length_del_le [of k m] show ?case by simp
qed simp

lemma get_or_fold_del [simp]:
  "get_or z (fold AList.delete ks m) k = (if k \<in> set ks then z else get_or z m k)"
  by (simp add: get_or_def gm.fold_rmv_eq)

lemma lat_ok_evict: "lat_ok l \<Longrightarrow> lat_ok (lat_evict_stale now l)"
  using length_fold_del [of "stale_keys now (latency l)" "latency l"]
  by (auto simp: lat_ok_def lat_evict_stale_eq gm.fold_rmv_valid gm.fold_rmv_eq all_entries_def
      lat_entry_ok_def Let_def)

lemma lat_ok_last_evict [simp]: "lat_ok (l\<lparr>last_evict := t\<rparr>) = lat_ok l"
  by (simp add: lat_ok_def lat_entry_ok_def all_entries_def)

lemma lat_ok_admit: "lat_ok l \<Longrightarrow> lat_ok (snd (admit t1 t2 key l))"
  by (simp add: admit_def Let_def lat_ok_evict)

lemma admit_room:
  "fst (admit t1 t2 key l) \<Longrightarrow> map_of (latency (snd (admit t1 t2 key l))) key = None \<Longrightarrow>
   length (latency (snd (admit t1 t2 key l))) < latency_max_keys"
  by (auto simp: admit_def Let_def not_le split: if_splits)

lemma lat_ok_publish:
  assumes "lat_ok l" and room: "map_of (latency l) key = None \<Longrightarrow> length (latency l) < latency_max_keys"
    and "lat_entry_ok l' key ml"
    and l': "gomap_ok (sorted_bufs l')" "gomap_ok (ttft_bufs l')" "latency l' = put key ml (latency l)"
    and frame: "\<And>k. k \<noteq> key \<Longrightarrow> map_of (sorted_bufs l') k = map_of (sorted_bufs l) k"
      "\<And>k. k \<noteq> key \<Longrightarrow> map_of (ttft_bufs l') k = map_of (ttft_bufs l) k"
  shows "lat_ok l'"
proof -
  have "length (put key ml (latency l)) \<le> latency_max_keys"
    using assms(1) room by (cases "map_of (latency l) key") (auto simp: lat_ok_def)
  moreover have "lat_entry_ok l' k m" if "k \<noteq> key" "lat_entry_ok l k m" for k m
    using that frame by (simp add: lat_entry_ok_def get_or_def)
  ultimately show ?thesis using assms
    by (auto simp: lat_ok_def all_entries_def map_of_put)
qed

lemma publish_latency_ok:
  assumes "lat_ok l" "publish_latency t key m p l = ml"
  shows "buf_ok (get_or [] (sorted_bufs l) key) \<and> buf_ok (get_or [] (ttft_bufs l) key)
    \<and> sample_size ml = length (get_or [] (sorted_bufs l) key)
    \<and> ttft_sample_size ml = length (get_or [] (ttft_bufs l) key)
    \<and> (get_or [] (sorted_bufs l) key \<noteq> [] \<longrightarrow>
         median_ms ml = of_int (median_of (get_or [] (sorted_bufs l) key) div millisecond))
    \<and> (get_or [] (ttft_bufs l) key \<noteq> [] \<longrightarrow> median_ttft ml = median_of (get_or [] (ttft_bufs l) key))"
proof (cases "map_of (latency l) key")
  case None
  then have "map_of (sorted_bufs l) key = None" "map_of (ttft_bufs l) key = None"
    using assms(1) by (simp_all add: lat_ok_def)
  then show ?thesis using assms(2) None by (auto simp: publish_latency_def get_or_def)
next
  case (Some prev)
  then have "lat_entry_ok l key prev" using assms(1) by (auto simp: lat_ok_def dest: all_entriesD)
  then show ?thesis using assms(2) Some by (auto simp: publish_latency_def lat_entry_ok_def Let_def)
qed

lemma lat_ok_record: "lat_ok l \<Longrightarrow> lat_ok (lat_record clock model provider d l)"
proof -
  assume ok: "lat_ok l"
  obtain t1 t2 t3 where c: "clock = (t1, t2, t3)" by (cases clock) auto
  let ?key = "latency_key model provider"
  obtain adm l1 where a: "admit t1 t2 ?key l = (adm, l1)" by force
  have ok1: "lat_ok l1" using lat_ok_admit [OF ok, of t1 t2 ?key] a by simp
  show ?thesis
  proof (cases "d \<le> 0 \<or> \<not> adm")
    case True
    then show ?thesis using ok ok1 a c by (auto simp: lat_record_def Let_def)
  next
    case False
    let ?buf = "sample (sorted_bufs l1) ?key d"
    let ?ml = "(publish_latency t3 ?key model provider l1)
      \<lparr>median_ms := of_int (median_of ?buf div millisecond), sample_size := length ?buf\<rparr>"
    let ?l = "l1\<lparr>sorted_bufs := put ?key ?buf (sorted_bufs l1), latency := put ?key ?ml (latency l1)\<rparr>"
    note p = publish_latency_ok [OF ok1 refl, where t = t3 and key = ?key and m = model and p = provider]
    have b: "buf_ok ?buf" using buf_ok_sample p False by simp
    have "lat_ok ?l"
    proof (rule lat_ok_publish [OF ok1])
      show "map_of (latency l1) ?key = None \<Longrightarrow> length (latency l1) < latency_max_keys"
        using admit_room [of t1 t2 ?key l] a False by simp
      show "lat_entry_ok ?l ?key ?ml" using b p by (simp add: lat_entry_ok_def)
    qed (use ok1 in \<open>simp_all add: lat_ok_def map_of_put\<close>)
    moreover have "lat_record clock model provider d l = ?l"
      using False a c by (simp add: lat_record_def Let_def)
    ultimately show ?thesis by simp
  qed
qed

lemma lat_ok_record_ttft: "lat_ok l \<Longrightarrow> lat_ok (lat_record_ttft clock model provider d l)"
proof -
  assume ok: "lat_ok l"
  obtain t1 t2 t3 where c: "clock = (t1, t2, t3)" by (cases clock) auto
  let ?key = "latency_key model provider"
  obtain adm l1 where a: "admit t1 t2 ?key l = (adm, l1)" by force
  have ok1: "lat_ok l1" using lat_ok_admit [OF ok, of t1 t2 ?key] a by simp
  show ?thesis
  proof (cases "d \<le> 0 \<or> \<not> adm")
    case True
    then show ?thesis using ok ok1 a c by (auto simp: lat_record_ttft_def Let_def)
  next
    case False
    let ?buf = "sample (ttft_bufs l1) ?key d"
    let ?ml = "(publish_latency t3 ?key model provider l1)
      \<lparr>median_ttft := median_of ?buf, ttft_sample_size := length ?buf\<rparr>"
    let ?l = "l1\<lparr>ttft_bufs := put ?key ?buf (ttft_bufs l1), latency := put ?key ?ml (latency l1)\<rparr>"
    note p = publish_latency_ok [OF ok1 refl, where t = t3 and key = ?key and m = model and p = provider]
    have b: "buf_ok ?buf" using buf_ok_sample p False by simp
    have "lat_ok ?l"
    proof (rule lat_ok_publish [OF ok1])
      show "map_of (latency l1) ?key = None \<Longrightarrow> length (latency l1) < latency_max_keys"
        using admit_room [of t1 t2 ?key l] a False by simp
      show "lat_entry_ok ?l ?key ?ml" using b p by (simp add: lat_entry_ok_def)
    qed (use ok1 in \<open>simp_all add: lat_ok_def map_of_put\<close>)
    moreover have "lat_record_ttft clock model provider d l = ?l"
      using False a c by (simp add: lat_record_ttft_def Let_def)
    ultimately show ?thesis by simp
  qed
qed

datatype lat_op = Observe clock3 string string duration | Observe_ttft clock3 string string duration

fun lat_step :: "latency_tracker \<Rightarrow> lat_op \<Rightarrow> latency_tracker" where
  "lat_step l (Observe c m p d) = lat_record c m p d l"
| "lat_step l (Observe_ttft c m p d) = lat_record_ttft c m p d l"

interpretation lat: machine lat_step lat_ok
proof unfold_locales
  fix l x
  assume "lat_ok l"
  then show "lat_ok (lat_step l x)" by (cases x) (simp_all add: lat_ok_record lat_ok_record_ttft)
qed


text \<open>
  After any operations the tracker holds at most 500 pairs, each of its buffers is sorted,
  positive and at most a hundred long, no buffer outlives its entry, and every published entry
  states the size and the median of its buffers.
\<close>

theorem tracker_stays_consistent:
  "lat_ok (run_ops lat_step new_latency_tracker xs)"
  by (rule lat.run_inv) (simp add: lat_ok_def new_latency_tracker_def latency_max_keys_def)

subsection \<open>A pair that keeps being observed\<close>

text \<open>Observations close enough together that the entry is never swept.\<close>

fun steady :: "time \<Rightarrow> (clock3 \<times> duration) list \<Rightarrow> bool" where
  "steady u [] = True"
| "steady u (((t1, t2, t3), d) # rs) = (0 < d \<and> t2 - u \<le> latency_stale_timeout \<and> steady t3 rs)"

definition observe_all ::
  "string \<Rightarrow> string \<Rightarrow> (clock3 \<times> duration) list \<Rightarrow> latency_tracker \<Rightarrow> latency_tracker" where
  "observe_all m p rs l = fold (\<lambda>(c, d). lat_record c m p d) rs l"

lemma admit_fresh:
  assumes "gomap_ok (latency l)" "map_of (latency l) key = Some ml" "t2 - last_update ml \<le> latency_stale_timeout"
  shows "\<exists>l'. admit t1 t2 key l = (True, l') \<and> map_of (latency l') key = Some ml
    \<and> get_or [] (sorted_bufs l') key = get_or [] (sorted_bufs l) key"
proof -
  have "key \<notin> set (stale_keys t2 (latency l))"
  proof -
    have "v = ml" if "(key, v) \<in> set (latency l)" for v
      using map_of_is_SomeI [OF assms(1) that] assms(2) by simp
    then show ?thesis using assms(3) by (auto simp: stale_keys_def stale_def)
  qed
  then show ?thesis using assms(2)
    by (auto simp: admit_def lat_evict_stale_eq gm.fold_rmv_eq Let_def)
qed

lemma lat_record_fresh:
  fixes t1 t3 :: time
  assumes "lat_ok l" "lat_get m p l = Some ml" "t2 - last_update ml \<le> latency_stale_timeout" "0 < d"
  defines "l' \<equiv> lat_record (t1, t2, t3) m p d l" and "key \<equiv> latency_key m p"
  shows "\<exists>ml'. lat_get m p l' = Some ml' \<and> last_update ml' = t3"
    and "get_or [] (sorted_bufs l') key = slowest (get_or [] (sorted_bufs l) key @ [d])"
proof -
  have "gomap_ok (latency l)" using assms(1) by (simp add: lat_ok_def)
  from admit_fresh [OF this assms(2) [unfolded lat_get_def] assms(3), of t1]
  obtain l1 where l1: "admit t1 t2 key l = (True, l1)" "map_of (latency l1) key = Some ml"
    "get_or [] (sorted_bufs l1) key = get_or [] (sorted_bufs l) key"
    unfolding key_def by blast
  have "lat_ok l1" using lat_ok_admit [OF assms(1), of t1 t2 key] l1(1) by simp
  then have "buf_ok (get_or [] (sorted_bufs l1) key)"
    using l1(2) by (auto simp: lat_ok_def lat_entry_ok_def Let_def dest: all_entriesD)
  then have s: "sample (sorted_bufs l1) key d = slowest (get_or [] (sorted_bufs l) key @ [d])"
    using sample_slowest l1(3) by metis
  show "\<exists>ml'. lat_get m p l' = Some ml' \<and> last_update ml' = t3"
    using l1 assms(4) by (simp add: l'_def lat_record_def lat_get_def key_def [symmetric]
        publish_latency_def map_of_put Let_def)
  show "get_or [] (sorted_bufs l') key = slowest (get_or [] (sorted_bufs l) key @ [d])"
    using l1 assms(4) s by (simp add: l'_def lat_record_def key_def [symmetric] Let_def)
qed

lemma insort_nth: "sorted b \<Longrightarrow> i < length b \<Longrightarrow> b ! i \<le> insort d b ! Suc i" for d :: int
proof (induction b arbitrary: i)
  case (Cons x b)
  show ?case
  proof (cases i)
    case 0
    then show ?thesis using Cons.prems by (cases b) (auto simp: sorted_wrt_append)
  next
    case (Suc j)
    then show ?thesis using Cons by simp
  qed
qed simp

lemma slowest_again: "slowest (slowest xs @ [d]) = slowest (xs @ [d])"
proof -
  have "slowest (slowest xs) = slowest xs"
    using slowest_length [of xs] by (simp add: slowest_def [of "slowest xs"] sorted_sort_id)
  then show ?thesis using slowest_push [of xs d] slowest_push [of "slowest xs" d] by simp
qed

lemma slowest_push_mono:
  assumes "sorted b" "length b = latency_max_samples"
  shows "median_of b \<le> median_of (slowest (b @ [d])) \<and> length (slowest (b @ [d])) = latency_max_samples"
proof -
  have "slowest b = b" using assms by (simp add: slowest_def sorted_sort_id)
  then have "slowest (b @ [d]) = drop 1 (insort d b)"
    using slowest_push [of b d] assms by (simp add: insert_sorted_insort)
  then show ?thesis
    using insort_nth [OF assms(1), of 50 d] assms(2)
    by (simp add: median_of_def latency_max_samples_def)
qed

lemma observe_all_window:
  "lat_ok l \<Longrightarrow> lat_get m p l = Some ml \<Longrightarrow> steady (last_update ml) rs \<Longrightarrow>
   get_or [] (sorted_bufs l) (latency_key m p) = slowest xs \<Longrightarrow>
   get_or [] (sorted_bufs (observe_all m p rs l)) (latency_key m p) = slowest (xs @ map snd rs)"
proof (induction rs arbitrary: l ml xs)
  case (Cons r rs)
  obtain t1 t2 t3 d where r: "r = ((t1, t2, t3), d)" by (metis surj_pair)
  let ?l = "lat_record (t1, t2, t3) m p d l"
  note f = lat_record_fresh [OF Cons.prems(1,2), of t2 d t1 t3]
  obtain ml' where ml': "lat_get m p ?l = Some ml'" "last_update ml' = t3"
    using f(1) Cons.prems(3) r by auto
  have "get_or [] (sorted_bufs ?l) (latency_key m p) = slowest (xs @ [d])"
    using f(2) Cons.prems(3,4) r by (simp add: slowest_again)
  with Cons.IH [OF lat_ok_record [OF Cons.prems(1)] ml'(1)] ml'(2) Cons.prems(3) r
  show ?case by (simp add: observe_all_def)
qed (simp add: observe_all_def)

lemma observe_all_ok: "lat_ok l \<Longrightarrow> lat_ok (observe_all m p rs l)"
  unfolding observe_all_def by (induction rs arbitrary: l) (auto simp: lat_ok_record split: prod.split)

lemma slowest_median_mono:
  "sorted b \<Longrightarrow> length b = latency_max_samples \<Longrightarrow> median_of b \<le> median_of (slowest (b @ ds))"
proof (induction ds rule: rev_induct)
  case Nil
  then show ?case by (simp add: slowest_def sorted_sort_id)
next
  case (snoc d ds)
  have "length (slowest (b @ ds)) = latency_max_samples"
    using snoc.prems by (simp add: slowest_length)
  then have "median_of (slowest (b @ ds)) \<le> median_of (slowest (slowest (b @ ds) @ [d]))"
    using slowest_push_mono [of "slowest (b @ ds)" d] by simp
  then show ?case using snoc by (simp add: slowest_again)
qed

text \<open>
  C38: While a pair keeps being observed (never an hour without an update) its window is exactly
  the hundred slowest of the samples it held and those observed since; so once the window is
  full the median never falls again, however fast the target has become.
\<close>

theorem full_window_never_speeds_up:
  assumes "lat_ok l" "lat_get m p l = Some ml" "steady (last_update ml) rs"
    and "length (get_or [] (sorted_bufs l) (latency_key m p)) = latency_max_samples"
  defines "before \<equiv> get_or [] (sorted_bufs l) (latency_key m p)"
    and "after \<equiv> get_or [] (sorted_bufs (observe_all m p rs l)) (latency_key m p)"
  shows "after = slowest (before @ map snd rs) \<and> median_of before \<le> median_of after"
proof -
  have b: "buf_ok before"
    using assms(1,2) unfolding before_def lat_get_def
    by (auto simp: lat_ok_def lat_entry_ok_def Let_def dest: all_entriesD)
  then have "before = slowest before" by (simp add: buf_ok_slowest)
  then have "after = slowest (before @ map snd rs)"
    unfolding after_def by (rule observe_all_window [OF assms(1-3), folded before_def])
  then show ?thesis using slowest_median_mono [of before] b assms(4) before_def by (simp add: buf_ok_def)
qed


definition full_tracker :: latency_tracker where
  "full_tracker = \<lparr>latency = [(''m:p'', \<lparr>ml_model = ''m'', ml_provider = ''p'', median_ms = 1,
       sample_size = 100, last_update = 0, median_ttft = 0, ttft_sample_size = 0\<rparr>)],
     sorted_bufs = [(''m:p'', replicate 100 1000000)], ttft_bufs = [], last_evict = 0\<rparr>"

lemma full_window_never_speeds_up_witness:
  "1000000 \<le> median_of (get_or [] (sorted_bufs (observe_all ''m'' ''p'' [((1, 1, 1), 1)] full_tracker)) ''m:p'')"
proof -
  let ?ml = "\<lparr>ml_model = ''m'', ml_provider = ''p'', median_ms = 1, sample_size = 100,
    last_update = 0, median_ttft = 0, ttft_sample_size = 0\<rparr>"
  have k: "latency_key ''m'' ''p'' = ''m:p''" by (simp add: latency_key_def)
  have b: "get_or [] (sorted_bufs full_tracker) ''m:p'' = replicate 100 1000000"
    by (simp add: full_tracker_def get_or_def)
  have m: "median_of (replicate 100 1000000) = 1000000" by (simp add: median_of_def)
  have ok: "lat_ok full_tracker"
    by (auto simp: lat_ok_def full_tracker_def all_entries_def lat_entry_ok_def buf_ok_def get_or_def
        latency_max_keys_def latency_max_samples_def m millisecond_def split: if_splits)
  have g: "lat_get ''m'' ''p'' full_tracker = Some ?ml"
    by (simp add: lat_get_def k) (simp add: full_tracker_def)
  have s: "steady (last_update ?ml) [((1, 1, 1), 1)]"
    by (simp add: latency_stale_timeout_def minute_def)
  have n: "length (get_or [] (sorted_bufs full_tracker) (latency_key ''m'' ''p'')) = latency_max_samples"
    by (simp add: k b latency_max_samples_def)
  from full_window_never_speeds_up [OF ok g s n] show ?thesis unfolding k b m by (rule conjunct2)
qed

subsection \<open>The order of targets\<close>

definition observed :: "latency_tracker \<Rightarrow> lat_pair list \<Rightarrow> nat \<Rightarrow> bool" where
  "observed l keys i = (case keys ! i of (m, p) \<Rightarrow> lat_get m p l \<noteq> None)"

text \<open>
  Whatever the jitter and the warmth, a move to the left stops at an observed pair at the latest
  when the mover is unobserved, and passes every unobserved pair when it is observed.
\<close>

lemma latency_less_unobserved:
  "\<not> observed l keys i \<Longrightarrow> latency_less l draw warm band keys i j s = (False, s)"
  by (auto simp: latency_less_def observed_def Let_def split: prod.split option.split)

lemma latency_less_passes:
  "observed l keys i \<Longrightarrow> \<not> observed l keys j \<Longrightarrow> latency_less l draw warm band keys i j s = (True, s)"
  by (auto simp: latency_less_def observed_def Let_def split: prod.split option.split)

lemma move_left_unobserved:
  "\<not> observed l keys i \<Longrightarrow> move_left (latency_less l draw warm band keys) i dn s = (i # dn, s)"
  by (cases dn) (simp_all add: latency_less_unobserved)

lemma move_left_observed:
  "observed l keys i \<Longrightarrow> list_all (\<lambda>j. \<not> observed l keys j) us \<Longrightarrow>
   \<exists>dn' s'. move_left (latency_less l draw warm band keys) i (us @ dn) s = (us @ dn', s')
     \<and> mset dn' = add_mset i (mset dn)"
proof (induction us)
  case Nil
  obtain dn' s' where "move_left (latency_less l draw warm band keys) i dn s = (dn', s')" by force
  then show ?case using mset_move_left [of "latency_less l draw warm band keys" i dn s] by auto
next
  case (Cons u us)
  then show ?case by (auto simp: latency_less_passes)
qed

lemma insertion_loop_latency:
  assumes "list_all (\<lambda>j. \<not> observed l keys j) us" "list_all (observed l keys) os"
  shows "\<exists>os' s'. insertion_loop (latency_less l draw warm band keys) (us @ os) xs s
      = (rev (filter (\<lambda>i. \<not> observed l keys i) xs) @ us @ os', s')
    \<and> mset os' = mset os + mset (filter (observed l keys) xs)"
  using assms
proof (induction xs arbitrary: us os s)
  case (Cons x xs)
  show ?case
  proof (cases "observed l keys x")
    case True
    obtain os' s' where m: "move_left (latency_less l draw warm band keys) x (us @ os) s = (us @ os', s')"
      "mset os' = add_mset x (mset os)"
      using move_left_observed [OF True Cons.prems(1), of draw warm band os s] by blast
    have "set os' = insert x (set os)" using m(2) by (metis set_mset_add_mset_insert set_mset_mset)
    then have "list_all (observed l keys) os'" using Cons.prems(2) True by (auto simp: list_all_iff)
    from Cons.IH [OF Cons.prems(1) this, of s'] show ?thesis using True m by auto
  next
    case False
    have "list_all (\<lambda>j. \<not> observed l keys j) (x # us)" using Cons.prems(1) False by simp
    from Cons.IH [OF this Cons.prems(2), of s] show ?thesis
      using False by (auto simp: move_left_unobserved)
  qed
qed simp

text \<open>
  For every jitter source, warmth predicate and band, the order by latency is a permutation
  of the targets that puts the observed ones first (in some order) and leaves the unobserved
  ones at the end in their configured order.
\<close>

theorem unobserved_targets_come_last:
  assumes "sort_by_latency_with_warmth (Some l) draw warm band keys s = (is, s')"
  defines "seen \<equiv> observed l keys"
  shows "mset is = mset [0..<length keys] \<and>
    is = filter seen is @ filter (\<lambda>i. \<not> seen i) [0..<length keys]"
proof (cases "length keys \<le> 1")
  case True
  then have "is = [0..<length keys]" using assms(1) by (simp add: sort_by_latency_with_warmth_def)
  then show ?thesis using True by (cases keys) auto
next
  case False
  obtain os' s'' where e: "insertion_loop (latency_less l draw warm band keys) [] [0..<length keys] s
      = (rev (filter (\<lambda>i. \<not> seen i) [0..<length keys]) @ os', s'')"
    "mset os' = mset (filter seen [0..<length keys])"
    using insertion_loop_latency [of l keys "[]" "[]" draw warm band "[0..<length keys]" s]
    unfolding seen_def by auto
  then have i: "is = rev os' @ filter (\<lambda>i. \<not> seen i) [0..<length keys]"
    using assms(1) False by (simp add: sort_by_latency_with_warmth_def slice_stable_def Let_def)
  have "set os' = set (filter seen [0..<length keys])" by (rule mset_eq_setD [OF e(2)])
  then have "filter seen (rev os') = rev os'" by (auto simp: filter_id_conv)
  moreover have "mset is = mset [0..<length keys]"
    using assms(1) False slice_stable_mset [of "latency_less l draw warm band keys" "[0..<length keys]" s]
    by (simp add: sort_by_latency_with_warmth_def)
  ultimately show ?thesis unfolding i by simp
qed


definition near_tie :: "model_latency \<Rightarrow> model_latency \<Rightarrow> rat \<Rightarrow> bool" where
  "near_tie a b band \<longleftrightarrow> \<bar>median_ms a - median_ms b\<bar> \<le> max band 0 * max (median_ms a) (median_ms b)"

text \<open>
  The warm target of a near tie is sure to lead only when it is listed second. Of two
  observed targets inside the band, exactly one of them warm, the second leads if it is warm; if
  the first is the warm one the jitter still decides, and the cold target overtakes it whenever
  its draw makes it look faster.
\<close>

theorem warm_target_leads_only_from_behind:
  assumes "lat_get m1 p1 l = Some a" "lat_get m2 p2 l = Some b" "near_tie a b band" "w m1 p1 \<noteq> w m2 p2"
    and "draw s = (x, s1)" "draw s1 = (y, s2)"
  shows "fst (sort_by_latency_with_warmth (Some l) draw (Some w) band [(m1, p1), (m2, p2)] s)
    = (if w m2 p2 \<or> jittered (median_ms b) x < jittered (median_ms a) y then [1, 0] else [0, 1])"
proof -
  have "warm_cache_leads b a (w m2 p2) (w m1 p1) band = w m2 p2"
    using assms(3,4) by (auto simp: warm_cache_leads_def near_tie_def abs_minus_commute max.commute Let_def)
  then show ?thesis using assms
    by (auto simp: sort_by_latency_with_warmth_def slice_stable_def latency_less_def upt_rec Let_def)
qed

definition two_pairs :: latency_tracker where
  "two_pairs = \<lparr>latency = [(''a:p'', \<lparr>ml_model = ''a'', ml_provider = ''p'', median_ms = 100,
       sample_size = 1, last_update = 0, median_ttft = 0, ttft_sample_size = 0\<rparr>),
      (''b:p'', \<lparr>ml_model = ''b'', ml_provider = ''p'', median_ms = 100,
       sample_size = 1, last_update = 0, median_ttft = 0, ttft_sample_size = 0\<rparr>)],
     sorted_bufs = [(''a:p'', [100000000]), (''b:p'', [100000000])], ttft_bufs = [], last_evict = 0\<rparr>"

text \<open>Equal medians, the first target warm, the draws 0 and 1/2: the cold target leads.\<close>

lemma warm_target_leads_only_from_behind_witness:
  "fst (sort_by_latency_with_warmth (Some two_pairs) (\<lambda>d. (d, 1 / 2)) (Some (\<lambda>m p. m = ''a''))
     default_warm_cache_band [(''a'', ''p''), (''b'', ''p'')] 0) = [1, 0]"
proof -
  let ?ml = "\<lambda>m. \<lparr>ml_model = m, ml_provider = ''p'', median_ms = 100, sample_size = 1,
    last_update = 0, median_ttft = 0, ttft_sample_size = 0\<rparr>"
  have g: "lat_get ''a'' ''p'' two_pairs = Some (?ml ''a'')" "lat_get ''b'' ''p'' two_pairs = Some (?ml ''b'')"
    by (simp_all add: lat_get_def two_pairs_def latency_key_def)
  have t: "near_tie (?ml ''a'') (?ml ''b'') default_warm_cache_band"
    by (simp add: near_tie_def default_warm_cache_band_def latency_jitter_range_def)
  show ?thesis
    by (subst warm_target_leads_only_from_behind [OF g t, where x = 0 and ?s1.0 = "1 / 2"
          and y = "1 / 2" and ?s2.0 = "1 / 2"])
      (simp_all add: jittered_def latency_jitter_range_def)
qed

end
