(* ===== verification/Spend.thy ===== *)
theory Spend
  imports Prelude
begin

text \<open>
  Money: the USD conversions of internal/util/math.go, the per-model spend of
  internal/infra/cost_tracker.go in micro-USD, the per-account spend and exhaustion of
  internal/billing/tracker.go in cents, and the agent-budget gate of internal/proxy/retry.go that
  reads it. Amounts are exact numbers, so there is no NaN or infinity. Counters are \<^verbatim>\<open>int64\<close>
  values whose addition wraps.

  A counter is a shared object reached through a map, so the trackers hold a map from names to
  cells and a store of cells. A method that looks its counter up under one lock, creates it under
  another and adds outside both is split at these points; \<open>record_usage\<close> and \<open>add_spend\<close> are
  the splits run in sequence, and the two step relations interleave them.
\<close>

subsection \<open>Conversions\<close>

definition max_int64 :: int where "max_int64 = 9223372036854775807"

definition wrap64 :: "int \<Rightarrow> int" where
  "wrap64 x = (x + 2 ^ 63) mod 2 ^ 64 - 2 ^ 63"

lemma wrap64_add: "wrap64 (wrap64 x + y) = wrap64 (x + y)"
  by (simp add: wrap64_def algebra_simps mod_diff_left_eq) (simp add: mod_simps algebra_simps)

text \<open>\<^verbatim>\<open>math.Round\<close>: half away from zero.\<close>

definition round_half_away :: "rat \<Rightarrow> int" where
  "round_half_away q = (if 0 \<le> q then \<lfloor>q + 1 / 2\<rfloor> else - \<lfloor>1 / 2 - q\<rfloor>)"

definition safe_micro_usd :: "rat \<Rightarrow> int option" where
  "safe_micro_usd usd =
    (if usd \<ge> of_int max_int64 / 1000000 \<or> usd \<le> - (of_int max_int64 / 1000000) then None
     else Some (round_half_away (usd * 1000000)))"

definition safe_usd_cents :: "rat \<Rightarrow> int option" where
  "safe_usd_cents usd =
    (if usd \<ge> of_int max_int64 / 100 \<or> usd \<le> - (of_int max_int64 / 100) then None
     else Some (round_half_away (usd * 100)))"

lemma round_half_away_small: "\<bar>q\<bar> < 1 / 2 \<Longrightarrow> round_half_away q = 0"
proof -
  assume q: "\<bar>q\<bar> < 1 / 2"
  then have "- (1 / 2) < q" "q < 1 / 2" unfolding abs_less_iff by linarith+
  then have "\<lfloor>q + 1 / 2\<rfloor> = 0" "\<lfloor>1 / 2 - q\<rfloor> = 0" unfolding floor_eq_iff by linarith+
  then show ?thesis by (simp add: round_half_away_def)
qed

lemma round_half_away_error: "2 * \<bar>of_int (round_half_away q) - q\<bar> \<le> 1"
proof (cases "0 \<le> q")
  case True
  have "of_int \<lfloor>q + 1 / 2\<rfloor> \<le> q + 1 / 2" "q + 1 / 2 < of_int \<lfloor>q + 1 / 2\<rfloor> + 1" by linarith+
  then show ?thesis using True by (simp add: round_half_away_def abs_if) linarith
next
  case False
  have "of_int \<lfloor>1 / 2 - q\<rfloor> \<le> 1 / 2 - q" "1 / 2 - q < of_int \<lfloor>1 / 2 - q\<rfloor> + 1" by linarith+
  then show ?thesis using False by (simp add: round_half_away_def abs_if) linarith
qed

subsection \<open>Cells\<close>

text \<open>The store of counters: a new counter takes the next place.\<close>

type_synonym cells = "int list"

definition cell_add :: "nat \<Rightarrow> int \<Rightarrow> cells \<Rightarrow> cells" where
  "cell_add i v cs = cs[i := wrap64 (cs ! i + v)]"

subsection \<open>The cost tracker\<close>

record cost_tracker =
  ct_costs :: "(string, nat) gomap"
  ct_errors :: "(string, nat) gomap"
  ct_cells :: cells

definition new_cost_tracker :: cost_tracker where
  "new_cost_tracker = \<lparr>ct_costs = [], ct_errors = [], ct_cells = []\<rparr>"

definition micro_of :: "rat \<Rightarrow> int option" where
  "micro_of cost = (case safe_micro_usd cost of
     None \<Rightarrow> None
   | Some m \<Rightarrow> Some (if m = 0 \<and> cost \<noteq> 0 then (if cost < 0 then -1 else 1) else m))"

text \<open>The section under the write lock: the counter another caller has made in the meantime is
  used.\<close>

definition ct_create :: "string \<Rightarrow> cost_tracker \<Rightarrow> nat \<times> cost_tracker" where
  "ct_create model ct = (case map_of (ct_costs ct) model of
     Some i \<Rightarrow> (i, ct)
   | None \<Rightarrow> (length (ct_cells ct),
       ct\<lparr>ct_costs := put model (length (ct_cells ct)) (ct_costs ct), ct_cells := ct_cells ct @ [0]\<rparr>))"

definition ct_add :: "nat \<Rightarrow> int \<Rightarrow> cost_tracker \<Rightarrow> cost_tracker" where
  "ct_add i v ct = ct\<lparr>ct_cells := cell_add i v (ct_cells ct)\<rparr>"

definition record_usage :: "string \<Rightarrow> rat \<Rightarrow> cost_tracker \<Rightarrow> cost_tracker" where
  "record_usage model cost ct = (case micro_of cost of
     None \<Rightarrow> ct
   | Some v \<Rightarrow> (case map_of (ct_costs ct) model of
       Some i \<Rightarrow> ct_add i v ct
     | None \<Rightarrow> (let (i, ct) = ct_create model ct in ct_add i v ct)))"

definition record_error :: "string \<Rightarrow> cost_tracker \<Rightarrow> cost_tracker" where
  "record_error model ct =
    (let (i, ct) = (case map_of (ct_errors ct) model of
           Some i \<Rightarrow> (i, ct)
         | None \<Rightarrow> (length (ct_cells ct),
             ct\<lparr>ct_errors := put model (length (ct_cells ct)) (ct_errors ct), ct_cells := ct_cells ct @ [0]\<rparr>))
     in ct_add i 1 ct)"

definition get_cost_micro_usd :: "string \<Rightarrow> cost_tracker option \<Rightarrow> int" where
  "get_cost_micro_usd model ct = (case ct of None \<Rightarrow> 0 | Some ct \<Rightarrow>
     (case map_of (ct_costs ct) model of None \<Rightarrow> 0 | Some i \<Rightarrow> ct_cells ct ! i))"

definition get_cost_usd :: "string \<Rightarrow> cost_tracker option \<Rightarrow> rat" where
  "get_cost_usd model ct = of_int (get_cost_micro_usd model ct) / 1000000"

definition get_error_count :: "string \<Rightarrow> cost_tracker option \<Rightarrow> int" where
  "get_error_count model ct = (case ct of None \<Rightarrow> 0 | Some ct \<Rightarrow>
     (case map_of (ct_errors ct) model of None \<Rightarrow> 0 | Some i \<Rightarrow> ct_cells ct ! i))"

definition read_cells :: "cells \<Rightarrow> (string, nat) gomap \<Rightarrow> (string, int) gomap" where
  "read_cells cs m = map (\<lambda>(k, i). (k, cs ! i)) m"

definition ct_snapshot :: "cost_tracker \<Rightarrow> int \<times> (string, int) gomap \<times> (string, int) gomap" where
  "ct_snapshot ct =
    (let costs = read_cells (ct_cells ct) (ct_costs ct)
     in (fold (\<lambda>(k, v) acc. wrap64 (acc + v)) costs 0, costs, read_cells (ct_cells ct) (ct_errors ct)))"

subsection \<open>The billing tracker\<close>

record spend_status =
  as_account :: string
  as_provider :: string
  total_spend :: int
  exhausted :: bool
  exhausted_at :: time
  last_reset_at :: time

record billing_tracker =
  bt_accounts :: "(string, nat) gomap"
  bt_cells :: "spend_status list"
  total_spend_cents :: int
  total_requests :: u64
  exhausted_count :: u64

definition new_billing_tracker :: billing_tracker where
  "new_billing_tracker = \<lparr>bt_accounts = [], bt_cells = [], total_spend_cents = 0,
     total_requests = 0, exhausted_count = 0\<rparr>"

definition bill_key :: "string \<Rightarrow> string \<Rightarrow> string" where
  "bill_key provider account = provider @ '':'' @ account"

definition fresh_status :: "string \<Rightarrow> string \<Rightarrow> spend_status" where
  "fresh_status provider account = \<lparr>as_account = account, as_provider = provider, total_spend = 0,
     exhausted = False, exhausted_at = zero_time, last_reset_at = zero_time\<rparr>"

text \<open>The section of \<^verbatim>\<open>addSpend\<close> under the write lock.\<close>

definition bt_create :: "string \<Rightarrow> string \<Rightarrow> billing_tracker \<Rightarrow> nat \<times> billing_tracker" where
  "bt_create provider account bt = (length (bt_cells bt),
     bt\<lparr>bt_accounts := put (bill_key provider account) (length (bt_cells bt)) (bt_accounts bt),
        bt_cells := bt_cells bt @ [fresh_status provider account]\<rparr>)"

definition charge_cents :: "rat \<Rightarrow> int" where
  "charge_cents cost = (case safe_usd_cents cost of Some c \<Rightarrow> if c > 0 then c else 0 | None \<Rightarrow> 0)"

definition with_cell :: "nat \<Rightarrow> (spend_status \<Rightarrow> spend_status) \<Rightarrow> billing_tracker \<Rightarrow> billing_tracker" where
  "with_cell i f bt = bt\<lparr>bt_cells := (bt_cells bt)[i := f (bt_cells bt ! i)]\<rparr>"

definition bt_charge :: "nat \<Rightarrow> rat \<Rightarrow> bool \<Rightarrow> billing_tracker \<Rightarrow> billing_tracker" where
  "bt_charge i cost claim bt =
    (let c = charge_cents cost;
         bt = with_cell i (\<lambda>a. a\<lparr>total_spend := wrap64 (total_spend a + c)\<rparr>) bt;
         bt = bt\<lparr>total_spend_cents := wrap64 (total_spend_cents bt + c)\<rparr>
     in if claim then bt\<lparr>total_requests := total_requests bt + 1\<rparr> else bt)"

definition add_spend :: "string \<Rightarrow> string \<Rightarrow> rat \<Rightarrow> bool \<Rightarrow> billing_tracker \<Rightarrow> billing_tracker" where
  "add_spend provider account cost claim bt =
    (case map_of (bt_accounts bt) (bill_key provider account) of
       Some i \<Rightarrow> bt_charge i cost claim bt
     | None \<Rightarrow> (let (i, bt) = bt_create provider account bt in bt_charge i cost claim bt))"

definition mark_exhausted :: "time \<Rightarrow> string \<Rightarrow> string \<Rightarrow> billing_tracker \<Rightarrow> billing_tracker" where
  "mark_exhausted now provider account bt =
    (let (i, bt) = (case map_of (bt_accounts bt) (bill_key provider account) of
           Some i \<Rightarrow> (i, bt)
         | None \<Rightarrow> bt_create provider account bt);
         first = (\<not> exhausted (bt_cells bt ! i));
         bt = with_cell i (\<lambda>a. a\<lparr>exhausted := True, exhausted_at := now\<rparr>) bt
     in if \<not> first then bt else bt\<lparr>exhausted_count := exhausted_count bt + 1\<rparr>)"

definition bt_account :: "string \<Rightarrow> string \<Rightarrow> billing_tracker \<Rightarrow> spend_status option" where
  "bt_account provider account bt =
    map_option ((!) (bt_cells bt)) (map_of (bt_accounts bt) (bill_key provider account))"

definition is_exhausted :: "string \<Rightarrow> string \<Rightarrow> billing_tracker option \<Rightarrow> bool" where
  "is_exhausted provider account bt = (case bt of None \<Rightarrow> False | Some bt \<Rightarrow>
     (case bt_account provider account bt of None \<Rightarrow> False | Some a \<Rightarrow> exhausted a))"

definition get_total_spend :: "string \<Rightarrow> string \<Rightarrow> billing_tracker option \<Rightarrow> rat" where
  "get_total_spend provider account bt = (case bt of None \<Rightarrow> 0 | Some bt \<Rightarrow>
     (case bt_account provider account bt of None \<Rightarrow> 0 | Some a \<Rightarrow> of_int (total_spend a) / 100))"

definition get_utilization_ratio :: "string \<Rightarrow> string \<Rightarrow> rat \<Rightarrow> billing_tracker option \<Rightarrow> rat" where
  "get_utilization_ratio provider account limit bt =
    (if bt = None then 0 else if limit \<le> 0 then 0 else get_total_spend provider account bt / limit)"

text \<open>The new total is read from the accounts of the map, the reset one included.\<close>

definition reset_spend :: "time \<Rightarrow> string \<Rightarrow> string \<Rightarrow> billing_tracker \<Rightarrow> billing_tracker" where
  "reset_spend now provider account bt =
    (case map_of (bt_accounts bt) (bill_key provider account) of
       None \<Rightarrow> bt
     | Some i \<Rightarrow>
        (let bt = with_cell i (\<lambda>a. a\<lparr>total_spend := 0\<rparr>) bt;
             bt = bt\<lparr>total_spend_cents :=
               fold (\<lambda>(k, j) acc. wrap64 (acc + total_spend (bt_cells bt ! j))) (bt_accounts bt) 0\<rparr>
         in with_cell i (\<lambda>a. a\<lparr>exhausted := False, exhausted_at := zero_time, last_reset_at := now\<rparr>) bt))"

definition get_all_accounts :: "billing_tracker \<Rightarrow> spend_status list" where
  "get_all_accounts bt = map (\<lambda>(k, i). bt_cells bt ! i) (bt_accounts bt)"

text \<open>The agent-budget gate of \<^verbatim>\<open>checkTargetGates\<close>: whether the target is skipped.\<close>

definition agent_budget_skips :: "rat \<Rightarrow> bool \<Rightarrow> string \<Rightarrow> string \<Rightarrow> billing_tracker option \<Rightarrow> bool" where
  "agent_budget_skips limit byok provider account bt \<longleftrightarrow>
     limit > 0 \<and> bt \<noteq> None \<and> \<not> byok \<and> get_total_spend provider account bt \<ge> limit"


subsection \<open>Charges that vanish\<close>

lemma charge_cents_small: "0 \<le> c \<Longrightarrow> c < 1 / 200 \<Longrightarrow> charge_cents c = 0"
proof -
  assume c: "0 \<le> c" "c < 1 / 200"
  then have "\<bar>c * 100\<bar> < 1 / 2" by simp
  then show ?thesis by (simp add: charge_cents_def safe_usd_cents_def round_half_away_small)
qed

definition bill_all :: "string \<Rightarrow> string \<Rightarrow> rat list \<Rightarrow> billing_tracker \<Rightarrow> billing_tracker" where
  "bill_all provider account costs bt = fold (\<lambda>c. add_spend provider account c True) costs bt"

definition cells_in_range :: "billing_tracker \<Rightarrow> bool" where
  "cells_in_range bt \<longleftrightarrow> all_entries (\<lambda>_ i. i < length (bt_cells bt)) (bt_accounts bt)"

lemma add_spend_zero:
  assumes "charge_cents c = 0" "cells_in_range bt"
    and "\<And>a. bt_account p ac bt = Some a \<Longrightarrow> total_spend a = 0"
  shows "(\<exists>a. bt_account p ac (add_spend p ac c claim bt) = Some a \<and> total_spend a = 0)
    \<and> cells_in_range (add_spend p ac c claim bt)"
proof (cases "map_of (bt_accounts bt) (bill_key p ac)")
  case None
  then show ?thesis using assms(1,2)
    by (auto simp: add_spend_def bt_create_def bt_charge_def with_cell_def bt_account_def
        cells_in_range_def all_entries_def map_of_put fresh_status_def wrap64_def Let_def less_Suc_eq)
next
  case (Some i)
  then have "i < length (bt_cells bt)" using assms(2) by (auto simp: cells_in_range_def all_entries_def)
  then show ?thesis using assms Some
    by (auto simp: add_spend_def bt_charge_def with_cell_def bt_account_def
        cells_in_range_def all_entries_def wrap64_def Let_def)
qed

text \<open>
  C39: Requests that cost less than half a cent are free: each charge is rounded to whole cents on
  its own, so however many such requests an account serves its recorded spend stays zero and the
  agent's budget never skips it.
\<close>

theorem small_charges_never_add_up:
  assumes "list_all (\<lambda>c. 0 \<le> c \<and> c < 1 / 200) costs" and "0 < limit"
  shows "get_total_spend p a (Some (bill_all p a costs new_billing_tracker)) = 0
    \<and> \<not> agent_budget_skips limit False p a (Some (bill_all p a costs new_billing_tracker))"
proof -
  have "(\<forall>x. bt_account p a (bill_all p a costs bt) = Some x \<longrightarrow> total_spend x = 0)"
    if "cells_in_range bt" "\<forall>x. bt_account p a bt = Some x \<longrightarrow> total_spend x = 0" for bt
    using assms(1) that
  proof (induction costs arbitrary: bt)
    case (Cons c costs)
    have "charge_cents c = 0" using Cons.prems(1) by (simp add: charge_cents_small)
    from add_spend_zero [OF this Cons.prems(2), of p a True] Cons.prems(3)
    show ?case using Cons.IH [of "add_spend p a c True bt"] Cons.prems(1)
      by (fastforce simp: bill_all_def)
  qed (simp add: bill_all_def)
  from this [of new_billing_tracker]
  have "get_total_spend p a (Some (bill_all p a costs new_billing_tracker)) = 0"
    by (auto simp: get_total_spend_def cells_in_range_def new_billing_tracker_def bt_account_def
        split: option.split)
  then show ?thesis using assms(2) by (simp add: agent_budget_skips_def)
qed

lemma small_charges_never_add_up_witness:
  "sum_list (replicate 1000 (4 / 1000 :: rat)) = 4
   \<and> \<not> agent_budget_skips 1 False ''p'' ''a''
        (Some (bill_all ''p'' ''a'' (replicate 1000 (4 / 1000)) new_billing_tracker))"
  using small_charges_never_add_up [of "replicate 1000 (4 / 1000)" 1 "''p''" "''a''"]
  by (simp add: sum_list_replicate list_all_iff)

subsection \<open>Concurrent charges\<close>

text \<open>Where a caller of \<^verbatim>\<open>RecordUsage\<close> is: before the lookup, before the write lock, before the
  addition, done. Amounts are in micro-USD.\<close>

datatype charge = Looking string int | Creating string int | Adding string nat int | Charged string int

inductive ct_step :: "cost_tracker \<times> charge list \<Rightarrow> cost_tracker \<times> charge list \<Rightarrow> bool" where
  ct_found: "i < length ts \<Longrightarrow> ts ! i = Looking m v \<Longrightarrow> map_of (ct_costs ct) m = Some c \<Longrightarrow>
    ct_step (ct, ts) (ct, ts[i := Adding m c v])"
| ct_missing: "i < length ts \<Longrightarrow> ts ! i = Looking m v \<Longrightarrow> map_of (ct_costs ct) m = None \<Longrightarrow>
    ct_step (ct, ts) (ct, ts[i := Creating m v])"
| ct_made: "i < length ts \<Longrightarrow> ts ! i = Creating m v \<Longrightarrow> ct_create m ct = (c, ct') \<Longrightarrow>
    ct_step (ct, ts) (ct', ts[i := Adding m c v])"
| ct_added: "i < length ts \<Longrightarrow> ts ! i = Adding m c v \<Longrightarrow>
    ct_step (ct, ts) (ct_add c v ct, ts[i := Charged m v])"

inductive ct_reach :: "charge list \<Rightarrow> cost_tracker \<times> charge list \<Rightarrow> bool" for ts0 where
  ct_start: "list_all (\<lambda>t. case t of Looking m v \<Rightarrow> True | _ \<Rightarrow> False) ts0 \<Longrightarrow> ct_reach ts0 (new_cost_tracker, ts0)"
| ct_next: "ct_reach ts0 s \<Longrightarrow> ct_step s s' \<Longrightarrow> ct_reach ts0 s'"

definition charged :: "string \<Rightarrow> charge \<Rightarrow> int" where
  "charged m t = (case t of Charged m' v \<Rightarrow> if m' = m then v else 0 | _ \<Rightarrow> 0)"

definition charged_total :: "string \<Rightarrow> charge list \<Rightarrow> int" where
  "charged_total m ts = sum_list (map (charged m) ts)"

lemma charged_total_update:
  "i < length ts \<Longrightarrow> charged_total m (ts[i := t]) = charged_total m ts + charged m t - charged m (ts ! i)"
proof (induction ts arbitrary: i)
  case (Cons x ts)
  then show ?case by (cases i) (auto simp: charged_total_def)
qed simp

text \<open>Every counter is reached by one name, every caller about to add holds the counter of its
  name, and a counter is the sum of the charges completed.\<close>

definition ct_inv :: "cost_tracker \<Rightarrow> charge list \<Rightarrow> bool" where
  "ct_inv ct ts \<longleftrightarrow>
     (\<forall>m m' c. map_of (ct_costs ct) m = Some c \<longrightarrow> map_of (ct_costs ct) m' = Some c \<longrightarrow> m = m')
     \<and> (\<forall>m c. map_of (ct_costs ct) m = Some c \<longrightarrow>
          c < length (ct_cells ct) \<and> ct_cells ct ! c = wrap64 (charged_total m ts))
     \<and> (\<forall>m c v. Adding m c v \<in> set ts \<longrightarrow> map_of (ct_costs ct) m = Some c)
     \<and> (\<forall>m. map_of (ct_costs ct) m = None \<longrightarrow> charged_total m ts = 0)"

lemma ct_invI:
  assumes "\<And>m m' c. map_of (ct_costs ct) m = Some c \<Longrightarrow> map_of (ct_costs ct) m' = Some c \<Longrightarrow> m = m'"
    and "\<And>m c. map_of (ct_costs ct) m = Some c \<Longrightarrow> c < length (ct_cells ct)"
    and "\<And>m c. map_of (ct_costs ct) m = Some c \<Longrightarrow> ct_cells ct ! c = wrap64 (charged_total m ts)"
    and "\<And>m c v. Adding m c v \<in> set ts \<Longrightarrow> map_of (ct_costs ct) m = Some c"
    and "\<And>m. map_of (ct_costs ct) m = None \<Longrightarrow> charged_total m ts = 0"
  shows "ct_inv ct ts"
  unfolding ct_inv_def using assms by blast

lemma ct_invD:
  assumes "ct_inv ct ts"
  shows ct_inv_inj: "map_of (ct_costs ct) m = Some c \<Longrightarrow> map_of (ct_costs ct) m' = Some c \<Longrightarrow> m = m'"
    and ct_inv_bound: "map_of (ct_costs ct) m = Some c \<Longrightarrow> c < length (ct_cells ct)"
    and ct_inv_cell: "map_of (ct_costs ct) m = Some c \<Longrightarrow> ct_cells ct ! c = wrap64 (charged_total m ts)"
    and ct_inv_adding: "Adding m c v \<in> set ts \<Longrightarrow> map_of (ct_costs ct) m = Some c"
    and ct_inv_none: "map_of (ct_costs ct) m = None \<Longrightarrow> charged_total m ts = 0"
  using assms unfolding ct_inv_def by blast+

lemma set_update_cases: "x \<in> set (ts[i := t]) \<Longrightarrow> x = t \<or> x \<in> set ts"
  by (auto dest: set_update_subset_insert [THEN subsetD])


lemma ct_inv_quiet:
  assumes "ct_inv ct ts" "i < length ts" "\<And>m. charged m (ts ! i) = 0" "\<And>m. charged m t = 0"
    and "\<And>m c v. t = Adding m c v \<Longrightarrow> map_of (ct_costs ct) m = Some c"
  shows "ct_inv ct (ts[i := t])"
proof -
  note I = ct_invD [OF assms(1)]
  have tot: "charged_total m (ts[i := t]) = charged_total m ts" for m
    using assms(2-4) by (simp add: charged_total_update)
  show ?thesis
  proof (rule ct_invI)
    fix m c v
    assume "Adding m c v \<in> set (ts[i := t])"
    then show "map_of (ct_costs ct) m = Some c"
      using set_update_cases [of "Adding m c v" ts i t] I(4) assms(5) by metis
  qed (use I(1,2,3,5) tot in \<open>simp_all; fail\<close>)+
qed

lemma ct_inv_create:
  assumes "ct_inv ct ts" "ct_create m ct = (c, ct')"
  shows "ct_inv ct' ts" "map_of (ct_costs ct') m = Some c"
proof -
  note I = ct_invD [OF assms(1)]
  have "ct_inv ct' ts \<and> map_of (ct_costs ct') m = Some c"
  proof (cases "map_of (ct_costs ct) m")
    case (Some d)
    then show ?thesis using assms by (simp add: ct_create_def)
  next
    case None
    then have ct': "c = length (ct_cells ct)"
      "ct' = ct\<lparr>ct_costs := put m c (ct_costs ct), ct_cells := ct_cells ct @ [0]\<rparr>"
      using assms(2) by (auto simp: ct_create_def)
    have look: "map_of (ct_costs ct') k = (if k = m then Some c else map_of (ct_costs ct) k)" for k
      by (simp add: ct' map_of_put)
    have old: "d < c" if "map_of (ct_costs ct) m' = Some d" for m' d
      using I(2) [OF that] ct'(1) by simp
    have "ct_inv ct' ts"
    proof (rule ct_invI)
      fix k k' d
      assume "map_of (ct_costs ct') k = Some d" "map_of (ct_costs ct') k' = Some d"
      then show "k = k'" using I(1) old by (metis look less_irrefl option.inject)
    next
      fix k d
      assume k: "map_of (ct_costs ct') k = Some d"
      have "d < Suc c" using k old by (auto simp: look less_SucI split: if_splits)
      then show "d < length (ct_cells ct')" by (simp add: ct')
      show "ct_cells ct' ! d = wrap64 (charged_total k ts)"
      proof (cases "k = m")
        case True
        then show ?thesis using k I(5) [OF None] by (simp add: look) (auto simp: ct' wrap64_def nth_append)
      next
        case False
        then have "map_of (ct_costs ct) k = Some d" using k by (simp add: look)
        from I(3) [OF this] old [OF this] show ?thesis by (simp add: ct' nth_append)
      qed
    next
      fix k d v
      assume "Adding k d v \<in> set ts"
      then have "map_of (ct_costs ct) k = Some d" by (rule I(4))
      then show "map_of (ct_costs ct') k = Some d" using None by (auto simp: look)
    next
      fix k
      assume "map_of (ct_costs ct') k = None"
      then show "charged_total k ts = 0" using I(5) by (simp add: look split: if_splits)
    qed
    then show ?thesis by (simp add: look)
  qed
  then show "ct_inv ct' ts" "map_of (ct_costs ct') m = Some c" by auto
qed

lemma ct_inv_add:
  assumes "ct_inv ct ts" "i < length ts" "ts ! i = Adding m c v"
  shows "ct_inv (ct_add c v ct) (ts[i := Charged m v])"
proof -
  note I = ct_invD [OF assms(1)]
  have "Adding m c v \<in> set ts" using nth_mem [OF assms(2)] assms(3) by simp
  then have c: "map_of (ct_costs ct) m = Some c" by (rule I(4))
  have tot: "charged_total m' (ts[i := Charged m v]) = charged_total m' ts + (if m' = m then v else 0)" for m'
    using assms(2,3) by (simp add: charged_total_update charged_def)
  have keep: "ct_costs (ct_add c v ct) = ct_costs ct" "length (ct_cells (ct_add c v ct)) = length (ct_cells ct)"
    by (simp_all add: ct_add_def cell_add_def)
  show ?thesis
  proof (rule ct_invI, unfold keep)
    fix k d
    assume k: "map_of (ct_costs ct) k = Some d"
    show "ct_cells (ct_add c v ct) ! d = wrap64 (charged_total k (ts[i := Charged m v]))"
    proof (cases "k = m")
      case True
      then have "d = c" using k c by simp
      then show ?thesis using I(2,3) [OF c] True
        by (simp add: ct_add_def cell_add_def tot wrap64_add)
    next
      case False
      then have "d \<noteq> c" using I(1) [OF k] c by blast
      then show ?thesis using I(3) [OF k] False by (simp add: ct_add_def cell_add_def tot)
    qed
  next
    fix k d u
    assume "Adding k d u \<in> set (ts[i := Charged m v])"
    then show "map_of (ct_costs ct) k = Some d"
      using set_update_cases [of "Adding k d u" ts i "Charged m v"] I(4) by blast
  next
    fix k
    assume k: "map_of (ct_costs ct) k = None"
    then have "k \<noteq> m" using c by auto
    then show "charged_total k (ts[i := Charged m v]) = 0" using I(5) [OF k] tot by simp
  qed (use I(1,2) in blast)+
qed

lemma ct_reach_inv: "ct_reach ts0 s \<Longrightarrow> ct_inv (fst s) (snd s)"
proof (induction rule: ct_reach.induct)
  case ct_start
  then have "charged_total m ts0 = 0" for m
    by (induction ts0) (auto simp: charged_total_def charged_def split: charge.splits)
  then show ?case using ct_start
    by (auto simp: ct_inv_def new_cost_tracker_def list_all_iff split: charge.splits)
next
  case (ct_next s s')
  obtain ct ts where s: "s = (ct, ts)" by (cases s) auto
  have inv: "ct_inv ct ts" using ct_next.IH s by simp
  from ct_next.hyps(2) show ?case unfolding s
  proof (cases rule: ct_step.cases)
    case (ct_found i m v c)
    then show ?thesis using inv by (auto intro!: ct_inv_quiet simp: charged_def)
  next
    case (ct_missing i m v)
    then show ?thesis using inv by (auto intro!: ct_inv_quiet simp: charged_def)
  next
    case (ct_made i m v c ct'')
    then have "ct_create m ct = (c, ct'')" by simp
    note new = ct_inv_create [OF inv this]
    show ?thesis using ct_made new by (auto intro!: ct_inv_quiet simp: charged_def)
  next
    case (ct_added i m c v)
    then show ?thesis using ct_inv_add [OF inv] by simp
  qed
qed

text \<open>
  C40: The cost tracker loses no charge under any interleaving: whenever callers record costs
  concurrently, on an empty tracker, the counter of each model is the sum of the charges that
  have completed (modulo the width of the counter), since the section under the write lock looks
  the counter up again before making one.
\<close>

theorem concurrent_costs_add_up:
  assumes "ct_reach ts0 (ct, ts)"
  shows "get_cost_micro_usd m (Some ct) = wrap64 (charged_total m ts)"
proof -
  have inv: "ct_inv ct ts" using ct_reach_inv [OF assms] by simp
  show ?thesis
  proof (cases "map_of (ct_costs ct) m")
    case None
    then show ?thesis using inv by (simp add: get_cost_micro_usd_def ct_inv_def wrap64_def)
  next
    case (Some c)
    then show ?thesis using inv by (auto simp: get_cost_micro_usd_def ct_inv_def)
  qed
qed

text \<open>Two callers, each of which finds the counter missing before either makes it.\<close>

lemma concurrent_costs_add_up_witness:
  "\<exists>ct. ct_reach [Looking ''m'' 5, Looking ''m'' 7] (ct, [Charged ''m'' 5, Charged ''m'' 7])
     \<and> get_cost_micro_usd ''m'' (Some ct) = 12"
proof -
  let ?ts = "[Looking ''m'' 5, Looking ''m'' 7]"
  let ?ct = "\<lambda>v. \<lparr>ct_costs = [(''m'', 0)], ct_errors = [], ct_cells = [v]\<rparr>"
  have "ct_reach ?ts (new_cost_tracker, ?ts)" by (rule ct_start) simp
  then have "ct_reach ?ts (new_cost_tracker, [Creating ''m'' 5, Looking ''m'' 7])"
    by (rule ct_next) (use ct_missing [of 0 ?ts] in \<open>simp add: new_cost_tracker_def\<close>)
  then have "ct_reach ?ts (new_cost_tracker, [Creating ''m'' 5, Creating ''m'' 7])"
    by (rule ct_next) (use ct_missing [of 1 "[Creating ''m'' 5, Looking ''m'' 7]"] in
      \<open>simp add: new_cost_tracker_def\<close>)
  then have "ct_reach ?ts (?ct 0, [Adding ''m'' 0 5, Creating ''m'' 7])"
    by (rule ct_next) (use ct_made [of 0 "[Creating ''m'' 5, Creating ''m'' 7]" "''m''" 5 new_cost_tracker] in
      \<open>simp add: new_cost_tracker_def ct_create_def\<close>)
  then have "ct_reach ?ts (?ct 5, [Charged ''m'' 5, Creating ''m'' 7])"
    by (rule ct_next) (use ct_added [of 0 "[Adding ''m'' 0 5, Creating ''m'' 7]" "''m''" 0 5 "?ct 0"] in
      \<open>simp add: ct_add_def cell_add_def wrap64_def\<close>)
  then have "ct_reach ?ts (?ct 5, [Charged ''m'' 5, Adding ''m'' 0 7])"
    by (rule ct_next) (use ct_made [of 1 "[Charged ''m'' 5, Creating ''m'' 7]" "''m''" 7 "?ct 5"] in
      \<open>simp add: ct_create_def\<close>)
  then have r: "ct_reach ?ts (?ct 12, [Charged ''m'' 5, Charged ''m'' 7])"
    by (rule ct_next) (use ct_added [of 1 "[Charged ''m'' 5, Adding ''m'' 0 7]" "''m''" 0 7 "?ct 5"] in
      \<open>simp add: ct_add_def cell_add_def wrap64_def\<close>)
  from concurrent_costs_add_up [OF r, of "''m''"]
  have "get_cost_micro_usd ''m'' (Some (?ct 12)) = 12"
    by (simp add: charged_total_def charged_def wrap64_def)
  with r show ?thesis by blast
qed


text \<open>The callers of \<^verbatim>\<open>RecordSpend\<close>: the section under the write lock makes a status without
  looking again. \<^verbatim>\<open>MarkExhausted\<close> holds the lock throughout.\<close>

datatype bill_pc = Bill_look string string rat | Bill_make string string rat | Bill_add nat rat | Bill_done

inductive bill_step :: "billing_tracker \<times> bill_pc list \<Rightarrow> billing_tracker \<times> bill_pc list \<Rightarrow> bool" where
  bill_found: "i < length ts \<Longrightarrow> ts ! i = Bill_look p a c \<Longrightarrow>
    map_of (bt_accounts bt) (bill_key p a) = Some n \<Longrightarrow> bill_step (bt, ts) (bt, ts[i := Bill_add n c])"
| bill_missing: "i < length ts \<Longrightarrow> ts ! i = Bill_look p a c \<Longrightarrow>
    map_of (bt_accounts bt) (bill_key p a) = None \<Longrightarrow> bill_step (bt, ts) (bt, ts[i := Bill_make p a c])"
| bill_made: "i < length ts \<Longrightarrow> ts ! i = Bill_make p a c \<Longrightarrow> bt_create p a bt = (n, bt') \<Longrightarrow>
    bill_step (bt, ts) (bt', ts[i := Bill_add n c])"
| bill_added: "i < length ts \<Longrightarrow> ts ! i = Bill_add n c \<Longrightarrow>
    bill_step (bt, ts) (bt_charge n c True bt, ts[i := Bill_done])"
| bill_mark: "bill_step (bt, ts) (mark_exhausted now p a bt, ts)"

inductive bill_reach :: "bill_pc list \<Rightarrow> billing_tracker \<times> bill_pc list \<Rightarrow> bool" for ts0 where
  bill_start: "bill_reach ts0 (new_billing_tracker, ts0)"
| bill_next: "bill_reach ts0 s \<Longrightarrow> bill_step s s' \<Longrightarrow> bill_reach ts0 s'"

lemmas bill_run = new_billing_tracker_def bt_create_def bill_key_def fresh_status_def bt_charge_def
  with_cell_def charge_cents_def safe_usd_cents_def round_half_away_def max_int64_def wrap64_def
  mark_exhausted_def Let_def

text \<open>
  The billing tracker does lose charges and exhaustion marks. Two first charges of a dollar
  to one account, both finding it missing, can end with a dollar recorded for the account and two
  dollars in the total; and an account marked exhausted between the lookup and the write of its
  first charge is no longer exhausted afterwards, although the mark was counted.
\<close>

theorem first_charges_race:
  "(\<exists>bt. bill_reach [Bill_look ''p'' ''a'' 1, Bill_look ''p'' ''a'' 1] (bt, [Bill_done, Bill_done])
      \<and> get_total_spend ''p'' ''a'' (Some bt) = 1 \<and> total_spend_cents bt = 200)
   \<and> (\<exists>bt. bill_reach [Bill_look ''p'' ''a'' 1] (bt, [Bill_done])
      \<and> exhausted_count bt = 1 \<and> \<not> is_exhausted ''p'' ''a'' (Some bt))"
proof -
  let ?look = "Bill_look ''p'' ''a'' 1" and ?make = "Bill_make ''p'' ''a'' 1"
  let ?new = new_billing_tracker
  define b1 where "b1 = snd (bt_create ''p'' ''a'' ?new)"
  define b2 where "b2 = snd (bt_create ''p'' ''a'' b1)"
  define b3 where "b3 = bt_charge 1 1 True (bt_charge 0 1 True b2)"
  define m1 where "m1 = mark_exhausted 5 ''p'' ''a'' ?new"
  define m2 where "m2 = snd (bt_create ''p'' ''a'' m1)"
  define m3 where "m3 = bt_charge 1 1 True m2"
  have r: "bill_reach [?look, ?look] (?new, [?look, ?look])" by (rule bill_start)
  have "bill_reach [?look, ?look] (?new, [?make, ?look])"
    by (rule bill_next [OF r]) (use bill_missing [of 0 "[?look, ?look]"] in \<open>simp add: bill_run\<close>)
  from bill_next [OF this] have r: "bill_reach [?look, ?look] (?new, [?make, ?make])"
    using bill_missing [of 1 "[?make, ?look]"] by (simp add: bill_run)
  from bill_next [OF this] have r: "bill_reach [?look, ?look] (b1, [Bill_add 0 1, ?make])"
    using bill_made [of 0 "[?make, ?make]" "''p''" "''a''" 1 ?new 0 b1] by (simp add: b1_def bill_run)
  from bill_next [OF this] have r: "bill_reach [?look, ?look] (b2, [Bill_add 0 1, Bill_add 1 1])"
    using bill_made [of 1 "[Bill_add 0 1, ?make]" "''p''" "''a''" 1 b1 1 b2] by (simp add: b2_def b1_def bill_run)
  from bill_next [OF this] have r: "bill_reach [?look, ?look] (bt_charge 0 1 True b2, [Bill_done, Bill_add 1 1])"
    using bill_added [of 0 "[Bill_add 0 1, Bill_add 1 1]" 0 1 b2] by simp
  from bill_next [OF this] have r: "bill_reach [?look, ?look] (b3, [Bill_done, Bill_done])"
    using bill_added [of 1 "[Bill_done, Bill_add 1 1]" 1 1 "bt_charge 0 1 True b2"] by (simp add: b3_def)
  have f: "\<lfloor>201 / 2 :: rat\<rfloor> = 100" by (simp add: floor_eq_iff)
  have v: "get_total_spend ''p'' ''a'' (Some b3) = 1" "total_spend_cents b3 = 200"
    by (simp_all add: b3_def b2_def b1_def bill_run get_total_spend_def bt_account_def f)
  have s: "bill_reach [?look] (?new, [?look])" by (rule bill_start)
  from bill_next [OF this] have "bill_reach [?look] (?new, [?make])"
    using bill_missing [of 0 "[?look]"] by (simp add: bill_run)
  from bill_next [OF this bill_mark [of _ _ 5 "''p''" "''a''"]] have "bill_reach [?look] (m1, [?make])"
    by (simp add: m1_def)
  from bill_next [OF this] have "bill_reach [?look] (m2, [Bill_add 1 1])"
    using bill_made [of 0 "[?make]" "''p''" "''a''" 1 m1 1 m2] by (simp add: m2_def m1_def bill_run)
  from bill_next [OF this] have s: "bill_reach [?look] (m3, [Bill_done])"
    using bill_added [of 0 "[Bill_add 1 1]" 1 1 m2] by (simp add: m3_def)
  have w: "exhausted_count m3 = 1" "\<not> is_exhausted ''p'' ''a'' (Some m3)"
    by (simp_all add: m3_def m2_def m1_def bill_run is_exhausted_def bt_account_def)
  show ?thesis using r v s w by blast
qed

end
