(* ===== verification/UsageNorm.thy ===== *)
theory UsageNorm
  imports Json Spend
begin

text \<open>
  internal/stream/usage_normalize.go with \<^verbatim>\<open>ToInt\<close> and \<^verbatim>\<open>ExtractReasoningTokens\<close> of
  reader_pipeline.go: the usage object of an upstream, in the OpenAI, Anthropic or Gemini
  dialect, is reduced to one record of counts. Counts are integers; a sum of two of them is
  taken without the wrap-around of \<^verbatim>\<open>int\<close>.
\<close>

subsection \<open>Numbers\<close>

fun as_num :: "json option \<Rightarrow> rat option" where
  "as_num (Some (Num q)) = Some q"
| "as_num _ = None"

text \<open>Go's conversion of a \<^verbatim>\<open>float64\<close>: truncation; what does not fit becomes the least
  \<^verbatim>\<open>int\<close>, as the amd64 instruction has it.\<close>

definition trunc :: "rat \<Rightarrow> int" where
  "trunc q = (if q \<ge> 0 then \<lfloor>q\<rfloor> else \<lceil>q\<rceil>)"

definition go_int :: "rat \<Rightarrow> int" where
  "go_int q = (let i = trunc q in if - (2 ^ 63) \<le> i \<and> i < 2 ^ 63 then i else - (2 ^ 63))"

text \<open>\<^verbatim>\<open>strconv.Atoi\<close>\<close>

definition digit_value :: "char \<Rightarrow> int" where
  "digit_value c = int (byte c) - 48"

definition atoi :: "string \<Rightarrow> int option" where
  "atoi s =
    (let (neg, ds) = (case s of
           c # r \<Rightarrow> if c = CHR ''-'' then (True, r) else if c = CHR ''+'' then (False, r) else (False, s)
         | [] \<Rightarrow> (False, []));
         n = fold (\<lambda>c acc. 10 * acc + digit_value c) ds 0;
         i = (if neg then - n else n)
     in if ds = [] \<or> \<not> list_all (\<lambda>c. in_range 48 57 (byte c)) ds then None
        else if - (2 ^ 63) \<le> i \<and> i < 2 ^ 63 then Some i else None)"

fun to_int :: "json option \<Rightarrow> int" where
  "to_int (Some (Num n)) = (if n > 2 ^ 63 \<or> n < - (2 ^ 63) then 0 else go_int n)"
| "to_int (Some (Str s)) = (case atoi s of None \<Rightarrow> 0 | Some i \<Rightarrow> i)"
| "to_int _ = 0"

abbreviation int_field :: "(string, json) gomap \<Rightarrow> string \<Rightarrow> int" where
  "int_field m k \<equiv> to_int (map_of m k)"

definition nested_int :: "(string, json) gomap \<Rightarrow> string \<Rightarrow> string \<Rightarrow> int" where
  "nested_int m k f = (case as_obj (map_of m k) of None \<Rightarrow> 0 | Some d \<Rightarrow> int_field d f)"

lemma go_int_nat [simp]: "n < 2 ^ 63 \<Longrightarrow> go_int (of_nat n) = int n"
  by (simp add: go_int_def trunc_def)

lemma to_int_nat [simp]: "n < 2 ^ 63 \<Longrightarrow> to_int (Some (Num (of_nat n))) = int n"
proof -
  assume n: "n < 2 ^ 63"
  then have "(of_nat n :: rat) < of_nat (2 ^ 63)" unfolding of_nat_less_iff .
  moreover have "- ((2 :: rat) ^ 63) \<le> of_nat n"
    using of_nat_0_le_iff [of n, where ?'a = rat] by (simp add: order_trans [of _ 0])
  ultimately show ?thesis using n by simp
qed

declare to_int.simps(1) [simp del]

subsection \<open>The fields of a usage object\<close>

definition reasoning_token_extractors :: "((string, json) gomap \<Rightarrow> int) list" where
  "reasoning_token_extractors =
    [\<lambda>u. int_field u ''reasoning_tokens'',
     \<lambda>u. nested_int u ''output_tokens_details'' ''reasoning_tokens'',
     \<lambda>u. nested_int u ''completion_tokens_details'' ''reasoning_tokens'',
     \<lambda>u. int_field u ''completion_reasoning_tokens'',
     \<lambda>u. int_field u ''thoughtsTokenCount'']"

definition extract_reasoning_tokens :: "(string, json) gomap \<Rightarrow> int" where
  "extract_reasoning_tokens u =
    (case find (\<lambda>ex. ex u > 0) reasoning_token_extractors of None \<Rightarrow> 0 | Some ex \<Rightarrow> ex u)"

record usage_totals =
  ut_prompt :: int
  ut_completion :: int
  ut_total :: int
  ut_cache_hit :: int
  ut_cache_miss :: int
  ut_cache_creation :: int
  ut_cache_creation_5m :: int
  ut_cache_creation_1h :: int
  ut_reasoning :: int
  ut_total_reported :: bool
  ut_ambiguous :: bool

record usage_fields =
  openai_input :: int
  openai_output :: int
  native_input :: int
  native_output :: int
  native_cache_read :: int
  native_cache_creation :: int
  gemini_prompt :: int
  gemini_candidates :: int
  gemini_thoughts :: int
  gemini_total :: int
  gemini_cached :: int
  openai_total :: int
  uf_cache_hit :: int
  uf_cache_miss :: int
  uf_cache_creation :: int
  uf_cache_creation_5m :: int
  uf_cache_creation_1h :: int
  openai_decomposition :: bool

definition as_usage_map :: "json option \<Rightarrow> (string, json) gomap option" where
  "as_usage_map raw = as_obj raw"

definition usage_map_from_chunk :: "(string, json) gomap \<Rightarrow> (string, json) gomap option" where
  "usage_map_from_chunk chunk =
    (case as_usage_map (map_of chunk ''usage'') of
       Some u \<Rightarrow> Some u
     | None \<Rightarrow>
        (case (case as_obj (map_of chunk ''message'') of
                 None \<Rightarrow> None
               | Some message \<Rightarrow> as_usage_map (map_of message ''usage'')) of
           Some u \<Rightarrow> Some u
         | None \<Rightarrow> as_usage_map (map_of chunk ''usageMetadata'')))"

definition read_usage_fields :: "(string, json) gomap \<Rightarrow> usage_fields" where
  "read_usage_fields u =
    (let hit = int_field u ''prompt_cache_hit_tokens'';
         creation = int_field u ''cache_creation_tokens'';
         cached = nested_int u ''prompt_tokens_details'' ''cached_tokens'';
         late = (hit = 0 \<and> cached > 0)
     in \<lparr>openai_input = int_field u ''prompt_tokens'',
         openai_output = int_field u ''completion_tokens'',
         native_input = int_field u ''input_tokens'',
         native_output = int_field u ''output_tokens'',
         native_cache_read = int_field u ''cache_read_input_tokens'',
         native_cache_creation = int_field u ''cache_creation_input_tokens'',
         gemini_prompt = int_field u ''promptTokenCount'',
         gemini_candidates = int_field u ''candidatesTokenCount'',
         gemini_thoughts = int_field u ''thoughtsTokenCount'',
         gemini_total = int_field u ''totalTokenCount'',
         gemini_cached = int_field u ''cachedContentTokenCount'',
         openai_total = int_field u ''total_tokens'',
         uf_cache_hit = (if late then cached else hit),
         uf_cache_miss = int_field u ''prompt_cache_miss_tokens'',
         uf_cache_creation = creation,
         uf_cache_creation_5m = nested_int u ''cache_creation'' ''ephemeral_5m_input_tokens'',
         uf_cache_creation_1h = nested_int u ''cache_creation'' ''ephemeral_1h_input_tokens'',
         openai_decomposition = (hit > 0 \<or> creation > 0 \<or> late)\<rparr>)"

definition has_gemini :: "usage_fields \<Rightarrow> bool" where
  "has_gemini f \<longleftrightarrow> gemini_prompt f \<noteq> 0 \<or> gemini_candidates f \<noteq> 0 \<or> gemini_thoughts f \<noteq> 0"

definition gemini_only :: "usage_fields \<Rightarrow> bool" where
  "gemini_only f \<longleftrightarrow> has_gemini f \<or> gemini_total f \<noteq> 0 \<or> gemini_cached f \<noteq> 0"

definition ambiguous_cache_semantics :: "usage_fields \<Rightarrow> bool" where
  "ambiguous_cache_semantics f =
    (if native_input f \<noteq> 0 \<or> native_output f \<noteq> 0 \<or> openai_decomposition f then False
     else if native_cache_read f = 0 \<and> native_cache_creation f = 0 then False
     else openai_input f \<noteq> 0)"

definition anthropic_input_semantics :: "usage_fields \<Rightarrow> bool" where
  "anthropic_input_semantics f =
    (if native_input f \<noteq> 0 \<or> native_output f \<noteq> 0 then True
     else if openai_decomposition f then False
     else native_cache_read f \<noteq> 0 \<or> native_cache_creation f \<noteq> 0)"

subsection \<open>The three dialects\<close>

definition anthropic_totals :: "usage_fields \<Rightarrow> usage_totals \<Rightarrow> usage_totals" where
  "anthropic_totals f t =
    (let base_in = (if native_input f = 0 then openai_input f else native_input f);
         base_out = (if native_output f = 0 then openai_output f else native_output f);
         prompt = base_in + native_cache_read f + native_cache_creation f;
         hit = max (native_cache_read f) (uf_cache_hit f);
         creation = max (native_cache_creation f) (uf_cache_creation f)
     in t\<lparr>ut_prompt := prompt, ut_completion := base_out, ut_total := prompt + base_out,
          ut_cache_hit := hit, ut_cache_creation := creation,
          ut_cache_miss := max 0 (prompt - hit - creation),
          ut_ambiguous := ambiguous_cache_semantics f\<rparr>)"

definition gemini_totals :: "usage_fields \<Rightarrow> usage_totals \<Rightarrow> usage_totals" where
  "gemini_totals f t =
     t\<lparr>ut_prompt := gemini_prompt f, ut_completion := gemini_candidates f + gemini_thoughts f,
       ut_total := gemini_total f, ut_total_reported := (gemini_total f \<noteq> 0),
       ut_cache_hit := gemini_cached f, ut_cache_miss := max 0 (gemini_prompt f - gemini_cached f)\<rparr>"

definition openai_totals :: "usage_fields \<Rightarrow> usage_totals \<Rightarrow> usage_totals" where
  "openai_totals f t =
    (let t = t\<lparr>ut_prompt := openai_input f, ut_completion := openai_output f,
               ut_total := openai_total f, ut_total_reported := (openai_total f \<noteq> 0)\<rparr>
     in if uf_cache_miss f = 0 \<and> (ut_cache_hit t > 0 \<or> ut_cache_creation t > 0)
        then t\<lparr>ut_cache_miss := max 0 (ut_prompt t - ut_cache_hit t - ut_cache_creation t)\<rparr>
        else t)"

definition normalize_usage_totals :: "(string, json) gomap \<Rightarrow> usage_totals" where
  "normalize_usage_totals u =
    (let f = read_usage_fields u;
         t = \<lparr>ut_prompt = 0, ut_completion = 0, ut_total = 0, ut_cache_hit = uf_cache_hit f,
              ut_cache_miss = uf_cache_miss f, ut_cache_creation = uf_cache_creation f,
              ut_cache_creation_5m = uf_cache_creation_5m f,
              ut_cache_creation_1h = uf_cache_creation_1h f,
              ut_reasoning = extract_reasoning_tokens u, ut_total_reported = False,
              ut_ambiguous = False\<rparr>;
         t = (if gemini_only f then gemini_totals f t
              else if anthropic_input_semantics f then anthropic_totals f t
              else openai_totals f t)
     in if ut_total t = 0 then t\<lparr>ut_total := ut_prompt t + ut_completion t\<rparr> else t)"

subsection \<open>One call, three dialects\<close>

text \<open>
  A call as the gateway counts it: uncached input, cache reads and writes, visible output and
  reasoning. The three encodings are those of the providers' own APIs: OpenAI's input includes
  what was read from the cache and its output includes the reasoning; Anthropic's input
  excludes both cache dimensions; Gemini's candidates exclude the thoughts.
\<close>

record call_usage =
  cu_fresh :: nat
  cu_read :: nat
  cu_written :: nat
  cu_answer :: nat
  cu_thought :: nat

definition count :: "nat \<Rightarrow> json" where "count n = Num (of_nat n)"

lemma to_int_count [simp]: "n < 2 ^ 63 \<Longrightarrow> to_int (Some (count n)) = int n"
  unfolding count_def by (rule to_int_nat)

definition openai_usage :: "call_usage \<Rightarrow> (string, json) gomap" where
  "openai_usage c =
    [(''prompt_tokens'', count (cu_fresh c + cu_read c + cu_written c)),
     (''completion_tokens'', count (cu_answer c + cu_thought c)),
     (''prompt_tokens_details'', Obj [(''cached_tokens'', count (cu_read c))]),
     (''cache_creation_tokens'', count (cu_written c)),
     (''completion_tokens_details'', Obj [(''reasoning_tokens'', count (cu_thought c))])]"

definition anthropic_usage :: "call_usage \<Rightarrow> (string, json) gomap" where
  "anthropic_usage c =
    [(''input_tokens'', count (cu_fresh c)),
     (''cache_read_input_tokens'', count (cu_read c)),
     (''cache_creation_input_tokens'', count (cu_written c)),
     (''output_tokens'', count (cu_answer c + cu_thought c)),
     (''completion_reasoning_tokens'', count (cu_thought c))]"

definition gemini_usage :: "call_usage \<Rightarrow> (string, json) gomap" where
  "gemini_usage c =
    [(''promptTokenCount'', count (cu_fresh c + cu_read c)),
     (''cachedContentTokenCount'', count (cu_read c)),
     (''candidatesTokenCount'', count (cu_answer c)),
     (''thoughtsTokenCount'', count (cu_thought c))]"

definition small_usage :: "call_usage \<Rightarrow> bool" where
  "small_usage c \<longleftrightarrow>
     cu_fresh c + cu_read c + cu_written c < 2 ^ 63 \<and> cu_answer c + cu_thought c < 2 ^ 63"

text \<open>The counts a call should be recorded with.\<close>

definition counted :: "call_usage \<Rightarrow> usage_totals \<Rightarrow> bool" where
  "counted c t \<longleftrightarrow>
     ut_prompt t = int (cu_fresh c + cu_read c + cu_written c)
     \<and> ut_completion t = int (cu_answer c + cu_thought c)
     \<and> ut_total t = ut_prompt t + ut_completion t
     \<and> ut_cache_hit t = int (cu_read c) \<and> ut_cache_creation t = int (cu_written c)
     \<and> ut_reasoning t = int (cu_thought c)
     \<and> ut_cache_hit t + ut_cache_creation t \<le> ut_prompt t"


definition miss_derived :: "call_usage \<Rightarrow> usage_totals \<Rightarrow> bool" where
  "miss_derived c t \<longleftrightarrow> ut_cache_miss t = int (cu_fresh c)"

lemma small_usageD:
  assumes "small_usage c"
  shows "cu_fresh c + cu_read c + cu_written c < 2 ^ 63" "cu_fresh c + cu_read c < 2 ^ 63"
    "cu_fresh c < 2 ^ 63" "cu_read c < 2 ^ 63"
    "cu_written c < 2 ^ 63" "cu_answer c + cu_thought c < 2 ^ 63" "cu_answer c < 2 ^ 63" "cu_thought c < 2 ^ 63"
  using assms by (auto simp: small_usage_def)

lemmas usage_defs = nested_int_def extract_reasoning_tokens_def reasoning_token_extractors_def
  normalize_usage_totals_def read_usage_fields_def gemini_only_def has_gemini_def
  anthropic_input_semantics_def ambiguous_cache_semantics_def

lemma openai_counted:
  assumes "small_usage c"
  shows "counted c (normalize_usage_totals (openai_usage c))"
    and "cu_read c + cu_written c > 0 \<Longrightarrow> miss_derived c (normalize_usage_totals (openai_usage c))"
  using small_usageD [OF assms]
  by (auto simp: counted_def miss_derived_def openai_usage_def usage_defs openai_totals_def Let_def)

lemma anthropic_counted:
  assumes "small_usage c"
  shows "counted c (normalize_usage_totals (anthropic_usage c))"
    and "cu_fresh c + cu_read c + cu_written c > 0 \<Longrightarrow> miss_derived c (normalize_usage_totals (anthropic_usage c))"
  using small_usageD [OF assms]
  by (auto simp: counted_def miss_derived_def anthropic_usage_def usage_defs anthropic_totals_def openai_totals_def Let_def)

lemma gemini_counted:
  assumes "small_usage c" "cu_written c = 0"
  shows "counted c (normalize_usage_totals (gemini_usage c))"
    and "miss_derived c (normalize_usage_totals (gemini_usage c))"
  using small_usageD [OF assms(1)] assms(2)
  by (auto simp: counted_def miss_derived_def gemini_usage_def usage_defs gemini_totals_def openai_totals_def Let_def)

text \<open>
  A call is counted once and alike whichever dialect reports it: for every split of its
  tokens that fits an \<^verbatim>\<open>int64\<close>, the OpenAI, the Anthropic and (without cache writes) the Gemini
  usage objects give the same prompt, completion, total, cache and reasoning counts, and the
  cache miss is the uncached input whenever the call used a cache; for a call that used none the
  OpenAI object alone reports no miss.
\<close>

theorem dialects_count_alike:
  assumes "small_usage c"
  shows "counted c (normalize_usage_totals (openai_usage c))
    \<and> counted c (normalize_usage_totals (anthropic_usage c))
    \<and> (cu_written c = 0 \<longrightarrow> counted c (normalize_usage_totals (gemini_usage c)))
    \<and> (if cu_read c + cu_written c > 0
       then miss_derived c (normalize_usage_totals (openai_usage c))
         \<and> miss_derived c (normalize_usage_totals (anthropic_usage c))
       else ut_cache_miss (normalize_usage_totals (openai_usage c)) = 0
         \<and> miss_derived c (normalize_usage_totals (gemini_usage c)))"
proof -
  have "ut_cache_miss (normalize_usage_totals (openai_usage c)) = 0" if "cu_read c + cu_written c = 0"
    using small_usageD [OF assms] that
    by (auto simp: openai_usage_def usage_defs openai_totals_def Let_def)
  then show ?thesis using openai_counted [OF assms] anthropic_counted [OF assms] gemini_counted [OF assms]
    by auto
qed

lemma dialects_count_alike_witness:
  "counted \<lparr>cu_fresh = 100, cu_read = 900, cu_written = 24, cu_answer = 50, cu_thought = 7\<rparr>
     (normalize_usage_totals (anthropic_usage
       \<lparr>cu_fresh = 100, cu_read = 900, cu_written = 24, cu_answer = 50, cu_thought = 7\<rparr>))"
  using dialects_count_alike
    [of "\<lparr>cu_fresh = 100, cu_read = 900, cu_written = 24, cu_answer = 50, cu_thought = 7\<rparr>"]
  by (simp add: small_usage_def)

end
