(* ===== verification/AnthropicStream.thy ===== *)
theory AnthropicStream
  imports UsageNorm Text
begin

text \<open>
  internal/stream/openai_to_anthropic_transformer.go: the converter that turns the chunks of an
  OpenAI-format stream into Anthropic Messages events. The events it marshals are values of
  \<open>event\<close>; \<open>event_json\<close> is the JSON object the code builds for each. JSON decoding, the random
  message identifier and the state of the context are arguments. A panic is \<open>None\<close>.
\<close>

subsection \<open>Events\<close>

datatype block = Text_block | Tool_block string string
datatype delta = Text_delta string | Json_delta string

record published_usage =
  pu_input :: int
  pu_output :: int
  pu_cache_read :: int
  pu_cache_creation :: int

datatype event =
    Message_start string string int
  | Block_start nat block
  | Block_delta nat delta
  | Block_stop nat
  | Message_delta string published_usage
  | Message_stop

fun block_json :: "block \<Rightarrow> json" where
  "block_json Text_block = Obj [(''type'', Str ''text'')]"
| "block_json (Tool_block i n) = Obj [(''type'', Str ''tool_use''), (''id'', Str i), (''name'', Str n)]"

fun delta_json :: "delta \<Rightarrow> json" where
  "delta_json (Text_delta s) = Obj [(''type'', Str ''text_delta''), (''text'', Str s)]"
| "delta_json (Json_delta s) = Obj [(''type'', Str ''input_json_delta''), (''partial_json'', Str s)]"

abbreviation int_json :: "int \<Rightarrow> json" where "int_json i \<equiv> Num (of_int i)"

definition usage_json :: "published_usage \<Rightarrow> json" where
  "usage_json u = Obj ([(''input_tokens'', int_json (pu_input u)), (''output_tokens'', int_json (pu_output u))]
     @ (if pu_cache_read u > 0 then [(''cache_read_input_tokens'', int_json (pu_cache_read u))] else [])
     @ (if pu_cache_creation u > 0 then [(''cache_creation_input_tokens'', int_json (pu_cache_creation u))] else []))"

fun event_json :: "event \<Rightarrow> json" where
  "event_json (Message_start i m n) = Obj [(''type'', Str ''message_start''),
     (''message'', Obj [(''id'', Str i), (''type'', Str ''message''), (''role'', Str ''assistant''),
        (''model'', Str m), (''content'', Arr []), (''stop_reason'', Null), (''stop_sequence'', Null),
        (''usage'', Obj [(''input_tokens'', int_json n), (''output_tokens'', int_json 0)])])]"
| "event_json (Block_start i b) = Obj [(''type'', Str ''content_block_start''),
     (''index'', int_json (int i)), (''content_block'', block_json b)]"
| "event_json (Block_delta i d) = Obj [(''type'', Str ''content_block_delta''),
     (''index'', int_json (int i)), (''delta'', delta_json d)]"
| "event_json (Block_stop i) = Obj [(''type'', Str ''content_block_stop''), (''index'', int_json (int i))]"
| "event_json (Message_delta r u) = Obj [(''type'', Str ''message_delta''),
     (''delta'', Obj [(''stop_reason'', Str r), (''stop_sequence'', Null)]), (''usage'', usage_json u)]"
| "event_json Message_stop = Obj [(''type'', Str ''message_stop'')]"

subsection \<open>The converter\<close>

record tool_call =
  tc_index :: nat
  tc_id :: string
  tc_name :: string
  tc_args :: string

record converter =
  message_id :: string
  cv_model :: string
  prompt_tokens :: int
  stream_done :: bool
  text_buffer :: string
  tool_calls :: "tool_call list"
  text_emitted :: bool
  has_emitted :: bool
  pending_finish :: string
  output_tokens :: int
  cache_read_tokens :: int
  cache_creation_tokens :: int
  usage_seen :: bool

definition new_converter :: converter where
  "new_converter = \<lparr>message_id = [], cv_model = [], prompt_tokens = 0, stream_done = False,
     text_buffer = [], tool_calls = [], text_emitted = False, has_emitted = False,
     pending_finish = [], output_tokens = 0, cache_read_tokens = 0, cache_creation_tokens = 0,
     usage_seen = False\<rparr>"

definition capture_usage :: "(string, json) gomap \<Rightarrow> converter \<Rightarrow> converter" where
  "capture_usage chunk t =
    (case usage_map_from_chunk chunk of
       None \<Rightarrow> t
     | Some u \<Rightarrow>
        (let n = normalize_usage_totals u in
         if ut_prompt n = 0 \<and> ut_completion n = 0 then t
         else t\<lparr>prompt_tokens := max (prompt_tokens t) (ut_prompt n),
                output_tokens := max (output_tokens t) (ut_completion n),
                cache_read_tokens := max (cache_read_tokens t) (ut_cache_hit n),
                cache_creation_tokens := max (cache_creation_tokens t) (ut_cache_creation n),
                usage_seen := True\<rparr>))"

definition build_message_start :: "string \<Rightarrow> (string, json) gomap \<Rightarrow> converter \<Rightarrow> event \<times> converter" where
  "build_message_start gid chunk t =
    (let i = (case as_str (map_of chunk ''id'') of
                Some s \<Rightarrow> if s \<noteq> [] then s else ''msg_'' @ gid | None \<Rightarrow> ''msg_'' @ gid);
         m = (case as_str (map_of chunk ''model'') of Some s \<Rightarrow> s | None \<Rightarrow> ''unknown-model'')
     in (Message_start i m (prompt_tokens t), t\<lparr>message_id := i, cv_model := m\<rparr>))"

text \<open>Appending fresh calls until the index exists.\<close>

definition pad_calls :: "nat \<Rightarrow> tool_call list \<Rightarrow> tool_call list" where
  "pad_calls i calls = calls @
     map (\<lambda>j. \<lparr>tc_index = j, tc_id = [], tc_name = [], tc_args = []\<rparr>) [length calls..<i + 1]"

definition call_index :: "(string, json) gomap \<Rightarrow> int" where
  "call_index tc = (case as_num (map_of tc ''index'') of None \<Rightarrow> 0 | Some q \<Rightarrow> go_int q)"

text \<open>The first part of \<^verbatim>\<open>processToolCall\<close> opens the call's block, the second appends to it.\<close>

definition open_call :: "nat \<Rightarrow> (string, json) gomap \<Rightarrow> tool_call \<Rightarrow> event list \<times> tool_call" where
  "open_call i tc otc =
    (case as_str (map_of tc ''id'') of
       None \<Rightarrow> ([], otc)
     | Some s \<Rightarrow>
        if s \<noteq> [] \<and> tc_id otc = [] then
          (let fn_name = (case as_obj (map_of tc ''function'') of None \<Rightarrow> [] | Some fn \<Rightarrow> str_field fn ''name'');
               otc = otc\<lparr>tc_id := s\<rparr>;
               otc = (if fn_name \<noteq> [] then otc\<lparr>tc_name := fn_name\<rparr> else otc)
           in ([Block_start (i + 1) (Tool_block (tc_id otc) (tc_name otc))], otc))
        else ([], otc))"

definition call_args :: "(string, json) gomap \<Rightarrow> string option" where
  "call_args tc = (case as_obj (map_of tc ''function'') of None \<Rightarrow> None
     | Some fn \<Rightarrow> as_str (map_of fn ''arguments''))"

definition extend_call :: "nat \<Rightarrow> (string, json) gomap \<Rightarrow> tool_call \<Rightarrow> event list \<times> tool_call" where
  "extend_call i tc otc =
    (case call_args tc of
       None \<Rightarrow> ([], otc)
     | Some a \<Rightarrow> ([Block_delta (i + 1) (Json_delta a)], otc\<lparr>tc_args := tc_args otc @ a\<rparr>))"

definition process_tool_call :: "(string, json) gomap \<Rightarrow> converter \<Rightarrow> (event list \<times> converter) option" where
  "process_tool_call tc t =
    (let index = call_index tc in
     if index < 0 then None
     else let i = nat index;
              calls = pad_calls i (tool_calls t);
              (es, otc) = open_call i tc (calls ! i);
              (es', otc) = extend_call i tc otc
          in Some (es @ es', t\<lparr>tool_calls := calls[i := otc]\<rparr>))"

fun tool_call_loop :: "json list \<Rightarrow> converter \<Rightarrow> (event list \<times> converter) option" where
  "tool_call_loop [] t = Some ([], t)"
| "tool_call_loop (raw # tcs) t =
    (case as_obj (Some raw) of
       None \<Rightarrow> tool_call_loop tcs t
     | Some tc \<Rightarrow>
        (case process_tool_call tc t of
           None \<Rightarrow> None
         | Some (es, t) \<Rightarrow>
            (case tool_call_loop tcs t of
               None \<Rightarrow> None
             | Some (es', t) \<Rightarrow> Some (es @ es', t))))"

definition build_stream_stops :: "converter \<Rightarrow> event list" where
  "build_stream_stops t =
     (if text_emitted t then [Block_stop 0] else [])
     @ map (\<lambda>i. Block_stop (i + 1)) [0..<length (tool_calls t)]"

definition emit_text :: "(string, json) gomap \<Rightarrow> converter \<Rightarrow> event list \<times> converter" where
  "emit_text delta t =
    (let content = str_field delta ''content'' in
     if content = [] then ([], t)
     else ((if text_emitted t then [] else [Block_start 0 Text_block]) @ [Block_delta 0 (Text_delta content)],
           t\<lparr>text_emitted := True, text_buffer := text_buffer t @ content\<rparr>))"

definition process_choice :: "(string, json) gomap \<Rightarrow> converter \<Rightarrow> (event list \<times> converter) option" where
  "process_choice choice t =
    (case as_obj (map_of choice ''delta'') of
       None \<Rightarrow> Some ([], t)
     | Some delta \<Rightarrow>
        (let (es, t) = emit_text delta t in
         case tool_call_loop (case as_arr (map_of delta ''tool_calls'') of None \<Rightarrow> [] | Some tcs \<Rightarrow> tcs) t of
           None \<Rightarrow> None
         | Some (es', t) \<Rightarrow>
            (let finish = str_field choice ''finish_reason'' in
             if finish = [] then Some (es @ es', t)
             else Some (es @ es' @ build_stream_stops t,
                        t\<lparr>pending_finish := finish, stream_done := True\<rparr>))))"

definition map_finish_reason_reverse :: "string \<Rightarrow> string" where
  "map_finish_reason_reverse r =
    (if r = ''stop'' then ''end_turn''
     else if r = ''tool_calls'' \<or> r = ''function_call'' then ''tool_use''
     else if r = ''length'' then ''max_tokens''
     else if r = ''content_filter'' then ''refusal''
     else ''end_turn'')"

definition tail_usage :: "converter \<Rightarrow> published_usage" where
  "tail_usage t = \<lparr>
     pu_input = max 0 (prompt_tokens t - cache_read_tokens t - cache_creation_tokens t),
     pu_output = (if usage_seen t then output_tokens t else int (length (text_buffer t) div 4)),
     pu_cache_read = cache_read_tokens t, pu_cache_creation = cache_creation_tokens t\<rparr>"

definition build_stream_tail :: "string \<Rightarrow> converter \<Rightarrow> event list" where
  "build_stream_tail finish t = [Message_delta (map_finish_reason_reverse finish) (tail_usage t), Message_stop]"

definition finish_tail :: "converter \<Rightarrow> event list \<times> converter" where
  "finish_tail t =
    (if pending_finish t = [] then ([], t)
     else (build_stream_tail (pending_finish t) t, t\<lparr>pending_finish := []\<rparr>))"

text \<open>What a call answers: nothing, the payload itself (or the terminal sentinel), converted
  events, \<^verbatim>\<open>ErrEventConsumed\<close>, or the error of the context.\<close>

datatype answer = No_output | Raw string | Events "event list" | Consumed | Cancelled

text \<open>The part after decoding, from the lock on.\<close>

definition convert_chunk :: "string \<Rightarrow> (string, json) gomap \<Rightarrow> converter \<Rightarrow> (answer \<times> converter) option" where
  "convert_chunk gid chunk t =
    (let t = capture_usage chunk t in
     if stream_done t then
       (if pending_finish t \<noteq> []
        then Some (Events (build_stream_tail (pending_finish t) t), t\<lparr>pending_finish := []\<rparr>)
        else Some (Consumed, t))
     else
       (let (es, t) = (if has_emitted t then ([], t)
                       else let (e, t) = build_message_start gid chunk t in ([e], t\<lparr>has_emitted := True\<rparr>))
        in case as_arr (map_of chunk ''choices'') of
             None \<Rightarrow> Some (Events es, t)
           | Some [] \<Rightarrow> Some (Events es, t)
           | Some (c # _) \<Rightarrow>
              (case as_obj (Some c) of
                 None \<Rightarrow> Some (Events es, t)
               | Some choice \<Rightarrow>
                  map_option (\<lambda>(es', t). (Events (es @ es'), t)) (process_choice choice t))))"

definition done_payload :: string where "done_payload = ''[DONE]''"

definition is_done_payload :: "string \<Rightarrow> bool" where
  "is_done_payload data \<longleftrightarrow> trim_space data = done_payload"

definition transform_sse_chunk ::
  "(string \<Rightarrow> (string, json) gomap option) \<Rightarrow> bool \<Rightarrow> string \<Rightarrow> string \<Rightarrow> converter
     \<Rightarrow> (answer \<times> converter) option" where
  "transform_sse_chunk decode cancelled gid data t =
    (if data = [] then Some (No_output, t)
     else if is_done_payload data then
       (let t = t\<lparr>stream_done := True\<rparr> in
        if pending_finish t \<noteq> []
        then Some (Events (build_stream_tail (pending_finish t) t), t\<lparr>pending_finish := []\<rparr>)
        else Some (Raw done_payload, t))
     else case decode data of
       None \<Rightarrow> Some (Raw data, t)
     | Some chunk \<Rightarrow> if cancelled then Some (Cancelled, t) else convert_chunk gid chunk t)"

definition reset_converter :: "converter \<Rightarrow> converter" where
  "reset_converter t = t\<lparr>message_id := [], cv_model := [], prompt_tokens := 0, stream_done := False,
     text_buffer := [], tool_calls := [], text_emitted := False, has_emitted := False,
     output_tokens := 0, cache_read_tokens := 0, cache_creation_tokens := 0, usage_seen := False\<rparr>"

text \<open>What the reader (\<^verbatim>\<open>handleWithTransformer\<close>) puts on the wire for an answer: the upstream's
  line as it came, nothing, one frame for each event, or the terminal sequence.\<close>

datatype wire = Upstream_line | Nothing_sent | Frames "event list" | Terminal_frames

fun handle_with_transformer :: "answer \<Rightarrow> wire" where
  "handle_with_transformer Consumed = Nothing_sent"
| "handle_with_transformer Cancelled = Upstream_line"
| "handle_with_transformer No_output = Upstream_line"
| "handle_with_transformer (Events es) = (if es = [] then Upstream_line else Frames es)"
| "handle_with_transformer (Raw d) = (if is_done_payload d then Terminal_frames else Upstream_line)"

subsection \<open>A client of the converted stream\<close>

text \<open>
  The client reassembles a message and refuses an event out of order: it is the specification
  of a valid event sequence. \<open>cl_blocks\<close> holds each block with its content and whether it is
  still open, \<open>cl_open\<close> the number of open ones.
\<close>

datatype phase = Idle | Streaming | Closing | Ended

record client =
  cl_phase :: phase
  cl_blocks :: "nat \<Rightarrow> (block \<times> string \<times> bool) option"
  cl_open :: nat
  cl_stop_reason :: string
  cl_usage :: "published_usage option"

definition new_client :: client where
  "new_client = \<lparr>cl_phase = Idle, cl_blocks = (\<lambda>_. None), cl_open = 0, cl_stop_reason = [],
     cl_usage = None\<rparr>"

fun delta_fits :: "block \<Rightarrow> delta \<Rightarrow> bool" where
  "delta_fits Text_block (Text_delta _) = True"
| "delta_fits (Tool_block _ _) (Json_delta _) = True"
| "delta_fits _ _ = False"

fun delta_text :: "delta \<Rightarrow> string" where
  "delta_text (Text_delta s) = s"
| "delta_text (Json_delta s) = s"

fun client_step :: "event \<Rightarrow> client \<Rightarrow> client option" where
  "client_step (Message_start i m n) c =
    (if cl_phase c = Idle then Some (c\<lparr>cl_phase := Streaming\<rparr>) else None)"
| "client_step (Block_start i b) c =
    (if cl_phase c = Streaming \<and> cl_blocks c i = None
     then Some (c\<lparr>cl_blocks := (cl_blocks c)(i \<mapsto> (b, [], True)), cl_open := cl_open c + 1\<rparr>) else None)"
| "client_step (Block_delta i d) c =
    (case cl_blocks c i of
       Some (b, s, True) \<Rightarrow>
         if cl_phase c = Streaming \<and> delta_fits b d
         then Some (c\<lparr>cl_blocks := (cl_blocks c)(i \<mapsto> (b, s @ delta_text d, True))\<rparr>) else None
     | _ \<Rightarrow> None)"
| "client_step (Block_stop i) c =
    (case cl_blocks c i of
       Some (b, s, True) \<Rightarrow>
         if cl_phase c = Streaming
         then Some (c\<lparr>cl_blocks := (cl_blocks c)(i \<mapsto> (b, s, False)), cl_open := cl_open c - 1\<rparr>) else None
     | _ \<Rightarrow> None)"
| "client_step (Message_delta r u) c =
    (if cl_phase c = Streaming \<and> cl_open c = 0
     then Some (c\<lparr>cl_phase := Closing, cl_stop_reason := r, cl_usage := Some u\<rparr>) else None)"
| "client_step Message_stop c = (if cl_phase c = Closing then Some (c\<lparr>cl_phase := Ended\<rparr>) else None)"

fun client_run :: "event list \<Rightarrow> client \<Rightarrow> client option" where
  "client_run [] c = Some c"
| "client_run (e # es) c = Option.bind (client_step e c) (client_run es)"

lemma client_run_append [simp]:
  "client_run (es @ es') c = Option.bind (client_run es c) (client_run es')"
  by (induction es arbitrary: c) (auto split: Option.bind_splits)

subsection \<open>A client of the upstream stream\<close>

text \<open>
  The message an OpenAI client assembles: the text, the calls by index (the identifier and name
  of the delta that opens the call, the arguments of all), the finish reason. \<open>None\<close> when a delta
  is not one the protocol allows: a call index that skips one, or a call opened without an
  identifier.
\<close>

record message =
  m_text :: string
  m_calls :: "(string \<times> string \<times> string) list"
  m_finish :: string

definition add_call :: "(string, json) gomap \<Rightarrow> message \<Rightarrow> message option" where
  "add_call tc m =
    (let i = call_index tc;
         args = (case call_args tc of None \<Rightarrow> [] | Some a \<Rightarrow> a)
     in if 0 \<le> i \<and> nat i < length (m_calls m)
        then (case m_calls m ! nat i of
                (d, n, a) \<Rightarrow> Some (m\<lparr>m_calls := (m_calls m)[nat i := (d, n, a @ args)]\<rparr>))
        else if i = int (length (m_calls m)) \<and> str_field tc ''id'' \<noteq> []
        then Some (m\<lparr>m_calls := m_calls m @
               [(str_field tc ''id'',
                 case as_obj (map_of tc ''function'') of None \<Rightarrow> [] | Some fn \<Rightarrow> str_field fn ''name'',
                 args)]\<rparr>)
        else None)"

fun add_calls :: "json list \<Rightarrow> message \<Rightarrow> message option" where
  "add_calls [] m = Some m"
| "add_calls (raw # tcs) m =
    (case as_obj (Some raw) of
       None \<Rightarrow> add_calls tcs m
     | Some tc \<Rightarrow> Option.bind (add_call tc m) (add_calls tcs))"

definition first_choice :: "(string, json) gomap \<Rightarrow> (string, json) gomap option" where
  "first_choice chunk = (case as_arr (map_of chunk ''choices'') of
     Some (c # _) \<Rightarrow> as_obj (Some c) | _ \<Rightarrow> None)"

definition choice_delta :: "(string, json) gomap \<Rightarrow> (string, json) gomap option" where
  "choice_delta chunk = (case first_choice chunk of None \<Rightarrow> None
     | Some choice \<Rightarrow> as_obj (map_of choice ''delta''))"

definition chunk_finish :: "(string, json) gomap \<Rightarrow> string" where
  "chunk_finish chunk = (case first_choice chunk of None \<Rightarrow> []
     | Some choice \<Rightarrow> if choice_delta chunk = None then [] else str_field choice ''finish_reason'')"

definition add_chunk :: "(string, json) gomap \<Rightarrow> message \<Rightarrow> message option" where
  "add_chunk chunk m =
    (case choice_delta chunk of
       None \<Rightarrow> Some m
     | Some d \<Rightarrow>
        map_option (m_finish_update (\<lambda>_. chunk_finish chunk))
          (add_calls (case as_arr (map_of d ''tool_calls'') of None \<Rightarrow> [] | Some tcs \<Rightarrow> tcs)
             (m\<lparr>m_text := m_text m @ str_field d ''content''\<rparr>)))"

text \<open>The chunks up to the one that finishes; none may follow it here.\<close>

fun assemble :: "(string, json) gomap list \<Rightarrow> message \<Rightarrow> message option" where
  "assemble [] m = Some m"
| "assemble (chunk # chunks) m =
    (if m_finish m \<noteq> [] then None else Option.bind (add_chunk chunk m) (assemble chunks))"

abbreviation empty_message :: message where
  "empty_message \<equiv> \<lparr>m_text = [], m_calls = [], m_finish = []\<rparr>"

subsection \<open>Running the converter\<close>

fun answer_events :: "answer \<Rightarrow> event list" where
  "answer_events (Events es) = es"
| "answer_events _ = []"

fun feed :: "(string \<times> (string, json) gomap) list \<Rightarrow> converter \<Rightarrow> (event list \<times> converter) option" where
  "feed [] t = Some ([], t)"
| "feed ((gid, chunk) # chunks) t =
    (case convert_chunk gid chunk t of
       None \<Rightarrow> None
     | Some (a, t) \<Rightarrow>
        (case feed chunks t of None \<Rightarrow> None | Some (es, t) \<Rightarrow> Some (answer_events a @ es, t)))"

definition convert_stream :: "(string \<times> (string, json) gomap) list \<Rightarrow> (event list \<times> converter) option" where
  "convert_stream chunks =
    (case feed chunks new_converter of
       None \<Rightarrow> None
     | Some (es, t) \<Rightarrow> (case finish_tail t of (es', t) \<Rightarrow> Some (es @ es', t)))"


subsection \<open>The client follows the converter\<close>

text \<open>The states of the two clients while the stream is open are functions of the converter's.\<close>

definition blocks_of :: "bool \<Rightarrow> converter \<Rightarrow> nat \<Rightarrow> (block \<times> string \<times> bool) option" where
  "blocks_of is_open t i = (case i of
     0 \<Rightarrow> if text_emitted t then Some (Text_block, text_buffer t, is_open) else None
   | Suc j \<Rightarrow> if j < length (tool_calls t)
       then Some (Tool_block (tc_id (tool_calls t ! j)) (tc_name (tool_calls t ! j)),
                  tc_args (tool_calls t ! j), is_open)
       else None)"

definition client_of :: "converter \<Rightarrow> client" where
  "client_of t = \<lparr>cl_phase = Streaming, cl_blocks = blocks_of True t,
     cl_open = length (tool_calls t) + (if text_emitted t then 1 else 0),
     cl_stop_reason = [], cl_usage = None\<rparr>"

definition call_of :: "tool_call \<Rightarrow> string \<times> string \<times> string" where
  "call_of tc = (tc_id tc, tc_name tc, tc_args tc)"

definition message_of :: "converter \<Rightarrow> message" where
  "message_of t = \<lparr>m_text = text_buffer t, m_calls = map call_of (tool_calls t), m_finish = []\<rparr>"

definition conv_ok :: "converter \<Rightarrow> bool" where
  "conv_ok t \<longleftrightarrow> text_emitted t = (text_buffer t \<noteq> []) \<and> list_all (\<lambda>tc. tc_id tc \<noteq> []) (tool_calls t)"

text \<open>A step of the converter that only changes the content.\<close>

definition follows :: "event list \<Rightarrow> converter \<Rightarrow> converter \<Rightarrow> bool" where
  "follows es t t' \<longleftrightarrow> client_run es (client_of t) = Some (client_of t') \<and> conv_ok t'
     \<and> t' = t\<lparr>tool_calls := tool_calls t', text_emitted := text_emitted t', text_buffer := text_buffer t'\<rparr>"

lemma follows_refl [simp]: "conv_ok t \<Longrightarrow> follows [] t t"
  by (simp add: follows_def)

lemma follows_trans:
  assumes "follows es t u" "follows es' u v"
  shows "follows (es @ es') t v"
proof -
  have "v = t\<lparr>tool_calls := tool_calls v, text_emitted := text_emitted v, text_buffer := text_buffer v\<rparr>"
  proof -
    have "v = u\<lparr>tool_calls := tool_calls v, text_emitted := text_emitted v, text_buffer := text_buffer v\<rparr>"
      using assms(2) by (simp add: follows_def)
    also have "\<dots> = t\<lparr>tool_calls := tool_calls u, text_emitted := text_emitted u, text_buffer := text_buffer u\<rparr>
        \<lparr>tool_calls := tool_calls v, text_emitted := text_emitted v, text_buffer := text_buffer v\<rparr>"
      using assms(1) by (metis follows_def)
    finally show ?thesis by simp
  qed
  then show ?thesis using assms by (simp add: follows_def)
qed

lemma blocks_of_upd_call:
  assumes "i < length (tool_calls t)"
  shows "blocks_of b (t\<lparr>tool_calls := (tool_calls t)[i := tc]\<rparr>) =
    (blocks_of b t)(Suc i \<mapsto> (Tool_block (tc_id tc) (tc_name tc), tc_args tc, b))"
  using assms by (auto simp: blocks_of_def fun_eq_iff nth_list_update split: nat.splits)

lemma blocks_of_new_call:
  "blocks_of b (t\<lparr>tool_calls := tool_calls t @ [tc]\<rparr>) =
    (blocks_of b t)(Suc (length (tool_calls t)) \<mapsto> (Tool_block (tc_id tc) (tc_name tc), tc_args tc, b))"
  by (auto simp: blocks_of_def fun_eq_iff nth_append split: nat.splits)

lemma pad_calls_old: "i < length calls \<Longrightarrow> pad_calls i calls = calls"
  by (simp add: pad_calls_def)

lemma pad_calls_next:
  "pad_calls (length calls) calls = calls @ [\<lparr>tc_index = length calls, tc_id = [], tc_name = [], tc_args = []\<rparr>]"
  by (simp add: pad_calls_def)

lemma add_call_follows:
  assumes "conv_ok t" "add_call tc (message_of t) = Some m"
  obtains es t' where "process_tool_call tc t = Some (es, t')" "follows es t t'" "message_of t' = m"
proof -
  let ?i = "nat (call_index tc)" and ?calls = "tool_calls t"
  let ?args = "case call_args tc of None \<Rightarrow> [] | Some a \<Rightarrow> a"
  have i0: "0 \<le> call_index tc" using assms(2) by (auto simp: add_call_def Let_def split: if_splits)
  show thesis
  proof (cases "?i < length ?calls")
    case True
    then have idn: "tc_id (?calls ! ?i) \<noteq> []" using assms(1) by (simp add: conv_ok_def list_all_length)
    let ?c = "?calls ! ?i"
    let ?c' = "?c\<lparr>tc_args := tc_args ?c @ ?args\<rparr>"
    let ?es = "case call_args tc of None \<Rightarrow> [] | Some a \<Rightarrow> [Block_delta (?i + 1) (Json_delta a)]"
    let ?t = "t\<lparr>tool_calls := ?calls[?i := ?c']\<rparr>"
    have p: "process_tool_call tc t = Some (?es, ?t)"
      using True idn i0
      by (auto simp: process_tool_call_def Let_def pad_calls_old open_call_def extend_call_def split: option.splits)
    have m: "m = message_of ?t"
      using assms(2) True i0
      by (auto simp: add_call_def message_of_def call_of_def Let_def map_update split: option.splits)
    have blk: "blocks_of True t (Suc ?i) = Some (Tool_block (tc_id ?c) (tc_name ?c), tc_args ?c, True)"
      using True by (simp add: blocks_of_def)
    have "follows ?es t ?t"
    proof (cases "call_args tc")
      case None
      then have "?t = t" by simp
      then show ?thesis using None assms(1) by (simp add: follows_def)
    next
      case (Some a)
      then show ?thesis using assms(1) True blk idn
        by (auto simp: follows_def client_of_def blocks_of_upd_call conv_ok_def list_all_length nth_list_update)
    qed
    then show ?thesis using that p m by blast
  next
    case False
    then have i: "?i = length ?calls" and d: "str_field tc ''id'' \<noteq> []"
      using assms(2) i0 by (auto simp: add_call_def message_of_def Let_def split: if_splits)
    obtain s where s: "as_str (map_of tc ''id'') = Some s" "s \<noteq> []" "str_field tc ''id'' = s"
      using d by (auto simp: str_field_def split: option.splits)
    let ?name = "case as_obj (map_of tc ''function'') of None \<Rightarrow> [] | Some fn \<Rightarrow> str_field fn ''name''"
    let ?c' = "\<lparr>tc_index = length ?calls, tc_id = s, tc_name = ?name, tc_args = ?args\<rparr>"
    let ?es = "Block_start (Suc ?i) (Tool_block s ?name) #
       (case call_args tc of None \<Rightarrow> [] | Some a \<Rightarrow> [Block_delta (Suc ?i) (Json_delta a)])"
    let ?t = "t\<lparr>tool_calls := ?calls @ [?c']\<rparr>"
    have p: "process_tool_call tc t = Some (?es, ?t)"
      using i0 s
      by (auto simp: process_tool_call_def Let_def i pad_calls_next open_call_def extend_call_def split: option.splits)
    have m: "m = message_of ?t"
      using assms(2) i0 False i s
      by (auto simp: add_call_def message_of_def call_of_def Let_def split: option.splits if_splits)
    have "blocks_of True t (Suc ?i) = None" using i by (simp add: blocks_of_def)
    then have "follows ?es t ?t" using assms(1) s i
      by (auto simp: follows_def client_of_def blocks_of_new_call conv_ok_def split: option.splits)
    then show ?thesis using that p m by blast
  qed
qed

lemma add_calls_follows:
  assumes "conv_ok t" "add_calls tcs (message_of t) = Some m"
  shows "\<exists>es t'. tool_call_loop tcs t = Some (es, t') \<and> follows es t t' \<and> message_of t' = m"
  using assms
proof (induction tcs arbitrary: t)
  case Nil
  then show ?case by simp
next
  case (Cons raw tcs)
  show ?case
  proof (cases "as_obj (Some raw)")
    case None
    then show ?thesis using Cons.IH [OF Cons.prems(1)] Cons.prems(2) by simp
  next
    case (Some tc)
    then obtain m1 where m1: "add_call tc (message_of t) = Some m1" "add_calls tcs m1 = Some m"
      using Cons.prems by (auto simp: bind_eq_Some_conv)
    obtain es u where u: "process_tool_call tc t = Some (es, u)" "follows es t u" "message_of u = m1"
      using add_call_follows [OF Cons.prems(1) m1(1)] by metis
    have "conv_ok u" using u(2) by (simp add: follows_def)
    then obtain es' v where v: "tool_call_loop tcs u = Some (es', v)" "follows es' u v" "message_of v = m"
      using Cons.IH [of u] u(3) m1(2) by blast
    show ?thesis using Some u v follows_trans [OF u(2) v(2)] by simp
  qed
qed

lemma emit_text_follows:
  assumes "conv_ok t" "emit_text d t = (es, t')"
  shows "follows es t t'" "message_of t' = (message_of t)\<lparr>m_text := m_text (message_of t) @ str_field d ''content''\<rparr>"
proof -
  let ?s = "str_field d ''content''"
  have t': "t' = (if ?s = [] then t else t\<lparr>text_emitted := True, text_buffer := text_buffer t @ ?s\<rparr>)"
    using assms(2) by (auto simp: emit_text_def Let_def split: if_splits)
  show "message_of t' = (message_of t)\<lparr>m_text := m_text (message_of t) @ ?s\<rparr>"
    by (simp add: t' message_of_def)
  have b: "blocks_of True (t\<lparr>text_emitted := True, text_buffer := x\<rparr>) = (blocks_of True t)(0 \<mapsto> (Text_block, x, True))" for x
    by (auto simp: blocks_of_def fun_eq_iff split: nat.splits)
  show "follows es t t'"
  proof (cases "?s = []")
    case True
    then show ?thesis using assms by (simp add: emit_text_def)
  next
    case False
    have t': "t' = t\<lparr>text_emitted := True, text_buffer := text_buffer t @ ?s\<rparr>" using t' False by simp
    then have ok: "conv_ok t'" using assms(1) False by (simp add: conv_ok_def)
    show ?thesis
    proof (cases "text_emitted t")
      case True
      then have "blocks_of True t 0 = Some (Text_block, text_buffer t, True)" by (simp add: blocks_of_def)
      then show ?thesis using True False assms(2) ok
        by (auto simp: emit_text_def Let_def follows_def client_of_def b t')
    next
      case no_text: False
      then have "blocks_of True t 0 = None" "text_buffer t = []"
        using assms(1) by (simp_all add: blocks_of_def conv_ok_def)
      then show ?thesis using no_text False assms(2) ok
        by (auto simp: emit_text_def Let_def follows_def client_of_def b t')
    qed
  qed
qed


subsection \<open>Closing the blocks\<close>

definition closed_client :: "converter \<Rightarrow> client" where
  "closed_client t = (client_of t)\<lparr>cl_blocks := blocks_of False t, cl_open := 0\<rparr>"

definition half_closed :: "nat \<Rightarrow> converter \<Rightarrow> client" where
  "half_closed k t = (client_of t)\<lparr>cl_blocks := (\<lambda>i. if i \<le> k then blocks_of False t i else blocks_of True t i),
     cl_open := length (tool_calls t) - k\<rparr>"

lemma stop_call:
  assumes "k < length (tool_calls t)"
  shows "client_step (Block_stop (Suc k)) (half_closed k t) = Some (half_closed (Suc k) t)"
proof -
  have "(\<lambda>i. if i \<le> k then blocks_of False t i else blocks_of True t i)(Suc k \<mapsto>
      (Tool_block (tc_id (tool_calls t ! k)) (tc_name (tool_calls t ! k)), tc_args (tool_calls t ! k), False))
    = (\<lambda>i. if i \<le> Suc k then blocks_of False t i else blocks_of True t i)"
    using assms by (auto simp: fun_eq_iff blocks_of_def le_Suc_eq)
  then show ?thesis using assms by (simp add: half_closed_def client_of_def blocks_of_def)
qed

lemma stop_calls:
  assumes "k \<le> length (tool_calls t)"
  shows "client_run (map (\<lambda>i. Block_stop (i + 1)) [0..<k]) (half_closed 0 t) = Some (half_closed k t)"
  using assms by (induction k) (simp_all add: stop_call del: client_step.simps)

lemma half_closed_all: "half_closed (length (tool_calls t)) t = closed_client t"
proof -
  have "(\<lambda>i. if i \<le> length (tool_calls t) then blocks_of False t i else blocks_of True t i) = blocks_of False t"
    by (auto simp: fun_eq_iff blocks_of_def split: nat.splits)
  then show ?thesis by (simp add: half_closed_def closed_client_def)
qed

lemma stop_text:
  "client_run (if text_emitted t then [Block_stop 0] else []) (client_of t) = Some (half_closed 0 t)"
proof -
  have "(blocks_of True t)(0 \<mapsto> (Text_block, text_buffer t, False)) =
      (\<lambda>i. if i \<le> 0 then blocks_of False t i else blocks_of True t i)" if "text_emitted t"
    using that by (auto simp: fun_eq_iff blocks_of_def split: nat.splits)
  moreover have "blocks_of True t = (\<lambda>i. if i \<le> 0 then blocks_of False t i else blocks_of True t i)"
    if "\<not> text_emitted t"
    using that by (auto simp: fun_eq_iff blocks_of_def split: nat.splits)
  moreover have "blocks_of True t 0 = (if text_emitted t then Some (Text_block, text_buffer t, True) else None)"
    by (simp add: blocks_of_def)
  ultimately show ?thesis by (simp add: half_closed_def client_of_def)
qed

lemma stops_close: "client_run (build_stream_stops t) (client_of t) = Some (closed_client t)"
  using stop_text [of t] stop_calls [of "length (tool_calls t)" t]
  by (simp add: build_stream_stops_def half_closed_all del: client_run.simps)

subsection \<open>One chunk\<close>

definition chunk_calls :: "(string, json) gomap \<Rightarrow> json list" where
  "chunk_calls d = (case as_arr (map_of d ''tool_calls'') of None \<Rightarrow> [] | Some tcs \<Rightarrow> tcs)"

lemma process_choice_follows:
  assumes "conv_ok t" "first_choice chunk = Some choice" "add_chunk chunk (message_of t) = Some m"
  obtains es u where "follows es t u" "message_of u = m\<lparr>m_finish := []\<rparr>"
    "process_choice choice t = Some
       (if m_finish m = [] then (es, u)
        else (es @ build_stream_stops u, u\<lparr>pending_finish := m_finish m, stream_done := True\<rparr>))"
proof (cases "as_obj (map_of choice ''delta'')")
  case None
  then have "m = message_of t" using assms by (simp add: add_chunk_def choice_delta_def)
  then have "m_finish m = []" "m\<lparr>m_finish := []\<rparr> = message_of t" by (simp_all add: message_of_def)
  then show ?thesis using that [of "[]" t] None assms(1) by (simp add: process_choice_def)
next
  case (Some d)
  let ?finish = "str_field choice ''finish_reason''"
  have cd: "choice_delta chunk = Some d" "chunk_finish chunk = ?finish"
    using Some assms(2) by (simp_all add: choice_delta_def chunk_finish_def)
  obtain es u where u: "emit_text d t = (es, u)" by (cases "emit_text d t")
  note e = emit_text_follows [OF assms(1) u]
  obtain m1 where m1: "add_calls (chunk_calls d) (message_of u) = Some m1" "m = m1\<lparr>m_finish := ?finish\<rparr>"
    using assms(3) e(2) by (auto simp: add_chunk_def cd chunk_calls_def)
  have "conv_ok u" using e(1) by (simp add: follows_def)
  then obtain es' v where v: "tool_call_loop (chunk_calls d) u = Some (es', v)" "follows es' u v" "message_of v = m1"
    using add_calls_follows m1(1) by blast
  have "m1\<lparr>m_finish := []\<rparr> = m1" using v(3) by (auto simp: message_of_def)
  then have mv: "message_of v = m\<lparr>m_finish := []\<rparr>" "m_finish m = ?finish" using m1(2) v(3) by simp_all
  have "process_choice choice t = Some
       (if m_finish m = [] then (es @ es', v)
        else ((es @ es') @ build_stream_stops v, v\<lparr>pending_finish := m_finish m, stream_done := True\<rparr>))"
    using Some u v(1) mv(2) by (simp add: process_choice_def chunk_calls_def)
  then show ?thesis using that follows_trans [OF e(1) v(2)] mv(1) by blast
qed


subsection \<open>Usage\<close>

text \<open>The totals a stream reports, in order, and the high-water mark of one of their counts.\<close>

definition reported :: "(string, json) gomap list \<Rightarrow> usage_totals list" where
  "reported chunks = filter (\<lambda>n. ut_prompt n \<noteq> 0 \<or> ut_completion n \<noteq> 0)
     (map normalize_usage_totals (List.map_filter usage_map_from_chunk chunks))"

definition high :: "(usage_totals \<Rightarrow> int) \<Rightarrow> (string, json) gomap list \<Rightarrow> int" where
  "high f chunks = fold (\<lambda>n acc. max acc (f n)) (reported chunks) 0"

definition usage_of :: "(string, json) gomap list \<Rightarrow> string \<Rightarrow> published_usage" where
  "usage_of chunks txt = \<lparr>
     pu_input = max 0 (high ut_prompt chunks - high ut_cache_hit chunks - high ut_cache_creation chunks),
     pu_output = (if reported chunks \<noteq> [] then high ut_completion chunks else int (length txt div 4)),
     pu_cache_read = high ut_cache_hit chunks, pu_cache_creation = high ut_cache_creation chunks\<rparr>"

definition has_usage :: "(string, json) gomap list \<Rightarrow> converter \<Rightarrow> bool" where
  "has_usage chunks t \<longleftrightarrow> prompt_tokens t = high ut_prompt chunks \<and> output_tokens t = high ut_completion chunks
     \<and> cache_read_tokens t = high ut_cache_hit chunks \<and> cache_creation_tokens t = high ut_cache_creation chunks
     \<and> usage_seen t = (reported chunks \<noteq> [])"

lemma has_usage_capture:
  "has_usage chunks t \<Longrightarrow> has_usage (chunks @ [c]) (capture_usage c t)"
  by (auto simp: has_usage_def high_def reported_def capture_usage_def Let_def map_filter_def split: option.splits)

lemma tail_usage_of: "has_usage chunks t \<Longrightarrow> tail_usage t = usage_of chunks (text_buffer t)"
  by (auto simp: has_usage_def tail_usage_def usage_of_def)

lemma follows_fields:
  assumes "follows es t u"
  obtains a b c where "u = t\<lparr>tool_calls := a, text_emitted := b, text_buffer := c\<rparr>"
  using assms unfolding follows_def by blast

lemma follows_frame:
  "follows es t u \<Longrightarrow> has_emitted u = has_emitted t \<and> stream_done u = stream_done t
     \<and> pending_finish u = pending_finish t"
  by (erule follows_fields) simp

lemma has_usage_frame: "follows es t u \<Longrightarrow> has_usage chunks u = has_usage chunks t"
  by (erule follows_fields) (simp add: has_usage_def)

lemma capture_usage_fields:
  "stream_done (capture_usage c t) = stream_done t" "has_emitted (capture_usage c t) = has_emitted t"
  "pending_finish (capture_usage c t) = pending_finish t" "text_buffer (capture_usage c t) = text_buffer t"
  "text_emitted (capture_usage c t) = text_emitted t" "tool_calls (capture_usage c t) = tool_calls t"
  by (simp_all add: capture_usage_def Let_def split: option.splits)

lemma blocks_of_cong:
  "text_emitted t = text_emitted u \<Longrightarrow> text_buffer t = text_buffer u \<Longrightarrow> tool_calls t = tool_calls u
     \<Longrightarrow> blocks_of b t = blocks_of b u"
  by (auto simp: blocks_of_def fun_eq_iff split: nat.splits)

lemma capture_usage_frame:
  "message_of (capture_usage c t) = message_of t" "conv_ok (capture_usage c t) = conv_ok t"
  "client_of (capture_usage c t) = client_of t" "blocks_of b (capture_usage c t) = blocks_of b t"
  using blocks_of_cong [of "capture_usage c t" t]
  by (simp_all add: message_of_def conv_ok_def client_of_def capture_usage_fields)

lemmas capture_usage_frames = capture_usage_frame capture_usage_fields

subsection \<open>The stream\<close>

definition start_client :: "converter \<Rightarrow> client" where
  "start_client t = (if has_emitted t then client_of t else new_client)"

definition conv_inv :: "(string, json) gomap list \<Rightarrow> converter \<Rightarrow> bool" where
  "conv_inv cs t \<longleftrightarrow> conv_ok t \<and> \<not> stream_done t \<and> pending_finish t = [] \<and> has_usage cs t
     \<and> (has_emitted t \<or> message_of t = empty_message)"

lemma conv_inv_new: "conv_inv [] new_converter"
  by (simp add: conv_inv_def conv_ok_def new_converter_def has_usage_def high_def reported_def
      message_of_def map_filter_def)

text \<open>The first event is the start of the message.\<close>

definition start_message :: "string \<Rightarrow> (string, json) gomap \<Rightarrow> converter \<Rightarrow> event list \<times> converter" where
  "start_message gid chunk t = (if has_emitted t then ([], t)
     else let (e, t) = build_message_start gid chunk t in ([e], t\<lparr>has_emitted := True\<rparr>))"

lemma start_message_client:
  assumes "has_emitted t \<or> message_of t = empty_message" "conv_ok t" "start_message gid chunk t = (es, u)"
  shows "client_run es (start_client t) = Some (client_of u)" "conv_ok u" "message_of u = message_of t"
    "has_emitted u" "stream_done u = stream_done t" "pending_finish u = pending_finish t"
    "has_usage cs u = has_usage cs t"
proof -
  have "blocks_of True u = (\<lambda>_. None)" "tool_calls u = []" "\<not> text_emitted u" if "\<not> has_emitted t"
    using that assms
    by (auto simp: start_message_def build_message_start_def Let_def message_of_def conv_ok_def blocks_of_def fun_eq_iff
        split: nat.splits)
  then show "client_run es (start_client t) = Some (client_of u)"
    using assms(3)
    by (auto simp: start_message_def start_client_def client_of_def new_client_def build_message_start_def Let_def split: if_splits)
qed (use assms in \<open>auto simp: start_message_def build_message_start_def Let_def conv_ok_def message_of_def
       has_usage_def split: if_splits\<close>)

lemma convert_chunk_follows:
  assumes inv: "conv_inv cs t" and add: "add_chunk chunk (message_of t) = Some m"
  shows "\<exists>es u. convert_chunk gid chunk t = Some (Events es, u)
    \<and> client_run es (start_client t) = Some (if m_finish m = [] then client_of u else closed_client u)
    \<and> has_emitted u \<and> conv_ok u \<and> message_of u = m\<lparr>m_finish := []\<rparr> \<and> has_usage (cs @ [chunk]) u
    \<and> stream_done u = (m_finish m \<noteq> []) \<and> pending_finish u = m_finish m"
proof -
  let ?t = "capture_usage chunk t"
  have t: "conv_ok ?t" "\<not> stream_done ?t" "pending_finish ?t = []" "has_usage (cs @ [chunk]) ?t"
    "has_emitted ?t \<or> message_of ?t = empty_message" "start_client ?t = start_client t"
    using inv has_usage_capture [of cs t chunk]
    by (simp_all add: conv_inv_def capture_usage_frames start_client_def)
  obtain es u where o: "start_message gid chunk ?t = (es, u)" by (cases "start_message gid chunk ?t")
  note u = start_message_client [OF t(5) t(1) o]
  have step: "convert_chunk gid chunk t =
      (case first_choice chunk of None \<Rightarrow> Some (Events es, u)
       | Some choice \<Rightarrow> map_option (\<lambda>(es', t). (Events (es @ es'), t)) (process_choice choice u))"
    using t(2) o
    by (auto simp: convert_chunk_def start_message_def first_choice_def Let_def split: option.splits list.splits)
  show ?thesis
  proof (cases "first_choice chunk")
    case None
    then have m: "m = message_of t" using add by (simp add: add_chunk_def choice_delta_def)
    then have "m_finish m = []" "m\<lparr>m_finish := []\<rparr> = message_of t" by (simp_all add: message_of_def)
    then show ?thesis using None step u t by (simp add: capture_usage_frames)
  next
    case (Some choice)
    have "add_chunk chunk (message_of u) = Some m" using add u(3) by (simp add: capture_usage_frames)
    from process_choice_follows [OF u(2) Some this]
    obtain es' v where v: "follows es' u v" "message_of v = m\<lparr>m_finish := []\<rparr>"
      "process_choice choice u = Some (if m_finish m = [] then (es', v)
        else (es' @ build_stream_stops v, v\<lparr>pending_finish := m_finish m, stream_done := True\<rparr>))"
      by metis
    have frame: "has_emitted v" "stream_done v = stream_done u" "pending_finish v = pending_finish u"
      "conv_ok v" "client_run es' (client_of u) = Some (client_of v)"
      using v(1) u(4) follows_frame [OF v(1)] by (simp_all add: follows_def)
    have usage: "has_usage (cs @ [chunk]) v" using has_usage_frame [OF v(1)] u(7) t(4) by simp
    let ?w = "v\<lparr>pending_finish := m_finish m, stream_done := True\<rparr>"
    have w: "closed_client ?w = closed_client v" "conv_ok ?w = conv_ok v" "message_of ?w = message_of v"
      "has_usage (cs @ [chunk]) ?w = has_usage (cs @ [chunk]) v"
      by (auto simp: closed_client_def client_of_def blocks_of_def conv_ok_def message_of_def has_usage_def
          fun_eq_iff split: nat.splits)
    show ?thesis
    proof (cases "m_finish m = []")
      case True
      then show ?thesis using step Some v frame usage u t by simp
    next
      case False
      then show ?thesis using step Some v frame usage u t w stops_close [of v] by simp
    qed
  qed
qed


lemma feed_follows:
  assumes "conv_inv cs t" "assemble (map snd chunks) (message_of t) = Some m" "m_finish m \<noteq> []"
  shows "\<exists>es u. feed chunks t = Some (es, u) \<and> client_run es (start_client t) = Some (closed_client u)
    \<and> message_of u = m\<lparr>m_finish := []\<rparr> \<and> conv_ok u \<and> has_usage (cs @ map snd chunks) u
    \<and> stream_done u \<and> pending_finish u = m_finish m"
  using assms(1,2)
proof (induction chunks arbitrary: cs t)
  case Nil
  then have "m_finish m = []" by (auto simp: message_of_def)
  then show ?case using assms(3) by simp
next
  case (Cons p chunks)
  obtain gid chunk where p: "p = (gid, chunk)" by (cases p)
  obtain m1 where m1: "add_chunk chunk (message_of t) = Some m1" "assemble (map snd chunks) m1 = Some m"
    using Cons.prems(2) by (auto simp: p bind_eq_Some_conv split: if_splits)
  obtain es u where u: "convert_chunk gid chunk t = Some (Events es, u)"
    "client_run es (start_client t) = Some (if m_finish m1 = [] then client_of u else closed_client u)"
    "has_emitted u" "conv_ok u" "message_of u = m1\<lparr>m_finish := []\<rparr>" "has_usage (cs @ [chunk]) u"
    "stream_done u = (m_finish m1 \<noteq> [])" "pending_finish u = m_finish m1"
    using convert_chunk_follows [OF Cons.prems(1) m1(1)] by blast
  show ?case
  proof (cases "m_finish m1 = []")
    case True
    then have "message_of u = m1" "conv_inv (cs @ [chunk]) u" "start_client u = client_of u"
      using u by (simp_all add: conv_inv_def start_client_def)
    then obtain es' v where "feed chunks u = Some (es', v)"
      "client_run es' (client_of u) = Some (closed_client v)" "message_of v = m\<lparr>m_finish := []\<rparr>" "conv_ok v"
      "has_usage ((cs @ [chunk]) @ map snd chunks) v" "stream_done v" "pending_finish v = m_finish m"
      using Cons.IH [of "cs @ [chunk]" u] m1(2) by metis
    then show ?thesis using u True p by simp
  next
    case False
    then have "chunks = []" "m1 = m" using m1(2) by (cases chunks; simp)+
    then show ?thesis using u False p by simp
  qed
qed

text \<open>After the finishing chunk: the tail is sent once, and nothing after it.\<close>

lemma feed_consumed:
  "stream_done t \<Longrightarrow> pending_finish t = [] \<Longrightarrow>
     \<exists>u. feed chunks t = Some ([], u) \<and> pending_finish u = []"
proof (induction chunks arbitrary: t)
  case (Cons p chunks)
  obtain gid chunk where p: "p = (gid, chunk)" by (cases p)
  have "convert_chunk gid chunk t = Some (Consumed, capture_usage chunk t)"
    using Cons.prems by (simp add: convert_chunk_def capture_usage_frames)
  moreover obtain u where "feed chunks (capture_usage chunk t) = Some ([], u)" "pending_finish u = []"
    using Cons.IH [of "capture_usage chunk t"] Cons.prems by (auto simp: capture_usage_frames)
  ultimately show ?case by (simp add: p)
qed simp

lemma stream_tail:
  assumes "stream_done t" "pending_finish t = r" "r \<noteq> []" "has_usage cs t"
  shows "\<exists>es es' u v. feed us t = Some (es, u) \<and> finish_tail u = (es', v) \<and>
    es @ es' = [Message_delta (map_finish_reason_reverse r)
                  (usage_of (cs @ map snd (take 1 us)) (text_buffer t)), Message_stop]"
proof (cases us)
  case Nil
  then show ?thesis using assms tail_usage_of [OF assms(4)]
    by (simp add: finish_tail_def build_stream_tail_def)
next
  case (Cons p us')
  obtain gid chunk where p: "p = (gid, chunk)" by (cases p)
  let ?t = "capture_usage chunk t"
  let ?es = "build_stream_tail r ?t"
  have "convert_chunk gid chunk t = Some (Events ?es, ?t\<lparr>pending_finish := []\<rparr>)"
    using assms by (simp add: convert_chunk_def capture_usage_frames Let_def)
  moreover obtain u where "feed us' (?t\<lparr>pending_finish := []\<rparr>) = Some ([], u)" "pending_finish u = []"
    using feed_consumed [of "?t\<lparr>pending_finish := []\<rparr>" us'] assms(1) by (auto simp: capture_usage_frames)
  ultimately have "feed us t = Some (?es, u)" "finish_tail u = ([], u)"
    by (simp_all add: Cons p finish_tail_def)
  moreover have "tail_usage ?t = usage_of (cs @ [chunk]) (text_buffer t)"
    using tail_usage_of [OF has_usage_capture [OF assms(4)]] by (simp add: capture_usage_frames)
  ultimately show ?thesis by (simp add: build_stream_tail_def Cons p)
qed

lemma feed_append:
  "feed (xs @ ys) t = (case feed xs t of None \<Rightarrow> None
     | Some (es, u) \<Rightarrow> (case feed ys u of None \<Rightarrow> None | Some (es', v) \<Rightarrow> Some (es @ es', v)))"
  by (induction xs arbitrary: t) (auto split: option.splits prod.splits)

text \<open>The blocks of a message as its Anthropic form has them.\<close>

definition message_blocks :: "message \<Rightarrow> nat \<Rightarrow> (block \<times> string \<times> bool) option" where
  "message_blocks m i = (case i of
     0 \<Rightarrow> if m_text m = [] then None else Some (Text_block, m_text m, False)
   | Suc j \<Rightarrow> if j < length (m_calls m)
       then (case m_calls m ! j of (d, n, a) \<Rightarrow> Some (Tool_block d n, a, False)) else None)"

lemma closed_blocks:
  assumes "conv_ok u" "message_of u = m\<lparr>m_finish := []\<rparr>"
  shows "blocks_of False u = message_blocks m"
proof -
  have "m_text m = text_buffer u" "m_calls m = map call_of (tool_calls u)"
    using assms(2) by (cases m; simp add: message_of_def)+
  then show ?thesis using assms(1)
    by (auto simp: blocks_of_def message_blocks_def fun_eq_iff conv_ok_def call_of_def split: nat.splits)
qed

text \<open>
  C25: A message survives the conversion. Whenever the upstream chunks, up to the one with the finish
  reason, are a stream an OpenAI client can assemble, whatever chunks follow it, the converter
  does not panic and its events (with the tail flushed at the end) are a valid Anthropic
  sequence from which a client rebuilds the same text, the same calls with identifiers, names
  and arguments, every block closed, the mapped stop reason, and as usage the high-water marks
  of the totals reported up to the first chunk after the finish.
\<close>

theorem converted_stream_is_faithful:
  assumes "assemble (map snd chunks) empty_message = Some m" "m_finish m \<noteq> []"
  shows "\<exists>es t c. convert_stream (chunks @ later) = Some (es, t) \<and> client_run es new_client = Some c
    \<and> cl_phase c = Ended \<and> cl_open c = 0 \<and> cl_blocks c = message_blocks m
    \<and> cl_stop_reason c = map_finish_reason_reverse (m_finish m)
    \<and> cl_usage c = Some (usage_of (map snd chunks @ map snd (take 1 later)) (m_text m))"
proof -
  have "message_of new_converter = empty_message" "start_client new_converter = new_client"
    by (simp_all add: message_of_def new_converter_def start_client_def)
  then obtain es u where u: "feed chunks new_converter = Some (es, u)"
    "client_run es new_client = Some (closed_client u)" "message_of u = m\<lparr>m_finish := []\<rparr>" "conv_ok u"
    "has_usage (map snd chunks) u" "stream_done u" "pending_finish u = m_finish m"
    using feed_follows [OF conv_inv_new] assms by fastforce
  let ?n = "usage_of (map snd chunks @ map snd (take 1 later)) (text_buffer u)"
  let ?tail = "[Message_delta (map_finish_reason_reverse (m_finish m)) ?n, Message_stop]"
  obtain es' es'' v w where v: "feed later u = Some (es', v)" "finish_tail v = (es'', w)" "es' @ es'' = ?tail"
    using stream_tail [OF u(6) u(7) assms(2) u(5)] by blast
  have run: "convert_stream (chunks @ later) = Some (es @ ?tail, w)"
    using u(1) v by (simp add: convert_stream_def feed_append)
  have same_text: "text_buffer u = m_text m" using u(3) by (cases m) (simp add: message_of_def)
  have "client_run (es @ ?tail) new_client = Some ((closed_client u)\<lparr>cl_phase := Ended,
      cl_stop_reason := map_finish_reason_reverse (m_finish m), cl_usage := Some ?n\<rparr>)"
    using u(2) by (simp add: closed_client_def client_of_def)
  then show ?thesis using run closed_blocks [OF u(4,3)] same_text by (simp add: closed_client_def)
qed

text \<open>A call with its text, in four chunks, and a usage chunk after the finish.\<close>

definition choice_chunk :: "(string, json) gomap \<Rightarrow> json \<Rightarrow> (string, json) gomap" where
  "choice_chunk d finish = [(''choices'', Arr [Obj [(''delta'', Obj d), (''finish_reason'', finish)]])]"

definition call_delta :: "rat \<Rightarrow> (string, json) gomap \<Rightarrow> (string, json) gomap \<Rightarrow> (string, json) gomap" where
  "call_delta i ident fn = [(''tool_calls'', Arr [Obj ((''index'', Num i) # ident @ [(''function'', Obj fn)])])]"

definition ex_chunks :: "(string \<times> (string, json) gomap) list" where
  "ex_chunks = map (Pair ''g'')
    [choice_chunk [(''content'', Str ''Hi'')] Null,
     choice_chunk (call_delta 0 [(''id'', Str ''c1'')] [(''name'', Str ''f''), (''arguments'', Str ''{'')]) Null,
     choice_chunk (call_delta 0 [] [(''arguments'', Str ''}'')]) Null,
     choice_chunk [] (Str ''tool_calls'')]"

lemma ex_message:
  "assemble (map snd ex_chunks) empty_message
     = Some \<lparr>m_text = ''Hi'', m_calls = [(''c1'', ''f'', ''{}'')], m_finish = ''tool_calls''\<rparr>"
  by (simp add: ex_chunks_def choice_chunk_def call_delta_def add_chunk_def choice_delta_def first_choice_def
      chunk_finish_def str_field_def add_call_def call_index_def call_args_def go_int_def trunc_def Let_def)

lemma converted_stream_is_faithful_witness:
  "\<exists>es t c. convert_stream (ex_chunks @ []) = Some (es, t) \<and> client_run es new_client = Some c
    \<and> cl_phase c = Ended \<and> cl_stop_reason c = ''tool_use''
    \<and> cl_blocks c 1 = Some (Tool_block ''c1'' ''f'', ''{}'', False)"
proof -
  have "message_blocks \<lparr>m_text = ''Hi'', m_calls = [(''c1'', ''f'', ''{}'')], m_finish = ''tool_calls''\<rparr> 1
      = Some (Tool_block ''c1'' ''f'', ''{}'', False)"
    by (simp add: message_blocks_def)
  then show ?thesis
    using converted_stream_is_faithful [OF ex_message, of "[]"]
    by (auto simp: map_finish_reason_reverse_def)
qed

text \<open>
  Upstream streams outside that protocol are not converted to valid sequences. A call whose
  index skips one closes a block that was never opened; an argument delta for a call without an
  identifier is sent to a block that was never opened; a negative index panics.
\<close>

theorem converter_trusts_call_indexes:
  "(case convert_stream [(''g'', choice_chunk (call_delta 1 [(''id'', Str ''c'')] [(''name'', Str ''f'')]) (Str ''stop''))] of
      Some (es, t) \<Rightarrow> client_run es new_client = None | None \<Rightarrow> False)
   \<and> (case convert_stream [(''g'', choice_chunk (call_delta 0 [] [(''arguments'', Str ''{}'')]) (Str ''stop''))] of
      Some (es, t) \<Rightarrow> client_run es new_client = None | None \<Rightarrow> False)
   \<and> convert_stream [(''g'', choice_chunk (call_delta (-1) [(''id'', Str ''c'')] []) Null)] = None"
  by (simp add: convert_stream_def new_converter_def convert_chunk_def choice_chunk_def call_delta_def Let_def
      capture_usage_def usage_map_from_chunk_def as_usage_map_def build_message_start_def process_choice_def
      emit_text_def str_field_def process_tool_call_def call_index_def go_int_def trunc_def pad_calls_def
      upt_rec [of 0 2] upt_rec [of 1 2] upt_rec [of 2 2] upt_rec [of 0 1] upt_rec [of 1 1] open_call_def extend_call_def call_args_def build_stream_stops_def
      finish_tail_def build_stream_tail_def new_client_def numeral_2_eq_2)

text \<open>
  A chunk with nothing to convert (a role, a reasoning delta, a keep-alive) that comes after the
  first one converts to no event, and for no event the reader sends the upstream's own line: the
  Anthropic client receives an OpenAI chunk.
\<close>

theorem unconverted_chunk_is_forwarded:
  assumes "has_emitted t" "\<not> stream_done t" "choice_delta chunk = Some d" "str_field d ''content'' = []"
    "chunk_calls d = []" "chunk_finish chunk = []"
  shows "\<exists>a u. convert_chunk gid chunk t = Some (a, u) \<and> handle_with_transformer a = Upstream_line"
proof -
  obtain choice where "first_choice chunk = Some choice" "as_obj (map_of choice ''delta'') = Some d"
    using assms(3) by (auto simp: choice_delta_def split: option.splits)
  then show ?thesis using assms
    by (auto simp: convert_chunk_def first_choice_def process_choice_def emit_text_def chunk_calls_def
        chunk_finish_def capture_usage_fields Let_def split: option.splits list.splits)
qed

lemma unconverted_chunk_is_forwarded_witness:
  "\<exists>a u. convert_chunk ''g'' (choice_chunk [(''reasoning_content'', Str ''hm'')] Null) (new_converter\<lparr>has_emitted := True\<rparr>)
     = Some (a, u) \<and> handle_with_transformer a = Upstream_line"
  by (rule unconverted_chunk_is_forwarded [where d = "[(''reasoning_content'', Str ''hm'')]"])
    (simp_all add: new_converter_def choice_chunk_def choice_delta_def first_choice_def str_field_def chunk_calls_def
      chunk_finish_def)

text \<open>The reset clears everything but the held finish reason: the next stream sends the tail of
  the last one.\<close>

lemma reset_keeps_tail:
  "fst (finish_tail (reset_converter t)) = (if pending_finish t = [] then []
     else build_stream_tail (pending_finish t) new_converter)"
  by (simp add: finish_tail_def reset_converter_def build_stream_tail_def tail_usage_def new_converter_def)

end
