(* ===== verification/JsonScan.thy ===== *)
theory JsonScan
  imports Prelude
begin

text \<open>
  internal/util/jsonscan.go: the byte scanner that reads one top-level field of a JSON document
  without decoding it. A position of the code is the rest of the input from there: \<open>skip_value s\<close>
  is \<^verbatim>\<open>skipValue(b, i)\<close> with \<open>s\<close> the bytes of \<^verbatim>\<open>b\<close> from \<^verbatim>\<open>i\<close>, and its answer the bytes from the
  position returned. The decoding of a key with escapes (\<^verbatim>\<open>json.Unmarshal\<close> into a string) is an
  argument.
\<close>

subsection \<open>Tokens\<close>

abbreviation quote :: char where "quote \<equiv> CHR 0x22"
abbreviation backslash :: char where "backslash \<equiv> CHR 0x5C"

definition is_ws :: "char \<Rightarrow> bool" where
  "is_ws c \<longleftrightarrow> c \<in> set [CHR '' '', CHR 0x09, CHR 0x0A, CHR 0x0D]"

definition skip_ws :: "string \<Rightarrow> string" where
  "skip_ws s = dropWhile is_ws s"

definition only_ws :: "string \<Rightarrow> bool" where
  "only_ws s \<longleftrightarrow> skip_ws s = []"

definition is_hex_digit :: "char \<Rightarrow> bool" where
  "is_hex_digit c \<longleftrightarrow> in_range 48 57 (byte c) \<or> in_range 97 102 (byte c) \<or> in_range 65 70 (byte c)"

definition is_hex4 :: "string \<Rightarrow> bool" where
  "is_hex4 s = list_all is_hex_digit s"

definition simple_escape :: "char \<Rightarrow> bool" where
  "simple_escape c \<longleftrightarrow> c \<in> set [quote, backslash, CHR ''/'', CHR ''b'', CHR ''f'', CHR ''n'', CHR ''r'', CHR ''t'']"

text \<open>The loop of \<^verbatim>\<open>skipString\<close>, after the opening quote.\<close>

fun string_loop :: "string \<Rightarrow> string option" where
  "string_loop [] = None"
| "string_loop (c # s) =
    (if c = quote then Some s
     else if c = backslash then
       (case s of
          [] \<Rightarrow> None
        | e # r \<Rightarrow>
           if simple_escape e then string_loop r
           else if e = CHR ''u'' then
             (if length r < 4 \<or> \<not> is_hex4 (take 4 r) then None else string_loop (drop 4 r))
           else None)
     else if byte c < 32 then None
     else string_loop s)"

definition skip_string :: "string \<Rightarrow> string option" where
  "skip_string s = string_loop (tl s)"

definition json_digit :: "char \<Rightarrow> bool" where
  "json_digit c = in_range 48 57 (byte c)"

definition skip_digits :: "string \<Rightarrow> string \<times> nat" where
  "skip_digits s = (dropWhile json_digit s, length (takeWhile json_digit s))"

definition skip_exponent :: "string \<Rightarrow> string option" where
  "skip_exponent s =
    (let s = tl s;
         s = (case s of c # r \<Rightarrow> if c = CHR ''+'' \<or> c = CHR ''-'' then r else s | [] \<Rightarrow> s);
         (r, n) = skip_digits s
     in if n = 0 then None else Some r)"

definition skip_fraction :: "string \<Rightarrow> string option" where
  "skip_fraction s =
    (case s of
       c # r \<Rightarrow> if c = CHR ''.'' then (let (r, n) = skip_digits r in if n = 0 then None else Some r) else Some s
     | [] \<Rightarrow> Some s)"

definition skip_number :: "string \<Rightarrow> string option" where
  "skip_number s =
    (let s = (case s of c # r \<Rightarrow> if c = CHR ''-'' then r else s | [] \<Rightarrow> s);
         (r, n) = skip_digits s
     in if n = 0 then None
        else if n > 1 \<and> hd s = CHR ''0'' then None
        else case skip_fraction r of
          None \<Rightarrow> None
        | Some r \<Rightarrow>
           (case r of
              c # _ \<Rightarrow> if c = CHR ''e'' \<or> c = CHR ''E'' then skip_exponent r else Some r
            | [] \<Rightarrow> Some r))"

definition expect_literal :: "string \<Rightarrow> string \<Rightarrow> string option" where
  "expect_literal s lit = (if take (length lit) s = lit then Some (drop (length lit) s) else None)"

subsection \<open>Every token consumes\<close>

lemma skip_ws_le [simp]: "length (skip_ws s) \<le> length s"
  by (simp add: skip_ws_def length_dropWhile_le)

lemma string_loop_less: "string_loop s = Some r \<Longrightarrow> length r < length s"
proof (induction s rule: string_loop.induct)
  case (2 c s)
  then show ?case by (auto split: if_splits list.splits intro: less_trans less_SucI)
qed simp

lemma skip_string_less: "s \<noteq> [] \<Longrightarrow> skip_string s = Some r \<Longrightarrow> length r < length s"
  by (cases s) (auto simp: skip_string_def dest: string_loop_less)

lemma skip_digits_less: "skip_digits s = (r, n) \<Longrightarrow> length r + n = length s"
  by (auto simp: skip_digits_def) (metis length_append takeWhile_dropWhile_id add.commute)

lemma skip_exponent_less: "skip_exponent s = Some r \<Longrightarrow> length r < length s"
  by (auto simp: skip_exponent_def Let_def split: prod.splits if_splits list.splits dest!: skip_digits_less)
    (cases s; auto)+

lemma skip_fraction_le: "skip_fraction s = Some r \<Longrightarrow> length r \<le> length s"
  by (auto simp: skip_fraction_def Let_def split: prod.splits if_splits list.splits dest!: skip_digits_less)

lemma skip_number_less: "skip_number s = Some r \<Longrightarrow> length r < length s"
  by (auto simp: skip_number_def Let_def split: prod.splits if_splits list.splits option.splits
      dest!: skip_digits_less skip_fraction_le skip_exponent_less)

lemma expect_literal_less: "expect_literal s lit = Some r \<Longrightarrow> lit \<noteq> [] \<Longrightarrow> length r < length s"
  by (cases s) (auto simp: expect_literal_def split: if_splits)


subsection \<open>Values\<close>

text \<open>The text between two positions of the input.\<close>

definition between :: "string \<Rightarrow> string \<Rightarrow> string" where
  "between s r = take (length s - length r) s"

text \<open>What both object loops do up to the value: the key as written and the position of the value.\<close>

definition object_key :: "string \<Rightarrow> (string \<times> string) option" where
  "object_key s =
    (let k = skip_ws s in
     if k = [] \<or> hd k \<noteq> quote then None
     else case skip_string k of
       None \<Rightarrow> None
     | Some s1 \<Rightarrow>
        (let s2 = skip_ws s1 in
         if s2 = [] \<or> hd s2 \<noteq> CHR '':'' then None
         else Some (between k s1, skip_ws (tl s2))))"

function (domintros) skip_value :: "string \<Rightarrow> string option"
  and skip_object :: "string \<Rightarrow> string option"
  and skip_array :: "string \<Rightarrow> string option"
  and object_loop :: "string \<Rightarrow> string option"
  and array_loop :: "string \<Rightarrow> string option"
where
  "skip_value s =
    (if s = [] then None
     else if hd s = quote then skip_string s
     else if hd s = CHR ''{'' then skip_object s
     else if hd s = CHR ''['' then skip_array s
     else if hd s = CHR ''t'' then expect_literal s ''true''
     else if hd s = CHR ''f'' then expect_literal s ''false''
     else if hd s = CHR ''n'' then expect_literal s ''null''
     else skip_number s)"
| "skip_object s =
    (let r = skip_ws (tl s) in if r \<noteq> [] \<and> hd r = CHR ''}'' then Some (tl r) else object_loop r)"
| "skip_array s =
    (let r = skip_ws (tl s) in if r \<noteq> [] \<and> hd r = CHR '']'' then Some (tl r) else array_loop r)"
| "object_loop s =
    (case object_key s of
       None \<Rightarrow> None
     | Some (key, s1) \<Rightarrow>
        (case skip_value s1 of
           None \<Rightarrow> None
         | Some s2 \<Rightarrow>
            (let s3 = skip_ws s2 in
             if s3 = [] then None
             else if hd s3 = CHR '','' then object_loop (tl s3)
             else if hd s3 = CHR ''}'' then Some (tl s3) else None)))"
| "array_loop s =
    (case skip_value (skip_ws s) of
       None \<Rightarrow> None
     | Some s1 \<Rightarrow>
        (let s2 = skip_ws s1 in
         if s2 = [] then None
         else if hd s2 = CHR '','' then array_loop (tl s2)
         else if hd s2 = CHR '']'' then Some (tl s2) else None))"
  by pat_completeness auto

lemma tl_less: "s \<noteq> [] \<Longrightarrow> length (tl s) < length s"
  by (cases s) simp_all

lemma skip_ws_tl_less: "skip_ws s \<noteq> [] \<Longrightarrow> length (tl (skip_ws s)) < length s"
  using tl_less [of "skip_ws s"] skip_ws_le [of s] by linarith

lemma object_key_less: "object_key s = Some (key, r) \<Longrightarrow> length r < length s"
proof -
  assume k: "object_key s = Some (key, r)"
  then obtain s1 where s1: "skip_string (skip_ws s) = Some s1" "skip_ws s \<noteq> []" "skip_ws s1 \<noteq> []"
      "r = skip_ws (tl (skip_ws s1))"
    by (auto simp: object_key_def Let_def split: if_splits option.splits)
  have "length r \<le> length (tl (skip_ws s1))" unfolding s1(4) by (rule skip_ws_le)
  also have "\<dots> < length s1" using skip_ws_tl_less [OF s1(3)] .
  also have "\<dots> < length (skip_ws s)" using skip_string_less s1 by blast
  also have "\<dots> \<le> length s" by simp
  finally show ?thesis .
qed

lemma skip_value_less_dom:
  "skip_value_skip_object_skip_array_object_loop_array_loop_dom (Inl (Inl s)) \<Longrightarrow>
     (\<And>r. skip_value s = Some r \<Longrightarrow> length r < length s)"
  "skip_value_skip_object_skip_array_object_loop_array_loop_dom (Inl (Inr s1)) \<Longrightarrow>
     (\<And>r. s1 \<noteq> [] \<Longrightarrow> skip_object s1 = Some r \<Longrightarrow> length r < length s1)"
  "skip_value_skip_object_skip_array_object_loop_array_loop_dom (Inr (Inl s2)) \<Longrightarrow>
     (\<And>r. s2 \<noteq> [] \<Longrightarrow> skip_array s2 = Some r \<Longrightarrow> length r < length s2)"
  "skip_value_skip_object_skip_array_object_loop_array_loop_dom (Inr (Inr (Inl s3))) \<Longrightarrow>
     (\<And>r. object_loop s3 = Some r \<Longrightarrow> length r < length s3)"
  "skip_value_skip_object_skip_array_object_loop_array_loop_dom (Inr (Inr (Inr s4))) \<Longrightarrow>
     (\<And>r. array_loop s4 = Some r \<Longrightarrow> length r < length s4)"
proof (induction s and s1 and s2 and s3 and s4 rule: skip_value_skip_object_skip_array_object_loop_array_loop.pinduct)
  case (1 s r)
  then show ?case
    by (auto simp: skip_value.psimps dest!: skip_string_less expect_literal_less skip_number_less split: if_splits)
next
  case (2 s r)
  show ?case
  proof (cases "skip_ws (tl s) \<noteq> [] \<and> hd (skip_ws (tl s)) = CHR ''}''")
    case True
    then have "r = tl (skip_ws (tl s))" using 2 by (auto simp: skip_object.psimps Let_def)
    then show ?thesis using True skip_ws_tl_less [of "tl s"] tl_less [OF 2(3)] by simp
  next
    case False
    then have "object_loop (skip_ws (tl s)) = Some r" using 2 by (auto simp: skip_object.psimps Let_def split: if_splits)
    then have "length r < length (skip_ws (tl s))" using 2(2) False by blast
    then show ?thesis using skip_ws_le [of "tl s"] tl_less [OF 2(3)] by linarith
  qed
next
  case (3 s r)
  show ?case
  proof (cases "skip_ws (tl s) \<noteq> [] \<and> hd (skip_ws (tl s)) = CHR '']''")
    case True
    then have "r = tl (skip_ws (tl s))" using 3 by (auto simp: skip_array.psimps Let_def)
    then show ?thesis using True skip_ws_tl_less [of "tl s"] tl_less [OF 3(3)] by simp
  next
    case False
    then have "array_loop (skip_ws (tl s)) = Some r" using 3 by (auto simp: skip_array.psimps Let_def split: if_splits)
    then have "length r < length (skip_ws (tl s))" using 3(2) False by blast
    then show ?thesis using skip_ws_le [of "tl s"] tl_less [OF 3(3)] by linarith
  qed
next
  case (4 s r)
  obtain key s1 s2 where k: "object_key s = Some (key, s1)" "skip_value s1 = Some s2" "skip_ws s2 \<noteq> []"
    using 4(1,4) by (auto simp: object_loop.psimps Let_def split: option.splits if_splits)
  have l: "length s2 < length s1" "length s1 < length s" "length (tl (skip_ws s2)) < length s2"
    using 4(2) k object_key_less skip_ws_tl_less by blast+
  have "r = tl (skip_ws s2) \<or> object_loop (tl (skip_ws s2)) = Some r \<and> hd (skip_ws s2) = CHR '',''"
    using 4(1,4) k by (auto simp: object_loop.psimps Let_def split: if_splits)
  moreover have "length r < length (tl (skip_ws s2))"
    if "object_loop (tl (skip_ws s2)) = Some r" "hd (skip_ws s2) = CHR '',''"
    by (rule 4(3) [OF k(1) refl k(2) refl k(3) that(2,1)])
  moreover have "length (tl (skip_ws s2)) < length s" using l by linarith
  ultimately show ?case by (elim disjE conjE) (simp, metis less_trans)
next
  case (5 s r)
  obtain s1 where k: "skip_value (skip_ws s) = Some s1" "skip_ws s1 \<noteq> []"
    using 5(1,4) by (auto simp: array_loop.psimps Let_def split: option.splits if_splits)
  have l: "length s1 < length (skip_ws s)" "length (skip_ws s) \<le> length s" "length (tl (skip_ws s1)) < length s1"
    using 5(2) k skip_ws_tl_less by simp_all
  have "r = tl (skip_ws s1) \<or> array_loop (tl (skip_ws s1)) = Some r \<and> hd (skip_ws s1) = CHR '',''"
    using 5(1,4) k by (auto simp: array_loop.psimps Let_def split: if_splits)
  moreover have "length r < length (tl (skip_ws s1))"
    if "array_loop (tl (skip_ws s1)) = Some r" "hd (skip_ws s1) = CHR '',''"
    by (rule 5(3) [OF k(1) refl k(2) that(2,1)])
  moreover have "length (tl (skip_ws s1)) < length s" using l by linarith
  ultimately show ?case by (elim disjE conjE) (simp, metis less_trans)
qed

termination skip_value
proof (relation "measure (case_sum (case_sum (\<lambda>s. 4 * length s + 1) (\<lambda>s. max (4 * length s) 1))
    (case_sum (\<lambda>s. max (4 * length s) 3) (case_sum (\<lambda>s. 4 * length s) (\<lambda>s. 4 * length s + 2))))", goal_cases)
  case (3 s)
  then show ?case by (cases s) auto
next
  case (4 s r)
  then show ?case using skip_ws_le [of "tl s"] by (cases s) (auto simp: less_Suc_eq_le simp del: skip_ws_le)
next
  case (5 s r)
  then show ?case using skip_ws_le [of "tl s"] by (cases s) (auto simp del: skip_ws_le)
next
  case (6 s p key s1)
  then show ?case using object_key_less [of s key s1] by simp
next
  case (7 s p key s1 s2 s3)
  then have "length s2 < length s1" "length s1 < length s" "length (tl (skip_ws s2)) < length s2"
    using skip_value_less_dom(1) object_key_less skip_ws_tl_less by blast+
  then show ?case using 7 by simp
next
  case (8 s)
  then show ?case using skip_ws_le [of s] by (simp del: skip_ws_le)
next
  case (9 s s1 s2)
  then have "length s1 < length (skip_ws s)" "length (tl (skip_ws s1)) < length s1"
    using skip_value_less_dom(1) skip_ws_tl_less by blast+
  then have "length (tl (skip_ws s1)) < length s" using skip_ws_le [of s] by linarith
  then show ?case using 9 by simp
qed (auto simp: Suc_le_eq)

declare skip_value.simps [simp del] skip_object.simps [simp del] skip_array.simps [simp del]
  object_loop.simps [simp del] array_loop.simps [simp del]


subsection \<open>The grammar of RFC 8259\<close>

definition ws :: "string \<Rightarrow> bool" where "ws w \<longleftrightarrow> list_all is_ws w"

inductive string_chars :: "string \<Rightarrow> bool" where
  no_chars: "string_chars []"
| plain_char: "string_chars s \<Longrightarrow> c \<noteq> quote \<Longrightarrow> c \<noteq> backslash \<Longrightarrow> 32 \<le> byte c \<Longrightarrow> string_chars (c # s)"
| escaped_char: "string_chars s \<Longrightarrow> simple_escape e \<Longrightarrow> string_chars (backslash # e # s)"
| unicode_char: "string_chars s \<Longrightarrow> length h = 4 \<Longrightarrow> is_hex4 h \<Longrightarrow> string_chars (backslash # CHR ''u'' # h @ s)"

definition json_string :: "string \<Rightarrow> bool" where
  "json_string t \<longleftrightarrow> (\<exists>s. t = quote # s @ [quote] \<and> string_chars s)"

definition digits :: "string \<Rightarrow> bool" where "digits d \<longleftrightarrow> d \<noteq> [] \<and> list_all json_digit d"

definition int_part :: "string \<Rightarrow> bool" where
  "int_part d \<longleftrightarrow> digits d \<and> (hd d = CHR ''0'' \<longrightarrow> length d = 1)"

definition frac_part :: "string \<Rightarrow> bool" where
  "frac_part f \<longleftrightarrow> f = [] \<or> (\<exists>d. f = CHR ''.'' # d \<and> digits d)"

definition exp_part :: "string \<Rightarrow> bool" where
  "exp_part x \<longleftrightarrow> x = [] \<or> (\<exists>e g d. x = e # g @ d \<and> (e = CHR ''e'' \<or> e = CHR ''E'')
     \<and> g \<in> {[], [CHR ''+''], [CHR ''-'']} \<and> digits d)"

definition json_number :: "string \<Rightarrow> bool" where
  "json_number t \<longleftrightarrow> (\<exists>m d f x. t = m @ d @ f @ x \<and> m \<in> {[], [CHR ''-'']} \<and> int_part d \<and> frac_part f \<and> exp_part x)"

text \<open>\<open>json_members es t\<close>: the text \<open>t\<close> between the braces of an object that is not empty, with
  the keys and values as written in \<open>es\<close>.\<close>

inductive json_value :: "string \<Rightarrow> bool"
  and json_members :: "(string \<times> string) list \<Rightarrow> string \<Rightarrow> bool"
  and json_elements :: "string \<Rightarrow> bool"
where
  v_string: "json_string t \<Longrightarrow> json_value t"
| v_number: "json_number t \<Longrightarrow> json_value t"
| v_literal: "t \<in> {''true'', ''false'', ''null''} \<Longrightarrow> json_value t"
| v_empty_object: "ws w \<Longrightarrow> json_value (CHR ''{'' # w @ ''}'')"
| v_object: "json_members es t \<Longrightarrow> json_value (CHR ''{'' # t @ ''}'')"
| v_empty_array: "ws w \<Longrightarrow> json_value (CHR ''['' # w @ '']'')"
| v_array: "json_elements t \<Longrightarrow> json_value (CHR ''['' # t @ '']'')"
| one_member: "ws w1 \<Longrightarrow> json_string k \<Longrightarrow> ws w2 \<Longrightarrow> ws w3 \<Longrightarrow> json_value v \<Longrightarrow> ws w4 \<Longrightarrow>
    json_members [(k, v)] (w1 @ k @ w2 @ '':'' @ w3 @ v @ w4)"
| more_members: "ws w1 \<Longrightarrow> json_string k \<Longrightarrow> ws w2 \<Longrightarrow> ws w3 \<Longrightarrow> json_value v \<Longrightarrow> ws w4 \<Longrightarrow>
    json_members es t \<Longrightarrow> json_members ((k, v) # es) (w1 @ k @ w2 @ '':'' @ w3 @ v @ w4 @ '','' @ t)"
| one_element: "ws w1 \<Longrightarrow> json_value v \<Longrightarrow> ws w2 \<Longrightarrow> json_elements (w1 @ v @ w2)"
| more_elements: "ws w1 \<Longrightarrow> json_value v \<Longrightarrow> ws w2 \<Longrightarrow> json_elements t \<Longrightarrow>
    json_elements (w1 @ v @ w2 @ '','' @ t)"

subsection \<open>The tokens are those of the grammar\<close>

lemma skip_ws_split: "\<exists>w. ws w \<and> s = w @ skip_ws s"
  unfolding ws_def skip_ws_def
  by (rule exI [of _ "takeWhile is_ws s"]) (auto simp: list_all_iff dest: set_takeWhileD)

lemma skip_ws_append: "ws w \<Longrightarrow> skip_ws (w @ s) = skip_ws s"
  by (simp add: ws_def skip_ws_def list_all_iff dropWhile_append1 dropWhile_append2)

lemma skip_ws_not: "s = [] \<or> \<not> is_ws (hd s) \<Longrightarrow> skip_ws s = s"
  by (cases s) (auto simp: skip_ws_def)

lemma string_loop_sound: "string_loop s = Some r \<Longrightarrow> \<exists>t. string_chars t \<and> s = t @ quote # r"
proof (induction s rule: string_loop.induct)
  case (2 c s)
  show ?case
  proof (cases "c = quote")
    case True
    then show ?thesis using 2 no_chars by fastforce
  next
    case nq: False
    show ?thesis
    proof (cases "c = backslash")
      case True
      then obtain e q where s: "s = e # q" using 2(4) nq by (cases s) auto
      show ?thesis
      proof (cases "simple_escape e")
        case esc: True
        then obtain t where "string_chars t" "q = t @ quote # r" using 2(1) 2(4) s True nq by auto
        then show ?thesis using s True esc escaped_char by fastforce
      next
        case False
        then have u: "e = CHR ''u''" "4 \<le> length q" "is_hex4 (take 4 q)" "string_loop (drop 4 q) = Some r"
          using 2(4) s True nq by (auto split: if_splits)
        then obtain t where t: "string_chars t" "drop 4 q = t @ quote # r" using 2(2) s True nq False by auto
        have "string_chars (backslash # CHR ''u'' # take 4 q @ t)" using t u unicode_char by simp
        moreover have "c # s = (backslash # CHR ''u'' # take 4 q @ t) @ quote # r"
          using s True u t append_take_drop_id [of 4 q] by simp
        ultimately show ?thesis by blast
      qed
    next
      case False
      then have "\<not> byte c < 32" "string_loop s = Some r" using 2(4) nq by (auto split: if_splits)
      then obtain t where "string_chars t" "s = t @ quote # r" using 2(3) nq False by auto
      then show ?thesis using plain_char [of t c] nq False \<open>\<not> byte c < 32\<close> by fastforce
    qed
  qed
qed simp

lemma string_loop_complete: "string_chars t \<Longrightarrow> string_loop (t @ quote # r) = Some r"
  by (induction rule: string_chars.induct) (auto simp: simple_escape_def)

lemma skip_string_sound:
  assumes "skip_string s = Some r" "s \<noteq> []" "hd s = quote"
  shows "\<exists>t. json_string t \<and> s = t @ r"
proof -
  obtain q where s: "s = quote # q" using assms by (cases s) auto
  then obtain t where "string_chars t" "q = t @ quote # r" using assms(1) string_loop_sound by (auto simp: skip_string_def)
  then show ?thesis using s by (auto simp: json_string_def intro!: exI [of _ "quote # t @ [quote]"])
qed

lemma skip_string_complete: "json_string t \<Longrightarrow> skip_string (t @ r) = Some r"
  by (auto simp: json_string_def skip_string_def string_loop_complete)

lemma json_string_hd: "json_string t \<Longrightarrow> t \<noteq> [] \<and> hd t = quote"
  by (auto simp: json_string_def)


text \<open>What may come after a value: the end of the input or a character that ends it.\<close>

definition follow :: "string \<Rightarrow> bool" where
  "follow r \<longleftrightarrow> r = [] \<or> is_ws (hd r) \<or> hd r \<in> set '',]}''"

lemma follow_number: "follow r \<Longrightarrow> r = [] \<or> \<not> json_digit (hd r) \<and> hd r \<notin> set ''.eE''"
  by (auto simp: follow_def is_ws_def json_digit_def in_range_def)

lemma skip_digits_sound: "skip_digits s = (r, n) \<Longrightarrow> 0 < n \<Longrightarrow> \<exists>d. digits d \<and> s = d @ r \<and> length d = n"
  by (rule exI [of _ "takeWhile json_digit s"])
    (auto simp: skip_digits_def digits_def list_all_iff dest: set_takeWhileD)

lemma skip_digits_complete:
  assumes "digits d" "r = [] \<or> \<not> json_digit (hd r)"
  shows "skip_digits (d @ r) = (r, length d)"
proof -
  have "takeWhile json_digit (d @ r) = d" "dropWhile json_digit (d @ r) = r"
    using assms by (cases r; simp add: digits_def list_all_iff takeWhile_append dropWhile_append)+
  then show ?thesis by (simp add: skip_digits_def)
qed

lemma optional_sign:
  "\<exists>g. q = g @ (case q of c # r \<Rightarrow> if c = CHR ''+'' \<or> c = CHR ''-'' then r else q | [] \<Rightarrow> q)
     \<and> g \<in> {[], [CHR ''+''], [CHR ''-'']}"
proof (cases "q \<noteq> [] \<and> (hd q = CHR ''+'' \<or> hd q = CHR ''-'')")
  case True
  then show ?thesis by (intro exI [of _ "[hd q]"]) (cases q; auto)
qed (auto split: list.splits)

lemma optional_minus:
  "\<exists>m. q = m @ (case q of c # r \<Rightarrow> if c = CHR ''-'' then r else q | [] \<Rightarrow> q) \<and> m \<in> {[], [CHR ''-'']}"
proof (cases "q \<noteq> [] \<and> hd q = CHR ''-''")
  case True
  then show ?thesis by (intro exI [of _ "[hd q]"]) (cases q; auto)
qed (auto split: list.splits)

lemma skip_exponent_sound:
  assumes "skip_exponent s = Some r" "s \<noteq> []" "hd s = CHR ''e'' \<or> hd s = CHR ''E''"
  shows "\<exists>x. x \<noteq> [] \<and> exp_part x \<and> s = x @ r"
proof -
  obtain e q where s: "s = e # q" using assms by (cases s) auto
  obtain g q' where g: "q = g @ q'" "g \<in> {[], [CHR ''+''], [CHR ''-'']}"
      "q' = (case q of c # r \<Rightarrow> if c = CHR ''+'' \<or> c = CHR ''-'' then r else q | [] \<Rightarrow> q)"
    using optional_sign [of q] by blast
  obtain n where "skip_digits q' = (r, n)" "0 < n"
    using assms(1) s g(3) by (auto simp: skip_exponent_def Let_def split: prod.splits if_splits)
  then obtain d where "digits d" "q' = d @ r" using skip_digits_sound by blast
  moreover have "e = CHR ''e'' \<or> e = CHR ''E''" using assms(3) s by simp
  ultimately have "exp_part (e # g @ d)" "s = (e # g @ d) @ r" using s g(1,2) unfolding exp_part_def by (blast, simp)
  then show ?thesis by blast
qed

lemma digits_hd: "digits d \<Longrightarrow> hd (d @ r) = hd d \<and> json_digit (hd d) \<and> d @ r \<noteq> []"
  by (cases d) (auto simp: digits_def)

lemma digit_not_sign: "json_digit c \<Longrightarrow> c \<noteq> CHR ''+'' \<and> c \<noteq> CHR ''-'' \<and> c \<noteq> CHR ''.'' \<and> c \<noteq> CHR ''e'' \<and> c \<noteq> CHR ''E''"
  by (auto simp: json_digit_def in_range_def)

lemma skip_exponent_complete:
  assumes "exp_part x" "x \<noteq> []" "follow r"
  shows "skip_exponent (x @ r) = Some r"
proof -
  obtain e g d where x: "x = e # g @ d" "g \<in> {[], [CHR ''+''], [CHR ''-'']}" "digits d"
    using assms by (auto simp: exp_part_def)
  have d: "skip_digits (d @ r) = (r, length d)" "length d \<noteq> 0"
    using skip_digits_complete [OF x(3)] follow_number [OF assms(3)] x(3) by (auto simp: digits_def)
  obtain c q where c: "d @ r = c # q" "c \<noteq> CHR ''+''" "c \<noteq> CHR ''-''"
    using digits_hd [OF x(3), of r] digit_not_sign by (cases "d @ r") auto
  have "(case g @ d @ r of c # r' \<Rightarrow> if c = CHR ''+'' \<or> c = CHR ''-'' then r' else g @ d @ r | [] \<Rightarrow> g @ d @ r) = d @ r"
    using x(2) c by auto
  then show ?thesis using d x(1) by (simp add: skip_exponent_def)
qed

lemma skip_fraction_sound: "skip_fraction s = Some r \<Longrightarrow> \<exists>f. frac_part f \<and> s = f @ r"
proof (cases s)
  case (Cons c q)
  assume s: "skip_fraction s = Some r"
  show ?thesis
  proof (cases "c = CHR ''.''")
    case True
    then obtain n where "skip_digits q = (r, n)" "0 < n"
      using s Cons by (auto simp: skip_fraction_def Let_def split: prod.splits if_splits)
    then obtain d where "digits d" "q = d @ r" using skip_digits_sound by blast
    then show ?thesis using Cons True by (auto simp: frac_part_def intro!: exI [of _ "c # d"])
  next
    case False
    then show ?thesis using s Cons by (auto simp: skip_fraction_def frac_part_def)
  qed
qed (auto simp: skip_fraction_def frac_part_def)

lemma skip_fraction_complete:
  assumes "frac_part f" "r = [] \<or> \<not> json_digit (hd r) \<and> hd r \<noteq> CHR ''.''"
  shows "skip_fraction (f @ r) = Some r"
proof (cases "f = []")
  case True
  then show ?thesis using assms(2) by (cases r) (auto simp: skip_fraction_def)
next
  case False
  then obtain d where f: "f = CHR ''.'' # d" "digits d" using assms(1) by (auto simp: frac_part_def)
  then have "skip_digits (d @ r) = (r, length d)" "length d \<noteq> 0"
    using skip_digits_complete [OF f(2)] assms(2) by (auto simp: digits_def)
  then show ?thesis using f(1) by (simp add: skip_fraction_def)
qed


lemma hd_nth_len: "length d = n \<Longrightarrow> d \<noteq> [] \<Longrightarrow> hd (d @ r) = hd d"
  by simp

lemma skip_number_sound:
  assumes "skip_number s = Some r"
  shows "\<exists>t. json_number t \<and> s = t @ r"
proof -
  obtain m q where m: "s = m @ q" "m \<in> {[], [CHR ''-'']}"
      "q = (case s of c # r \<Rightarrow> if c = CHR ''-'' then r else s | [] \<Rightarrow> s)"
    using optional_minus [of s] by blast
  obtain r1 n r2 where n: "skip_digits q = (r1, n)" "0 < n" "\<not> (n > 1 \<and> hd q = CHR ''0'')"
      "skip_fraction r1 = Some r2"
      "(case r2 of c # _ \<Rightarrow> if c = CHR ''e'' \<or> c = CHR ''E'' then skip_exponent r2 else Some r2 | [] \<Rightarrow> Some r2) = Some r"
    using assms m(3) by (auto simp: skip_number_def Let_def split: prod.splits if_splits option.splits)
  obtain d where d: "digits d" "q = d @ r1" "length d = n" using skip_digits_sound [OF n(1,2)] by blast
  have "int_part d" using d n(2,3) by (cases d) (auto simp: int_part_def digits_def)
  obtain f where f: "frac_part f" "r1 = f @ r2" using skip_fraction_sound [OF n(4)] by blast
  obtain x where "exp_part x" "r2 = x @ r"
  proof (cases "r2 \<noteq> [] \<and> (hd r2 = CHR ''e'' \<or> hd r2 = CHR ''E'')")
    case True
    then have "skip_exponent r2 = Some r" using n(5) by (cases r2) auto
    then show ?thesis using skip_exponent_sound True that by blast
  next
    case False
    then have "r2 = r" using n(5) by (cases r2) (auto split: if_splits)
    then show ?thesis using that [of "[]"] by (simp add: exp_part_def)
  qed
  then show ?thesis using m d f \<open>int_part d\<close> unfolding json_number_def by (metis append.assoc)
qed

lemma skip_number_complete:
  assumes "json_number t" "follow r"
  shows "skip_number (t @ r) = Some r"
proof -
  obtain m d f x where t: "t = m @ d @ f @ x" "m \<in> {[], [CHR ''-'']}" "int_part d" "frac_part f" "exp_part x"
    using assms(1) by (auto simp: json_number_def)
  have dd: "digits d" using t(3) by (simp add: int_part_def)
  have d1: "hd (d @ f @ x @ r) = hd d" "hd d \<noteq> CHR ''-''" "d @ f @ x @ r \<noteq> []"
    using digits_hd [OF dd] digit_not_sign by blast+
  have sign: "(case t @ r of c # r' \<Rightarrow> if c = CHR ''-'' then r' else t @ r | [] \<Rightarrow> t @ r) = d @ f @ x @ r"
    using t(1,2) d1 by (cases "d @ f @ x @ r") auto
  have xr: "x @ r = [] \<or> \<not> json_digit (hd (x @ r)) \<and> hd (x @ r) \<noteq> CHR ''.''"
  proof (cases "x = []")
    case True
    then show ?thesis using follow_number [OF assms(2)] by auto
  next
    case False
    then show ?thesis using t(5) by (auto simp: exp_part_def json_digit_def in_range_def)
  qed
  have fxr: "f @ x @ r = [] \<or> \<not> json_digit (hd (f @ x @ r))"
    using t(4) xr by (auto simp: frac_part_def json_digit_def in_range_def)
  have len: "length d \<noteq> 0" "\<not> (length d > 1 \<and> hd d = CHR ''0'')"
    using t(3) by (auto simp: int_part_def digits_def)
  have tail: "(case x @ r of c # _ \<Rightarrow> if c = CHR ''e'' \<or> c = CHR ''E'' then skip_exponent (x @ r) else Some (x @ r)
      | [] \<Rightarrow> Some (x @ r)) = Some r"
  proof (cases "x = []")
    case True
    then show ?thesis using follow_number [OF assms(2)] by (cases r) auto
  next
    case False
    then have "hd (x @ r) = CHR ''e'' \<or> hd (x @ r) = CHR ''E''" using t(5) by (auto simp: exp_part_def)
    then show ?thesis using skip_exponent_complete [OF t(5) False assms(2)] by (cases "x @ r") auto
  qed
  show ?thesis unfolding skip_number_def Let_def sign
    using skip_digits_complete [OF dd fxr] len d1 skip_fraction_complete [OF t(4) xr] tail by simp
qed

lemma expect_literal_sound: "expect_literal s lit = Some r \<Longrightarrow> s = lit @ r"
  by (auto simp: expect_literal_def split: if_splits) (metis append_take_drop_id)

lemma expect_literal_complete [simp]: "expect_literal (lit @ r) lit = Some r"
  by (simp add: expect_literal_def)


subsection \<open>What is skipped is a value\<close>

lemma ws_append [simp]: "ws (a @ b) \<longleftrightarrow> ws a \<and> ws b"
  by (simp add: ws_def)

lemma ws_Nil [simp]: "ws []"
  by (simp add: ws_def)

lemma members_ws:
  assumes "json_members es t" "ws w"
  shows "json_members es (w @ t)"
  using assms(1)
proof (cases rule: json_members.cases)
  case (one_member w1 k w2 w3 v w4)
  then show ?thesis using json_value_json_members_json_elements.one_member [of "w @ w1" k w2 w3 v w4] assms(2) by simp
next
  case (more_members w1 k w2 w3 v w4 es' t')
  then show ?thesis
    using json_value_json_members_json_elements.more_members [of "w @ w1" k w2 w3 v w4 es' t'] assms(2) by simp
qed

lemma elements_ws:
  assumes "json_elements t" "ws w"
  shows "json_elements (w @ t)"
  using assms(1)
proof (cases rule: json_elements.cases)
  case (one_element w1 v w2)
  then show ?thesis using json_value_json_members_json_elements.one_element [of "w @ w1" v w2] assms(2) by simp
next
  case (more_elements w1 v w2 t')
  then show ?thesis
    using json_value_json_members_json_elements.more_elements [of "w @ w1" v w2 t'] assms(2) by simp
qed

lemma between_append [simp]: "between (t @ r) r = t"
  by (simp add: between_def)

lemma object_key_sound:
  assumes "object_key s = Some (k, r)"
  shows "\<exists>w1 w2 w3. ws w1 \<and> ws w2 \<and> ws w3 \<and> json_string k \<and> s = w1 @ k @ w2 @ '':'' @ w3 @ r"
proof -
  obtain s1 where s1: "skip_ws s \<noteq> []" "hd (skip_ws s) = quote" "skip_string (skip_ws s) = Some s1"
      "skip_ws s1 \<noteq> []" "hd (skip_ws s1) = CHR '':''" "k = between (skip_ws s) s1" "r = skip_ws (tl (skip_ws s1))"
    using assms by (auto simp: object_key_def Let_def split: if_splits option.splits)
  obtain q where q: "json_string q" "skip_ws s = q @ s1" using skip_string_sound s1 by blast
  then have k: "k = q" using s1(6) by simp
  obtain w1 w2 w3 where w: "ws w1" "s = w1 @ skip_ws s" "ws w2" "s1 = w2 @ skip_ws s1"
      "ws w3" "tl (skip_ws s1) = w3 @ r"
    using skip_ws_split s1(7) by metis
  have "skip_ws s1 = CHR '':'' # w3 @ r" using s1(4,5) w(6) by (cases "skip_ws s1") auto
  then have "s = w1 @ k @ w2 @ '':'' @ w3 @ r" using w q k by simp
  then show ?thesis using w q k by blast
qed

lemma skip_ws_head: "skip_ws s \<noteq> [] \<Longrightarrow> hd (skip_ws s) = c \<Longrightarrow> \<exists>w. ws w \<and> s = w @ c # tl (skip_ws s)"
  using skip_ws_split [of s] by (cases "skip_ws s") auto

lemma scan_sound:
  "\<And>r. skip_value s = Some r \<Longrightarrow> \<exists>t. json_value t \<and> s = t @ r"
  "\<And>r. s1 \<noteq> [] \<Longrightarrow> hd s1 = CHR ''{'' \<Longrightarrow> skip_object s1 = Some r \<Longrightarrow> \<exists>t. json_value t \<and> s1 = t @ r"
  "\<And>r. s2 \<noteq> [] \<Longrightarrow> hd s2 = CHR ''['' \<Longrightarrow> skip_array s2 = Some r \<Longrightarrow> \<exists>t. json_value t \<and> s2 = t @ r"
  "\<And>r. object_loop s3 = Some r \<Longrightarrow> \<exists>es t. json_members es t \<and> s3 = t @ ''}'' @ r"
  "\<And>r. array_loop s4 = Some r \<Longrightarrow> \<exists>t. json_elements t \<and> s4 = t @ '']'' @ r"
proof (induction s and s1 and s2 and s3 and s4 rule: skip_value_skip_object_skip_array_object_loop_array_loop.induct)
  case (1 s)
  show ?case
  proof -
    have ne: "s \<noteq> []" using 1(3) by (auto simp: skip_value.simps)
    have "hd s = quote \<or> hd s = CHR ''{'' \<or> hd s = CHR ''['' \<or> hd s = CHR ''t'' \<or> hd s = CHR ''f''
        \<or> hd s = CHR ''n'' \<or> skip_value s = skip_number s"
      using ne by (simp add: skip_value.simps)
    then consider (q) "hd s = quote" | (o) "hd s = CHR ''{''" | (a) "hd s = CHR ''[''"
      | (t) "hd s = CHR ''t''" | (f) "hd s = CHR ''f''" | (n) "hd s = CHR ''n''"
      | (num) "skip_value s = skip_number s"
      by blast
    then show ?thesis
    proof cases
      case q
      then show ?thesis using 1(3) ne skip_string_sound [of s r] v_string by (auto simp: skip_value.simps)
    next
      case o
      then show ?thesis using 1 ne by (auto simp: skip_value.simps)
    next
      case a
      then show ?thesis using 1 ne by (auto simp: skip_value.simps)
    next
      case t
      then show ?thesis using 1(3) ne expect_literal_sound [of s "''true''" r] v_literal [of "''true''"]
        by (auto simp: skip_value.simps)
    next
      case f
      then show ?thesis using 1(3) ne expect_literal_sound [of s "''false''" r] v_literal [of "''false''"]
        by (auto simp: skip_value.simps)
    next
      case n
      then show ?thesis using 1(3) ne expect_literal_sound [of s "''null''" r] v_literal [of "''null''"]
        by (auto simp: skip_value.simps)
    next
      case num
      then show ?thesis using 1(3) skip_number_sound [of s r] v_number by auto
    qed
  qed
next
  case (2 s)
  let ?q = "skip_ws (tl s)"
  obtain w where w: "ws w" "tl s = w @ ?q" using skip_ws_split by metis
  have s: "s = CHR ''{'' # tl s" using 2(2,3) by (cases s) auto
  show ?case
  proof (cases "?q \<noteq> [] \<and> hd ?q = CHR ''}''")
    case True
    then have "r = tl ?q" using 2(4) by (simp add: skip_object.simps Let_def)
    then have "s = (CHR ''{'' # w @ ''}'') @ r" using s w(2) True by (cases ?q) auto
    then show ?thesis using v_empty_object [OF w(1)] by blast
  next
    case False
    then have "object_loop ?q = Some r" using 2(4) by (auto simp: skip_object.simps Let_def split: if_splits)
    then obtain es t where t: "json_members es t" "?q = t @ ''}'' @ r" using 2(1) False by blast
    then have "s = (CHR ''{'' # (w @ t) @ ''}'') @ r" using s w(2) by simp
    then show ?thesis using v_object [OF members_ws [OF t(1) w(1)]] by blast
  qed
next
  case (3 s)
  let ?q = "skip_ws (tl s)"
  obtain w where w: "ws w" "tl s = w @ ?q" using skip_ws_split by metis
  have s: "s = CHR ''['' # tl s" using 3(2,3) by (cases s) auto
  show ?case
  proof (cases "?q \<noteq> [] \<and> hd ?q = CHR '']''")
    case True
    then have "r = tl ?q" using 3(4) by (simp add: skip_array.simps Let_def)
    then have "s = (CHR ''['' # w @ '']'') @ r" using s w(2) True by (cases ?q) auto
    then show ?thesis using v_empty_array [OF w(1)] by blast
  next
    case False
    then have "array_loop ?q = Some r" using 3(4) by (auto simp: skip_array.simps Let_def split: if_splits)
    then obtain t where t: "json_elements t" "?q = t @ '']'' @ r" using 3(1) False by blast
    then have "s = (CHR ''['' # (w @ t) @ '']'') @ r" using s w(2) by simp
    then show ?thesis using v_array [OF elements_ws [OF t(1) w(1)]] by blast
  qed
next
  case (4 s)
  obtain k p q where k: "object_key s = Some (k, p)" "skip_value p = Some q" "skip_ws q \<noteq> []"
    using 4(3) by (auto simp: object_loop.simps Let_def split: option.splits if_splits)
  obtain w1 w2 w3 where key: "ws w1" "ws w2" "ws w3" "json_string k" "s = w1 @ k @ w2 @ '':'' @ w3 @ p"
    using object_key_sound [OF k(1)] by blast
  obtain v where v: "json_value v" "p = v @ q" using 4(1) [OF k(1) refl k(2)] by blast
  obtain w4 where w4: "ws w4" "q = w4 @ hd (skip_ws q) # tl (skip_ws q)" using skip_ws_head [OF k(3) refl] by blast
  consider "hd (skip_ws q) = CHR '',''" "object_loop (tl (skip_ws q)) = Some r"
    | "hd (skip_ws q) = CHR ''}''" "tl (skip_ws q) = r"
    using 4(3) k by (auto simp: object_loop.simps Let_def split: if_splits)
  then show ?case
  proof cases
    case 1
    then obtain es t where t: "json_members es t" "tl (skip_ws q) = t @ ''}'' @ r"
      using 4(2) [OF k(1) refl k(2) refl k(3) 1(1) 1(2)] by blast
    show ?thesis
      using more_members [OF key(1,4,2,3) v(1) w4(1) t(1)] key(5) v(2) w4(2) t(2) 1(1) by fastforce
  next
    case 2
    then show ?thesis using one_member [OF key(1,4,2,3) v(1) w4(1)] key(5) v(2) w4(2) by fastforce
  qed
next
  case (5 s)
  obtain q where k: "skip_value (skip_ws s) = Some q" "skip_ws q \<noteq> []"
    using 5(3) by (auto simp: array_loop.simps Let_def split: option.splits if_splits)
  obtain w1 where w1: "ws w1" "s = w1 @ skip_ws s" using skip_ws_split by blast
  obtain v where v: "json_value v" "skip_ws s = v @ q" using 5(1) [OF k(1)] by blast
  obtain w2 where w2: "ws w2" "q = w2 @ hd (skip_ws q) # tl (skip_ws q)" using skip_ws_head [OF k(2) refl] by blast
  consider "hd (skip_ws q) = CHR '',''" "array_loop (tl (skip_ws q)) = Some r"
    | "hd (skip_ws q) = CHR '']''" "tl (skip_ws q) = r"
    using 5(3) k by (auto simp: array_loop.simps Let_def split: if_splits)
  then show ?case
  proof cases
    case 1
    then obtain t where t: "json_elements t" "tl (skip_ws q) = t @ '']'' @ r"
      using 5(2) [OF k(1) refl k(2) 1(1) 1(2)] by blast
    have "s = (w1 @ v @ w2 @ '','' @ t) @ '']'' @ r" using w1(2) v(2) w2(2) t(2) 1(1) by simp
    then show ?thesis using more_elements [OF w1(1) v(1) w2(1) t(1)] by blast
  next
    case 2
    have "s = (w1 @ v @ w2) @ '']'' @ r" using w1(2) v(2) w2(2) 2 by simp
    then show ?thesis using one_element [OF w1(1) v(1) w2(1)] by blast
  qed
qed


subsection \<open>A value is skipped\<close>

lemma json_number_hd: "json_number t \<Longrightarrow> t \<noteq> [] \<and> (hd t = CHR ''-'' \<or> json_digit (hd t))"
proof -
  assume "json_number t"
  then obtain m d f x where t: "t = m @ d @ f @ x" "m = [] \<or> m = [CHR ''-'']" "digits d"
    by (auto simp: json_number_def int_part_def)
  then show ?thesis using digits_hd [of d "f @ x"] by auto
qed

lemma json_value_hd:
  assumes "json_value t"
  shows "t \<noteq> [] \<and> \<not> is_ws (hd t) \<and> hd t \<notin> set '',]}''"
  using assms
proof (cases rule: json_value.cases)
  case v_string
  then show ?thesis using json_string_hd [of t] by (auto simp: is_ws_def)
next
  case v_number
  then show ?thesis using json_number_hd [of t] by (auto simp: is_ws_def json_digit_def in_range_def)
next
  case v_literal
  then show ?thesis by (auto simp: is_ws_def)
qed (simp_all add: is_ws_def)

lemma skip_ws_to: "ws w \<Longrightarrow> v \<noteq> [] \<Longrightarrow> \<not> is_ws (hd v) \<Longrightarrow> skip_ws (w @ v @ r) = v @ r"
  using skip_ws_append [of w] skip_ws_not [of "v @ r"] by simp

lemma follow_ws: "ws w \<Longrightarrow> c \<in> set '',]}'' \<Longrightarrow> follow (w @ c # r)"
  by (cases w) (auto simp: follow_def ws_def)

lemma object_key_complete:
  assumes "ws w1" "json_string k" "ws w2" "ws w3" "r \<noteq> []" "\<not> is_ws (hd r)"
  shows "object_key (w1 @ k @ w2 @ '':'' @ w3 @ r) = Some (k, r)"
proof -
  let ?x = "w2 @ '':'' @ w3 @ r"
  have k: "k \<noteq> []" "hd k = quote" using json_string_hd [OF assms(2)] by auto
  have "skip_ws (w1 @ k @ ?x) = k @ ?x" using skip_ws_append [OF assms(1)] skip_ws_not [of "k @ ?x"] k by (simp add: is_ws_def)
  moreover have "skip_ws ?x = '':'' @ w3 @ r"
    using skip_ws_append [OF assms(3)] skip_ws_not [of "'':'' @ w3 @ r"] by (simp add: is_ws_def)
  moreover have "skip_ws (w3 @ r) = r" using skip_ws_append [OF assms(4)] skip_ws_not [of r] assms(6) by simp
  ultimately show ?thesis using k skip_string_complete [OF assms(2), of ?x]
    by (simp add: object_key_def Let_def)
qed

lemma object_loop_step:
  assumes "ws w1" "json_string k" "ws w2" "ws w3" "json_value v" "ws w4" "c \<in> set '',}''"
    and "\<And>r. follow r \<Longrightarrow> skip_value (v @ r) = Some r"
  shows "object_loop (w1 @ k @ w2 @ '':'' @ w3 @ v @ w4 @ c # r)
    = (if c = CHR '','' then object_loop r else Some r)"
proof -
  have "object_key (w1 @ k @ w2 @ '':'' @ w3 @ v @ w4 @ c # r) = Some (k, v @ w4 @ c # r)"
    using object_key_complete [OF assms(1-4), of "v @ w4 @ c # r"] json_value_hd [OF assms(5)] by simp
  moreover have "skip_value (v @ w4 @ c # r) = Some (w4 @ c # r)"
    using assms(7) by (intro assms(8) follow_ws [OF assms(6)]) auto
  moreover have "skip_ws (w4 @ c # r) = c # r"
    using skip_ws_append [OF assms(6)] skip_ws_not [of "c # r"] assms(7) by (auto simp: is_ws_def)
  ultimately show ?thesis using assms(7) by (subst object_loop.simps) auto
qed

lemma array_loop_step:
  assumes "ws w1" "json_value v" "ws w2" "c \<in> set '',]''"
    and "\<And>r. follow r \<Longrightarrow> skip_value (v @ r) = Some r"
  shows "array_loop (w1 @ v @ w2 @ c # r) = (if c = CHR '','' then array_loop r else Some r)"
proof -
  have "skip_ws (w1 @ v @ w2 @ c # r) = v @ w2 @ c # r"
    using skip_ws_append [OF assms(1)] skip_ws_not [of "v @ w2 @ c # r"] json_value_hd [OF assms(2)] by simp
  moreover have "skip_value (v @ w2 @ c # r) = Some (w2 @ c # r)"
    using assms(4) by (intro assms(5) follow_ws [OF assms(3)]) auto
  moreover have "skip_ws (w2 @ c # r) = c # r"
    using skip_ws_append [OF assms(3)] skip_ws_not [of "c # r"] assms(4) by (auto simp: is_ws_def)
  ultimately show ?thesis using assms(4) by (subst array_loop.simps) auto
qed

lemma skip_ws_idem [simp]: "skip_ws (skip_ws s) = skip_ws s"
  by (simp add: skip_ws_def dropWhile_idem)

lemma loop_skip_ws: "object_loop (skip_ws s) = object_loop s" "array_loop (skip_ws s) = array_loop s"
proof -
  have "object_key (skip_ws s) = object_key s" by (simp add: object_key_def)
  then show "object_loop (skip_ws s) = object_loop s" by (subst (1 2) object_loop.simps) simp
  show "array_loop (skip_ws s) = array_loop s" by (subst (1 2) array_loop.simps) simp
qed

text \<open>The first character that is not white space.\<close>

lemma members_hd:
  assumes "json_members es t"
  shows "skip_ws (t @ r) \<noteq> [] \<and> hd (skip_ws (t @ r)) = quote"
proof -
  obtain w k x where "ws w" "json_string k" "t = w @ k @ x"
    using assms by (cases rule: json_members.cases) auto
  then show ?thesis using skip_ws_to [of w k "x @ r"] json_string_hd [of k] by (simp add: is_ws_def)
qed

lemma elements_hd:
  assumes "json_elements t"
  shows "skip_ws (t @ r) \<noteq> [] \<and> hd (skip_ws (t @ r)) \<noteq> CHR '']''"
proof -
  obtain w v x where "ws w" "json_value v" "t = w @ v @ x"
    using assms by (cases rule: json_elements.cases) auto
  then show ?thesis using skip_ws_to [of w v "x @ r"] json_value_hd [of v] by simp
qed

lemma scan_complete:
  "json_value t \<Longrightarrow> (\<forall>r. follow r \<longrightarrow> skip_value (t @ r) = Some r)"
  "json_members es t \<Longrightarrow> (\<forall>r. object_loop (t @ ''}'' @ r) = Some r)"
  "json_elements t \<Longrightarrow> (\<forall>r. array_loop (t @ '']'' @ r) = Some r)"
proof (induction rule: json_value_json_members_json_elements.inducts)
  case (v_string t)
  then show ?case using json_string_hd [of t] skip_string_complete by (auto simp: skip_value.simps)
next
  case (v_number t)
  then show ?case using json_number_hd [of t] skip_number_complete
    by (auto simp: skip_value.simps json_digit_def in_range_def)
next
  case (v_literal t)
  then show ?case using expect_literal_complete by (auto simp: skip_value.simps simp flip: append_Cons)
next
  case (v_empty_object w)
  have "skip_ws (w @ ''}'' @ r) = ''}'' @ r" for r using skip_ws_to [OF v_empty_object, of "''}''" r] by (simp add: is_ws_def)
  then show ?case by (simp add: skip_value.simps skip_object.simps Let_def)
next
  case (v_object es t)
  have "skip_object (CHR ''{'' # t @ ''}'' @ r) = object_loop (t @ ''}'' @ r)" for r
    using members_hd [OF v_object(1), of "''}'' @ r"] loop_skip_ws(1) [of "t @ ''}'' @ r"]
    by (simp add: skip_object.simps Let_def)
  then show ?case using v_object(2) by (simp add: skip_value.simps)
next
  case (v_empty_array w)
  have "skip_ws (w @ '']'' @ r) = '']'' @ r" for r using skip_ws_to [OF v_empty_array, of "'']''" r] by (simp add: is_ws_def)
  then show ?case by (simp add: skip_value.simps skip_array.simps Let_def)
next
  case (v_array t)
  have "skip_array (CHR ''['' # t @ '']'' @ r) = array_loop (t @ '']'' @ r)" for r
    using elements_hd [OF v_array(1), of "'']'' @ r"] loop_skip_ws(2) [of "t @ '']'' @ r"]
    by (simp add: skip_array.simps Let_def)
  then show ?case using v_array(2) by (simp add: skip_value.simps)
next
  case (one_member w1 k w2 w3 v w4)
  then show ?case using object_loop_step [of w1 k w2 w3 v w4 "CHR ''}''"] by simp
next
  case (more_members w1 k w2 w3 v w4 es t)
  then show ?case using object_loop_step [of w1 k w2 w3 v w4 "CHR '',''"] by simp
next
  case (one_element w1 v w2)
  then show ?case using array_loop_step [of w1 v w2 "CHR '']''"] by simp
next
  case (more_elements w1 v w2 t)
  then show ?case using array_loop_step [of w1 v w2 "CHR '',''"] by simp
qed

lemmas skip_value_complete = scan_complete(1) [rule_format]


subsection \<open>A top-level field\<close>

definition key_matches :: "(string \<Rightarrow> string option) \<Rightarrow> string \<Rightarrow> string \<Rightarrow> bool" where
  "key_matches unquote raw field =
    (if backslash \<notin> set raw then length raw = length field + 2 \<and> butlast (tl raw) = field
     else unquote raw = Some field)"

lemma skip_value_less: "skip_value s = Some r \<Longrightarrow> length r < length s"
  using scan_sound(1) [of s r] json_value_hd by fastforce

text \<open>The loop of \<^verbatim>\<open>scanObjectEntries\<close>; \<open>found\<close> is the last match so far.\<close>

function scan_object_entries ::
  "(string \<Rightarrow> string option) \<Rightarrow> string \<Rightarrow> string \<Rightarrow> string option \<Rightarrow> string option" where
  "scan_object_entries unquote field s found =
    (case object_key s of
       None \<Rightarrow> None
     | Some (key, s1) \<Rightarrow>
        (case skip_value s1 of
           None \<Rightarrow> None
         | Some s2 \<Rightarrow>
            (let found = (if key_matches unquote key field then Some (between s1 s2) else found);
                 s3 = skip_ws s2
             in if s3 = [] then None
                else if hd s3 = CHR '','' then
                  (let s4 = skip_ws (tl s3) in
                   if s4 \<noteq> [] \<and> hd s4 = CHR ''}'' then None
                   else scan_object_entries unquote field s4 found)
                else if hd s3 = CHR ''}'' then (if only_ws (tl s3) then found else None)
                else None)))"
  by pat_completeness auto
termination
proof (relation "measure (\<lambda>(unquote, field, s, found). length s)", goal_cases)
  case (2 unquote field s found p key s1 s2 found' s3 s4)
  then have "length s2 < length s1" "length s1 < length s" "length (tl s3) < length s2"
    using skip_value_less object_key_less skip_ws_tl_less by blast+
  moreover have "length s4 \<le> length (tl s3)" using 2 skip_ws_le [of "tl s3"] by blast
  ultimately have "length s4 < length s" by linarith
  then show ?case by simp
qed simp

declare scan_object_entries.simps [simp del]

definition extract_top_level_field ::
  "(string \<Rightarrow> string option) \<Rightarrow> string \<Rightarrow> string \<Rightarrow> string option" where
  "extract_top_level_field unquote body field =
    (let s = skip_ws body in
     if s = [] \<or> hd s \<noteq> CHR ''{'' then None
     else let s = skip_ws (tl s) in
          if s \<noteq> [] \<and> hd s = CHR ''}'' then None
          else scan_object_entries unquote field s None)"

text \<open>The value of the last entry whose key matches.\<close>

definition last_match ::
  "(string \<Rightarrow> string option) \<Rightarrow> string \<Rightarrow> string option \<Rightarrow> (string \<times> string) list \<Rightarrow> string option" where
  "last_match unquote field found es =
     fold (\<lambda>(k, v) acc. if key_matches unquote k field then Some v else acc) es found"


subsection \<open>The field of the document\<close>

lemma only_ws_iff: "only_ws s \<longleftrightarrow> ws s"
  by (simp add: only_ws_def skip_ws_def ws_def list_all_iff dropWhile_eq_Nil_conv)

lemma scan_skip_ws: "scan_object_entries unquote field (skip_ws s) found = scan_object_entries unquote field s found"
proof -
  have "object_key (skip_ws s) = object_key s" by (simp add: object_key_def)
  then show ?thesis by (subst (1 2) scan_object_entries.simps) simp
qed

lemma scan_step:
  assumes "ws w1" "json_string k" "ws w2" "ws w3" "json_value v" "ws w4" "c \<in> set '',}''"
  shows "scan_object_entries unquote field (w1 @ k @ w2 @ '':'' @ w3 @ v @ w4 @ c # r) found
    = (let found = (if key_matches unquote k field then Some v else found) in
       if c = CHR '','' then
         (if skip_ws r \<noteq> [] \<and> hd (skip_ws r) = CHR ''}'' then None
          else scan_object_entries unquote field r found)
       else if ws r then found else None)"
proof -
  have "object_key (w1 @ k @ w2 @ '':'' @ w3 @ v @ w4 @ c # r) = Some (k, v @ w4 @ c # r)"
    using object_key_complete [OF assms(1-4), of "v @ w4 @ c # r"] json_value_hd [OF assms(5)] by simp
  moreover have "skip_value (v @ w4 @ c # r) = Some (w4 @ c # r)"
    using assms(5,7) by (intro skip_value_complete follow_ws [OF assms(6)]) auto
  moreover have "skip_ws (w4 @ c # r) = c # r"
    using skip_ws_append [OF assms(6)] skip_ws_not [of "c # r"] assms(7) by (auto simp: is_ws_def)
  ultimately show ?thesis
    using assms(7) by (subst scan_object_entries.simps) (auto simp: only_ws_iff Let_def scan_skip_ws split del: if_split cong: if_cong)
qed

lemma scan_entries_complete:
  "json_members es t \<Longrightarrow>
     (\<forall>found w. ws w \<longrightarrow> scan_object_entries unquote field (t @ ''}'' @ w) found = last_match unquote field found es)"
proof (induction rule: json_value_json_members_json_elements.inducts(2)
    [where ?P1.0 = "\<lambda>t. True" and ?P3.0 = "\<lambda>t. True"])
  case (one_member w1 k w2 w3 v w4)
  then show ?case using scan_step [of w1 k w2 w3 v w4 "CHR ''}''"] by (simp add: last_match_def Let_def)
next
  case (more_members w1 k w2 w3 v w4 es t)
  have "hd (skip_ws (t @ ''}'' @ w)) = quote" for w using members_hd more_members.hyps by blast
  then show ?case
    using more_members scan_step [of w1 k w2 w3 v w4 "CHR '',''"] by (simp add: last_match_def Let_def)
qed simp_all

lemma scan_entries_sound:
  "scan_object_entries unquote field s found = Some raw \<Longrightarrow>
     \<exists>es t w. json_members es t \<and> ws w \<and> s = t @ ''}'' @ w \<and> last_match unquote field found es = Some raw"
proof (induction unquote field s found rule: scan_object_entries.induct)
  case (1 unquote field s found)
  obtain k p q where k: "object_key s = Some (k, p)" "skip_value p = Some q" "skip_ws q \<noteq> []"
    using 1(2) by (auto simp: scan_object_entries.simps [of _ _ s] Let_def split: option.splits if_splits)
  obtain w1 w2 w3 where key: "ws w1" "ws w2" "ws w3" "json_string k" "s = w1 @ k @ w2 @ '':'' @ w3 @ p"
    using object_key_sound [OF k(1)] by blast
  obtain v where v: "json_value v" "p = v @ q" using scan_sound(1) [OF k(2)] by blast
  obtain w4 where w4: "ws w4" "q = w4 @ hd (skip_ws q) # tl (skip_ws q)" using skip_ws_head [OF k(3) refl] by blast
  let ?f = "if key_matches unquote k field then Some v else found"
  let ?r = "tl (skip_ws q)"
  have s: "s = w1 @ k @ w2 @ '':'' @ w3 @ v @ w4 @ hd (skip_ws q) # ?r" using key(5) v(2) w4(2) by simp
  have b: "between p q = v" using v(2) by simp
  have "hd (skip_ws q) = CHR '','' \<or> hd (skip_ws q) = CHR ''}''"
    using 1(2) k by (auto simp: scan_object_entries.simps [of _ _ s] Let_def split: if_splits)
  then consider (c) "hd (skip_ws q) = CHR '',''" | (e) "hd (skip_ws q) = CHR ''}''" by blast
  then show ?case
  proof cases
    case c
    then have n: "\<not> (skip_ws ?r \<noteq> [] \<and> hd (skip_ws ?r) = CHR ''}'')"
        "scan_object_entries unquote field (skip_ws ?r) ?f = Some raw"
      using 1(2) k b by (auto simp: scan_object_entries.simps [of _ _ s] Let_def split: if_splits)
    obtain es t w where t: "json_members es t" "ws w" "skip_ws ?r = t @ ''}'' @ w" "last_match unquote field ?f es = Some raw"
      using 1(1) [OF k(1) refl k(2) refl refl k(3) c refl n(1)] n(2) b by auto
    obtain w0 where w0: "ws w0" "?r = w0 @ skip_ws ?r" using skip_ws_split by blast
    have m: "json_members ((k, v) # es) (w1 @ k @ w2 @ '':'' @ w3 @ v @ w4 @ '','' @ (w0 @ t))"
      by (rule more_members [OF key(1,4,2,3) v(1) w4(1) members_ws [OF t(1) w0(1)]])
    have "s = (w1 @ k @ w2 @ '':'' @ w3 @ v @ w4 @ '','' @ (w0 @ t)) @ ''}'' @ w"
      using s c w0(2) t(3) by simp
    then show ?thesis using m t(2,4) by (intro exI conjI) (auto simp: last_match_def)
  next
    case e
    have "scan_object_entries unquote field s found = (if ws ?r then ?f else None)"
      using scan_step [OF key(1,4,2,3) v(1) w4(1), of "CHR ''}''" unquote field ?r found] s e by (simp add: Let_def)
    then have "ws ?r" "?f = Some raw" using 1(2) by (auto split: if_splits)
    moreover have "json_members [(k, v)] (w1 @ k @ w2 @ '':'' @ w3 @ v @ w4)"
      by (rule one_member [OF key(1,4,2,3) v(1) w4(1)])
    moreover have "s = (w1 @ k @ w2 @ '':'' @ w3 @ v @ w4) @ ''}'' @ ?r" using s e by simp
    ultimately show ?thesis by (intro exI conjI) (auto simp: last_match_def)
  qed
qed

lemma extract_complete:
  assumes "ws w1" "json_members es t" "ws w2"
  shows "extract_top_level_field unquote (w1 @ ''{'' @ t @ ''}'' @ w2) field = last_match unquote field None es"
proof -
  have "skip_ws (w1 @ ''{'' @ t @ ''}'' @ w2) = ''{'' @ t @ ''}'' @ w2"
    using skip_ws_to [OF assms(1), of "''{'' @ t @ ''}'' @ w2" "[]"] by (simp add: is_ws_def)
  then show ?thesis
    using members_hd [OF assms(2), of "''}'' @ w2"] scan_entries_complete [OF assms(2), of unquote field] assms(3)
    by (simp add: extract_top_level_field_def Let_def scan_skip_ws)
qed

text \<open>C34: (JSON scanner) Reading one top-level field without decoding the document finds exactly
  what the grammar of RFC 8259 allows: the scan answers a text if and only if the document, up to
  white space at both ends, is one well-formed object (every nested value well formed, nothing
  after it), and the text is then the value, as written, of the last of its entries whose key
  matches. A malformed document, one with trailing garbage and one whose top level is not an object
  answer nothing.\<close>

theorem extracted_field_is_last_entry:
  "extract_top_level_field unquote body field = Some raw \<longleftrightarrow>
     (\<exists>w1 es t w2. body = w1 @ ''{'' @ t @ ''}'' @ w2 \<and> ws w1 \<and> json_members es t \<and> ws w2
        \<and> last_match unquote field None es = Some raw)"
proof
  assume x: "extract_top_level_field unquote body field = Some raw"
  let ?b = "skip_ws body"
  have b: "?b \<noteq> []" "hd ?b = CHR ''{''"
      "scan_object_entries unquote field (skip_ws (tl ?b)) None = Some raw"
    using x by (auto simp: extract_top_level_field_def Let_def split: if_splits)
  obtain w1 where w1: "ws w1" "body = w1 @ CHR ''{'' # tl ?b" using skip_ws_head [OF b(1,2)] by blast
  obtain es t w2 where t: "json_members es t" "ws w2" "tl ?b = t @ ''}'' @ w2" "last_match unquote field None es = Some raw"
    using scan_entries_sound b(3) unfolding scan_skip_ws by blast
  show "\<exists>w1 es t w2. body = w1 @ ''{'' @ t @ ''}'' @ w2 \<and> ws w1 \<and> json_members es t \<and> ws w2
        \<and> last_match unquote field None es = Some raw"
    using w1 t by (intro exI [of _ w1] exI [of _ es] exI [of _ t] exI [of _ w2]) simp
next
  assume "\<exists>w1 es t w2. body = w1 @ ''{'' @ t @ ''}'' @ w2 \<and> ws w1 \<and> json_members es t \<and> ws w2
        \<and> last_match unquote field None es = Some raw"
  then show "extract_top_level_field unquote body field = Some raw" using extract_complete by metis
qed

lemma nested_arrays: "json_value (replicate n (CHR ''['') @ ''[]'' @ replicate n (CHR '']''))"
proof (induction n)
  case 0
  show ?case using v_empty_array [of "[]"] by simp
next
  case (Suc n)
  let ?t = "replicate n (CHR ''['') @ ''[]'' @ replicate n (CHR '']'')"
  have "json_elements ?t" using one_element [of "[]" ?t "[]"] Suc by simp
  moreover have "CHR ''['' # ?t @ '']'' = replicate (Suc n) (CHR ''['') @ ''[]'' @ replicate (Suc n) (CHR '']'')"
    by (simp add: replicate_append_same)
  ultimately show ?case using v_array [of ?t] by simp
qed

text \<open>(JSON scanner) The scan sets no bound on nesting: a field whose value is \<open>n + 1\<close> arrays
  inside one another is found for every \<open>n\<close>, one call of \<^verbatim>\<open>skipValue\<close> and one of
  \<^verbatim>\<open>skipArray\<close> on the stack per level, where \<^verbatim>\<open>encoding/json\<close> refuses a document
  deeper than 10000.\<close>

theorem nesting_is_unbounded:
  "extract_top_level_field unquote
     (''{'' @ [quote, CHR ''a'', quote] @ '':'' @ (replicate n (CHR ''['') @ ''[]'' @ replicate n (CHR '']'')) @ ''}'')
     ''a'' = Some (replicate n (CHR ''['') @ ''[]'' @ replicate n (CHR '']''))"
proof -
  let ?k = "[quote, CHR ''a'', quote]" and ?v = "replicate n (CHR ''['') @ ''[]'' @ replicate n (CHR '']'')"
  have "string_chars ''a''" by (intro plain_char no_chars) simp_all
  then have "json_string ?k" by (auto simp: json_string_def)
  then have "json_members [(?k, ?v)] (?k @ '':'' @ ?v)"
    using one_member [of "[]" ?k "[]" "[]" ?v "[]"] nested_arrays [of n] by simp
  then have "extract_top_level_field unquote ([] @ ''{'' @ (?k @ '':'' @ ?v) @ ''}'' @ []) ''a''
      = last_match unquote ''a'' None [(?k, ?v)]"
    by (intro extract_complete) simp_all
  then show ?thesis by (simp add: last_match_def key_matches_def)
qed

end
