(* ===== verification/RuneWindow.thy ===== *)
theory RuneWindow
  imports Text
begin

text \<open>
  internal/stream/util.go: the sliding window of runes that the stream filter, the egress guard and
  the canary watcher keep over the text of a stream, so that what is split over two deltas is still
  seen whole. A rune is its bytes as they are written again; an invalid byte of the input is the
  rune U+FFFD.
\<close>

subsection \<open>Runes of a text\<close>

text \<open>\<^verbatim>\<open>[]rune(s)\<close>, and \<^verbatim>\<open>string(rs)\<close>.\<close>

definition text_runes :: "string \<Rightarrow> string list" where
  "text_runes s = map write_rune (runes s)"

abbreviation runes_text :: "string list \<Rightarrow> string" where
  "runes_text \<equiv> concat"

text \<open>Valid UTF-8, the only text a decoded JSON string holds.\<close>

definition valid_utf8 :: "string \<Rightarrow> bool" where
  "valid_utf8 s \<longleftrightarrow> list_all (\<lambda>r. length r = 1 \<longrightarrow> byte (hd r) < 128) (runes s)"

lemma write_rune_id: "(length r = 1 \<longrightarrow> byte (hd r) < 128) \<Longrightarrow> write_rune r = r"
  by (auto simp: write_rune_def split: list.splits)

lemma valid_text_runes: "valid_utf8 s \<Longrightarrow> text_runes s = runes s"
  by (auto simp: valid_utf8_def text_runes_def list_all_iff write_rune_id intro: map_idI)

lemma valid_runes_text: "valid_utf8 s \<Longrightarrow> runes_text (text_runes s) = s"
  by (simp add: valid_text_runes)

lemma length_text_runes [simp]: "length (text_runes s) = rune_count s"
  by (simp add: text_runes_def rune_count_def)

lemma rune_nonempty: "r \<in> set (text_runes s) \<Longrightarrow> r \<noteq> []"
  by (auto simp: text_runes_def write_rune_def dest: runes_mem(1) split: list.splits if_splits)

lemma ascii_runes: "list_all (\<lambda>c. byte c < 128) s \<Longrightarrow> text_runes s = map (\<lambda>c. [c]) s \<and> valid_utf8 s"
  by (auto simp: runes_ascii text_runes_def valid_utf8_def write_rune_def list_all_iff)

lemma ascii_rune_count: "list_all (\<lambda>c. byte c < 128) s \<Longrightarrow> rune_count s = length s"
  by (simp add: rune_count_def runes_ascii)

subsection \<open>Where a valid text splits\<close>

text \<open>\<^verbatim>\<open>utf8.RuneStart\<close>.\<close>

definition rune_start :: "char \<Rightarrow> bool" where
  "rune_start c \<longleftrightarrow> \<not> in_range 128 191 (byte c)"

definition whole_rune :: "string \<Rightarrow> bool" where
  "whole_rune r \<longleftrightarrow> r \<noteq> [] \<and> rune_width r = length r \<and> (length r = 1 \<longrightarrow> byte (hd r) < 128)"

lemma take_cases:
  "s \<noteq> [] \<Longrightarrow> (\<exists>a. s = [a]) \<or> (\<exists>a b. s = [a, b]) \<or> (\<exists>a b c. s = [a, b, c]) \<or> (\<exists>a b c d t. s = a # b # c # d # t)"
  by (metis list.exhaust)

lemma rune_width_take:
  assumes "s \<noteq> []" "rune_width s \<noteq> 1 \<or> byte (hd s) < 128"
  shows "rune_width (take (rune_width s) s @ t) = rune_width s"
proof -
  have "rune_width s \<in> {1, 2, 3, 4}" using assms(1) by (cases s) (auto simp: rune_width_def Let_def)
  then show ?thesis using take_cases [OF assms(1)] assms(2)
    by (elim disjE exE insertE)
      (auto simp: rune_width_def Let_def in_range_def split: if_splits)
qed

lemma valid_utf8_Nil [simp]: "valid_utf8 []"
  by (simp add: valid_utf8_def)

lemma valid_first_rune:
  assumes "valid_utf8 s" "s \<noteq> []"
  shows "rune_width s \<noteq> 1 \<or> byte (hd s) < 128" "valid_utf8 (drop (rune_width s) s)"
    "runes (take (rune_width s) s @ t) = take (rune_width s) s # runes t"
proof -
  let ?w = "rune_width s"
  have r: "runes s = take ?w s # runes (drop ?w s)" using assms(2) by (simp add: runes.simps [of s])
  have l: "length (take ?w s) = ?w" "0 < ?w" using rune_width_le [of s] rune_width_pos [OF assms(2)] by simp_all
  show one: "?w \<noteq> 1 \<or> byte (hd s) < 128" using assms l(1) unfolding valid_utf8_def r by (cases s) auto
  show "valid_utf8 (drop ?w s)" using assms(1) unfolding valid_utf8_def r by simp
  have "rune_width (take ?w s @ t) = ?w" by (rule rune_width_take [OF assms(2) one])
  moreover have "take ?w s @ t \<noteq> []" using l assms(2) by auto
  ultimately show "runes (take ?w s @ t) = take ?w s # runes t"
    using l(1) by (subst runes.simps) simp
qed

lemma runes_append: "valid_utf8 a \<Longrightarrow> runes (a @ b) = runes a @ runes b"
proof (induction a rule: runes.induct)
  case (1 a)
  show ?case
  proof (cases "a = []")
    case False
    let ?w = "rune_width a"
    note f = valid_first_rune [OF 1(2) False]
    have "runes (a @ b) = runes (take ?w a @ (drop ?w a @ b))" by (metis append.assoc append_take_drop_id)
    also have "\<dots> = take ?w a # runes (drop ?w a @ b)" by (rule f(3))
    also have "\<dots> = (take ?w a # runes (drop ?w a)) @ runes b" using 1(1) [OF False f(2)] by simp
    also have "take ?w a # runes (drop ?w a) = runes a" using False by (simp add: runes.simps [of a])
    finally show ?thesis .
  qed simp
qed

lemma valid_append: "valid_utf8 a \<Longrightarrow> valid_utf8 (a @ b) \<longleftrightarrow> valid_utf8 b"
  by (simp add: valid_utf8_def runes_append)

lemma text_runes_append: "valid_utf8 a \<Longrightarrow> text_runes (a @ b) = text_runes a @ text_runes b"
  by (simp add: text_runes_def runes_append)

lemma rune_tail:
  assumes "i < rune_width s" "0 < i"
  shows "\<not> rune_start (s ! i)"
proof -
  have "s \<noteq> []" using assms by (auto simp: rune_width_def)
  show ?thesis using take_cases [OF \<open>s \<noteq> []\<close>] assms
    by (elim disjE exE) (auto simp: rune_width_def rune_start_def Let_def in_range_def nth_Cons' split: if_splits)+
qed

lemma valid_take:
  "valid_utf8 s \<Longrightarrow> i < length s \<Longrightarrow> rune_start (s ! i) \<Longrightarrow> valid_utf8 (take i s)"
proof (induction s arbitrary: i rule: runes.induct)
  case (1 s)
  let ?w = "rune_width s"
  have ne: "s \<noteq> []" using 1(3) by auto
  note f = valid_first_rune [OF 1(2) ne]
  consider "i = 0" | "?w \<le> i" using rune_tail [of i s] 1(4) by (cases "i < ?w") auto
  then show ?case
  proof cases
    case 2
    have "valid_utf8 (take (i - ?w) (drop ?w s))" using 1(1) [OF ne f(2), of "i - ?w"] 1(3,4) 2 by simp
    moreover have "take i s = take ?w s @ take (i - ?w) (drop ?w s)" using 2 by (metis le_add_diff_inverse take_add)
    moreover have "valid_utf8 (take ?w s)"
      using f(3) [of "[]"] f(1) ne rune_width_le [of s] by (cases s) (auto simp: valid_utf8_def)
    ultimately show ?thesis by (simp add: valid_append)
  qed simp
qed

lemma ascii_starts: "byte c < 128 \<Longrightarrow> rune_start c"
  by (simp add: rune_start_def in_range_def)

lemma valid_ascii: "list_all (\<lambda>c. byte c < 128) s \<Longrightarrow> valid_utf8 s"
  using ascii_runes by blast

text \<open>A valid text splits before and after every ASCII byte.\<close>

lemma valid_split_ascii:
  assumes "valid_utf8 (x @ c # y)" "byte c < 128"
  shows "valid_utf8 (x @ [c])" "valid_utf8 y"
proof -
  have x: "valid_utf8 x" using valid_take [OF assms(1), of "length x"] ascii_starts [OF assms(2)] by simp
  then have "valid_utf8 ([c] @ y)" using assms(1) valid_append by fastforce
  moreover have "valid_utf8 [c]" using assms(2) by (intro valid_ascii) simp
  ultimately show "valid_utf8 (x @ [c])" "valid_utf8 y" using valid_append [OF x] valid_append [of "[c]" y] by blast+
qed

lemma valid_drop: "valid_utf8 s \<Longrightarrow> valid_utf8 (take i s) \<Longrightarrow> valid_utf8 (drop i s)"
  by (metis append_take_drop_id valid_append)

subsection \<open>The window\<close>

definition append_rune_window :: "string list \<Rightarrow> nat \<Rightarrow> nat \<Rightarrow> string \<Rightarrow> string list \<times> nat" where
  "append_rune_window window window_len max_size s =
    (let rs = text_runes s;
         total = window_len + length rs
     in if total \<le> max_size then (window @ rs, total)
        else
          (let n = total - max_size;
               window = (if n \<ge> window_len then [] else drop n window);
               window = window @ rs;
               window = (if length window > max_size then drop (length window - max_size) window else window)
           in (window, length window)))"

text \<open>The last \<open>n\<close> elements.\<close>

definition last_n :: "nat \<Rightarrow> 'a list \<Rightarrow> 'a list" where
  "last_n n xs = drop (length xs - n) xs"

lemma length_last_n [simp]: "length (last_n n xs) = min n (length xs)"
  by (simp add: last_n_def)

lemma last_n_all: "length xs \<le> n \<Longrightarrow> last_n n xs = xs"
  by (simp add: last_n_def)

lemma last_n_append: "last_n n (last_n n xs @ ys) = last_n n (xs @ ys)"
proof -
  let ?k = "length xs - n"
  have "last_n n xs @ ys = drop ?k (xs @ ys)" by (simp add: last_n_def)
  then have "last_n n (last_n n xs @ ys) = drop (length (xs @ ys) - ?k - n + ?k) (xs @ ys)"
    by (simp only: last_n_def [of n "drop ?k (xs @ ys)"] drop_drop length_drop)
  also have "length (xs @ ys) - ?k - n + ?k = length (xs @ ys) - n" by (cases "n \<le> length xs") simp_all
  finally show ?thesis by (simp add: last_n_def)
qed

lemma suffix_last_n: "suffix (last_n n xs) xs"
  by (simp add: last_n_def suffix_drop)

lemma last_n_short: "length ys \<le> n \<Longrightarrow> suffix ys (last_n n (xs @ ys))"
  by (simp add: last_n_def suffix_def drop_append) 

text \<open>What every use of the window relies on: it is the end of everything appended so far, and the
  length kept beside it is its length.\<close>

lemma append_rune_window_last:
  assumes "length window \<le> max_size" "window_len = length window"
  shows "append_rune_window window window_len max_size s
    = (last_n max_size (window @ text_runes s), length (last_n max_size (window @ text_runes s)))"
proof (cases "length window + rune_count s \<le> max_size")
  case True
  then show ?thesis using assms by (simp add: append_rune_window_def last_n_all)
next
  case False
  show ?thesis
  proof (cases "max_size < rune_count s")
    case True
    then show ?thesis using False assms
      by (auto simp: append_rune_window_def Let_def last_n_def)
  next
    case fits: False
    then show ?thesis using False assms
      by (auto simp: append_rune_window_def Let_def last_n_def)
  qed
qed

text \<open>The contract of the window for a component that appends one delta after another.\<close>

locale rune_window =
  fixes app :: "'w \<Rightarrow> string \<Rightarrow> 'w" and seen :: "'w \<Rightarrow> string list" and cap :: nat and ok :: "'w \<Rightarrow> bool"
  assumes app_ok: "ok w \<Longrightarrow> ok (app w s)"
    and app_seen: "ok w \<Longrightarrow> seen (app w s) = last_n cap (seen w @ text_runes s)"
begin

lemma seen_run:
  assumes "ok w" "seen w = last_n cap rs"
  shows "ok (foldl app w ss) \<and> seen (foldl app w ss) = last_n cap (rs @ concat (map text_runes ss))"
  using assms
proof (induction ss arbitrary: w rs)
  case (Cons s ss)
  have "seen (app w s) = last_n cap (rs @ text_runes s)"
    using Cons.prems app_seen [of w s] last_n_append [of cap rs] by simp
  then show ?case using Cons.IH [of "app w s" "rs @ text_runes s"] Cons.prems app_ok by simp
qed simp

lemma seen_bounded: "ok w \<Longrightarrow> length (seen (app w s)) \<le> cap"
  by (simp add: app_seen)

end

interpretation rw: rune_window "\<lambda>(w, n). append_rune_window w n cap" fst cap
    "\<lambda>(w, n). length w \<le> cap \<and> n = length w"
  for cap
  by unfold_locales (auto simp: append_rune_window_last)

end
