(* ===== verification/TextSpans.thy ===== *)
theory TextSpans
  imports Prelude
begin

text \<open>
  The spans of a text that a filter replaces by a label: \<^verbatim>\<open>windowSpan\<close> and the two splicing loops,
  of \<^verbatim>\<open>redactFromWindow\<close> (internal/stream/filter.go) and \<^verbatim>\<open>spliceSpans\<close>
  (internal/stream/exfil.go). A span is its start and end as byte offsets.
\<close>

type_synonym span = "nat \<times> nat"

text \<open>\<^verbatim>\<open>content[a:b]\<close>.\<close>

definition slice :: "nat \<Rightarrow> nat \<Rightarrow> string \<Rightarrow> string" where
  "slice a b s = drop a (take b s)"

fun redact_splice :: "string \<Rightarrow> string \<Rightarrow> nat \<Rightarrow> span list \<Rightarrow> string" where
  "redact_splice content label pos [] = (if pos < length content then drop pos content else [])"
| "redact_splice content label pos ((s, e) # spans) =
    (if s < pos then redact_splice content label (if e > pos then e else pos) spans
     else (if s > pos then slice pos s content else []) @ label @ redact_splice content label e spans)"

fun splice_loop :: "string \<Rightarrow> string \<Rightarrow> nat \<Rightarrow> span list \<Rightarrow> string" where
  "splice_loop content label pos [] = (if pos < length content then drop pos content else [])"
| "splice_loop content label pos ((s, e) # spans) =
    (if e \<le> pos then splice_loop content label pos spans
     else (if s > pos then slice pos s content else []) @ label @ splice_loop content label e spans)"

definition splice_spans :: "string \<Rightarrow> span list \<Rightarrow> string \<Rightarrow> string" where
  "splice_spans content spans placeholder = splice_loop content placeholder 0 spans"

text \<open>\<^verbatim>\<open>sort.SliceStable\<close> by the start of a span.\<close>

definition sort_spans :: "span list \<Rightarrow> span list" where
  "sort_spans = sort_key fst"

subsection \<open>What is left of the text\<close>

definition covered :: "span list \<Rightarrow> nat \<Rightarrow> bool" where
  "covered spans i \<longleftrightarrow> (\<exists>(s, e) \<in> set spans. s \<le> i \<and> i < e)"

definition uncovered_from :: "nat \<Rightarrow> string \<Rightarrow> span list \<Rightarrow> string" where
  "uncovered_from pos content spans =
     map (\<lambda>i. content ! i) (filter (\<lambda>i. \<not> covered spans i) [pos..<length content])"

text \<open>The characters of a text outside every span, in order.\<close>

definition uncovered :: "string \<Rightarrow> span list \<Rightarrow> string" where
  "uncovered = uncovered_from 0"

text \<open>A text is \<open>kept\<close> with labels put in at some places.\<close>

definition labelled :: "string \<Rightarrow> string \<Rightarrow> string \<Rightarrow> bool" where
  "labelled label kept s \<longleftrightarrow> (\<exists>ps. s = concat (map (case_option label id) ps) \<and> kept = concat (map (case_option [] id) ps))"

lemma labelled_refl: "labelled label s s"
  unfolding labelled_def by (rule exI [of _ "[Some s]"]) simp

lemma labelled_text: "labelled label kept s \<Longrightarrow> labelled label (t @ kept) (t @ s)"
  unfolding labelled_def
proof (elim exE conjE)
  fix ps assume "s = concat (map (case_option label id) ps)" "kept = concat (map (case_option [] id) ps)"
  then show "\<exists>ps. t @ s = concat (map (case_option label id) ps) \<and> t @ kept = concat (map (case_option [] id) ps)"
    by (intro exI [of _ "Some t # ps"]) simp
qed

lemma labelled_label: "labelled label kept s \<Longrightarrow> labelled label kept (label @ s)"
  unfolding labelled_def
proof (elim exE conjE)
  fix ps assume "s = concat (map (case_option label id) ps)" "kept = concat (map (case_option [] id) ps)"
  then show "\<exists>ps. label @ s = concat (map (case_option label id) ps) \<and> kept = concat (map (case_option [] id) ps)"
    by (intro exI [of _ "None # ps"]) simp
qed

lemma uncovered_Nil: "uncovered_from pos content [] = drop pos content"
  by (rule nth_equalityI) (simp_all add: uncovered_from_def covered_def)

lemma uncovered_skip:
  assumes "\<And>i. pos \<le> i \<Longrightarrow> i < m \<Longrightarrow> covered spans i" "pos \<le> m"
  shows "uncovered_from pos content spans = uncovered_from m content spans"
proof (cases "m \<le> length content")
  case True
  then have "[pos..<length content] = [pos..<m] @ [m..<length content]"
    using assms(2) by (metis le_iff_add upt_add_eq_append)
  then show ?thesis using assms(1) by (simp add: uncovered_from_def filter_False)
next
  case False
  have "filter (\<lambda>i. \<not> covered spans i) [pos..<length content] = []" using assms(1) False by (auto simp: filter_empty_conv)
  then show ?thesis using False by (simp add: uncovered_from_def)
qed

lemma uncovered_take:
  assumes "\<And>i. pos \<le> i \<Longrightarrow> i < m \<Longrightarrow> \<not> covered spans i" "pos \<le> m" "m \<le> length content"
  shows "uncovered_from pos content spans = slice pos m content @ uncovered_from m content spans"
proof -
  have u: "[pos..<length content] = [pos..<m] @ [m..<length content]"
    using assms(2,3) by (metis le_iff_add upt_add_eq_append)
  have "filter (\<lambda>i. \<not> covered spans i) [pos..<m] = [pos..<m]" using assms(1) by (simp add: filter_id_conv)
  moreover have "map (\<lambda>i. content ! i) [pos..<m] = slice pos m content"
    using assms(2,3) by (intro nth_equalityI) (simp_all add: slice_def)
  ultimately show ?thesis by (simp add: uncovered_from_def u)
qed

lemma uncovered_Cons:
  assumes "\<And>i. pos \<le> i \<Longrightarrow> \<not> (s \<le> i \<and> i < e)"
  shows "uncovered_from pos content ((s, e) # spans) = uncovered_from pos content spans"
  unfolding uncovered_from_def
  by (rule arg_cong [where f = "map _"], rule filter_cong) (use assms in \<open>auto simp: covered_def\<close>)

definition spans_ok :: "nat \<Rightarrow> span list \<Rightarrow> bool" where
  "spans_ok n spans \<longleftrightarrow> sorted (map fst spans) \<and> (\<forall>(s, e) \<in> set spans. s < e \<and> e \<le> n)"

lemma spans_ok_Cons:
  assumes "spans_ok n ((s, e) # spans)"
  shows "spans_ok n spans" "s < e" "e \<le> n" "\<And>i. i < s \<Longrightarrow> \<not> covered ((s, e) # spans) i"
  using assms by (fastforce simp: spans_ok_def covered_def)+

text \<open>A span that starts at or after \<open>pos\<close>: the text up to it, then what follows it.\<close>

lemma uncovered_next:
  assumes "spans_ok (length content) ((s, e) # spans)" "pos \<le> s"
  shows "uncovered_from pos content ((s, e) # spans) = slice pos s content @ uncovered_from e content spans"
proof -
  note ok = spans_ok_Cons [OF assms(1)]
  have "uncovered_from pos content ((s, e) # spans) = slice pos s content @ uncovered_from s content ((s, e) # spans)"
    using ok assms(2) by (intro uncovered_take) auto
  also have "uncovered_from s content ((s, e) # spans) = uncovered_from e content ((s, e) # spans)"
    using ok by (intro uncovered_skip) (auto simp: covered_def)
  also have "\<dots> = uncovered_from e content spans" by (intro uncovered_Cons) auto
  finally show ?thesis .
qed

lemma uncovered_behind:
  assumes "s \<le> pos"
  shows "uncovered_from pos content ((s, e) # spans) = uncovered_from (max pos e) content spans"
proof -
  have "uncovered_from pos content ((s, e) # spans) = uncovered_from (max pos e) content ((s, e) # spans)"
    using assms by (intro uncovered_skip) (auto simp: covered_def)
  also have "\<dots> = uncovered_from (max pos e) content spans" by (intro uncovered_Cons) auto
  finally show ?thesis .
qed

lemma redact_labelled:
  "spans_ok (length content) spans \<Longrightarrow>
     labelled label (uncovered_from pos content spans) (redact_splice content label pos spans)"
proof (induction content label pos spans rule: redact_splice.induct)
  case (1 content label pos)
  then show ?case using labelled_refl by (simp add: uncovered_Nil)
next
  case (2 content label pos s e spans)
  note ok = spans_ok_Cons [OF 2(3)]
  show ?case
  proof (cases "s < pos")
    case True
    moreover have "(if e > pos then e else pos) = max pos e" by auto
    ultimately show ?thesis using 2(1) [OF True ok(1)] uncovered_behind [of s pos content e spans]
      by (simp del: max_def)
  next
    case False
    have "(if s > pos then slice pos s content else []) = slice pos s content" using False by (auto simp: slice_def)
    then show ?thesis
      using 2(2) [OF False ok(1)] uncovered_next [OF 2(3), of pos] False labelled_text labelled_label by simp
  qed
qed

lemma splice_labelled:
  "spans_ok (length content) spans \<Longrightarrow>
     labelled label (uncovered_from pos content spans) (splice_loop content label pos spans)"
proof (induction content label pos spans rule: splice_loop.induct)
  case (1 content label pos)
  then show ?case using labelled_refl by (simp add: uncovered_Nil)
next
  case (2 content label pos s e spans)
  note ok = spans_ok_Cons [OF 2(3)]
  show ?case
  proof (cases "e \<le> pos")
    case True
    then have "uncovered_from pos content ((s, e) # spans) = uncovered_from pos content spans"
      by (intro uncovered_Cons) auto
    then show ?thesis using 2(1) [OF True ok(1)] True by simp
  next
    case False
    note IH = 2(2) [OF False ok(1)]
    show ?thesis
    proof (cases "s > pos")
      case True
      then show ?thesis using IH False uncovered_next [OF 2(3), of pos] labelled_text labelled_label by simp
    next
      case behind: False
      then show ?thesis using IH False uncovered_behind [of s pos content e spans] labelled_label
        by (simp add: max_def not_le)
    qed
  qed
qed

lemma sort_spans_ok:
  "\<forall>(s, e) \<in> set spans. s < e \<and> e \<le> n \<Longrightarrow> spans_ok n (sort_spans spans)"
  by (simp add: spans_ok_def sort_spans_def)

lemma covered_sort [simp]: "covered (sort_spans spans) = covered spans"
  by (rule ext) (simp add: covered_def sort_spans_def)

end
