(* ===== verification/Redaction.thy ===== *)
theory Redaction
  imports RuneWindow TextSpans
begin

text \<open>
  internal/pipeline/checksum.go and filter.go: the checksums that gate a secret pattern, the
  replacement of the matches of a pattern, and middle-out truncation. A compiled pattern is its
  source, the list of its matches in a text (as \<^verbatim>\<open>FindAllStringIndex\<close> gives them) and the expansion
  of a replacement template at a match; the engine itself is an argument. Percentages are exact
  rationals.
\<close>

subsection \<open>Patterns\<close>

record regexp =
  re_source :: string
  re_find_all :: "string \<Rightarrow> span list"
  re_expand :: "string \<Rightarrow> span \<Rightarrow> string \<Rightarrow> string"

definition re_match :: "regexp \<Rightarrow> string \<Rightarrow> bool" where
  "re_match re s \<longleftrightarrow> re_find_all re s \<noteq> []"

text \<open>The matches replaced one by one, left to right: \<^verbatim>\<open>ReplaceAllStringFunc\<close>, and with the
  expanded template \<^verbatim>\<open>ReplaceAllString\<close>.\<close>

fun replace_matches :: "string \<Rightarrow> (span \<Rightarrow> string) \<Rightarrow> nat \<Rightarrow> span list \<Rightarrow> string" where
  "replace_matches s f pos [] = drop pos s"
| "replace_matches s f pos ((a, b) # ms) = slice pos a s @ f (a, b) @ replace_matches s f b ms"

definition replace_all_string :: "regexp \<Rightarrow> string \<Rightarrow> string \<Rightarrow> string" where
  "replace_all_string re s label = replace_matches s (\<lambda>m. re_expand re s m label) 0 (re_find_all re s)"

definition replace_all_string_func :: "regexp \<Rightarrow> string \<Rightarrow> (string \<Rightarrow> string) \<Rightarrow> string" where
  "replace_all_string_func re s f = replace_matches s (\<lambda>(a, b). f (slice a b s)) 0 (re_find_all re s)"

subsection \<open>Checksums\<close>

definition ascii_digit :: "char \<Rightarrow> bool" where
  "ascii_digit c = in_range 48 57 (byte c)"

definition digits_of :: "string \<Rightarrow> nat list" where
  "digits_of s = map (\<lambda>c. byte c - 48) (filter ascii_digit s)"

definition all_same_digit :: "nat list \<Rightarrow> bool" where
  "all_same_digit d \<longleftrightarrow> d \<noteq> [] \<and> list_all (\<lambda>v. v = d ! 0) d"

text \<open>One digit of the Luhn sum, \<open>k\<close> places from the right.\<close>

definition luhn_term :: "nat \<Rightarrow> nat \<Rightarrow> nat" where
  "luhn_term k v = (if k mod 2 = 1 then (if 2 * v > 9 then 2 * v - 9 else 2 * v) else v)"

definition luhn_sum :: "nat list \<Rightarrow> nat" where
  "luhn_sum d = (\<Sum>i\<leftarrow>[0..<length d]. luhn_term (length d - 1 - i) (d ! i))"

definition luhn_valid :: "string \<Rightarrow> bool" where
  "luhn_valid s =
    (let d = digits_of s in
     if length d < 13 \<or> length d > 19 \<or> all_same_digit d then False else luhn_sum d mod 10 = 0)"

text \<open>The loop over the rearranged text; \<open>None\<close> is the early return on another character.\<close>

fun iban_loop :: "string \<Rightarrow> nat \<Rightarrow> nat option" where
  "iban_loop [] remainder = Some remainder"
| "iban_loop (c # s) remainder =
    (if in_range 48 57 (byte c) then iban_loop s ((remainder * 10 + (byte c - 48)) mod 97)
     else if in_range 65 90 (byte c) then
       (let val = byte c - 65 + 10 in
        iban_loop s (if val < 10 then (remainder * 10 + val) mod 97 else (remainder * 100 + val) mod 97))
     else None)"

text \<open>\<^verbatim>\<open>strings.ToUpper\<close> is an argument; the preset pattern only matches ASCII.\<close>

definition iban_mod97_valid :: "(string \<Rightarrow> string) \<Rightarrow> string \<Rightarrow> bool" where
  "iban_mod97_valid to_upper s =
    (let s = to_upper (filter (\<lambda>c. c \<noteq> CHR '' '') s) in
     if length s < 15 \<or> length s > 34 then False
     else iban_loop (drop 4 s @ take 4 s) 0 = Some 1)"

text \<open>The weighted sum of the first \<open>length ws\<close> digits and the check digit it gives.\<close>

definition check_digit :: "nat list \<Rightarrow> nat list \<Rightarrow> nat" where
  "check_digit ws d =
    (let sum = (\<Sum>(i, w)\<leftarrow>enumerate 0 ws. d ! i * w); dv = 11 - sum mod 11
     in if dv \<ge> 10 then 0 else dv)"

definition cpf_valid :: "string \<Rightarrow> bool" where
  "cpf_valid s =
    (let d = digits_of s in
     if length d \<noteq> 11 \<or> all_same_digit d then False
     else if check_digit (map (\<lambda>i. 10 - i) [0..<9]) d \<noteq> d ! 9 then False
     else check_digit (map (\<lambda>i. 11 - i) [0..<10]) d = d ! 10)"

definition cnpj_valid :: "string \<Rightarrow> bool" where
  "cnpj_valid s =
    (let d = digits_of s;
         weights1 = [5, 4, 3, 2, 9, 8, 7, 6, 5, 4, 3, 2];
         weights2 = [6, 5, 4, 3, 2, 9, 8, 7, 6, 5, 4, 3, 2]
     in if length d \<noteq> 14 \<or> all_same_digit d then False
        else if check_digit weights1 d \<noteq> d ! 12 then False
        else check_digit weights2 d = d ! 13)"

definition financial_card_pattern :: string where
  "financial_card_pattern = CHR 0x5C # ''b'' @ CHR 0x5C # ''d(?:[ -]?'' @ CHR 0x5C # ''d){12,18}'' @ CHR 0x5C # ''b''"

definition financial_iban_pattern :: string where
  "financial_iban_pattern = ''(?i)'' @ CHR 0x5C # ''b[A-Z]{2}'' @ CHR 0x5C # ''d{2}(?: ?[A-Z0-9]{4}){2,7}(?: ?[A-Z0-9]{1,4})?'' @ CHR 0x5C # ''b''"

definition financial_cpf_pattern :: string where
  "financial_cpf_pattern = CHR 0x5C # ''b'' @ CHR 0x5C # ''d{3}'' @ CHR 0x5C # ''.'' @ CHR 0x5C # ''d{3}'' @ CHR 0x5C # ''.''
     @ CHR 0x5C # ''d{3}-'' @ CHR 0x5C # ''d{2}'' @ CHR 0x5C # ''b''"

definition financial_cnpj_pattern :: string where
  "financial_cnpj_pattern = CHR 0x5C # ''b'' @ CHR 0x5C # ''d{2}'' @ CHR 0x5C # ''.'' @ CHR 0x5C # ''d{3}'' @ CHR 0x5C # ''.''
     @ CHR 0x5C # ''d{3}/'' @ CHR 0x5C # ''d{4}-'' @ CHR 0x5C # ''d{2}'' @ CHR 0x5C # ''b''"

definition match_validators :: "(string \<Rightarrow> string) \<Rightarrow> (string, string \<Rightarrow> bool) gomap" where
  "match_validators to_upper =
    [(financial_card_pattern, luhn_valid), (financial_iban_pattern, iban_mod97_valid to_upper),
     (financial_cpf_pattern, cpf_valid), (financial_cnpj_pattern, cnpj_valid)]"

definition match_validator :: "(string \<Rightarrow> string) \<Rightarrow> string \<Rightarrow> (string \<Rightarrow> bool) option" where
  "match_validator to_upper pattern_source = map_of (match_validators to_upper) pattern_source"

definition replace_validated :: "(string \<Rightarrow> string) \<Rightarrow> regexp \<Rightarrow> string \<Rightarrow> string \<Rightarrow> string" where
  "replace_validated to_upper re s label =
    (case map_of (match_validators to_upper) (re_source re) of
       None \<Rightarrow> replace_all_string re s label
     | Some validate \<Rightarrow> replace_all_string_func re s (\<lambda>m. if validate m then label else m))"

definition redact_secrets :: "(string \<Rightarrow> string) \<Rightarrow> string \<Rightarrow> bool \<Rightarrow> regexp list \<Rightarrow> string \<Rightarrow> string" where
  "redact_secrets to_upper s enabled patterns label =
    (if \<not> enabled \<or> patterns = [] then s
     else foldl (\<lambda>s re. replace_validated to_upper re s label) s patterns)"

subsection \<open>Middle-out truncation\<close>

record context_config =
  truncation_keep_first_pct :: rat
  truncation_keep_last_pct :: rat

definition newline :: char where "newline = CHR 0x0A"

definition truncation_marker :: string where
  "truncation_marker = newline # ''... [NENYA: MASSIVE PAYLOAD TRUNCATED] ...'' @ [newline]"

definition truncation_splits :: "int \<Rightarrow> rat \<Rightarrow> rat \<Rightarrow> int \<times> int" where
  "truncation_splits available first_pct last_pct =
    (let first_pct = (if first_pct < 0 then 0 else first_pct);
         last_pct = (if last_pct < 0 then 0 else last_pct);
         keep_first = \<lfloor>rat_of_int available * first_pct / 100\<rfloor>;
         keep_last = \<lfloor>rat_of_int available * last_pct / 100\<rfloor>;
         (keep_first, keep_last) =
           (if keep_first > available - keep_last then
              (let total = rat_of_int keep_first + rat_of_int keep_last;
                   keep_first = \<lfloor>rat_of_int keep_first / total * rat_of_int available\<rfloor>
               in (keep_first, available - keep_first))
            else (keep_first, keep_last))
     in if keep_first = 0 \<and> keep_last > 0 then (1, available - 1)
        else if keep_last = 0 \<and> keep_first > 0 then (available - 1, 1)
        else if keep_first = 0 \<and> keep_last = 0 \<and> available > 0 then (1, available - 1)
        else (keep_first, keep_last))"

text \<open>The kept head, the marker and the kept tail: \<^verbatim>\<open>runes[:keepFirst]\<close>, \<^verbatim>\<open>runes[len(runes)-keepLast:]\<close>.\<close>

definition join_kept :: "string list \<Rightarrow> int \<times> int \<Rightarrow> string" where
  "join_kept rs k =
     runes_text (take (nat (fst k)) rs @ text_runes truncation_marker @ drop (nat (int (length rs) - snd k)) rs)"

definition truncate_middle_out :: "string \<Rightarrow> int \<Rightarrow> context_config \<Rightarrow> string" where
  "truncate_middle_out s max_size cfg =
    (if max_size < 0 then []
     else if int (rune_count s) \<le> max_size then s
     else
       let rs = text_runes s;
           separator_runes = text_runes truncation_marker;
           available = max_size - int (length separator_runes)
       in if available \<le> 0 then runes_text (take (nat max_size) separator_runes)
          else join_kept rs (truncation_splits available (truncation_keep_first_pct cfg) (truncation_keep_last_pct cfg)))"

definition last_index :: "string \<Rightarrow> string \<Rightarrow> nat option" where
  "last_index s p = map_option (\<lambda>i. length s - length p - i) (str_index (rev s) (rev p))"

definition truncate_middle_out_code_aware :: "string \<Rightarrow> int \<Rightarrow> context_config \<Rightarrow> string" where
  "truncate_middle_out_code_aware s max_size cfg =
    (if int (rune_count s) \<le> max_size then s
     else
       let result = truncate_middle_out s max_size cfg
       in case str_index result truncation_marker of
            None \<Rightarrow> result
          | Some i \<Rightarrow>
             (let before = take i result;
                  after = drop (i + length truncation_marker) result;
                  before = (case last_index before [newline, newline] of
                              Some j \<Rightarrow> if j > 0 then take (j + 2) before else before
                            | None \<Rightarrow> before);
                  after = (case str_index after [newline, newline] of
                              Some j \<Rightarrow> if j > 0 then drop j after else after
                            | None \<Rightarrow> after)
              in before @ truncation_marker @ after))"

definition max_int :: int where "max_int = 2 ^ 63 - 1"

definition truncate_middle_out_by_tokens :: "string \<Rightarrow> int \<Rightarrow> int \<Rightarrow> context_config \<Rightarrow> string" where
  "truncate_middle_out_by_tokens s max_tokens cur_tokens cfg =
    (if cur_tokens \<le> max_tokens then s
     else if max_tokens \<le> 0 then []
     else
       let max_tokens = (if max_tokens > max_int div 3 then max_int div 3 else max_tokens);
           separator_runes = text_runes truncation_marker;
           separator_len = int (length separator_runes);
           available_runes = max_tokens * 3
       in if int (rune_count s) + separator_len \<le> available_runes then s
          else if available_runes \<le> separator_len then runes_text (take (nat available_runes) separator_runes)
          else join_kept (text_runes s)
            (truncation_splits (available_runes - separator_len) (truncation_keep_first_pct cfg) (truncation_keep_last_pct cfg)))"

subsection \<open>Entropy\<close>

text \<open>\<^verbatim>\<open>ShannonEntropy\<close>, in bits per rune, over the reals.\<close>

definition rune_frequencies :: "string \<Rightarrow> nat list" where
  "rune_frequencies token = sort (map (count_list (text_runes token)) (remdups (text_runes token)))"

definition shannon_entropy :: "string \<Rightarrow> real" where
  "shannon_entropy token =
    (if token = [] then 0
     else
       let total = rune_count token
       in if total = 0 then 0
          else foldl (\<lambda>entropy n. entropy - real n / real total * log 2 (real n / real total)) 0 (rune_frequencies token))"

subsection \<open>Truncation fits\<close>

lemma scaled_floor:
  assumes "0 \<le> k" "k \<le> t" "0 < t" "0 \<le> (a :: int)"
  shows "0 \<le> \<lfloor>rat_of_int k / rat_of_int t * rat_of_int a\<rfloor>" "\<lfloor>rat_of_int k / rat_of_int t * rat_of_int a\<rfloor> \<le> a"
proof -
  have q: "0 \<le> rat_of_int k / rat_of_int t" "rat_of_int k / rat_of_int t \<le> 1" using assms by simp_all
  then have "rat_of_int k / rat_of_int t * rat_of_int a \<le> 1 * rat_of_int a"
    using assms(4) by (intro mult_right_mono) simp_all
  then show "\<lfloor>rat_of_int k / rat_of_int t * rat_of_int a\<rfloor> \<le> a" by (simp add: floor_le_iff)
  show "0 \<le> \<lfloor>rat_of_int k / rat_of_int t * rat_of_int a\<rfloor>"
    using mult_nonneg_nonneg [OF q(1), of "rat_of_int a"] assms(4) by (simp only: zero_le_floor of_int_0_le_iff)
qed

lemma truncation_splits_bounds:
  assumes "0 < available" "truncation_splits available fp lp = (kf, kl)"
  shows "0 \<le> kf" "0 \<le> kl" "kf + kl \<le> available"
proof -
  define kf0 where "kf0 = \<lfloor>rat_of_int available * (if fp < 0 then 0 else fp) / 100\<rfloor>"
  define kl0 where "kl0 = \<lfloor>rat_of_int available * (if lp < 0 then 0 else lp) / 100\<rfloor>"
  define kf1 where "kf1 = \<lfloor>rat_of_int kf0 / rat_of_int (kf0 + kl0) * rat_of_int available\<rfloor>"
  have n: "0 \<le> kf0" "0 \<le> kl0" unfolding kf0_def kl0_def using assms(1) by simp_all
  obtain a b where ab: "(a, b) = (if kf0 > available - kl0 then (kf1, available - kf1) else (kf0, kl0))" by metis
  have "0 \<le> a \<and> 0 \<le> b \<and> a + b \<le> available"
  proof (cases "kf0 > available - kl0")
    case True
    then have "0 \<le> kf1" "kf1 \<le> available"
      unfolding kf1_def using n assms(1) scaled_floor [of kf0 "kf0 + kl0" available] by simp_all
    then show ?thesis using ab True by simp
  qed (use ab n in simp)
  moreover have "(kf, kl) = (if a = 0 \<and> b > 0 then (1, available - 1) else if b = 0 \<and> a > 0 then (available - 1, 1)
      else if a = 0 \<and> b = 0 \<and> available > 0 then (1, available - 1) else (a, b))"
    using assms ab unfolding truncation_splits_def Let_def kf0_def [symmetric] kl0_def [symmetric]
    by (simp add: kf1_def split: prod.splits if_splits)
  ultimately show "0 \<le> kf" "0 \<le> kl" "kf + kl \<le> available"
    using assms(1) by (auto split: if_splits)
qed

text \<open>A list of whole runes is what its text decodes to.\<close>

lemma whole_first: "q \<in> set (runes s) \<Longrightarrow> length q \<noteq> 1 \<or> byte (hd q) < 128 \<Longrightarrow> whole_rune q"
proof (induction s rule: runes.induct)
  case (1 s)
  show ?case
  proof (cases "s = []")
    case False
    have r: "runes s = take (rune_width s) s # runes (drop (rune_width s) s)" using False by (simp add: runes.simps [of s])
    have l: "length (take (rune_width s) s) = rune_width s" using rune_width_le [of s] by simp
    show ?thesis
    proof (cases "q = take (rune_width s) s")
      case True
      then have "rune_width s \<noteq> 1 \<or> byte (hd s) < 128" using 1(3) l False by (cases s) auto
      then have "rune_width q = rune_width s" using rune_width_take [OF False, of "[]"] True by simp
      then show ?thesis using True l False 1(3) rune_width_pos [OF False] by (auto simp: whole_rune_def)
    next
      case False
      then show ?thesis using 1 r \<open>s \<noteq> []\<close> by simp
    qed
  qed (use 1 in simp)
qed

lemma whole_text_rune: "r \<in> set (text_runes s) \<Longrightarrow> whole_rune r"
proof -
  assume "r \<in> set (text_runes s)"
  then obtain q where q: "q \<in> set (runes s)" "r = write_rune q" by (auto simp: text_runes_def)
  show ?thesis
  proof (cases "length q \<noteq> 1 \<or> byte (hd q) < 128")
    case True
    then show ?thesis using q write_rune_id [of q] whole_first by auto
  next
    case False
    then obtain c where "q = [c]" "128 \<le> byte c" by (auto simp: length_Suc_conv)
    then have "r = map char_of [239 :: nat, 191, 189]" using q(2) by (simp add: write_rune_def)
    then show ?thesis by (simp add: whole_rune_def rune_width_def in_range_def Let_def)
  qed
qed

lemma runes_whole:
  assumes "\<forall>r \<in> set rs. whole_rune r"
  shows "runes (concat rs) = rs"
  using assms
proof (induction rs)
  case (Cons r rs)
  have w: "r \<noteq> []" "rune_width r = length r" "length r = 1 \<longrightarrow> byte (hd r) < 128" using Cons.prems by (auto simp: whole_rune_def)
  then have "rune_width (r @ concat rs) = length r" using rune_width_take [of r "concat rs"] by auto
  then show ?case using w Cons by (subst runes.simps) simp
qed simp

lemma rune_count_whole: "\<forall>r \<in> set rs. whole_rune r \<Longrightarrow> rune_count (concat rs) = length rs"
  by (simp add: rune_count_def runes_whole)

lemma valid_whole: "\<forall>r \<in> set rs. whole_rune r \<Longrightarrow> valid_utf8 (concat rs)"
  by (auto simp: valid_utf8_def runes_whole list_all_iff whole_rune_def)

lemma join_kept_whole:
  "\<forall>r \<in> set (take n (text_runes s) @ text_runes truncation_marker @ drop m (text_runes s)). whole_rune r"
  using whole_text_rune by (auto dest: in_set_takeD in_set_dropD)

lemma join_kept_fits:
  assumes "0 < available" "available \<le> int (rune_count s)"
  shows "int (rune_count (join_kept (text_runes s) (truncation_splits available fp lp)))
    \<le> available + int (rune_count truncation_marker)"
proof -
  obtain kf kl where k: "truncation_splits available fp lp = (kf, kl)" by force
  note b = truncation_splits_bounds [OF assms(1) k]
  have "rune_count (join_kept (text_runes s) (kf, kl))
      = min (nat kf) (rune_count s) + rune_count truncation_marker + (rune_count s - nat (int (rune_count s) - kl))"
    unfolding join_kept_def rune_count_whole [OF join_kept_whole] by (simp add: min.commute)
  then show ?thesis using b assms k by simp
qed

lemma separator_fits: "int (rune_count (runes_text (take n (text_runes truncation_marker)))) \<le> int n"
proof -
  have "\<forall>r \<in> set (take n (text_runes truncation_marker)). whole_rune r" using whole_text_rune by (auto dest: in_set_takeD)
  then show ?thesis using rune_count_whole by simp
qed

lemma truncate_fits: "int (rune_count (truncate_middle_out s max_size cfg)) \<le> max 0 max_size"
proof -
  let ?m = "int (rune_count truncation_marker)"
  consider "max_size < 0" | "0 \<le> max_size" "int (rune_count s) \<le> max_size"
    | "0 \<le> max_size" "max_size < int (rune_count s)" "max_size - ?m \<le> 0"
    | "0 \<le> max_size" "max_size < int (rune_count s)" "0 < max_size - ?m"
    by linarith
  then show ?thesis
  proof cases
    case 1
    then show ?thesis by (simp add: truncate_middle_out_def rune_count_def)
  next
    case 2
    then show ?thesis by (simp add: truncate_middle_out_def)
  next
    case 3
    then show ?thesis using separator_fits [of "nat max_size"] by (simp add: truncate_middle_out_def)
  next
    case 4
    then show ?thesis
      using join_kept_fits [of "max_size - ?m" s "truncation_keep_first_pct cfg" "truncation_keep_last_pct cfg"]
      by (simp add: truncate_middle_out_def Let_def)
  qed
qed

lemma truncate_valid: "rune_count s > nat max_size \<Longrightarrow> valid_utf8 (truncate_middle_out s max_size cfg)"
proof -
  assume "rune_count s > nat max_size"
  moreover have "valid_utf8 (join_kept (text_runes s) k)" for k
    unfolding join_kept_def by (rule valid_whole [OF join_kept_whole])
  moreover have "valid_utf8 (runes_text (take n (text_runes truncation_marker)))" for n
    using whole_text_rune by (intro valid_whole) (auto dest: in_set_takeD)
  ultimately show ?thesis by (auto simp: truncate_middle_out_def Let_def)
qed

lemma rune_count_append: "valid_utf8 a \<Longrightarrow> rune_count (a @ b) = rune_count a + rune_count b"
  by (simp add: rune_count_def runes_append)

lemma cut_at_ascii:
  assumes "valid_utf8 s" "k < length s" "byte (s ! k) < 128"
  shows "valid_utf8 (take k s)" "rune_count (take (Suc k) s) \<le> rune_count s" "rune_count (drop k s) \<le> rune_count s"
proof -
  have s: "s = take k s @ s ! k # drop (Suc k) s" using id_take_nth_drop [OF assms(2)] .
  show t: "valid_utf8 (take k s)" using valid_take [OF assms(1,2) ascii_starts [OF assms(3)]] .
  have "valid_utf8 (take (Suc k) s)"
    using valid_split_ascii(1) [of "take k s" "s ! k" "drop (Suc k) s"] assms s by (simp add: take_Suc_conv_app_nth)
  then have "rune_count s = rune_count (take (Suc k) s) + rune_count (drop (Suc k) s)"
    using rune_count_append [of "take (Suc k) s" "drop (Suc k) s"] by simp
  then show "rune_count (take (Suc k) s) \<le> rune_count s" by simp
  have "rune_count s = rune_count (take k s) + rune_count (drop k s)"
    using rune_count_append [OF t, of "drop k s"] by simp
  then show "rune_count (drop k s) \<le> rune_count s" by simp
qed

lemma byte_newline [simp]: "byte newline < 128"
  by (simp add: newline_def)

lemma occurrence_head:
  assumes "take (length p) (drop i s) = p" "p \<noteq> []"
  shows "i < length s" "s ! i = hd p"
proof -
  have ne: "drop i s \<noteq> []" using assms by auto
  then show i: "i < length s" by simp
  have "hd p = hd (take (length p) (drop i s))" using assms(1) by simp
  also have "\<dots> = hd (drop i s)" using assms(2) ne by (cases "drop i s"; cases p) simp_all
  also have "\<dots> = s ! i" using i by (rule hd_drop_conv_nth)
  finally show "s ! i = hd p" by simp
qed

lemma last_index_Some:
  assumes "last_index s [c, c] = Some j"
  shows "Suc j < length s" "s ! Suc j = c"
proof -
  obtain i where i: "str_index (rev s) [c, c] = Some i" "j = length s - 2 - i"
    using assms by (auto simp: last_index_def)
  note f = str_index_Some [OF i(1)]
  then have "Suc (Suc i) \<le> length s" by simp
  then show "Suc j < length s" unfolding i(2) by arith
  have "rev s ! i = c" using occurrence_head [of "[c, c]" i "rev s"] f by simp
  then show "s ! Suc j = c" using f i(2) by (simp add: rev_nth Suc_diff_Suc numeral_2_eq_2)
qed

lemma code_aware_fits: "int (rune_count (truncate_middle_out_code_aware s max_size cfg)) \<le> max 0 max_size"
proof -
  let ?r = "truncate_middle_out s max_size cfg"
  let ?M = "truncation_marker"
  have fits: "int (rune_count ?r) \<le> max 0 max_size" by (rule truncate_fits)
  show ?thesis
  proof (cases "int (rune_count s) \<le> max_size \<or> str_index ?r ?M = None")
    case True
    then show ?thesis using fits by (auto simp: truncate_middle_out_code_aware_def)
  next
    case False
    then obtain i where i: "str_index ?r ?M = Some i" and big: "max_size < int (rune_count s)" by auto
    have ne: "?r \<noteq> []" using i by (auto simp: truncation_marker_def)
    have v: "valid_utf8 ?r"
    proof (rule truncate_valid)
      show "nat max_size < rune_count s" using big ne by (cases "max_size < 0") (auto simp: truncate_middle_out_def)
    qed
    let ?b = "take i ?r" and ?a = "drop (i + length ?M) ?r"
    note si = str_index_Some [OF i]
    have r: "?r = ?b @ ?M @ ?a" using si by (metis append_take_drop_id drop_drop add.commute)
    have at: "i < length ?r" "?r ! i = newline"
      using occurrence_head [of ?M i ?r] si by (simp_all add: truncation_marker_def)
    have vb: "valid_utf8 ?b" using cut_at_ascii(1) [OF v at(1)] at(2) by simp
    have vm: "valid_utf8 ?M" by (rule valid_ascii) (simp add: truncation_marker_def newline_def)
    have va: "valid_utf8 ?a" using v r vb vm valid_append by metis
    have count: "rune_count ?r = rune_count ?b + rune_count ?M + rune_count ?a"
      using rune_count_append [OF vb, of "?M @ ?a"] rune_count_append [OF vm, of ?a] r by simp
    define b' where "b' = (case last_index ?b [newline, newline] of Some j \<Rightarrow> if j > 0 then take (j + 2) ?b else ?b | None \<Rightarrow> ?b)"
    define a' where "a' = (case str_index ?a [newline, newline] of Some j \<Rightarrow> if j > 0 then drop j ?a else ?a | None \<Rightarrow> ?a)"
    have b': "valid_utf8 b' \<and> rune_count b' \<le> rune_count ?b"
    proof (cases "last_index ?b [newline, newline]")
      case (Some j)
      note l = last_index_Some [OF Some]
      have "valid_utf8 (take (Suc (Suc j)) ?b)"
        using valid_split_ascii(1) [of "take (Suc j) ?b" newline "drop (Suc (Suc j)) ?b"] vb l
        by (metis byte_newline id_take_nth_drop take_Suc_conv_app_nth)
      then show ?thesis using cut_at_ascii(2) [OF vb l(1)] l(2) Some vb by (simp add: b'_def)
    qed (use vb in \<open>simp add: b'_def\<close>)
    have a': "rune_count a' \<le> rune_count ?a"
    proof (cases "str_index ?a [newline, newline]")
      case (Some j)
      have "j < length ?a" "?a ! j = newline"
        using str_index_Some [OF Some] occurrence_head [of "[newline, newline]" j ?a] by simp_all
      then show ?thesis using cut_at_ascii(3) [OF va] Some by (simp add: a'_def)
    qed (simp add: a'_def)
    have "truncate_middle_out_code_aware s max_size cfg = b' @ ?M @ a'"
      using big i by (simp add: truncate_middle_out_code_aware_def Let_def b'_def a'_def)
    then have "rune_count (truncate_middle_out_code_aware s max_size cfg) = rune_count b' + rune_count ?M + rune_count a'"
      using rune_count_append [of b' "?M @ a'"] rune_count_append [OF vm, of a'] b' by simp
    then show ?thesis using b' a' count fits by linarith
  qed
qed

lemma by_tokens_fits:
  "int (rune_count (truncate_middle_out_by_tokens s max_tokens cur_tokens cfg))
     \<le> (if cur_tokens \<le> max_tokens then int (rune_count s) else max 0 (3 * max_tokens))"
proof -
  let ?m = "int (rune_count truncation_marker)"
  define n where "n = (if max_tokens > max_int div 3 then max_int div 3 else max_tokens)"
  have pos: "0 < max_int div 3" by (simp add: max_int_def)
  have n: "n \<le> max_tokens" "0 < max_tokens \<Longrightarrow> 0 < n" using pos by (auto simp: n_def)
  have f: "truncate_middle_out_by_tokens s max_tokens cur_tokens cfg =
      (if cur_tokens \<le> max_tokens then s else if max_tokens \<le> 0 then []
       else if int (rune_count s) + ?m \<le> n * 3 then s
       else if n * 3 \<le> ?m then runes_text (take (nat (n * 3)) (text_runes truncation_marker))
       else join_kept (text_runes s) (truncation_splits (n * 3 - ?m) (truncation_keep_first_pct cfg) (truncation_keep_last_pct cfg)))"
    unfolding truncate_middle_out_by_tokens_def n_def [symmetric] Let_def by simp
  consider "cur_tokens \<le> max_tokens" | "\<not> cur_tokens \<le> max_tokens" "max_tokens \<le> 0"
    | "\<not> cur_tokens \<le> max_tokens" "0 < max_tokens" "int (rune_count s) + ?m \<le> n * 3"
    | "\<not> cur_tokens \<le> max_tokens" "0 < max_tokens" "n * 3 \<le> ?m" "\<not> int (rune_count s) + ?m \<le> n * 3"
    | "\<not> cur_tokens \<le> max_tokens" "0 < max_tokens" "?m < n * 3" "n * 3 < int (rune_count s) + ?m"
    by linarith
  then show ?thesis
  proof cases
    case 2
    then show ?thesis by (simp add: f rune_count_def)
  next
    case 3
    then show ?thesis using n by (simp add: f)
  next
    case 4
    then show ?thesis using n separator_fits [of "nat (n * 3)"] by (simp add: f)
  next
    case 5
    then show ?thesis
      using n join_kept_fits [of "n * 3 - ?m" s "truncation_keep_first_pct cfg" "truncation_keep_last_pct cfg"]
      by (simp add: f)
  qed (simp add: f)
qed

text \<open>(Truncation) Whatever the percentages, negative and absurd ones included, a truncated text
  keeps its budget: middle-out truncation and its code-aware variant return at most the runes asked
  for, marker included, and the token variant three runes per token allowed.\<close>

theorem truncation_keeps_its_budget:
  "int (rune_count (truncate_middle_out s max_size cfg)) \<le> max 0 max_size
     \<and> int (rune_count (truncate_middle_out_code_aware s max_size cfg)) \<le> max 0 max_size
     \<and> int (rune_count (truncate_middle_out_by_tokens s max_tokens cur_tokens cfg))
         \<le> (if cur_tokens \<le> max_tokens then int (rune_count s) else max 0 (3 * max_tokens))"
  using truncate_fits code_aware_fits by_tokens_fits by blast

end
