(* ===== verification/CanaryWatch.thy ===== *)
theory CanaryWatch
  imports RuneWindow
begin

text \<open>
  The canary watcher of internal/stream/exfil.go and the token search of
  internal/pipeline/canary.go: a token planted in the prompt is looked for in everything the model
  streams back, through the rune window, so that a token split over deltas is found. Metrics and the
  one-time log line are the flags \<open>cw_tripped\<close> and \<open>cw_logged\<close>.
\<close>

subsection \<open>The watcher\<close>

datatype filter_action = Action_pass | Action_redact | Action_block

definition exfil_window_runes :: nat where "exfil_window_runes = 4096"
definition canary_action_log :: string where "canary_action_log = ''log''"
definition canary_action_block :: string where "canary_action_block = ''block''"

definition canary_tripped :: "string \<Rightarrow> string \<Rightarrow> bool" where
  "canary_tripped canary content \<longleftrightarrow> canary \<noteq> [] \<and> str_contains content canary"

record canary_watcher =
  cw_canary :: string
  cw_action :: string
  cw_window :: "string list"
  cw_window_n :: nat
  cw_tripped :: bool
  cw_logged :: bool

definition new_canary_watcher :: "string \<Rightarrow> string \<Rightarrow> canary_watcher" where
  "new_canary_watcher canary action =
    \<lparr>cw_canary = canary, cw_action = action, cw_window = [], cw_window_n = 0, cw_tripped = False,
     cw_logged = False\<rparr>"

definition canary_filter_content ::
  "canary_watcher \<Rightarrow> string \<Rightarrow> canary_watcher \<times> string \<times> filter_action \<times> string" where
  "canary_filter_content w content =
    (if cw_canary w = [] \<or> (cw_tripped w \<and> cw_action w = canary_action_log) then (w, content, Action_pass, [])
     else if content = [] then (w, content, Action_pass, [])
     else
       let (win, n) = append_rune_window (cw_window w) (cw_window_n w) exfil_window_runes content;
           w = w\<lparr>cw_window := win, cw_window_n := n\<rparr>
       in if n < length (cw_canary w) then (w, content, Action_pass, [])
          else if \<not> canary_tripped (cw_canary w) (runes_text win) then (w, content, Action_pass, [])
          else if cw_tripped w then (w, content, Action_pass, [])
          else
            let w = w\<lparr>cw_tripped := True, cw_logged := True\<rparr>
            in if cw_action w = canary_action_block
               then (w, content, Action_block, ''canary detected in output'')
               else (w, content, Action_pass, []))"

definition canary_is_blocked :: "canary_watcher \<Rightarrow> bool" where
  "canary_is_blocked w \<longleftrightarrow> cw_tripped w \<and> cw_action w = canary_action_block"

subsection \<open>Runs\<close>

text \<open>The watcher after the deltas of a stream.\<close>

definition watch :: "canary_watcher \<Rightarrow> string list \<Rightarrow> canary_watcher" where
  "watch = foldl (\<lambda>w c. fst (canary_filter_content w c))"

definition watch_ok :: "string \<Rightarrow> string \<Rightarrow> canary_watcher \<Rightarrow> bool" where
  "watch_ok canary action w \<longleftrightarrow> cw_canary w = canary \<and> cw_action w = action
     \<and> length (cw_window w) \<le> exfil_window_runes \<and> cw_window_n w = length (cw_window w)"

lemma ascii_sublist_runes:
  assumes "list_all (\<lambda>c. byte c < 128) p" "p \<noteq> []" "\<forall>r \<in> set rs. r \<noteq> [] \<and> (length r \<noteq> 1 \<longrightarrow> (\<forall>c \<in> set r. 128 \<le> byte c))"
  shows "prefix p (concat rs) \<longleftrightarrow> prefix (map (\<lambda>c. [c]) p) rs"
  using assms
proof (induction p arbitrary: rs)
  case (Cons c p)
  show ?case
  proof (cases rs)
    case Nil
    then show ?thesis by simp
  next
    case rs: (Cons r rs')
    obtain d r' where r: "r = d # r'" using Cons.prems(3) rs by (cases r) auto
    show ?thesis
    proof (cases "c = d")
      case True
      then have "r' = []" using Cons.prems rs r by (cases r') force+
      then show ?thesis using Cons True rs r by (cases "p = []") auto
    qed (use rs r in auto)
  qed
qed simp

definition proper_runes :: "string list \<Rightarrow> bool" where
  "proper_runes rs \<longleftrightarrow> (\<forall>r \<in> set rs. r \<noteq> [] \<and> (length r \<noteq> 1 \<longrightarrow> (\<forall>c \<in> set r. 128 \<le> byte c)))"

lemma proper_text_runes: "proper_runes (text_runes s)"
proof -
  have "r \<noteq> [] \<and> (length r \<noteq> 1 \<longrightarrow> (\<forall>c \<in> set r. 128 \<le> byte c))" if r: "r \<in> set (text_runes s)" for r
  proof -
    obtain q where q: "q \<in> set (runes s)" "r = write_rune q" using r by (auto simp: text_runes_def)
    show ?thesis
    proof (cases "length q = 1")
      case True
      then obtain c where "q = [c]" by (auto simp: length_Suc_conv)
      then show ?thesis using q(2) by (auto simp: write_rune_def)
    next
      case False
      then have "r = q" using q write_rune_id by blast
      then show ?thesis using runes_mem [OF q(1)] False by blast
    qed
  qed
  then show ?thesis by (simp add: proper_runes_def)
qed

lemma proper_concat: "(\<And>c. c \<in> set cs \<Longrightarrow> proper_runes (f c)) \<Longrightarrow> proper_runes (concat (map f cs))"
  by (auto simp: proper_runes_def)

lemma sublist_skip:
  "p \<noteq> [] \<Longrightarrow> byte (hd p) < 128 \<Longrightarrow> \<forall>c \<in> set r. 128 \<le> byte c \<Longrightarrow> sublist p (r @ s) \<longleftrightarrow> sublist p s"
  by (induction r) (auto simp: sublist_Cons_right neq_Nil_conv)

text \<open>An ASCII token occurs in a text exactly where its characters are consecutive runes.\<close>

lemma ascii_sublist:
  assumes "list_all (\<lambda>c. byte c < 128) p" "p \<noteq> []" "proper_runes rs"
  shows "sublist p (concat rs) \<longleftrightarrow> sublist (map (\<lambda>c. [c]) p) rs"
  using assms(3)
proof (induction rs)
  case Nil
  then show ?case using assms(2) by simp
next
  case (Cons r rs)
  have IH: "sublist p (concat rs) \<longleftrightarrow> sublist (map (\<lambda>c. [c]) p) rs" using Cons by (simp add: proper_runes_def)
  have hd: "byte (hd p) < 128" using assms(1,2) by (cases p) auto
  show ?case
  proof (cases "length r = 1")
    case True
    then obtain d where r: "r = [d]" by (auto simp: length_Suc_conv)
    have "prefix p (concat (r # rs)) \<longleftrightarrow> prefix (map (\<lambda>c. [c]) p) (r # rs)"
      using assms(1,2) Cons.prems by (intro ascii_sublist_runes) (auto simp: proper_runes_def)
    then show ?thesis using IH r by (simp add: sublist_Cons_right)
  next
    case False
    then have big: "\<forall>c \<in> set r. 128 \<le> byte c" using Cons.prems by (auto simp: proper_runes_def)
    have "\<not> prefix (map (\<lambda>c. [c]) p) (r # rs)" using assms(2) False by (cases p) auto
    then show ?thesis using IH sublist_skip [OF assms(2) hd big] by (simp add: sublist_Cons_right)
  qed
qed

text \<open>A token that was not in the text before and is in it now ends in what was added, so a window
  that holds that much more than the addition holds it.\<close>

lemma sublist_last_n:
  assumes "\<not> sublist p xs" "length ys + length p \<le> Suc n"
  shows "sublist p (xs @ ys) \<longleftrightarrow> sublist p (last_n n (xs @ ys))"
proof
  assume "sublist p (xs @ ys)"
  then obtain a b where ab: "xs @ ys = a @ p @ b" by (auto simp: sublist_def)
  have "length b < length ys"
  proof (rule ccontr)
    assume "\<not> length b < length ys"
    moreover have "length xs + length ys = length a + length p + length b"
      using arg_cong [OF ab, of length] by simp
    ultimately have "length (a @ p) \<le> length xs" by simp
    moreover have "prefix (a @ p) (xs @ ys)" using ab by simp
    ultimately have "prefix (a @ p) xs" by (metis prefixI prefix_length_prefix)
    then show False using assms(1) by (metis append_assoc prefix_def sublist_appendI)
  qed
  then have "length (p @ b) \<le> n" using assms(2) by simp
  then have "suffix (p @ b) (last_n n (a @ p @ b))" using last_n_short [of "p @ b" n a] by simp
  then show "sublist p (last_n n (xs @ ys))" using ab by (metis prefixI suffix_imp_sublist prefix_imp_sublist sublist_order.order_trans)
next
  assume "sublist p (last_n n (xs @ ys))"
  then show "sublist p (xs @ ys)" using suffix_last_n suffix_imp_sublist sublist_order.order_trans by blast
qed

subsection \<open>The token is found\<close>

abbreviation stream_runes :: "string list \<Rightarrow> string list" where
  "stream_runes cs \<equiv> concat (map text_runes cs)"

lemma filter_silent:
  assumes "watch_ok canary action w" "\<not> cw_tripped w" "canary \<noteq> []" "cw_window w = last_n exfil_window_runes rs"
    "list_all (\<lambda>c. byte c < 128) canary" "proper_runes rs" "rune_count c + length canary \<le> Suc exfil_window_runes"
    "\<not> sublist (map (\<lambda>c. [c]) canary) rs"
  defines "r \<equiv> canary_filter_content w c"
  shows "watch_ok canary action (fst r)" "cw_tripped (fst r) \<longleftrightarrow> sublist (map (\<lambda>c. [c]) canary) (rs @ text_runes c)"
    "cw_window (fst r) = last_n exfil_window_runes (rs @ text_runes c)"
    "fst (snd (snd r)) = Action_block \<longleftrightarrow>
       action = canary_action_block \<and> sublist (map (\<lambda>c. [c]) canary) (rs @ text_runes c)"
    "fst (snd r) = c"
proof -
  let ?P = "map (\<lambda>c. [c]) canary"
  let ?w = "last_n exfil_window_runes (rs @ text_runes c)"
  have app: "append_rune_window (cw_window w) (cw_window_n w) exfil_window_runes c = (?w, length ?w)"
    using assms(1,4) by (simp add: watch_ok_def append_rune_window_last last_n_append)
  have pw: "proper_runes (rs @ text_runes c)" using assms(6) proper_text_runes [of c] by (auto simp: proper_runes_def)
  then have "proper_runes ?w" using suffix_last_n [of _ "rs @ text_runes c"] set_mono_suffix by (fastforce simp: proper_runes_def)
  then have trip: "canary_tripped canary (concat ?w) \<longleftrightarrow> sublist ?P (rs @ text_runes c)"
    using assms(3,5) ascii_sublist [of canary ?w] sublist_last_n [of ?P rs "text_runes c" exfil_window_runes] assms(7,8)
    by (simp add: canary_tripped_def str_contains_iff)
  have short: "\<not> sublist ?P (rs @ text_runes c)" if "length ?w < length canary"
    using that sublist_length_le [of ?P ?w] sublist_last_n [of ?P rs "text_runes c" exfil_window_runes] assms(7,8) by auto
  have f: "cw_canary w = canary" "cw_action w = action" using assms(1) by (simp_all add: watch_ok_def)
  have "watch_ok canary action (fst r)
    \<and> (cw_tripped (fst r) \<longleftrightarrow> sublist ?P (rs @ text_runes c)) \<and> cw_window (fst r) = ?w
    \<and> (fst (snd (snd r)) = Action_block \<longleftrightarrow> action = canary_action_block \<and> sublist ?P (rs @ text_runes c))
    \<and> fst (snd r) = c"
  proof (cases "c = []")
    case True
    then show ?thesis using assms(1-4,8) by (simp add: r_def canary_filter_content_def text_runes_def f)
  next
    case False
    consider (few) "length ?w < length canary" | (no) "\<not> length ?w < length canary" "\<not> sublist ?P (rs @ text_runes c)"
      | (yes) "\<not> length ?w < length canary" "sublist ?P (rs @ text_runes c)" by blast
    then show ?thesis
    proof cases
      case few
      then show ?thesis using assms(1-3) False app short trip f
        by (simp add: r_def canary_filter_content_def watch_ok_def Let_def)
    next
      case no
      then show ?thesis using assms(1-3) False app trip f
        by (simp add: r_def canary_filter_content_def watch_ok_def Let_def)
    next
      case yes
      then show ?thesis using assms(1-3) False app trip f
        by (simp add: r_def canary_filter_content_def watch_ok_def Let_def)
    qed
  qed
  then show "watch_ok canary action (fst r)" "cw_tripped (fst r) \<longleftrightarrow> sublist ?P (rs @ text_runes c)"
    "cw_window (fst r) = ?w"
    "fst (snd (snd r)) = Action_block \<longleftrightarrow> action = canary_action_block \<and> sublist ?P (rs @ text_runes c)"
    "fst (snd r) = c"
    by blast+
qed

lemma tripped_stays: "cw_tripped w \<Longrightarrow> cw_tripped (watch w cs)"
  unfolding watch_def
  by (induction cs arbitrary: w) (auto simp: canary_filter_content_def Let_def split: prod.splits)

lemma tripped_is_silent: "cw_tripped w \<Longrightarrow> fst (snd (snd (canary_filter_content w c))) = Action_pass"
  by (simp add: canary_filter_content_def Let_def split: prod.splits)

lemma passes_content: "fst (snd (canary_filter_content w c)) = c"
  by (simp add: canary_filter_content_def Let_def split: prod.splits)

definition deltas_fit :: "string \<Rightarrow> string list \<Rightarrow> bool" where
  "deltas_fit canary cs \<longleftrightarrow>
     list_all (\<lambda>c. valid_utf8 c \<and> rune_count c + length canary \<le> Suc exfil_window_runes) cs"

lemma deltas_text: "deltas_fit canary cs \<Longrightarrow> concat (stream_runes cs) = concat cs"
  by (induction cs) (simp_all add: deltas_fit_def valid_runes_text)

lemma proper_stream: "proper_runes (stream_runes cs)"
  using proper_text_runes by (intro proper_concat)

lemma stream_contains:
  assumes "deltas_fit canary cs" "list_all (\<lambda>c. byte c < 128) canary" "canary \<noteq> []"
  shows "str_contains (concat cs) canary \<longleftrightarrow> sublist (map (\<lambda>c. [c]) canary) (stream_runes cs)"
  using ascii_sublist [OF assms(2,3) proper_stream [of cs]] deltas_text [OF assms(1)]
  by (simp add: str_contains_iff)

lemma watch_run:
  fixes action :: string
  assumes "canary \<noteq> []" "list_all (\<lambda>c. byte c < 128) canary" "deltas_fit canary cs"
  defines "w \<equiv> watch (new_canary_watcher canary action) cs"
  shows "(cw_tripped w \<longleftrightarrow> sublist (map (\<lambda>c. [c]) canary) (stream_runes cs))
    \<and> (\<not> cw_tripped w \<longrightarrow> watch_ok canary action w \<and> cw_window w = last_n exfil_window_runes (stream_runes cs))"
  using assms(3) unfolding w_def
proof (induction cs rule: rev_induct)
  case Nil
  then show ?case using assms(1) by (simp add: watch_def new_canary_watcher_def watch_ok_def last_n_def)
next
  case (snoc c cs)
  let ?w = "watch (new_canary_watcher canary action) cs"
  have fit: "deltas_fit canary cs" "rune_count c + length canary \<le> Suc exfil_window_runes"
    using snoc.prems by (simp_all add: deltas_fit_def)
  note IH = snoc.IH [OF fit(1)]
  have step: "watch (new_canary_watcher canary action) (cs @ [c]) = fst (canary_filter_content ?w c)"
    by (simp add: watch_def)
  show ?case
  proof (cases "cw_tripped ?w")
    case True
    then have "cw_tripped (fst (canary_filter_content ?w c))" using tripped_stays [of ?w "[c]"] by (simp add: watch_def)
    moreover have "sublist (map (\<lambda>c. [c]) canary) (stream_runes (cs @ [c]))"
      using IH True by (metis concat_append map_append sublist_appendI sublist_order.order_trans append_Nil)
    ultimately show ?thesis using step by simp
  next
    case False
    have n: "\<not> sublist (map (\<lambda>c. [c]) canary) (stream_runes cs)" using IH False by blast
    note f = filter_silent [of canary action ?w "stream_runes cs" c, OF _ False assms(1) _ assms(2) proper_stream fit(2) n]
    show ?thesis using IH False f(1,2,3) unfolding step by simp
  qed
qed

text \<open>C33: (Canary watcher) Whatever way the model's output is cut into deltas, the watcher trips if and
  only if the canary token occurs in it: also when the token straddles two or more deltas, and never
  otherwise. In block mode exactly the delta that completes the first occurrence is blocked. A delta of
  more runes than the window holds beside the token is outside the bound.\<close>

theorem canary_found_however_split:
  assumes "canary \<noteq> []" "list_all (\<lambda>c. byte c < 128) canary"
    and "list_all (\<lambda>c. valid_utf8 c \<and> rune_count c + length canary \<le> Suc exfil_window_runes) cs"
  shows "(cw_tripped (watch (new_canary_watcher canary action) cs) \<longleftrightarrow> str_contains (concat cs) canary)
    \<and> (\<forall>cs1 c cs2. cs = cs1 @ c # cs2 \<longrightarrow>
        (fst (snd (snd (canary_filter_content (watch (new_canary_watcher canary action) cs1) c))) = Action_block
         \<longleftrightarrow> action = canary_action_block \<and> str_contains (concat (cs1 @ [c])) canary
           \<and> \<not> str_contains (concat cs1) canary))"
proof (intro conjI allI impI)
  have fit: "deltas_fit canary cs" using assms(3) by (simp add: deltas_fit_def)
  then show "cw_tripped (watch (new_canary_watcher canary action) cs) \<longleftrightarrow> str_contains (concat cs) canary"
    using watch_run [OF assms(1,2)] stream_contains assms(1,2) by blast
  fix cs1 c cs2
  assume "cs = cs1 @ c # cs2"
  then have fit: "deltas_fit canary cs1" "deltas_fit canary (cs1 @ [c])" "rune_count c + length canary \<le> Suc exfil_window_runes"
    using fit by (simp_all add: deltas_fit_def)
  let ?w = "watch (new_canary_watcher canary action) cs1"
  note run = watch_run [OF assms(1,2) fit(1), of action] and has = stream_contains [OF _ assms(2,1)]
  show "fst (snd (snd (canary_filter_content ?w c))) = Action_block
      \<longleftrightarrow> action = canary_action_block \<and> str_contains (concat (cs1 @ [c])) canary \<and> \<not> str_contains (concat cs1) canary"
  proof (cases "cw_tripped ?w")
    case True
    then show ?thesis using run has [OF fit(1)] tripped_is_silent [of ?w c] by simp
  next
    case False
    then have n: "\<not> sublist (map (\<lambda>c. [c]) canary) (stream_runes cs1)" using run by blast
    have ok: "watch_ok canary action ?w" "cw_window ?w = last_n exfil_window_runes (stream_runes cs1)"
      using run False by blast+
    show ?thesis
      using filter_silent(4) [OF ok(1) False assms(1) ok(2) assms(2) proper_stream fit(3) n] has [OF fit(2)] has [OF fit(1)] n
      by simp
  qed
qed

theorem canary_found_however_split_witness:
  "cw_tripped (watch (new_canary_watcher ''CN7'' ''block'') [''aC'', ''N'', ''7b''])
     \<and> \<not> cw_tripped (watch (new_canary_watcher ''CN7'' ''block'') [''aC'', ''N'', ''b7''])"
proof -
  have a: "list_all (\<lambda>c. byte c < 128) ''CN7''" "''CN7'' \<noteq> []" by simp_all
  have f: "list_all (\<lambda>c. valid_utf8 c \<and> rune_count c + length ''CN7'' \<le> Suc exfil_window_runes) [''aC'', ''N'', ''7b'']"
    "list_all (\<lambda>c. valid_utf8 c \<and> rune_count c + length ''CN7'' \<le> Suc exfil_window_runes) [''aC'', ''N'', ''b7'']"
    by (simp_all add: ascii_runes ascii_rune_count exfil_window_runes_def)
  show ?thesis
    using canary_found_however_split [OF a(2,1) f(1), of "''block''", THEN conjunct1]
      canary_found_however_split [OF a(2,1) f(2), of "''block''", THEN conjunct1]
    by (simp add: has_prefix_def)
qed

text \<open>
  Beyond the bound: a token followed by as many runes as the window holds, in one delta, has left the
  window before it is looked at.
\<close>

lemma oversized_delta_hides_canary:
  assumes "canary \<noteq> []" "list_all (\<lambda>c. byte c < 128) canary" "CHR ''x'' \<notin> set canary"
  defines "c \<equiv> canary @ replicate exfil_window_runes (CHR ''x'')"
  shows "str_contains c canary \<and> \<not> cw_tripped (watch (new_canary_watcher canary action) [c])"
proof -
  have asc: "list_all (\<lambda>c. byte c < 128) c" using assms(2) by (auto simp: c_def list_all_iff)
  have "last_n exfil_window_runes (text_runes c) = map (\<lambda>c. [c]) (replicate exfil_window_runes (CHR ''x''))"
    using ascii_runes [OF asc] by (simp add: last_n_def c_def)
  then have "fst (append_rune_window [] 0 exfil_window_runes c) = map (\<lambda>c. [c]) (replicate exfil_window_runes (CHR ''x''))"
    using append_rune_window_last [of "[]" exfil_window_runes 0 c] by simp
  moreover have "\<not> sublist canary (replicate exfil_window_runes (CHR ''x''))"
    using assms(1,3) set_mono_sublist by (cases canary) fastforce+
  ultimately show ?thesis using assms(1)
    by (auto simp: watch_def new_canary_watcher_def canary_filter_content_def canary_tripped_def str_contains_iff
        Let_def c_def concat_map_singleton split: prod.splits)
qed

end
