(* ===== verification/StreamFilter.thy ===== *)
theory StreamFilter
  imports Redaction CanaryWatch
begin

text \<open>
  The stream filter of internal/stream/filter.go: every delta is checked against the block patterns,
  alone and together with the window of what came before, and secrets are redacted, those that
  straddle two deltas included. A blocked stream stays blocked.
\<close>

subsection \<open>The filter\<close>

record stream_filter =
  sf_secret_patterns :: "regexp list"
  sf_block_patterns :: "regexp list"
  sf_redact_label :: string
  sf_window :: "string list"
  sf_window_size :: nat
  sf_window_len :: nat
  sf_blocked :: bool
  sf_block_reason :: string

definition new_stream_filter :: "regexp list \<Rightarrow> regexp list \<Rightarrow> string \<Rightarrow> int \<Rightarrow> stream_filter" where
  "new_stream_filter secret_patterns block_patterns redact_label window_size =
    \<lparr>sf_secret_patterns = secret_patterns, sf_block_patterns = block_patterns, sf_redact_label = redact_label,
     sf_window = [], sf_window_size = (if window_size \<le> 0 then 4096 else nat window_size), sf_window_len = 0,
     sf_blocked = False, sf_block_reason = []\<rparr>"

text \<open>The loops of \<^verbatim>\<open>checkBlockPatterns\<close> and \<^verbatim>\<open>checkWindowBlock\<close>: the first pattern that matches.\<close>

definition first_match :: "regexp list \<Rightarrow> string \<Rightarrow> regexp option" where
  "first_match res s = find (\<lambda>re. re_match re s) res"

definition set_blocked :: "stream_filter \<Rightarrow> regexp \<Rightarrow> stream_filter" where
  "set_blocked f re = f\<lparr>sf_blocked := True, sf_block_reason := re_source re\<rparr>"

definition check_block_patterns :: "stream_filter \<Rightarrow> string \<Rightarrow> stream_filter \<times> filter_action \<times> string" where
  "check_block_patterns f content =
    (if sf_block_patterns f = [] then (f, Action_pass, [])
     else case first_match (sf_block_patterns f) content of
       Some re \<Rightarrow> (set_blocked f re, Action_block, re_source re)
     | None \<Rightarrow> (f, Action_pass, []))"

definition append_to_window :: "stream_filter \<Rightarrow> string \<Rightarrow> stream_filter" where
  "append_to_window f s =
    (let (w, n) = append_rune_window (sf_window f) (sf_window_len f) (sf_window_size f) s
     in f\<lparr>sf_window := w, sf_window_len := n\<rparr>)"

definition check_window_block :: "stream_filter \<Rightarrow> string \<Rightarrow> stream_filter \<times> bool" where
  "check_window_block f window_str =
    (if sf_block_patterns f = [] \<or> sf_window_len f = 0 then (f, False)
     else case first_match (sf_block_patterns f) window_str of
       Some re \<Rightarrow> (set_blocked f re, True)
     | None \<Rightarrow> (f, False))"

definition check_window_redact :: "stream_filter \<Rightarrow> string \<Rightarrow> bool" where
  "check_window_redact f window_str =
    (if sf_secret_patterns f = [] \<or> sf_window_len f = 0 then False
     else list_ex (\<lambda>re. re_match re window_str) (sf_secret_patterns f))"

definition secret_step :: "(string \<Rightarrow> string) \<Rightarrow> string \<Rightarrow> string \<times> bool \<Rightarrow> regexp \<Rightarrow> string \<times> bool" where
  "secret_step to_upper label acc re =
    (let next = replace_validated to_upper re (fst acc) label
     in if next \<noteq> fst acc then (next, True) else acc)"

definition check_secret_patterns :: "(string \<Rightarrow> string) \<Rightarrow> stream_filter \<Rightarrow> string \<Rightarrow> string \<times> filter_action" where
  "check_secret_patterns to_upper f content =
    (if sf_secret_patterns f = [] then (content, Action_pass)
     else
       let (redacted, was_redacted) =
             foldl (secret_step to_upper (sf_redact_label f)) (content, False) (sf_secret_patterns f)
       in if was_redacted then (redacted, Action_redact) else (content, Action_pass))"

text \<open>One match of the window in content coordinates; \<open>None\<close> when it is skipped.\<close>

definition window_span ::
  "(string \<Rightarrow> string) \<Rightarrow> regexp \<Rightarrow> string \<Rightarrow> int \<Rightarrow> nat \<Rightarrow> span \<Rightarrow> span option" where
  "window_span to_upper re window_str prev_window_bytes content_len loc =
    (let skipped = (case match_validator to_upper (re_source re) of
            None \<Rightarrow> False
          | Some validate \<Rightarrow> \<not> validate (slice (fst loc) (snd loc) window_str) \<and> int (fst loc) \<ge> prev_window_bytes);
         start = int (fst loc) - prev_window_bytes;
         start = (if start < 0 then 0 else start);
         fin = int (snd loc) - prev_window_bytes;
         fin = (if fin > int content_len then int content_len else fin)
     in if skipped then None else if start < fin then Some (nat start, nat fin) else None)"

definition collect_window_spans ::
  "(string \<Rightarrow> string) \<Rightarrow> stream_filter \<Rightarrow> string \<Rightarrow> int \<Rightarrow> nat \<Rightarrow> span list \<times> string" where
  "collect_window_spans to_upper f window_str prev_window_bytes content_len =
    (let spans_of = (\<lambda>re. List.map_filter (window_span to_upper re window_str prev_window_bytes content_len)
                         (re_find_all re window_str))
     in (concat (map spans_of (sf_secret_patterns f)),
         (case find (\<lambda>re. spans_of re \<noteq> [] \<and> re_source re \<noteq> []) (sf_secret_patterns f) of
            Some re \<Rightarrow> re_source re
          | None \<Rightarrow> [])))"

definition redact_from_window ::
  "(string \<Rightarrow> string) \<Rightarrow> stream_filter \<Rightarrow> string \<Rightarrow> string \<Rightarrow> int \<Rightarrow> string \<times> filter_action \<times> string" where
  "redact_from_window to_upper f content window_str prev_window_bytes =
    (let (spans, reason) = collect_window_spans to_upper f window_str prev_window_bytes (length content)
     in if spans = [] then (content, Action_pass, [])
        else (redact_splice content (sf_redact_label f) 0 (sort_spans spans), Action_redact, reason))"

definition process_secrets ::
  "(string \<Rightarrow> string) \<Rightarrow> stream_filter \<Rightarrow> string \<Rightarrow> string \<Rightarrow> int \<Rightarrow> string \<times> filter_action \<times> string" where
  "process_secrets to_upper f content window_str prev_window_bytes =
    (let (content, action, reason) =
           (if check_window_redact f window_str
            then redact_from_window to_upper f content window_str prev_window_bytes
            else (content, Action_pass, []));
         (redacted, a) = check_secret_patterns to_upper f content
     in if a \<noteq> Action_pass then (redacted, a, reason) else (content, action, reason))"

definition filter_content ::
  "(string \<Rightarrow> string) \<Rightarrow> stream_filter \<Rightarrow> string \<Rightarrow> stream_filter \<times> string \<times> filter_action \<times> string" where
  "filter_content to_upper f content =
    (if sf_blocked f then (f, content, Action_block, sf_block_reason f)
     else if content = [] then (f, content, Action_pass, [])
     else
       let (f, action, reason) = check_block_patterns f content
       in if action \<noteq> Action_pass then (f, content, action, reason)
          else
            let f = append_to_window f content;
                window_str = runes_text (sf_window f);
                prev_window_bytes = int (length window_str) - int (length content);
                (f, hit) = check_window_block f window_str
            in if hit then (f, content, Action_block, sf_block_reason f)
               else (f, process_secrets to_upper f content window_str prev_window_bytes))"

subsection \<open>What the window pass removes\<close>

text \<open>
  The byte at \<open>i\<close> of the delta belongs to a secret: some match of the window covers it that is not
  a checksummed match lying wholly in the delta whose checksum fails.
\<close>

definition secret_at ::
  "(string \<Rightarrow> string) \<Rightarrow> regexp list \<Rightarrow> string \<Rightarrow> int \<Rightarrow> nat \<Rightarrow> bool" where
  "secret_at to_upper patterns window_str prev i \<longleftrightarrow>
     (\<exists>re \<in> set patterns. \<exists>(a, b) \<in> set (re_find_all re window_str).
        int a \<le> prev + int i \<and> prev + int i < int b
        \<and> (int a < prev \<or> (case match_validator to_upper (re_source re) of
             None \<Rightarrow> True | Some validate \<Rightarrow> validate (slice a b window_str))))"

lemma window_span_covers:
  assumes "i < n"
  shows "(case window_span to_upper re w prev n (a, b) of None \<Rightarrow> False | Some (s, e) \<Rightarrow> s \<le> i \<and> i < e)
    \<longleftrightarrow> int a \<le> prev + int i \<and> prev + int i < int b
      \<and> (int a < prev \<or> (case match_validator to_upper (re_source re) of
             None \<Rightarrow> True | Some validate \<Rightarrow> validate (slice a b w)))"
  using assms by (auto simp: window_span_def Let_def split: option.splits if_splits)

lemma window_span_bounds: "window_span to_upper re w prev n loc = Some (s, e) \<Longrightarrow> s < e \<and> e \<le> n"
  by (auto simp: window_span_def Let_def split: option.splits if_splits)

lemma mem_map_filter: "y \<in> set (List.map_filter f xs) \<longleftrightarrow> (\<exists>x \<in> set xs. f x = Some y)"
  by (auto simp: map_filter_def image_iff)

lemma collect_covers:
  assumes "i < n"
  shows "covered (fst (collect_window_spans to_upper f w prev n)) i
    \<longleftrightarrow> secret_at to_upper (sf_secret_patterns f) w prev i"
proof -
  have "covered (fst (collect_window_spans to_upper f w prev n)) i \<longleftrightarrow>
      (\<exists>re \<in> set (sf_secret_patterns f). \<exists>(a, b) \<in> set (re_find_all re w).
         case window_span to_upper re w prev n (a, b) of None \<Rightarrow> False | Some (s, e) \<Rightarrow> s \<le> i \<and> i < e)"
    by (fastforce simp: covered_def collect_window_spans_def Let_def mem_map_filter split: option.splits)
  then show ?thesis unfolding window_span_covers [OF assms] secret_at_def .
qed

lemma collect_bounds: "(s, e) \<in> set (fst (collect_window_spans to_upper f w prev n)) \<Longrightarrow> s < e \<and> e \<le> n"
  using window_span_bounds by (fastforce simp: collect_window_spans_def Let_def mem_map_filter)

lemma redact_from_window_kept:
  "labelled (sf_redact_label f)
     (map (\<lambda>i. content ! i) (filter (\<lambda>i. \<not> secret_at to_upper (sf_secret_patterns f) w prev i) [0..<length content]))
     (fst (redact_from_window to_upper f content w prev))"
proof -
  let ?sp = "fst (collect_window_spans to_upper f w prev (length content))"
  have k: "uncovered_from 0 content ?sp =
      map (\<lambda>i. content ! i) (filter (\<lambda>i. \<not> secret_at to_upper (sf_secret_patterns f) w prev i) [0..<length content])"
    unfolding uncovered_from_def by (rule arg_cong [where f = "map _"], rule filter_cong) (simp_all add: collect_covers)
  show ?thesis
  proof (cases "?sp = []")
    case True
    then have "fst (redact_from_window to_upper f content w prev) = content"
      by (simp add: redact_from_window_def split_beta)
    then show ?thesis using True k labelled_refl by (simp add: uncovered_Nil)
  next
    case False
    have "spans_ok (length content) (sort_spans ?sp)" using collect_bounds by (intro sort_spans_ok) fast
    from redact_labelled [OF this, of "sf_redact_label f" 0]
    have "labelled (sf_redact_label f) (uncovered_from 0 content ?sp)
        (redact_splice content (sf_redact_label f) 0 (sort_spans ?sp))"
      by (simp add: uncovered_from_def)
    then show ?thesis using False k by (simp add: redact_from_window_def split_beta)
  qed
qed

subsection \<open>A stream through the filter\<close>

definition sf_run :: "(string \<Rightarrow> string) \<Rightarrow> stream_filter \<Rightarrow> string list \<Rightarrow> stream_filter" where
  "sf_run to_upper = foldl (\<lambda>f c. fst (filter_content to_upper f c))"

text \<open>The window after the deltas \<open>cs\<close>, as text.\<close>

definition window_after :: "int \<Rightarrow> string list \<Rightarrow> string" where
  "window_after window_size cs =
     runes_text (last_n (if window_size \<le> 0 then 4096 else nat window_size) (stream_runes cs))"

definition sf_at :: "regexp list \<Rightarrow> regexp list \<Rightarrow> string \<Rightarrow> int \<Rightarrow> string list \<Rightarrow> stream_filter \<Rightarrow> bool" where
  "sf_at sp bp label n cs f \<longleftrightarrow> sf_secret_patterns f = sp \<and> sf_block_patterns f = bp \<and> sf_redact_label f = label
     \<and> (\<not> sf_blocked f \<longrightarrow> sf_window_size f = (if n \<le> 0 then 4096 else nat n)
          \<and> sf_window f = last_n (sf_window_size f) (stream_runes cs) \<and> sf_window_len f = length (sf_window f))"

definition hits :: "regexp list \<Rightarrow> string \<Rightarrow> bool" where
  "hits res s \<longleftrightarrow> (\<exists>re \<in> set res. re_match re s)"

lemma hits_iff: "hits res s \<longleftrightarrow> first_match res s \<noteq> None"
  by (auto simp: first_match_def hits_def find_None_iff)

lemma text_runes_ne: "c \<noteq> [] \<Longrightarrow> 0 < rune_count c"
  by (cases c) (simp_all add: rune_count_def runes.simps [of "_ # _"])

lemma append_at:
  assumes "sf_at sp bp label n cs f" "\<not> sf_blocked f"
  shows "sf_at sp bp label n (cs @ [c]) (append_to_window f c)"
    "runes_text (sf_window (append_to_window f c)) = window_after n (cs @ [c])"
    "c \<noteq> [] \<Longrightarrow> sf_window_len (append_to_window f c) \<noteq> 0" "\<not> sf_blocked (append_to_window f c)"
proof -
  have "append_rune_window (sf_window f) (sf_window_len f) (sf_window_size f) c
      = (last_n (sf_window_size f) (stream_runes (cs @ [c])), length (last_n (sf_window_size f) (stream_runes (cs @ [c]))))"
    using assms by (simp add: sf_at_def append_rune_window_last last_n_append)
  then have a: "append_to_window f c = f\<lparr>sf_window := last_n (sf_window_size f) (stream_runes (cs @ [c])),
      sf_window_len := length (last_n (sf_window_size f) (stream_runes (cs @ [c])))\<rparr>"
    by (simp add: append_to_window_def)
  show "sf_at sp bp label n (cs @ [c]) (append_to_window f c)" "\<not> sf_blocked (append_to_window f c)"
    "runes_text (sf_window (append_to_window f c)) = window_after n (cs @ [c])"
    using assms a by (simp_all add: sf_at_def window_after_def)
  show "sf_window_len (append_to_window f c) \<noteq> 0" if "c \<noteq> []"
    using text_runes_ne [OF that] assms a by (auto simp: sf_at_def)
qed

text \<open>One delta, by cases: blocked before; nothing in it; a block pattern in it or in the window;
  let through.\<close>

lemma filter_content_cases:
  assumes "sf_at sp bp label n cs f"
  shows "filter_content to_upper f c =
    (if sf_blocked f then (f, c, Action_block, sf_block_reason f)
     else if c = [] then (f, c, Action_pass, [])
     else case first_match bp c of
       Some re \<Rightarrow> (set_blocked f re, c, Action_block, re_source re)
     | None \<Rightarrow>
        (case first_match bp (window_after n (cs @ [c])) of
           Some re \<Rightarrow> (set_blocked (append_to_window f c) re, c, Action_block, re_source re)
         | None \<Rightarrow> (append_to_window f c,
             process_secrets to_upper (append_to_window f c) c (window_after n (cs @ [c]))
               (int (length (window_after n (cs @ [c]))) - int (length c)))))"
proof (cases "sf_blocked f \<or> c = []")
  case True
  then show ?thesis by (auto simp: filter_content_def)
next
  case False
  then have f: "\<not> sf_blocked f" "c \<noteq> []" by auto
  note a = append_at [OF assms f(1), of c]
  have bp: "sf_block_patterns f = bp" "sf_block_patterns (append_to_window f c) = bp" using assms a(1) by (simp_all add: sf_at_def)
  have none: "first_match [] s = None" for s by (simp add: first_match_def)
  show ?thesis
  proof (cases "first_match bp c")
    case (Some re)
    then show ?thesis using f bp none
      by (auto simp: filter_content_def check_block_patterns_def)
  next
    case no: None
    then have cb: "check_block_patterns f c = (f, Action_pass, [])" by (simp add: check_block_patterns_def bp)
    show ?thesis
    proof (cases "first_match bp (window_after n (cs @ [c]))")
      case (Some re)
      then have "check_window_block (append_to_window f c) (window_after n (cs @ [c])) = (set_blocked (append_to_window f c) re, True)"
        using bp a(3) [OF f(2)] none by (auto simp: check_window_block_def)
      then show ?thesis using f no Some cb a(2) by (simp add: filter_content_def Let_def set_blocked_def)
    next
      case None
      then have "check_window_block (append_to_window f c) (window_after n (cs @ [c])) = (append_to_window f c, False)"
        by (simp add: check_window_block_def bp)
      then show ?thesis using f no None cb a(2) by (simp add: filter_content_def Let_def)
    qed
  qed
qed

lemma sf_run_at: "sf_at sp bp label n cs (sf_run to_upper (new_stream_filter sp bp label n) cs)"
proof (induction cs rule: rev_induct)
  case Nil
  show ?case by (simp add: sf_run_def sf_at_def new_stream_filter_def last_n_def)
next
  case (snoc c cs)
  let ?f = "sf_run to_upper (new_stream_filter sp bp label n) cs"
  have step: "sf_run to_upper (new_stream_filter sp bp label n) (cs @ [c]) = fst (filter_content to_upper ?f c)"
    by (simp add: sf_run_def)
  have e: "text_runes [] = []" by (simp add: text_runes_def)
  show ?case unfolding step filter_content_cases [OF snoc]
    using snoc append_at(1) [OF snoc, of c] e
    by (auto simp: sf_at_def set_blocked_def split: option.splits)
qed

text \<open>C19: (Stream filter) A stream is blocked exactly when it must be: the filter is blocked after a
  sequence of deltas if and only if some non-empty delta of it matches a block pattern on its own or
  together with what the window holds of the deltas before it. A blocked stream stays blocked.\<close>

theorem blocked_exactly_when_matched:
  "sf_blocked (sf_run to_upper (new_stream_filter sp bp label n) cs) \<longleftrightarrow>
     (\<exists>cs1 c cs2. cs = cs1 @ c # cs2 \<and> c \<noteq> [] \<and> (hits bp c \<or> hits bp (window_after n (cs1 @ [c]))))"
proof (induction cs rule: rev_induct)
  case Nil
  show ?case by (simp add: sf_run_def new_stream_filter_def)
next
  case (snoc c cs)
  let ?f = "sf_run to_upper (new_stream_filter sp bp label n) cs"
  let ?hit = "\<lambda>cs1 c. c \<noteq> [] \<and> (hits bp c \<or> hits bp (window_after n (cs1 @ [c])))"
  have at: "sf_at sp bp label n cs ?f" by (rule sf_run_at)
  have "sf_run to_upper (new_stream_filter sp bp label n) (cs @ [c]) = fst (filter_content to_upper ?f c)"
    by (simp add: sf_run_def)
  moreover have "sf_blocked (fst (filter_content to_upper ?f c)) \<longleftrightarrow> sf_blocked ?f \<or> ?hit cs c"
    using append_at(4) [OF at, of c]
    unfolding filter_content_cases [OF at] by (auto simp: set_blocked_def hits_iff split: option.splits)
  moreover have "(\<exists>cs1 d cs2. cs @ [c] = cs1 @ d # cs2 \<and> ?hit cs1 d)
      \<longleftrightarrow> (\<exists>cs1 d cs2. cs = cs1 @ d # cs2 \<and> ?hit cs1 d) \<or> ?hit cs c" (is "?L \<longleftrightarrow> ?R")
  proof
    assume ?L
    then obtain cs1 d cs2 where d: "cs @ [c] = cs1 @ d # cs2" "?hit cs1 d" by blast
    then show ?R by (cases cs2 rule: rev_cases) auto
  next
    assume ?R
    then show ?L by (metis append.assoc append_Cons append_Nil)
  qed
  ultimately show ?case using snoc by simp
qed

lemma check_secret_patterns_fold:
  "fst (check_secret_patterns to_upper f c) = redact_secrets to_upper c True (sf_secret_patterns f) (sf_redact_label f)
    \<and> (snd (check_secret_patterns to_upper f c) = Action_pass \<longrightarrow> fst (check_secret_patterns to_upper f c) = c)"
proof -
  have "fst (foldl (secret_step to_upper l) acc res) = foldl (\<lambda>s re. replace_validated to_upper re s l) (fst acc) res
      \<and> (\<not> snd (foldl (secret_step to_upper l) acc res) \<longrightarrow> foldl (secret_step to_upper l) acc res = acc)" for l acc res
  proof (induction res arbitrary: acc)
    case (Cons re res)
    have stay: "snd (foldl (secret_step to_upper l) acc res)" if "snd acc" for acc res
      using that
    proof (induction res arbitrary: acc)
      case (Cons re res)
      have "snd (secret_step to_upper l acc re)" using Cons.prems by (simp add: secret_step_def Let_def)
      then show ?case using Cons.IH by simp
    qed simp
    let ?s = "secret_step to_upper l acc re"
    show ?case
    proof (cases "replace_validated to_upper re (fst acc) l = fst acc")
      case True
      then have "?s = acc" by (simp add: secret_step_def Let_def)
      then show ?thesis using Cons [of acc] True by simp
    next
      case False
      then have "?s = (replace_validated to_upper re (fst acc) l, True)" by (simp add: secret_step_def Let_def)
      then show ?thesis using Cons [of ?s] stay [of ?s res] by simp
    qed
  qed simp
  from this [of "sf_redact_label f" "(c, False)" "sf_secret_patterns f"] show ?thesis
    by (auto simp: check_secret_patterns_def redact_secrets_def split_beta)
qed

lemma process_secrets_spec:
  assumes "sf_window_len f \<noteq> 0"
  shows "\<exists>mid. labelled (sf_redact_label f)
      (map (\<lambda>i. c ! i) (filter (\<lambda>i. \<not> secret_at to_upper (sf_secret_patterns f) w prev i) [0..<length c])) mid
    \<and> fst (process_secrets to_upper f c w prev) = redact_secrets to_upper mid True (sf_secret_patterns f) (sf_redact_label f)"
proof -
  let ?mid = "if check_window_redact f w then fst (redact_from_window to_upper f c w prev) else c"
  have "labelled (sf_redact_label f)
      (map (\<lambda>i. c ! i) (filter (\<lambda>i. \<not> secret_at to_upper (sf_secret_patterns f) w prev i) [0..<length c])) ?mid"
  proof (cases "check_window_redact f w")
    case True
    then show ?thesis using redact_from_window_kept by simp
  next
    case False
    then have "\<forall>re \<in> set (sf_secret_patterns f). re_find_all re w = []"
      using assms by (auto simp: check_window_redact_def re_match_def list_ex_iff split: if_splits)
    then have "\<not> secret_at to_upper (sf_secret_patterns f) w prev i" for i by (simp add: secret_at_def)
    then show ?thesis using False labelled_refl by (simp add: map_nth)
  qed
  moreover have "fst (process_secrets to_upper f c w prev) = redact_secrets to_upper ?mid True (sf_secret_patterns f) (sf_redact_label f)"
    using check_secret_patterns_fold [of to_upper f ?mid]
    by (auto simp: process_secrets_def split_beta Let_def)
  ultimately show ?thesis by blast
qed

text \<open>C18: (Stream filter) A secret split over deltas does not get through: when a delta is let through,
  what reaches the client is the delta without any byte that lies in a secret match of the window (with
  the redaction label put in), and then with the matches inside it redacted. Only a checksummed match
  wholly inside the delta whose checksum fails is kept.\<close>

theorem straddling_secrets_are_cut:
  assumes "c \<noteq> []"
    and "filter_content to_upper (sf_run to_upper (new_stream_filter sp bp label n) cs) c = (f', out, action, reason)"
    and "action \<noteq> Action_block"
  shows "\<exists>mid. labelled label
      (map (\<lambda>i. c ! i) (filter (\<lambda>i. \<not> secret_at to_upper sp (window_after n (cs @ [c]))
         (int (length (window_after n (cs @ [c]))) - int (length c)) i) [0..<length c])) mid
    \<and> out = redact_secrets to_upper mid True sp label"
proof -
  let ?f = "sf_run to_upper (new_stream_filter sp bp label n) cs"
  let ?w = "window_after n (cs @ [c])"
  have at: "sf_at sp bp label n cs ?f" by (rule sf_run_at)
  note cs = assms(2) [unfolded filter_content_cases [OF at]]
  have nb: "\<not> sf_blocked ?f" using cs assms(3) by (auto split: if_splits)
  note a = append_at [OF at nb, of c]
  have f: "sf_secret_patterns (append_to_window ?f c) = sp" "sf_redact_label (append_to_window ?f c) = label"
    using a(1) by (simp_all add: sf_at_def)
  have "(out, action, reason) = process_secrets to_upper (append_to_window ?f c) c ?w (int (length ?w) - int (length c))"
    using cs assms(1,3) nb by (auto split: option.splits)
  then show ?thesis
    using process_secrets_spec [OF a(3) [OF assms(1)], of c to_upper ?w "int (length ?w) - int (length c)"] f
    by (metis fst_conv)
qed

definition example_pattern :: regexp where
  "example_pattern = \<lparr>re_source = ''KEY'',
     re_find_all = (\<lambda>s. case str_index s ''KEY'' of None \<Rightarrow> [] | Some i \<Rightarrow> [(i, i + 3)]), re_expand = (\<lambda>_ _ l. l)\<rparr>"

theorem straddling_secrets_are_cut_witness:
  "fst (snd (filter_content id (sf_run id (new_stream_filter [example_pattern] [] ''#'' 8) [''aKE'']) ''Yb'')) = ''#b''
   \<and> (\<exists>mid. labelled ''#'' ''b'' mid \<and> ''#b'' = redact_secrets id mid True [example_pattern] ''#'')"
proof -
  let ?f = "sf_run id (new_stream_filter [example_pattern] [] ''#'' 8) [''aKE'']"
  have fa: "sf_run id (new_stream_filter [example_pattern] [] ''#'' 8) [''aKE'']
      = \<lparr>sf_secret_patterns = [example_pattern], sf_block_patterns = [], sf_redact_label = ''#'',
         sf_window = [''a'', ''K'', ''E''], sf_window_size = 8, sf_window_len = 3, sf_blocked = False, sf_block_reason = []\<rparr>"
    by (simp add: sf_run_def filter_content_def new_stream_filter_def check_block_patterns_def append_to_window_def
        append_rune_window_def ascii_runes ascii_rune_count Let_def check_window_block_def)
  have o: "fst (snd (filter_content id ?f ''Yb'')) = ''#b''" "fst (snd (snd (filter_content id ?f ''Yb''))) = Action_redact"
    unfolding fa
    by (simp_all add: filter_content_def check_block_patterns_def append_to_window_def append_rune_window_def ascii_runes
        ascii_rune_count Let_def check_window_block_def process_secrets_def check_window_redact_def re_match_def
        example_pattern_def has_prefix_def redact_from_window_def collect_window_spans_def List.map_filter_def window_span_def
        match_validator_def match_validators_def financial_card_pattern_def financial_iban_pattern_def financial_cpf_pattern_def
        financial_cnpj_pattern_def sort_spans_def slice_def check_secret_patterns_def secret_step_def replace_validated_def
        replace_all_string_def)
  have w: "window_after 8 ([''aKE''] @ [''Yb'']) = ''aKEYb''"
    by (simp add: window_after_def ascii_runes last_n_def)
  have at: "secret_at id [example_pattern] ''aKEYb'' 3 i \<longleftrightarrow> i < 1" for i
    by (auto simp: secret_at_def example_pattern_def has_prefix_def match_validator_def match_validators_def
        financial_card_pattern_def financial_iban_pattern_def financial_cpf_pattern_def financial_cnpj_pattern_def)
  obtain f' reason where f: "filter_content id ?f ''Yb'' = (f', ''#b'', Action_redact, reason)"
    using o by (metis prod.collapse)
  have "\<exists>mid. labelled ''#'' ''b'' mid \<and> ''#b'' = redact_secrets id mid True [example_pattern] ''#''"
    using straddling_secrets_are_cut [OF _ f] unfolding w by (simp add: at upt_rec)
  then show ?thesis using o(1) by blast
qed

end
