(* ===== verification/ExfilGuard.thy ===== *)
theory ExfilGuard
  imports StreamFilter IpDeny
begin

text \<open>
  The egress guard of internal/stream/exfil.go: URLs in what the model streams back are judged by
  scheme, host and query; a violating one is logged, stripped or ends the stream. The tail that may
  still grow into a URL is held back. The two compiled patterns, \<^verbatim>\<open>url.Parse\<close> and \<^verbatim>\<open>net.ParseIP\<close> are
  arguments; metrics are the list \<open>eg_detections\<close>.
\<close>

subsection \<open>The guard\<close>

definition exfil_strip_placeholder :: string where
  "exfil_strip_placeholder = ''[NENYA: EXFIL LINK REMOVED]''"

definition exfil_query_entropy_bits :: real where "exfil_query_entropy_bits = 5"
definition exfil_min_entropy_query_chars :: nat where "exfil_min_entropy_query_chars = 16"
definition exfil_max_tracked_urls :: nat where "exfil_max_tracked_urls = 4096"
definition default_exfil_max_query_chars :: int where "default_exfil_max_query_chars = 256"

definition exfil_action_log :: string where "exfil_action_log = ''log''"
definition exfil_action_strip :: string where "exfil_action_strip = ''strip''"
definition exfil_action_block :: string where "exfil_action_block = ''block''"

definition exfil_reason_scheme :: string where "exfil_reason_scheme = ''scheme''"
definition exfil_reason_ip_literal :: string where "exfil_reason_ip_literal = ''ip_literal''"
definition exfil_reason_private_host :: string where "exfil_reason_private_host = ''private_host''"
definition exfil_reason_private_ip :: string where "exfil_reason_private_ip = ''private_ip''"
definition exfil_reason_host_not_allowed :: string where "exfil_reason_host_not_allowed = ''host_not_allowed''"
definition exfil_reason_query_length :: string where "exfil_reason_query_length = ''query_length''"
definition exfil_reason_query_entropy :: string where "exfil_reason_query_entropy = ''query_entropy''"

lemmas exfil_reason_defs = exfil_reason_scheme_def exfil_reason_ip_literal_def exfil_reason_private_host_def
  exfil_reason_private_ip_def exfil_reason_host_not_allowed_def exfil_reason_query_length_def
  exfil_reason_query_entropy_def

text \<open>What the guard uses of the URL parser, the address parser and the two patterns: the parts
  scheme, host, host name and raw query of a URL; the whole match and the URL group of every Markdown
  link; the matches of bare URLs.\<close>

record url =
  url_scheme :: string
  url_host :: string
  url_hostname :: string
  url_raw_query :: string

record url_tools =
  parse_url :: "string \<Rightarrow> url option"
  parse_ip_addr :: "string \<Rightarrow> ip option"
  markdown_links :: "string \<Rightarrow> (span \<times> span) list"
  bare_urls :: "string \<Rightarrow> span list"

record exfil_config =
  ec_action :: string
  ec_allowed_hosts :: "string list"
  ec_max_query_chars :: int
  ec_allow_ip_literals :: "bool option"

record exfil_guard =
  eg_action :: string
  eg_allowed_hosts :: "string list"
  eg_max_query_chars :: int
  eg_allow_ip_literals :: bool
  eg_window :: "string list"
  eg_window_size :: nat
  eg_window_len :: nat
  eg_memo :: "(string, string) gomap"
  eg_detections :: "(string \<times> string) list"
  eg_pending :: "string list"
  eg_drained :: bool
  eg_blocked :: bool
  eg_blocked_reason :: string

definition new_exfil_guard :: "exfil_config \<Rightarrow> exfil_guard" where
  "new_exfil_guard cfg =
    \<lparr>eg_action = (if ec_action cfg = [] then exfil_action_log else ec_action cfg),
     eg_allowed_hosts = map normalize_host (ec_allowed_hosts cfg),
     eg_max_query_chars = (if ec_max_query_chars cfg \<le> 0 then default_exfil_max_query_chars else ec_max_query_chars cfg),
     eg_allow_ip_literals = (ec_allow_ip_literals cfg = Some True),
     eg_window = [], eg_window_size = exfil_window_runes, eg_window_len = 0, eg_memo = [], eg_detections = [],
     eg_pending = [], eg_drained = False, eg_blocked = False, eg_blocked_reason = []\<rparr>"

subsection \<open>The verdict on a URL\<close>

definition host_allowed :: "string \<Rightarrow> string list \<Rightarrow> bool" where
  "host_allowed host allowed \<longleftrightarrow> list_ex (\<lambda>entry. host = entry \<or> has_suffix host (CHR ''.'' # entry)) allowed"

definition evaluate_query :: "exfil_guard \<Rightarrow> string \<Rightarrow> string" where
  "evaluate_query g raw_query =
    (if int (length raw_query) > eg_max_query_chars g then exfil_reason_query_length
     else if length raw_query \<ge> exfil_min_entropy_query_chars \<and> shannon_entropy raw_query > exfil_query_entropy_bits
     then exfil_reason_query_entropy
     else [])"

definition evaluate_url :: "url_tools \<Rightarrow> exfil_guard \<Rightarrow> string \<Rightarrow> string" where
  "evaluate_url tools g raw_url =
    (case parse_url tools raw_url of
       None \<Rightarrow> exfil_reason_scheme
     | Some u \<Rightarrow>
        if url_host u = [] then exfil_reason_scheme
        else if url_scheme u \<noteq> ''http'' \<and> url_scheme u \<noteq> ''https'' then exfil_reason_scheme
        else
          let host = normalize_host (url_hostname u)
          in case is_ip_literal (parse_ip_addr tools) host of
               Some ip \<Rightarrow>
                 if \<not> eg_allow_ip_literals g then exfil_reason_ip_literal
                 else if deny_ip ip then exfil_reason_private_ip
                 else evaluate_query g (url_raw_query u)
             | None \<Rightarrow>
                 if \<not> host_allowed host (eg_allowed_hosts g) \<and> deny_host (parse_ip_addr tools) host
                 then exfil_reason_private_host
                 else if \<not> host_allowed host (eg_allowed_hosts g) \<and> eg_allowed_hosts g \<noteq> []
                 then exfil_reason_host_not_allowed
                 else evaluate_query g (url_raw_query u))"

subsection \<open>The constructs of a window\<close>

definition is_url_terminator :: "char \<Rightarrow> bool" where
  "is_url_terminator b \<longleftrightarrow> b \<in> set ([CHR '' '', CHR 0x09, CHR 0x0A, CHR 0x0D, CHR '')'', CHR '']'', CHR ''>'',
     CHR 0x22, CHR 0x27, CHR '','', CHR '';'', CHR ''!''])"

definition overlaps :: "span list \<Rightarrow> nat \<Rightarrow> nat \<Rightarrow> bool" where
  "overlaps spans start fin \<longleftrightarrow> list_ex (\<lambda>(s, e). start < e \<and> s < fin) spans"

type_synonym exfil_target = "string \<times> span"

definition consider_target :: "int \<Rightarrow> string \<Rightarrow> span \<Rightarrow> exfil_target list" where
  "consider_target prev raw_url sp = (if int (snd sp) \<le> prev \<or> fst sp \<ge> snd sp then [] else [(raw_url, sp)])"

definition extract_targets :: "url_tools \<Rightarrow> string \<Rightarrow> int \<Rightarrow> exfil_target list" where
  "extract_targets tools w prev =
    (let md_url_spans = map snd (markdown_links tools w)
     in concat (map (\<lambda>(whole, group). consider_target prev (slice (fst group) (snd group) w) whole) (markdown_links tools w))
        @ concat (map (\<lambda>(a, b).
            if overlaps md_url_spans a b then []
            else if b \<ge> length w \<or> \<not> is_url_terminator (w ! b) then []
            else consider_target prev (slice a b w) (a, b)) (bare_urls tools w)))"

subsection \<open>The scan\<close>

text \<open>The verdict from the memo, or evaluated, remembered (while there is room) and counted.\<close>

definition verdict_of :: "url_tools \<Rightarrow> exfil_guard \<Rightarrow> string \<Rightarrow> exfil_guard \<times> string" where
  "verdict_of tools g u =
    (case map_of (eg_memo g) u of
       Some verdict \<Rightarrow> (g, verdict)
     | None \<Rightarrow>
        (let verdict = evaluate_url tools g u;
             g = (if length (eg_memo g) < exfil_max_tracked_urls then g\<lparr>eg_memo := put u verdict (eg_memo g)\<rparr> else g)
         in (if verdict = [] then g else g\<lparr>eg_detections := eg_detections g @ [(verdict, eg_action g)]\<rparr>, verdict)))"

text \<open>The span of a target in content coordinates.\<close>

definition target_span :: "int \<Rightarrow> nat \<Rightarrow> span \<Rightarrow> span option" where
  "target_span prev content_len sp =
    (let start = int (fst sp) - prev;
         start = (if start < 0 then 0 else start);
         fin = int (snd sp) - prev;
         fin = (if fin > int content_len then int content_len else fin)
     in if start \<ge> fin then None else Some (nat start, nat fin))"

fun scan_loop ::
  "url_tools \<Rightarrow> int \<Rightarrow> nat \<Rightarrow> exfil_guard \<Rightarrow> exfil_target list \<Rightarrow> span list \<Rightarrow> string \<Rightarrow> exfil_guard \<times> span list \<times> string" where
  "scan_loop tools prev len g [] spans reason = (g, sort_spans spans, reason)"
| "scan_loop tools prev len g ((u, sp) # targets) spans reason =
    (let (g, verdict) = verdict_of tools g u in
     if verdict = [] then scan_loop tools prev len g targets spans reason
     else if eg_action g = exfil_action_block
     then (g\<lparr>eg_blocked := True, eg_blocked_reason := verdict\<rparr>, [], verdict)
     else case target_span prev len sp of
       None \<Rightarrow> scan_loop tools prev len g targets spans reason
     | Some s \<Rightarrow>
        scan_loop tools prev len g targets
          (if eg_action g = exfil_action_strip then spans @ [s] else spans)
          (if reason = [] then verdict else reason))"

definition scan_window :: "url_tools \<Rightarrow> exfil_guard \<Rightarrow> string \<Rightarrow> int \<Rightarrow> nat \<Rightarrow> exfil_guard \<times> span list \<times> string" where
  "scan_window tools g w prev content_len = scan_loop tools prev content_len g (extract_targets tools w prev) [] []"

subsection \<open>What is held back\<close>

definition hold_ws :: "char \<Rightarrow> bool" where
  "hold_ws c \<longleftrightarrow> c \<in> set [CHR '' '', CHR 0x09, CHR 0x0A, CHR 0x0D]"

text \<open>The offset after the last white space.\<close>

definition last_ws_cut :: "string \<Rightarrow> nat" where
  "last_ws_cut s = length s - length (takeWhile (\<lambda>c. \<not> hold_ws c) (rev s))"

text \<open>Every turn of the loop of \<^verbatim>\<open>extendCompletedSpans\<close> moves the cut to the end of a longer prefix.\<close>

function extend_completed_spans :: "nat \<Rightarrow> span list \<Rightarrow> nat \<Rightarrow> nat" where
  "extend_completed_spans n spans brk =
    (case find (\<lambda>(s, e). s = brk \<and> e > brk \<and> e \<le> n) spans of
       None \<Rightarrow> brk
     | Some (s, e) \<Rightarrow> extend_completed_spans n spans e)"
  by pat_completeness auto
termination
  by (relation "measure (\<lambda>(n, spans, brk). n - brk)") (auto dest!: find_Some_iff [THEN iffD1])

declare extend_completed_spans.simps [simp del]

text \<open>Walk back from \<open>i\<close> to the start of a rune.\<close>

fun rune_floor :: "string \<Rightarrow> nat \<Rightarrow> nat" where
  "rune_floor s 0 = 0"
| "rune_floor s (Suc i) = (if rune_start (s ! Suc i) then Suc i else rune_floor s i)"

definition hold_cut :: "string \<Rightarrow> span list \<Rightarrow> nat \<Rightarrow> nat" where
  "hold_cut fresh spans window_size =
    (let brk = last_ws_cut fresh;
         brk = (case find (\<lambda>(s, e). s < brk \<and> e > brk) spans of Some (s, e) \<Rightarrow> s | None \<Rightarrow> brk);
         brk = extend_completed_spans (length fresh) spans brk;
         flr = int (length fresh) - int window_size
     in if flr > int brk then (let flr = rune_floor fresh (nat flr) in if flr > brk then flr else brk) else brk)"

fun clip_spans_within :: "span list \<Rightarrow> nat \<Rightarrow> span list" where
  "clip_spans_within [] brk = []"
| "clip_spans_within ((s, e) # spans) brk =
    (if s \<ge> brk then [] else (s, (if e > brk then brk else e)) # clip_spans_within spans brk)"

subsection \<open>The operations\<close>

definition exfil_filter_content ::
  "url_tools \<Rightarrow> exfil_guard \<Rightarrow> string \<Rightarrow> exfil_guard \<times> string \<times> filter_action \<times> string" where
  "exfil_filter_content tools g content =
    (if eg_drained g then (g, content, Action_pass, [])
     else if eg_blocked g then (g, content, Action_block, eg_blocked_reason g)
     else if content = [] then (g, content, Action_pass, [])
     else
       let fresh = runes_text (eg_pending g) @ content;
           (win, n) = append_rune_window (eg_window g) (eg_window_len g) (eg_window_size g) content;
           g = g\<lparr>eg_pending := [], eg_window := win, eg_window_len := n\<rparr>;
           window_str = runes_text win;
           prev = int (length window_str) - int (length fresh);
           (g, spans, reason) = scan_window tools g window_str prev (length fresh)
       in if eg_blocked g then (g, content, Action_block, reason)
          else
            let brk = hold_cut fresh spans (eg_window_size g);
                g = g\<lparr>eg_pending := text_runes (drop brk fresh)\<rparr>;
                emit = take brk fresh
            in if spans = [] then (g, emit, Action_pass, reason)
               else (g, splice_spans emit (clip_spans_within spans brk) exfil_strip_placeholder, Action_redact, reason))"

definition exfil_flush :: "url_tools \<Rightarrow> exfil_guard \<Rightarrow> exfil_guard \<times> string \<times> filter_action" where
  "exfil_flush tools g =
    (if eg_drained g then (g, [], Action_pass)
     else
       let out = runes_text (eg_pending g);
           g = g\<lparr>eg_drained := True, eg_pending := []\<rparr>
       in if out = [] then (g, [], Action_pass)
          else if eg_blocked g then (g, out, Action_block)
          else
            let (g, spans, _) = scan_window tools g (out @ '' '') 0 (length out)
            in if eg_blocked g then (g, [], Action_block)
               else if spans = [] then (g, out, Action_pass)
               else (g, splice_spans out spans exfil_strip_placeholder, Action_redact))"

definition exfil_rearm :: "exfil_guard \<Rightarrow> exfil_guard" where
  "exfil_rearm g = g\<lparr>eg_drained := False\<rparr>"

definition inspect_full ::
  "url_tools \<Rightarrow> exfil_guard \<Rightarrow> string \<Rightarrow> exfil_guard \<times> string \<times> filter_action \<times> string" where
  "inspect_full tools g content =
    (if eg_blocked g then (g, content, Action_block, eg_blocked_reason g)
     else if content = [] then (g, content, Action_pass, [])
     else
       let (g, spans, reason) = scan_window tools g (content @ '' '') 0 (length content)
       in if eg_blocked g then (g, content, Action_block, reason)
          else if spans = [] then (g, content, Action_pass, reason)
          else (g, splice_spans content spans exfil_strip_placeholder, Action_redact, reason))"

definition exfil_is_blocked :: "exfil_guard \<Rightarrow> bool" where
  "exfil_is_blocked g = eg_blocked g"

subsection \<open>The memo changes nothing\<close>

text \<open>Two guards that judge alike.\<close>

definition same_policy :: "exfil_guard \<Rightarrow> exfil_guard \<Rightarrow> bool" where
  "same_policy g h \<longleftrightarrow> eg_action g = eg_action h \<and> eg_allowed_hosts g = eg_allowed_hosts h
     \<and> eg_max_query_chars g = eg_max_query_chars h \<and> eg_allow_ip_literals g = eg_allow_ip_literals h"

lemma same_policy_evaluate: "same_policy g h \<Longrightarrow> evaluate_url tools g = evaluate_url tools h"
  by (rule ext) (simp add: same_policy_def evaluate_url_def evaluate_query_def Let_def split: option.splits)

definition memo_ok :: "url_tools \<Rightarrow> exfil_guard \<Rightarrow> bool" where
  "memo_ok tools g \<longleftrightarrow> (\<forall>u v. map_of (eg_memo g) u = Some v \<longrightarrow> v = evaluate_url tools g u)"

text \<open>What a scan leaves alone.\<close>

definition same_text :: "exfil_guard \<Rightarrow> exfil_guard \<Rightarrow> bool" where
  "same_text g h \<longleftrightarrow> same_policy g h \<and> eg_window g = eg_window h \<and> eg_window_size g = eg_window_size h
     \<and> eg_window_len g = eg_window_len h \<and> eg_pending g = eg_pending h \<and> eg_drained g = eg_drained h"

lemma same_text_trans: "same_text g h \<Longrightarrow> same_text h k \<Longrightarrow> same_text g k"
  by (simp add: same_text_def same_policy_def)

lemma same_text_refl [simp]: "same_text g g"
  by (simp add: same_text_def same_policy_def)

lemma verdict_of_spec:
  assumes "memo_ok tools g"
  obtains g' where "verdict_of tools g u = (g', evaluate_url tools g u)" "memo_ok tools g'" "same_text g' g"
    "eg_blocked g' = eg_blocked g"
proof -
  let ?v = "evaluate_url tools g u"
  obtain g' where g': "verdict_of tools g u = (g', ?v)" "same_text g' g" "eg_blocked g' = eg_blocked g"
      "eg_memo g' = eg_memo g \<or> eg_memo g' = put u ?v (eg_memo g)"
  proof (cases "map_of (eg_memo g) u")
    case None
    then show ?thesis
      by (intro that [of "fst (verdict_of tools g u)"])
        (simp_all add: verdict_of_def Let_def same_text_def same_policy_def)
  next
    case (Some v)
    then have "v = ?v" using assms by (simp add: memo_ok_def)
    then show ?thesis using Some by (intro that [of g]) (simp_all add: verdict_of_def)
  qed
  have "evaluate_url tools g' = evaluate_url tools g" using g'(2) by (intro same_policy_evaluate) (simp add: same_text_def)
  then have "memo_ok tools g'" using assms g'(4) by (auto simp: memo_ok_def map_of_put split: if_splits)
  then show ?thesis using g' that by blast
qed

definition violations :: "url_tools \<Rightarrow> exfil_guard \<Rightarrow> exfil_target list \<Rightarrow> exfil_target list" where
  "violations tools g targets = filter (\<lambda>(u, sp). evaluate_url tools g u \<noteq> []) targets"

definition strip_spans :: "url_tools \<Rightarrow> exfil_guard \<Rightarrow> int \<Rightarrow> nat \<Rightarrow> exfil_target list \<Rightarrow> span list" where
  "strip_spans tools g prev n targets =
     (if eg_action g = exfil_action_strip
      then List.map_filter (\<lambda>(u, sp). target_span prev n sp) (violations tools g targets) else [])"

lemma strip_spans_Cons:
  "strip_spans tools g prev n ((u, sp) # targets) =
     (case (if eg_action g = exfil_action_strip \<and> evaluate_url tools g u \<noteq> [] then target_span prev n sp else None) of
        None \<Rightarrow> strip_spans tools g prev n targets
      | Some s \<Rightarrow> s # strip_spans tools g prev n targets)"
  by (simp add: strip_spans_def violations_def List.map_filter_simps split: option.splits)

lemma scan_loop_spec:
  assumes "memo_ok tools g" "eg_action g \<noteq> exfil_action_block"
  shows "\<exists>g' reason'. scan_loop tools prev n g targets spans reason =
      (g', sort_spans (spans @ strip_spans tools g prev n targets), reason')
    \<and> memo_ok tools g' \<and> same_text g' g \<and> eg_blocked g' = eg_blocked g"
  using assms
proof (induction targets arbitrary: g spans reason)
  case Nil
  then show ?case by (simp add: strip_spans_def violations_def List.map_filter_simps)
next
  case (Cons t targets)
  obtain u sp where t: "t = (u, sp)" by (cases t)
  obtain g1 where g1: "verdict_of tools g u = (g1, evaluate_url tools g u)" "memo_ok tools g1" "same_text g1 g"
      "eg_blocked g1 = eg_blocked g"
    using verdict_of_spec [OF Cons.prems(1)] .
  have sp: "same_policy g1 g" using g1(3) by (simp add: same_text_def)
  have act: "eg_action g1 = eg_action g" "evaluate_url tools g1 = evaluate_url tools g"
    using sp same_policy_evaluate [OF sp] by (simp_all add: same_policy_def)
  have viol: "strip_spans tools g1 = strip_spans tools g" by (intro ext) (simp add: strip_spans_def violations_def act)
  note IH = Cons.IH [OF g1(2), unfolded act viol, OF Cons.prems(2)]
  have step: "\<exists>g' reason'. scan_loop tools prev n g1 targets spans' reason'' =
      (g', sort_spans (spans' @ strip_spans tools g prev n targets), reason')
    \<and> memo_ok tools g' \<and> same_text g' g \<and> eg_blocked g' = eg_blocked g" for spans' reason''
    using IH [of spans' reason''] g1(3,4) same_text_trans by fastforce
  show ?case
  proof (cases "evaluate_url tools g u = []")
    case True
    then show ?thesis using step [of spans reason] g1(1) t by (simp add: strip_spans_Cons)
  next
    case False
    show ?thesis
    proof (cases "target_span prev n sp")
      case None
      then show ?thesis using step [of spans reason] g1(1) t act(1) Cons.prems(2) False by (simp add: strip_spans_Cons)
    next
      case (Some s)
      let ?spans = "if eg_action g = exfil_action_strip then spans @ [s] else spans"
      have e: "?spans @ strip_spans tools g prev n targets = spans @ strip_spans tools g prev n (t # targets)"
        using Some False t by (simp add: strip_spans_Cons)
      show ?thesis
        using step [of ?spans "if reason = [] then evaluate_url tools g u else reason"] g1(1) t act(1) Cons.prems(2) False Some
        unfolding e by simp
    qed
  qed
qed

lemma violations_Cons:
  "violations tools g ((u, sp) # targets) =
     (if evaluate_url tools g u = [] then violations tools g targets else (u, sp) # violations tools g targets)"
  by (simp add: violations_def)

lemma scan_loop_block:
  assumes "memo_ok tools g" "eg_action g = exfil_action_block"
  shows "\<exists>g' reason'. scan_loop tools prev n g targets [] reason = (g', [], reason')
    \<and> memo_ok tools g' \<and> same_text g' g \<and> eg_blocked g' = (eg_blocked g \<or> violations tools g targets \<noteq> [])"
  using assms
proof (induction targets arbitrary: g reason)
  case Nil
  then show ?case by (simp add: violations_def sort_spans_def)
next
  case (Cons t targets)
  obtain u sp where t: "t = (u, sp)" by (cases t)
  obtain g1 where g1: "verdict_of tools g u = (g1, evaluate_url tools g u)" "memo_ok tools g1" "same_text g1 g"
      "eg_blocked g1 = eg_blocked g"
    using verdict_of_spec [OF Cons.prems(1)] .
  have sp: "same_policy g1 g" using g1(3) by (simp add: same_text_def)
  have act: "eg_action g1 = eg_action g" "evaluate_url tools g1 = evaluate_url tools g"
    using sp same_policy_evaluate [OF sp] by (simp_all add: same_policy_def)
  have viol: "violations tools g1 = violations tools g" by (rule ext) (simp add: violations_def act(2))
  show ?case
  proof (cases "evaluate_url tools g u = []")
    case True
    then show ?thesis
      using Cons.IH [OF g1(2), of reason] act Cons.prems(2) g1 t viol same_text_trans
      by (fastforce simp: violations_Cons)
  next
    case False
    let ?g = "g1\<lparr>eg_blocked := True, eg_blocked_reason := evaluate_url tools g u\<rparr>"
    have "memo_ok tools ?g \<and> same_text ?g g"
      using g1(2,3) same_policy_evaluate [of ?g g1] by (simp add: memo_ok_def same_text_def same_policy_def)
    then show ?thesis using False g1(1) t act(1) Cons.prems(2) by (auto simp: violations_Cons)
  qed
qed

subsection \<open>The cut\<close>

lemma rune_count_le: "rune_count s \<le> length s"
proof (induction s rule: runes.induct)
  case (1 s)
  show ?case
  proof (cases "s = []")
    case False
    then have "rune_count s = Suc (rune_count (drop (rune_width s) s))" by (simp add: rune_count_def runes.simps [of s])
    moreover have "length (drop (rune_width s) s) < length s" using rune_width_pos [OF False] False by simp
    ultimately show ?thesis using 1 [OF False] by simp
  qed (simp add: rune_count_def)
qed

lemma valid_head: "valid_utf8 s \<Longrightarrow> s \<noteq> [] \<Longrightarrow> rune_start (hd s)"
proof (rule ccontr)
  assume v: "valid_utf8 s" "s \<noteq> []" "\<not> rune_start (hd s)"
  then obtain c t where s: "s = c # t" "in_range 128 191 (byte c)" by (cases s) (auto simp: rune_start_def)
  then have "rune_width s = 1" by (auto simp: rune_width_def in_range_def Let_def)
  then show False using valid_first_rune(1) [OF v(1,2)] s by (auto simp: in_range_def)
qed

lemma last_ws_cut_le: "last_ws_cut s \<le> length s"
  by (simp add: last_ws_cut_def)

lemma last_ws_cut_valid:
  assumes "valid_utf8 s"
  shows "valid_utf8 (take (last_ws_cut s) s)"
proof -
  let ?k = "length (takeWhile (\<lambda>c. \<not> hold_ws c) (rev s))"
  show ?thesis
  proof (cases "?k = length s")
    case True
    then show ?thesis by (simp add: last_ws_cut_def)
  next
    case False
    then have k: "?k < length (rev s)" using length_takeWhile_le [of _ "rev s"] by (metis le_neq_implies_less length_rev)
    then have "hold_ws (rev s ! ?k)" using nth_length_takeWhile [OF k] by simp
    then have w: "byte (rev s ! ?k) < 128" by (auto simp: hold_ws_def)
    have b: "last_ws_cut s = Suc (length s - Suc ?k)" using k by (simp add: last_ws_cut_def Suc_diff_Suc)
    have i: "length s - Suc ?k < length s" using k by simp
    have "s ! (length s - Suc ?k) = rev s ! ?k" using k by (simp add: rev_nth)
    then show ?thesis
      using valid_split_ascii(1) [of "take (length s - Suc ?k) s" "rev s ! ?k" "drop (Suc (length s - Suc ?k)) s"]
        assms w b id_take_nth_drop [OF i] take_Suc_conv_app_nth [OF i] by simp
  qed
qed

lemma rune_floor_spec:
  "rune_floor s i \<le> i \<and> (rune_floor s i = 0 \<or> rune_start (s ! rune_floor s i))
     \<and> (\<forall>j. rune_floor s i < j \<longrightarrow> j \<le> i \<longrightarrow> \<not> rune_start (s ! j))"
  by (induction s i rule: rune_floor.induct) (auto simp: le_Suc_eq)

lemma rune_floor_valid:
  assumes "valid_utf8 s" "i < length s"
  shows "valid_utf8 (take (rune_floor s i) s)"
proof -
  have "rune_floor s i = 0 \<or> rune_start (s ! rune_floor s i)" "rune_floor s i < length s"
    using rune_floor_spec [of s i] assms(2) by auto
  then show ?thesis using valid_take [OF assms(1), of "rune_floor s i"] by auto
qed

lemma rune_floor_count:
  assumes "valid_utf8 s" "i < length s"
  shows "rune_count (drop (rune_floor s i) s) \<le> length s - i"
proof -
  let ?j = "rune_floor s i" and ?d = "drop (rune_floor s i) s"
  note f = rune_floor_spec [of s i]
  have d: "valid_utf8 ?d" "?d \<noteq> []" using valid_drop [OF assms(1) rune_floor_valid [OF assms]] f assms(2) by auto
  let ?w = "rune_width ?d"
  have "?w > i - ?j"
  proof (rule ccontr)
    assume a: "\<not> ?w > i - ?j"
    then have w: "?j + ?w \<le> i" "?j + ?w < length s" using f assms(2) by linarith+
    have "drop ?w ?d \<noteq> []" using w by simp
    then have "rune_start (hd (drop ?w ?d))" using valid_head valid_first_rune(2) [OF d] by blast
    then have "rune_start (s ! (?j + ?w))" using w by (simp add: hd_drop_conv_nth add.commute)
    then show False using f w rune_width_pos [OF d(2)] by auto
  qed
  moreover have "rune_count ?d = Suc (rune_count (drop ?w ?d))" using d(2) by (simp add: rune_count_def runes.simps [of ?d])
  moreover have "rune_count (drop ?w ?d) \<le> length s - ?j - ?w" using rune_count_le [of "drop ?w ?d"] by simp
  moreover have "?w \<le> length ?d" by (rule rune_width_le)
  ultimately show ?thesis by simp
qed

lemma extend_none: "extend_completed_spans n [] brk = brk"
  by (simp add: extend_completed_spans.simps)

lemma extend_le: "brk \<le> n \<Longrightarrow> extend_completed_spans n spans brk \<le> n"
proof (induction n spans brk rule: extend_completed_spans.induct)
  case (1 n spans brk)
  show ?case
  proof (cases "find (\<lambda>(s, e). s = brk \<and> e > brk \<and> e \<le> n) spans")
    case None
    then show ?thesis using 1(2) by (simp add: extend_completed_spans.simps [of _ _ brk])
  next
    case (Some se)
    then obtain s e where se: "se = (s, e)" "e \<le> n" by (auto dest!: find_Some_iff [THEN iffD1])
    then show ?thesis using 1(1) [OF Some se(1) [symmetric] se(2)] Some by (simp add: extend_completed_spans.simps [of _ _ brk])
  qed
qed

lemma hold_cut_le: "hold_cut s spans sz \<le> length s"
proof -
  let ?b = "last_ws_cut s"
  let ?c = "case find (\<lambda>(s, e). s < ?b \<and> e > ?b) spans of Some (s, e) \<Rightarrow> s | None \<Rightarrow> ?b"
  have "?c \<le> length s" using last_ws_cut_le [of s] by (auto split: option.splits dest!: find_Some_iff [THEN iffD1])
  then have "extend_completed_spans (length s) spans ?c \<le> length s" by (rule extend_le)
  moreover have "rune_floor s (nat (int (length s) - int sz)) \<le> length s"
    using rune_floor_spec [of s "nat (int (length s) - int sz)"] by linarith
  ultimately show ?thesis by (simp add: hold_cut_def Let_def)
qed

text \<open>With no span the cut is at a rune, and at most the window is held back.\<close>

lemma hold_cut_plain:
  assumes "valid_utf8 s" "0 < sz"
  shows "valid_utf8 (take (hold_cut s [] sz) s)" "rune_count (drop (hold_cut s [] sz) s) \<le> sz"
proof -
  let ?b = "last_ws_cut s" and ?i = "nat (int (length s) - int sz)"
  have "valid_utf8 (take (hold_cut s [] sz) s) \<and> rune_count (drop (hold_cut s [] sz) s) \<le> sz"
  proof (cases "int (length s) - int sz > int ?b")
    case False
    then have "hold_cut s [] sz = ?b" by (simp add: hold_cut_def extend_none)
    moreover have "rune_count (drop ?b s) \<le> sz" using rune_count_le [of "drop ?b s"] False by simp
    ultimately show ?thesis using last_ws_cut_valid [OF assms(1)] by simp
  next
    case True
    have i: "?i < length s" "length s - ?i = sz" using True assms(2) by simp_all
    show ?thesis
    proof (cases "rune_floor s ?i > ?b")
      case floor: True
      then have "hold_cut s [] sz = rune_floor s ?i" using True by (simp add: hold_cut_def extend_none Let_def)
      then show ?thesis using rune_floor_valid [OF assms(1) i(1)] rune_floor_count [OF assms(1) i(1)] i(2) by simp
    next
      case floor: False
      have cut: "hold_cut s [] sz = ?b" using True floor by (simp add: hold_cut_def extend_none Let_def)
      have b: "?b < length s" "?b \<le> ?i" using True by simp_all
      have "rune_start (s ! ?b)"
        using valid_head [OF valid_drop [OF assms(1) last_ws_cut_valid [OF assms(1)]]] b(1) by (simp add: hd_drop_conv_nth)
      then have "rune_floor s ?i = ?b" using rune_floor_spec [of s ?i] b(2) floor by (metis le_neq_implies_less not_less)
      then show ?thesis
        using cut last_ws_cut_valid [OF assms(1)] rune_floor_count [OF assms(1) i(1)] i(2) by simp
    qed
  qed
  then show "valid_utf8 (take (hold_cut s [] sz) s)" "rune_count (drop (hold_cut s [] sz) s) \<le> sz" by blast+
qed

subsection \<open>One delta\<close>

definition guard_ok :: "url_tools \<Rightarrow> exfil_guard \<Rightarrow> bool" where
  "guard_ok tools g \<longleftrightarrow> memo_ok tools g \<and> length (eg_window g) \<le> eg_window_size g
     \<and> eg_window_len g = length (eg_window g)"

text \<open>The byte at \<open>i\<close> of the text looked at belongs to a link or bare URL of the window that ends in it
  and that the policy rejects.\<close>

definition violating_at :: "url_tools \<Rightarrow> exfil_guard \<Rightarrow> string \<Rightarrow> int \<Rightarrow> nat \<Rightarrow> bool" where
  "violating_at tools g w prev i \<longleftrightarrow>
     (\<exists>(u, (a, b)) \<in> set (extract_targets tools w prev). evaluate_url tools g u \<noteq> []
        \<and> int a \<le> prev + int i \<and> prev + int i < int b)"

lemma target_span_bounds: "target_span prev n sp = Some (s, e) \<Longrightarrow> s < e \<and> e \<le> n"
  by (auto simp: target_span_def Let_def split: if_splits)

lemma target_span_covers:
  "i < n \<Longrightarrow> (case target_span prev n (a, b) of None \<Rightarrow> False | Some (s, e) \<Rightarrow> s \<le> i \<and> i < e)
     \<longleftrightarrow> int a \<le> prev + int i \<and> prev + int i < int b"
  by (auto simp: target_span_def Let_def)

lemma strip_spans_covers:
  assumes "eg_action g = exfil_action_strip" "i < n"
  shows "covered (strip_spans tools g prev n (extract_targets tools w prev)) i \<longleftrightarrow> violating_at tools g w prev i"
proof -
  have "covered (strip_spans tools g prev n (extract_targets tools w prev)) i \<longleftrightarrow>
      (\<exists>(u, (a, b)) \<in> set (extract_targets tools w prev). evaluate_url tools g u \<noteq> []
        \<and> (case target_span prev n (a, b) of None \<Rightarrow> False | Some (s, e) \<Rightarrow> s \<le> i \<and> i < e))"
    using assms(1)
    by (fastforce simp: covered_def strip_spans_def violations_def mem_map_filter split: option.splits)
  then show ?thesis unfolding target_span_covers [OF assms(2)] violating_at_def .
qed

lemma strip_spans_ok: "spans_ok n (sort_spans (strip_spans tools g prev n ts))"
  using target_span_bounds
  by (intro sort_spans_ok) (fastforce simp: strip_spans_def mem_map_filter split: if_splits)

lemma clip_ok:
  assumes "spans_ok n spans"
  shows "spans_ok brk (clip_spans_within spans brk)" "i < brk \<Longrightarrow> covered (clip_spans_within spans brk) i \<longleftrightarrow> covered spans i"
proof -
  have "spans_ok brk (clip_spans_within spans brk) \<and> (\<forall>i < brk. covered (clip_spans_within spans brk) i \<longleftrightarrow> covered spans i)
      \<and> set (map fst (clip_spans_within spans brk)) \<subseteq> set (map fst spans)"
    using assms
  proof (induction spans brk rule: clip_spans_within.induct)
    case (2 s e spans brk)
    have sorted: "\<forall>x \<in> set spans. s \<le> fst x" using 2(2) by (auto simp: spans_ok_def)
    show ?case
    proof (cases "s \<ge> brk")
      case True
      then have "\<not> covered ((s, e) # spans) i" if "i < brk" for i using sorted that by (fastforce simp: covered_def)
      then show ?thesis using True by (simp add: spans_ok_def covered_def [of "[]"])
    next
      case False
      have ok: "spans_ok n spans" "s < e" using spans_ok_Cons [OF 2(2)] by blast+
      note IH = 2(1) [OF False ok(1)]
      have "s \<le> fst x" if x: "x \<in> set (clip_spans_within spans brk)" for x
      proof -
        have "fst x \<in> fst ` set spans" using IH x by fastforce
        then show ?thesis using sorted by auto
      qed
      then show ?thesis using ok IH False by (auto simp: spans_ok_def covered_def)
    qed
  qed (simp add: spans_ok_def covered_def)
  then show "spans_ok brk (clip_spans_within spans brk)" "i < brk \<Longrightarrow> covered (clip_spans_within spans brk) i \<longleftrightarrow> covered spans i"
    by blast+
qed

text \<open>What is looked at when the delta \<open>c\<close> arrives, and the window then.\<close>

definition fresh_text :: "exfil_guard \<Rightarrow> string \<Rightarrow> string" where
  "fresh_text g c = runes_text (eg_pending g) @ c"

definition next_window :: "exfil_guard \<Rightarrow> string \<Rightarrow> string list" where
  "next_window g c = last_n (eg_window_size g) (eg_window g @ text_runes c)"

lemma exfil_step:
  fixes c tools g
  defines "fresh \<equiv> fresh_text g c" and "w \<equiv> runes_text (next_window g c)"
  defines "prev \<equiv> int (length w) - int (length fresh)"
  defines "spans \<equiv> sort_spans (strip_spans tools g prev (length fresh) (extract_targets tools w prev))"
  defines "brk \<equiv> hold_cut fresh spans (eg_window_size g)"
  assumes "guard_ok tools g" "\<not> eg_drained g" "\<not> eg_blocked g" "c \<noteq> []" "eg_action g \<noteq> exfil_action_block"
  obtains g' reason where
    "exfil_filter_content tools g c = (g',
       (if spans = [] then take brk fresh else splice_spans (take brk fresh) (clip_spans_within spans brk) exfil_strip_placeholder),
       (if spans = [] then Action_pass else Action_redact), reason)"
    "guard_ok tools g'" "same_policy g' g" "\<not> eg_drained g'" "\<not> eg_blocked g'"
    "eg_pending g' = text_runes (drop brk fresh)" "eg_window g' = next_window g c" "eg_window_size g' = eg_window_size g"
proof -
  have app: "append_rune_window (eg_window g) (eg_window_len g) (eg_window_size g) c = (next_window g c, length (next_window g c))"
    using assms(6) append_rune_window_last [of "eg_window g" "eg_window_size g"] by (simp add: guard_ok_def next_window_def)
  let ?g = "g\<lparr>eg_pending := [], eg_window := next_window g c, eg_window_len := length (next_window g c)\<rparr>"
  have sp: "same_policy ?g g" by (simp add: same_policy_def)
  have "memo_ok tools ?g" using assms(6) same_policy_evaluate [OF sp] by (simp add: memo_ok_def guard_ok_def)
  moreover have act: "eg_action ?g = eg_action g" by simp
  ultimately obtain g1 reason where scan:
      "scan_window tools ?g w prev (length fresh) = (g1, spans, reason)" "memo_ok tools g1" "same_text g1 ?g"
      "eg_blocked g1 = eg_blocked ?g"
    using scan_loop_spec [of tools ?g prev "length fresh" "extract_targets tools w prev" "[]" "[]"] assms(10)
      same_policy_evaluate [OF sp]
    by (auto simp: scan_window_def spans_def strip_spans_def violations_def)
  have st: "eg_window_size g1 = eg_window_size g" "eg_drained g1 = eg_drained g" "eg_window g1 = next_window g c"
      "eg_window_len g1 = length (next_window g c)" "\<not> eg_blocked g1" "same_policy g1 g"
    using scan(3,4) assms(8) by (simp_all add: same_text_def same_policy_def)
  let ?g' = "g1\<lparr>eg_pending := text_runes (drop brk fresh)\<rparr>"
  have sp': "same_policy ?g' g1" by (simp add: same_policy_def)
  have "memo_ok tools ?g'" using scan(2) same_policy_evaluate [OF sp'] by (simp add: memo_ok_def)
  then have ok: "guard_ok tools ?g'" using st by (simp add: guard_ok_def next_window_def)
  have f: "exfil_filter_content tools g c = (?g',
       (if spans = [] then take brk fresh else splice_spans (take brk fresh) (clip_spans_within spans brk) exfil_strip_placeholder),
       (if spans = [] then Action_pass else Action_redact), reason)"
    using assms(7-9) app scan(1) st(1,5)
    by (simp add: exfil_filter_content_def Let_def fresh_def [symmetric, unfolded fresh_text_def] w_def [symmetric]
        prev_def [symmetric] brk_def)
  show ?thesis
    by (rule that [OF f ok]) (use st assms(7) in \<open>simp_all add: same_policy_def\<close>)
qed

lemma labelled_kept: "labelled label k s \<Longrightarrow> k = k' \<Longrightarrow> labelled label k' s"
  by simp

lemma exfil_step_strip:
  fixes c tools g
  defines "fresh \<equiv> fresh_text g c" and "w \<equiv> runes_text (next_window g c)"
  defines "prev \<equiv> int (length w) - int (length fresh)"
  assumes "guard_ok tools g" "\<not> eg_drained g" "\<not> eg_blocked g" "c \<noteq> []" "eg_action g = exfil_action_strip"
  shows "\<exists>brk \<le> length fresh. labelled exfil_strip_placeholder
      (map (\<lambda>i. fresh ! i) (filter (\<lambda>i. \<not> violating_at tools g w prev i) [0..<brk]))
      (fst (snd (exfil_filter_content tools g c)))
    \<and> eg_pending (fst (exfil_filter_content tools g c)) = text_runes (drop brk fresh)
    \<and> guard_ok tools (fst (exfil_filter_content tools g c)) \<and> same_policy (fst (exfil_filter_content tools g c)) g
    \<and> \<not> eg_drained (fst (exfil_filter_content tools g c)) \<and> \<not> eg_blocked (fst (exfil_filter_content tools g c))"
proof -
  let ?sp = "strip_spans tools g prev (length fresh) (extract_targets tools w prev)"
  define spans where "spans = sort_spans ?sp"
  define brk where "brk = hold_cut fresh spans (eg_window_size g)"
  have act: "eg_action g \<noteq> exfil_action_block" using assms(8) by (simp add: exfil_action_strip_def exfil_action_block_def)
  obtain g' reason where st: "exfil_filter_content tools g c = (g',
       (if spans = [] then take brk fresh else splice_spans (take brk fresh) (clip_spans_within spans brk) exfil_strip_placeholder),
       (if spans = [] then Action_pass else Action_redact), reason)"
      "guard_ok tools g'" "same_policy g' g" "\<not> eg_drained g'" "\<not> eg_blocked g'" "eg_pending g' = text_runes (drop brk fresh)"
    using exfil_step [OF assms(4-7) act] unfolding fresh_def w_def prev_def spans_def brk_def by metis
  have b: "brk \<le> length fresh" unfolding brk_def by (rule hold_cut_le)
  have cov: "covered spans i \<longleftrightarrow> violating_at tools g w prev i" if "i < brk" for i
    using strip_spans_covers [OF assms(8), of i "length fresh" tools prev w] that b by (simp add: spans_def)
  have len: "length (take brk fresh) = brk" using b by simp
  have "labelled exfil_strip_placeholder
      (map (\<lambda>i. fresh ! i) (filter (\<lambda>i. \<not> violating_at tools g w prev i) [0..<brk])) (fst (snd (exfil_filter_content tools g c)))"
  proof (cases "spans = []")
    case True
    then have "filter (\<lambda>i. \<not> violating_at tools g w prev i) [0..<brk] = [0..<brk]"
      using cov by (auto simp: covered_def filter_id_conv)
    moreover have "map (\<lambda>i. fresh ! i) [0..<brk] = take brk fresh" using b by (intro nth_equalityI) simp_all
    ultimately show ?thesis using True st(1) labelled_refl by simp
  next
    case False
    have ok: "spans_ok (length fresh) spans" unfolding spans_def by (rule strip_spans_ok)
    have "labelled exfil_strip_placeholder (uncovered_from 0 (take brk fresh) (clip_spans_within spans brk))
        (splice_spans (take brk fresh) (clip_spans_within spans brk) exfil_strip_placeholder)"
      unfolding splice_spans_def using clip_ok(1) [OF ok, of brk] len by (intro splice_labelled) simp
    moreover have "uncovered_from 0 (take brk fresh) (clip_spans_within spans brk)
        = map (\<lambda>i. fresh ! i) (filter (\<lambda>i. \<not> violating_at tools g w prev i) [0..<brk])"
      unfolding uncovered_from_def len using clip_ok(2) [OF ok] cov by (auto intro!: map_cong filter_cong)
    ultimately show ?thesis using False st(1) by simp
  qed
  then show ?thesis using b st by auto
qed

subsection \<open>A stream through the guard\<close>

fun exfil_run :: "url_tools \<Rightarrow> exfil_guard \<Rightarrow> string list \<Rightarrow> exfil_guard \<times> string" where
  "exfil_run tools g [] = (g, [])"
| "exfil_run tools g (c # cs) =
    (let (g, out, _, _) = exfil_filter_content tools g c;
         (g, outs) = exfil_run tools g cs
     in (g, out @ outs))"

definition exfil_stream :: "url_tools \<Rightarrow> exfil_config \<Rightarrow> string list \<Rightarrow> exfil_guard \<times> string" where
  "exfil_stream tools cfg cs =
    (let (g, out) = exfil_run tools (new_exfil_guard cfg) cs;
         (g', tail, _) = exfil_flush tools g
     in (g', out @ tail))"

definition only_logs :: "exfil_guard \<Rightarrow> bool" where
  "only_logs g \<longleftrightarrow> eg_action g \<noteq> exfil_action_block \<and> eg_action g \<noteq> exfil_action_strip \<and> \<not> eg_drained g \<and> \<not> eg_blocked g
     \<and> eg_window_size g = exfil_window_runes"

text \<open>The text held back, decoded.\<close>

definition held :: "exfil_guard \<Rightarrow> string \<Rightarrow> bool" where
  "held g p \<longleftrightarrow> eg_pending g = text_runes p \<and> valid_utf8 p \<and> rune_count p \<le> exfil_window_runes"

lemma log_spans: "only_logs g \<Longrightarrow> strip_spans tools g prev n ts = []"
  by (simp add: only_logs_def strip_spans_def)

lemma log_step_cut:
  assumes "guard_ok tools g" "only_logs g" "held g p" "valid_utf8 c" "c \<noteq> []"
  defines "brk \<equiv> hold_cut (p @ c) [] exfil_window_runes"
  shows "\<exists>g' reason. exfil_filter_content tools g c = (g', take brk (p @ c), Action_pass, reason)
    \<and> guard_ok tools g' \<and> only_logs g' \<and> held g' (drop brk (p @ c))"
proof -
  have g: "\<not> eg_drained g" "\<not> eg_blocked g" "eg_action g \<noteq> exfil_action_block" using assms(2) by (simp_all add: only_logs_def)
  have fresh: "fresh_text g c = p @ c" using assms(3) by (simp add: fresh_text_def held_def valid_runes_text)
  have v: "valid_utf8 (p @ c)" using assms(3,4) by (simp add: held_def valid_append)
  let ?b = "hold_cut (p @ c) [] exfil_window_runes"
  have nil: "sort_spans (strip_spans tools g prev n ts) = []" for prev n ts
    using log_spans [OF assms(2)] by (simp add: sort_spans_def)
  have sz: "eg_window_size g = exfil_window_runes" using assms(2) by (simp add: only_logs_def)
  have "\<exists>g' reason. exfil_filter_content tools g c = (g', take ?b (p @ c), Action_pass, reason)
      \<and> guard_ok tools g' \<and> same_policy g' g \<and> \<not> eg_drained g' \<and> \<not> eg_blocked g'
      \<and> eg_pending g' = text_runes (drop ?b (p @ c)) \<and> eg_window_size g' = eg_window_size g"
    by (rule exfil_step [OF assms(1) g(1,2) assms(5) g(3)]) (auto simp: nil fresh sz)
  then obtain g' reason where st: "exfil_filter_content tools g c = (g', take ?b (p @ c), Action_pass, reason)"
      "guard_ok tools g'" "same_policy g' g" "\<not> eg_drained g'" "\<not> eg_blocked g'"
      "eg_pending g' = text_runes (drop ?b (p @ c))" "eg_window_size g' = eg_window_size g"
    by blast
  have "only_logs g'" using assms(2) st(3-5,7) by (simp add: only_logs_def same_policy_def)
  moreover have "0 < exfil_window_runes" by (simp add: exfil_window_runes_def)
  then have "held g' (drop ?b (p @ c))"
    using hold_cut_plain [OF v] valid_drop [OF v] st(6) by (simp add: held_def del: append_assoc)
  ultimately show ?thesis using st(1,2) unfolding brk_def by blast
qed

lemma log_step:
  assumes "guard_ok tools g" "only_logs g" "held g p" "valid_utf8 c"
  shows "\<exists>g' out q act reason. exfil_filter_content tools g c = (g', out, act, reason) \<and> p @ c = out @ q
    \<and> guard_ok tools g' \<and> only_logs g' \<and> held g' q"
proof (cases "c = []")
  case True
  then show ?thesis using assms by (auto simp: exfil_filter_content_def only_logs_def)
next
  case False
  then show ?thesis using log_step_cut [OF assms] by (metis append_take_drop_id)
qed

lemma log_run:
  assumes "guard_ok tools g" "only_logs g" "held g p" "list_all valid_utf8 cs"
  shows "\<exists>g' out q. exfil_run tools g cs = (g', out) \<and> p @ concat cs = out @ q
    \<and> guard_ok tools g' \<and> only_logs g' \<and> held g' q"
  using assms
proof (induction cs arbitrary: g p)
  case (Cons c cs)
  have v: "valid_utf8 c" "list_all valid_utf8 cs" using Cons.prems(4) by simp_all
  obtain g1 out q act reason where c: "exfil_filter_content tools g c = (g1, out, act, reason)" "p @ c = out @ q"
      "guard_ok tools g1" "only_logs g1" "held g1 q"
    using log_step [OF Cons.prems(1-3) v(1)] by blast
  obtain g2 outs q2 where r: "exfil_run tools g1 cs = (g2, outs)" "q @ concat cs = outs @ q2"
      "guard_ok tools g2" "only_logs g2" "held g2 q2"
    using Cons.IH [OF c(3-5) v(2)] by blast
  have "p @ concat (c # cs) = (out @ outs) @ q2" using c(2) r(2) by (metis append.assoc concat.simps(2))
  then show ?case using c(1) r by auto
qed auto

lemma log_flush:
  assumes "guard_ok tools g" "only_logs g" "held g p"
  shows "\<exists>g'. exfil_flush tools g = (g', p, Action_pass) \<and> \<not> eg_blocked g'"
proof -
  let ?g = "g\<lparr>eg_drained := True, eg_pending := []\<rparr>"
  have p: "runes_text (eg_pending g) = p" using assms(3) by (simp add: held_def valid_runes_text)
  have sp: "same_policy ?g g" by (simp add: same_policy_def)
  have mo: "memo_ok tools ?g" using assms(1) same_policy_evaluate [OF sp] by (simp add: memo_ok_def guard_ok_def)
  have a: "eg_action ?g \<noteq> exfil_action_block" "eg_action ?g \<noteq> exfil_action_strip" using assms(2) by (simp_all add: only_logs_def)
  obtain g1 reason where scan: "scan_window tools ?g (p @ '' '') 0 (length p) = (g1, [], reason)" "eg_blocked g1 = eg_blocked ?g"
    using scan_loop_spec [OF mo a(1), of 0 "length p" "extract_targets tools (p @ '' '') 0" "[]" "[]"] a(2)
    by (auto simp: scan_window_def strip_spans_def sort_spans_def)
  show ?thesis using p scan assms(2) by (auto simp: exfil_flush_def only_logs_def Let_def)
qed

lemma new_logs:
  assumes "ec_action cfg = [] \<or> ec_action cfg = exfil_action_log"
  shows "guard_ok tools (new_exfil_guard cfg) \<and> only_logs (new_exfil_guard cfg) \<and> held (new_exfil_guard cfg) []"
  using assms
  by (auto simp: guard_ok_def memo_ok_def new_exfil_guard_def only_logs_def held_def text_runes_def rune_count_def
      exfil_action_log_def exfil_action_strip_def exfil_action_block_def)

text \<open>C29: (Egress guard) In log mode the guard delays text and changes nothing: however the model's output
  is cut into deltas, what the client gets over the stream and at its end is exactly that output, the
  guard never ends the stream, and at no moment does it hold back more than the window's 4096 runes.\<close>

theorem logged_stream_arrives_whole:
  assumes "list_all valid_utf8 cs" "ec_action cfg = [] \<or> ec_action cfg = exfil_action_log"
  shows "snd (exfil_stream tools cfg cs) = concat cs \<and> \<not> eg_blocked (fst (exfil_stream tools cfg cs))
    \<and> length (eg_pending (fst (exfil_run tools (new_exfil_guard cfg) cs))) \<le> exfil_window_runes"
proof -
  let ?g = "new_exfil_guard cfg"
  note new = new_logs [OF assms(2), of tools]
  then obtain g' out q where r: "exfil_run tools ?g cs = (g', out)" "[] @ concat cs = out @ q"
      "guard_ok tools g'" "only_logs g'" "held g' q"
    using log_run [of tools ?g "[]" cs] assms(1) by metis
  obtain g'' where f: "exfil_flush tools g' = (g'', q, Action_pass)" "\<not> eg_blocked g''"
    using log_flush [OF r(3-5)] by blast
  show ?thesis using r f by (simp add: exfil_stream_def held_def)
qed

subsection \<open>Stripping\<close>

definition strips :: "url_tools \<Rightarrow> exfil_config \<Rightarrow> string list \<Rightarrow> exfil_guard \<Rightarrow> bool" where
  "strips tools cfg cs g \<longleftrightarrow> guard_ok tools g \<and> same_policy g (new_exfil_guard cfg) \<and> \<not> eg_drained g \<and> \<not> eg_blocked g
     \<and> eg_window_size g = exfil_window_runes \<and> eg_window g = last_n exfil_window_runes (stream_runes cs)"

lemma strip_step:
  assumes "strips tools cfg cs g" "ec_action cfg = exfil_action_strip"
  shows "strips tools cfg (cs @ [c]) (fst (exfil_filter_content tools g c))"
proof (cases "c = []")
  case True
  then show ?thesis using assms by (auto simp: exfil_filter_content_def strips_def text_runes_def)
next
  case False
  have act: "eg_action g = exfil_action_strip"
    using assms by (simp add: strips_def same_policy_def new_exfil_guard_def exfil_action_strip_def)
  then have nb: "eg_action g \<noteq> exfil_action_block" by (simp add: exfil_action_strip_def exfil_action_block_def)
  have g: "guard_ok tools g" "\<not> eg_drained g" "\<not> eg_blocked g" "same_policy g (new_exfil_guard cfg)"
      "eg_window_size g = exfil_window_runes" "eg_window g = last_n exfil_window_runes (stream_runes cs)"
    using assms(1) by (simp_all add: strips_def)
  have w: "next_window g c = last_n exfil_window_runes (stream_runes (cs @ [c]))"
    using g(5,6) by (simp add: next_window_def last_n_append)
  show ?thesis
  proof (rule exfil_step [OF g(1-3) False nb], goal_cases)
    case (1 g' reason)
    then show ?thesis using g(4,5) w by (simp add: strips_def same_policy_def)
  qed
qed

lemma strip_run:
  assumes "strips tools cfg ds g" "ec_action cfg = exfil_action_strip"
  shows "strips tools cfg (ds @ cs) (fst (exfil_run tools g cs))"
  using assms(1)
proof (induction cs arbitrary: g ds)
  case (Cons c cs)
  then show ?case using Cons.IH [OF strip_step [OF Cons.prems assms(2), of c]] by (simp add: split_beta)
qed simp


definition example_tools :: url_tools where
  "example_tools = \<lparr>parse_url = (\<lambda>s. Some \<lparr>url_scheme = ''ftp'', url_host = s, url_hostname = s, url_raw_query = []\<rparr>),
     parse_ip_addr = (\<lambda>_. None), markdown_links = (\<lambda>_. []),
     bare_urls = (\<lambda>s. case str_index s ''ftp://x'' of None \<Rightarrow> [] | Some i \<Rightarrow> [(i, i + 7)])\<rparr>"

definition strip_config :: exfil_config where
  "strip_config = \<lparr>ec_action = exfil_action_strip, ec_allowed_hosts = [], ec_max_query_chars = 0, ec_allow_ip_literals = None\<rparr>"

lemmas guard_eval = exfil_filter_content_def new_exfil_guard_def strip_config_def exfil_action_strip_def append_rune_window_def
  exfil_window_runes_def ascii_runes ascii_rune_count scan_window_def extract_targets_def example_tools_def has_prefix_def
  hold_cut_def last_ws_cut_def hold_ws_def extend_completed_spans.simps sort_spans_def Let_def exfil_action_block_def
  verdict_of_def evaluate_url_def exfil_reason_scheme_def exfil_max_tracked_urls_def overlaps_def is_url_terminator_def
  consider_target_def slice_def target_span_def splice_spans_def exfil_strip_placeholder_def

lemma example_run:
  "fst (exfil_run example_tools (new_exfil_guard strip_config) [''go ft''])
     = (new_exfil_guard strip_config)\<lparr>eg_window := [''g'', ''o'', '' '', ''f'', ''t''], eg_window_len := 5, eg_pending := [''f'', ''t'']\<rparr>"
  by (simp add: guard_eval)


theorem logged_stream_arrives_whole_witness:
  "snd (exfil_stream example_tools (strip_config\<lparr>ec_action := []\<rparr>) [''go ft'', ''p://x no'', ''w'']) = ''go ftp://x now''"
proof -
  have "list_all valid_utf8 [''go ft'', ''p://x no'', ''w'']" by (simp add: valid_ascii)
  then show ?thesis
    using logged_stream_arrives_whole [of "[''go ft'', ''p://x no'', ''w'']" "strip_config\<lparr>ec_action := []\<rparr>" example_tools] by simp
qed

subsection \<open>Entropy of a query\<close>

lemma foldl_minus: "foldl (\<lambda>e n. e - f n) a xs = a - sum_list (map f xs)" for f :: "nat \<Rightarrow> real"
  by (induction xs arbitrary: a) simp_all

lemma entropy_sum:
  assumes "token \<noteq> []"
  shows "shannon_entropy token = - (\<Sum>r \<in> set (text_runes token).
    real (count_list (text_runes token) r) / real (rune_count token)
      * log 2 (real (count_list (text_runes token) r) / real (rune_count token)))"
proof -
  let ?rs = "text_runes token"
  let ?f = "\<lambda>n. real n / real (rune_count token) * log 2 (real n / real (rune_count token))"
  have "shannon_entropy token = - sum_list (map ?f (rune_frequencies token))"
    using assms text_runes_ne [OF assms] by (simp add: shannon_entropy_def Let_def foldl_minus)
  also have "sum_list (map ?f (rune_frequencies token)) = sum_list (map ?f (map (count_list ?rs) (remdups ?rs)))"
    unfolding rune_frequencies_def sum_mset_sum_list [symmetric] mset_map mset_sort ..
  also have "\<dots> = (\<Sum>r \<in> set ?rs. ?f (count_list ?rs r))"
    by (simp add: o_def sum_list_distinct_conv_sum_set)
  finally show ?thesis .
qed

lemma entropy_le_log_distinct:
  assumes "token \<noteq> []"
  shows "shannon_entropy token \<le> log 2 (real (card (set (text_runes token))))"
proof -
  let ?rs = "text_runes token"
  let ?S = "set ?rs"
  define n where "n = real (rune_count token)"
  define k where "k = real (card ?S)"
  define p where "p r = real (count_list ?rs r) / n" for r
  have n: "0 < n" using text_runes_ne [OF assms] by (simp add: n_def)
  have ne: "?S \<noteq> {}" using text_runes_ne [OF assms] by (metis length_text_runes length_greater_0_conv set_empty)
  then have k: "0 < k" by (simp add: k_def card_gt_0_iff)
  have pos: "0 < p r" if "r \<in> ?S" for r using that n by (simp add: p_def count_list_0_iff zero_less_iff_neq_zero)
  have one: "(\<Sum>r \<in> ?S. p r) = 1"
  proof -
    have "(\<Sum>r \<in> ?S. count_list ?rs r) = length ?rs" by (rule sum_count_set) simp_all
    then have "(\<Sum>r \<in> ?S. real (count_list ?rs r)) = n" by (simp add: n_def flip: of_nat_sum)
    then show ?thesis using n by (simp add: p_def flip: sum_divide_distrib)
  qed
  have "- (\<Sum>r \<in> ?S. p r * log 2 (p r)) - log 2 k = (\<Sum>r \<in> ?S. p r * (- log 2 (p r) - log 2 k))"
    using one by (simp add: sum_subtractf sum_negf algebra_simps flip: sum_distrib_right)
  also have "\<dots> \<le> (\<Sum>r \<in> ?S. (1 / k - p r) / ln 2)"
  proof (rule sum_mono)
    fix r assume r: "r \<in> ?S"
    have "- log 2 (p r) - log 2 k = ln (1 / (k * p r)) / ln 2"
      using pos [OF r] k by (simp add: log_def ln_div ln_mult diff_divide_distrib add_divide_distrib)
    also have "\<dots> \<le> (1 / (k * p r) - 1) / ln 2"
      using pos [OF r] k by (intro divide_right_mono ln_le_minus_one) simp_all
    finally have "p r * (- log 2 (p r) - log 2 k) \<le> p r * ((1 / (k * p r) - 1) / ln 2)"
      using pos [OF r] by (intro mult_left_mono) simp_all
    also have "\<dots> = (1 / k - p r) / ln 2" using pos [OF r] k by (simp add: field_simps)
    finally show "p r * (- log 2 (p r) - log 2 k) \<le> (1 / k - p r) / ln 2" .
  qed
  also have "\<dots> = ((\<Sum>r \<in> ?S. 1 / k) - (\<Sum>r \<in> ?S. p r)) / ln 2" by (simp only: sum_divide_distrib [symmetric] sum_subtractf)
  also have "\<dots> = 0" using one ne by (simp add: k_def)
  finally have "- (\<Sum>r \<in> ?S. p r * log 2 (p r)) \<le> log 2 k" by simp
  then show ?thesis unfolding entropy_sum [OF assms] p_def n_def k_def .
qed

text \<open>(Egress guard) The entropy test never fires on a query of at most 32 distinct characters, so data
  smuggled in hexadecimal (16 digits) or base 32 passes it whatever its content; only the length
  threshold bounds such a query.\<close>

theorem small_alphabets_are_never_smuggling:
  assumes "card (set (text_runes q)) \<le> 32" and "int (length q) \<le> eg_max_query_chars g"
  shows "evaluate_query g q = []"
proof (cases "q = []")
  case False
  have "0 < card (set (text_runes q))"
    using text_runes_ne [OF False] by (metis card_gt_0_iff finite_set length_greater_0_conv length_text_runes set_empty)
  then have "log 2 (real (card (set (text_runes q)))) \<le> log 2 (2 ^ 5)"
    using assms(1) by (subst log_le_cancel_iff) simp_all
  also have "\<dots> = 5" by (subst log_nat_power) simp_all
  finally have "shannon_entropy q \<le> 5" using entropy_le_log_distinct [OF False] by linarith
  then show ?thesis using assms(2) by (simp add: evaluate_query_def exfil_query_entropy_bits_def)
qed (use assms in \<open>simp add: evaluate_query_def exfil_min_entropy_query_chars_def\<close>)

theorem small_alphabets_are_never_smuggling_witness:
  "evaluate_query (new_exfil_guard strip_config) ''d=6b65793d7365637265742d746f6b656e'' = []"
proof (rule small_alphabets_are_never_smuggling)
  show "card (set (text_runes ''d=6b65793d7365637265742d746f6b656e'')) \<le> 32"
    by (simp add: ascii_runes card_insert_if)
  show "int (length ''d=6b65793d7365637265742d746f6b656e'') \<le> eg_max_query_chars (new_exfil_guard strip_config)"
    by (simp add: new_exfil_guard_def strip_config_def default_exfil_max_query_chars_def)
qed

text \<open>(Egress guard) In every mode, block mode included, whatever precedes the last 4096 runes of one
  delta is never judged: a delta of any text followed by that many blanks is delivered whole and
  unflagged, provided the blanks hold no link.\<close>

theorem oversized_delta_is_not_scanned:
  assumes "valid_utf8 u" and "pad = replicate exfil_window_runes (CHR '' '')"
    and "markdown_links tools pad = []" "bare_urls tools pad = []"
  shows "snd (exfil_filter_content tools (new_exfil_guard cfg) (u @ pad)) = (u @ pad, Action_pass, [])"
proof -
  have asc: "list_all (\<lambda>c. byte c < 128) pad" using assms(2) by (simp add: list_all_iff)
  have len: "length pad = exfil_window_runes" "pad \<noteq> []" using assms(2) by (simp_all add: exfil_window_runes_def)
  have r: "text_runes (u @ pad) = text_runes u @ map (\<lambda>c. [c]) pad" using text_runes_append [OF assms(1)] ascii_runes [OF asc] by simp
  have "last_n exfil_window_runes (text_runes (u @ pad)) = map (\<lambda>c. [c]) pad" unfolding r using len by (simp add: last_n_def)
  then have app: "append_rune_window [] 0 exfil_window_runes (u @ pad) = (map (\<lambda>c. [c]) pad, exfil_window_runes)"
    using append_rune_window_last [of "[]" exfil_window_runes 0 "u @ pad"] len by simp
  have joined: "concat (map (\<lambda>c. [c]) pad) = pad" by (induction pad) simp_all
  have scan: "scan_window tools g pad prev n = (g, [], [])" for g prev n
    using assms(3,4) by (simp add: scan_window_def extract_targets_def sort_spans_def)
  obtain m where "exfil_window_runes = Suc m" by (simp add: exfil_window_runes_def)
  then have "rev (u @ pad) = CHR '' '' # replicate m (CHR '' '') @ rev u"
    by (simp add: assms(2) flip: replicate_Suc)
  then have "takeWhile (\<lambda>c. \<not> hold_ws c) (rev (u @ pad)) = []" by (simp only:) (simp add: hold_ws_def)
  then have "last_ws_cut (u @ pad) = length (u @ pad)" unfolding last_ws_cut_def by simp
  then have brk: "hold_cut (u @ pad) [] exfil_window_runes = length (u @ pad)" by (simp add: hold_cut_def extend_none)
  show ?thesis using len(2) app joined scan brk
    by (simp add: exfil_filter_content_def new_exfil_guard_def Let_def)
qed

theorem oversized_delta_is_not_scanned_witness:
  "snd (exfil_filter_content example_tools (new_exfil_guard (strip_config\<lparr>ec_action := exfil_action_block\<rparr>))
       (''ftp://x '' @ replicate exfil_window_runes (CHR '' ''))) = (''ftp://x '' @ replicate exfil_window_runes (CHR '' ''), Action_pass, [])"
proof (rule oversized_delta_is_not_scanned [OF _ refl])
  show "valid_utf8 ''ftp://x ''" by (rule valid_ascii) simp
  have "str_index (replicate n (CHR '' '')) ''ftp://x'' = None" for n by (induction n) (simp_all add: has_prefix_def)
  then show "bare_urls example_tools (replicate exfil_window_runes (CHR '' '')) = []" by (simp add: example_tools_def)
  show "markdown_links example_tools (replicate exfil_window_runes (CHR '' '')) = []" by (simp add: example_tools_def)
qed

end
