(* ===== verification/StreamSurface.thy ===== *)
theory StreamSurface
  imports ExfilGuard UsageNorm
begin

text \<open>
  The text surfaces of a streamed chunk and the filters run over them: the walkers of
  internal/stream/filter.go, the surface bookkeeping and the flush chunk of exfil.go, entropy.go, and
  \<^verbatim>\<open>applyStreamFilters\<close> of reader_pipeline.go, which runs the stream filter, the egress guard, the
  canary watcher and the entropy redactor over a decoded chunk. The maps the code changes in place
  are returned changed; a \<^verbatim>\<open>nil\<close> chunk is \<open>None\<close>.
\<close>

type_synonym chunk = "(string, json) gomap"

subsection \<open>Where the text is\<close>

definition exfil_content_keys :: "string list" where
  "exfil_content_keys = [''content'', ''text'', ''thinking'', ''reasoning_content'']"

text \<open>\<^verbatim>\<open>choices[0]\<close> as an object.\<close>

definition choice_zero :: "chunk \<Rightarrow> (string, json) gomap option" where
  "choice_zero chunk = (case as_arr (map_of chunk ''choices'') of
     Some (c # _) \<Rightarrow> as_obj (Some c) | _ \<Rightarrow> None)"

text \<open>The delta object, and whether it is at the top level (Anthropic) or in the first choice.\<close>

definition sse_delta :: "chunk \<Rightarrow> (bool \<times> (string, json) gomap) option" where
  "sse_delta parsed =
    (case as_obj (map_of parsed ''delta'') of
       Some delta \<Rightarrow> Some (True, delta)
     | None \<Rightarrow>
        (case choice_zero parsed of
           Some choice \<Rightarrow> map_option (Pair False) (as_obj (map_of choice ''delta''))
         | None \<Rightarrow> None))"

definition put_delta :: "bool \<Rightarrow> (string, json) gomap \<Rightarrow> chunk \<Rightarrow> chunk" where
  "put_delta outer delta parsed =
    (if outer then put ''delta'' (Obj delta) parsed
     else case as_arr (map_of parsed ''choices'') of
       Some (Obj choice # rest) \<Rightarrow> put ''choices'' (Arr (Obj (put ''delta'' (Obj delta) choice) # rest)) parsed
     | _ \<Rightarrow> parsed)"

definition gemini_parts :: "chunk \<Rightarrow> json list" where
  "gemini_parts parsed =
    (case as_arr (map_of parsed ''candidates'') of
       Some (Obj candidate # _) \<Rightarrow>
         (case as_obj (map_of candidate ''content'') of
            Some content \<Rightarrow> (case as_arr (map_of content ''parts'') of Some parts \<Rightarrow> parts | None \<Rightarrow> [])
          | None \<Rightarrow> [])
     | _ \<Rightarrow> [])"

definition put_gemini_parts :: "json list \<Rightarrow> chunk \<Rightarrow> chunk" where
  "put_gemini_parts parts parsed =
    (case as_arr (map_of parsed ''candidates'') of
       Some (Obj candidate # rest) \<Rightarrow>
         (case as_obj (map_of candidate ''content'') of
            Some content \<Rightarrow>
              (if as_arr (map_of content ''parts'') = None then parsed
               else put ''candidates'' (Arr (Obj (put ''content'' (Obj (put ''parts'' (Arr parts) content)) candidate) # rest)) parsed)
          | None \<Rightarrow> parsed)
     | _ \<Rightarrow> parsed)"

text \<open>A field holding a non-empty string.\<close>

definition text_field :: "(string, json) gomap \<Rightarrow> string \<Rightarrow> string option" where
  "text_field m k = (case as_str (map_of m k) of Some t \<Rightarrow> if t \<noteq> [] then Some t else None | None \<Rightarrow> None)"

subsection \<open>The walkers\<close>

text \<open>The function applied to a surface has a state of its own, the filter.\<close>

type_synonym 's surface_fn = "'s \<Rightarrow> string \<Rightarrow> 's \<times> string \<times> filter_action"

fun delta_loop ::
  "'s surface_fn \<Rightarrow> 's \<Rightarrow> (string, json) gomap \<Rightarrow> bool \<Rightarrow> string list \<Rightarrow> 's \<times> (string, json) gomap \<times> bool \<times> bool" where
  "delta_loop fn s delta rewrote [] = (s, delta, False, rewrote)"
| "delta_loop fn s delta rewrote (key # keys) =
    (case text_field delta key of
       None \<Rightarrow> delta_loop fn s delta rewrote keys
     | Some t \<Rightarrow>
        (let (s, out, action) = fn s t in
         if action = Action_block then (s, delta, True, rewrote)
         else if out \<noteq> t then delta_loop fn s (put key (Str out) delta) True keys
         else delta_loop fn s delta rewrote keys))"

definition for_each_delta_text_part :: "'s surface_fn \<Rightarrow> 's \<Rightarrow> chunk \<Rightarrow> 's \<times> chunk \<times> bool \<times> bool" where
  "for_each_delta_text_part fn s parsed =
    (case sse_delta parsed of
       None \<Rightarrow> (s, parsed, False, False)
     | Some (outer, delta) \<Rightarrow>
        (let (s, delta, blocked, rewrote) = delta_loop fn s delta False exfil_content_keys
         in (s, put_delta outer delta parsed, blocked, rewrote)))"

fun gemini_loop :: "'s surface_fn \<Rightarrow> 's \<Rightarrow> json list \<Rightarrow> 's \<times> json list \<times> bool \<times> bool" where
  "gemini_loop fn s [] = (s, [], False, False)"
| "gemini_loop fn s (p # ps) =
    (case p of
       Obj part \<Rightarrow>
         (case text_field part ''text'' of
            None \<Rightarrow> (let (s, ps, blocked, rewrote) = gemini_loop fn s ps in (s, p # ps, blocked, rewrote))
          | Some t \<Rightarrow>
             (let (s, out, action) = fn s t in
              if action = Action_block then (s, p # ps, True, False)
              else
                let (s, ps, blocked, rewrote) = gemini_loop fn s ps
                in if out \<noteq> t then (s, Obj (put ''text'' (Str out) part) # ps, blocked, True)
                   else (s, p # ps, blocked, rewrote)))
     | _ \<Rightarrow> (let (s, ps, blocked, rewrote) = gemini_loop fn s ps in (s, p # ps, blocked, rewrote)))"

definition for_each_gemini_text_part :: "'s surface_fn \<Rightarrow> 's \<Rightarrow> chunk \<Rightarrow> 's \<times> chunk \<times> bool \<times> bool" where
  "for_each_gemini_text_part fn s parsed =
    (let (s, parts, blocked, rewrote) = gemini_loop fn s (gemini_parts parsed)
     in (s, put_gemini_parts parts parsed, blocked, rewrote))"

definition for_each_filterable_text_part :: "'s surface_fn \<Rightarrow> 's \<Rightarrow> chunk \<Rightarrow> 's \<times> chunk \<times> bool \<times> bool" where
  "for_each_filterable_text_part fn s parsed =
    (let (s, parsed, blocked, rewrote) = for_each_delta_text_part fn s parsed
     in if blocked then (s, parsed, True, rewrote) else for_each_gemini_text_part fn s parsed)"

definition has_filterable_text :: "chunk \<Rightarrow> bool" where
  "has_filterable_text parsed =
     fst (for_each_filterable_text_part (\<lambda>visited content. (True, content, Action_pass)) False parsed)"

subsection \<open>The shape of a surface\<close>

record exfil_surface =
  es_anthropic :: bool
  es_gemini :: bool
  es_key :: string
  es_index :: int
  es_has_index :: bool

definition no_surface :: exfil_surface where
  "no_surface = \<lparr>es_anthropic = False, es_gemini = False, es_key = [], es_index = 0, es_has_index = False\<rparr>"

definition exfil_delta_key :: "(string, json) gomap \<Rightarrow> string option" where
  "exfil_delta_key delta = find (\<lambda>key. text_field delta key \<noteq> None) exfil_content_keys"

definition openai_delta_surface :: "chunk \<Rightarrow> exfil_surface option" where
  "openai_delta_surface parsed =
    (case choice_zero parsed of
       None \<Rightarrow> None
     | Some choice \<Rightarrow>
        (case as_obj (map_of choice ''delta'') of
           None \<Rightarrow> None
         | Some delta \<Rightarrow> map_option (\<lambda>key. no_surface\<lparr>es_key := key\<rparr>) (exfil_delta_key delta)))"

definition exfil_surface_of :: "chunk \<Rightarrow> exfil_surface" where
  "exfil_surface_of parsed =
    (case (case as_obj (map_of parsed ''delta'') of None \<Rightarrow> None | Some delta \<Rightarrow> exfil_delta_key delta) of
       Some key \<Rightarrow>
         (let s = no_surface\<lparr>es_anthropic := True, es_key := key\<rparr>
          in case map_of parsed ''index'' of Some (Num q) \<Rightarrow> s\<lparr>es_index := go_int q, es_has_index := True\<rparr> | _ \<Rightarrow> s)
     | None \<Rightarrow>
        (case openai_delta_surface parsed of
           Some s \<Rightarrow> s
         | None \<Rightarrow>
            if list_ex (\<lambda>p. case as_obj (Some p) of None \<Rightarrow> False | Some part \<Rightarrow> text_field part ''text'' \<noteq> None) (gemini_parts parsed)
            then no_surface\<lparr>es_gemini := True, es_key := ''text''\<rparr>
            else no_surface))"

definition build_exfil_flush_chunk :: "exfil_surface \<Rightarrow> string \<Rightarrow> chunk" where
  "build_exfil_flush_chunk s t =
    (let index = (if es_has_index s then [(''index'', Num (rat_of_int (es_index s)))] else [])
     in if es_anthropic s \<and> es_key s = ''thinking'' then
          (''type'', Str ''content_block_delta'') # index
            @ [(''delta'', Obj [(''type'', Str ''thinking_delta''), (''thinking'', Str t)])]
        else if es_anthropic s then
          (''type'', Str ''content_block_delta'') # index
            @ [(''delta'', Obj [(''type'', Str ''text_delta''), (''text'', Str t)])]
        else if es_key s = ''reasoning_content'' then
          [(''choices'', Arr [Obj [(''index'', Num 0), (''delta'', Obj [(''reasoning_content'', Str t)])]])]
        else if es_gemini s then
          [(''candidates'', Arr [Obj [(''content'', Obj [(''role'', Str ''model''), (''parts'', Arr [Obj [(''text'', Str t)]])])]])]
        else [(''choices'', Arr [Obj [(''index'', Num 0), (''delta'', Obj [(''content'', Str t)])]])])"

definition flush_exfil_held_frame :: "url_tools \<Rightarrow> exfil_guard option \<Rightarrow> chunk \<Rightarrow> exfil_guard option \<times> chunk option" where
  "flush_exfil_held_frame tools guard last_parsed =
    (case guard of
       None \<Rightarrow> (None, None)
     | Some g \<Rightarrow>
        (let (g, held, action) = exfil_flush tools g in
         if held = [] \<or> action = Action_block then (Some g, None)
         else (Some g, Some (build_exfil_flush_chunk (exfil_surface_of last_parsed) held))))"

definition extract_exfil_content :: "chunk \<Rightarrow> string" where
  "extract_exfil_content parsed =
    (case sse_delta parsed of
       None \<Rightarrow> []
     | Some (_, delta) \<Rightarrow>
        (case exfil_delta_key delta of None \<Rightarrow> [] | Some key \<Rightarrow> str_field delta key))"

definition set_exfil_content :: "chunk \<Rightarrow> string \<Rightarrow> chunk \<times> bool" where
  "set_exfil_content parsed new_content =
    (case sse_delta parsed of
       None \<Rightarrow> (parsed, False)
     | Some (outer, delta) \<Rightarrow>
        (case exfil_delta_key delta of
           None \<Rightarrow> (parsed, False)
         | Some key \<Rightarrow> (put_delta outer (put key (Str new_content) delta) parsed, True)))"

definition extract_delta_content_from_map :: "chunk \<Rightarrow> string" where
  "extract_delta_content_from_map chunk =
    (case choice_zero chunk of
       None \<Rightarrow> []
     | Some choice \<Rightarrow> (case as_obj (map_of choice ''delta'') of None \<Rightarrow> [] | Some delta \<Rightarrow> str_field delta ''content''))"

definition extract_finish_reason_from_map :: "chunk \<Rightarrow> string" where
  "extract_finish_reason_from_map chunk =
    (case choice_zero chunk of None \<Rightarrow> [] | Some choice \<Rightarrow> str_field choice ''finish_reason'')"

subsection \<open>Thinking\<close>

definition check_content_block_start :: "chunk \<Rightarrow> bool \<times> bool" where
  "check_content_block_start chunk =
    (case as_obj (map_of chunk ''content_block'') of
       None \<Rightarrow> (False, False)
     | Some cb \<Rightarrow>
        (case as_str (map_of cb ''type'') of
           None \<Rightarrow> (False, False)
         | Some cb_type \<Rightarrow>
            if cb_type = ''thinking'' then (True, True)
            else if cb_type \<noteq> ''thinking'' \<and> cb_type \<noteq> [] then (False, True)
            else (False, False)))"

definition check_anthropic_thinking :: "chunk \<Rightarrow> bool \<times> bool" where
  "check_anthropic_thinking chunk =
    (case as_str (map_of chunk ''type'') of
       None \<Rightarrow> (False, False)
     | Some event_type \<Rightarrow>
        if event_type = ''content_block_start'' then check_content_block_start chunk
        else if event_type = ''content_block_delta'' then
          (case as_obj (map_of chunk ''delta'') of
             None \<Rightarrow> (False, False)
           | Some delta \<Rightarrow>
              (case as_str (map_of delta ''type'') of
                 None \<Rightarrow> (False, False)
               | Some delta_type \<Rightarrow> if delta_type = ''thinking_delta'' then (True, True) else (False, False)))
        else (False, False))"

definition extract_thinking_signal :: "chunk \<Rightarrow> bool \<times> bool" where
  "extract_thinking_signal chunk =
    (case (case choice_zero chunk of None \<Rightarrow> None | Some choice \<Rightarrow> as_obj (map_of choice ''delta'')) of
       None \<Rightarrow> check_anthropic_thinking chunk
     | Some delta \<Rightarrow>
        (case as_str (map_of delta ''reasoning_content'') of
           Some r \<Rightarrow> if r \<noteq> [] then (True, True) else (False, True)
         | None \<Rightarrow>
            (case as_str (map_of delta ''content'') of
               Some c \<Rightarrow> if c \<noteq> [] then (False, True) else check_anthropic_thinking chunk
             | None \<Rightarrow> check_anthropic_thinking chunk)))"

subsection \<open>The filters over a chunk\<close>

record entropy_filter =
  ef_redact :: "string \<Rightarrow> string \<Rightarrow> string"
  ef_redact_label :: string
  ef_window :: "string list"
  ef_window_size :: nat
  ef_window_len :: nat

definition new_stream_entropy_filter :: "(string \<Rightarrow> string \<Rightarrow> string) \<Rightarrow> string \<Rightarrow> int \<Rightarrow> entropy_filter" where
  "new_stream_entropy_filter redact redact_label window_size =
    \<lparr>ef_redact = redact, ef_redact_label = redact_label, ef_window = [],
     ef_window_size = (if window_size \<le> 0 then 4096 else nat window_size), ef_window_len = 0\<rparr>"

definition entropy_filter_content :: "entropy_filter \<Rightarrow> string \<Rightarrow> entropy_filter \<times> string \<times> filter_action" where
  "entropy_filter_content f content =
    (if content = [] then (f, content, Action_pass)
     else
       let (w, n) = append_rune_window (ef_window f) (ef_window_len f) (ef_window_size f) content;
           f = f\<lparr>ef_window := w, ef_window_len := n\<rparr>;
           redacted = ef_redact f content (ef_redact_label f)
       in if redacted \<noteq> content then (f, redacted, Action_redact) else (f, content, Action_pass))"

definition apply_stream_filter ::
  "(string \<Rightarrow> string) \<Rightarrow> chunk \<Rightarrow> stream_filter \<Rightarrow> stream_filter \<times> chunk option \<times> filter_action" where
  "apply_stream_filter to_upper parsed f =
    (let ((f, action), parsed, blocked, _) =
           for_each_filterable_text_part
             (\<lambda>(f, action) content.
                (let (f, redacted, a, _) = filter_content to_upper f content
                 in if a = Action_block then ((f, action), content, Action_block)
                    else ((f, if a = Action_redact then Action_redact else action), redacted, a)))
             (f, Action_pass) parsed
     in if blocked then (f, None, Action_block) else (f, Some parsed, action))"

definition apply_canary_watcher :: "chunk \<Rightarrow> canary_watcher \<Rightarrow> canary_watcher \<times> chunk option" where
  "apply_canary_watcher parsed w =
    (let (w, parsed, blocked, _) =
           for_each_filterable_text_part
             (\<lambda>w content. (let (w, _, action, _) = canary_filter_content w content
                           in (w, content, if action = Action_block then Action_block else Action_pass)))
             w parsed
     in (w, if blocked then None else Some parsed))"

definition apply_exfil_guard ::
  "url_tools \<Rightarrow> chunk \<Rightarrow> exfil_guard \<Rightarrow> exfil_guard \<times> chunk option \<times> bool" where
  "apply_exfil_guard tools parsed g =
    (let ((g, rewrote), parsed, blocked, _) =
           for_each_filterable_text_part
             (\<lambda>(g, rewrote) content.
                (let (g, rewritten, action, _) = exfil_filter_content tools g content
                 in ((g, rewrote \<or> rewritten \<noteq> content), rewritten, action)))
             (g, False) parsed
     in if blocked then (g, None, True) else (g, Some parsed, rewrote))"

definition apply_entropy_filter :: "chunk \<Rightarrow> entropy_filter \<Rightarrow> entropy_filter \<times> chunk \<times> bool" where
  "apply_entropy_filter parsed f =
    (let ((f, rewrote), parsed, _, _) =
           for_each_filterable_text_part
             (\<lambda>(f, rewrote) content.
                (let (f, redacted, a) = entropy_filter_content f content
                 in if a = Action_redact \<and> redacted \<noteq> content then ((f, True), redacted, a) else ((f, rewrote), content, a)))
             (f, False) parsed
     in (f, parsed, rewrote))"

text \<open>The filters of a reader, and the surface the egress guard saw last.\<close>

record stream_filters =
  fs_filter :: "stream_filter option"
  fs_exfil :: "exfil_guard option"
  fs_canary :: "canary_watcher option"
  fs_entropy :: "entropy_filter option"
  fs_last_surface :: exfil_surface

definition apply_exfil_stage ::
  "url_tools \<Rightarrow> stream_filters \<Rightarrow> exfil_guard \<Rightarrow> chunk \<Rightarrow> stream_filters \<times> chunk option \<times> bool \<times> bool" where
  "apply_exfil_stage tools r g parsed =
    (let r = (if has_filterable_text parsed then r\<lparr>fs_last_surface := exfil_surface_of parsed\<rparr> else r);
         (g, out, mutated) = apply_exfil_guard tools parsed g
     in (r\<lparr>fs_exfil := Some g\<rparr>, out, mutated, eg_blocked g))"

text \<open>The four stages of \<^verbatim>\<open>applyStreamFilters\<close>; a stage answers \<open>None\<close> for the chunk when it blocks.\<close>

definition filter_stage ::
  "(string \<Rightarrow> string) \<Rightarrow> stream_filters \<Rightarrow> chunk \<Rightarrow> stream_filters \<times> (chunk \<times> bool) option" where
  "filter_stage to_upper r parsed =
    (case fs_filter r of
       None \<Rightarrow> (r, Some (parsed, False))
     | Some f \<Rightarrow>
        if sf_blocked f then (r, Some (parsed, False))
        else
          let (f, out, action) = apply_stream_filter to_upper parsed f;
              r = r\<lparr>fs_filter := Some f\<rparr>
          in if sf_blocked f then (r, None)
             else (r, map_option (\<lambda>p. (p, action = Action_redact)) out))"

definition exfil_stage ::
  "url_tools \<Rightarrow> stream_filters \<Rightarrow> chunk \<Rightarrow> stream_filters \<times> (chunk \<times> bool) option" where
  "exfil_stage tools r parsed =
    (case fs_exfil r of
       None \<Rightarrow> (r, Some (parsed, False))
     | Some g \<Rightarrow>
        if eg_blocked g then (r, Some (parsed, False))
        else
          let (r, out, changed, blocked) = apply_exfil_stage tools r g parsed
          in if blocked then (r, None) else (r, map_option (\<lambda>p. (p, changed)) out))"

definition canary_stage :: "stream_filters \<Rightarrow> chunk \<Rightarrow> stream_filters \<times> (chunk \<times> bool) option" where
  "canary_stage r parsed =
    (case fs_canary r of
       None \<Rightarrow> (r, Some (parsed, False))
     | Some w \<Rightarrow>
        if canary_is_blocked w then (r, Some (parsed, False))
        else
          let (w, out) = apply_canary_watcher parsed w;
              r = r\<lparr>fs_canary := Some w\<rparr>
          in if canary_is_blocked w then (r, None) else (r, map_option (\<lambda>p. (p, False)) out))"

definition entropy_stage :: "stream_filters \<Rightarrow> chunk \<Rightarrow> stream_filters \<times> (chunk \<times> bool) option" where
  "entropy_stage r parsed =
    (case fs_entropy r of
       None \<Rightarrow> (r, Some (parsed, False))
     | Some f \<Rightarrow>
        (let (f, out, changed) = apply_entropy_filter parsed f in (r\<lparr>fs_entropy := Some f\<rparr>, Some (out, changed))))"

text \<open>Run one stage on what the stages before it left.\<close>

definition and_then ::
  "(stream_filters \<Rightarrow> chunk \<Rightarrow> stream_filters \<times> (chunk \<times> bool) option) \<Rightarrow>
     stream_filters \<times> (chunk \<times> bool) option \<Rightarrow> stream_filters \<times> (chunk \<times> bool) option" where
  "and_then stage acc =
    (case acc of
       (r, None) \<Rightarrow> (r, None)
     | (r, Some (parsed, mutated)) \<Rightarrow>
        (let (r, out) = stage r parsed in (r, map_option (\<lambda>(p, changed). (p, mutated \<or> changed)) out)))"

definition apply_stream_filters ::
  "(string \<Rightarrow> string) \<Rightarrow> url_tools \<Rightarrow> stream_filters \<Rightarrow> chunk option \<Rightarrow> stream_filters \<times> (chunk \<times> bool) option" where
  "apply_stream_filters to_upper tools r parsed =
    (case parsed of
       None \<Rightarrow> (r, None)
     | Some p \<Rightarrow>
        and_then entropy_stage (and_then canary_stage (and_then (exfil_stage tools) (filter_stage to_upper r p))))"

definition any_filter_blocked :: "stream_filters \<Rightarrow> bool" where
  "any_filter_blocked r \<longleftrightarrow>
     (case fs_filter r of None \<Rightarrow> False | Some f \<Rightarrow> sf_blocked f)
     \<or> (case fs_exfil r of None \<Rightarrow> False | Some g \<Rightarrow> eg_blocked g)
     \<or> (case fs_canary r of None \<Rightarrow> False | Some w \<Rightarrow> canary_is_blocked w)"

datatype stream_error = Err_stream_blocked | Err_exfil_blocked | Err_canary_detected

definition blocked_stream_error :: "stream_filters \<Rightarrow> stream_error" where
  "blocked_stream_error r =
    (if (case fs_canary r of None \<Rightarrow> False | Some w \<Rightarrow> canary_is_blocked w) then Err_canary_detected
     else if (case fs_exfil r of None \<Rightarrow> False | Some g \<Rightarrow> eg_blocked g) then Err_exfil_blocked
     else Err_stream_blocked)"

subsection \<open>Every surface is filtered\<close>

text \<open>The texts of a chunk in the order of the walk, and the filter applied to one after the other up to
  the first block.\<close>

definition part_text :: "json \<Rightarrow> string option" where
  "part_text p = (case p of Obj part \<Rightarrow> text_field part ''text'' | _ \<Rightarrow> None)"

definition delta_texts :: "chunk \<Rightarrow> string list" where
  "delta_texts parsed =
    (case sse_delta parsed of None \<Rightarrow> [] | Some (_, delta) \<Rightarrow> List.map_filter (text_field delta) exfil_content_keys)"

definition surface_texts :: "chunk \<Rightarrow> string list" where
  "surface_texts parsed = delta_texts parsed @ List.map_filter part_text (gemini_parts parsed)"

fun visit :: "'s surface_fn \<Rightarrow> 's \<Rightarrow> string list \<Rightarrow> 's \<times> string list \<times> bool" where
  "visit fn s [] = (s, [], False)"
| "visit fn s (t # ts) =
    (let (s, out, action) = fn s t in
     if action = Action_block then (s, [], True)
     else let (s, outs, blocked) = visit fn s ts in (s, out # outs, blocked))"

lemma visit_append:
  "visit fn s (ts @ us) =
    (let (s1, outs, blocked) = visit fn s ts in
     if blocked then (s1, outs, True)
     else let (s2, outs2, blocked2) = visit fn s1 us in (s2, outs @ outs2, blocked2))"
  by (induction ts arbitrary: s) (auto simp: Let_def split: prod.splits if_splits)

lemma map_filter_Cons:
  "List.map_filter f (x # xs) = (case f x of None \<Rightarrow> List.map_filter f xs | Some y \<Rightarrow> y # List.map_filter f xs)"
  by (simp add: List.map_filter_simps)

lemma text_field_put: "text_field (put k (Str v) m) k' = (if k' = k then (if v = [] then None else Some v) else text_field m k')"
  by (simp add: text_field_def map_of_put)

lemma text_field_ne: "text_field m k = Some t \<Longrightarrow> t \<noteq> []"
  by (auto simp: text_field_def split: option.splits if_splits)

lemma delta_loop_visit:
  assumes "distinct keys" "delta_loop fn s delta rewrote keys = (s', delta', blocked, rewrote')"
    and "visit fn s (List.map_filter (text_field delta) keys) = (s2, outs, blocked2)"
  shows "s' = s2 \<and> blocked = blocked2 \<and> (\<forall>k. k \<notin> set keys \<longrightarrow> text_field delta' k = text_field delta k)
    \<and> (\<not> blocked \<longrightarrow> List.map_filter (text_field delta') keys = filter (\<lambda>t. t \<noteq> []) outs)"
  using assms
proof (induction keys arbitrary: s delta rewrote s2 outs blocked2)
  case Nil
  then show ?case by (auto simp: List.map_filter_simps)
next
  case (Cons k keys)
  have d: "k \<notin> set keys" "distinct keys" using Cons.prems(1) by simp_all
  show ?case
  proof (cases "text_field delta k")
    case None
    then show ?thesis using Cons.IH [OF d(2)] Cons.prems(2,3) d(1) by (auto simp: map_filter_Cons)
  next
    case (Some t)
    obtain s1 out act where fn: "fn s t = (s1, out, act)" by (cases "fn s t")
    show ?thesis
    proof (cases "act = Action_block")
      case True
      then show ?thesis using Cons.prems(2,3) Some fn by (auto simp: map_filter_Cons)
    next
      case False
      let ?d = "if out \<noteq> t then put k (Str out) delta else delta"
      obtain outs' where v: "visit fn s1 (List.map_filter (text_field delta) keys) = (s2, outs', blocked2)" "outs = out # outs'"
        using Cons.prems(3) Some fn False by (auto simp: map_filter_Cons split: prod.splits)
      have same: "List.map_filter (text_field ?d) keys = List.map_filter (text_field delta) keys"
        using d(1) by (auto simp: List.map_filter_def text_field_put intro!: filter_cong map_cong)
      have l: "delta_loop fn s1 ?d (if out \<noteq> t then True else rewrote) keys = (s', delta', blocked, rewrote')"
        using Cons.prems(2) Some fn False by (auto split: if_splits)
      note IH = Cons.IH [OF d(2) l, unfolded same, OF v(1)]
      have "text_field ?d k = (if out = [] then None else Some out)"
        using Some text_field_ne [OF Some] by (auto simp: text_field_put)
      moreover have "text_field delta' k = text_field ?d k" using IH d(1) by blast
      ultimately show ?thesis using IH v(2) by (auto simp: map_filter_Cons text_field_put)
    qed
  qed
qed

lemma gemini_loop_visit:
  assumes "gemini_loop fn s parts = (s', parts', blocked, rewrote)"
    and "visit fn s (List.map_filter part_text parts) = (s2, outs, blocked2)"
  shows "s' = s2 \<and> blocked = blocked2 \<and> (\<not> blocked \<longrightarrow> List.map_filter part_text parts' = filter (\<lambda>t. t \<noteq> []) outs)"
  using assms
proof (induction parts arbitrary: s s' parts' blocked rewrote s2 outs blocked2)
  case Nil
  then show ?case by (auto simp: List.map_filter_simps)
next
  case (Cons p ps)
  show ?case
  proof (cases "part_text p")
    case None
    then obtain ps' where l: "gemini_loop fn s ps = (s', ps', blocked, rewrote)" "parts' = p # ps'"
      using Cons.prems(1) by (cases p) (auto simp: part_text_def split: prod.splits)
    show ?thesis using Cons.IH [OF l(1)] Cons.prems(2) None l(2) by (simp add: map_filter_Cons)
  next
    case (Some t)
    then obtain part where p: "p = Obj part" "text_field part ''text'' = Some t" by (cases p) (auto simp: part_text_def)
    obtain s1 out act where fn: "fn s t = (s1, out, act)" by (cases "fn s t")
    show ?thesis
    proof (cases "act = Action_block")
      case True
      then show ?thesis using Cons.prems Some p fn by (auto simp: map_filter_Cons)
    next
      case False
      obtain ps' rw where l: "gemini_loop fn s1 ps = (s', ps', blocked, rw)"
          "parts' = (if out \<noteq> t then Obj (put ''text'' (Str out) part) else p) # ps'"
        using Cons.prems(1) p fn False by (auto split: prod.splits if_splits)
      obtain outs' where v: "visit fn s1 (List.map_filter part_text ps) = (s2, outs', blocked2)" "outs = out # outs'"
        using Cons.prems(2) Some fn False by (auto simp: map_filter_Cons split: prod.splits)
      have "part_text (if out \<noteq> t then Obj (put ''text'' (Str out) part) else p) = (if out = [] then None else Some out)"
        using p text_field_ne [OF p(2)] by (auto simp: part_text_def text_field_put)
      then show ?thesis using Cons.IH [OF l(1) v(1)] l(2) v(2) by (simp add: map_filter_Cons)
    qed
  qed
qed

lemma sse_delta_put: "sse_delta parsed = Some (outer, d) \<Longrightarrow> sse_delta (put_delta outer d' parsed) = Some (outer, d')"
  by (auto simp: sse_delta_def put_delta_def choice_zero_def map_of_put split: option.splits list.splits json.splits
      elim!: as_arr.elims as_obj.elims)

lemma gemini_put_delta: "gemini_parts (put_delta outer d parsed) = gemini_parts parsed"
  by (auto simp: gemini_parts_def put_delta_def map_of_put split: option.splits list.splits json.splits)

lemma sse_delta_put_gemini: "sse_delta (put_gemini_parts ps parsed) = sse_delta parsed"
  by (auto simp: sse_delta_def put_gemini_parts_def choice_zero_def map_of_put split: option.splits list.splits json.splits)

lemma gemini_put_gemini:
  "gemini_parts parsed \<noteq> [] \<or> ps = [] \<Longrightarrow> gemini_parts (put_gemini_parts ps parsed) = ps"
  by (auto simp: gemini_parts_def put_gemini_parts_def map_of_put split: option.splits list.splits json.splits
      elim!: as_arr.elims as_obj.elims)

lemma distinct_keys: "distinct exfil_content_keys"
  by (simp add: exfil_content_keys_def)

text \<open>C20: (Stream filters) A filter run over a chunk sees every piece of model text in it, in order, and the
  chunk that goes on carries exactly what the filter answered: the walk over the OpenAI or Anthropic
  delta fields and over every Gemini part is the filter applied to one text after the other, stopped at
  the first block, and, when nothing is blocked, the texts of the changed chunk are the answers.\<close>

theorem every_surface_is_filtered:
  assumes "for_each_filterable_text_part fn s parsed = (s', parsed', blocked, rewrote)"
    and "visit fn s (surface_texts parsed) = (s2, outs, blocked2)"
  shows "s' = s2 \<and> blocked = blocked2
    \<and> (\<not> blocked \<longrightarrow> surface_texts parsed' = filter (\<lambda>t. t \<noteq> []) outs)"
proof -
  obtain s1 p1 b1 r1 where d: "for_each_delta_text_part fn s parsed = (s1, p1, b1, r1)"
    by (cases "for_each_delta_text_part fn s parsed")
  obtain s3 outs1 b3 where v: "visit fn s (delta_texts parsed) = (s3, outs1, b3)" by (cases "visit fn s (delta_texts parsed)")
  have D: "s1 = s3 \<and> b1 = b3 \<and> gemini_parts p1 = gemini_parts parsed \<and> (\<not> b1 \<longrightarrow> delta_texts p1 = filter (\<lambda>t. t \<noteq> []) outs1)"
  proof (cases "sse_delta parsed")
    case None
    then show ?thesis using d v by (auto simp: for_each_delta_text_part_def delta_texts_def)
  next
    case (Some od)
    obtain outer delta where od: "od = (outer, delta)" by (cases od)
    obtain s4 delta' b4 r4 where l: "delta_loop fn s delta False exfil_content_keys = (s4, delta', b4, r4)"
      by (cases "delta_loop fn s delta False exfil_content_keys")
    have v': "visit fn s (List.map_filter (text_field delta) exfil_content_keys) = (s3, outs1, b3)"
      using v Some od by (simp add: delta_texts_def)
    have p1: "p1 = put_delta outer delta' parsed" "s1 = s4" "b1 = b4"
      using d Some od l by (simp_all add: for_each_delta_text_part_def)
    have "sse_delta p1 = Some (outer, delta')" unfolding p1(1) using Some od by (intro sse_delta_put) simp
    then show ?thesis
      using delta_loop_visit [OF distinct_keys l v'] p1 gemini_put_delta [of outer delta' parsed]
      by (auto simp: delta_texts_def)
  qed
  show ?thesis
  proof (cases b1)
    case True
    then show ?thesis using D d v assms by (auto simp: for_each_filterable_text_part_def surface_texts_def visit_append)
  next
    case False
    obtain s5 ps b5 r5 where g: "gemini_loop fn s1 (gemini_parts p1) = (s5, ps, b5, r5)"
      by (cases "gemini_loop fn s1 (gemini_parts p1)")
    have e: "s' = s5" "parsed' = put_gemini_parts ps p1" "blocked = b5"
      using assms(1) d False g by (simp_all add: for_each_filterable_text_part_def for_each_gemini_text_part_def)
    obtain outs2 where w: "visit fn s1 (List.map_filter part_text (gemini_parts p1)) = (s2, outs2, blocked2)" "outs = outs1 @ outs2"
      using assms(2) D v False by (auto simp: surface_texts_def visit_append split: prod.splits)
    note G = gemini_loop_visit [OF g w(1)]
    have "gemini_parts p1 \<noteq> [] \<or> ps = []" using g by (cases "gemini_parts p1") auto
    then have "surface_texts parsed' = delta_texts p1 @ List.map_filter part_text ps"
      unfolding e(2) surface_texts_def using gemini_put_gemini [of p1 ps] sse_delta_put_gemini [of ps p1] by (simp add: delta_texts_def)
    then show ?thesis using G e D False w(2) by auto
  qed
qed

definition openai_chunk :: "string \<Rightarrow> string \<Rightarrow> chunk" where
  "openai_chunk key t = [(''choices'', Arr [Obj [(''delta'', Obj [(key, Str t)])]])]"

theorem every_surface_is_filtered_witness:
  "surface_texts (fst (snd (for_each_filterable_text_part (\<lambda>n t. (n + 1, t @ ''!'', Action_pass)) (0 :: nat)
       (openai_chunk ''content'' ''a'' @ [(''candidates'', Arr [Obj [(''content'', Obj [(''parts'', Arr [Obj [(''text'', Str ''b'')]])])]])]))))
     = [''a!'', ''b!'']"
proof -
  let ?fn = "\<lambda>n t. (n + 1, t @ ''!'', Action_pass)" and ?s = "0 :: nat"
  let ?c = "openai_chunk ''content'' ''a'' @ [(''candidates'', Arr [Obj [(''content'', Obj [(''parts'', Arr [Obj [(''text'', Str ''b'')]])])]])]"
  have t: "surface_texts ?c = [''a'', ''b'']"
    by (simp add: surface_texts_def delta_texts_def sse_delta_def choice_zero_def openai_chunk_def gemini_parts_def
        exfil_content_keys_def map_filter_Cons text_field_def part_text_def List.map_filter_simps)
  have v: "visit ?fn ?s (surface_texts ?c) = (2, [''a!'', ''b!''], False)" unfolding t by simp
  obtain s' c' b r where f: "for_each_filterable_text_part ?fn ?s ?c = (s', c', b, r)"
    by (cases "for_each_filterable_text_part ?fn ?s ?c")
  show ?thesis using every_surface_is_filtered [OF f v] unfolding f by simp
qed

text \<open>The chunk that flushes a held tail carries it, once.\<close>

lemma flush_chunk_text: "t \<noteq> [] \<Longrightarrow> surface_texts (build_exfil_flush_chunk s t) = [t]"
  by (auto simp: build_exfil_flush_chunk_def Let_def surface_texts_def delta_texts_def sse_delta_def choice_zero_def
      gemini_parts_def exfil_content_keys_def map_filter_Cons text_field_def part_text_def List.map_filter_simps)

subsection \<open>A held tail changes surface\<close>

text \<open>The second answer of the walk is that of the Gemini parts alone: a rewritten delta is not reported.\<close>

lemma walk_openai_chunk:
  assumes "key \<in> set exfil_content_keys" "t \<noteq> []" "fn s t = (s', out, act)" "act \<noteq> Action_block"
  shows "for_each_filterable_text_part fn s (openai_chunk key t) = (s', openai_chunk key out, False, False)"
proof -
  have k: "key = ''content'' \<or> key = ''text'' \<or> key = ''thinking'' \<or> key = ''reasoning_content''"
    using assms(1) by (simp add: exfil_content_keys_def)
  have "sse_delta (openai_chunk key t) = Some (False, [(key, Str t)])"
    by (simp add: sse_delta_def openai_chunk_def choice_zero_def)
  moreover have "delta_loop fn s [(key, Str t)] False exfil_content_keys = (s', [(key, Str out)], False, out \<noteq> t)"
    using k assms(2-4) by (elim disjE) (simp_all add: exfil_content_keys_def text_field_def)
  moreover have "put_delta False [(key, Str out)] (openai_chunk key t) = openai_chunk key out"
    by (simp add: put_delta_def openai_chunk_def)
  ultimately have "for_each_delta_text_part fn s (openai_chunk key t) = (s', openai_chunk key out, False, out \<noteq> t)"
    by (simp add: for_each_delta_text_part_def)
  moreover have "for_each_gemini_text_part fn s' (openai_chunk key out) = (s', openai_chunk key out, False, False)"
    by (simp add: for_each_gemini_text_part_def gemini_parts_def put_gemini_parts_def openai_chunk_def)
  ultimately show ?thesis by (simp add: for_each_filterable_text_part_def)
qed

lemma cut_at_end:
  assumes "s \<noteq> []" "hold_ws (last s)"
  shows "hold_cut s [] n = length s"
proof -
  have "takeWhile (\<lambda>c. \<not> hold_ws c) (rev s) = []" using assms by (cases "rev s") (auto simp flip: hd_rev)
  then have "last_ws_cut s = length s" unfolding last_ws_cut_def by simp
  then show ?thesis by (simp add: hold_cut_def extend_none)
qed

lemma cut_at_start:
  assumes "list_all (\<lambda>c. \<not> hold_ws c) s" "length s \<le> n"
  shows "hold_cut s [] n = 0"
proof -
  have "takeWhile (\<lambda>c. \<not> hold_ws c) (rev s) = rev s" using assms(1) by (simp add: takeWhile_eq_all_conv list_all_iff)
  then have "last_ws_cut s = 0" by (simp only: last_ws_cut_def length_rev diff_self_eq_0)
  then show ?thesis using assms(2) by (simp add: hold_cut_def extend_none)
qed

lemma exfil_on_openai_chunk:
  assumes "exfil_filter_content tools g t = (g', out, Action_pass, reason)" "key \<in> set exfil_content_keys" "t \<noteq> []"
  shows "apply_exfil_guard tools (openai_chunk key t) g = (g', Some (openai_chunk key out), out \<noteq> t)"
  unfolding apply_exfil_guard_def
  by (subst walk_openai_chunk [OF assms(2,3), where act = Action_pass]) (auto simp: assms(1))

text \<open>(Egress guard) The held tail does not belong to a surface: in log mode, with no link anywhere, the
  last word \<open>u\<close> of a reasoning delta is withheld from the reasoning and comes out at the head of the next
  content delta \<open>v\<close>, so reasoning text reaches the client as part of the answer.\<close>

theorem held_tail_changes_surface:
  assumes "ec_action cfg = [] \<or> ec_action cfg = exfil_action_log"
    and "valid_utf8 u" "u \<noteq> []" "list_all (\<lambda>c. \<not> hold_ws c) u" "length u \<le> exfil_window_runes"
    and "valid_utf8 v" "v \<noteq> []" "hold_ws (last v)"
  shows "\<exists>g1 g2. apply_exfil_guard tools (openai_chunk ''reasoning_content'' u) (new_exfil_guard cfg)
        = (g1, Some (openai_chunk ''reasoning_content'' []), True)
    \<and> apply_exfil_guard tools (openai_chunk ''content'' v) g1 = (g2, Some (openai_chunk ''content'' (u @ v)), True)"
proof -
  have keys: "''reasoning_content'' \<in> set exfil_content_keys" "''content'' \<in> set exfil_content_keys"
    by (simp_all add: exfil_content_keys_def)
  have new: "guard_ok tools (new_exfil_guard cfg)" "only_logs (new_exfil_guard cfg)" "held (new_exfil_guard cfg) []"
    using new_logs [OF assms(1)] by blast+
  obtain g1 r1 where g1: "exfil_filter_content tools (new_exfil_guard cfg) u = (g1, [], Action_pass, r1)"
      "guard_ok tools g1" "only_logs g1" "held g1 u"
    using log_step_cut [OF new assms(2,3)] cut_at_start [OF assms(4,5)] by auto
  have "hold_cut (u @ v) [] exfil_window_runes = length (u @ v)" using assms(7,8) by (intro cut_at_end) auto
  then obtain g2 r2 where g2: "exfil_filter_content tools g1 v = (g2, u @ v, Action_pass, r2)"
    using log_step_cut [OF g1(2-4) assms(6,7)] by auto
  show ?thesis
    using exfil_on_openai_chunk [OF g1(1) keys(1) assms(3)] exfil_on_openai_chunk [OF g2 keys(2) assms(7)] assms(3) by simp
qed

theorem held_tail_changes_surface_witness:
  "\<exists>g1 g2. apply_exfil_guard example_tools (openai_chunk ''reasoning_content'' ''key'') (new_exfil_guard (strip_config\<lparr>ec_action := []\<rparr>))
        = (g1, Some (openai_chunk ''reasoning_content'' []), True)
    \<and> apply_exfil_guard example_tools (openai_chunk ''content'' ''Hi '') g1 = (g2, Some (openai_chunk ''content'' ''keyHi ''), True)"
  using held_tail_changes_surface [of "strip_config\<lparr>ec_action := []\<rparr>" "''key''" "''Hi ''" example_tools]
  by (simp add: valid_ascii hold_ws_def exfil_window_runes_def)

end
