(* ===== verification/AdapterErrors.thy ===== *)
theory AdapterErrors
  imports ErrorText
begin

text \<open>
  internal/adapter: the error classes of the provider adapters (\<^verbatim>\<open>NormalizeError\<close>) and the registry
  that chooses one by provider name. An adapter is its Go type; those that embed or delegate to
  the default rule have their own constructor all the same. The adapter's decoding of an error
  envelope is an argument.
\<close>

datatype adapter_class = Error_permanent | Error_retryable | Error_rate_limited | Error_quota_exhausted
  | Error_concurrency_limited

fun class_string :: "adapter_class \<Rightarrow> string" where
  "class_string Error_permanent = ''permanent''"
| "class_string Error_retryable = ''retryable''"
| "class_string Error_rate_limited = ''rate_limited''"
| "class_string Error_quota_exhausted = ''quota_exhausted''"
| "class_string Error_concurrency_limited = ''concurrency_limited''"

datatype adapter_kind = OpenAI_adapter | OpenRouter_adapter | Anthropic_adapter | Mistral_adapter | XAI_adapter
  | Azure_adapter | Perplexity_adapter | Cohere_adapter | DeepInfra_adapter | Ollama_adapter | Gemini_adapter
  | ZAI_adapter

definition adapter_common_patterns :: "string list" where
  "adapter_common_patterns =
    [''unavailable_model'', ''tokens_limit_reached'', ''context_length_exceeded'', ''context length'',
     ''model_overloaded'', ''overloaded'', ''thought_signature'', ''name cannot be empty'',
     ''messages parameter is illegal'', ''unknown_model'', ''max_tokens'', ''rate_limit_exceeded'',
     ''extra_forbidden'', ''enable-auto-tool-choice'', ''tool_call_parser'', ''valid string'']"

definition adapter_gemini_patterns :: "string list" where
  "adapter_gemini_patterns =
    [''resource_exhausted'', ''the response was blocked'', ''content has no parts'', ''quota exceeded'']"

definition default_normalize_error :: "int \<Rightarrow> string \<Rightarrow> adapter_class" where
  "default_normalize_error status body =
     (if status = 429 then Error_rate_limited
      else if status \<in> {500, 502, 503, 504} then Error_retryable
      else if status \<in> {400, 413, 422} then
        (if body = [] then Error_permanent
         else if contains_any (to_lower body) adapter_common_patterns then Error_retryable
         else Error_permanent)
      else Error_permanent)"

definition anthropic_normalize_error :: "int \<Rightarrow> string \<Rightarrow> adapter_class" where
  "anthropic_normalize_error status body =
     (if status = 429 then Error_rate_limited
      else if status \<in> {500, 502, 503, 504} then Error_retryable
      else if status = 400 then
        (let lower = to_lower body in
         if str_contains lower ''overloaded'' \<or> str_contains lower ''rate'' then Error_retryable
         else Error_permanent)
      else if status = 529 then Error_rate_limited
      else Error_permanent)"

definition ollama_normalize_error :: "int \<Rightarrow> string \<Rightarrow> adapter_class" where
  "ollama_normalize_error status body =
     (if status = 429 then Error_rate_limited
      else if status \<in> {500, 502, 503, 504} then Error_retryable
      else Error_permanent)"

definition gemini_normalize_error :: "int \<Rightarrow> string \<Rightarrow> adapter_class" where
  "gemini_normalize_error status body =
     (if status = 429 then Error_rate_limited
      else if status \<in> {500, 502, 503, 504} then Error_retryable
      else if status \<in> {400, 413, 422} then
        (if body = [] then Error_permanent
         else let lower = to_lower body in
           if contains_any lower adapter_gemini_patterns then Error_retryable
           else if contains_any lower adapter_common_patterns then Error_retryable
           else Error_permanent)
      else Error_permanent)"

text \<open>\<open>code_of\<close> decodes \<^verbatim>\<open>error.code\<close>; \<open>None\<close> when the body does not decode.\<close>

definition zai_code_class :: "string \<Rightarrow> adapter_class option" where
  "zai_code_class code =
     (if code = ''1302'' then Some Error_concurrency_limited
      else if code = ''1303'' then Some Error_rate_limited
      else if code = ''1308'' \<or> code = ''1310'' then Some Error_quota_exhausted
      else if code = ''1312'' then Some Error_retryable
      else if code = ''1311'' \<or> code = ''1313'' then Some Error_permanent
      else None)"

definition zai_normalize_error :: "(string \<Rightarrow> string option) \<Rightarrow> int \<Rightarrow> string \<Rightarrow> adapter_class" where
  "zai_normalize_error code_of status body =
     (if body = [] then default_normalize_error status body
      else case (case code_of body of
             None \<Rightarrow> None | Some code \<Rightarrow> if code \<noteq> [] then zai_code_class code else None) of
        Some c \<Rightarrow> c
      | None \<Rightarrow> (if str_contains (to_lower body) ''model_context_window_exceeded'' then Error_retryable
                  else default_normalize_error status body))"

fun normalize_error :: "(string \<Rightarrow> string option) \<Rightarrow> adapter_kind \<Rightarrow> int \<Rightarrow> string \<Rightarrow> adapter_class" where
  "normalize_error code_of Anthropic_adapter status body = anthropic_normalize_error status body"
| "normalize_error code_of Ollama_adapter status body = ollama_normalize_error status body"
| "normalize_error code_of Gemini_adapter status body = gemini_normalize_error status body"
| "normalize_error code_of ZAI_adapter status body = zai_normalize_error code_of status body"
| "normalize_error code_of _ status body = default_normalize_error status body"

text \<open>The registry after \<^verbatim>\<open>init\<close>; the shims of \<^verbatim>\<open>gemini\<close> and \<^verbatim>\<open>zai\<close> are replaced by the adapters.\<close>

definition adapter_registry :: "(string, adapter_kind) gomap" where
  "adapter_registry =
    [(''openai'', OpenAI_adapter), (''deepseek'', OpenAI_adapter), (''gemini'', Gemini_adapter),
     (''zai'', ZAI_adapter), (''zai-coding-plan'', ZAI_adapter), (''groq'', OpenAI_adapter),
     (''together'', OpenAI_adapter), (''github'', OpenAI_adapter), (''openrouter'', OpenRouter_adapter),
     (''anthropic'', Anthropic_adapter), (''mistral'', Mistral_adapter), (''xai'', XAI_adapter),
     (''azure'', Azure_adapter), (''perplexity'', Perplexity_adapter), (''cohere'', Cohere_adapter),
     (''deepinfra'', DeepInfra_adapter), (''sambanova'', OpenAI_adapter), (''cerebras'', OpenAI_adapter),
     (''nvidia'', OpenAI_adapter), (''nvidia_free'', OpenAI_adapter), (''qwen_free'', OpenAI_adapter),
     (''minimax_free'', OpenAI_adapter), (''ollama'', Ollama_adapter), (''zen'', OpenAI_adapter),
     (''moonshot'', OpenAI_adapter)]"

definition for_provider :: "string \<Rightarrow> adapter_kind" where
  "for_provider name = (case map_of adapter_registry (to_lower name) of
     Some a \<Rightarrow> a | None \<Rightarrow> OpenAI_adapter)"

subsection \<open>Which classes an adapter can answer\<close>

lemma default_classes:
  "default_normalize_error status body \<in> {Error_permanent, Error_retryable, Error_rate_limited}"
  by (simp add: default_normalize_error_def)

text \<open>Only the adapter of ZAI knows quota and concurrency classes.\<close>

lemma quota_only_zai:
  "normalize_error code_of a status body \<in> {Error_quota_exhausted, Error_concurrency_limited} \<Longrightarrow> a = ZAI_adapter"
  using default_classes [of status body]
  by (cases a) (auto simp: anthropic_normalize_error_def ollama_normalize_error_def gemini_normalize_error_def
      Let_def split: if_splits)

text \<open>
  The word \<^verbatim>\<open>rate\<close> of Anthropic's rule is looked for anywhere in the body, so a rejection
  that speaks of what the model would \<^verbatim>\<open>generate\<close> is retryable.
\<close>

theorem any_word_with_rate_is_retryable:
  assumes "str_contains (to_lower body) ''rate''"
  shows "normalize_error code_of (for_provider ''Anthropic'') 400 body = Error_retryable"
proof -
  have "for_provider ''Anthropic'' = Anthropic_adapter" by code_simp
  then show ?thesis using assms by (simp add: anthropic_normalize_error_def)
qed

theorem any_word_with_rate_is_retryable_witness:
  "normalize_error (\<lambda>_. None) (for_provider ''Anthropic'') 400
     ''no tokens left to generate'' = Error_retryable"
  by (rule any_word_with_rate_is_retryable) code_simp

end
