(* ===== verification/Probes.thy ===== *)
theory Probes
  imports Breaker_Props
begin

text \<open>
  Half-open probes as a ledger. \<^verbatim>\<open>Allow\<close> takes a probe slot of a half-open circuit; the outcome of
  the dispatch gives it back: \<^verbatim>\<open>ReleaseHalfOpen\<close> or one of the methods that record a result. The
  dispatch code is responsible for pairing them, and its theorems rest on the laws proved here.
\<close>

definition probes_out :: "breaker \<Rightarrow> string \<Rightarrow> nat" where
  "probes_out cb k = (case map_of (circuits cb) k of
     None \<Rightarrow> 0 | Some c \<Rightarrow> if c_state c = HalfOpen then unat (half_open_inflight c) else 0)"

text \<open>The operations that end a dispatch to \<open>key\<close>.\<close>

fun settles :: "string \<Rightarrow> cb_op \<Rightarrow> bool" where
  "settles key (OpFailure t k ov) = (k = key)"
| "settles key (OpOpaque t k) = (k = key \<and> key \<noteq> [])"
| "settles key (OpFailureStatus t r k status body) = (k = key)"
| "settles key (OpSuccess t k) = (k = key)"
| "settles key (OpSuccessModel t k m) = (k = key)"
| "settles key (OpRelease k) = (k = key)"
| "settles key (OpForce t k d) = (k = key \<and> key \<noteq> [] \<and> d > 0)"
| "settles key _ = False"

lemma probes_out_frame [simp]:
  "probes_out (cb\<lparr>events := e\<rparr>) = probes_out cb"
  "probes_out (cb\<lparr>backoff := b\<rparr>) = probes_out cb"
  "probes_out (cb\<lparr>model_locks := l\<rparr>) = probes_out cb"
  "probes_out (cb\<lparr>evictions := n\<rparr>) = probes_out cb"
  by (simp_all add: fun_eq_iff probes_out_def)

definition circuit_probes :: "circuit \<Rightarrow> nat" where
  "circuit_probes c = (if c_state c = HalfOpen then unat (half_open_inflight c) else 0)"

lemma probes_out_store [simp]:
  "probes_out (store k c cb) k' = (if k' = k then circuit_probes c else probes_out cb k')"
  by (simp add: probes_out_def circuit_probes_def)

lemma probes_out_eq: "map_of (circuits cb) k = Some c \<Longrightarrow> probes_out cb k = circuit_probes c"
  by (simp add: probes_out_def circuit_probes_def)

lemma evicts_probes: "evicts_to cb cb' \<Longrightarrow> probes_out cb' k \<le> probes_out cb k"
  by (auto simp: evicts_to_def probes_out_def split: option.split)

lemma get_or_create_probes:
  "probes_out (snd (get_or_create now key cb)) k \<le> probes_out cb k"
  "circuit_probes (fst (get_or_create now key cb)) \<le> probes_out cb key"
proof -
  let ?e = "evict_for_capacity now cb"
  have e: "probes_out ?e k' \<le> probes_out cb k'" for k'
    by (rule evicts_probes [OF evict_for_capacity_evicts])
  have f: "circuit_probes (fst (get_or_create now key cb)) = probes_out ?e key"
    by (simp add: get_or_create_def Let_def circuit_probes_def probes_out_def new_circuit_def split: option.split)
  show "circuit_probes (fst (get_or_create now key cb)) \<le> probes_out cb key"
    using e [of key] f by simp
  show "probes_out (snd (get_or_create now key cb)) k \<le> probes_out cb k"
  proof (cases "k = key")
    case True
    then show ?thesis using e [of key] f get_or_create_stored [of now key cb] by (simp add: probes_out_eq)
  next
    case False
    then have "probes_out (snd (get_or_create now key cb)) k = probes_out ?e k"
      by (simp add: get_or_create_def Let_def probes_out_def map_of_put)
    then show ?thesis using e [of k] by simp
  qed
qed

lemma probes_out_set_state [simp]: "probes_out (snd (set_state now key s c cb)) = probes_out cb"
  by (simp add: set_state_def fun_eq_iff probes_out_def)

lemma circuit_probes_idle [simp]: "c_state c \<noteq> HalfOpen \<Longrightarrow> circuit_probes c = 0"
  by (simp add: circuit_probes_def)

lemma set_state_state [simp]: "c_state (fst (set_state now key s c cb)) = s"
  by (simp add: set_state_def)

lemma set_state_probes: "c_state c \<noteq> s \<Longrightarrow> circuit_probes (fst (set_state now key s c cb)) = 0"
  by (simp add: set_state_def circuit_probes_def)

lemma circuit_probes_frame [simp]:
  "circuit_probes (c\<lparr>last_change := x\<rparr>) = circuit_probes c"
  "circuit_probes (c\<lparr>expiry := x\<rparr>) = circuit_probes c"
  "circuit_probes (c\<lparr>last_error_class := ec, last_error_body := b, last_error_status := s\<rparr>) = circuit_probes c"
  "circuit_probes (count_request c) = circuit_probes c"
  "circuit_probes (count_failure c) = circuit_probes c"
  "circuit_probes (count_success c) = circuit_probes c"
  by (simp_all add: circuit_probes_def count_defs Let_def)

lemma unat_minus_one: "0 < (w :: u32) \<Longrightarrow> unat (w - 1) = unat w - 1"
  by (simp add: unat_sub word_le_nat_alt unat_gt_0 Suc_leI)

lemma circuit_probes_release [simp]: "circuit_probes (release_inflight c) = circuit_probes c - 1"
  by (simp add: circuit_probes_def release_inflight_def unat_minus_one not_less)

lemma probes_apply_model_lock [simp]: "probes_out (apply_model_lock key d now cb) = probes_out cb"
  by (simp add: apply_model_lock_def Let_def split_beta)

lemma release_half_open_probes:
  "probes_out (release_half_open key cb) k = probes_out cb k - (if k = key then 1 else 0)"
  by (simp add: release_half_open_def probes_out_def map_of_put store_def unat_minus_one unat_gt_0
      word_neq_0_conv split: option.split)

lemma allow_probes:
  "probes_out (snd (allow t key cb)) k
     \<le> probes_out cb k + (if k = key \<and> fst (allow t key cb) then 1 else 0)"
proof -
  let ?c = "fst (get_or_create (t_get t) key cb)" and ?b = "snd (get_or_create (t_get t) key cb)"
  have b: "probes_out ?b k \<le> probes_out cb k" and c: "circuit_probes ?c \<le> probes_out cb key"
    by (rule get_or_create_probes)+
  have i: "circuit_probes (count_inflight c) \<le> Suc (circuit_probes c)" for c
    by (simp add: circuit_probes_def count_inflight_def unat_inc_u32)
  have h: "circuit_probes (count_inflight (count_request (fst (set_state n key HalfOpen x y)))) \<le> Suc 0"
    if "c_state x = Open" for n x y
    using i [of "count_request (fst (set_state n key HalfOpen x y))"] set_state_probes [of x HalfOpen n key y] that
    by simp
  show ?thesis
    using b c i [of "count_request ?c"] h [of ?c "t_set t" ?b]
    by (auto simp: allow_def split_beta Let_def split: cstate.split)
qed

lemma get_or_create_probes_key: "probes_out (snd (get_or_create now key cb)) key = circuit_probes (fst (get_or_create now key cb))"
  by (simp add: probes_out_eq get_or_create_stored)

lemma record_failure_with_status_probes:
  "probes_out (snd (record_failure_with_status t r key status body cb)) k
     \<le> probes_out cb k - (if k = key then 1 else 0)"
proof -
  note g = get_or_create_probes [of "t_get t" key cb]
  show ?thesis
    using g by (auto simp: record_failure_with_status_def split_beta Let_def split: cstate.split)
qed

lemma settle_probes:
  assumes "settles key x"
  shows "probes_out (cb_step cb x) k \<le> probes_out cb k - (if k = key then 1 else 0)"
proof -
  note g = get_or_create_probes [of _ key cb] get_or_create_probes_key [of _ key cb]
  show ?thesis
  proof (cases x)
    case (OpFailure t k' ov)
    then show ?thesis
      using assms g(1,2) [of "t_get t"] g(3) [of "t_get t"]
      by (auto simp: record_failure_def split_beta Let_def split: cstate.split)
  next
    case (OpOpaque t k')
    then show ?thesis
      using assms g(1,2) [of "t_get t"] g(3) [of "t_get t"]
      by (auto simp: record_opaque_failure_def split_beta Let_def)
  next
    case (OpFailureStatus t r k' status body)
    then show ?thesis using assms record_failure_with_status_probes [of t r key status body cb k] by simp
  next
    case (OpSuccess t k')
    then show ?thesis
      using assms g(1,2) [of "t_get t"] g(3) [of "t_get t"]
      by (auto simp: record_success_def record_success_clearing_def split_beta Let_def split: cstate.split)
  next
    case (OpSuccessModel t k' m)
    then show ?thesis
      using assms g(1,2) [of "t_get t"] g(3) [of "t_get t"]
      by (auto simp: record_success_with_model_def record_success_clearing_def split_beta Let_def split: cstate.split)
  next
    case (OpRelease k')
    then show ?thesis using assms by (simp add: release_half_open_probes)
  next
    case (OpForce t k' d)
    then show ?thesis
      using assms g(1,2) [of "t_get t"] g(3) [of "t_get t"]
      by (auto simp: force_open_def split_beta Let_def)
  qed (use assms in simp_all)
qed

subsection \<open>The ledger\<close>

text \<open>
  What the dispatch code relies on: taking a slot adds at most one to the circuit it is taken
  from, and only when it was granted; an operation that ends a dispatch gives one back.
\<close>

locale slot_ledger =
  fixes out :: "'b \<Rightarrow> 'k \<Rightarrow> nat"
    and take_slot :: "'c \<Rightarrow> 'k \<Rightarrow> 'b \<Rightarrow> bool \<times> 'b"
    and perform :: "'b \<Rightarrow> 'o \<Rightarrow> 'b"
    and ends :: "'k \<Rightarrow> 'o \<Rightarrow> bool"
  assumes take_le: "out (snd (take_slot c key b)) k \<le> out b k + (if k = key \<and> fst (take_slot c key b) then 1 else 0)"
    and ends_le: "ends key x \<Longrightarrow> out (perform b x) k \<le> out b k - (if k = key then 1 else 0)"
begin

lemma refused_le: "\<not> fst (take_slot c key b) \<Longrightarrow> out (snd (take_slot c key b)) k \<le> out b k"
  using take_le [of c key b k] by simp

lemma ended_le: "ends key x \<Longrightarrow> out (perform b x) k \<le> out b k"
  using ends_le [of key x b k] by (simp split: if_splits)

lemma paired_le: "ends key x \<Longrightarrow> out (perform (snd (take_slot c key b)) x) k \<le> out b k"
  using ends_le [of key x "snd (take_slot c key b)" k] take_le [of c key b k] by (simp split: if_splits)

lemma run_ended_le: "list_all (ends key) xs \<Longrightarrow> out (foldl perform b xs) k \<le> out b k"
  by (induction xs arbitrary: b) (auto intro: order_trans [OF _ ended_le])

lemma paired_run_le:
  assumes "xs \<noteq> []" "list_all (ends key) xs"
  shows "out (foldl perform (snd (take_slot c key b)) xs) k \<le> out b k"
  using assms by (cases xs) (auto intro: order_trans [OF run_ended_le] paired_le)

end

interpretation probe: slot_ledger probes_out allow cb_step settles
  by unfold_locales (rule allow_probes settle_probes, assumption?)+

end
