(* ===== verification/DispatchGates.thy ===== *)
theory DispatchGates
  imports TargetList RateLimit KeyLimits Rbac Spend Probes
begin

text \<open>
  The gates of a dispatch, internal/proxy/retry.go: what a target must pass before a request is
  sent to it, in the code's order: the rate limiter, the cost estimate, the agent's budget, the
  circuit breaker, the provider's daily budget.

  \<open>gw_state\<close> holds the parts of \<^verbatim>\<open>NenyaGateway\<close> a dispatch writes and \<open>gw_config\<close> those it only
  reads. Log lines and metrics are left out. A skip is an \<open>upstream_action\<close> with the reason the
  code gives it; \<open>None\<close> is the nil action of a target that passed.
\<close>

subsection \<open>The gateway as a dispatch sees it\<close>

record scoped_rule =
  rule_status :: int
  message_pattern :: string

record gate_provider = provider +
  token_budget_daily :: int
  retryable_codes :: "int list"
  retryable_phrases :: "string list"
  request_scoped_errors :: "scoped_rule list"
  allow_byok :: bool

record governance =
  max_cost_per_request :: rat
  gov_retryable_codes :: "int list"
  retry_opaque_4xx :: "bool option"
  auto_retry_on_param_reject :: "bool option"
  auto_retry_on_context_limit :: "bool option"
  min_quota_cooldown_seconds :: int
  max_retry_attempts :: int

record gw_config =
  gw_governance :: governance
  gw_providers :: "(string, gate_provider) gomap"
  budget_limit_usd :: "(string, rat) gomap"
  gw_catalog :: model_catalog
  gw_billing :: "billing_tracker option"
  url_host :: "string \<Rightarrow> string option"

record gw_state =
  gw_limiter :: rate_limiter
  gw_agents :: agent_state
  gw_usage :: usage_tracker

record dispatch_key = api_key +
  key_name :: string
  key_budget_daily :: int
  budget_tier :: string

text \<open>
  The action kinds of internal/proxy/mcp/types.go and retry.go. \<open>ua_status\<close> and the fields after
  it are the parts of the response and of the action that the loop reads.
\<close>

datatype action_kind = Kind_continue | Kind_error | Kind_stream | Kind_response

record upstream_action =
  ua_kind :: action_kind
  ua_status :: int
  ua_body :: string
  ua_release :: bool
  ua_retryable :: bool
  skip_reason :: string
  upstream_attempted :: bool

definition local_action :: upstream_action where
  "local_action = \<lparr>ua_kind = Kind_continue, ua_status = 0, ua_body = [], ua_release = False,
     ua_retryable = False, skip_reason = [], upstream_attempted = False\<rparr>"

definition skip_action :: "string \<Rightarrow> upstream_action" where
  "skip_action reason = local_action\<lparr>skip_reason := reason\<rparr>"

text \<open>The instants read by the gates: the limiter's three, the breaker's and the usage tracker's.\<close>

record gate_clock =
  g_evict :: time
  g_create :: time
  g_check :: time
  g_breaker :: clock
  g_usage :: time

subsection \<open>The gates\<close>

definition breaker_gate ::
  "clock \<Rightarrow> upstream_target \<Rightarrow> gw_state \<Rightarrow> upstream_action option \<times> gw_state" where
  "breaker_gate t target gw =
     (if cool_key target = [] \<or> byok target then (None, gw)
      else case allow t (cool_key target) (ag_cb (gw_agents gw)) of (ok, cb) \<Rightarrow>
        (let gw = gw\<lparr>gw_agents := (gw_agents gw)\<lparr>ag_cb := cb\<rparr>\<rparr>
         in if ok then (None, gw) else (Some (skip_action []), gw)))"

definition key_tier :: "dispatch_key option \<Rightarrow> string" where
  "key_tier k = (case k of None \<Rightarrow> ''always''
     | Some k \<Rightarrow> if budget_tier k \<noteq> [] then budget_tier k else ''always'')"

definition check_provider_budget ::
  "gw_config \<Rightarrow> time \<Rightarrow> upstream_target \<Rightarrow> int \<Rightarrow> dispatch_key option \<Rightarrow> gw_state
   \<Rightarrow> upstream_action option \<times> gw_state" where
  "check_provider_budget cfg now target tokens key gw =
     (case map_of (gw_providers cfg) (t_provider target) of
        None \<Rightarrow> (None, gw)
      | Some prov \<Rightarrow>
          (if token_budget_daily prov \<le> 0 then (None, gw)
           else case allow_provider_tokens now (t_provider target) (key_tier key)
                       (token_budget_daily prov) tokens (gw_usage gw) of
             (ok, u) \<Rightarrow>
               (let gw = gw\<lparr>gw_usage := u\<rparr>
                in if ok then (None, gw) else (Some (skip_action ''provider_budget''), gw))))"

definition release_probe :: "string \<Rightarrow> gw_state \<Rightarrow> gw_state" where
  "release_probe key gw =
     gw\<lparr>gw_agents := (gw_agents gw)\<lparr>ag_cb := release_half_open key (ag_cb (gw_agents gw))\<rparr>\<rparr>"

definition provider_budget_gate ::
  "gw_config \<Rightarrow> time \<Rightarrow> upstream_target \<Rightarrow> int \<Rightarrow> dispatch_key option \<Rightarrow> gw_state
   \<Rightarrow> upstream_action option \<times> gw_state" where
  "provider_budget_gate cfg now target tokens key gw =
     (if byok target then (None, gw)
      else case check_provider_budget cfg now target tokens key gw of
        (None, gw) \<Rightarrow> (None, gw)
      | (Some action, gw) \<Rightarrow>
          (Some action, if cool_key target \<noteq> [] then release_probe (cool_key target) gw else gw))"

definition estimated_cost :: "gw_config \<Rightarrow> upstream_target \<Rightarrow> int \<Rightarrow> rat option" where
  "estimated_cost cfg target tokens = (case cat_lookup (t_model target) (gw_catalog cfg) of
     None \<Rightarrow> None
   | Some dm \<Rightarrow> (case dm_pricing dm of
       None \<Rightarrow> None
     | Some p \<Rightarrow> (if has_standard_rate p
         then Some (calculate_cost p \<lparr>use_input = tokens, use_cached_input = 0, use_cache_write = 0,
                      use_output = t_max_output target, use_peak = True\<rparr>)
         else None)))"

definition over_max_cost :: "gw_config \<Rightarrow> upstream_target \<Rightarrow> int \<Rightarrow> bool" where
  "over_max_cost cfg target tokens \<longleftrightarrow>
     max_cost_per_request (gw_governance cfg) > 0 \<and> \<not> byok target
     \<and> (case estimated_cost cfg target tokens of
          None \<Rightarrow> False | Some c \<Rightarrow> c > max_cost_per_request (gw_governance cfg))"

definition over_agent_budget :: "gw_config \<Rightarrow> upstream_target \<Rightarrow> string \<Rightarrow> bool" where
  "over_agent_budget cfg target agent = (case map_of (budget_limit_usd cfg) agent of
     None \<Rightarrow> False
   | Some limit \<Rightarrow> agent_budget_skips limit (byok target) (t_provider target) (account_name target)
                     (gw_billing cfg))"

definition check_pre_dispatch_guards ::
  "gw_config \<Rightarrow> gate_clock \<Rightarrow> upstream_target \<Rightarrow> int \<Rightarrow> string \<Rightarrow> dispatch_key option \<Rightarrow> gw_state
   \<Rightarrow> upstream_action option \<times> gw_state" where
  "check_pre_dispatch_guards cfg t target tokens agent key gw =
     (case check_detailed (url_host cfg) (g_evict t) (g_create t) (g_check t) (t_provider target)
             (t_url target) tokens (gw_limiter gw) of
        (allowed, _, rl) \<Rightarrow>
          (let gw = gw\<lparr>gw_limiter := rl\<rparr> in
           if \<not> allowed then (Some (skip_action ''rate_limit''), gw)
           else if over_max_cost cfg target tokens then (Some (skip_action ''max_cost''), gw)
           else if over_agent_budget cfg target agent then (Some (skip_action ''agent_budget''), gw)
           else case breaker_gate (g_breaker t) target gw of
             (Some skip, gw) \<Rightarrow> (Some skip, gw)
           | (None, gw) \<Rightarrow> provider_budget_gate cfg (g_usage t) target tokens key gw))"

subsection \<open>What the gates answer\<close>

lemma release_probe_parts [simp]:
  "gw_limiter (release_probe k gw) = gw_limiter gw" "gw_usage (release_probe k gw) = gw_usage gw"
  "ag_cb (gw_agents (release_probe k gw)) = release_half_open k (ag_cb (gw_agents gw))"
  by (simp_all add: release_probe_def)

definition limiter_admits :: "gw_config \<Rightarrow> gate_clock \<Rightarrow> upstream_target \<Rightarrow> int \<Rightarrow> gw_state \<Rightarrow> bool" where
  "limiter_admits cfg t target tokens gw =
     fst (check_detailed (url_host cfg) (g_evict t) (g_create t) (g_check t) (t_provider target)
            (t_url target) tokens (gw_limiter gw))"

definition breaker_admits :: "gate_clock \<Rightarrow> upstream_target \<Rightarrow> gw_state \<Rightarrow> bool" where
  "breaker_admits t target gw \<longleftrightarrow> cool_key target = [] \<or> byok target
     \<or> fst (allow (g_breaker t) (cool_key target) (ag_cb (gw_agents gw)))"

definition budget_admits ::
  "gw_config \<Rightarrow> gate_clock \<Rightarrow> upstream_target \<Rightarrow> int \<Rightarrow> dispatch_key option \<Rightarrow> gw_state \<Rightarrow> bool" where
  "budget_admits cfg t target tokens key gw \<longleftrightarrow> byok target
     \<or> (case map_of (gw_providers cfg) (t_provider target) of None \<Rightarrow> True
        | Some prov \<Rightarrow> token_budget_daily prov \<le> 0 \<or> tokens \<le> 0 \<or> key_tier key = ''always''
            \<or> provider_used (gw_usage gw) (t_provider target) (g_usage t) + tokens \<le> token_budget_daily prov)"

lemma budget_gate_answer:
  "fst (provider_budget_gate cfg (g_usage t) target tokens key gw) =
     (if budget_admits cfg t target tokens key gw then None else Some (skip_action ''provider_budget''))"
proof -
  have *: "fst (allow_provider_tokens n p tier b k u) \<longleftrightarrow>
      b \<le> 0 \<or> k \<le> 0 \<or> tier = ''always'' \<or> provider_used u p n + k \<le> b" for n p tier b k u
    by (auto simp: allow_provider_tokens_def provider_used_def Let_def)
  show ?thesis
    by (auto simp: provider_budget_gate_def check_provider_budget_def budget_admits_def split_beta * Let_def
        split: option.split)
qed

lemma breaker_gate_answer:
  "fst (breaker_gate (g_breaker t) target gw) = (if breaker_admits t target gw then None else Some (skip_action []))"
  by (auto simp: breaker_gate_def breaker_admits_def split_beta Let_def)

lemma breaker_gate_usage [simp]: "gw_usage (snd (breaker_gate c target gw)) = gw_usage gw"
  "gw_limiter (snd (breaker_gate c target gw)) = gw_limiter gw"
  by (auto simp: breaker_gate_def split_beta Let_def)

lemma budget_gate_limiter [simp]: "gw_limiter (snd (provider_budget_gate cfg n target tokens key gw)) = gw_limiter gw"
  by (auto simp: provider_budget_gate_def check_provider_budget_def split_beta Let_def split: option.split)

lemma budget_admits_frame:
  "gw_usage gw' = gw_usage gw \<Longrightarrow> budget_admits cfg t target tokens key gw' = budget_admits cfg t target tokens key gw"
  unfolding budget_admits_def by (rule arg_cong2 [where f = "(\<or>)"]) (simp_all split: option.split)

text \<open>The state as it reaches the breaker, and as it leaves it.\<close>

abbreviation limited :: "gw_config \<Rightarrow> gate_clock \<Rightarrow> upstream_target \<Rightarrow> int \<Rightarrow> gw_state \<Rightarrow> gw_state" where
  "limited cfg t target tokens gw \<equiv>
     gw\<lparr>gw_limiter := snd (snd (check_detailed (url_host cfg) (g_evict t) (g_create t) (g_check t)
            (t_provider target) (t_url target) tokens (gw_limiter gw)))\<rparr>"

lemma guards_unfold:
  "check_pre_dispatch_guards cfg t target tokens agent key gw =
     (if \<not> limiter_admits cfg t target tokens gw
      then (Some (skip_action ''rate_limit''), limited cfg t target tokens gw)
      else if over_max_cost cfg target tokens
      then (Some (skip_action ''max_cost''), limited cfg t target tokens gw)
      else if over_agent_budget cfg target agent
      then (Some (skip_action ''agent_budget''), limited cfg t target tokens gw)
      else if \<not> breaker_admits t target gw
      then (Some (skip_action []), snd (breaker_gate (g_breaker t) target (limited cfg t target tokens gw)))
      else provider_budget_gate cfg (g_usage t) target tokens key
             (snd (breaker_gate (g_breaker t) target (limited cfg t target tokens gw))))"
proof -
  let ?l = "limited cfg t target tokens gw"
  have b: "breaker_admits t target ?l = breaker_admits t target gw" by (simp add: breaker_admits_def)
  show ?thesis
    using breaker_gate_answer [of t target ?l]
    by (auto simp: check_pre_dispatch_guards_def limiter_admits_def split_beta Let_def b split: option.split prod.split)
qed

lemma breaker_gate_probes:
  "probes_out (ag_cb (gw_agents (snd (breaker_gate (g_breaker t) target gw)))) k
     \<le> probes_out (ag_cb (gw_agents gw)) k + (if k = cool_key target \<and> breaker_admits t target gw then 1 else 0)"
  using probe.take_le [of "g_breaker t" "cool_key target" "ag_cb (gw_agents gw)" k]
  by (auto simp: breaker_gate_def breaker_admits_def split_beta Let_def split: if_splits)

lemma budget_gate_probes:
  assumes "fst (provider_budget_gate cfg n target tokens key gw) \<noteq> None" "cool_key target \<noteq> []"
  shows "probes_out (ag_cb (gw_agents (snd (provider_budget_gate cfg n target tokens key gw)))) k
     \<le> probes_out (ag_cb (gw_agents gw)) k - (if k = cool_key target then 1 else 0)"
  using assms probe.ends_le [of "cool_key target" "OpRelease (cool_key target)" "ag_cb (gw_agents gw)" k]
  by (auto simp: provider_budget_gate_def check_provider_budget_def split_beta Let_def split: option.splits if_splits)

lemma budget_gate_no_key:
  "cool_key target = [] \<Longrightarrow> gw_agents (snd (provider_budget_gate cfg n target tokens key gw)) = gw_agents gw"
  by (auto simp: provider_budget_gate_def check_provider_budget_def split_beta Let_def split: option.splits)

lemma refused_budget_counts_nothing:
  assumes "fst (provider_budget_gate cfg (g_usage t) target tokens key gw) \<noteq> None"
  shows "provider_used (gw_usage (snd (provider_budget_gate cfg (g_usage t) target tokens key gw))) p (g_usage t)
    = provider_used (gw_usage gw) p (g_usage t)"
  using assms
  by (auto simp: provider_budget_gate_def check_provider_budget_def allow_provider_tokens_def provider_used_def
      split_beta Let_def split: option.splits if_splits)

lemma skipped_guards:
  assumes "check_pre_dispatch_guards cfg t target tokens agent key gw = (Some skip, gw')"
  shows "probes_out (ag_cb (gw_agents gw')) k \<le> probes_out (ag_cb (gw_agents gw)) k
    \<and> provider_used (gw_usage gw') p (g_usage t) = provider_used (gw_usage gw) p (g_usage t)"
proof -
  let ?l = "limited cfg t target tokens gw"
  let ?b = "snd (breaker_gate (g_breaker t) target ?l)"
  let ?r = "provider_budget_gate cfg (g_usage t) target tokens key ?b"
  have b: "probes_out (ag_cb (gw_agents ?b)) k
      \<le> probes_out (ag_cb (gw_agents gw)) k + (if k = cool_key target \<and> breaker_admits t target gw then 1 else 0)"
    using breaker_gate_probes [of t target ?l k] by (simp add: breaker_admits_def)
  have none: "cool_key target = [] \<Longrightarrow> ?b = ?l" by (simp add: breaker_gate_def)
  show ?thesis
  proof (cases "?r = (Some skip, gw')")
    case True
    then have p: "provider_used (gw_usage gw') p (g_usage t) = provider_used (gw_usage gw) p (g_usage t)"
      using refused_budget_counts_nothing [of cfg t target tokens key ?b p] by simp
    show ?thesis
    proof (cases "cool_key target = []")
      case True
      then show ?thesis using p none budget_gate_no_key [of target cfg "g_usage t" tokens key ?b] \<open>?r = _\<close> by simp
    next
      case False
      then show ?thesis
        using p b budget_gate_probes [of cfg "g_usage t" target tokens key ?b k] \<open>?r = _\<close> by (simp split: if_splits)
    qed
  next
    case False
    then show ?thesis using assms b by (auto simp: guards_unfold split: if_splits)
  qed
qed

lemma budget_gate_passed:
  "provider_budget_gate cfg n target tokens key gw = (None, gw') \<Longrightarrow> gw_agents gw' = gw_agents gw"
  by (auto simp: provider_budget_gate_def check_provider_budget_def Let_def split: option.splits if_splits prod.splits)

lemma passed_guards:
  assumes "check_pre_dispatch_guards cfg t target tokens agent key gw = (None, gw')"
  shows "probes_out (ag_cb (gw_agents gw')) k \<le> probes_out (ag_cb (gw_agents gw)) k + (if k = cool_key target then 1 else 0)"
proof -
  let ?b = "snd (breaker_gate (g_breaker t) target (limited cfg t target tokens gw))"
  have "provider_budget_gate cfg (g_usage t) target tokens key ?b = (None, gw')"
    using assms by (auto simp: guards_unfold split: if_splits)
  then have "gw_agents gw' = gw_agents ?b" by (rule budget_gate_passed)
  then show ?thesis
    using breaker_gate_probes [of t target "limited cfg t target tokens gw" k] by (auto split: if_splits)
qed

subsection \<open>Properties\<close>


text \<open>
  C6: A skipped target leaves no trace but its share of the rate limit: no circuit is left with
  more half-open probes than before (a probe taken and then refused by the provider budget is
  given back), and no provider's tokens of the day are charged.
\<close>

theorem skipped_dispatch_leaves_no_trace:
  assumes "check_pre_dispatch_guards cfg t target tokens agent key gw = (Some skip, gw')"
  shows "probes_out (ag_cb (gw_agents gw')) k \<le> probes_out (ag_cb (gw_agents gw)) k
    \<and> provider_used (gw_usage gw') p (g_usage t) = provider_used (gw_usage gw) p (g_usage t)"
  using assms by (rule skipped_guards)

text \<open>
  A dispatch on the caller's own credential is gated by the rate limiter alone, and writes
  nothing else: breaker, cost, agent budget and provider budget are the shared account's.
\<close>

theorem byok_dispatch_meets_only_the_limiter:
  assumes "byok target"
  shows "check_pre_dispatch_guards cfg t target tokens agent key gw =
     (if limiter_admits cfg t target tokens gw then None else Some (skip_action ''rate_limit''),
      limited cfg t target tokens gw)"
  using assms
  by (auto simp: guards_unfold over_max_cost_def over_agent_budget_def agent_budget_skips_def breaker_admits_def
      breaker_gate_def provider_budget_gate_def split: option.split)

text \<open>
  The limiter is the first gate, and a target refused by a later one has already spent its
  request: with a limit of one request a minute, a target that is too dear leaves none for an
  affordable target of the same provider, though nothing was sent.
\<close>

theorem refused_target_spends_the_rate:
  assumes "over_max_cost cfg dear tokens" "t_provider cheap = t_provider dear" "t_provider dear \<noteq> []"
    and "gw_limiter gw = new_rate_limiter 1 0" "g_check t = g_create t"
  shows "check_pre_dispatch_guards cfg t dear tokens agent key gw =
       (Some (skip_action ''max_cost''), limited cfg t dear tokens gw)
    \<and> fst (check_pre_dispatch_guards cfg t cheap tokens agent key (limited cfg t dear tokens gw)) =
       Some (skip_action ''rate_limit'')"
proof -
  have "limiter_admits cfg t dear tokens gw" "\<not> limiter_admits cfg t cheap tokens (limited cfg t dear tokens gw)"
    using assms
    by (simp_all add: limiter_admits_def check_detailed_def bucket_key_def get_or_create_bucket_def
        new_rate_limiter_def max_rate_limit_hosts_def effective_limits_def new_bucket_def bucket_check_def
        refill_def seconds_since_def Let_def)
  then show ?thesis using assms(1) by (simp add: guards_unfold)
qed

subsection \<open>An example\<close>

definition ex_gate_provider :: "string \<Rightarrow> int \<Rightarrow> gate_provider" where
  "ex_gate_provider n daily = \<lparr>pv_name = n, pv_url = ''https://'' @ n, pv_api_key = ''k'', auth_style = [],
     format_urls = [], billing = None, allowed_re = [], session_sticky_keys = None, token_budget_daily = daily,
     retryable_codes = [], retryable_phrases = [], request_scoped_errors = [], allow_byok = True\<rparr>"

definition ex_governance :: governance where
  "ex_governance = \<lparr>max_cost_per_request = 1 / 1000000, gov_retryable_codes = [], retry_opaque_4xx = None,
     auto_retry_on_param_reject = Some True, auto_retry_on_context_limit = Some True,
     min_quota_cooldown_seconds = 0, max_retry_attempts = 0\<rparr>"

definition ex_gw_config :: gw_config where
  "ex_gw_config = \<lparr>gw_governance = ex_governance, gw_providers = [(''p'', ex_gate_provider ''p'' 5)],
     budget_limit_usd = [], gw_catalog = add_model (served_by ''p'' (Some (rate_card 1 0))) (new_model_catalog 0),
     gw_billing = None, url_host = (\<lambda>_. None)\<rparr>"

definition ex_target :: "string \<Rightarrow> string \<Rightarrow> upstream_target" where
  "ex_target p m = \<lparr>t_url = ''https://'' @ p, t_model = m, t_format = [], cool_key = ''ag:'' @ p @ '':'' @ m,
     t_provider = p, t_max_output = 0, t_max_context = 0, account_name = [], t_credential = ''k'',
     t_cooling = False, t_reasoning_effort = [], byok = False\<rparr>"

definition ex_gate_clock :: gate_clock where
  "ex_gate_clock = \<lparr>g_evict = 0, g_create = 0, g_check = 0, g_breaker = at_second 2, g_usage = 0\<rparr>"

text \<open>A gateway whose breaker has one circuit, open and past its cooldown, and lets one probe through.\<close>

definition ex_gw_state :: "int \<Rightarrow> gw_state" where
  "ex_gw_state rpm = \<lparr>gw_limiter = new_rate_limiter rpm 0,
     gw_agents = (let s = new_agent_state (Some (1, 10)) [] False None
        in s\<lparr>ag_cb := store ''ag:p:x'' ((new_circuit 0)\<lparr>c_state := Open\<rparr>) (ag_cb s)\<rparr>),
     gw_usage = new_key_usage_tracker\<rparr>"

definition ex_basic_key :: dispatch_key where
  "ex_basic_key = \<lparr>roles = [''user''], allowed_agents = [], allowed_endpoints = [], allowed_tools = [], permissions = [],
     key_name = ''k'', key_budget_daily = 0, budget_tier = ''basic''\<rparr>"

lemmas ex_gate_defs = ex_gw_config_def ex_governance_def ex_gate_provider_def ex_target_def ex_gate_clock_def
  ex_gw_state_def ex_basic_key_def

lemma ex_dear: "over_max_cost ex_gw_config (ex_target ''p'' ''m'') 10"
  by code_simp

theorem refused_target_spends_the_rate_witness:
  "over_max_cost ex_gw_config (ex_target ''p'' ''m'') 10
   \<and> fst (check_pre_dispatch_guards ex_gw_config ex_gate_clock (ex_target ''p'' ''x'') 10 ''ag'' None
        (limited ex_gw_config ex_gate_clock (ex_target ''p'' ''m'') 10 (ex_gw_state 1))) = Some (skip_action ''rate_limit'')"
  using ex_dear refused_target_spends_the_rate [of ex_gw_config "ex_target ''p'' ''m''" 10 "ex_target ''p'' ''x''"
      "ex_gw_state 1" ex_gate_clock "''ag''" None]
  by (simp add: ex_gate_defs)

text \<open>The probe of an expired circuit, refused by the provider's budget of 5 tokens.\<close>

lemma ex_refused:
  "fst (check_pre_dispatch_guards ex_gw_config ex_gate_clock (ex_target ''p'' ''x'') 10 ''ag''
      (Some ex_basic_key) (ex_gw_state 9)) = Some (skip_action ''provider_budget'')"
  by code_simp

theorem skipped_dispatch_leaves_no_trace_witness:
  "probes_out (ag_cb (gw_agents (snd (check_pre_dispatch_guards ex_gw_config ex_gate_clock (ex_target ''p'' ''x'') 10
      ''ag'' (Some ex_basic_key) (ex_gw_state 9))))) ''ag:p:x'' \<le> 0"
  using skipped_dispatch_leaves_no_trace [of ex_gw_config ex_gate_clock "ex_target ''p'' ''x''" 10 "''ag''"
      "Some ex_basic_key" "ex_gw_state 9" "skip_action ''provider_budget''" _ "''ag:p:x''" "[]"] ex_refused
  by (auto simp: prod_eq_iff ex_gw_state_def Let_def circuit_probes_def new_agent_state_def)

theorem byok_dispatch_meets_only_the_limiter_witness:
  "fst (check_pre_dispatch_guards ex_gw_config ex_gate_clock ((ex_target ''p'' ''m'')\<lparr>byok := True\<rparr>) 10 ''ag''
      (Some ex_basic_key) (ex_gw_state 1)) = None"
  using byok_dispatch_meets_only_the_limiter [of "(ex_target ''p'' ''m'')\<lparr>byok := True\<rparr>" ex_gw_config
      ex_gate_clock 10 "''ag''" "Some ex_basic_key" "ex_gw_state 1"]
  by (simp add: ex_gate_defs limiter_admits_def check_detailed_def bucket_key_def get_or_create_bucket_def
      new_rate_limiter_def max_rate_limit_hosts_def effective_limits_def new_bucket_def bucket_check_def
      refill_def seconds_since_def Let_def)

end
