(* ===== verification/ErrorPolicy.thy ===== *)
theory ErrorPolicy
  imports AdapterErrors DispatchGates Text Json
begin

text \<open>
  What the dispatch loop makes of an upstream error: internal/proxy/error_classify.go,
  ratelimit_headers.go and the classification half of retry.go. From the status, the body and the
  headers it derives whether the error is retryable, the delay before the retry, the cooldown of
  the target and what is recorded with the circuit breaker.

  \<open>wire\<close> holds the library parsers the code calls: JSON decoding into the anonymous structs
  (\<open>None\<close> for an error), \<^verbatim>\<open>time.ParseDuration\<close>, \<^verbatim>\<open>http.ParseTime\<close>, RFC3339 and \<^verbatim>\<open>strconv.ParseFloat\<close>
  (finite values). Headers are the function \<^verbatim>\<open>http.Header.Get\<close>. \<^verbatim>\<open>time.Until\<close> takes its reading
  of the clock as an argument; a value in seconds becomes a duration by truncation.
\<close>

record wire =
  zai_error_code :: "string \<Rightarrow> string option"
  error_code_message :: "string \<Rightarrow> (string \<times> string) option"
  rpc_error :: "string \<Rightarrow> (string list \<times> string) option"
  rpc_errors :: "string \<Rightarrow> (string list \<times> string) list option"
  json_object :: "string \<Rightarrow> (string, json) gomap option"
  parse_duration :: "string \<Rightarrow> duration option"
  parse_http_time :: "string \<Rightarrow> time option"
  parse_rfc3339 :: "string \<Rightarrow> time option"
  parse_float :: "string \<Rightarrow> rat option"

type_synonym header = "string \<Rightarrow> string"

definition equal_fold :: "string \<Rightarrow> string \<Rightarrow> bool" where
  "equal_fold s lower = (to_lower s = lower)"

definition to_duration :: "rat \<Rightarrow> duration" where
  "to_duration r = (if r < 0 then \<lceil>r\<rceil> else \<lfloor>r\<rfloor>)"

definition hour :: duration where "hour = 60 * minute"

subsection \<open>Delays and backoff\<close>

definition max_retry_backoff :: duration where "max_retry_backoff = 5 * second"
definition max_quota_cooldown :: duration where "max_quota_cooldown = 30 * minute"
definition zai_1308_fallback :: duration where "zai_1308_fallback = 5 * hour"
definition zai_1310_fallback :: duration where "zai_1310_fallback = 1 * hour"
definition zai_1310_min :: duration where "zai_1310_min = 1 * hour"
definition dispatch_backoff_base :: duration where "dispatch_backoff_base = 500 * millisecond"
definition dispatch_backoff_max :: duration where "dispatch_backoff_max = 8 * second"
definition dispatch_backoff_jitter :: duration where "dispatch_backoff_jitter = 750 * millisecond"
definition concurrency_retry_base :: duration where "concurrency_retry_base = 200 * millisecond"

lemmas delay_defs = max_retry_backoff_def max_quota_cooldown_def zai_1308_fallback_def zai_1310_fallback_def
  zai_1310_min_def dispatch_backoff_base_def dispatch_backoff_max_def dispatch_backoff_jitter_def
  concurrency_retry_base_def hour_def unit_defs

definition concurrency_retry_delay :: "duration \<Rightarrow> duration" where
  "concurrency_retry_delay jitter = concurrency_retry_base + jitter"

fun doubled_delay :: "nat \<Rightarrow> duration \<Rightarrow> duration" where
  "doubled_delay 0 delay = delay"
| "doubled_delay (Suc n) delay =
     (let delay = delay * 2
      in if delay \<ge> dispatch_backoff_max then dispatch_backoff_max else doubled_delay n delay)"

definition dispatch_backoff :: "int \<Rightarrow> duration \<Rightarrow> duration" where
  "dispatch_backoff attempt jitter = doubled_delay (nat attempt) dispatch_backoff_base + jitter"

definition cap_retry_delay :: "duration \<Rightarrow> duration" where
  "cap_retry_delay d = (if d \<le> 0 then 0 else if d > max_retry_backoff then max_retry_backoff else d)"

fun delay_from_details :: "wire \<Rightarrow> string list \<Rightarrow> duration" where
  "delay_from_details w [] = 0"
| "delay_from_details w (d # ds) =
     (if d \<noteq> [] then
        (case parse_duration w d of Some dur \<Rightarrow> cap_retry_delay dur | None \<Rightarrow> delay_from_details w ds)
      else delay_from_details w ds)"

definition digits_value :: "string \<Rightarrow> int" where
  "digits_value s = foldl (\<lambda>n c. 10 * n + int (byte c - 48)) 0 s"

fun delay_from_phrases :: "string \<Rightarrow> string list \<Rightarrow> duration" where
  "delay_from_phrases lower [] = 0"
| "delay_from_phrases lower (p # ps) =
     (case str_index lower p of
        None \<Rightarrow> delay_from_phrases lower ps
      | Some i \<Rightarrow>
          (let digits = takeWhile is_digit (drop (i + length p) lower) in
           if digits = [] \<or> digits_value digits \<le> 0 then delay_from_phrases lower ps
           else cap_retry_delay (digits_value digits * second)))"

definition delay_from_message :: "string \<Rightarrow> duration" where
  "delay_from_message msg = delay_from_phrases (to_lower msg) [''retry in '', ''wait '', ''retry after '']"

definition delay_from_error :: "wire \<Rightarrow> string list \<times> string \<Rightarrow> duration" where
  "delay_from_error w e = (case e of (details, message) \<Rightarrow>
     (let d = delay_from_details w details in
      if d > 0 then d else if message = [] then 0 else delay_from_message message))"

definition delay_from_object :: "wire \<Rightarrow> string \<Rightarrow> duration" where
  "delay_from_object w body = (case rpc_error w body of None \<Rightarrow> 0 | Some e \<Rightarrow> delay_from_error w e)"

definition delay_from_array :: "wire \<Rightarrow> string \<Rightarrow> duration" where
  "delay_from_array w body = (case rpc_errors w body of
     None \<Rightarrow> 0 | Some [] \<Rightarrow> 0 | Some (e # es) \<Rightarrow> delay_from_error w e)"

definition parse_retry_after_header :: "wire \<Rightarrow> time \<Rightarrow> header \<Rightarrow> duration" where
  "parse_retry_after_header w now h =
     (let v = h ''Retry-After'' in
      if v = [] then 0
      else case parse_duration w (v @ ''s'') of
        Some secs \<Rightarrow> if secs > 0 then cap_retry_delay secs
          else (case parse_http_time w v of Some t \<Rightarrow> if t - now > 0 then cap_retry_delay (t - now) else 0 | None \<Rightarrow> 0)
      | None \<Rightarrow> (case parse_http_time w v of
          Some t \<Rightarrow> if t - now > 0 then cap_retry_delay (t - now) else 0 | None \<Rightarrow> 0))"

definition parse_retry_delay :: "wire \<Rightarrow> time \<Rightarrow> header \<Rightarrow> string \<Rightarrow> duration" where
  "parse_retry_delay w now h body =
     (let d = parse_retry_after_header w now h in
      if d > 0 then d
      else if body = [] then 0
      else let d = delay_from_object w body in if d > 0 then d else delay_from_array w body)"

subsection \<open>Rate-limit windows\<close>

definition unified_reset_headers :: "string list" where
  "unified_reset_headers =
    [''Anthropic-Ratelimit-Unified-5h-Reset'', ''Anthropic-Ratelimit-Unified-7d-Reset'', ''X-Ratelimit-Reset'']"

definition is_rejected_claim_status :: "string \<Rightarrow> bool" where
  "is_rejected_claim_status v = equal_fold (trim_space v) ''rejected''"

definition is_overage_only_rejection :: "header \<Rightarrow> bool" where
  "is_overage_only_rejection h =
     (if equal_fold (trim_space (h ''Anthropic-Ratelimit-Unified-Representative-Claim'')) ''overage'' then True
      else if \<not> is_rejected_claim_status (h ''Anthropic-Ratelimit-Unified-Overage-Status'') then False
      else \<not> list_ex (\<lambda>name. is_rejected_claim_status (h name))
              [''Anthropic-Ratelimit-Unified-Status'', ''Anthropic-Ratelimit-Unified-5h-Status'',
               ''Anthropic-Ratelimit-Unified-7d-Status''])"

definition until :: "time \<Rightarrow> time \<Rightarrow> duration" where
  "until now t = (if t - now > 0 then t - now else 0)"

definition epoch_or_delay_seconds :: "time \<Rightarrow> rat \<Rightarrow> duration" where
  "epoch_or_delay_seconds now v =
     (if v \<ge> 10 ^ 12 then until now (to_duration v * millisecond)
      else if v \<ge> 10 ^ 11 then 0
      else if v > 10 ^ 9 then until now (to_duration v * second)
      else to_duration (v * of_int second))"

definition parse_header_reset_duration :: "wire \<Rightarrow> time \<Rightarrow> string \<Rightarrow> duration" where
  "parse_header_reset_duration w now v =
     (let v = trim_space v;
          dur = (case parse_duration w v of Some d \<Rightarrow> if d > 0 then d else 0 | None \<Rightarrow> 0);
          days = (if length v > 1 \<and> last v = CHR ''d''
                  then (case parse_float w (butlast v) of Some n \<Rightarrow> if n > 0 then Some n else None | None \<Rightarrow> None)
                  else None)
      in if v = [] then 0
         else case parse_rfc3339 w v of
           Some t \<Rightarrow> until now t
         | None \<Rightarrow>
             (case parse_float w v of
                Some secs \<Rightarrow> if secs > 0 then epoch_or_delay_seconds now secs
                  else (case days of Some n \<Rightarrow> to_duration (n * 24 * of_int hour) | None \<Rightarrow> dur)
              | None \<Rightarrow> (case days of Some n \<Rightarrow> to_duration (n * 24 * of_int hour) | None \<Rightarrow> dur)))"

definition max_rate_limit_window_cooldown :: duration where
  "max_rate_limit_window_cooldown = 8 * 24 * hour"

definition parse_retry_after_cooldown :: "wire \<Rightarrow> time \<Rightarrow> header \<Rightarrow> duration" where
  "parse_retry_after_cooldown w now h =
     (let v = h ''Retry-After'' in
      if v = [] then 0
      else let longest = parse_header_reset_duration w now v
           in case parse_http_time w v of
             Some t \<Rightarrow> if t - now > longest then t - now else longest | None \<Rightarrow> longest)"

definition parse_reset_value :: "wire \<Rightarrow> time \<Rightarrow> json \<Rightarrow> duration" where
  "parse_reset_value w now v = (case v of
     Num n \<Rightarrow> epoch_or_delay_seconds now n
   | Str s \<Rightarrow> (case parse_rfc3339 w s of
       Some t \<Rightarrow> until now t
     | None \<Rightarrow>
         (let dur = (case parse_duration w s of Some d \<Rightarrow> if d > 0 then d else 0 | None \<Rightarrow> 0)
          in case parse_float w s of
            Some secs \<Rightarrow> if secs > 0 then epoch_or_delay_seconds now secs else dur
          | None \<Rightarrow> dur))
   | _ \<Rightarrow> 0)"

definition longest_header_reset :: "wire \<Rightarrow> time \<Rightarrow> header \<Rightarrow> duration \<Rightarrow> duration" where
  "longest_header_reset w now h longest =
     foldl (\<lambda>longest name. max longest (parse_header_reset_duration w now (h name))) longest unified_reset_headers"

definition derive_upstream_cooldown :: "wire \<Rightarrow> time \<Rightarrow> header \<Rightarrow> duration" where
  "derive_upstream_cooldown w now h =
     (let longest = (if \<not> is_overage_only_rejection h then parse_retry_after_cooldown w now h else 0);
          longest = longest_header_reset w now h longest
      in if longest > max_rate_limit_window_cooldown then max_rate_limit_window_cooldown else longest)"

function reset_walk :: "wire \<Rightarrow> time \<Rightarrow> (string \<times> json) list \<Rightarrow> duration \<Rightarrow> duration" where
  "reset_walk w now [] longest = longest"
| "reset_walk w now ((k, v) # m) longest =
     (let lower = to_lower k in
      if str_contains lower ''overage'' then reset_walk w now m longest
      else
        let longest = (if str_contains lower ''reset'' then max longest (parse_reset_value w now v) else longest);
            longest = (case v of
              Obj sub \<Rightarrow> if equal_fold k ''error'' \<or> equal_fold k ''metadata'' then reset_walk w now sub longest
                else longest
            | _ \<Rightarrow> longest)
        in reset_walk w now m longest)"
  by pat_completeness auto

termination reset_walk
  by (relation "measure (\<lambda>(w, now, m, longest). sum_list (map (\<lambda>(k, v). json_nodes v) m))") auto

definition parse_quota_reset_fields :: "wire \<Rightarrow> time \<Rightarrow> string \<Rightarrow> duration" where
  "parse_quota_reset_fields w now body = (case json_object w body of
     None \<Rightarrow> 0
   | Some doc \<Rightarrow>
       (let longest = reset_walk w now doc 0
        in if longest > max_rate_limit_window_cooldown then max_rate_limit_window_cooldown else longest))"

subsection \<open>Quota windows in the body\<close>

definition min_timestamp :: int where "min_timestamp = 1672531200000"
definition max_timestamp :: int where "max_timestamp = 410244479903999"

fun digits_overflow :: "string \<Rightarrow> int \<Rightarrow> int option" where
  "digits_overflow [] ts = Some ts"
| "digits_overflow (c # cs) ts =
     (let digit = int (byte c - 48) in
      if ts > (2 ^ 63 - 1 - digit) div 10 then None else digits_overflow cs (ts * 10 + digit))"

definition parse_digits_to_timestamp :: "string \<Rightarrow> int" where
  "parse_digits_to_timestamp digits = (case digits_overflow digits 0 of
     None \<Rightarrow> 0
   | Some ts \<Rightarrow> if ts < min_timestamp \<or> ts > max_timestamp then 0 else ts)"

text \<open>The scan over the message: \<open>run\<close> is the digits from \<open>i\<close> up to \<open>j\<close>.\<close>

function extract_unix_timestamp_ms :: "string \<Rightarrow> int" where
  "extract_unix_timestamp_ms [] = 0"
| "extract_unix_timestamp_ms (c # s) =
     (if \<not> is_digit c then extract_unix_timestamp_ms s
      else
        let digits = takeWhile is_digit (c # s); rest = drop 1 (dropWhile is_digit (c # s)) in
        if length digits < 13 then extract_unix_timestamp_ms rest
        else let ts = parse_digits_to_timestamp digits
             in if ts > 0 then ts else extract_unix_timestamp_ms rest)"
  by pat_completeness auto

termination extract_unix_timestamp_ms
  by (relation "measure length") (auto simp: less_Suc_eq_le intro: le_trans [OF diff_le_self] length_dropWhile_le)

definition parse_zai_1308 :: "time \<Rightarrow> string \<Rightarrow> duration" where
  "parse_zai_1308 now message =
     (let ts = extract_unix_timestamp_ms message in
      if ts \<le> 0 then zai_1308_fallback
      else let dur = ts * millisecond - now in if dur > 0 then dur else zai_1308_fallback)"

definition parse_zai_1310 :: "time \<Rightarrow> string \<Rightarrow> duration" where
  "parse_zai_1310 now message =
     (let ts = extract_unix_timestamp_ms message in
      if ts \<le> 0 then zai_1310_fallback
      else let dur = ts * millisecond - now in
        if dur \<le> 0 then zai_1310_fallback
        else if dur < zai_1310_min then zai_1310_min
        else if dur > max_quota_cooldown then max_quota_cooldown
        else dur)"

definition parse_generic_quota_patterns :: "string \<Rightarrow> duration" where
  "parse_generic_quota_patterns body =
     (let lower = to_lower body in
      if str_contains lower ''per 86400s'' \<or> str_contains lower ''perday'' then max_quota_cooldown
      else if contains_any lower [''resource_exhausted'', ''quota exceeded'', ''quota_exceeded'']
      then 5 * minute else 0)"

definition parse_quota_exhaustion :: "wire \<Rightarrow> time \<Rightarrow> string \<Rightarrow> duration" where
  "parse_quota_exhaustion w now body =
     (if body = [] then 0
      else case error_code_message w body of
        None \<Rightarrow> parse_generic_quota_patterns body
      | Some (code, message) \<Rightarrow>
          (if code = [] then parse_generic_quota_patterns body
           else if code = ''1308'' then parse_zai_1308 now message
           else if code = ''1310'' then parse_zai_1310 now message
           else parse_generic_quota_patterns body))"

definition extend_for_signal :: "duration \<Rightarrow> duration \<Rightarrow> duration" where
  "extend_for_signal effective sig = (if sig \<le> effective then effective else sig)"

definition merge_body_quota_signals :: "wire \<Rightarrow> time \<Rightarrow> string \<Rightarrow> duration \<Rightarrow> duration \<times> bool" where
  "merge_body_quota_signals w now body effective =
     (if body = [] then (effective, False)
      else
        let quota_cd = parse_quota_exhaustion w now body;
            (effective, is_quota) =
              (if quota_cd > 0 then (extend_for_signal effective quota_cd, True) else (effective, False));
            reset_cd = parse_quota_reset_fields w now body
        in if reset_cd > 0 then (extend_for_signal effective reset_cd, True) else (effective, is_quota))"

definition derive_429_cooldown :: "wire \<Rightarrow> time \<Rightarrow> string \<Rightarrow> header \<Rightarrow> int \<Rightarrow> duration \<Rightarrow> duration \<times> bool" where
  "derive_429_cooldown w now body h status cd =
     (if status \<noteq> 429 then (cd, False)
      else
        let (effective, is_quota) = merge_body_quota_signals w now body cd in
        if is_overage_only_rejection h then (effective, True)
        else let upstream = derive_upstream_cooldown w now h
             in (if upstream > effective then upstream else effective, is_quota))"

subsection \<open>Which errors are worth a retry\<close>

definition default_retryable_codes :: "int list" where
  "default_retryable_codes = [429, 500, 502, 503, 504, 529, 520, 521, 522, 523, 524, 525, 526]"

definition is_retryable_status :: "gw_config \<Rightarrow> string \<Rightarrow> int \<Rightarrow> bool" where
  "is_retryable_status cfg prov status =
     (case map_of (gw_providers cfg) prov of
        Some pr \<Rightarrow> (if retryable_codes pr \<noteq> [] then List.member (retryable_codes pr) status
          else if gov_retryable_codes (gw_governance cfg) \<noteq> []
          then List.member (gov_retryable_codes (gw_governance cfg)) status
          else List.member default_retryable_codes status)
      | None \<Rightarrow> (if gov_retryable_codes (gw_governance cfg) \<noteq> []
          then List.member (gov_retryable_codes (gw_governance cfg)) status
          else List.member default_retryable_codes status))"

definition common_retryable_patterns :: "string list" where
  "common_retryable_patterns =
    [''unavailable_model'', ''tokens_limit_reached'', ''context_length_exceeded'', ''context length'',
     ''model_overloaded'', ''overloaded'', ''thought_signature'', ''name cannot be empty'',
     ''messages parameter is illegal'', ''unknown_model'', ''max_tokens'', ''rate_limit_exceeded'',
     ''extra_forbidden'', ''enable-auto-tool-choice'', ''tool_call_parser'', ''valid string'',
     ''resource_exhausted'', ''quota exceeded'', ''quota_exceeded'']"

definition deepseek_patterns :: "string list" where
  "deepseek_patterns = [''reasoning_content'', ''thinking mode'']"

definition anthropic_patterns :: "string list" where
  "anthropic_patterns = [''overloaded_error'', ''prompt is too long'', ''prompt: length'']"

definition gemini_patterns :: "string list" where
  "gemini_patterns = [''the response was blocked'', ''content has no parts'']"

definition openrouter_patterns :: "string list" where
  "openrouter_patterns =
    [''insufficient_quota'', ''insufficient balance'', ''no available provider'', ''no available model'',
     ''capacity exceeded'', ''capacity_limit'', ''provider overloaded'', ''free tier rate limit'']"

definition upstream_blame_patterns :: "string list" where
  "upstream_blame_patterns =
    [''upstream request failed'', ''upstream error'', ''upstream unavailable'',
     ''upstream is unavailable'', ''reach upstream'']"

definition xai_patterns :: "string list" where
  "xai_patterns = [''at capacity'', ''temporarily unavailable'', ''service overloaded'']"

definition provider_matchers :: "(string \<times> string list) list" where
  "provider_matchers =
    [(''anthropic'', anthropic_patterns), (''gemini'', gemini_patterns), (''vertex'', gemini_patterns),
     (''deepseek'', deepseek_patterns), (''openrouter'', openrouter_patterns), (''xai'', xai_patterns)]"

definition matches_provider_patterns :: "string \<Rightarrow> string \<Rightarrow> bool" where
  "matches_provider_patterns lower prov =
     (let lp = to_lower prov
      in list_ex (\<lambda>(name, pats). str_contains lp name \<and> contains_any lower pats) provider_matchers)"

definition is_retryable_client_error :: "int \<Rightarrow> string \<Rightarrow> string \<Rightarrow> bool" where
  "is_retryable_client_error status body prov =
     (if status \<noteq> 400 \<and> status \<noteq> 413 \<and> status \<noteq> 422 then False
      else if body = [] then False
      else
        let lower = to_lower body in
        if contains_any lower upstream_blame_patterns then True
        else if contains_any lower common_retryable_patterns then True
        else matches_provider_patterns lower prov)"

definition error_envelope_keys :: "string list" where
  "error_envelope_keys = [''error'', ''errors'', ''detail'', ''details'', ''message'', ''type'', ''code'',
     ''title'', ''reason'', ''status'']"

definition opaque_4xx_body :: "wire \<Rightarrow> int \<Rightarrow> string \<Rightarrow> bool" where
  "opaque_4xx_body w status body =
     (if status \<noteq> 400 \<and> status \<noteq> 422 then False
      else case json_object w body of
        None \<Rightarrow> False
      | Some obj \<Rightarrow> (if obj = [] then False
          else \<not> list_ex (\<lambda>k. map_of obj k \<noteq> None) error_envelope_keys))"

datatype retryable_reason = Reason_none | Reason_pattern | Reason_phrase | Reason_opaque

definition body_contains_phrase :: "string \<Rightarrow> string list \<Rightarrow> bool" where
  "body_contains_phrase body phrases =
     (if body = [] \<or> phrases = [] then False
      else let lower = to_lower body
           in list_ex (\<lambda>ph. trim_space ph \<noteq> [] \<and> str_contains lower (to_lower ph)) phrases)"

definition retry_opaque_enabled :: "governance \<Rightarrow> bool" where
  "retry_opaque_enabled g = (case retry_opaque_4xx g of None \<Rightarrow> True | Some b \<Rightarrow> b)"

definition retryable_4xx_reason :: "wire \<Rightarrow> gw_config \<Rightarrow> int \<Rightarrow> string \<Rightarrow> string \<Rightarrow> retryable_reason" where
  "retryable_4xx_reason w cfg status body prov =
     (if is_retryable_client_error status body prov then Reason_pattern
      else if prov \<noteq> [] \<and> (case map_of (gw_providers cfg) prov of
          None \<Rightarrow> False
        | Some pr \<Rightarrow> status \<ge> 400 \<and> status < 500 \<and> retryable_phrases pr \<noteq> []
            \<and> body_contains_phrase body (retryable_phrases pr)) then Reason_phrase
      else if retry_opaque_enabled (gw_governance cfg) \<and> opaque_4xx_body w status body then Reason_opaque
      else Reason_none)"

fun first_scoped :: "int \<Rightarrow> string \<Rightarrow> scoped_rule list \<Rightarrow> scoped_rule option" where
  "first_scoped status lower [] = None"
| "first_scoped status lower (rule # rules) =
     (if rule_status rule \<noteq> 0 \<and> rule_status rule \<noteq> status then first_scoped status lower rules
      else
        let pattern = trim_space (message_pattern rule) in
        if pattern = [] then first_scoped status lower rules
        else if str_contains lower (to_lower pattern) then Some rule
        else first_scoped status lower rules)"

definition match_request_scoped_error :: "gw_config \<Rightarrow> string \<Rightarrow> int \<Rightarrow> string \<Rightarrow> scoped_rule option" where
  "match_request_scoped_error cfg prov status body =
     (case map_of (gw_providers cfg) prov of
        None \<Rightarrow> None
      | Some pr \<Rightarrow> (if request_scoped_errors pr = [] then None
          else first_scoped status (to_lower body) (request_scoped_errors pr)))"

definition rejected_param_names :: "string \<Rightarrow> string list" where
  "rejected_param_names body =
     filter (str_contains (to_lower body))
       [''temperature'', ''top_p'', ''top_k'', ''presence_penalty'', ''frequency_penalty'',
        ''candidate_count'', ''reasoning_effort'', ''tool_choice'', ''stream_options'', ''logit_bias'',
        ''logprobs'']"

subsection \<open>Handling an upstream error\<close>

text \<open>
  The readings of the clock and the draws of one classification: \<open>e_now\<close> for the upstream's reset
  instants, a clock each for the cooldown and for the recorded failure, the breaker's random
  draw and the jitter of the concurrency delay.
\<close>

record error_clock =
  e_now :: time
  e_cool :: clock
  e_fail :: clock
  e_draw :: rat
  e_jitter :: duration

datatype retry_signal = Signal_continue | Signal_retry | Signal_break | Signal_done

definition on_agents :: "(agent_state \<Rightarrow> agent_state) \<Rightarrow> gw_state \<Rightarrow> gw_state" where
  "on_agents f gw = gw\<lparr>gw_agents := f (gw_agents gw)\<rparr>"

definition record_status :: "error_clock \<Rightarrow> upstream_target \<Rightarrow> int \<Rightarrow> string \<Rightarrow> gw_state \<Rightarrow> gw_state" where
  "record_status ec target status body =
     on_agents (\<lambda>s. snd (ag_record_failure_with_status (e_fail ec) (e_draw ec) target status body s))"

definition record_opaque :: "error_clock \<Rightarrow> upstream_target \<Rightarrow> gw_state \<Rightarrow> gw_state" where
  "record_opaque ec target =
     on_agents (\<lambda>s. s\<lparr>ag_cb := record_opaque_failure (e_fail ec) (cool_key target) (ag_cb s)\<rparr>)"

definition handle_retryable_429 ::
  "wire \<Rightarrow> gw_config \<Rightarrow> error_clock \<Rightarrow> upstream_target \<Rightarrow> duration \<Rightarrow> int \<Rightarrow> string \<Rightarrow> header \<Rightarrow> gw_state
   \<Rightarrow> (duration \<times> bool) \<times> gw_state" where
  "handle_retryable_429 w cfg ec target cd status body h gw =
     (case derive_429_cooldown w (e_now ec) body h status cd of (effective, is_quota) \<Rightarrow>
        if status = 429 then
          (let floor_cd = effective_min_quota_cooldown (min_quota_cooldown_seconds (gw_governance cfg));
               effective = (if is_quota \<and> floor_cd > 0 \<and> effective < floor_cd then floor_cd else effective);
               answer = (parse_retry_delay w (e_now ec) h body, is_quota)
           in if byok target then (answer, gw)
              else (answer, record_status ec target status body
                      (on_agents (activate_cooldown (e_cool ec) target effective) gw)))
        else ((0, False), record_status ec target status body gw))"

definition handle_adapter_retryable ::
  "wire \<Rightarrow> error_clock \<Rightarrow> upstream_target \<Rightarrow> int \<Rightarrow> string \<Rightarrow> gw_state \<Rightarrow> (bool \<times> bool) \<times> gw_state" where
  "handle_adapter_retryable w ec target status body gw =
     (let c = normalize_error (zai_error_code w) (for_provider (t_provider target)) status body in
      if (c = Error_retryable \<or> c = Error_quota_exhausted) \<and> status \<ge> 400 \<and> status < 500
      then ((True, c = Error_quota_exhausted), record_status ec target status body gw)
      else ((False, False), gw))"

definition record_retryable_4xx ::
  "wire \<Rightarrow> gw_config \<Rightarrow> error_clock \<Rightarrow> upstream_target \<Rightarrow> int \<Rightarrow> string \<Rightarrow> gw_state \<Rightarrow> bool \<times> gw_state" where
  "record_retryable_4xx w cfg ec target status body gw =
     (let reason = retryable_4xx_reason w cfg status body (t_provider target) in
      if reason = Reason_none then (False, gw)
      else if reason = Reason_opaque then (True, record_opaque ec target gw)
      else (True, record_status ec target status body gw))"

definition handle_upstream_error ::
  "wire \<Rightarrow> gw_config \<Rightarrow> error_clock \<Rightarrow> nat \<Rightarrow> nat \<Rightarrow> upstream_target \<Rightarrow> duration \<Rightarrow> int \<Rightarrow> string \<Rightarrow> header
   \<Rightarrow> gw_state \<Rightarrow> (retry_signal \<times> duration \<times> bool) \<times> gw_state" where
  "handle_upstream_error w cfg ec idx n target cd status body h gw =
     (if normalize_error (zai_error_code w) (for_provider (t_provider target)) status body = Error_concurrency_limited
      then ((Signal_retry, concurrency_retry_delay (e_jitter ec), False), release_probe (cool_key target) gw)
      else if is_retryable_status cfg (t_provider target) status then
        (case handle_retryable_429 w cfg ec target cd status body h gw of
           ((delay, is_quota), gw) \<Rightarrow> ((Signal_retry, delay, is_quota), gw))
      else case record_retryable_4xx w cfg ec target status body gw of (retryable, gw) \<Rightarrow>
        if retryable then ((Signal_retry, 0, False), gw)
        else case handle_adapter_retryable w ec target status body gw of ((retryable, is_quota), gw) \<Rightarrow>
          if retryable then ((Signal_retry, 0, is_quota), gw)
          else if idx + 1 < n \<and> is_model_not_found_status status body
          then ((Signal_continue, 0, False), record_status ec target status body gw)
          else
            let gw = release_probe (cool_key target) gw in
            if idx + 1 < n then ((Signal_continue, 0, False), gw)
            else ((Signal_done, 0, False), gw))"

subsection \<open>The verdict on an error\<close>

definition worth_retry :: "wire \<Rightarrow> gw_config \<Rightarrow> upstream_target \<Rightarrow> int \<Rightarrow> string \<Rightarrow> bool" where
  "worth_retry w cfg target status body \<longleftrightarrow>
     (let c = normalize_error (zai_error_code w) (for_provider (t_provider target)) status body in
      c = Error_concurrency_limited \<or> is_retryable_status cfg (t_provider target) status
      \<or> retryable_4xx_reason w cfg status body (t_provider target) \<noteq> Reason_none
      \<or> (c = Error_retryable \<or> c = Error_quota_exhausted) \<and> 400 \<le> status \<and> status < 500)"


subsection \<open>Probes and errors\<close>

lemma on_agents_agents [simp]: "gw_agents (on_agents f gw) = f (gw_agents gw)"
  by (simp add: on_agents_def)

definition gw_probes :: "gw_state \<Rightarrow> string \<Rightarrow> nat" where
  "gw_probes gw = probes_out (ag_cb (gw_agents gw))"

text \<open>From one state to another a probe of \<open>key\<close> is given back, and none is taken.\<close>

definition gives_back :: "string \<Rightarrow> gw_state \<Rightarrow> gw_state \<Rightarrow> bool" where
  "gives_back key gw gw' \<longleftrightarrow> (\<forall>k. gw_probes gw' k \<le> gw_probes gw k - (if k = key then 1 else 0))"

lemma gives_back_key: "gives_back key gw gw' \<Longrightarrow> gw_probes gw' key \<le> gw_probes gw key - 1"
  by (simp add: gives_back_def) (metis One_nat_def)

lemma gives_back_mono:
  "gives_back key gw' gw'' \<Longrightarrow> (\<And>k. gw_probes gw' k \<le> gw_probes gw k) \<Longrightarrow> gives_back key gw gw''"
  unfolding gives_back_def by (meson diff_le_mono order_trans)

lemma release_gives_back: "gives_back key gw (release_probe key gw)"
  by (simp add: gives_back_def gw_probes_def release_half_open_probes)

lemma record_status_gives_back:
  assumes "\<not> byok target" "cool_key target \<noteq> []"
  shows "gives_back (cool_key target) gw (record_status ec target status body gw)"
  using assms record_failure_with_status_probes [of "e_fail ec" "e_draw ec" "cool_key target" status body
      "ag_cb (gw_agents gw)"]
  by (simp add: gives_back_def gw_probes_def record_status_def ag_record_failure_with_status_def split_beta)

lemma record_opaque_gives_back:
  "cool_key target \<noteq> [] \<Longrightarrow> gives_back (cool_key target) gw (record_opaque ec target gw)"
  using probe.ends_le [of "cool_key target" "OpOpaque (e_fail ec) (cool_key target)" "ag_cb (gw_agents gw)"]
  by (simp add: gives_back_def gw_probes_def record_opaque_def)

lemma activate_cooldown_probes:
  "gw_probes (on_agents (activate_cooldown c target d) gw) k \<le> gw_probes gw k"
proof (cases "d > 0")
  case True
  then show ?thesis
    using probe.ended_le [of "cool_key target" "OpForce c (cool_key target) d" "ag_cb (gw_agents gw)" k]
    by (simp add: gw_probes_def activate_cooldown_def)
qed (simp add: gw_probes_def activate_cooldown_def force_open_def)

lemma handle_429_gives_back:
  assumes "\<not> byok target" "cool_key target \<noteq> []"
  shows "gives_back (cool_key target) gw (snd (handle_retryable_429 w cfg ec target cd status body h gw))"
proof -
  have "\<exists>d. snd (handle_retryable_429 w cfg ec target cd status body h gw) =
      record_status ec target status body
        (if status = 429 then on_agents (activate_cooldown (e_cool ec) target d) gw else gw)"
    using assms(1) by (auto simp: handle_retryable_429_def split_beta Let_def)
  then obtain d where "snd (handle_retryable_429 w cfg ec target cd status body h gw) =
      record_status ec target status body
        (if status = 429 then on_agents (activate_cooldown (e_cool ec) target d) gw else gw)" ..
  then show ?thesis
    using gives_back_mono [OF record_status_gives_back [OF assms] activate_cooldown_probes]
      record_status_gives_back [OF assms]
    by (cases "status = 429") simp_all
qed

lemma error_outcomes:
  "snd (handle_upstream_error w cfg ec idx n target cd status body h gw) \<in>
     {release_probe (cool_key target) gw, record_status ec target status body gw, record_opaque ec target gw,
      snd (handle_retryable_429 w cfg ec target cd status body h gw)}"
  by (simp add: handle_upstream_error_def record_retryable_4xx_def handle_adapter_retryable_def split_beta Let_def)

lemma handle_error_gives_back:
  assumes "\<not> byok target" "cool_key target \<noteq> []"
  shows "gives_back (cool_key target) gw (snd (handle_upstream_error w cfg ec idx n target cd status body h gw))"
  using error_outcomes [of w cfg ec idx n target cd status body h gw] release_gives_back
    record_status_gives_back [OF assms] record_opaque_gives_back [OF assms(2)] handle_429_gives_back [OF assms]
  by auto

text \<open>
  Whatever an upstream error turns out to be, handling it ends the dispatch for the breaker:
  a half-open probe the target held is given back, or resolved by a recorded failure, on every
  path, and no circuit is left with more probes than it had.
\<close>

theorem handled_error_settles_its_probe:
  assumes "\<not> byok target" "cool_key target \<noteq> []"
  shows "gives_back (cool_key target) gw (snd (handle_upstream_error w cfg ec idx n target cd status body h gw))"
  using assms by (rule handle_error_gives_back)


subsection \<open>How long a target is benched and a retry waits\<close>

lemma cap_retry_delay_range [simp]: "0 \<le> cap_retry_delay d" "cap_retry_delay d \<le> 5000000000"
  by (simp_all add: cap_retry_delay_def delay_defs)

lemma delay_from_details_range: "0 \<le> delay_from_details w ds \<and> delay_from_details w ds \<le> 5 * second"
  by (induction ds) (auto simp: second_def split: option.split)

lemma delay_from_phrases_range: "0 \<le> delay_from_phrases s ps \<and> delay_from_phrases s ps \<le> 5 * second"
  by (induction ps) (auto simp: Let_def second_def split: option.split)

lemma delay_from_message_range: "0 \<le> delay_from_message s \<and> delay_from_message s \<le> 5 * second"
  unfolding delay_from_message_def by (rule delay_from_phrases_range)

lemma delay_from_error_range: "0 \<le> delay_from_error w e \<and> delay_from_error w e \<le> 5 * second"
  using delay_from_details_range [of w "fst e"] delay_from_message_range [of "snd e"]
  by (auto simp: delay_from_error_def split_beta Let_def second_def)

lemma doubled_delay_closed:
  "0 < d \<Longrightarrow> d \<le> dispatch_backoff_max \<Longrightarrow> doubled_delay n d = min dispatch_backoff_max (d * 2 ^ n)"
proof (induction n arbitrary: d)
  case (Suc n)
  have le: "d * 2 \<le> d * 2 ^ Suc n" using Suc.prems(1) by simp
  show ?case
  proof (cases "dispatch_backoff_max \<le> d * 2")
    case True
    then show ?thesis using le by (simp add: Let_def)
  next
    case False
    then show ?thesis using Suc.IH [of "d * 2"] Suc.prems by (simp add: Let_def mult.assoc)
  qed
qed simp

text \<open>
  The waits of the loop are bounded: a delay taken from the upstream's answer is between 0
  and 5 seconds whatever the answer says, and the exponential backoff after \<open>n\<close> failures is
  \<open>min 8s (500ms * 2^n)\<close> plus its jitter.
\<close>

theorem retry_waits_are_bounded:
  "0 \<le> parse_retry_delay w now h body \<and> parse_retry_delay w now h body \<le> 5 * second
   \<and> dispatch_backoff (int n) jitter = min (8 * second) (500 * millisecond * 2 ^ n) + jitter"
proof -
  have b: "doubled_delay n dispatch_backoff_base = min (8 * second) (500 * millisecond * 2 ^ n)"
    using doubled_delay_closed [of dispatch_backoff_base n] by (simp add: delay_defs)
  have "0 \<le> parse_retry_after_header w now h \<and> parse_retry_after_header w now h \<le> 5 * second"
    by (auto simp: parse_retry_after_header_def Let_def second_def split: option.split)
  moreover have "0 \<le> delay_from_object w body \<and> delay_from_object w body \<le> 5 * second"
    using delay_from_error_range by (auto simp: delay_from_object_def second_def split: option.split)
  moreover have "0 \<le> delay_from_array w body \<and> delay_from_array w body \<le> 5 * second"
    using delay_from_error_range by (auto simp: delay_from_array_def second_def split: option.split list.split)
  ultimately show ?thesis by (simp add: parse_retry_delay_def Let_def dispatch_backoff_def b)
qed

lemma zai_1310_range: "parse_zai_1310 now m \<le> 1 * hour"
  by (simp add: parse_zai_1310_def Let_def delay_defs)

lemma quota_exhaustion_range:
  assumes "fst (the (error_code_message w body)) \<noteq> ''1308'' \<or> error_code_message w body = None"
  shows "parse_quota_exhaustion w now body \<le> 8 * 24 * hour"
proof -
  have "parse_generic_quota_patterns body \<le> 8 * 24 * hour"
    by (simp add: parse_generic_quota_patterns_def Let_def delay_defs)
  moreover have "parse_zai_1310 now m \<le> 8 * 24 * hour" for m
    by (rule order_trans [OF zai_1310_range]) (simp add: delay_defs)
  ultimately show ?thesis
    using assms by (auto simp: parse_quota_exhaustion_def delay_defs split: option.split)
qed

lemma reset_fields_range: "parse_quota_reset_fields w now body \<le> 8 * 24 * hour"
  by (auto simp: parse_quota_reset_fields_def Let_def max_rate_limit_window_cooldown_def delay_defs split: option.split)

lemma upstream_cooldown_range: "derive_upstream_cooldown w now h \<le> 8 * 24 * hour"
  by (simp add: derive_upstream_cooldown_def Let_def max_rate_limit_window_cooldown_def)

text \<open>
  C9: The cooldown derived from a 429 is never shorter than the configured one, and no upstream
  window makes it longer than 8 days, unless the body carries ZAI's code 1308.
\<close>

theorem cooldown_of_429_is_bounded:
  assumes "\<And>m. error_code_message w body \<noteq> Some (''1308'', m)"
  shows "cd \<le> fst (derive_429_cooldown w now body h status cd)
    \<and> fst (derive_429_cooldown w now body h status cd) \<le> max cd (8 * 24 * hour)"
proof -
  have q: "parse_quota_exhaustion w now body \<le> 8 * 24 * hour"
  proof (rule quota_exhaustion_range, cases "error_code_message w body")
    case (Some e)
    then show "fst (the (error_code_message w body)) \<noteq> ''1308'' \<or> error_code_message w body = None"
      using assms [of "snd e"] by (cases e) auto
  qed simp
  have m: "cd \<le> fst (merge_body_quota_signals w now body cd)
      \<and> fst (merge_body_quota_signals w now body cd) \<le> max cd (8 * 24 * hour)"
    using q reset_fields_range [of w now body]
    by (auto simp: merge_body_quota_signals_def extend_for_signal_def Let_def)
  show ?thesis
    using m upstream_cooldown_range [of w now h] by (auto simp: derive_429_cooldown_def split_beta Let_def)
qed

text \<open>
  The timestamp of ZAI's 1308 has no cap: any instant up to \<open>max_timestamp\<close>, which lies after the
  year 9999, is the instant the target comes back.
\<close>

theorem zai_1308_is_not_capped:
  assumes "error_code_message w body = Some (''1308'', m)" "body \<noteq> []"
    and "0 < extract_unix_timestamp_ms m" "now < extract_unix_timestamp_ms m * millisecond"
  shows "extract_unix_timestamp_ms m * millisecond - now \<le> fst (derive_429_cooldown w now body h 429 cd)"
proof -
  have "parse_quota_exhaustion w now body = extract_unix_timestamp_ms m * millisecond - now"
    using assms by (simp add: parse_quota_exhaustion_def parse_zai_1308_def Let_def)
  then show ?thesis
    using assms(2,4) by (auto simp: derive_429_cooldown_def merge_body_quota_signals_def extend_for_signal_def
        split_beta Let_def)
qed



subsection \<open>Witnesses\<close>

text \<open>Parsers that decode nothing but ZAI's code 1308.\<close>

definition ex_wire :: wire where
  "ex_wire = \<lparr>zai_error_code = (\<lambda>b. if b = ''1308'' then Some b else None),
     error_code_message = (\<lambda>b. if b = ''1308'' then Some (b, ''1700003600000'') else None),
     rpc_error = (\<lambda>_. None), rpc_errors = (\<lambda>_. None), json_object = (\<lambda>_. None),
     parse_duration = (\<lambda>_. None), parse_http_time = (\<lambda>_. None), parse_rfc3339 = (\<lambda>_. None),
     parse_float = (\<lambda>_. None)\<rparr>"

definition ex_error_clock :: error_clock where
  "ex_error_clock = \<lparr>e_now = 0, e_cool = at_second 2, e_fail = at_second 2, e_draw = 0, e_jitter = 0\<rparr>"

theorem zai_1308_is_not_capped_witness:
  "1700003600000 * millisecond \<le> fst (derive_429_cooldown ex_wire 0 ''1308'' (\<lambda>_. []) 429 second)"
proof -
  have t: "extract_unix_timestamp_ms ''1700003600000'' = 1700003600000"
    by (simp add: is_digit_def parse_digits_to_timestamp_def min_timestamp_def max_timestamp_def Let_def)
  show ?thesis
    using zai_1308_is_not_capped [of ex_wire "''1308''" "''1700003600000''" 0 "\<lambda>_. []" second] t
    by (simp add: ex_wire_def delay_defs)
qed

theorem cooldown_of_429_is_bounded_witness:
  "fst (derive_429_cooldown ex_wire 0 ''quota exceeded'' (\<lambda>_. []) 429 second) \<le> 8 * 24 * hour"
  using cooldown_of_429_is_bounded [of ex_wire "''quota exceeded''" second 0 "\<lambda>_. []" 429]
  by (simp add: ex_wire_def delay_defs)

text \<open>The circuit of the example gateway with one probe out.\<close>

definition ex_probing :: gw_state where
  "ex_probing = snd (breaker_gate (at_second 2) (ex_target ''p'' ''x'') (ex_gw_state 9))"

lemma ex_probing_out: "gw_probes ex_probing ''ag:p:x'' = 1"
  by code_simp

theorem handled_error_settles_its_probe_witness:
  "gw_probes (snd (handle_upstream_error ex_wire ex_gw_config ex_error_clock 0 1 (ex_target ''p'' ''x'') second 500
     ''oops'' (\<lambda>_. []) ex_probing)) ''ag:p:x'' = 0"
  using gives_back_key [OF handled_error_settles_its_probe [of "ex_target ''p'' ''x''" ex_probing ex_wire ex_gw_config ex_error_clock
      0 1 second 500 "''oops''" "\<lambda>_. []"]] ex_probing_out
  by (simp add: ex_target_def)


end
