(* ===== verification/RetryLoop.thy ===== *)
theory RetryLoop
  imports ErrorPolicy
begin

text \<open>
  The dispatch loop, \<^verbatim>\<open>retryLoop\<close> of internal/proxy/retry.go with \<^verbatim>\<open>prepareAndSend\<close> and the
  context-limit branch of context_limit.go: a forward sweep over the targets of a request, with
  bounded repeats of the last one.

  \<open>loop_state\<close> is the struct \<^verbatim>\<open>retryLoop\<close> with the gateway state, what was written to the client
  (\<open>answers\<close>), the waits, the concurrency slots held and a log of the dispatches. What comes from
  outside is an \<open>attempt_in\<close> per pass of the loop: whether the client is gone at each of the
  three places the code asks, what the network answers, what the response handlers made of a
  body, clocks and draws. Their writes (\<open>body_effect\<close>), the payload as the transform leaves it
  (\<open>transformed\<close>) and the summary of the engine are arguments. Statistics, latency and
  calibration records are left out.
\<close>

type_synonym payload = "(string, json) gomap"

subsection \<open>Sending\<close>

text \<open>
  What becomes of a request whose target passed the gates: no slot before the client left, a
  request that could not be built, a network error (whether it is a context's end, and whether
  the client's own context ended), or a response with status, content type, body and headers.
\<close>

datatype upstream_reply = Slot_denied | Not_built | Net_error bool bool | Answer int string string header

fun header_of :: "upstream_reply \<Rightarrow> header" where
  "header_of (Answer status ct body h) = h"
| "header_of _ = (\<lambda>_. [])"

definition record_network_error ::
  "clock \<Rightarrow> upstream_target \<Rightarrow> duration \<Rightarrow> bool \<Rightarrow> bool \<Rightarrow> gw_state \<Rightarrow> gw_state" where
  "record_network_error t target cd ctx_ended client_ended gw =
     (if ctx_ended then
        (if \<not> client_ended then on_agents (ag_record_failure t target cd) gw
         else release_probe (cool_key target) gw)
      else on_agents (ag_record_failure t target cd) gw)"

definition handle_upstream_response :: "int \<Rightarrow> string \<Rightarrow> string \<Rightarrow> upstream_action" where
  "handle_upstream_response status ct body =
     (if str_contains (to_lower ct) ''text/html'' then local_action\<lparr>ua_release := True\<rparr>
      else if str_contains (to_lower ct) ''text/event-stream''
      then local_action\<lparr>ua_kind := Kind_stream, ua_status := status, ua_body := body, ua_release := True\<rparr>
      else local_action\<lparr>ua_kind := Kind_response, ua_status := status, ua_body := body, ua_release := True\<rparr>)"

text \<open>What the response handlers made of a body: \<^verbatim>\<open>streamResult\<close>, with the two forms of an empty one apart.\<close>

datatype body_outcome = Body_terminal | Body_refused | Body_empty | Body_read_error | Body_delivered

record attempt_in =
  gone_before :: bool
  gone_after :: bool
  gone_at_error :: bool
  at_charge :: time
  at_gate :: gate_clock
  at_network :: clock
  at_error :: error_clock
  reply :: upstream_reply
  transformed :: "payload \<Rightarrow> payload"
  summary :: "payload option"
  backoff_jitter :: duration
  repeat_jitter :: duration
  body_effect :: "upstream_target \<Rightarrow> gw_state \<Rightarrow> gw_state"
  body_result :: body_outcome

definition prepare_and_send ::
  "gw_config \<Rightarrow> attempt_in \<Rightarrow> upstream_target \<Rightarrow> int \<Rightarrow> string \<Rightarrow> dispatch_key option \<Rightarrow> duration \<Rightarrow> gw_state
   \<Rightarrow> upstream_action \<times> gw_state" where
  "prepare_and_send cfg x target tokens agent key cd gw =
     (case check_pre_dispatch_guards cfg (at_gate x) target tokens agent key gw of
        (Some action, gw) \<Rightarrow> (action, gw)
      | (None, gw) \<Rightarrow>
          (case reply x of
             Slot_denied \<Rightarrow> (local_action, release_probe (cool_key target) gw)
           | Not_built \<Rightarrow> (local_action\<lparr>ua_release := True\<rparr>, release_probe (cool_key target) gw)
           | Net_error ctx_ended client_ended \<Rightarrow>
               (local_action\<lparr>ua_release := True, ua_retryable := True, upstream_attempted := True\<rparr>,
                record_network_error (at_network x) target cd ctx_ended client_ended gw)
           | Answer status ct body h \<Rightarrow>
               (if status \<ge> 400
                then (local_action\<lparr>ua_kind := Kind_error, ua_status := status, ua_body := body,
                        ua_release := True, upstream_attempted := True\<rparr>, gw)
                else ((handle_upstream_response status ct body)\<lparr>upstream_attempted := True\<rparr>, gw))))"

subsection \<open>The state of the loop\<close>

datatype fail_reason = Fail_none | Fail_summarized | Fail_5xx | Fail_4xx | Fail_dispatch | Fail_stream | Fail_policy

text \<open>What is written to the client; the wire format is that of the request.\<close>

datatype client_answer = Budget_denied string | Upstream_error int string string | Body_answer | Exhausted_error bool

record forward_opts =
  fo_targets :: "upstream_target list"
  fo_agent :: string
  fo_sticky :: string
  fo_max_retries :: int
  fo_cooldown :: duration
  fo_tokens :: int
  fo_key :: "dispatch_key option"
  fo_payload :: payload

record loop_state =
  ls_gw :: gw_state
  attempt :: int
  quota_seen :: bool
  last_stream_err :: bool
  last_fail :: fail_reason
  key_charged :: bool
  budget_skipped :: bool
  upstream_reached :: bool
  limited_pairs :: "string list"
  param_retried :: bool
  same_target_retries :: int
  dispatches :: int
  waited :: bool
  last_4xx :: "(string \<times> int \<times> string) option"
  summarized :: bool
  summarized_payload :: "payload option"
  answers :: "client_answer list"
  waits :: "duration list"
  slots_held :: int
  sent_log :: "(nat \<times> payload) list"

definition new_retry_loop :: "gw_state \<Rightarrow> loop_state" where
  "new_retry_loop gw = \<lparr>ls_gw = gw, attempt = 0, quota_seen = False, last_stream_err = False, last_fail = Fail_none,
     key_charged = False, budget_skipped = False, upstream_reached = False, limited_pairs = [], param_retried = False,
     same_target_retries = 0, dispatches = 0, waited = False, last_4xx = None, summarized = False,
     summarized_payload = None, answers = [], waits = [], slots_held = 0, sent_log = []\<rparr>"

definition write_answer :: "client_answer \<Rightarrow> loop_state \<Rightarrow> loop_state" where
  "write_answer a s = s\<lparr>answers := answers s @ [a]\<rparr>"

definition wait_for :: "duration \<Rightarrow> loop_state \<Rightarrow> loop_state" where
  "wait_for d s = (if d \<le> 0 then s else s\<lparr>waits := waits s @ [d]\<rparr>)"

definition on_gw :: "(gw_state \<Rightarrow> gw_state) \<Rightarrow> loop_state \<Rightarrow> loop_state" where
  "on_gw f s = s\<lparr>ls_gw := f (ls_gw s)\<rparr>"

definition release_slot :: "upstream_action \<Rightarrow> loop_state \<Rightarrow> loop_state" where
  "release_slot a s = (if ua_release a then s\<lparr>slots_held := slots_held s - 1\<rparr> else s)"

subsection \<open>Benched pairs\<close>

definition account_pair :: "upstream_target \<Rightarrow> string" where
  "account_pair t = (if account_name t \<noteq> [] then t_provider t @ ''/'' @ account_name t else t_provider t)"

definition mark_rate_limited_pair :: "upstream_target \<Rightarrow> loop_state \<Rightarrow> loop_state" where
  "mark_rate_limited_pair t s = s\<lparr>limited_pairs := account_pair t # limited_pairs s\<rparr>"

definition has_other_eligible_pair :: "forward_opts \<Rightarrow> nat \<Rightarrow> loop_state \<Rightarrow> bool" where
  "has_other_eligible_pair fo i s =
     (if i \<ge> length (fo_targets fo) then False
      else list_ex (\<lambda>t. account_pair t \<notin> set (limited_pairs s)) (drop (i + 1) (fo_targets fo)))"

definition should_skip_rate_limited_pair :: "forward_opts \<Rightarrow> nat \<Rightarrow> upstream_target \<Rightarrow> loop_state \<Rightarrow> bool" where
  "should_skip_rate_limited_pair fo i t s =
     (if account_pair t \<notin> set (limited_pairs s) then False else has_other_eligible_pair fo i s)"

subsection \<open>Budgets, repeats and stickiness\<close>

definition reserve_key_budget :: "time \<Rightarrow> dispatch_key option \<Rightarrow> int \<Rightarrow> gw_state \<Rightarrow> string option \<times> gw_state" where
  "reserve_key_budget now key tokens gw = (case key of
     None \<Rightarrow> (None, gw)
   | Some k \<Rightarrow>
       (if tokens \<le> 0 \<or> key_budget_daily k \<le> 0 then (None, gw)
        else case charge_key_tokens now (key_name k) (key_budget_daily k) tokens (gw_usage gw) of
          (ok, u) \<Rightarrow> (if \<not> ok then Some ''key_budget'' else None, gw\<lparr>gw_usage := u\<rparr>)))"

definition enforce_budgets :: "forward_opts \<Rightarrow> time \<Rightarrow> loop_state \<Rightarrow> string option \<times> loop_state" where
  "enforce_budgets fo now s =
     (if fo_tokens fo \<le> 0 then (None, s)
      else if \<not> key_charged s then
        (case reserve_key_budget now (fo_key fo) (fo_tokens fo) (ls_gw s) of
           (denied, gw) \<Rightarrow> (denied, s\<lparr>key_charged := True, ls_gw := gw\<rparr>))
      else (None, s))"

definition sticky_allows_failover :: "forward_opts \<Rightarrow> fail_reason \<Rightarrow> upstream_target \<Rightarrow> bool" where
  "sticky_allows_failover fo reason target =
     (if fo_sticky fo = ''strict'' then reason = Fail_summarized
      else if fo_sticky fo = ''lenient'' then
        (if reason = Fail_summarized \<or> reason = Fail_5xx \<or> reason = Fail_policy then True
         else if reason = Fail_dispatch \<or> reason = Fail_stream then t_cooling target
         else False)
      else True)"

definition max_same_target_retries :: "gw_config \<Rightarrow> forward_opts \<Rightarrow> int" where
  "max_same_target_retries cfg fo =
     (if fo_max_retries fo > 0 then fo_max_retries fo
      else if max_retry_attempts (gw_governance cfg) > 0 then max_retry_attempts (gw_governance cfg) else 3)"

text \<open>\<^verbatim>\<open>consumeSameTargetRetry\<close>: the state when a slot was spent.\<close>

definition consume_same_target_retry ::
  "gw_config \<Rightarrow> forward_opts \<Rightarrow> nat \<Rightarrow> int \<Rightarrow> bool \<Rightarrow> loop_state \<Rightarrow> loop_state option" where
  "consume_same_target_retry cfg fo i status retryable s =
     (if \<not> retryable \<or> status = 413 \<or> i \<noteq> length (fo_targets fo) - 1
         \<or> same_target_retries s \<ge> max_same_target_retries cfg fo
      then None
      else Some (s\<lparr>same_target_retries := same_target_retries s + 1\<rparr>))"

definition retry_same_target :: "duration \<Rightarrow> loop_state \<Rightarrow> loop_state" where
  "retry_same_target jitter s =
     (let s = (if \<not> waited s then wait_for (dispatch_backoff (same_target_retries s - 1) jitter) s else s)
      in s\<lparr>waited := False, last_fail := Fail_none\<rparr>)"

subsection \<open>Errors of the upstream\<close>

definition context_retry_enabled :: "governance \<Rightarrow> bool" where
  "context_retry_enabled g = (case auto_retry_on_context_limit g of None \<Rightarrow> False | Some b \<Rightarrow> b)"

definition param_retry_enabled :: "governance \<Rightarrow> bool" where
  "param_retry_enabled g = (case auto_retry_on_param_reject g of None \<Rightarrow> False | Some b \<Rightarrow> b)"

definition handle_context_limit_error ::
  "gw_config \<Rightarrow> attempt_in \<Rightarrow> upstream_target \<Rightarrow> int \<Rightarrow> string \<Rightarrow> loop_state \<Rightarrow> retry_signal \<times> loop_state" where
  "handle_context_limit_error cfg x target status body s =
     (case (if context_retry_enabled (gw_governance cfg) \<and> \<not> summarized s then summary x else None) of
        Some p \<Rightarrow>
          (Signal_retry, on_gw (release_probe (cool_key target))
             (s\<lparr>summarized := True, summarized_payload := Some p, last_fail := Fail_summarized\<rparr>))
      | None \<Rightarrow>
          (Signal_done, write_answer (Upstream_error status (t_provider target) body)
             (on_gw (release_probe (cool_key target)) s)))"

definition maybe_strip_param_reject :: "gw_config \<Rightarrow> forward_opts \<Rightarrow> string \<Rightarrow> loop_state \<Rightarrow> loop_state option" where
  "maybe_strip_param_reject cfg fo body s =
     (if param_retried s \<or> \<not> param_retry_enabled (gw_governance cfg) then None
      else
        let params = rejected_param_names body;
            p = (case (summarized s, summarized_payload s) of (True, Some p) \<Rightarrow> p | _ \<Rightarrow> fo_payload fo);
            strippable = filter (\<lambda>k. map_of p k \<noteq> None) params
        in if strippable = [] then None
           else Some (s\<lparr>param_retried := True, summarized := True,
                        summarized_payload := Some (fold del strippable p), last_fail := Fail_summarized\<rparr>))"

definition remember_retryable_4xx ::
  "upstream_target \<Rightarrow> int \<Rightarrow> string \<Rightarrow> retry_signal \<Rightarrow> loop_state \<Rightarrow> loop_state" where
  "remember_retryable_4xx target status body sig s =
     (if sig \<noteq> Signal_retry \<or> status < 400 \<or> status \<ge> 500 \<or> status = 429 then s\<lparr>last_4xx := None\<rparr>
      else if quota_seen s then s\<lparr>last_4xx := None\<rparr>
      else s\<lparr>last_4xx := Some (t_provider target, status, body)\<rparr>)"

definition classify_and_wait ::
  "wire \<Rightarrow> gw_config \<Rightarrow> forward_opts \<Rightarrow> attempt_in \<Rightarrow> nat \<Rightarrow> upstream_target \<Rightarrow> int \<Rightarrow> string \<Rightarrow> loop_state
   \<Rightarrow> retry_signal \<times> loop_state" where
  "classify_and_wait w cfg fo x i target status body s =
     (case handle_upstream_error w cfg (at_error x) i (length (fo_targets fo)) target (fo_cooldown fo) status body
             (header_of (reply x)) (ls_gw s) of
        ((sig, delay, quota_now), gw) \<Rightarrow>
          (let s = s\<lparr>ls_gw := gw, quota_seen := quota_seen s \<or> quota_now\<rparr>;
               s = remember_retryable_4xx target status body sig s
           in if sig = Signal_done
              then (Signal_done, write_answer (Upstream_error status (t_provider target) body) s)
              else if fo_max_retries fo > 0 \<and> attempt s > fo_max_retries fo then (Signal_break, s)
              else if sig = Signal_retry
                \<and> normalize_error (zai_error_code w) (for_provider (t_provider target)) status body
                  = Error_concurrency_limited
              then (sig, (wait_for delay s)\<lparr>waited := True\<rparr>)
              else (sig, (if delay > 0 then wait_for delay s
                          else wait_for (dispatch_backoff (attempt s - 1) (backoff_jitter x)) s)\<lparr>waited := True\<rparr>)))"

definition handle_action_error ::
  "wire \<Rightarrow> gw_config \<Rightarrow> forward_opts \<Rightarrow> attempt_in \<Rightarrow> nat \<Rightarrow> upstream_target \<Rightarrow> int \<Rightarrow> string \<Rightarrow> loop_state
   \<Rightarrow> retry_signal \<times> loop_state" where
  "handle_action_error w cfg fo x i target status body s =
     (let s = s\<lparr>attempt := attempt s + 1, last_4xx := None\<rparr>;
          free = on_gw (release_probe (cool_key target)) in
      if gone_at_error x then (Signal_done, free s)
      else
        let s = (if status = 429 then mark_rate_limited_pair target s else s) in
        if is_context_length_error status body then handle_context_limit_error cfg x target status body s
        else case (if status = 400 then maybe_strip_param_reject cfg fo body s else None) of
          Some s \<Rightarrow> (Signal_retry, free (s\<lparr>waited := True\<rparr>))
        | None \<Rightarrow>
            (if match_request_scoped_error cfg (t_provider target) status body \<noteq> None
             then (Signal_done, write_answer (Upstream_error status (t_provider target) body) (free s))
             else classify_and_wait w cfg fo x i target status body s))"

subsection \<open>The outcome of an action\<close>

record action_outcome =
  ao_handled :: bool
  ao_retryable :: bool
  ao_status :: int

definition outcome :: "bool \<Rightarrow> bool \<Rightarrow> int \<Rightarrow> action_outcome" where
  "outcome handled retryable status = \<lparr>ao_handled = handled, ao_retryable = retryable, ao_status = status\<rparr>"

definition handle_error_outcome ::
  "wire \<Rightarrow> gw_config \<Rightarrow> forward_opts \<Rightarrow> attempt_in \<Rightarrow> nat \<Rightarrow> upstream_target \<Rightarrow> int \<Rightarrow> string \<Rightarrow> loop_state
   \<Rightarrow> action_outcome \<times> loop_state" where
  "handle_error_outcome w cfg fo x i target status body s =
     (case handle_action_error w cfg fo x i target status body
             (s\<lparr>last_fail := (if status \<ge> 500 then Fail_5xx else Fail_4xx)\<rparr>) of
        (sig, s) \<Rightarrow>
          (if sig = Signal_done then outcome True False status
           else if sig = Signal_retry then outcome False True status
           else outcome False False status, s))"

definition handle_resume_action :: "upstream_action \<Rightarrow> loop_state \<Rightarrow> action_outcome \<times> loop_state" where
  "handle_resume_action a s =
     (let s = s\<lparr>last_fail := Fail_dispatch\<rparr>;
          s = (if skip_reason a = ''provider_budget'' then s\<lparr>budget_skipped := True\<rparr> else s)
      in (outcome False (ua_retryable a) 0, s))"

definition handle_stream_action :: "attempt_in \<Rightarrow> upstream_target \<Rightarrow> loop_state \<Rightarrow> action_outcome \<times> loop_state" where
  "handle_stream_action x target s =
     (let s = on_gw (body_effect x target) s in
      case body_result x of
        Body_terminal \<Rightarrow> (outcome True False 0, write_answer Body_answer s)
      | Body_refused \<Rightarrow> (outcome False True 0, s\<lparr>last_fail := Fail_policy\<rparr>)
      | Body_empty \<Rightarrow> (outcome False True 0, s\<lparr>last_fail := Fail_stream\<rparr>)
      | Body_read_error \<Rightarrow> (outcome False True 0, s\<lparr>last_fail := Fail_stream, last_stream_err := True\<rparr>)
      | Body_delivered \<Rightarrow> (outcome True False 0, write_answer Body_answer s))"

definition handle_non_streaming_action :: "attempt_in \<Rightarrow> upstream_target \<Rightarrow> loop_state \<Rightarrow> action_outcome \<times> loop_state" where
  "handle_non_streaming_action x target s =
     (let s = on_gw (body_effect x target) s in
      case body_result x of
        Body_terminal \<Rightarrow> (outcome True False 0, write_answer Body_answer s)
      | Body_refused \<Rightarrow> (outcome False True 0, s)
      | Body_empty \<Rightarrow> (outcome False True 0, s)
      | _ \<Rightarrow> (outcome True False 0, write_answer Body_answer s))"

definition handle_action_result ::
  "wire \<Rightarrow> gw_config \<Rightarrow> forward_opts \<Rightarrow> attempt_in \<Rightarrow> nat \<Rightarrow> upstream_target \<Rightarrow> upstream_action \<Rightarrow> loop_state
   \<Rightarrow> action_outcome \<times> loop_state" where
  "handle_action_result w cfg fo x i target a s =
     (let s = (if upstream_attempted a \<or> ua_kind a \<noteq> Kind_continue \<or> ua_retryable a
               then s\<lparr>upstream_reached := True\<rparr> else s);
          s = (if ua_kind a \<noteq> Kind_error then s\<lparr>last_4xx := None\<rparr> else s);
          (ao, s) = (case ua_kind a of
             Kind_continue \<Rightarrow> handle_resume_action a s
           | Kind_error \<Rightarrow> handle_error_outcome w cfg fo x i target (ua_status a) (ua_body a) s
           | Kind_stream \<Rightarrow> handle_stream_action x target s
           | Kind_response \<Rightarrow> handle_non_streaming_action x target s)
      in (ao, release_slot a s))"

subsection \<open>The loop\<close>

text \<open>
  One pass of the loop: the request is over (and whether it was handled), the same target is
  asked again, or the sweep moves on.
\<close>

datatype pass = Over bool loop_state | Repeat loop_state | Move_on loop_state

definition payload_to_use :: "forward_opts \<Rightarrow> loop_state \<Rightarrow> payload" where
  "payload_to_use fo s = (case (summarized s, summarized_payload s) of (True, Some p) \<Rightarrow> p | _ \<Rightarrow> fo_payload fo)"

text \<open>
  The transform works on the map it is given: the copy of the original is dropped after the
  dispatch, the summarized one is kept.
\<close>

definition dispatch ::
  "gw_config \<Rightarrow> forward_opts \<Rightarrow> attempt_in \<Rightarrow> nat \<Rightarrow> upstream_target \<Rightarrow> loop_state \<Rightarrow> upstream_action \<times> loop_state" where
  "dispatch cfg fo x i target s =
     (let p = payload_to_use fo s in
      case prepare_and_send cfg x target (fo_tokens fo) (fo_agent fo) (fo_key fo)
             (fo_cooldown fo) (ls_gw s) of
        (a, gw) \<Rightarrow>
          (a, s\<lparr>ls_gw := gw, dispatches := dispatches s + 1,
                slots_held := slots_held s + (if ua_release a then 1 else 0),
                sent_log := (if ua_release a then sent_log s @ [(i, p)] else sent_log s),
                summarized_payload := (if ua_release a then map_option (transformed x) (summarized_payload s)
                                       else summarized_payload s)\<rparr>))"

definition loop_pass ::
  "wire \<Rightarrow> gw_config \<Rightarrow> forward_opts \<Rightarrow> nat \<Rightarrow> attempt_in \<Rightarrow> loop_state \<Rightarrow> pass" where
  "loop_pass w cfg fo i x s =
     (let target = fo_targets fo ! i in
      if gone_before x then Over False s
      else if fo_max_retries fo > 0 \<and> attempt s > fo_max_retries fo then Over False s
      else if should_skip_rate_limited_pair fo i target s then Move_on s
      else case enforce_budgets fo (at_charge x) s of
        (Some reason, s) \<Rightarrow> Over True (write_answer (Budget_denied reason) s)
      | (None, s) \<Rightarrow>
          (case dispatch cfg fo x i target s of (a, s) \<Rightarrow>
             if gone_after x then Over False (release_slot a s)
             else case handle_action_result w cfg fo x i target a s of (ao, s) \<Rightarrow>
               if ao_handled ao then Over True s
               else case consume_same_target_retry cfg fo i (ao_status ao) (ao_retryable ao) s of
                 Some s \<Rightarrow> Repeat (retry_same_target (repeat_jitter x) s)
               | None \<Rightarrow>
                   (let s = s\<lparr>waited := False\<rparr> in
                    if \<not> sticky_allows_failover fo (last_fail s) target then Over False s
                    else Move_on (s\<lparr>last_fail := Fail_none\<rparr>))))"

lemma consume_same_target_retry_Some:
  "consume_same_target_retry cfg fo i status retryable s = Some s' \<Longrightarrow>
     s' = s\<lparr>same_target_retries := same_target_retries s + 1\<rparr>
     \<and> same_target_retries s < max_same_target_retries cfg fo \<and> i = length (fo_targets fo) - 1"
  by (simp add: consume_same_target_retry_def split: if_splits)

text \<open>No handler but \<^verbatim>\<open>consumeSameTargetRetry\<close> touches the repeat counter or the number of dispatches.\<close>

lemma loop_frame [simp]:
  "same_target_retries (write_answer c s) = same_target_retries s" "dispatches (write_answer c s) = dispatches s"
  "same_target_retries (wait_for d s) = same_target_retries s" "dispatches (wait_for d s) = dispatches s"
  "same_target_retries (on_gw f s) = same_target_retries s" "dispatches (on_gw f s) = dispatches s"
  "same_target_retries (release_slot a s) = same_target_retries s" "dispatches (release_slot a s) = dispatches s"
  "same_target_retries (mark_rate_limited_pair t s) = same_target_retries s"
  "dispatches (mark_rate_limited_pair t s) = dispatches s"
  by (simp_all add: write_answer_def wait_for_def on_gw_def release_slot_def mark_rate_limited_pair_def)

lemma remember_frame [simp]:
  "same_target_retries (remember_retryable_4xx t status body sig s) = same_target_retries s"
  "dispatches (remember_retryable_4xx t status body sig s) = dispatches s"
  by (simp_all add: remember_retryable_4xx_def)

lemma strip_frame:
  "maybe_strip_param_reject cfg fo body s = Some s' \<Longrightarrow>
     same_target_retries s' = same_target_retries s \<and> dispatches s' = dispatches s"
  by (auto simp: maybe_strip_param_reject_def Let_def split: if_splits)

lemma classify_frame:
  "same_target_retries (snd (classify_and_wait w cfg fo x i t status body s)) = same_target_retries s
   \<and> dispatches (snd (classify_and_wait w cfg fo x i t status body s)) = dispatches s"
  by (simp add: classify_and_wait_def split_beta Let_def)

lemma action_error_frame:
  "same_target_retries (snd (handle_action_error w cfg fo x i t status body s)) = same_target_retries s
   \<and> dispatches (snd (handle_action_error w cfg fo x i t status body s)) = dispatches s"
  by (auto simp: handle_action_error_def Let_def handle_context_limit_error_def classify_frame
      split: option.split dest!: strip_frame)

lemma action_result_frame:
  "same_target_retries (snd (handle_action_result w cfg fo x i t a s)) = same_target_retries s
   \<and> dispatches (snd (handle_action_result w cfg fo x i t a s)) = dispatches s"
  by (auto simp: handle_action_result_def handle_resume_action_def handle_error_outcome_def
      handle_stream_action_def handle_non_streaming_action_def split_beta Let_def action_error_frame
      split: action_kind.split body_outcome.split)

lemma enforce_budgets_frame:
  "same_target_retries (snd (enforce_budgets fo now s)) = same_target_retries s
   \<and> dispatches (snd (enforce_budgets fo now s)) = dispatches s"
  by (simp add: enforce_budgets_def split_beta)

lemma retry_same_target_frame [simp]:
  "same_target_retries (retry_same_target j s) = same_target_retries s"
  "dispatches (retry_same_target j s) = dispatches s"
  by (simp_all add: retry_same_target_def Let_def)

lemma dispatch_frame:
  "same_target_retries (snd (dispatch cfg fo x i t s)) = same_target_retries s
   \<and> dispatches (snd (dispatch cfg fo x i t s)) = dispatches s + 1"
  by (simp add: dispatch_def split_beta Let_def)

text \<open>A pass, cut at its parts.\<close>

definition charged_state :: "forward_opts \<Rightarrow> attempt_in \<Rightarrow> loop_state \<Rightarrow> loop_state" where
  "charged_state fo x s = snd (enforce_budgets fo (at_charge x) s)"

definition sent_action :: "gw_config \<Rightarrow> forward_opts \<Rightarrow> nat \<Rightarrow> attempt_in \<Rightarrow> loop_state \<Rightarrow> upstream_action" where
  "sent_action cfg fo i x s = fst (dispatch cfg fo x i (fo_targets fo ! i) (charged_state fo x s))"

definition sent_state :: "gw_config \<Rightarrow> forward_opts \<Rightarrow> nat \<Rightarrow> attempt_in \<Rightarrow> loop_state \<Rightarrow> loop_state" where
  "sent_state cfg fo i x s = snd (dispatch cfg fo x i (fo_targets fo ! i) (charged_state fo x s))"

definition pass_result ::
  "wire \<Rightarrow> gw_config \<Rightarrow> forward_opts \<Rightarrow> nat \<Rightarrow> attempt_in \<Rightarrow> loop_state \<Rightarrow> action_outcome \<times> loop_state" where
  "pass_result w cfg fo i x s =
     handle_action_result w cfg fo x i (fo_targets fo ! i) (sent_action cfg fo i x s) (sent_state cfg fo i x s)"

lemma loop_pass_parts:
  "loop_pass w cfg fo i x s =
     (if gone_before x then Over False s
      else if fo_max_retries fo > 0 \<and> attempt s > fo_max_retries fo then Over False s
      else if should_skip_rate_limited_pair fo i (fo_targets fo ! i) s then Move_on s
      else case fst (enforce_budgets fo (at_charge x) s) of
        Some reason \<Rightarrow> Over True (write_answer (Budget_denied reason) (charged_state fo x s))
      | None \<Rightarrow> (if gone_after x then Over False (release_slot (sent_action cfg fo i x s) (sent_state cfg fo i x s))
          else if ao_handled (fst (pass_result w cfg fo i x s)) then Over True (snd (pass_result w cfg fo i x s))
          else case consume_same_target_retry cfg fo i (ao_status (fst (pass_result w cfg fo i x s)))
                      (ao_retryable (fst (pass_result w cfg fo i x s))) (snd (pass_result w cfg fo i x s)) of
              Some s \<Rightarrow> Repeat (retry_same_target (repeat_jitter x) s)
            | None \<Rightarrow> if \<not> sticky_allows_failover fo (last_fail (snd (pass_result w cfg fo i x s))) (fo_targets fo ! i)
                then Over False ((snd (pass_result w cfg fo i x s))\<lparr>waited := False\<rparr>)
                else Move_on ((snd (pass_result w cfg fo i x s))\<lparr>waited := False, last_fail := Fail_none\<rparr>)))"
  by (simp add: loop_pass_def split_beta Let_def charged_state_def sent_action_def sent_state_def pass_result_def
      split: option.split prod.split)

lemma loop_pass_cases:
  obtains (over) b s' where "loop_pass w cfg fo i x s = Over b s'" "same_target_retries s' = same_target_retries s"
      "dispatches s' \<le> dispatches s + 1"
    | (skip) "loop_pass w cfg fo i x s = Move_on s" "should_skip_rate_limited_pair fo i (fo_targets fo ! i) s"
    | (move) s' where "loop_pass w cfg fo i x s = Move_on s'" "same_target_retries s' = same_target_retries s"
      "dispatches s' = dispatches s + 1"
    | (again) s' where "loop_pass w cfg fo i x s = Repeat s'" "same_target_retries s' = same_target_retries s + 1"
      "same_target_retries s < max_same_target_retries cfg fo" "dispatches s' = dispatches s + 1"
      "i = length (fo_targets fo) - 1"
proof -
  let ?t = "fo_targets fo ! i"
  let ?e = "enforce_budgets fo (at_charge x) s"
  let ?r = "pass_result w cfg fo i x s"
  let ?c = "consume_same_target_retry cfg fo i (ao_status (fst ?r)) (ao_retryable (fst ?r)) (snd ?r)"
  let ?sd = "sent_state cfg fo i x s"
  have e: "same_target_retries (charged_state fo x s) = same_target_retries s"
      "dispatches (charged_state fo x s) = dispatches s"
    using enforce_budgets_frame [of fo "at_charge x" s] by (simp_all add: charged_state_def)
  have d: "same_target_retries ?sd = same_target_retries s" "dispatches ?sd = dispatches s + 1"
    using dispatch_frame [of cfg fo x i ?t "charged_state fo x s"] e by (simp_all add: sent_state_def)
  have r: "same_target_retries (snd ?r) = same_target_retries s" "dispatches (snd ?r) = dispatches s + 1"
    using action_result_frame [of w cfg fo x i ?t "sent_action cfg fo i x s" ?sd] d by (simp_all add: pass_result_def)
  note p = loop_pass_parts [of w cfg fo i x s]
  show thesis
  proof (cases "gone_before x \<or> fo_max_retries fo > 0 \<and> attempt s > fo_max_retries fo")
    case True
    then have "loop_pass w cfg fo i x s = Over False s" by (subst p) auto
    then show ?thesis by (rule over) simp_all
  next
    case n1: False
    show ?thesis
    proof (cases "should_skip_rate_limited_pair fo i ?t s")
      case True
      with n1 have "loop_pass w cfg fo i x s = Move_on s" by (subst p) auto
      then show ?thesis using True by (rule skip)
    next
      case n2: False
      show ?thesis
      proof (cases "fst ?e")
        case (Some reason)
        with n1 n2 have "loop_pass w cfg fo i x s = Over True (write_answer (Budget_denied reason) (charged_state fo x s))"
          by (subst p) auto
        then show ?thesis by (rule over) (simp_all add: e)
      next
        case n3: None
        show ?thesis
        proof (cases "gone_after x \<or> ao_handled (fst ?r)")
          case True
          with n1 n2 n3 have "loop_pass w cfg fo i x s =
              Over (\<not> gone_after x) (if gone_after x then release_slot (sent_action cfg fo i x s) ?sd else snd ?r)"
            by (subst p) auto
          then show ?thesis by (rule over) (simp_all add: d r)
        next
          case n4: False
          show ?thesis
          proof (cases ?c)
            case None
            note eq = this
            show ?thesis
            proof (cases "sticky_allows_failover fo (last_fail (snd ?r)) ?t")
              case True
              with n1 n2 n3 n4 eq have
                "loop_pass w cfg fo i x s = Move_on ((snd ?r)\<lparr>waited := False, last_fail := Fail_none\<rparr>)"
                by (subst p) auto
              then show ?thesis by (rule move) (simp_all add: r)
            next
              case False
              with n1 n2 n3 n4 eq have "loop_pass w cfg fo i x s = Over False ((snd ?r)\<lparr>waited := False\<rparr>)"
                by (subst p) auto
              then show ?thesis by (rule over) (simp_all add: r)
            qed
          next
            case (Some s')
            with n1 n2 n3 n4 have "loop_pass w cfg fo i x s = Repeat (retry_same_target (repeat_jitter x) s')"
              by (subst p) auto
            then show ?thesis by (rule again) (use consume_same_target_retry_Some [OF Some] r in simp_all)
          qed
        qed
      qed
    qed
  qed
qed

text \<open>The passes, with the input of each.\<close>

function run_loop ::
  "wire \<Rightarrow> gw_config \<Rightarrow> forward_opts \<Rightarrow> (nat \<Rightarrow> attempt_in) \<Rightarrow> nat \<Rightarrow> nat \<Rightarrow> loop_state \<Rightarrow> bool \<times> loop_state" where
  "run_loop w cfg fo ins i n s =
     (if i < length (fo_targets fo) then
        (case loop_pass w cfg fo i (ins n) s of
           Over b s \<Rightarrow> (b, s)
         | Repeat s \<Rightarrow> run_loop w cfg fo ins i (Suc n) s
         | Move_on s \<Rightarrow> run_loop w cfg fo ins (Suc i) (Suc n) s)
      else (False, s))"
  by pat_completeness auto

definition repeats_left :: "gw_config \<Rightarrow> forward_opts \<Rightarrow> loop_state \<Rightarrow> nat" where
  "repeats_left cfg fo s = nat (max_same_target_retries cfg fo - same_target_retries s)"

lemma pass_measure:
  assumes "i < length (fo_targets fo)"
  shows "loop_pass w cfg fo i x s = Repeat s' \<Longrightarrow> repeats_left cfg fo s = Suc (repeats_left cfg fo s')"
    and "loop_pass w cfg fo i x s = Move_on s' \<Longrightarrow> repeats_left cfg fo s' = repeats_left cfg fo s"
  by (cases rule: loop_pass_cases [of w cfg fo i x s]; simp add: repeats_left_def)+

termination run_loop
proof (relation "measure (\<lambda>(w, cfg, fo, ins, i, n, s). (length (fo_targets fo) - i) + repeats_left cfg fo s)", goal_cases)
  case (2 w cfg fo ins i n s s')
  then show ?case using pass_measure(1) [of i fo w cfg "ins n" s s'] by simp
next
  case (3 w cfg fo ins i n s s')
  then show ?case using pass_measure(2) [of i fo w cfg "ins n" s s'] by simp
qed simp

declare run_loop.simps [simp del]

lemma new_retry_loop_simps [simp]:
  "same_target_retries (new_retry_loop gw) = 0" "dispatches (new_retry_loop gw) = 0"
  "answers (new_retry_loop gw) = []" "ls_gw (new_retry_loop gw) = gw" "attempt (new_retry_loop gw) = 0"
  "slots_held (new_retry_loop gw) = 0" "sent_log (new_retry_loop gw) = []" "\<not> summarized (new_retry_loop gw)"
  by (simp_all add: new_retry_loop_def)

definition exhausted_answer :: "loop_state \<Rightarrow> client_answer" where
  "exhausted_answer s =
     (if budget_skipped s \<and> \<not> upstream_reached s then Budget_denied ''provider_budget''
      else case last_4xx s of
        Some (prov, status, body) \<Rightarrow> Upstream_error status prov body
      | None \<Rightarrow> Exhausted_error (quota_seen s))"

definition report_exhausted :: "bool \<Rightarrow> loop_state \<Rightarrow> loop_state" where
  "report_exhausted gone s = (if gone then s else write_answer (exhausted_answer s) s)"

text \<open>\<^verbatim>\<open>forwardToUpstream\<close>; \<open>gone_at_end\<close>: the client has left when exhaustion is reported.\<close>

definition forward_to_upstream ::
  "wire \<Rightarrow> gw_config \<Rightarrow> forward_opts \<Rightarrow> (nat \<Rightarrow> attempt_in) \<Rightarrow> bool \<Rightarrow> gw_state \<Rightarrow> loop_state" where
  "forward_to_upstream w cfg fo ins gone_at_end gw =
     (case run_loop w cfg fo ins 0 0 (new_retry_loop gw) of
        (handled, s) \<Rightarrow> if handled then s else report_exhausted gone_at_end s)"

subsection \<open>How many dispatches\<close>

lemma run_loop_bound:
  "dispatches (snd (run_loop w cfg fo ins i n s))
     \<le> dispatches s + int (length (fo_targets fo) - i) + int (repeats_left cfg fo s)"
proof (induction w cfg fo ins i n s rule: run_loop.induct)
  case (1 w cfg fo ins i n s)
  show ?case
  proof (cases "i < length (fo_targets fo)")
    case True
    note IH = "1.IH" [OF True]
    show ?thesis
    proof (cases rule: loop_pass_cases [of w cfg fo i "ins n" s])
      case (over b s')
      then show ?thesis using True by (subst run_loop.simps) simp
    next
      case skip
      then show ?thesis using IH(2) [of s] True by (subst run_loop.simps) simp
    next
      case (move s')
      then show ?thesis
        using IH(2) [of s'] True pass_measure(2) [OF True, of w cfg "ins n" s s'] by (subst run_loop.simps) simp
    next
      case (again s')
      then show ?thesis
        using IH(1) [of s'] True pass_measure(1) [OF True, of w cfg "ins n" s s'] by (subst run_loop.simps) simp
    qed
  qed (simp add: run_loop.simps)
qed

lemma max_same_pos: "0 < max_same_target_retries cfg fo"
  by (simp add: max_same_target_retries_def)


subsection \<open>What the client is told\<close>

lemma answers_frame [simp]:
  "answers (write_answer c s) = answers s @ [c]" "answers (wait_for d s) = answers s"
  "answers (on_gw f s) = answers s" "answers (release_slot a s) = answers s"
  "answers (mark_rate_limited_pair t s) = answers s" "answers (retry_same_target j s) = answers s"
  "answers (remember_retryable_4xx t status body sig s) = answers s"
  by (simp_all add: write_answer_def wait_for_def on_gw_def release_slot_def mark_rate_limited_pair_def
      retry_same_target_def remember_retryable_4xx_def Let_def)

lemma charged_answers [simp]: "answers (charged_state fo x s) = answers s"
  by (simp add: charged_state_def enforce_budgets_def split_beta)

lemma sent_answers [simp]: "answers (sent_state cfg fo i x s) = answers s"
  by (simp add: sent_state_def dispatch_def split_beta Let_def)

lemma classify_answers:
  "length (answers (snd (classify_and_wait w cfg fo x i t status body s))) = length (answers s)
     + (if fst (classify_and_wait w cfg fo x i t status body s) = Signal_done then 1 else 0)"
  by (simp add: classify_and_wait_def split_beta Let_def)

lemma context_limit_answers:
  "length (answers (snd (handle_context_limit_error cfg x t status body s))) = length (answers s)
     + (if fst (handle_context_limit_error cfg x t status body s) = Signal_done then 1 else 0)"
  by (simp add: handle_context_limit_error_def split: option.split)

lemma strip_answers: "maybe_strip_param_reject cfg fo body s = Some s' \<Longrightarrow> answers s' = answers s"
  by (auto simp: maybe_strip_param_reject_def Let_def split: if_splits)

lemma action_error_answers:
  "length (answers (snd (handle_action_error w cfg fo x i t status body s))) = length (answers s)
     + (if fst (handle_action_error w cfg fo x i t status body s) = Signal_done \<and> \<not> gone_at_error x then 1 else 0)"
  by (simp add: handle_action_error_def Let_def classify_answers context_limit_answers
      split: option.split) (auto dest: strip_answers split: if_splits)

lemma action_result_answers:
  "length (answers (snd (handle_action_result w cfg fo x i t a s))) \<le> length (answers s)
     + (if ao_handled (fst (handle_action_result w cfg fo x i t a s)) then 1 else 0)
   \<and> (\<not> gone_at_error x \<longrightarrow> length (answers (snd (handle_action_result w cfg fo x i t a s))) = length (answers s)
     + (if ao_handled (fst (handle_action_result w cfg fo x i t a s)) then 1 else 0))"
proof (cases "ua_kind a")
  case Kind_error
  then show ?thesis
    by (auto simp: handle_action_result_def handle_error_outcome_def outcome_def split_beta Let_def
        action_error_answers)
qed (auto simp: handle_action_result_def handle_resume_action_def handle_stream_action_def outcome_def
      handle_non_streaming_action_def split_beta Let_def split: body_outcome.split)

lemma consume_answers:
  "consume_same_target_retry cfg fo i status retryable s = Some s' \<Longrightarrow> answers s' = answers s"
  by (drule consume_same_target_retry_Some) simp

text \<open>What a pass adds to the answers: one when it ends the request as handled, else none.\<close>

definition told :: "bool \<Rightarrow> loop_state \<Rightarrow> bool \<Rightarrow> loop_state \<Rightarrow> bool" where
  "told gone s b s' \<longleftrightarrow> length (answers s') \<le> length (answers s) + (if b then 1 else 0)
     \<and> (\<not> gone \<longrightarrow> length (answers s') = length (answers s) + (if b then 1 else 0))"

lemma pass_result_told:
  "told (gone_at_error x) s (ao_handled (fst (pass_result w cfg fo i x s))) (snd (pass_result w cfg fo i x s))"
  using action_result_answers [where w = w and cfg = cfg and fo = fo and x = x and i = i and t = "fo_targets fo ! i"
      and a = "sent_action cfg fo i x s" and s = "sent_state cfg fo i x s"]
  by (simp add: told_def pass_result_def)

lemma told_frame: "answers s'' = answers s' \<Longrightarrow> told g s b s'' = told g s b s'"
  by (simp add: told_def)

lemma loop_pass_told:
  "case loop_pass w cfg fo i x s of
     Over b s' \<Rightarrow> told (gone_at_error x) s b s'
   | Repeat s' \<Rightarrow> told (gone_at_error x) s False s'
   | Move_on s' \<Rightarrow> told (gone_at_error x) s False s'"
proof -
  obtain ao s1 where r: "pass_result w cfg fo i x s = (ao, s1)" by (cases "pass_result w cfg fo i x s")
  have t: "told (gone_at_error x) s (ao_handled ao) s1"
    using pass_result_told [where x = x and s = s and w = w and cfg = cfg and fo = fo and i = i] by (simp add: r)
  have f: "told g s b (s'\<lparr>waited := v\<rparr>) = told g s b s'" "told g s b (s'\<lparr>waited := v, last_fail := r\<rparr>) = told g s b s'"
    for g b s' v r by (simp_all add: told_def)
  have c: "told g s b (retry_same_target j s2) = told g s b s1"
    if "consume_same_target_retry cfg fo i st re s1 = Some s2" for g b j st re s2
    using consume_answers [OF that] by (simp add: told_def)
  have n: "told g s False s" "told g s True (write_answer z (charged_state fo x s))"
    "told g s False (release_slot a (sent_state cfg fo i x s))" for g z a
    by (simp_all add: told_def)
  show ?thesis
    using t unfolding loop_pass_parts r fst_conv snd_conv
    by (cases "ao_handled ao") (simp_all add: f n c split: option.split)
qed

lemma run_loop_told:
  "told (\<exists>m. gone_at_error (ins m)) s (fst (run_loop w cfg fo ins i n s)) (snd (run_loop w cfg fo ins i n s))"
proof (induction w cfg fo ins i n s rule: run_loop.induct)
  case (1 w cfg fo ins i n s)
  have step: "told (\<exists>m. gone_at_error (ins m)) s b s''"
    if "told (gone_at_error (ins n)) s False s'" "told (\<exists>m. gone_at_error (ins m)) s' b s''" for b s' s''
    using that by (auto simp: told_def)
  have weak: "told (gone_at_error (ins n)) s b s' \<Longrightarrow> told (\<exists>m. gone_at_error (ins m)) s b s'" for b s'
    by (auto simp: told_def)
  have refl: "told (\<exists>m. gone_at_error (ins m)) s False s" by (simp add: told_def)
  show ?case
    using loop_pass_told [where w = w and cfg = cfg and fo = fo and i = i and x = "ins n" and s = s] "1.IH"
    by (subst (1 2) run_loop.simps) (auto split: pass.split intro: step weak refl)
qed

end
