(* ===== verification/RetryProps.thy ===== *)
theory RetryProps
  imports RetryLoop
begin

text \<open>
  The dispatch loop as its client and the breaker see it: the request is answered once, and which
  passes of the loop give back the half-open probe the gates took.
\<close>

subsection \<open>One answer\<close>

text \<open>
  C1: The client is answered exactly once: no request gets two answers, whatever the upstreams
  do and however often the sweep fails over; and unless the client has left, it gets one, be it a
  response, an upstream's error, a budget denial or the report that the targets are exhausted.
\<close>

theorem client_gets_one_answer:
  "length (answers (forward_to_upstream w cfg fo ins gone gw)) \<le> 1
   \<and> (\<not> gone \<longrightarrow> (\<forall>n. \<not> gone_at_error (ins n)) \<longrightarrow> length (answers (forward_to_upstream w cfg fo ins gone gw)) = 1)"
  using run_loop_told [where ins = ins and s = "new_retry_loop gw" and w = w and cfg = cfg and fo = fo and i = 0 and n = 0]
  by (simp add: forward_to_upstream_def report_exhausted_def told_def split_beta split: if_splits)

subsection \<open>Sending\<close>

text \<open>A response of a success status in HTML, which the loop discards as a local failure.\<close>

definition html_answer :: "upstream_reply \<Rightarrow> bool" where
  "html_answer r = (case r of
     Answer status ct body h \<Rightarrow> status < 400 \<and> str_contains (to_lower ct) ''text/html'' | _ \<Rightarrow> False)"

lemma on_agents_failure_gives_back:
  assumes "\<not> byok target" "cool_key target \<noteq> []"
  shows "gives_back (cool_key target) gw (on_agents (ag_record_failure t target cd) gw)"
  using assms probe.ends_le [of "cool_key target" "OpFailure t (cool_key target) [cd]" "ag_cb (gw_agents gw)"]
  by (simp add: gives_back_def gw_probes_def ag_record_failure_def)

lemma network_error_gives_back:
  assumes "\<not> byok target" "cool_key target \<noteq> []"
  shows "gives_back (cool_key target) gw (record_network_error t target cd c e gw)"
  using on_agents_failure_gives_back [OF assms] release_gives_back
  by (simp add: record_network_error_def)

text \<open>\<open>took key gw gw'\<close>: at most one probe more, and of \<open>key\<close>; \<open>kept\<close>: none more.\<close>

definition took :: "string \<Rightarrow> gw_state \<Rightarrow> gw_state \<Rightarrow> bool" where
  "took key gw gw' \<longleftrightarrow> (\<forall>k. gw_probes gw' k \<le> gw_probes gw k + (if k = key then 1 else 0))"

definition kept :: "gw_state \<Rightarrow> gw_state \<Rightarrow> bool" where
  "kept gw gw' \<longleftrightarrow> (\<forall>k. gw_probes gw' k \<le> gw_probes gw k)"

lemma kept_refl [simp]: "kept gw gw" by (simp add: kept_def)

lemma kept_trans: "kept a b \<Longrightarrow> kept b c \<Longrightarrow> kept a c"
  unfolding kept_def by (meson order_trans)

lemma kept_took: "kept a b \<Longrightarrow> took key b c \<Longrightarrow> took key a c"
  unfolding kept_def took_def by (meson add_le_mono1 order_trans)

lemma took_gives_back: "took key a b \<Longrightarrow> gives_back key b c \<Longrightarrow> kept a c"
  unfolding took_def gives_back_def kept_def
  by (metis (no_types, opaque_lifting) add.right_neutral diff_zero le_diff_conv order_trans)

lemma gives_back_kept: "gives_back key a b \<Longrightarrow> kept a b"
  unfolding gives_back_def kept_def by (meson diff_le_self order_trans)

lemma guards_took:
  "check_pre_dispatch_guards cfg t target tokens agent key gw = (None, gw') \<Longrightarrow> took (cool_key target) gw gw'"
  by (simp add: took_def gw_probes_def passed_guards)

lemma guards_kept:
  "check_pre_dispatch_guards cfg t target tokens agent key gw = (Some skip, gw') \<Longrightarrow> kept gw gw'"
  using skipped_guards by (simp add: kept_def gw_probes_def)

text \<open>A local outcome has settled its probe, unless it is an HTML page; the others hold it still.\<close>

lemma prepare_and_send_probes:
  assumes "\<not> byok target" "cool_key target \<noteq> []"
    and "prepare_and_send cfg x target tokens agent key cd gw = (a, gw')"
  shows "took (cool_key target) gw gw'"
    and "ua_kind a = Kind_continue \<Longrightarrow> \<not> html_answer (reply x) \<Longrightarrow> kept gw gw'"
proof -
  have weak: "kept gw gw' \<Longrightarrow> took (cool_key target) gw gw'"
    by (simp add: kept_def took_def le_SucI)
  obtain g gw1 where g: "check_pre_dispatch_guards cfg (at_gate x) target tokens agent key gw = (g, gw1)"
    by (cases "check_pre_dispatch_guards cfg (at_gate x) target tokens agent key gw")
  show "took (cool_key target) gw gw'"
  proof (cases g)
    case (Some skip)
    then show ?thesis using assms(3) g guards_kept weak by (auto simp: prepare_and_send_def)
  next
    case None
    note t = guards_took [OF g [unfolded None]]
    show ?thesis
      using assms(3) g None t took_gives_back [OF t release_gives_back]
        took_gives_back [OF t network_error_gives_back [OF assms(1,2)]] weak
      by (auto simp: prepare_and_send_def split: upstream_reply.splits if_splits)
  qed
  assume a: "ua_kind a = Kind_continue" "\<not> html_answer (reply x)"
  show "kept gw gw'"
  proof (cases g)
    case (Some skip)
    then show ?thesis using assms(3) g guards_kept by (auto simp: prepare_and_send_def)
  next
    case None
    note t = guards_took [OF g [unfolded None]]
    show ?thesis
      using assms(3) g None a took_gives_back [OF t release_gives_back]
        took_gives_back [OF t network_error_gives_back [OF assms(1,2)]]
      by (auto simp: prepare_and_send_def handle_upstream_response_def html_answer_def
          split: upstream_reply.splits if_splits)
  qed
qed

subsection \<open>Handling the outcome\<close>

lemma ls_gw_frame [simp]:
  "ls_gw (write_answer c s) = ls_gw s" "ls_gw (wait_for d s) = ls_gw s" "ls_gw (on_gw f s) = f (ls_gw s)"
  "ls_gw (release_slot a s) = ls_gw s" "ls_gw (mark_rate_limited_pair t s) = ls_gw s"
  "ls_gw (retry_same_target j s) = ls_gw s" "ls_gw (remember_retryable_4xx t status body sig s) = ls_gw s"
  by (simp_all add: write_answer_def wait_for_def on_gw_def release_slot_def mark_rate_limited_pair_def
      retry_same_target_def remember_retryable_4xx_def Let_def)

lemma classify_gw:
  "ls_gw (snd (classify_and_wait w cfg fo x i t status body s)) =
     snd (handle_upstream_error w cfg (at_error x) i (length (fo_targets fo)) t (fo_cooldown fo) status body
            (header_of (reply x)) (ls_gw s))"
  by (simp add: classify_and_wait_def split_beta Let_def)

lemma context_limit_gw:
  "ls_gw (snd (handle_context_limit_error cfg x t status body s)) = release_probe (cool_key t) (ls_gw s)"
  by (simp add: handle_context_limit_error_def split: option.split)

lemma strip_gw: "maybe_strip_param_reject cfg fo body s = Some s' \<Longrightarrow> ls_gw s' = ls_gw s"
  by (auto simp: maybe_strip_param_reject_def Let_def split: if_splits)

text \<open>The state in which an error is classified.\<close>

definition counted_error :: "upstream_target \<Rightarrow> int \<Rightarrow> loop_state \<Rightarrow> loop_state" where
  "counted_error t status s =
     (if status = 429 then mark_rate_limited_pair t (s\<lparr>attempt := attempt s + 1, last_4xx := None\<rparr>)
      else s\<lparr>attempt := attempt s + 1, last_4xx := None\<rparr>)"

lemma counted_error_gw [simp]: "ls_gw (counted_error t status s) = ls_gw s"
  by (simp add: counted_error_def)

lemma action_error_parts:
  "handle_action_error w cfg fo x i t status body s =
     (if gone_at_error x
      then (Signal_done, on_gw (release_probe (cool_key t)) (s\<lparr>attempt := attempt s + 1, last_4xx := None\<rparr>))
      else if is_context_length_error status body
      then handle_context_limit_error cfg x t status body (counted_error t status s)
      else case (if status = 400 then maybe_strip_param_reject cfg fo body (counted_error t status s) else None) of
        Some s2 \<Rightarrow> (Signal_retry, on_gw (release_probe (cool_key t)) (s2\<lparr>waited := True\<rparr>))
      | None \<Rightarrow> (if match_request_scoped_error cfg (t_provider t) status body \<noteq> None
          then (Signal_done, write_answer (Upstream_error status (t_provider t) body)
                  (on_gw (release_probe (cool_key t)) (counted_error t status s)))
          else classify_and_wait w cfg fo x i t status body (counted_error t status s)))"
  unfolding handle_action_error_def Let_def counted_error_def by (rule refl)

lemma action_error_gives_back:
  assumes "\<not> byok t" "cool_key t \<noteq> []"
  shows "gives_back (cool_key t) (ls_gw s) (ls_gw (snd (handle_action_error w cfg fo x i t status body s)))"
proof -
  let ?m = "if status = 400 then maybe_strip_param_reject cfg fo body (counted_error t status s) else None"
  have c: "gives_back (cool_key t) (ls_gw s)
      (ls_gw (snd (classify_and_wait w cfg fo x i t status body (counted_error t status s))))"
    using handle_error_gives_back [OF assms] by (simp add: classify_gw)
  show ?thesis
  proof (cases ?m)
    case None
    then show ?thesis
      unfolding action_error_parts by (simp add: c context_limit_gw release_gives_back)
  next
    case (Some s2)
    then have "ls_gw s2 = ls_gw s" using strip_gw by (auto split: if_splits)
    then show ?thesis
      unfolding action_error_parts Some by (simp add: context_limit_gw release_gives_back)
  qed
qed

subsection \<open>A pass and a sweep\<close>

lemma enforce_gw_agents: "gw_agents (ls_gw (charged_state fo x s)) = gw_agents (ls_gw s)"
  by (auto simp: charged_state_def enforce_budgets_def reserve_key_budget_def split_beta split: option.split)

lemma enforce_kept: "kept (ls_gw s) (ls_gw (charged_state fo x s))"
  by (simp add: kept_def gw_probes_def enforce_gw_agents)

text \<open>
  What the response handlers are relied on for: whatever they make of a body, they give the probe
  of the target back or resolve it by recording an outcome.
\<close>

definition body_settles :: "forward_opts \<Rightarrow> attempt_in \<Rightarrow> bool" where
  "body_settles fo x \<longleftrightarrow> (\<forall>t \<in> set (fo_targets fo). \<forall>gw. gives_back (cool_key t) gw (body_effect x t gw))"

lemma action_result_gw:
  "ls_gw (snd (handle_action_result w cfg fo x i t a s)) = (case ua_kind a of
     Kind_continue \<Rightarrow> ls_gw s
   | Kind_error \<Rightarrow> ls_gw (snd (handle_error_outcome w cfg fo x i t (ua_status a) (ua_body a)
       (s\<lparr>upstream_reached := True\<rparr>)))
   | _ \<Rightarrow> body_effect x t (ls_gw s))"
  by (simp add: handle_action_result_def handle_resume_action_def handle_stream_action_def
      handle_non_streaming_action_def split_beta Let_def split: action_kind.split body_outcome.split)

lemma error_outcome_gives_back:
  assumes "\<not> byok t" "cool_key t \<noteq> []"
  shows "gives_back (cool_key t) (ls_gw s) (ls_gw (snd (handle_error_outcome w cfg fo x i t status body s)))"
  using action_error_gives_back [OF assms, of "s\<lparr>last_fail := if status \<ge> 500 then Fail_5xx else Fail_4xx\<rparr>"]
  by (simp add: handle_error_outcome_def split_beta)

definition pass_state :: "pass \<Rightarrow> loop_state" where
  "pass_state p = (case p of Over b s \<Rightarrow> s | Repeat s \<Rightarrow> s | Move_on s \<Rightarrow> s)"

lemma pass_state_simps [simp]:
  "pass_state (Over b s) = s" "pass_state (Repeat s) = s" "pass_state (Move_on s) = s"
  by (simp_all add: pass_state_def)

lemma loop_pass_gw:
  obtains (still) "ls_gw (pass_state (loop_pass w cfg fo i x s)) = ls_gw s"
    | (charged) "ls_gw (pass_state (loop_pass w cfg fo i x s)) = ls_gw (charged_state fo x s)"
    | (gone) "gone_after x" "ls_gw (pass_state (loop_pass w cfg fo i x s)) = ls_gw (sent_state cfg fo i x s)"
    | (handled) "ls_gw (pass_state (loop_pass w cfg fo i x s)) = ls_gw (snd (pass_result w cfg fo i x s))"
proof -
  obtain ao s1 where r: "pass_result w cfg fo i x s = (ao, s1)" by (cases "pass_result w cfg fo i x s")
  let ?c = "consume_same_target_retry cfg fo i (ao_status ao) (ao_retryable ao) s1"
  let ?p = "loop_pass w cfg fo i x s"
  note parts = loop_pass_parts [of w cfg fo i x s, unfolded r fst_conv snd_conv]
  show thesis
  proof (cases "fst (enforce_budgets fo (at_charge x) s)")
    case (Some reason)
    then have "ls_gw (pass_state ?p) = ls_gw s \<or> ls_gw (pass_state ?p) = ls_gw (charged_state fo x s)"
      by (simp add: parts)
    then show ?thesis using still charged by blast
  next
    case None
    have "ls_gw (pass_state ?p) = ls_gw s \<or> gone_after x \<and> ls_gw (pass_state ?p) = ls_gw (sent_state cfg fo i x s)
        \<or> ls_gw (pass_state ?p) = ls_gw s1"
    proof (cases ?c)
      case None
      then show ?thesis using \<open>fst (enforce_budgets fo (at_charge x) s) = None\<close> by (simp add: parts)
    next
      case (Some s2)
      then have "ls_gw s2 = ls_gw s1" using consume_same_target_retry_Some by fastforce
      then show ?thesis using \<open>fst (enforce_budgets fo (at_charge x) s) = None\<close> Some by (simp add: parts)
    qed
    then show ?thesis using still gone handled r by auto
  qed
qed

text \<open>
  A response the loop reads: not an HTML page, and the client is still there when it arrives.
  (A local outcome with the client gone is settled by \<^verbatim>\<open>prepareAndSend\<close> itself.)
\<close>

definition is_read :: "attempt_in \<Rightarrow> bool" where
  "is_read x \<longleftrightarrow> \<not> html_answer (reply x)
     \<and> (gone_after x \<longrightarrow> (case reply x of Answer status ct body h \<Rightarrow> False | _ \<Rightarrow> True))"

lemma sent_gw:
  "ls_gw (sent_state cfg fo i x s) = snd (prepare_and_send cfg x (fo_targets fo ! i) (fo_tokens fo) (fo_agent fo)
      (fo_key fo) (fo_cooldown fo) (ls_gw (charged_state fo x s)))"
  "sent_action cfg fo i x s = fst (prepare_and_send cfg x (fo_targets fo ! i) (fo_tokens fo) (fo_agent fo)
      (fo_key fo) (fo_cooldown fo) (ls_gw (charged_state fo x s)))"
  by (simp_all add: sent_state_def sent_action_def dispatch_def split_beta Let_def)

lemma local_reply_kind:
  "(case reply x of Answer status ct body h \<Rightarrow> False | _ \<Rightarrow> True)
     \<Longrightarrow> fst (check_pre_dispatch_guards cfg (at_gate x) t tokens agent key gw) = None
     \<Longrightarrow> ua_kind (fst (prepare_and_send cfg x t tokens agent key cd gw)) = Kind_continue"
  by (auto simp: prepare_and_send_def local_action_def split: upstream_reply.splits prod.splits option.splits)

lemma skip_kind:
  "fst (check_pre_dispatch_guards cfg t target tokens agent key gw) = Some a \<Longrightarrow> ua_kind a = Kind_continue"
  using skipped_guards
  by (auto simp: guards_unfold budget_gate_answer skip_action_def local_action_def split: if_splits)

lemma loop_pass_kept:
  assumes "i < length (fo_targets fo)" "\<And>t. t \<in> set (fo_targets fo) \<Longrightarrow> \<not> byok t \<and> cool_key t \<noteq> []"
    and "body_settles fo x" "is_read x"
  shows "kept (ls_gw s) (ls_gw (pass_state (loop_pass w cfg fo i x s)))"
proof -
  let ?t = "fo_targets fo ! i"
  have t: "\<not> byok ?t" "cool_key ?t \<noteq> []" and m: "?t \<in> set (fo_targets fo)" using assms(1,2) by auto
  let ?sd = "sent_state cfg fo i x s" and ?a = "sent_action cfg fo i x s"
  note e = enforce_kept [of s fo x]
  have ps: "prepare_and_send cfg x ?t (fo_tokens fo) (fo_agent fo) (fo_key fo) (fo_cooldown fo)
      (ls_gw (charged_state fo x s)) = (?a, ls_gw ?sd)"
    by (simp add: sent_gw)
  have took: "took (cool_key ?t) (ls_gw s) (ls_gw ?sd)"
    using kept_took [OF e prepare_and_send_probes(1) [OF t ps]] .
  have local: "kept (ls_gw s) (ls_gw ?sd)" if "ua_kind ?a = Kind_continue"
    using kept_trans [OF e prepare_and_send_probes(2) [OF t ps that]] assms(4) by (simp add: is_read_def)
  have fin: "kept (ls_gw s) (ls_gw (snd (pass_result w cfg fo i x s)))"
  proof (cases "ua_kind ?a")
    case Kind_continue
    then show ?thesis using local by (simp add: pass_result_def action_result_gw)
  next
    case Kind_error
    then show ?thesis
      using took_gives_back [OF took] error_outcome_gives_back [OF t, of "?sd\<lparr>upstream_reached := True\<rparr>"]
      by (simp add: pass_result_def action_result_gw)
  next
    case Kind_stream
    then show ?thesis
      using took_gives_back [OF took] assms(3) m by (simp add: pass_result_def action_result_gw body_settles_def)
  next
    case Kind_response
    then show ?thesis
      using took_gives_back [OF took] assms(3) m by (simp add: pass_result_def action_result_gw body_settles_def)
  qed
  have left: "kept (ls_gw s) (ls_gw ?sd)" if "gone_after x"
  proof (rule local)
    have r: "case reply x of Answer status ct body h \<Rightarrow> False | _ \<Rightarrow> True" using assms(4) that by (simp add: is_read_def)
    show "ua_kind ?a = Kind_continue"
    proof (cases "fst (check_pre_dispatch_guards cfg (at_gate x) ?t (fo_tokens fo) (fo_agent fo) (fo_key fo)
          (ls_gw (charged_state fo x s)))")
      case None
      then show ?thesis using local_reply_kind [OF r None] by (simp add: sent_gw)
    next
      case (Some a)
      then show ?thesis using skip_kind [OF Some] Some by (auto simp: sent_gw prepare_and_send_def split: prod.split)
    qed
  qed
  show ?thesis
    by (cases rule: loop_pass_gw [of w cfg fo i x s]) (simp_all add: e fin left)
qed

lemma run_loop_kept:
  assumes "\<And>t. t \<in> set (fo_targets fo) \<Longrightarrow> \<not> byok t \<and> cool_key t \<noteq> []"
    and "\<And>m. body_settles fo (ins m) \<and> is_read (ins m)"
  shows "kept (ls_gw s) (ls_gw (snd (run_loop w cfg fo ins i n s)))"
  using assms
proof (induction w cfg fo ins i n s rule: run_loop.induct)
  case (1 w cfg fo ins i n s)
  show ?case
  proof (cases "i < length (fo_targets fo)")
    case True
    have k: "kept (ls_gw s) (ls_gw (pass_state (loop_pass w cfg fo i (ins n) s)))"
      using loop_pass_kept [OF True "1.prems"(1)] "1.prems"(2) by blast
    then show ?thesis
      using "1.IH" [OF True] "1.prems" True by (subst run_loop.simps) (auto split: pass.split intro: kept_trans)
  qed (simp add: run_loop.simps)
qed


subsection \<open>Two answers that are not read\<close>

text \<open>The breaker as the gates left it when the request went out.\<close>

definition sent_breaker :: "gw_config \<Rightarrow> forward_opts \<Rightarrow> nat \<Rightarrow> attempt_in \<Rightarrow> loop_state \<Rightarrow> breaker" where
  "sent_breaker cfg fo i x s = ag_cb (gw_agents (ls_gw (sent_state cfg fo i x s)))"

lemma dispatched_pass_gw:
  assumes "dispatches (pass_state (loop_pass w cfg fo i x s)) = dispatches s + 1"
  shows "ls_gw (pass_state (loop_pass w cfg fo i x s)) =
    (if gone_after x then ls_gw (sent_state cfg fo i x s) else ls_gw (snd (pass_result w cfg fo i x s)))"
proof -
  obtain ao s1 where r: "pass_result w cfg fo i x s = (ao, s1)" by (cases "pass_result w cfg fo i x s")
  let ?c = "consume_same_target_retry cfg fo i (ao_status ao) (ao_retryable ao) s1"
  note parts = loop_pass_parts [of w cfg fo i x s, unfolded r fst_conv snd_conv]
  have e: "dispatches (charged_state fo x s) = dispatches s"
    using enforce_budgets_frame [of fo "at_charge x" s] by (simp add: charged_state_def)
  have n: "fst (enforce_budgets fo (at_charge x) s) = None"
    using assms e by (cases "fst (enforce_budgets fo (at_charge x) s)") (auto simp: parts split: if_splits)
  show ?thesis
  proof (cases ?c)
    case None
    then show ?thesis using assms by (auto simp: parts n r split: if_splits)
  next
    case (Some s2)
    then have "ls_gw s2 = ls_gw s1" using consume_same_target_retry_Some by fastforce
    then show ?thesis using assms Some by (auto simp: parts n r split: if_splits)
  qed
qed

lemma allow_gomap_ok: "gomap_ok (circuits cb) \<Longrightarrow> gomap_ok (circuits (snd (allow t key cb)))"
  using evict_for_capacity_evicts [of cb "t_get t"]
  by (auto simp: allow_def get_or_create_def split_beta Let_def store_def evicts_to_def set_state_def split: cstate.split)

lemma allow_run_full:
  assumes "gomap_ok (circuits cb)" "map_of (circuits cb) key = Some c" "c_state c = HalfOpen"
    and "half_open_max_requests cb \<le> half_open_inflight c"
  shows "True \<notin> set (fst (allow_run ts key cb))"
  using assms
proof (induction ts arbitrary: cb c)
  case (Cons t ts)
  note a = allow_half_open [OF Cons.prems(1-3), of t]
  have n: "\<not> half_open_inflight c < half_open_max_requests cb" using Cons.prems(4) by simp
  obtain c' where c': "map_of (circuits (snd (allow t key cb))) key = Some c'" "c_state c' = HalfOpen"
    "half_open_inflight c' = half_open_inflight c"
    using a(2) n by auto
  have "gomap_ok (circuits (snd (allow t key cb)))"
    using Cons.prems(1) allow_gomap_ok by blast
  then have "True \<notin> set (fst (allow_run ts key (snd (allow t key cb))))"
    using Cons.IH [OF _ c'(1,2)] c'(3) a(3) Cons.prems(4) by simp
  then show ?case using a(1) n by (simp add: split_beta Let_def)
qed simp

lemma html_local:
  assumes "html_answer (reply x)"
  shows "ua_kind (sent_action cfg fo i x s) = Kind_continue"
proof (cases "fst (check_pre_dispatch_guards cfg (at_gate x) (fo_targets fo ! i) (fo_tokens fo) (fo_agent fo)
    (fo_key fo) (ls_gw (charged_state fo x s)))")
  case None
  then show ?thesis
    using assms by (auto simp: sent_gw prepare_and_send_def html_answer_def handle_upstream_response_def
        local_action_def split: prod.splits upstream_reply.splits)
next
  case (Some a)
  then show ?thesis using skip_kind [OF Some] by (auto simp: sent_gw prepare_and_send_def split: prod.split)
qed

text \<open>
  C3: An answer the loop does not read leaves its probe out for good. When the upstream answers
  a half-open circuit's last probe with an HTML page, or the client leaves just as the answer
  arrives, nobody gives the probe back: the circuit stays half-open with no probe free, and every
  later request is refused, however long it waits.
\<close>

theorem unread_answer_wedges_the_circuit:
  assumes "dispatches (pass_state (loop_pass w cfg fo i x s)) = dispatches s + 1"
    and "html_answer (reply x) \<or> gone_after x"
    and "map_of (circuits (sent_breaker cfg fo i x s)) key = Some c" "c_state c = HalfOpen"
    and "half_open_max_requests (sent_breaker cfg fo i x s) \<le> half_open_inflight c"
    and "gomap_ok (circuits (sent_breaker cfg fo i x s))"
  shows "True \<notin> set (fst (allow_run ts key (ag_cb (gw_agents (ls_gw (pass_state (loop_pass w cfg fo i x s)))))))"
proof -
  have "ls_gw (pass_state (loop_pass w cfg fo i x s)) = ls_gw (sent_state cfg fo i x s)"
    using dispatched_pass_gw [OF assms(1)] assms(2) html_local [of x cfg fo i s]
    by (auto simp: pass_result_def action_result_gw)
  then have b: "ag_cb (gw_agents (ls_gw (pass_state (loop_pass w cfg fo i x s)))) = sent_breaker cfg fo i x s"
    by (simp add: sent_breaker_def)
  show ?thesis unfolding b by (rule allow_run_full [OF assms(6,3,4,5)])
qed

subsection \<open>An example\<close>

definition ex_opts_one :: forward_opts where
  "ex_opts_one = \<lparr>fo_targets = [ex_target ''p'' ''x''], fo_agent = ''ag'', fo_sticky = [], fo_max_retries = 0,
     fo_cooldown = second, fo_tokens = 4, fo_key = None, fo_payload = []\<rparr>"

definition ex_attempt :: "upstream_reply \<Rightarrow> attempt_in" where
  "ex_attempt r = \<lparr>gone_before = False, gone_after = False, gone_at_error = False, at_charge = 0,
     at_gate = ex_gate_clock, at_network = at_second 2, at_error = ex_error_clock, reply = r,
     transformed = (\<lambda>p. p), summary = None, backoff_jitter = 0, repeat_jitter = 0,
     body_effect = (\<lambda>t. release_probe (cool_key t)), body_result = Body_delivered\<rparr>"

definition ex_html :: attempt_in where
  "ex_html = ex_attempt (Answer 200 ''text/html'' ''hello'' (\<lambda>_. []))"

lemma ex_html_dispatched:
  "dispatches (pass_state (loop_pass ex_wire ex_gw_config ex_opts_one 0 ex_html (new_retry_loop (ex_gw_state 9)))) = 1"
  by code_simp

lemma ex_html_circuit:
  "map_option (\<lambda>c. (c_state c, half_open_inflight c))
     (map_of (circuits (sent_breaker ex_gw_config ex_opts_one 0 ex_html (new_retry_loop (ex_gw_state 9)))) ''ag:p:x'')
   = Some (HalfOpen, 1)
   \<and> half_open_max_requests (sent_breaker ex_gw_config ex_opts_one 0 ex_html (new_retry_loop (ex_gw_state 9))) = 1"
  by code_simp

lemma ex_html_distinct:
  "distinct (map fst (circuits (sent_breaker ex_gw_config ex_opts_one 0 ex_html (new_retry_loop (ex_gw_state 9)))))"
  by code_simp

theorem unread_answer_wedges_the_circuit_witness:
  "True \<notin> set (fst (allow_run [at_second 100, at_second 1000000] ''ag:p:x''
     (ag_cb (gw_agents (ls_gw (pass_state (loop_pass ex_wire ex_gw_config ex_opts_one 0 ex_html
        (new_retry_loop (ex_gw_state 9)))))))))"
proof -
  let ?b = "sent_breaker ex_gw_config ex_opts_one 0 ex_html (new_retry_loop (ex_gw_state 9))"
  obtain c where c: "map_of (circuits ?b) ''ag:p:x'' = Some c" "c_state c = HalfOpen" "half_open_inflight c = 1"
    using ex_html_circuit by auto
  have "html_answer (reply ex_html)" by code_simp
  then show ?thesis
    by (intro unread_answer_wedges_the_circuit [OF _ _ c(1,2)])
      (use ex_html_dispatched ex_html_circuit ex_html_distinct c(3) in \<open>simp_all\<close>)
qed


theorem client_gets_one_answer_witness:
  "length (answers (forward_to_upstream ex_wire ex_gw_config ex_opts_one
      (\<lambda>n. ex_attempt (Answer 500 [] ''oops'' (\<lambda>_. []))) False (ex_gw_state 9))) = 1"
  using client_gets_one_answer [of ex_wire ex_gw_config ex_opts_one "\<lambda>n. ex_attempt (Answer 500 [] ''oops'' (\<lambda>_. []))"
      False "ex_gw_state 9"]
  by (simp add: ex_attempt_def)

end
