(* ===== verification/Spec2Isabelle.thy ===== *)
theory Spec2Isabelle
  imports Breaker_Props ErrorText Classifier Backoff RateLimit Concurrency Pool_Selection Pool_Errors
    KeyLimits Rbac Cache_Props SessionRouter Affinity IpDeny Idempotency UtilRetry
    CatalogMerge TargetList SchemaBudget SchemaRefs Latency Spend AnthropicStream JsonScan StreamSurface
    RetryProps
begin

text \<open>
  Nenya is an HTTP gateway between clients and language-model providers. A request is
  authenticated and authorised (internal/auth), the chain of models its agent is configured with
  is expanded against the model catalog (internal/discovery) into an ordered list of targets
  (internal/routing), its session identity is derived and pinned to one of them, an account of the provider is selected (internal/auth/pool.go), the
  circuit breaker, rate and concurrency limiters are asked (internal/resilience,
  internal/infra), and a response may be replayed from the cache or stored in it
  (internal/infra/response_cache.go). Failures are classified and feed the breaker and the
  account pool back. The dispatch loop (internal/proxy/retry.go) composes these parts: it passes
  each target through the gates, sends, classifies what comes back and goes on to the next target.
  A streamed answer is filtered and converted on its way to the client (internal/stream). This
  development models the core of that path: the components that decide whether, where and with
  which credential a request goes out, the loop that drives them, and what may pass back.

  \<^bold>\<open>Theories and sources.\<close>
  \<^item> \<open>Prelude\<close>: Go maps as association lists, times, strings, saturating counters, the
    locales \<open>keyed_store\<close> (the contract of a Go map) and \<open>machine\<close> (a state with operations and
    an invariant they keep). \<open>Json\<close>: decoded JSON values.
  \<^item> \<open>Backoff\<close>, \<open>Classifier\<close>, \<open>ErrorText\<close>, \<open>CircuitBreaker\<close>, \<open>Breaker_Invariant\<close>,
    \<open>Breaker_Props\<close>: internal/resilience/backoff.go, classifier.go, circuitbreaker.go and
    internal/util/errors.go. \<open>breaker\<close> is \<^verbatim>\<open>CircuitBreaker\<close> with its registry of \<open>circuit\<close>s;
    \<open>allow\<close>, \<open>record_failure\<close>, \<open>force_open\<close> and the others are its methods; \<open>cb_step\<close> runs
    any of them. Shown: every reachable circuit is well formed, the callback log replays to the
    registry, the threshold, the number of half-open probes, the monotone deadlines, \<^verbatim>\<open>Peek\<close>
    against \<^verbatim>\<open>Allow\<close>, and what the registry cap does to a circuit in use.
  \<^item> \<open>RateLimit\<close>: internal/infra/ratelimit.go. Shown: the token-bucket law for admitted bursts,
    the double credit after a rejection, the cap on hosts.
  \<^item> \<open>Concurrency\<close>: internal/infra/concurrency.go. \<^verbatim>\<open>Acquire\<close> is a step relation between
    threads, since its token send and its registry check interleave with evictions. Shown: the
    limit holds in every reachable state.
  \<^item> \<open>AccountPool\<close>, \<open>Pool_Selection\<close>, \<open>Pool_Errors\<close>: internal/auth/pool.go, errors.go and
    the account type of config/provider_account_types.go. Shown: what a selection answers and
    changes, weighted fairness in a burst, round robin for spaced traffic, the scope of an error
    and how long it lasts, the whole-token search.
  \<^item> \<open>KeyLimits\<close>, \<open>Rbac\<close>: internal/auth/keylimits.go and rbac.go. Shown: bounds on admitted
    requests and tokens, provider tiers, fail-closed authorisation, endpoint and tool authority.
  \<^item> \<open>EmbedIndex\<close>, \<open>ResponseCache\<close>, \<open>Cache_Invariant\<close>, \<open>Cache_Props\<close>:
    internal/infra/embed_index.go and response_cache.go. Shown: bounds and consistency of every
    reachable cache, exact hits replay the last store, semantic hits stay in the caller's
    namespace, the order of eviction.
  \<^item> \<open>SessionRouter\<close>, \<open>Affinity\<close>: internal/routing/session.go and affinity.go. Shown: a pin in
    use is kept, a growing conversation keeps its identity, the number of fork identities.
  \<^item> \<open>IpDeny\<close>: internal/netutil/ipdeny.go. Shown: numeric spellings of a host are judged by the
    address they reach.
  \<^item> \<open>GatewayConfig\<close>: the types of config/types.go and config/entry.go that routing reads
    (\<open>agent_model\<close>, \<open>agent_config\<close>, \<open>provider\<close>, \<open>model_entry\<close>) and the registry lookups.
  \<^item> \<open>Pricing\<close>: the prices and peak windows of config/entry.go and internal/discovery/pricing.go.
    Shown: the cost of a call is bounded by its rate card and grows with usage, a peak window
    is a daily interval of minutes.
  \<^item> \<open>Catalog\<close>, \<open>CatalogMerge\<close>: internal/discovery/discovery.go, capabilities.go and merge.go.
    Shown: the indexes of a catalog agree in every reachable state, which rate card a model
    keeps, the merge of discovery, registry and overrides against a specification by
    comprehension, each provider and model pair admitted once.
  \<^item> \<open>Resolver\<close>, \<open>TargetExpand\<close>, \<open>TargetList\<close>: internal/routing/resolver.go and targets.go.
    Model fields are resolved through the layers of configuration and catalog, deferred,
    provider-only and regular-expression entries are expanded, and \<open>build_target_list\<close> builds
    the targets in rotated order and splits them by \<^verbatim>\<open>Peek\<close> of the breaker. Shown: the list
    refines that description, what every listed target satisfies, the fairness of the rotation.
  \<^item> \<open>Idempotency\<close>, \<open>UtilRetry\<close>: internal/proxy/idempotency.go, internal/util/retry.go and the
    token arithmetic of internal/util/math.go. Shown: one key per dispatched body, the contract
    of the retry loop, the backoff's bound, prompt and reply fit the window.
  \<^item> \<open>AdapterErrors\<close>, \<open>ErrorPolicy\<close>: the error classes of internal/adapter, and
    internal/proxy/error_classify.go, ratelimit_headers.go and the classification half of retry.go.
    Shown: which errors are retried, the range of every delay and cooldown, what is recorded.
  \<^item> \<open>Probes\<close>, \<open>DispatchGates\<close>, \<open>RetryLoop\<close>, \<open>RetryProps\<close>: internal/proxy/retry.go and
    context_limit.go. \<open>check_pre_dispatch_guards\<close> is the sequence of gates over \<open>gw_state\<close>, the limiters,
    usage tracker, breaker and cost tracker together; \<open>run_loop\<close> is the sweep over the targets and
    \<open>forward_to_upstream\<close> the whole dispatch. Shown: the client gets one answer, a pass that ends
    with a refusal or an error gives its half-open probe back and which passes do not, at most one
    dispatch per target plus the configured repeats.
  \<^item> \<open>SliceSort\<close>, \<open>Latency\<close>, \<open>Spend\<close>: \<^verbatim>\<open>sort.SliceStable\<close>, internal/infra/latency.go,
    internal/infra/cost_tracker.go and internal/billing/tracker.go. Shown: windows stay sorted and
    bounded, what the order of targets does for any jitter, rounding of small charges, races.
  \<^item> \<open>Text\<close>, \<open>SchemaBudget\<close>, \<open>SchemaSanitize\<close>, \<open>SchemaSafe\<close>, \<open>SchemaFixed\<close>, \<open>SchemaRefs\<close>:
    internal/jsonschema. The budget walk over an explicit stack, and the recursive rewriting of a
    schema. Shown: the walk decides the size bounds, the output is in the grammar of provider-safe
    schemas, a safe schema is left alone, how shared references multiply.
  \<^item> \<open>JsonScan\<close>: internal/util/jsonscan.go. Shown: the scanner accepts exactly the values of the
    RFC 8259 grammar, at any depth of nesting.
  \<^item> \<open>UsageNorm\<close>, \<open>AnthropicStream\<close>: internal/stream/usage_normalize.go and
    openai_to_anthropic_transformer.go. Shown: the counters of the three usage shapes, the
    events of a converted stream form a valid sequence of blocks when the call indexes are.
  \<^item> \<open>RuneWindow\<close>, \<open>TextSpans\<close>, \<open>CanaryWatch\<close>, \<open>Redaction\<close>, \<open>StreamFilter\<close>, \<open>ExfilGuard\<close>,
    \<open>StreamSurface\<close>: internal/stream/util.go, exfil.go, filter.go, entropy.go, the filter stages of
    reader_pipeline.go, internal/pipeline/canary.go, checksum.go and filter.go. Shown: a canary is
    found however it is split over deltas, a blocked stream stays blocked, log mode passes a
    stream through unchanged, released text holds no judged link, redaction against its splice.

  \<^bold>\<open>Conventions.\<close> A method that holds its mutex throughout is one function from state to state;
  its clock readings, random draws and the results of injected callbacks are arguments. A Go map
  is an association list with distinct keys in some order, and the theorems quantify over the
  list, hence over every iteration order. \<^verbatim>\<open>time.Time\<close> and \<^verbatim>\<open>time.Duration\<close> are integers of
  nanoseconds. Words are used where the code relies on their width (the breaker's counters),
  integers elsewhere, with wrap-around written out where a branch depends on it.
  \<^verbatim>\<open>float64\<close> and \<^verbatim>\<open>float32\<close> values are exact numbers. SHA-256, JSON encoding,
  \<^verbatim>\<open>net.ParseIP\<close>, URL parsing and \<^verbatim>\<open>regexp\<close> compilation are arguments of the definitions that
  use them, and so are the Go interfaces a component is given (the account selector and the
  local engine of the target builder). A compiled pattern is the list of its matches in a text and
  the expansion of a template (\<open>regexp\<close>); \<open>url_tools\<close> and \<open>wire\<close> hold the parsers the egress guard
  and the error classification call. \<^verbatim>\<open>sort.SliceStable\<close> is the insertion sort it is on at most
  twenty elements. Entropies are real numbers. The classification of one error reads the clock
  once. What the response handlers do to the shared state is an argument of the dispatch loop
  (\<open>body_effect\<close>). A panic is
  \<open>None\<close>. Log lines are left out; metric callbacks with a contract are kept as logs.

  \<^bold>\<open>Locales.\<close> \<open>keyed_store\<close> is interpreted on the association-list map (\<open>gm\<close>), \<open>level_tracker\<close>
  on the backoff tracker (\<open>bt\<close>), and \<open>machine\<close> on each stateful component with its
  invariant: \<open>breaker\<close>, \<open>limiter\<close>, \<open>pool\<close>, \<open>usage\<close>, \<open>cache\<close>, \<open>catm\<close>, \<open>sess\<close>, \<open>aff\<close> and \<open>lat\<close>; the theorems
  about reachable states rest on \<open>run_inv\<close> of these. \<open>rune_window\<close> (a bounded window and what it
  sees of a stream) is interpreted on the window of the filters (\<open>rw\<close>), and \<open>slot_ledger\<close> (a
  count of slots taken and given back) on the half-open probes of the breaker (\<open>probe\<close>).

  \<^bold>\<open>Bounds.\<close> No definition uses fuel: loops are structural or have a termination proof, with the
  length of the remaining list or string as the measure. The schema rewriting and the scanner are
  mutually recursive functions: the first decreases the reference hops left and the size of the
  value, the second the input left; \<open>run_loop\<close> decreases the targets left and, for one target, the repeats left.

  \<^bold>\<open>Not modelled.\<close> The HTTP handlers and the chat pipeline of internal/proxy, the handling of
  response bodies, the payload transforms of internal/routing, trimming and windowing of the
  conversation, the stream readers, the mapping of requests and responses in the adapters, the
  HTTP side of discovery, MCP, configuration loading and validation, the gateway's wiring and the
  process entry points: I/O and glue around the modelled parts.
\<close>

end
